(* ===== verification/Prelude.thy ===== *)
theory Prelude
  imports Main "HOL-Library.Word" "HOL-Library.Multiset"
begin

text \<open>
  Shared vocabulary of the development: the C integer types as words, byte arrays as lists,
  the shifts of C as abbreviations, the parity of a word, and the generic lemmas on words,
  bits and lists that the component theories use. A C integer of width \<open>w\<close> is a
  \<open>w word\<close>; arithmetic that C performs after promotion to \<open>int\<close> and stores back into an
  unsigned type of width \<open>w\<close> is the word arithmetic of that width, and wider
  intermediate results are written with an explicit \<open>ucast\<close>.
\<close>

unbundle bit_operations_syntax

type_synonym u8 = "8 word"
type_synonym u16 = "16 word"
type_synonym u32 = "32 word"
type_synonym u64 = "64 word"
type_synonym bytes = "u8 list"

abbreviation shl :: "'a::len word \<Rightarrow> nat \<Rightarrow> 'a word" where
  "shl w n \<equiv> push_bit n w"

abbreviation shr :: "'a::len word \<Rightarrow> nat \<Rightarrow> 'a word" where
  "shr w n \<equiv> drop_bit n w"

text \<open>\<open>BIT(x, n)\<close> of \<open>crapto1.h\<close> and the many \<open>(x >> n) & 1\<close> of the code, as a word.\<close>

abbreviation bit01 :: "'a::len word \<Rightarrow> nat \<Rightarrow> 'b::len word" where
  "bit01 x n \<equiv> of_bool (bit x n)"

declare push_bit_Suc [simp del] drop_bit_Suc [simp del]

named_theorems word_bits \<open>rules that push \<open>bit\<close> through the operations of the model\<close>
named_theorems codec_laws \<open>read-after-write laws of the packed representations\<close>
named_theorems inv_intros \<open>preservation of the component invariants\<close>

subsection \<open>Exhaustion over small types\<close>

text \<open>A property of a byte holds when it holds for the 256 numerals.\<close>

lemma all_u8_exhaust:
  assumes "list_all P (map word_of_nat [0..<256])"
  shows "P (b :: u8)"
proof -
  have "unat b < 256" using unsigned_less [of b] by simp
  with assms have "P (word_of_nat (unat b))"
    unfolding list_all_iff by (metis atLeast0LessThan atLeast_upt imageI image_set lessThan_iff)
  then show ?thesis by simp
qed

lemma less_8_cases:
  assumes "(i::nat) < 8"
  obtains "i = 0" | "i = 1" | "i = 2" | "i = 3" | "i = 4" | "i = 5" | "i = 6" | "i = 7"
  using assms by linarith

lemma all_less_8:
  "(\<forall>i<(8::nat). P i) \<longleftrightarrow> P 0 \<and> P 1 \<and> P 2 \<and> P 3 \<and> P 4 \<and> P 5 \<and> P 6 \<and> P 7"
  by (auto elim: less_8_cases)

text \<open>
  A bounded index of a fixed range is treated by listing the range: \<open>less_list_all\<close> turns the
  goal into a conjunction over \<open>[0..<n]\<close>, and \<open>upt_8\<close>, \<open>upt_16\<close>, \<open>upt_32\<close> write that list out.
\<close>

lemma less_list_all: "i < n \<Longrightarrow> list_all P [0..<n] \<Longrightarrow> P i"
  by (simp add: list_all_iff)

lemma upt_8: "[0..<8] = [0,1,2,3,4,5,6,7]"
  by code_simp

lemma upt_16: "[0..<16] = [0,1,2,3,4,5,6,7,8,9,10,11,12,13,14,15]"
  by code_simp

lemma upt_32: "[0..<32] =
  [0,1,2,3,4,5,6,7,8,9,10,11,12,13,14,15,16,17,18,19,20,21,22,23,24,25,26,27,28,29,30,31]"
  by code_simp

lemma u8_eqI:
  fixes a b :: u8
  assumes "\<And>i. i < 8 \<Longrightarrow> bit a i = bit b i"
  shows "a = b"
  using assms by (intro bit_word_eqI) simp

subsection \<open>Bits of the usual shapes\<close>

lemmas word_bits_core [word_bits] =
  bit_and_iff bit_or_iff bit_xor_iff bit_not_iff bit_push_bit_iff bit_drop_bit_eq
  bit_word_ucast_iff bit_of_bool_iff bit_mask_iff bit_take_bit_iff

lemma bit_Suc_norm [simp]:
  "bit w (Suc (Suc 0)) = bit w 2" "bit w (Suc (Suc (Suc 0))) = bit w 3"
  for w :: "'a::len word"
  by (simp_all add: numeral_2_eq_2 numeral_3_eq_3)

text \<open>The literal masks of the code are truncations; unfold before computing bits.\<close>

lemma and_masks:
  "w AND 0xF = take_bit 4 w" "w AND 0x1F = take_bit 5 w" "w AND 0x3F = take_bit 6 w"
  "w AND 0x7F = take_bit 7 w" "w AND 0xFF = take_bit 8 w" "w AND 0xFFFF = take_bit 16 w"
  "w AND 0xFFFFFF = take_bit 24 w" "w AND 0xFFFFFFFF = take_bit 32 w"
  for w :: "'a::len word"
  by (simp_all add: take_bit_eq_mask mask_eq_exp_minus_1)

lemma bit_word_ge [simp]: "LENGTH('a::len) \<le> n \<Longrightarrow> \<not> bit (w :: 'a word) n"
  using bit_imp_le_length leD by blast

lemma bit01_eq_iff [simp]: "(of_bool p :: 'a::len word) = of_bool q \<longleftrightarrow> p = q"
  by (cases p; cases q) auto

lemma shr_and_1: "shr (x :: 'a::len word) n AND 1 = of_bool (bit x n)"
  by (simp add: and_one_eq mod_2_eq_odd bit_iff_odd_drop_bit)

lemma ucast_of_bool [simp]: "ucast (of_bool p :: 'a::len word) = (of_bool p :: 'b::len word)"
  by (cases p) simp_all

lemma ucast_xor [simp]:
  "LENGTH('b::len) \<le> LENGTH('a::len) \<Longrightarrow>
   ucast ((x :: 'a word) XOR y) = (ucast x XOR ucast y :: 'b word)"
  by (rule bit_word_eqI) (auto simp: word_bits)

lemma xor_cancel [simp]:
  "a XOR (a XOR b) = b" "a XOR (b XOR a) = b" "(a XOR b) XOR a = b" "(b XOR a) XOR a = b"
  for a b :: "'a::len word"
  by (rule bit_word_eqI; auto simp: word_bits)+

lemma xor_eq_cancel [simp]:
  "a XOR p = b XOR p \<longleftrightarrow> a = b" "p XOR a = p XOR b \<longleftrightarrow> a = b"
  for a b p :: "'a::len word"
  by (metis xor_cancel(3), metis xor_cancel(1))

lemma bit_lt_mask:
  assumes "unat (w :: 'a::len word) < 2 ^ k" and "k \<le> n"
  shows "\<not> bit w n"
proof -
  have "take_bit k (unat w) = unat w"
    using assms(1) by (rule take_bit_nat_eq_self)
  then have "\<not> bit (unat w) n"
    using assms(2) by (metis bit_take_bit_iff leD)
  then show ?thesis
    by (cases "n < LENGTH('a)") (auto simp: bit_unsigned_iff)
qed

lemma unat_lt_bits:
  assumes "\<And>n. k \<le> n \<Longrightarrow> \<not> bit (w :: 'a::len word) n"
  shows "unat w < 2 ^ k"
proof -
  have "bit (take_bit k w) n = bit w n" for n
    using assms [of n] by (cases "n < k") (auto simp: bit_take_bit_iff)
  then have "take_bit k w = w"
    by (intro bit_word_eqI) simp
  then show ?thesis
    by (metis take_bit_nat_less_exp unsigned_take_bit_eq)
qed

lemma unat_ucast_up:
  assumes "LENGTH('a::len) \<le> LENGTH('b::len)"
  shows "unat (ucast (x :: 'a word) :: 'b word) = unat x"
proof -
  have "unat x < 2 ^ LENGTH('b)"
    using assms unsigned_less [of x] by (meson less_le_trans one_le_numeral power_increasing)
  then show ?thesis
    by (simp add: unsigned_ucast_eq take_bit_nat_eq_self)
qed

subsection \<open>The parity of a word\<close>

text \<open>
  \<open>wparity w\<close> is \<open>__builtin_parity(w)\<close>: whether the number of set bits is odd. It is linear
  over \<open>XOR\<close>, which is what every parity and LFSR argument of the development uses.
\<close>

definition wparity :: "'a::len word \<Rightarrow> bool" where
  "wparity w = odd (length (filter (bit w) [0..<LENGTH('a)]))"

lemma odd_filter_xor:
  "odd (length (filter (\<lambda>i. p i \<noteq> q i) xs)) =
   (odd (length (filter p xs)) \<noteq> odd (length (filter q xs)))"
  by (induction xs) auto

lemma wparity_xor: "wparity (v XOR w) = (wparity v \<noteq> wparity w)"
proof -
  have "bit (v XOR w) = (\<lambda>i. bit v i \<noteq> bit w i)"
    by (rule ext) (simp add: bit_xor_iff)
  then show ?thesis
    unfolding wparity_def by (simp only: odd_filter_xor)
qed

lemma wparity_0 [simp]: "wparity 0 = False"
  by (simp add: wparity_def)

lemma wparity_of_bool [simp]: "wparity (of_bool p :: 'a::len word) = p"
proof (cases p)
  case True
  have "filter (bit (1 :: 'a word)) [0..<LENGTH('a)] = [0]"
    by (simp add: bit_1_iff upt_conv_Cons)
  with True show ?thesis by (simp add: wparity_def)
qed simp

lemma wparity_shift1:
  fixes w :: "'a::len word"
  shows "wparity w = (wparity (drop_bit 1 w) \<noteq> odd w)"
proof -
  let ?f = "\<lambda>i. bit w i" and ?L = "LENGTH('a)"
  have "filter ?f [0..<?L] = (if odd w then [0] else []) @ filter ?f (map Suc [0..<?L - 1])"
    using len_gt_0 [where 'a='a]
    by (cases ?L) (simp_all add: upt_conv_Cons bit_0 map_Suc_upt del: upt_Suc)
  moreover have "length (filter ?f (map Suc [0..<?L - 1])) =
      length (filter (bit (drop_bit 1 w)) [0..<?L - 1])"
    by (simp add: filter_map comp_def bit_drop_bit_eq)
  moreover have "filter (bit (drop_bit 1 w)) [0..<?L] = filter (bit (drop_bit 1 w)) [0..<?L - 1]"
    using len_gt_0 [where 'a='a]
    by (cases ?L) (simp_all add: bit_drop_bit_eq)
  ultimately show ?thesis
    by (simp add: wparity_def)
qed

subsection \<open>Words from bits\<close>

definition word_of_bits :: "(nat \<Rightarrow> bool) \<Rightarrow> 'a::len word" where
  "word_of_bits p = horner_sum of_bool 2 (map p [0..<LENGTH('a)])"

lemma bit_word_of_bits [simp]:
  "bit (word_of_bits p :: 'a::len word) n \<longleftrightarrow> n < LENGTH('a) \<and> p n"
  by (cases "n < LENGTH('a)") (simp_all add: word_of_bits_def bit_horner_sum_bit_word_iff)

text \<open>The loop that shifts one bit after another into an accumulator, most significant first.\<close>

lemma bit_fold_shl:
  "bit (fold (\<lambda>i acc. shl acc 1 OR of_bool (p i)) xs (0 :: 'a::len word)) n \<longleftrightarrow>
    n < LENGTH('a) \<and> n < length xs \<and> p (xs ! (length xs - 1 - n))"
proof (induction xs arbitrary: n rule: rev_induct)
  case (snoc x xs)
  let ?acc = "fold (\<lambda>i acc. shl acc 1 OR of_bool (p i)) xs (0 :: 'a word)"
  have "fold (\<lambda>i acc. shl acc 1 OR of_bool (p i)) (xs @ [x]) (0 :: 'a word) = shl ?acc 1 OR of_bool (p x)"
    by simp
  moreover have "bit (shl ?acc 1 OR of_bool (p x)) n \<longleftrightarrow> n < LENGTH('a) \<and> (if n = 0 then p x else bit ?acc (n - 1))"
    by (cases n) (auto simp: word_bits)
  ultimately show ?case
    unfolding snoc by (cases n) (auto simp: nth_append)
qed simp

subsection \<open>Arrays\<close>

lemma nth_list_update_if:
  "i < length xs \<Longrightarrow> (xs[j := x]) ! i = (if i = j then x else xs ! i)"
  by auto

lemma list_eq_8:
  "length xs = 8 \<Longrightarrow> xs = [xs!0, xs!1, xs!2, xs!3, xs!4, xs!5, xs!6, xs!7]"
  by (auto simp: list_eq_iff_nth_eq numeral_eq_Suc less_Suc_eq)

lemma fold_invariant_upt:
  assumes "P 0 s" and "\<And>i s. i < n \<Longrightarrow> P i s \<Longrightarrow> P (Suc i) (f i s)"
  shows "P n (fold f [0..<n] s)"
  using assms
proof (induction n)
  case (Suc n)
  then have "P n (fold f [0..<n] s)" by auto
  then show ?case using Suc.prems(2) [of n] by simp
qed simp

text \<open>A block of bytes stored at an index of an array.\<close>

definition write_at :: "nat \<Rightarrow> bytes \<Rightarrow> bytes \<Rightarrow> bytes" where
  "write_at i bs d = take i d @ bs @ drop (i + length bs) d"

lemma write_at_Cons:
  "i + length (b # bs) \<le> length d \<Longrightarrow> write_at (Suc i) bs (d[i := b]) = write_at i (b # bs) d"
  by (simp add: write_at_def take_Suc_conv_app_nth take_update_cancel)

lemma length_write_at [simp]: "i + length bs \<le> length d \<Longrightarrow> length (write_at i bs d) = length d"
  by (simp add: write_at_def)

lemma write_at_nth:
  "i + length bs \<le> length d \<Longrightarrow> k < length d \<Longrightarrow>
    write_at i bs d ! k = (if k < i then d ! k else if k < i + length bs then bs ! (k - i) else d ! k)"
  by (auto simp: write_at_def nth_append)

text \<open>Reading a block that a write covers, and one that it does not touch.\<close>

lemma read_write_at:
  "i + length bs \<le> length d \<Longrightarrow> length bs = n \<Longrightarrow> take n (drop i (write_at i bs d)) = bs"
  by (simp add: write_at_def)

lemma read_write_at_inside:
  assumes "i + length bs \<le> length d" "i \<le> j" "j + n \<le> i + length bs"
  shows "take n (drop j (write_at i bs d)) = take n (drop (j - i) bs)"
  by (rule nth_equalityI) (use assms in \<open>auto simp: write_at_nth add.commute\<close>)

lemma read_write_at_other:
  assumes "i + length bs \<le> length d" "j + n \<le> i \<or> i + length bs \<le> j"
  shows "take n (drop j (write_at i bs d)) = take n (drop j d)"
proof (rule nth_equalityI)
  fix k assume "k < length (take n (drop j (write_at i bs d)))"
  then have k: "k < n" "j + k < length d" using assms(1) by auto
  then show "take n (drop j (write_at i bs d)) ! k = take n (drop j d) ! k"
    using assms by (auto simp: write_at_nth)
qed (use assms(1) in simp)

end
