(* ===== verification/Crc_Core.thy ===== *)
theory Crc_Core
  imports Prelude
begin

text \<open>
  The mathematics the checksums of the program share. \<open>crc_step\<close> is one shift of a CRC register
  with its polynomial, most significant bit first; it is linear and, for an odd polynomial,
  injective. The locale \<open>byte_register\<close> is the interface of a checksum that consumes bytes one
  by one: from the injectivity of one step it derives that a corrupted byte is never absorbed.
  It is interpreted by the CRC-16, CRC-32 and CRC-64 of the program.
\<close>

definition crc_step :: "'a::len word \<Rightarrow> 'a word \<Rightarrow> 'a word" where
  "crc_step p r = (if bit r (LENGTH('a) - 1) then shl r 1 XOR p else shl r 1)"

lemma crc_step_xor: "crc_step p (x XOR y) = crc_step p x XOR crc_step p y"
  by (rule bit_word_eqI) (auto simp: crc_step_def word_bits)

lemma crc_steps_xor: "(crc_step p ^^ k) (x XOR y) = (crc_step p ^^ k) x XOR (crc_step p ^^ k) y"
  by (induction k) (simp_all add: crc_step_xor)

lemma crc_step_0 [simp]: "crc_step p 0 = 0"
  by (simp add: crc_step_def)

lemma crc_steps_0 [simp]: "(crc_step p ^^ k) 0 = 0"
  by (induction k) simp_all

text \<open>Bits that do not reach the top are only shifted.\<close>

lemma crc_steps_low:
  fixes x :: "'a::len word"
  assumes "k < LENGTH('a)" and "\<And>i. LENGTH('a) - k \<le> i \<Longrightarrow> \<not> bit x i"
  shows "(crc_step p ^^ k) x = shl x k"
  using assms
proof (induction k)
  case (Suc k)
  have "(crc_step p ^^ k) x = shl x k"
    using Suc.prems by (intro Suc.IH) auto
  moreover have "\<not> bit (shl x k) (LENGTH('a) - 1)"
    using Suc.prems by (auto simp: word_bits)
  ultimately have "crc_step p ((crc_step p ^^ k) x) = shl (shl x k) 1"
    by (simp add: crc_step_def)
  then show ?case
    by (simp add: push_bit_push_bit)
qed simp

lemma crc_step_inj:
  fixes p :: "'a::len word"
  assumes "bit p 0" and "crc_step p x = crc_step p y"
  shows "x = y"
proof -
  have top: "bit (crc_step p z) 0 = bit z (LENGTH('a) - 1)" for z
    using assms(1) by (simp add: crc_step_def word_bits)
  then have b: "bit x (LENGTH('a) - 1) = bit y (LENGTH('a) - 1)"
    using assms(2) by metis
  then have "shl x 1 = shl y 1"
    using assms(2) by (auto simp: crc_step_def split: if_splits)
  then have s: "bit (shl x 1) (Suc i) = bit (shl y 1) (Suc i)" for i by simp
  show ?thesis
  proof (rule bit_word_eqI)
    fix i assume "i < LENGTH('a)"
    show "bit x i = bit y i"
    proof (cases "i = LENGTH('a) - 1")
      case False
      with \<open>i < LENGTH('a)\<close> have "Suc i < LENGTH('a)" by simp
      then show ?thesis using s [of i] by (simp add: word_bits)
    qed (use b in simp)
  qed
qed

lemma crc_steps_inj: "bit p 0 \<Longrightarrow> (crc_step p ^^ k) x = (crc_step p ^^ k) y \<Longrightarrow> x = y"
  by (induction k) (auto dest: crc_step_inj)

subsection \<open>Registers fed with bytes\<close>

locale byte_register =
  fixes feed :: "u8 \<Rightarrow> 's \<Rightarrow> 's"
  assumes feed_state_inj: "feed b s = feed b t \<Longrightarrow> s = t"
    and feed_byte_inj: "feed b s = feed c s \<Longrightarrow> b = c"
begin

lemma feed_all_inj: "fold feed bs s = fold feed bs t \<Longrightarrow> s = t"
  by (induction bs arbitrary: s t) (auto dest: feed_state_inj)

text \<open>Two messages of the same shape that differ in exactly one byte have different registers.\<close>

lemma single_byte_detected:
  assumes "b \<noteq> c"
  shows "fold feed (xs @ b # ys) s \<noteq> fold feed (xs @ c # ys) s"
proof
  assume "fold feed (xs @ b # ys) s = fold feed (xs @ c # ys) s"
  then have "feed b (fold feed xs s) = feed c (fold feed xs s)"
    by (simp add: feed_all_inj)
  then show False using assms by (auto dest: feed_byte_inj)
qed

text \<open>Different start values are never merged, and a message determines the start value.\<close>

lemma start_detected: "s \<noteq> t \<Longrightarrow> fold feed bs s \<noteq> fold feed bs t"
  using feed_all_inj by blast

end

end
