(* ===== verification/Common_Util.thy ===== *)
theory Common_Util
  imports Prelude
begin

text \<open>
  \<open>common/commonutil.c\<close>: the bit reversals, the conversions between integers and big- and
  little-endian byte arrays, the rotations and shifts of byte arrays, the hexadecimal decoders
  and the bit concatenation that client and firmware share. A \<open>uint8_t *\<close> is the list of the
  bytes it points to; a function that writes through it returns the new list.
\<close>

subsection \<open>Bit reversal\<close>

text \<open>\<open>BITMASK(X)\<close> of \<open>commonutil.h\<close>.\<close>

definition BITMASK :: "nat \<Rightarrow> u32" where
  "BITMASK k = shl 1 k"

primrec reflect_loop :: "nat \<Rightarrow> nat \<Rightarrow> u32 \<Rightarrow> u32 \<Rightarrow> u32" where
  "reflect_loop 0 b t v = v"
| "reflect_loop (Suc n) b t v =
    (let i = b - Suc n in
     reflect_loop n b (shr t 1)
       (if t AND 1 \<noteq> 0 then v OR BITMASK ((b - 1) - i) else v AND NOT (BITMASK ((b - 1) - i))))"

definition reflect :: "u32 \<Rightarrow> nat \<Rightarrow> u32" where
  "reflect v b = reflect_loop b b v v"

definition reflect8 :: "u8 \<Rightarrow> u8" where
  "reflect8 b = ucast ((ucast b * 0x0202020202 AND 0x010884422010 :: u64) mod 1023)"

definition reflect16 :: "u16 \<Rightarrow> u16" where
  "reflect16 v = (shl (ucast (reflect8 (ucast v))) 8 OR (ucast (reflect8 (ucast (shr v 8))) AND 0xFF))"

definition reflect32 :: "u32 \<Rightarrow> u32" where
  "reflect32 v0 =
    (let v1 = (shr v0 1 AND 0x55555555) OR shl (v0 AND 0x55555555) 1;
         v2 = (shr v1 2 AND 0x33333333) OR shl (v1 AND 0x33333333) 2;
         v3 = (shr v2 4 AND 0x0F0F0F0F) OR shl (v2 AND 0x0F0F0F0F) 4;
         v4 = (shr v3 8 AND 0x00FF00FF) OR shl (v3 AND 0x00FF00FF) 8
     in shr v4 16 OR shl v4 16)"

definition reflect48 :: "u64 \<Rightarrow> u64" where
  "reflect48 v =
    (let vhi = (ucast (reflect16 (ucast (shr v 32))) :: u64);
         vlo = (ucast (reflect32 (ucast v)) :: u64)
     in shl vlo 32 OR (vhi AND 0xFFFF))"

definition reflect64 :: "u64 \<Rightarrow> u64" where
  "reflect64 v =
    (let v1 = (ucast (reflect32 (ucast (shr v 32))) :: u64);
         v2 = (ucast (reflect32 (ucast v)) :: u64)
     in shl v2 32 OR (v1 AND 0xFFFFFFFF))"

subsection \<open>Integers and byte arrays\<close>

primrec num_to_bytes :: "u64 \<Rightarrow> nat \<Rightarrow> bytes \<Rightarrow> bytes" where
  "num_to_bytes n 0 dest = dest"
| "num_to_bytes n (Suc len) dest = num_to_bytes (shr n 8) len (dest[len := ucast n])"

primrec bytes_to_num_loop :: "nat \<Rightarrow> bytes \<Rightarrow> u64 \<Rightarrow> u64" where
  "bytes_to_num_loop 0 src num = num"
| "bytes_to_num_loop (Suc len) src num =
    bytes_to_num_loop len (tl src) (shl num 8 OR ucast (hd src))"

definition bytes_to_num :: "bytes \<Rightarrow> nat \<Rightarrow> u64" where
  "bytes_to_num src len = bytes_to_num_loop len src 0"

definition MemLeToUint2byte :: "bytes \<Rightarrow> u16" where
  "MemLeToUint2byte data =
    (shl (ucast (data ! 1)) 8 +
     shl (ucast (data ! 0)) 0)"

definition MemLeToUint3byte :: "bytes \<Rightarrow> u32" where
  "MemLeToUint3byte data =
    (shl (ucast (data ! 2)) 16 +
     shl (ucast (data ! 1)) 8 +
     shl (ucast (data ! 0)) 0)"

definition MemLeToUint4byte :: "bytes \<Rightarrow> u32" where
  "MemLeToUint4byte data =
    (shl (ucast (data ! 3)) 24 +
     shl (ucast (data ! 2)) 16 +
     shl (ucast (data ! 1)) 8 +
     shl (ucast (data ! 0)) 0)"

definition MemLeToUint5byte :: "bytes \<Rightarrow> u64" where
  "MemLeToUint5byte data =
    (shl (ucast (data ! 4)) 32 +
     shl (ucast (data ! 3)) 24 +
     shl (ucast (data ! 2)) 16 +
     shl (ucast (data ! 1)) 8 +
     shl (ucast (data ! 0)) 0)"

definition MemLeToUint6byte :: "bytes \<Rightarrow> u64" where
  "MemLeToUint6byte data =
    (shl (ucast (data ! 5)) 40 +
     shl (ucast (data ! 4)) 32 +
     shl (ucast (data ! 3)) 24 +
     shl (ucast (data ! 2)) 16 +
     shl (ucast (data ! 1)) 8 +
     shl (ucast (data ! 0)) 0)"

definition MemLeToUint7byte :: "bytes \<Rightarrow> u64" where
  "MemLeToUint7byte data =
    (shl (ucast (data ! 6)) 48 +
     shl (ucast (data ! 5)) 40 +
     shl (ucast (data ! 4)) 32 +
     shl (ucast (data ! 3)) 24 +
     shl (ucast (data ! 2)) 16 +
     shl (ucast (data ! 1)) 8 +
     shl (ucast (data ! 0)) 0)"

definition MemLeToUint8byte :: "bytes \<Rightarrow> u64" where
  "MemLeToUint8byte data =
    (shl (ucast (data ! 7)) 56 +
     shl (ucast (data ! 6)) 48 +
     shl (ucast (data ! 5)) 40 +
     shl (ucast (data ! 4)) 32 +
     shl (ucast (data ! 3)) 24 +
     shl (ucast (data ! 2)) 16 +
     shl (ucast (data ! 1)) 8 +
     shl (ucast (data ! 0)) 0)"

definition MemBeToUint2byte :: "bytes \<Rightarrow> u16" where
  "MemBeToUint2byte data =
    (shl (ucast (data ! 0)) 8 +
     shl (ucast (data ! 1)) 0)"

definition MemBeToUint3byte :: "bytes \<Rightarrow> u32" where
  "MemBeToUint3byte data =
    (shl (ucast (data ! 0)) 16 +
     shl (ucast (data ! 1)) 8 +
     shl (ucast (data ! 2)) 0)"

definition MemBeToUint4byte :: "bytes \<Rightarrow> u32" where
  "MemBeToUint4byte data =
    (shl (ucast (data ! 0)) 24 +
     shl (ucast (data ! 1)) 16 +
     shl (ucast (data ! 2)) 8 +
     shl (ucast (data ! 3)) 0)"

definition MemBeToUint5byte :: "bytes \<Rightarrow> u64" where
  "MemBeToUint5byte data =
    (shl (ucast (data ! 0)) 32 +
     shl (ucast (data ! 1)) 24 +
     shl (ucast (data ! 2)) 16 +
     shl (ucast (data ! 3)) 8 +
     shl (ucast (data ! 4)) 0)"

definition MemBeToUint6byte :: "bytes \<Rightarrow> u64" where
  "MemBeToUint6byte data =
    (shl (ucast (data ! 0)) 40 +
     shl (ucast (data ! 1)) 32 +
     shl (ucast (data ! 2)) 24 +
     shl (ucast (data ! 3)) 16 +
     shl (ucast (data ! 4)) 8 +
     shl (ucast (data ! 5)) 0)"

definition MemBeToUint7byte :: "bytes \<Rightarrow> u64" where
  "MemBeToUint7byte data =
    (shl (ucast (data ! 0)) 48 +
     shl (ucast (data ! 1)) 40 +
     shl (ucast (data ! 2)) 32 +
     shl (ucast (data ! 3)) 24 +
     shl (ucast (data ! 4)) 16 +
     shl (ucast (data ! 5)) 8 +
     shl (ucast (data ! 6)) 0)"

definition MemBeToUint8byte :: "bytes \<Rightarrow> u64" where
  "MemBeToUint8byte data =
    (shl (ucast (data ! 0)) 56 +
     shl (ucast (data ! 1)) 48 +
     shl (ucast (data ! 2)) 40 +
     shl (ucast (data ! 3)) 32 +
     shl (ucast (data ! 4)) 24 +
     shl (ucast (data ! 5)) 16 +
     shl (ucast (data ! 6)) 8 +
     shl (ucast (data ! 7)) 0)"

definition Uint2byteToMemLe :: "bytes \<Rightarrow> u16 \<Rightarrow> bytes" where
  "Uint2byteToMemLe data value =
    data[0 := ucast (shr value 0 AND 0xff),
      1 := ucast (shr value 8 AND 0xff)]"

definition Uint3byteToMemLe :: "bytes \<Rightarrow> u32 \<Rightarrow> bytes" where
  "Uint3byteToMemLe data value =
    data[0 := ucast (shr value 0 AND 0xff),
      1 := ucast (shr value 8 AND 0xff),
      2 := ucast (shr value 16 AND 0xff)]"

definition Uint4byteToMemLe :: "bytes \<Rightarrow> u32 \<Rightarrow> bytes" where
  "Uint4byteToMemLe data value =
    data[0 := ucast (shr value 0 AND 0xff),
      1 := ucast (shr value 8 AND 0xff),
      2 := ucast (shr value 16 AND 0xff),
      3 := ucast (shr value 24 AND 0xff)]"

definition Uint5byteToMemLe :: "bytes \<Rightarrow> u64 \<Rightarrow> bytes" where
  "Uint5byteToMemLe data value =
    data[0 := ucast (shr value 0 AND 0xff),
      1 := ucast (shr value 8 AND 0xff),
      2 := ucast (shr value 16 AND 0xff),
      3 := ucast (shr value 24 AND 0xff),
      4 := ucast (shr value 32 AND 0xff)]"

definition Uint6byteToMemLe :: "bytes \<Rightarrow> u64 \<Rightarrow> bytes" where
  "Uint6byteToMemLe data value =
    data[0 := ucast (shr value 0 AND 0xff),
      1 := ucast (shr value 8 AND 0xff),
      2 := ucast (shr value 16 AND 0xff),
      3 := ucast (shr value 24 AND 0xff),
      4 := ucast (shr value 32 AND 0xff),
      5 := ucast (shr value 40 AND 0xff)]"

definition Uint7byteToMemLe :: "bytes \<Rightarrow> u64 \<Rightarrow> bytes" where
  "Uint7byteToMemLe data value =
    data[0 := ucast (shr value 0 AND 0xff),
      1 := ucast (shr value 8 AND 0xff),
      2 := ucast (shr value 16 AND 0xff),
      3 := ucast (shr value 24 AND 0xff),
      4 := ucast (shr value 32 AND 0xff),
      5 := ucast (shr value 40 AND 0xff),
      6 := ucast (shr value 48 AND 0xff)]"

definition Uint8byteToMemLe :: "bytes \<Rightarrow> u64 \<Rightarrow> bytes" where
  "Uint8byteToMemLe data value =
    data[0 := ucast (shr value 0 AND 0xff),
      1 := ucast (shr value 8 AND 0xff),
      2 := ucast (shr value 16 AND 0xff),
      3 := ucast (shr value 24 AND 0xff),
      4 := ucast (shr value 32 AND 0xff),
      5 := ucast (shr value 40 AND 0xff),
      6 := ucast (shr value 48 AND 0xff),
      7 := ucast (shr value 56 AND 0xff)]"

definition Uint2byteToMemBe :: "bytes \<Rightarrow> u16 \<Rightarrow> bytes" where
  "Uint2byteToMemBe data value =
    data[0 := ucast (shr value 8 AND 0xff),
      1 := ucast (shr value 0 AND 0xff)]"

definition Uint3byteToMemBe :: "bytes \<Rightarrow> u32 \<Rightarrow> bytes" where
  "Uint3byteToMemBe data value =
    data[0 := ucast (shr value 16 AND 0xff),
      1 := ucast (shr value 8 AND 0xff),
      2 := ucast (shr value 0 AND 0xff)]"

definition Uint4byteToMemBe :: "bytes \<Rightarrow> u32 \<Rightarrow> bytes" where
  "Uint4byteToMemBe data value =
    data[0 := ucast (shr value 24 AND 0xff),
      1 := ucast (shr value 16 AND 0xff),
      2 := ucast (shr value 8 AND 0xff),
      3 := ucast (shr value 0 AND 0xff)]"

definition Uint5byteToMemBe :: "bytes \<Rightarrow> u64 \<Rightarrow> bytes" where
  "Uint5byteToMemBe data value =
    data[0 := ucast (shr value 32 AND 0xff),
      1 := ucast (shr value 24 AND 0xff),
      2 := ucast (shr value 16 AND 0xff),
      3 := ucast (shr value 8 AND 0xff),
      4 := ucast (shr value 0 AND 0xff)]"

definition Uint6byteToMemBe :: "bytes \<Rightarrow> u64 \<Rightarrow> bytes" where
  "Uint6byteToMemBe data value =
    data[0 := ucast (shr value 40 AND 0xff),
      1 := ucast (shr value 32 AND 0xff),
      2 := ucast (shr value 24 AND 0xff),
      3 := ucast (shr value 16 AND 0xff),
      4 := ucast (shr value 8 AND 0xff),
      5 := ucast (shr value 0 AND 0xff)]"

definition Uint7byteToMemBe :: "bytes \<Rightarrow> u64 \<Rightarrow> bytes" where
  "Uint7byteToMemBe data value =
    data[0 := ucast (shr value 48 AND 0xff),
      1 := ucast (shr value 40 AND 0xff),
      2 := ucast (shr value 32 AND 0xff),
      3 := ucast (shr value 24 AND 0xff),
      4 := ucast (shr value 16 AND 0xff),
      5 := ucast (shr value 8 AND 0xff),
      6 := ucast (shr value 0 AND 0xff)]"

definition Uint8byteToMemBe :: "bytes \<Rightarrow> u64 \<Rightarrow> bytes" where
  "Uint8byteToMemBe data value =
    data[0 := ucast (shr value 56 AND 0xff),
      1 := ucast (shr value 48 AND 0xff),
      2 := ucast (shr value 40 AND 0xff),
      3 := ucast (shr value 32 AND 0xff),
      4 := ucast (shr value 24 AND 0xff),
      5 := ucast (shr value 16 AND 0xff),
      6 := ucast (shr value 8 AND 0xff),
      7 := ucast (shr value 0 AND 0xff)]"

definition le24toh :: "bytes \<Rightarrow> u32" where
  "le24toh data = (shl (ucast (data ! 2)) 16 OR shl (ucast (data ! 1)) 8 OR ucast (data ! 0))"

definition htole24 :: "u32 \<Rightarrow> bytes \<Rightarrow> bytes" where
  "htole24 val data = data[0 := ucast val, 1 := ucast (shr val 8), 2 := ucast (shr val 16)]"

definition get_sw :: "bytes \<Rightarrow> nat \<Rightarrow> u16" where
  "get_sw d n = (if n < 2 then 0
    else let n = n - 2 in shl (ucast (d ! n)) 8 OR ucast (d ! (n + 1)))"

subsection \<open>Rotations and shifts\<close>

definition rol :: "bytes \<Rightarrow> nat \<Rightarrow> bytes" where
  "rol data n =
    (let first = data ! 0;
         data = fold (\<lambda>i data. data[i := data ! (i + 1)]) [0..<n - 1] data
     in data[n - 1 := first])"

definition ror :: "bytes \<Rightarrow> nat \<Rightarrow> bytes" where
  "ror data n =
    (let last = data ! (n - 1);
         data = fold (\<lambda>i data. data[i := data ! (i - 1)]) (rev [1..<n]) data
     in data[0 := last])"

definition xor_c :: "bytes \<Rightarrow> bytes \<Rightarrow> nat \<Rightarrow> bytes" where
  "xor_c dest src n = fold (\<lambda>i d. d[i := d ! i XOR src ! i]) [0..<n] dest"

definition lsl :: "bytes \<Rightarrow> nat \<Rightarrow> bytes" where
  "lsl d n =
    (let d = fold (\<lambda>i d. d[i := shl (d ! i) 1 OR shr (d ! (i + 1)) 7]) [0..<n - 1] d
     in d[n - 1 := shl (d ! (n - 1)) 1])"

definition lslx :: "bytes \<Rightarrow> nat \<Rightarrow> nat \<Rightarrow> bytes" where
  "lslx d n shifts = fold (\<lambda>_ d.
     let d = fold (\<lambda>j d. d[j := shl (d ! j) 1 OR shr (d ! (j + 1)) 7]) [0..<n - 1] d
     in d[n - 1 := shl (d ! (n - 1)) 1]) [0..<shifts] d"

text \<open>One pass over the array; the state is the array and the carry.\<close>

definition rsl_step :: "nat \<Rightarrow> bytes \<times> u8 \<Rightarrow> bytes \<times> u8" where
  "rsl_step i = (\<lambda>(d, carry).
     let new_carry = d ! i AND 0x1;
         d = d[i := shr (d ! i) 1 OR (if carry \<noteq> 0 then 0x80 else 0)]
     in (d, new_carry))"

definition rsl :: "bytes \<Rightarrow> nat \<Rightarrow> bytes" where
  "rsl d n = fst (fold rsl_step [0..<n] (d, 0))"

definition rslx :: "bytes \<Rightarrow> nat \<Rightarrow> nat \<Rightarrow> bytes" where
  "rslx d n shifts = fst (fold (\<lambda>_. fold rsl_step [0..<n]) [0..<shifts] (d, 0))"

text \<open>
  \<open>rotl\<close> and \<open>rotr\<close> shift by \<open>32 - n\<close> after \<open>n &= 31\<close>: for \<open>n\<close> a multiple of 32 that is a
  shift by the width, undefined in C, and the result is \<open>None\<close>.
\<close>

definition rotl :: "u32 \<Rightarrow> u8 \<Rightarrow> u32 option" where
  "rotl a n0 = (let n = unat (n0 AND 31) in
     if 32 - n \<ge> 32 then None else Some (shl a n OR shr a (32 - n)))"

definition rotr :: "u32 \<Rightarrow> u8 \<Rightarrow> u32 option" where
  "rotr a n0 = (let n = unat (n0 AND 31) in
     if 32 - n \<ge> 32 then None else Some (shr a n OR shl a (32 - n)))"

subsection \<open>Reversing arrays\<close>

text \<open>The exchange of \<open>d[i]\<close> and \<open>d[j]\<close> by three exclusive ors, as the loop body writes it.\<close>

definition xor_swap :: "nat \<Rightarrow> nat \<Rightarrow> bytes \<Rightarrow> bytes" where
  "xor_swap i j d =
    (let d = d[i := d ! i XOR d ! j];
         d = d[j := d ! j XOR d ! i]
     in d[i := d ! i XOR d ! j])"

function reverse_array_loop :: "nat \<Rightarrow> nat \<Rightarrow> bytes \<Rightarrow> bytes" where
  "reverse_array_loop i j d =
    (if i < j then reverse_array_loop (i + 1) (j - 1) (xor_swap i j d) else d)"
  by auto
termination by (relation "measure (\<lambda>(i, j, d). j - i)") auto

declare reverse_array_loop.simps [simp del]

definition reverse_array :: "bytes \<Rightarrow> nat \<Rightarrow> bytes" where
  "reverse_array d n = (if n < 2 then d else reverse_array_loop 0 (n - 1) d)"

definition reverse_array_copy :: "bytes \<Rightarrow> nat \<Rightarrow> bytes \<Rightarrow> bytes" where
  "reverse_array_copy src src_len dest =
    (if src_len = 0 then dest
     else fold (\<lambda>i dest. dest[i := src ! ((src_len - 1) - i)]) [0..<src_len] dest)"

definition reverse_arraybytes :: "bytes \<Rightarrow> nat \<Rightarrow> bytes" where
  "reverse_arraybytes arr len = fold (\<lambda>i arr. arr[i := reflect8 (arr ! i)]) [0..<len] arr"

definition reverse_arraybytes_copy :: "bytes \<Rightarrow> bytes \<Rightarrow> nat \<Rightarrow> bytes" where
  "reverse_arraybytes_copy arr dest len =
    fold (\<lambda>i dest. dest[i := reflect8 (arr ! i)]) [0..<len] dest"

subsection \<open>Hexadecimal\<close>

text \<open>
  Strings are the characters before the terminating NUL, so \<open>strlen\<close> is \<open>length\<close>. The
  comparisons of the code are on \<open>char\<close>; on either signedness a character above 127 is in
  none of the three ranges.
\<close>

definition in_range :: "char \<Rightarrow> char \<Rightarrow> char \<Rightarrow> bool" where
  "in_range lo hi c = ((of_char lo :: nat) \<le> of_char c \<and> (of_char c :: nat) \<le> of_char hi)"

definition char_diff :: "char \<Rightarrow> char \<Rightarrow> int" where
  "char_diff c d = int (of_char c) - int (of_char d)"

definition hexchar_to_dec :: "char \<Rightarrow> int" where
  "hexchar_to_dec ch =
    (if in_range CHR ''0'' CHR ''9'' ch then char_diff ch CHR ''0''
     else if in_range CHR ''a'' CHR ''f'' ch then char_diff ch CHR ''a'' + 10
     else if in_range CHR ''A'' CHR ''F'' ch then char_diff ch CHR ''A'' + 10
     else -1)"

definition char2int :: "char \<Rightarrow> int" where
  "char2int c =
    (if in_range CHR ''0'' CHR ''9'' c then char_diff c CHR ''0''
     else if in_range CHR ''A'' CHR ''F'' c then char_diff c CHR ''A'' + 10
     else if in_range CHR ''a'' CHR ''f'' c then char_diff c CHR ''a'' + 10
     else -1)"

fun hexstr_to_byte_array_loop :: "string \<Rightarrow> nat \<Rightarrow> nat \<Rightarrow> bytes \<Rightarrow> bool \<times> bytes" where
  "hexstr_to_byte_array_loop hexstr i 0 d = (True, d)"
| "hexstr_to_byte_array_loop (c1 # c2 # hexstr) i (Suc k) d =
    (if c1 = CHR 0x00 \<or> c2 = CHR 0x00 then (False, d)
     else let b = push_bit 4 (hexchar_to_dec c1) OR hexchar_to_dec c2 in
       if b < 0 then (False, d)
       else hexstr_to_byte_array_loop hexstr (i + 1) k (d[i := word_of_int b]))"
| "hexstr_to_byte_array_loop _ i (Suc k) d = (False, d)"

text \<open>The return value, the array and the value left in \<open>*n\<close> (\<open>None\<close>: not written).\<close>

definition hexstr_to_byte_array :: "string \<Rightarrow> bytes \<Rightarrow> bool \<times> bytes \<times> nat option" where
  "hexstr_to_byte_array hexstr d =
    (if odd (length hexstr) then (False, d, None)
     else let n = length hexstr div 2; (ok, d) = hexstr_to_byte_array_loop hexstr 0 n d
          in (ok, d, Some n))"

function hexstr2ByteArr_loop :: "string \<Rightarrow> nat \<Rightarrow> nat \<Rightarrow> bytes \<Rightarrow> int \<times> bytes" where
  "hexstr2ByteArr_loop hexstr n i array =
    (if i < n then
       let high = char2int (hexstr ! i); low = char2int (hexstr ! (i + 1)) in
       if high = -1 \<or> low = -1 then (-1, array)
       else hexstr2ByteArr_loop hexstr n (i + 2)
              (array[i div 2 := word_of_int (push_bit 4 high OR low)])
     else (int (n div 2), array))"
  by auto
termination by (relation "measure (\<lambda>(h, n, i, a). n - i)") auto

declare hexstr2ByteArr_loop.simps [simp del]

definition hexstr2ByteArr :: "string \<Rightarrow> bytes \<Rightarrow> nat \<Rightarrow> int \<times> bytes" where
  "hexstr2ByteArr hexstr array asize =
    (let n = length hexstr in
     if odd n \<or> asize < n div 2 then (-1, array)
     else hexstr2ByteArr_loop hexstr n 0 array)"

subsection \<open>Concatenating bits\<close>

text \<open>\<open>TEST_BIT_MSB\<close>, \<open>TEST_BIT_LSB\<close>, \<open>CLEAR_BIT_MSB\<close> and \<open>SET_BIT_MSB\<close> of \<open>common.h\<close>.\<close>

definition TEST_BIT_MSB :: "bytes \<Rightarrow> nat \<Rightarrow> bool" where
  "TEST_BIT_MSB data i = (shr (data ! (i div 8)) (7 - i mod 8) AND 1 \<noteq> 0)"

definition TEST_BIT_LSB :: "bytes \<Rightarrow> nat \<Rightarrow> bool" where
  "TEST_BIT_LSB data i = (shr (data ! (i div 8)) (i mod 8) AND 1 \<noteq> 0)"

definition SET_BIT_MSB :: "bytes \<Rightarrow> nat \<Rightarrow> bytes" where
  "SET_BIT_MSB data i = data[i div 8 := data ! (i div 8) OR shl 1 (7 - i mod 8)]"

definition CLEAR_BIT_MSB :: "bytes \<Rightarrow> nat \<Rightarrow> bytes" where
  "CLEAR_BIT_MSB data i = data[i div 8 := data ! (i div 8) AND NOT (shl 1 (7 - i mod 8))]"

text \<open>
  \<open>dest\<close> and \<open>src\<close> may point into the same memory (the code tests for it), so the model has
  one memory and two byte addresses, and the overlap test is the code's pointer arithmetic.
\<close>

definition concatbits_body :: "nat \<Rightarrow> nat \<Rightarrow> nat \<Rightarrow> nat \<Rightarrow> bool \<Rightarrow> nat \<Rightarrow> bytes \<Rightarrow> bytes" where
  "concatbits_body dest dest_offset src src_offset src_lsb i mem =
    (let mem = CLEAR_BIT_MSB mem (8 * dest + (dest_offset + i)) in
     if (if src_lsb then TEST_BIT_LSB mem (8 * src + (src_offset + i))
         else TEST_BIT_MSB mem (8 * src + (src_offset + i)))
     then SET_BIT_MSB mem (8 * dest + (dest_offset + i)) else mem)"

definition concatbits ::
  "bytes \<Rightarrow> nat \<Rightarrow> nat \<Rightarrow> nat \<Rightarrow> nat \<Rightarrow> nat \<Rightarrow> bool \<Rightarrow> bytes \<times> nat" where
  "concatbits mem dest dest_offset src src_offset nbits src_lsb =
    (let order = (if (int src - int dest) * 8 + int src_offset - int dest_offset > 0
                  then [0..<nbits] else rev [0..<nbits])
     in (fold (concatbits_body dest dest_offset src src_offset src_lsb) order mem,
         dest_offset + nbits))"

end
