(* ===== verification/Common_Util_Laws.thy ===== *)
theory Common_Util_Laws
  imports Common_Util
begin

text \<open>
  The laws of \<open>common/commonutil.c\<close>: the bit reversals reverse bits, the integer and byte-array
  conversions are inverse to each other, the array shifts are shifts of the bit string, the
  exclusive-or swap reverses, the hexadecimal decoders decode, and \<open>concatbits\<close> moves bits
  correctly even when the two areas overlap.
\<close>

subsection \<open>Bit reversal\<close>

lemma BITMASK_bit: "bit (BITMASK k) i = (i = k \<and> k < 32)"
  by (auto simp: BITMASK_def bit_exp_iff)

lemma reflect_loop_bit:
  assumes "n \<le> b" "b \<le> 32" "i < 32"
  shows "bit (reflect_loop n b t v) i = (if i < n then bit t (n - 1 - i) else bit v i)"
  using assms
proof (induction n arbitrary: t v)
  case (Suc n)
  then show ?case
    by (auto simp: Let_def word_bits BITMASK_bit and_one_eq bit_0 mod_2_eq_odd not_less_eq
        less_Suc_eq Suc_diff_Suc simp flip: bit_Suc)
qed simp

lemma reflect_bit:
  assumes "b \<le> 32" "i < 32"
  shows "bit (reflect v b) i = (if i < b then bit v (b - 1 - i) else bit v i)"
  unfolding reflect_def by (rule reflect_loop_bit) (use assms in auto)

lemma reflect8_table:
  "list_all (\<lambda>b. list_all (\<lambda>i. bit (reflect8 b) i = bit b (7 - i)) [0..<8])
     (map word_of_nat [0..<256])"
  by code_simp

lemma reflect8_bit:
  assumes "i < 8"
  shows "bit (reflect8 b) i = bit b (7 - i)"
  using all_u8_exhaust [OF reflect8_table, of b] assms by (simp add: list_all_iff)

lemma reflect16_bit:
  assumes "i < 16"
  shows "bit (reflect16 v) i = bit v (15 - i)"
  using assms unfolding reflect16_def and_masks
  by (cases "i < 8") (auto simp: word_bits reflect8_bit)

lemma swap1:
  "i < 32 \<Longrightarrow> bit ((shr v 1 AND 0x55555555) OR shl (v AND 0x55555555 :: u32) 1) i =
     bit v (if i mod 2 < 1 then i + 1 else i - 1)"
  by (erule less_list_all, unfold upt_32 list.pred_inject, intro conjI; simp add: word_bits)

lemma swap2:
  "i < 32 \<Longrightarrow> bit ((shr v 2 AND 0x33333333) OR shl (v AND 0x33333333 :: u32) 2) i =
     bit v (if i mod 4 < 2 then i + 2 else i - 2)"
  by (erule less_list_all, unfold upt_32 list.pred_inject, intro conjI; simp add: word_bits)

lemma swap4:
  "i < 32 \<Longrightarrow> bit ((shr v 4 AND 0x0F0F0F0F) OR shl (v AND 0x0F0F0F0F :: u32) 4) i =
     bit v (if i mod 8 < 4 then i + 4 else i - 4)"
  by (erule less_list_all, unfold upt_32 list.pred_inject, intro conjI; simp add: word_bits)

lemma swap8:
  "i < 32 \<Longrightarrow> bit ((shr v 8 AND 0x00FF00FF) OR shl (v AND 0x00FF00FF :: u32) 8) i =
     bit v (if i mod 16 < 8 then i + 8 else i - 8)"
  by (erule less_list_all, unfold upt_32 list.pred_inject, intro conjI; simp add: word_bits)

lemma swap16:
  "i < 32 \<Longrightarrow> bit (shr v 16 OR shl (v :: u32) 16) i = bit v (if i < 16 then 16 + i else i - 16)"
  by (auto simp: word_bits)

lemma reflect32_bit:
  assumes "i < 32"
  shows "bit (reflect32 v) i = bit v (31 - i)"
proof -
  define v1 where "v1 = (shr v 1 AND 0x55555555) OR shl (v AND 0x55555555) 1"
  define v2 where "v2 = (shr v1 2 AND 0x33333333) OR shl (v1 AND 0x33333333) 2"
  define v3 where "v3 = (shr v2 4 AND 0x0F0F0F0F) OR shl (v2 AND 0x0F0F0F0F) 4"
  define v4 where "v4 = (shr v3 8 AND 0x00FF00FF) OR shl (v3 AND 0x00FF00FF) 8"
  note b = swap1 [of _ v, folded v1_def] swap2 [of _ v1, folded v2_def]
    swap4 [of _ v2, folded v3_def] swap8 [of _ v3, folded v4_def] swap16 [of _ v4]
  have "reflect32 v = shr v4 16 OR shl v4 16"
    by (simp only: reflect32_def Let_def v1_def v2_def v3_def v4_def)
  moreover have "list_all (\<lambda>i. bit (shr v4 16 OR shl v4 16) i = bit v (31 - i)) [0..<32]"
    unfolding upt_32 list.pred_inject by (intro conjI; simp add: b)
  ultimately show ?thesis
    using less_list_all [OF assms] by auto
qed

lemma reflect64_bit:
  assumes "i < 64"
  shows "bit (reflect64 v) i = bit v (63 - i)"
  using assms unfolding reflect64_def Let_def and_masks
  by (cases "i < 32") (auto simp: word_bits reflect32_bit)

lemma reflect48_bit:
  assumes "i < 64"
  shows "bit (reflect48 v) i = (if i < 16 then bit v (47 - i) else if i < 32 then False else bit v (63 - i))"
  using assms unfolding reflect48_def Let_def and_masks
  by (cases "i < 32") (auto simp: word_bits reflect32_bit reflect16_bit)

subsection \<open>Integers and byte arrays\<close>

lemma length_num_to_bytes [simp]: "length (num_to_bytes n len dest) = length dest"
  by (induction len arbitrary: n dest) auto

lemma num_to_bytes_nth:
  "len \<le> length dest \<Longrightarrow>
   num_to_bytes n len dest ! i = (if i < len then ucast (shr n (8 * (len - 1 - i))) else dest ! i)"
proof (induction len arbitrary: n dest)
  case (Suc len)
  have "8 * (len - i) = 8 * (len - 1 - i) + 8" if "i < len" using that by simp
  with Suc show ?case
    by (auto simp: nth_list_update less_Suc_eq drop_bit_drop_bit)
qed simp

lemma bytes_to_num_loop_bit:
  "len \<le> length src \<Longrightarrow> k < 64 \<Longrightarrow>
   bit (bytes_to_num_loop len src num) k =
     (if k < 8 * len then bit (src ! (len - 1 - k div 8)) (k mod 8) else bit num (k - 8 * len))"
proof (induction len arbitrary: src num)
  case (Suc len)
  then obtain b src' where src: "src = b # src'" by (cases src) auto
  have IH: "bit (bytes_to_num_loop (Suc len) src num) k =
    (if k < 8 * len then bit (src' ! (len - 1 - k div 8)) (k mod 8)
     else bit (shl num 8 OR ucast b) (k - 8 * len))"
    using Suc src by simp
  show ?case
  proof (cases "k < 8 * len")
    case True
    then have "len - k div 8 = Suc (len - 1 - k div 8)" by auto
    with True show ?thesis unfolding IH by (simp add: src)
  next
    case False
    then obtain r where r: "k = 8 * len + r"
      by (metis le_iff_add not_less)
    with Suc.prems(2) show ?thesis
      unfolding IH by (auto simp: word_bits src)
  qed
qed simp

lemma bytes_to_num_bit:
  "len \<le> length src \<Longrightarrow> k < 64 \<Longrightarrow>
   bit (bytes_to_num src len) k = (k < 8 * len \<and> bit (src ! (len - 1 - k div 8)) (k mod 8))"
  by (auto simp: bytes_to_num_def bytes_to_num_loop_bit)

lemma bytes_to_num_num_to_bytes:
  assumes "len \<le> length d" "len \<le> 8"
  shows "bytes_to_num (num_to_bytes n len d) len = take_bit (8 * len) n"
proof (rule bit_word_eqI)
  fix k assume "k < LENGTH(64)"
  moreover have "len - 1 - (len - 1 - k div 8) = k div 8" "k div 8 \<le> len - 1" if "k < 8 * len"
    using that by auto
  ultimately show "bit (bytes_to_num (num_to_bytes n len d) len) k = bit (take_bit (8 * len) n) k"
    using assms
    by (cases "k < 8 * len")
      (auto simp: bytes_to_num_bit num_to_bytes_nth word_bits)
qed

lemma num_to_bytes_bytes_to_num:
  assumes "len \<le> length d" "len \<le> length src" "len \<le> 8"
  shows "num_to_bytes (bytes_to_num src len) len d = take len src @ drop len d"
proof (rule nth_equalityI)
  fix i assume "i < length (num_to_bytes (bytes_to_num src len) len d)"
  then have i: "i < length d" by simp
  show "num_to_bytes (bytes_to_num src len) len d ! i = (take len src @ drop len d) ! i"
  proof (cases "i < len")
    case True
    have "ucast (shr (bytes_to_num src len) (8 * (len - 1 - i))) = src ! i"
    proof (rule u8_eqI)
      fix k :: nat assume k: "k < 8"
      let ?k = "8 * (len - 1 - i) + k"
      have "?k < 64" "?k < 8 * len" "?k div 8 = len - 1 - i" "?k mod 8 = k"
        using k True assms(3) by auto
      then show "bit (ucast (shr (bytes_to_num src len) (8 * (len - 1 - i))) :: u8) k = bit (src ! i) k"
        using k True assms by (simp add: word_bits bytes_to_num_bit)
    qed
    then show ?thesis
      using True assms by (simp add: num_to_bytes_nth nth_append)
  next
    case False
    then show ?thesis using assms by (simp add: num_to_bytes_nth nth_append)
  qed
qed (use assms in simp)

text \<open>The sums of disjoint shifted bytes of the \<open>Mem*ToUint*byte\<close> functions are unions.\<close>

lemma plus_byte_or:
  fixes a :: "'a::len word"
  assumes "take_bit (n + 8) a = 0"
  shows "a + shl (ucast (b :: u8)) n = a OR shl (ucast b) n"
proof (rule disjunctive_add)
  fix k
  have "\<not> bit a k" if "k < n + 8"
    using assms that by (metis bit_take_bit_iff bit_0_eq bot_apply bot_bool_def)
  then show "\<not> bit a k \<or> \<not> bit (shl (ucast b) n :: 'a word) k"
    by (cases "k < n + 8") (auto simp: word_bits)
qed

lemmas plus_byte_or_num =
  plus_byte_or [where n = "numeral m" for m, simplified] plus_byte_or [where n = 0, simplified]

lemma length_ge_Cons:
  "numeral k \<le> length xs \<longleftrightarrow> (\<exists>y ys. xs = y # ys \<and> pred_numeral k \<le> length ys)"
  by (simp add: numeral_eq_Suc Suc_le_length_iff)

lemma length_ge_1_Cons: "Suc 0 \<le> length xs \<longleftrightarrow> (\<exists>y ys. xs = y # ys)"
  by (auto simp: Suc_le_length_iff)

lemma rev_take_Cons: "0 < n \<Longrightarrow> rev (take n (x # xs)) = rev (take (n - 1) xs) @ [x]"
  by (cases n) auto

lemma ucast_u64_or: "(ucast (x OR y :: u64) :: 'a::len word) = ucast x OR ucast y"
  by (rule bit_word_eqI) (auto simp: word_bits)

lemma ucast_u64_byte: "LENGTH('a::len) \<le> 64 \<Longrightarrow> (ucast (shl (ucast (b :: u8)) n :: u64) :: 'a word) = shl (ucast b) n"
  by (rule bit_word_eqI) (auto simp: word_bits)

lemma ucast_u64_byte0: "8 \<le> LENGTH('a::len) \<Longrightarrow> (ucast (ucast (b :: u8) :: u64) :: 'a word) = ucast b"
  by (rule bit_word_eqI) (auto simp: word_bits)

lemma shl_or: "shl (x OR y) n = shl x n OR shl y n"
  by (rule push_bit_or)

lemma byte_mask: "(ucast (x AND 0xFF :: 'a::len word) :: u8) = ucast x"
  unfolding and_masks by (rule bit_word_eqI) (auto simp: word_bits)
lemma shl_shl: "shl (shl w m) n = shl w (m + n)"
  by (simp add: add.commute)


lemma bytes_to_num_loop_numeral:
  "bytes_to_num_loop (numeral k) (b # src) num =
   bytes_to_num_loop (pred_numeral k) src (shl num 8 OR ucast b)"
  "bytes_to_num_loop (Suc 0) (b # src) num = shl num 8 OR ucast b"
  by (simp_all add: numeral_eq_Suc)

lemma length_ge_exhaust:
  "2 \<le> length xs \<Longrightarrow> \<exists>a b r. xs = a # b # r"
  "3 \<le> length xs \<Longrightarrow> \<exists>a b c r. xs = a # b # c # r"
  "4 \<le> length xs \<Longrightarrow> \<exists>a b c d r. xs = a # b # c # d # r"
  "5 \<le> length xs \<Longrightarrow> \<exists>a b c d e r. xs = a # b # c # d # e # r"
  "6 \<le> length xs \<Longrightarrow> \<exists>a b c d e f r. xs = a # b # c # d # e # f # r"
  "7 \<le> length xs \<Longrightarrow> \<exists>a b c d e f g r. xs = a # b # c # d # e # f # g # r"
  "8 \<le> length xs \<Longrightarrow> \<exists>a b c d e f g h r. xs = a # b # c # d # e # f # g # h # r"
  by (auto simp: length_ge_Cons length_ge_1_Cons)

lemma u8_bit_lt: "bit (b :: u8) i \<Longrightarrow> i < 8"
  using bit_imp_le_length [of b i] by simp

lemmas mem_to_uint =
  bytes_to_num_def bytes_to_num_loop_numeral plus_byte_or_num ucast_u64_or ucast_u64_byte
  ucast_u64_byte0 shl_or shl_shl or.assoc take_bit_or take_bit_push_bit

lemma MemBeToUint2byte_num:
  assumes "2 \<le> length data"
  shows "MemBeToUint2byte data = ucast (bytes_to_num data 2)"
  using length_ge_exhaust(1) [OF assms]
  by (auto simp: MemBeToUint2byte_def mem_to_uint)

lemma MemBeToUint3byte_num:
  assumes "3 \<le> length data"
  shows "MemBeToUint3byte data = ucast (bytes_to_num data 3)"
  using length_ge_exhaust(2) [OF assms]
  by (auto simp: MemBeToUint3byte_def mem_to_uint)

lemma MemBeToUint4byte_num:
  assumes "4 \<le> length data"
  shows "MemBeToUint4byte data = ucast (bytes_to_num data 4)"
  using length_ge_exhaust(3) [OF assms]
  by (auto simp: MemBeToUint4byte_def mem_to_uint)

lemma MemBeToUint5byte_num:
  assumes "5 \<le> length data"
  shows "MemBeToUint5byte data = ucast (bytes_to_num data 5)"
  using length_ge_exhaust(4) [OF assms]
  by (auto simp: MemBeToUint5byte_def mem_to_uint)

lemma MemBeToUint6byte_num:
  assumes "6 \<le> length data"
  shows "MemBeToUint6byte data = ucast (bytes_to_num data 6)"
  using length_ge_exhaust(5) [OF assms]
  by (auto simp: MemBeToUint6byte_def mem_to_uint)

lemma MemBeToUint7byte_num:
  assumes "7 \<le> length data"
  shows "MemBeToUint7byte data = ucast (bytes_to_num data 7)"
  using length_ge_exhaust(6) [OF assms]
  by (auto simp: MemBeToUint7byte_def mem_to_uint)

lemma MemBeToUint8byte_num:
  assumes "8 \<le> length data"
  shows "MemBeToUint8byte data = ucast (bytes_to_num data 8)"
  using length_ge_exhaust(7) [OF assms]
  by (auto simp: MemBeToUint8byte_def mem_to_uint)


lemma num_to_bytes_numeral:
  "num_to_bytes n (numeral k) dest =
   num_to_bytes (shr n 8) (pred_numeral k) (dest[pred_numeral k := ucast n])"
  by (simp add: numeral_eq_Suc)

lemma ucast_shr_u64:
  "LENGTH('a::len) \<le> 64 \<Longrightarrow> (ucast (shr (ucast (v :: 'a word) :: u64) n) :: u8) = ucast (shr v n)"
  by (rule bit_word_eqI) (fastforce simp: word_bits dest: bit_imp_le_length)

lemma ucast_ucast_u64: "LENGTH('a::len) \<le> 64 \<Longrightarrow> (ucast (ucast (v :: 'a word) :: u64) :: u8) = ucast v"
  by (rule bit_word_eqI) (auto simp: word_bits)

lemma shr_shr: "shr (shr w m) n = shr w (m + n)"
  by (simp add: add.commute)

lemmas uint_to_mem = num_to_bytes_numeral byte_mask ucast_shr_u64 ucast_ucast_u64 shr_shr

lemma Uint2byteToMemBe_num:
  assumes "2 \<le> length data"
  shows "Uint2byteToMemBe data v = num_to_bytes (ucast v) 2 data"
  using length_ge_exhaust(1) [OF assms]
  by (auto simp: Uint2byteToMemBe_def uint_to_mem)

lemma Uint3byteToMemBe_num:
  assumes "3 \<le> length data"
  shows "Uint3byteToMemBe data v = num_to_bytes (ucast v) 3 data"
  using length_ge_exhaust(2) [OF assms]
  by (auto simp: Uint3byteToMemBe_def uint_to_mem)

lemma Uint4byteToMemBe_num:
  assumes "4 \<le> length data"
  shows "Uint4byteToMemBe data v = num_to_bytes (ucast v) 4 data"
  using length_ge_exhaust(3) [OF assms]
  by (auto simp: Uint4byteToMemBe_def uint_to_mem)

lemma Uint5byteToMemBe_num:
  assumes "5 \<le> length data"
  shows "Uint5byteToMemBe data v = num_to_bytes (ucast v) 5 data"
  using length_ge_exhaust(4) [OF assms]
  by (auto simp: Uint5byteToMemBe_def uint_to_mem)

lemma Uint6byteToMemBe_num:
  assumes "6 \<le> length data"
  shows "Uint6byteToMemBe data v = num_to_bytes (ucast v) 6 data"
  using length_ge_exhaust(5) [OF assms]
  by (auto simp: Uint6byteToMemBe_def uint_to_mem)

lemma Uint7byteToMemBe_num:
  assumes "7 \<le> length data"
  shows "Uint7byteToMemBe data v = num_to_bytes (ucast v) 7 data"
  using length_ge_exhaust(6) [OF assms]
  by (auto simp: Uint7byteToMemBe_def uint_to_mem)

lemma Uint8byteToMemBe_num:
  assumes "8 \<le> length data"
  shows "Uint8byteToMemBe data v = num_to_bytes (ucast v) 8 data"
  using length_ge_exhaust(7) [OF assms]
  by (auto simp: Uint8byteToMemBe_def uint_to_mem)

lemma MemLeToUint2byte_rev:
  assumes "2 \<le> length data"
  shows "MemLeToUint2byte data = MemBeToUint2byte (rev (take 2 data))"
  using length_ge_exhaust(1) [OF assms]
  by (auto simp: MemLeToUint2byte_def MemBeToUint2byte_def)

lemma Uint2byteToMemLe_rev:
  assumes "2 \<le> length data"
  shows "Uint2byteToMemLe data v = rev (take 2 (Uint2byteToMemBe data v)) @ drop 2 data"
  using length_ge_exhaust(1) [OF assms]
  by (auto simp: Uint2byteToMemLe_def Uint2byteToMemBe_def)

lemma MemLeToUint3byte_rev:
  assumes "3 \<le> length data"
  shows "MemLeToUint3byte data = MemBeToUint3byte (rev (take 3 data))"
  using length_ge_exhaust(2) [OF assms]
  by (auto simp: MemLeToUint3byte_def MemBeToUint3byte_def)

lemma Uint3byteToMemLe_rev:
  assumes "3 \<le> length data"
  shows "Uint3byteToMemLe data v = rev (take 3 (Uint3byteToMemBe data v)) @ drop 3 data"
  using length_ge_exhaust(2) [OF assms]
  by (auto simp: Uint3byteToMemLe_def Uint3byteToMemBe_def)

lemma MemLeToUint4byte_rev:
  assumes "4 \<le> length data"
  shows "MemLeToUint4byte data = MemBeToUint4byte (rev (take 4 data))"
  using length_ge_exhaust(3) [OF assms]
  by (auto simp: MemLeToUint4byte_def MemBeToUint4byte_def)

lemma Uint4byteToMemLe_rev:
  assumes "4 \<le> length data"
  shows "Uint4byteToMemLe data v = rev (take 4 (Uint4byteToMemBe data v)) @ drop 4 data"
  using length_ge_exhaust(3) [OF assms]
  by (auto simp: Uint4byteToMemLe_def Uint4byteToMemBe_def)

lemma MemLeToUint5byte_rev:
  assumes "5 \<le> length data"
  shows "MemLeToUint5byte data = MemBeToUint5byte (rev (take 5 data))"
  using length_ge_exhaust(4) [OF assms]
  by (auto simp: MemLeToUint5byte_def MemBeToUint5byte_def)

lemma Uint5byteToMemLe_rev:
  assumes "5 \<le> length data"
  shows "Uint5byteToMemLe data v = rev (take 5 (Uint5byteToMemBe data v)) @ drop 5 data"
  using length_ge_exhaust(4) [OF assms]
  by (auto simp: Uint5byteToMemLe_def Uint5byteToMemBe_def)

lemma MemLeToUint6byte_rev:
  assumes "6 \<le> length data"
  shows "MemLeToUint6byte data = MemBeToUint6byte (rev (take 6 data))"
  using length_ge_exhaust(5) [OF assms]
  by (auto simp: MemLeToUint6byte_def MemBeToUint6byte_def)

lemma Uint6byteToMemLe_rev:
  assumes "6 \<le> length data"
  shows "Uint6byteToMemLe data v = rev (take 6 (Uint6byteToMemBe data v)) @ drop 6 data"
  using length_ge_exhaust(5) [OF assms]
  by (auto simp: Uint6byteToMemLe_def Uint6byteToMemBe_def)

lemma MemLeToUint7byte_rev:
  assumes "7 \<le> length data"
  shows "MemLeToUint7byte data = MemBeToUint7byte (rev (take 7 data))"
  using length_ge_exhaust(6) [OF assms]
  by (auto simp: MemLeToUint7byte_def MemBeToUint7byte_def)

lemma Uint7byteToMemLe_rev:
  assumes "7 \<le> length data"
  shows "Uint7byteToMemLe data v = rev (take 7 (Uint7byteToMemBe data v)) @ drop 7 data"
  using length_ge_exhaust(6) [OF assms]
  by (auto simp: Uint7byteToMemLe_def Uint7byteToMemBe_def)

lemma MemLeToUint8byte_rev:
  assumes "8 \<le> length data"
  shows "MemLeToUint8byte data = MemBeToUint8byte (rev (take 8 data))"
  using length_ge_exhaust(7) [OF assms]
  by (auto simp: MemLeToUint8byte_def MemBeToUint8byte_def)

lemma Uint8byteToMemLe_rev:
  assumes "8 \<le> length data"
  shows "Uint8byteToMemLe data v = rev (take 8 (Uint8byteToMemBe data v)) @ drop 8 data"
  using length_ge_exhaust(7) [OF assms]
  by (auto simp: Uint8byteToMemLe_def Uint8byteToMemBe_def)

lemma bytes_to_num_loop_take:
  "n \<le> m \<Longrightarrow> bytes_to_num_loop n (take m s) num = bytes_to_num_loop n s num"
proof (induction n arbitrary: m s num)
  case (Suc n)
  then show ?case by (cases m; cases s) auto
qed simp

lemma bytes_to_num_take: "bytes_to_num (take n s) n = bytes_to_num s n"
  by (simp add: bytes_to_num_def bytes_to_num_loop_take)

lemma ucast_take_bit_u64:
  "LENGTH('a::len) \<le> 64 \<Longrightarrow> (ucast (take_bit n (ucast (v :: 'a word) :: u64)) :: 'a word) = take_bit n v"
  by (rule bit_word_eqI) (auto simp: word_bits)

lemma ucast_bytes_to_num:
  assumes "8 * n \<le> LENGTH('a::len)" "n \<le> 8" "n \<le> length s"
  shows "(ucast (ucast (bytes_to_num s n) :: 'a word) :: u64) = bytes_to_num s n"
  using assms by (intro bit_word_eqI) (auto simp: word_bits bytes_to_num_bit)

lemmas mem_be_num =
  MemBeToUint2byte_num MemBeToUint3byte_num MemBeToUint4byte_num MemBeToUint5byte_num
  MemBeToUint6byte_num MemBeToUint7byte_num MemBeToUint8byte_num
  Uint2byteToMemBe_num Uint3byteToMemBe_num Uint4byteToMemBe_num Uint5byteToMemBe_num
  Uint6byteToMemBe_num Uint7byteToMemBe_num Uint8byteToMemBe_num

lemmas mem_le_rev =
  MemLeToUint2byte_rev MemLeToUint3byte_rev MemLeToUint4byte_rev MemLeToUint5byte_rev
  MemLeToUint6byte_rev MemLeToUint7byte_rev MemLeToUint8byte_rev
  Uint2byteToMemLe_rev Uint3byteToMemLe_rev Uint4byteToMemLe_rev Uint5byteToMemLe_rev
  Uint6byteToMemLe_rev Uint7byteToMemLe_rev Uint8byteToMemLe_rev

lemmas mem_codec = mem_be_num mem_le_rev bytes_to_num_take bytes_to_num_num_to_bytes
  num_to_bytes_bytes_to_num ucast_take_bit_u64 ucast_bytes_to_num

subsection \<open>Shifts and rotations of arrays\<close>

text \<open>The bits of an array as the shifts see them: the most significant bit of the first byte first.\<close>

definition bits_be :: "bytes \<Rightarrow> bool list" where
  "bits_be d = concat (map (\<lambda>b. map (bit b) [7, 6, 5, 4, 3, 2, 1, 0]) d)"

lemma bits_be_simps [simp]:
  "bits_be [] = []"
  "bits_be (b # d) = map (bit b) [7, 6, 5, 4, 3, 2, 1, 0] @ bits_be d"
  "bits_be (d @ e) = bits_be d @ bits_be e"
  by (simp_all add: bits_be_def)

lemma length_bits_be [simp]: "length (bits_be d) = 8 * length d"
  by (induction d) (auto simp: bits_be_def)

lemma fold_update_next_nth:
  assumes "k < length d"
  shows "length (fold (\<lambda>i d. d[i := f (d ! i) (d ! (i + 1))]) [0..<k] d) = length d \<and>
    (\<forall>i < length d. fold (\<lambda>i d. d[i := f (d ! i) (d ! (i + 1))]) [0..<k] d ! i =
      (if i < k then f (d ! i) (d ! (i + 1)) else d ! i))"
  using assms
proof (induction k)
  case (Suc k)
  then show ?case by (auto simp: nth_list_update less_Suc_eq)
qed simp

fun lsl_list :: "bytes \<Rightarrow> bytes" where
  "lsl_list (a # b # r) = (shl a 1 OR shr b 7) # lsl_list (b # r)"
| "lsl_list [a] = [shl a 1]"
| "lsl_list [] = []"

lemma length_lsl_list [simp]: "length (lsl_list d) = length d"
  by (induction d rule: lsl_list.induct) auto

lemma lsl_list_nth:
  "i < length d \<Longrightarrow> lsl_list d ! i = (if Suc i < length d then shl (d ! i) 1 OR shr (d ! Suc i) 7 else shl (d ! i) 1)"
proof (induction d arbitrary: i rule: lsl_list.induct)
  case (1 a b r)
  then show ?case by (cases i) auto
qed auto

lemma lsl_eq_list:
  assumes "0 < n" "n \<le> length d"
  shows "lsl d n = lsl_list (take n d) @ drop n d"
proof -
  let ?f = "fold (\<lambda>i d. d[i := shl (d ! i) 1 OR shr (d ! (i + 1)) 7]) [0..<n - 1] d"
  have "n - 1 < length d" using assms by simp
  note f = fold_update_next_nth [OF this, of "\<lambda>a b. shl a 1 OR shr b 7"]
  show ?thesis
  proof (rule nth_equalityI)
    show "length (lsl d n) = length (lsl_list (take n d) @ drop n d)"
      using f assms by (simp add: lsl_def Let_def)
    fix i assume "i < length (lsl d n)"
    then have "i < length d" using f by (simp add: lsl_def Let_def)
    with f assms show "lsl d n ! i = (lsl_list (take n d) @ drop n d) ! i"
      by (auto simp: lsl_def Let_def nth_list_update nth_append lsl_list_nth)
  qed
qed

lemma bits_be_lsl_list: "bits_be (lsl_list d) = (if d = [] then [] else tl (bits_be d) @ [False])"
  by (induction d rule: lsl_list.induct) (simp_all add: word_bits)

lemma lslx_lsl: "lslx d n k = ((\<lambda>d. lsl d n) ^^ k) d"
  by (induction k) (auto simp: lslx_def lsl_def Let_def)

text \<open>One pass of the right shift on a list, with the carry in and out.\<close>

fun rsl_list :: "u8 \<Rightarrow> bytes \<Rightarrow> bytes \<times> u8" where
  "rsl_list c [] = ([], c)"
| "rsl_list c (a # r) =
    (let (r', c') = rsl_list (a AND 1) r in ((shr a 1 OR (if c \<noteq> 0 then 0x80 else 0)) # r', c'))"

lemma fold_rsl_step:
  "fold rsl_step [length p..<length p + length xs] (p @ xs @ q, c) =
   (p @ fst (rsl_list c xs) @ q, snd (rsl_list c xs))"
proof (induction xs arbitrary: p c)
  case (Cons a xs)
  have "[length p..<length p + length (a # xs)] =
      length p # [length (p @ [x])..<length (p @ [x]) + length xs]" for x
    by (simp add: upt_rec)
  then show ?case
    using Cons.IH [of "p @ [shr a 1 OR (if c \<noteq> 0 then 0x80 else 0)]" "a AND 1"]
    by (simp add: rsl_step_def Let_def list_update_append split: prod.split)
qed simp

lemma rsl_pass:
  assumes "n \<le> length d"
  shows "fold rsl_step [0..<n] (d, c) =
    (fst (rsl_list c (take n d)) @ drop n d, snd (rsl_list c (take n d)))"
  using fold_rsl_step [of "[]" "take n d" "drop n d" c] assms by (simp add: min_absorb2)

lemma length_rsl_list [simp]: "length (fst (rsl_list c d)) = length d"
  by (induction d arbitrary: c) (auto split: prod.split, (metis fst_conv)+)

lemma rsl_byte_bits:
  "map (bit (shr a 1 OR (if p then 0x80 else 0) :: u8)) [7, 6, 5, 4, 3, 2, 1, 0] =
   p # map (bit a) [7, 6, 5, 4, 3, 2, 1]"
  by (cases p) (simp_all add: word_bits del: bit_0)

lemma bits_be_rsl_list:
  "bits_be (fst (rsl_list c d)) @ [snd (rsl_list c d) \<noteq> 0] = (c \<noteq> 0) # bits_be d"
proof (induction d arbitrary: c)
  case (Cons a d)
  obtain r' c' where r: "rsl_list (a AND 1) d = (r', c')" by force
  have a: "(a AND 1 \<noteq> 0) = bit a 0"
    by (simp add: and_one_eq mod_2_eq_odd bit_0)
  let ?b = "shr a 1 OR (if c \<noteq> 0 then 0x80 else 0)"
  have "bits_be (fst (rsl_list c (a # d))) @ [snd (rsl_list c (a # d)) \<noteq> 0] =
      map (bit ?b) [7, 6, 5, 4, 3, 2, 1, 0] @ bits_be r' @ [c' \<noteq> 0]"
    by (simp add: r Let_def)
  also have "\<dots> = ((c \<noteq> 0) # map (bit a) [7, 6, 5, 4, 3, 2, 1]) @ (bit a 0 # bits_be d)"
    using Cons.IH [of "a AND 1"] unfolding rsl_byte_bits by (simp only: r fst_conv snd_conv a)
  finally show ?case by simp
qed simp

text \<open>Rotating a bit list to the right.\<close>

definition rotr1 :: "'a list \<Rightarrow> 'a list" where
  "rotr1 xs = (if xs = [] then [] else last xs # butlast xs)"

lemma rotr1_snoc [simp]: "rotr1 (xs @ [x]) = x # xs"
  by (simp add: rotr1_def)

lemma rslx_state:
  assumes "n \<le> length d"
  shows "\<exists>d' c'. fold (\<lambda>_. fold rsl_step [0..<n]) [0..<k] (d, c) = (d', c') \<and>
    length d' = length d \<and> drop n d' = drop n d \<and>
    (c' \<noteq> 0) # bits_be (take n d') = (rotr1 ^^ k) ((c \<noteq> 0) # bits_be (take n d))"
proof (induction k)
  case (Suc k)
  then obtain d' c' where st: "fold (\<lambda>_. fold rsl_step [0..<n]) [0..<k] (d, c) = (d', c')"
    "length d' = length d" "drop n d' = drop n d"
    "(c' \<noteq> 0) # bits_be (take n d') = (rotr1 ^^ k) ((c \<noteq> 0) # bits_be (take n d))" by auto
  let ?r = "rsl_list c' (take n d')"
  have "rotr1 ((c' \<noteq> 0) # bits_be (take n d')) = (snd ?r \<noteq> 0) # bits_be (fst ?r)"
    using bits_be_rsl_list [of c' "take n d'"] by (metis rotr1_snoc)
  with st assms show ?case
    by (simp add: rsl_pass)
qed auto

lemma fold_rol:
  assumes "n \<le> length d" "0 < n"
  shows "rol d n = rotate1 (take n d) @ drop n d"
proof -
  let ?f = "fold (\<lambda>i d. d[i := d ! (i + 1)]) [0..<n - 1] d"
  have "n - 1 < length d" using assms by simp
  note f = fold_update_next_nth [OF this, of "\<lambda>a b. b"]
  show ?thesis
  proof (rule nth_equalityI)
    show "length (rol d n) = length (rotate1 (take n d) @ drop n d)"
      using f assms by (simp add: rol_def Let_def)
    fix i assume "i < length (rol d n)"
    then have "i < length d" using f by (simp add: rol_def Let_def)
    with f assms show "rol d n ! i = (rotate1 (take n d) @ drop n d) ! i"
      by (auto simp: rol_def Let_def nth_list_update nth_append nth_rotate1 mod_less)
  qed
qed

lemma fold_update_prev_nth:
  assumes "n \<le> length d"
  shows "length (fold (\<lambda>i d. d[i := d ! (i - 1)]) (rev [k..<n]) d) = length d \<and>
    (\<forall>i < length d. fold (\<lambda>i d. d[i := d ! (i - 1)]) (rev [k..<n]) d ! i =
      (if k \<le> i \<and> i < n then d ! (i - 1) else d ! i))"
  using assms
proof (induction n arbitrary: d)
  case (Suc n)
  show ?case
  proof (cases "k \<le> n")
    case True
    then show ?thesis
      using Suc.prems Suc.IH [of "d[n := d ! (n - 1)]"]
      by (auto simp: nth_list_update less_Suc_eq)
  next
    case False
    then show ?thesis by auto
  qed
qed simp

lemma ror_nth:
  assumes "0 < n" "n \<le> length d"
  shows "length (ror d n) = length d" and "i < length d \<Longrightarrow>
    ror d n ! i = (if i = 0 then d ! (n - 1) else if i < n then d ! (i - 1) else d ! i)"
  using fold_update_prev_nth [OF assms(2), of 1] assms
  by (auto simp: ror_def Let_def nth_list_update)

lemma ror_rol:
  assumes "0 < n" "n \<le> length d"
  shows "ror (rol d n) n = d"
proof (rule nth_equalityI)
  have len: "length (rol d n) = length d"
    using assms by (simp add: fold_rol)
  then show "length (ror (rol d n) n) = length d"
    using assms by (simp add: ror_nth)
  fix i assume "i < length (ror (rol d n) n)"
  then have "i < length d" using assms len by (simp add: ror_nth)
  with assms len show "ror (rol d n) n ! i = d ! i"
    by (auto simp: ror_nth nth_append nth_rotate1 fold_rol)
qed

subsection \<open>Reversing arrays\<close>

lemma xor_swap_nth:
  assumes "i \<noteq> j" "i < length d" "j < length d"
  shows "xor_swap i j d = d[i := d ! j, j := d ! i]"
  using assms
  by (intro nth_equalityI) (auto simp: xor_swap_def Let_def nth_list_update xor.assoc xor.left_commute)

lemma reverse_array_loop_nth:
  assumes "j < length d"
  shows "length (reverse_array_loop i j d) = length d \<and>
    (\<forall>k < length d. reverse_array_loop i j d ! k = (if i \<le> k \<and> k \<le> j then d ! (i + j - k) else d ! k))"
  using assms
proof (induction i j d rule: reverse_array_loop.induct)
  case (1 i j d)
  show ?case
  proof (cases "i < j")
    case True
    with 1 show ?thesis
      by (subst reverse_array_loop.simps, subst reverse_array_loop.simps)
        (auto simp: xor_swap_nth nth_list_update)
  next
    case False
    then have "i \<le> k \<Longrightarrow> k \<le> j \<Longrightarrow> i + j - k = k" for k by simp
    with False show ?thesis
      by (auto simp: reverse_array_loop.simps [of i j d])
  qed
qed

lemma reverse_array_rev:
  assumes "n \<le> length d"
  shows "reverse_array d n = rev (take n d) @ drop n d"
proof (cases "n < 2")
  case True
  then have "take n d = [] \<or> (\<exists>x. take n d = [x])"
    using assms by (cases d) (auto simp: less_2_cases_iff)
  then have "rev (take n d) = take n d" by auto
  with True show ?thesis by (simp add: reverse_array_def)
next
  case False
  then have "n - 1 < length d" using assms by simp
  from reverse_array_loop_nth [OF this, of 0] False assms show ?thesis
    by (intro nth_equalityI) (auto simp: reverse_array_def nth_append rev_nth)
qed

lemma fold_update_map:
  "k \<le> length d \<Longrightarrow> fold (\<lambda>i d. d[i := g i (d ! i)]) [0..<k] d = map (\<lambda>i. g i (d ! i)) [0..<k] @ drop k d"
proof (induction k)
  case (Suc k)
  then show ?case
    by (simp add: nth_append list_update_append Cons_nth_drop_Suc [symmetric])
qed simp

lemma xor_c_map:
  "n \<le> length d \<Longrightarrow> xor_c d s n = map (\<lambda>i. d ! i XOR s ! i) [0..<n] @ drop n d"
  unfolding xor_c_def by (rule fold_update_map [where g = "\<lambda>i x. x XOR s ! i"])

lemma xor_c_involution: "n \<le> length d \<Longrightarrow> xor_c (xor_c d s n) s n = d"
  by (intro nth_equalityI) (auto simp: xor_c_map nth_append xor.assoc)

subsection \<open>Hexadecimal\<close>

lemma char2int_eq: "char2int = hexchar_to_dec"
  by (rule ext) (auto simp: char2int_def hexchar_to_dec_def in_range_def char_diff_def)

lemma hexchar_to_dec_range: "hexchar_to_dec c = -1 \<or> (0 \<le> hexchar_to_dec c \<and> hexchar_to_dec c < 16)"
  by (auto simp: hexchar_to_dec_def in_range_def char_diff_def)

lemma hexchar_to_dec_NUL: "hexchar_to_dec (CHR 0x00) = -1"
  by (simp add: hexchar_to_dec_def in_range_def)

text \<open>A reference encoder, in lower case.\<close>

definition hex_char :: "u8 \<Rightarrow> char" where
  "hex_char v = ''0123456789abcdef'' ! unat v"

definition hex_encode :: "bytes \<Rightarrow> string" where
  "hex_encode bs = concat (map (\<lambda>b. [hex_char (shr b 4), hex_char (b AND 0xF)]) bs)"

lemma hexchar_hex_char: "unat v < 16 \<Longrightarrow> hexchar_to_dec (hex_char v) = int (unat v)"
proof -
  have "list_all (\<lambda>n. hexchar_to_dec (''0123456789abcdef'' ! n) = int n) [0..<16]"
    by (simp add: upt_16 hexchar_to_dec_def in_range_def char_diff_def)
  then show "unat v < 16 \<Longrightarrow> hexchar_to_dec (hex_char v) = int (unat v)"
    by (auto simp: list_all_iff hex_char_def)
qed

definition hex_byte :: "char \<Rightarrow> char \<Rightarrow> u8" where
  "hex_byte c1 c2 = word_of_int (push_bit 4 (hexchar_to_dec c1) OR hexchar_to_dec c2)"

definition is_hex :: "char \<Rightarrow> bool" where
  "is_hex c = (hexchar_to_dec c \<noteq> -1)"

lemma hex_or_neg: "(push_bit 4 (hexchar_to_dec c1) OR hexchar_to_dec c2 < 0) = (\<not> (is_hex c1 \<and> is_hex c2))"
proof -
  have "(push_bit 4 (hexchar_to_dec c1) OR hexchar_to_dec c2 < 0) \<longleftrightarrow> hexchar_to_dec c1 < 0 \<or> hexchar_to_dec c2 < 0"
    by (simp add: not_le [symmetric] or_nonnegative_int_iff)
  then show ?thesis
    using hexchar_to_dec_range [of c1] hexchar_to_dec_range [of c2] by (auto simp: is_hex_def)
qed

lemma hex_byte_encode: "hex_byte (hex_char (shr b 4)) (hex_char (b AND 0xF)) = b"
proof -
  have 1: "unat (shr b 4) < 2 ^ 4" and 2: "unat (b AND 0xF) < 2 ^ 4"
    unfolding and_masks by (rule unat_lt_bits; simp add: word_bits)+
  have 3: "shl (shr b 4) 4 OR take_bit 4 b = b"
    by (rule u8_eqI) (auto simp: word_bits)
  have "hex_byte (hex_char (shr b 4)) (hex_char (b AND 0xF)) =
      word_of_int (push_bit 4 (uint (shr b 4)) OR uint (b AND 0xF))"
    using 1 2 by (simp add: hex_byte_def hexchar_hex_char)
  also have "\<dots> = shl (shr b 4) 4 OR take_bit 4 b"
    unfolding and_masks by (rule u8_eqI) (auto simp: word_bits bit_word_of_int_iff bit_uint_iff)
  finally show ?thesis unfolding 3 .
qed

lemma length_hex_encode [simp]: "length (hex_encode bs) = 2 * length bs"
  by (induction bs) (auto simp: hex_encode_def)

lemma int_ne_minus_1: "int n \<noteq> - 1"
  by simp

lemma is_hex_char [simp]: "is_hex (hex_char (shr b 4))" "is_hex (hex_char (b AND 0xF))"
proof -
  have 1: "unat (shr b 4) < 2 ^ 4" and 2: "unat (b AND 0xF) < 2 ^ 4"
    unfolding and_masks by (rule unat_lt_bits; simp add: word_bits)+
  then have "unat (shr b 4) < 16" "unat (b AND 0xF) < 16" by simp_all
  then show "is_hex (hex_char (shr b 4))" "is_hex (hex_char (b AND 0xF))"
    unfolding is_hex_def by (simp_all only: hexchar_hex_char int_ne_minus_1 not_False_eq_True)
qed

lemma is_hex_encode: "list_all is_hex (hex_encode bs)"
  by (induction bs) (auto simp: hex_encode_def)

text \<open>What either decoder leaves: the decoded pairs up to the first pair with a bad digit.\<close>

fun hex_pairs :: "string \<Rightarrow> bytes" where
  "hex_pairs (c1 # c2 # s) = (if is_hex c1 \<and> is_hex c2 then hex_byte c1 c2 # hex_pairs s else [])"
| "hex_pairs _ = []"

lemma hex_pairs_encode: "hex_pairs (hex_encode bs) = bs"
  by (induction bs) (auto simp: hex_encode_def hex_byte_encode)

lemma hex_pairs_all: "even (length s) \<Longrightarrow> list_all is_hex s \<Longrightarrow> length (hex_pairs s) = length s div 2"
  by (induction s rule: hex_pairs.induct) auto

lemma length_hex_pairs: "length (hex_pairs s) \<le> length s div 2"
  by (induction s rule: hex_pairs.induct) auto

lemma hexstr_to_byte_array_loop_step:
  assumes "c1 \<noteq> CHR 0x00" "c2 \<noteq> CHR 0x00"
  shows "hexstr_to_byte_array_loop (c1 # c2 # s) i (Suc k) d =
    (if is_hex c1 \<and> is_hex c2 then hexstr_to_byte_array_loop s (i + 1) k (d[i := hex_byte c1 c2])
     else (False, d))"
  unfolding hexstr_to_byte_array_loop.simps Let_def hex_or_neg hex_byte_def using assms by auto

lemma hexstr_to_byte_array_loop_eq:
  assumes "length s = 2 * k" "i + k \<le> length d" "CHR 0x00 \<notin> set s"
  shows "hexstr_to_byte_array_loop s i k d = (list_all is_hex s, write_at i (hex_pairs s) d)"
  using assms
proof (induction k arbitrary: s i d)
  case (Suc k)
  then obtain c1 c2 r where s: "s = c1 # c2 # r"
    by (cases s; cases "tl s") auto
  have "length (hex_pairs r) \<le> k" using length_hex_pairs [of r] Suc.prems(1) s by simp
  then have "write_at (Suc i) (hex_pairs r) (d[i := b]) = write_at i (b # hex_pairs r) d" for b
    using Suc.prems by (intro write_at_Cons) simp
  with Suc show ?case
    unfolding s by (subst hexstr_to_byte_array_loop_step) (auto simp: write_at_def [of _ "[]"])
qed (simp add: write_at_def)

lemma hexstr2ByteArr_loop_step:
  assumes "i < n"
  shows "hexstr2ByteArr_loop s n i d =
    (if is_hex (s ! i) \<and> is_hex (s ! Suc i)
     then hexstr2ByteArr_loop s n (i + 2) (d[i div 2 := hex_byte (s ! i) (s ! Suc i)])
     else (-1, d))"
  using assms
  by (subst hexstr2ByteArr_loop.simps)
    (simp add: Let_def char2int_eq is_hex_def hex_byte_def del: hexstr2ByteArr_loop.simps)

lemma hexstr2ByteArr_loop_eq:
  assumes "length s = i + 2 * k" "even i" "i div 2 + k \<le> length d"
  shows "hexstr2ByteArr_loop s (length s) i d =
    (if list_all is_hex (drop i s) then int (i div 2 + k) else -1,
     write_at (i div 2) (hex_pairs (drop i s)) d)"
  using assms
proof (induction k arbitrary: i d)
  case 0
  then show ?case
    by (subst hexstr2ByteArr_loop.simps) (simp add: write_at_def)
next
  case (Suc k)
  have lt: "i < length s" using Suc.prems(1) by simp
  let ?r = "drop (i + 2) s" and ?b = "hex_byte (s ! i) (s ! Suc i)"
  have d: "drop i s = s ! i # s ! Suc i # ?r"
    using Suc.prems(1) by (simp add: Cons_nth_drop_Suc)
  have "length (hex_pairs ?r) \<le> k" using length_hex_pairs [of ?r] Suc.prems(1) by simp
  then have w: "write_at (Suc (i div 2)) (hex_pairs ?r) (d[i div 2 := ?b]) =
      write_at (i div 2) (?b # hex_pairs ?r) d"
    using Suc.prems by (intro write_at_Cons) simp
  have IH: "hexstr2ByteArr_loop s (length s) (i + 2) (d[i div 2 := ?b]) =
      (if list_all is_hex ?r then int (i div 2 + Suc k) else -1,
       write_at (Suc (i div 2)) (hex_pairs ?r) (d[i div 2 := ?b]))"
    using Suc.IH [of "i + 2" "d[i div 2 := ?b]"] Suc.prems by simp
  show ?case
    unfolding hexstr2ByteArr_loop_step [OF lt] IH w d by (auto simp: write_at_def [of _ "[]"])
qed

lemma hexstr2ByteArr_eq:
  assumes "length s div 2 \<le> asize" "asize \<le> length d"
  shows "hexstr2ByteArr s d asize =
    (if even (length s) \<and> list_all is_hex s then (int (length s div 2), write_at 0 (hex_pairs s) d)
     else if even (length s) then (-1, write_at 0 (hex_pairs s) d) else (-1, d))"
proof (cases "even (length s)")
  case True
  then obtain k where "length s = 2 * k" by (rule evenE)
  with assms hexstr2ByteArr_loop_eq [of s 0 k d] show ?thesis
    by (simp add: hexstr2ByteArr_def Let_def)
qed (simp add: hexstr2ByteArr_def)

lemma hexstr_to_byte_array_eq:
  assumes "length s div 2 \<le> length d" "CHR 0x00 \<notin> set s"
  shows "hexstr_to_byte_array s d =
    (if even (length s) then (list_all is_hex s, write_at 0 (hex_pairs s) d, Some (length s div 2))
     else (False, d, None))"
proof (cases "even (length s)")
  case True
  then obtain k where "length s = 2 * k" by (rule evenE)
  with assms hexstr_to_byte_array_loop_eq [of s k 0 d] show ?thesis
    by (simp add: hexstr_to_byte_array_def Let_def)
qed (simp add: hexstr_to_byte_array_def)

subsection \<open>Concatenating bits\<close>

text \<open>The bit of a memory at a bit address, most significant bit first.\<close>

definition mbit :: "bytes \<Rightarrow> nat \<Rightarrow> bool" where
  "mbit mem k = bit (mem ! (k div 8)) (7 - k mod 8)"

lemma TEST_BIT_MSB_mbit: "TEST_BIT_MSB mem k = mbit mem k"
  by (simp add: TEST_BIT_MSB_def mbit_def shr_and_1)

text \<open>The memory bit that \<open>TEST_BIT_LSB\<close> reads.\<close>

definition lsb_index :: "nat \<Rightarrow> nat" where
  "lsb_index k = 8 * (k div 8) + (7 - k mod 8)"

lemma TEST_BIT_LSB_mbit: "TEST_BIT_LSB mem k = mbit mem (lsb_index k)"
proof -
  have *: "r < 8 \<Longrightarrow> (8 * q + r) div 8 = q" "r < 8 \<Longrightarrow> (8 * q + r) mod 8 = r" for q r :: nat
    by simp_all
  obtain r where r: "r = 7 - k mod 8" "r < 8" "7 - r = k mod 8" by simp
  have "(8 * (k div 8) + r) div 8 = k div 8" "(8 * (k div 8) + r) mod 8 = r"
    using r(2) by (rule *)+
  then show ?thesis
    by (simp add: TEST_BIT_LSB_def mbit_def lsb_index_def shr_and_1 r(3) flip: r(1))
qed

lemma mbit_update:
  assumes "k div 8 < length mem"
  shows "mbit (mem[k div 8 := w]) j =
    (if j div 8 = k div 8 then bit w (7 - j mod 8) else mbit mem j)"
  using assms by (auto simp: mbit_def)

lemma bit_addr_eq: "j div 8 = k div 8 \<Longrightarrow> (7 - j mod 8 = 7 - k mod 8) = (j = (k :: nat))"
  by (metis diff_diff_cancel div_mult_mod_eq less_Suc_eq_le mod_less_divisor numeral_eq_Suc pred_numeral_simps(2) semiring_norm(26) semiring_norm(27) zero_less_numeral eval_nat_numeral(3))

lemma mbit_SET_CLEAR:
  assumes "k div 8 < length mem"
  shows "mbit (SET_BIT_MSB mem k) j = (j = k \<or> mbit mem j)"
    and "mbit (CLEAR_BIT_MSB mem k) j = (j \<noteq> k \<and> mbit mem j)"
proof -
  have m: "j div 8 = k div 8 \<Longrightarrow> bit (mem ! (k div 8)) (7 - j mod 8) = mbit mem j"
    by (simp add: mbit_def)
  have "7 - j mod 8 < 8" by simp
  then show "mbit (SET_BIT_MSB mem k) j = (j = k \<or> mbit mem j)"
    and "mbit (CLEAR_BIT_MSB mem k) j = (j \<noteq> k \<and> mbit mem j)"
    using assms bit_addr_eq [of j k] m
    by (auto simp: SET_BIT_MSB_def CLEAR_BIT_MSB_def mbit_update word_bits bit_exp_iff)
qed

lemma length_SET_CLEAR [simp]:
  "length (SET_BIT_MSB mem k) = length mem" "length (CLEAR_BIT_MSB mem k) = length mem"
  by (simp_all add: SET_BIT_MSB_def CLEAR_BIT_MSB_def)


lemma concatbits_body_mbit:
  assumes "8 * dest + (dest_offset + i) < 8 * length mem"
    and "8 * dest + (dest_offset + i) \<noteq> P"
    and "P = (if src_lsb then lsb_index (8 * src + (src_offset + i)) else 8 * src + (src_offset + i))"
  shows "mbit (concatbits_body dest dest_offset src src_offset src_lsb i mem) j =
    (if j = 8 * dest + (dest_offset + i) then mbit mem P else mbit mem j)"
proof -
  let ?k = "8 * dest + (dest_offset + i)"
  have k: "?k div 8 < length mem" using assms(1) by (simp add: less_mult_imp_div_less mult.commute)
  have "mbit (CLEAR_BIT_MSB mem ?k) P = mbit mem P"
    using k assms(2) by (simp add: mbit_SET_CLEAR)
  then show ?thesis
    using k assms(3)
    by (auto simp: concatbits_body_def Let_def TEST_BIT_MSB_mbit TEST_BIT_LSB_mbit mbit_SET_CLEAR)
qed

lemma length_concatbits_body [simp]: "length (concatbits_body d dof s sof l i mem) = length mem"
  by (simp add: concatbits_body_def Let_def)

text \<open>
  The loop in any order in which no bit is read at or after the time it is written copies the
  bits of the initial memory.
\<close>

lemma fold_concatbits:
  fixes P :: "nat \<Rightarrow> nat"
  assumes "\<And>i. P i = (if l then lsb_index (8 * src + (so + i)) else 8 * src + (so + i))"
    and "distinct idx" and "\<forall>i\<in>set idx. 8 * dest + (dof + i) < 8 * length mem"
    and "\<forall>i\<in>set idx. 8 * dest + (dof + i) \<noteq> P i"
    and "sorted_wrt (\<lambda>i j. 8 * dest + (dof + i) \<noteq> P j) idx"
  shows "mbit (fold (concatbits_body dest dof src so l) idx mem) j =
    (if 8 * dest + dof \<le> j \<and> j - (8 * dest + dof) \<in> set idx
     then mbit mem (P (j - (8 * dest + dof))) else mbit mem j)"
  using assms(2-)
proof (induction idx arbitrary: mem)
  case (Cons i idx)
  let ?m = "concatbits_body dest dof src so l i mem"
  have b: "mbit ?m j = (if j = 8 * dest + (dof + i) then mbit mem (P i) else mbit mem j)" for j
    using Cons.prems by (intro concatbits_body_mbit) (auto simp: assms(1))
  have "mbit (fold (concatbits_body dest dof src so l) idx ?m) j =
      (if 8 * dest + dof \<le> j \<and> j - (8 * dest + dof) \<in> set idx
       then mbit ?m (P (j - (8 * dest + dof))) else mbit ?m j)"
    using Cons.prems by (intro Cons.IH) auto
  moreover have "mbit ?m (P i') = mbit mem (P i')" if "i' \<in> set idx" for i'
    using Cons.prems that b by auto
  ultimately show ?case
    using Cons.prems(1) b by (auto simp: algebra_simps)
qed simp

lemma concatbits_overlap:
  assumes "8 * src + src_offset \<noteq> 8 * dest + dest_offset"
    and "8 * dest + dest_offset + nbits \<le> 8 * length mem"
  shows "mbit (fst (concatbits mem dest dest_offset src src_offset nbits False)) j =
    (if 8 * dest + dest_offset \<le> j \<and> j < 8 * dest + dest_offset + nbits
     then mbit mem (j - (8 * dest + dest_offset) + (8 * src + src_offset)) else mbit mem j)"
proof -
  define idx where "idx = (if (int src - int dest) * 8 + int src_offset - int dest_offset > 0
                  then [0..<nbits] else rev [0..<nbits])"
  have set: "set idx = {0..<nbits}" "distinct idx" by (auto simp: idx_def)
  have "sorted_wrt (\<lambda>i j. 8 * dest + (dest_offset + i) \<noteq> 8 * src + (src_offset + j)) idx"
  proof (cases "8 * src + src_offset > 8 * dest + dest_offset")
    case True
    have "sorted_wrt (<) [0..<nbits]" by simp
    then have "sorted_wrt (\<lambda>i j. 8 * dest + (dest_offset + i) \<noteq> 8 * src + (src_offset + j)) [0..<nbits]"
      by (rule sorted_wrt_mono_rel [rotated]) (use True in auto)
    then show ?thesis using True by (auto simp: idx_def)
  next
    case False
    have "sorted_wrt (\<lambda>i j. j < i) (rev [0..<nbits])" by (simp add: sorted_wrt_rev)
    then have "sorted_wrt (\<lambda>i j. 8 * dest + (dest_offset + i) \<noteq> 8 * src + (src_offset + j)) (rev [0..<nbits])"
      by (rule sorted_wrt_mono_rel [rotated]) (use False assms(1) in auto)
    then show ?thesis using False by (auto simp: idx_def)
  qed
  then have "mbit (fold (concatbits_body dest dest_offset src src_offset False) idx mem) j =
    (if 8 * dest + dest_offset \<le> j \<and> j - (8 * dest + dest_offset) \<in> set idx
     then mbit mem (8 * src + (src_offset + (j - (8 * dest + dest_offset)))) else mbit mem j)"
    using assms set by (intro fold_concatbits) auto
  moreover have "fst (concatbits mem dest dest_offset src src_offset nbits False) =
      fold (concatbits_body dest dest_offset src src_offset False) idx mem"
    by (simp only: concatbits_def Let_def idx_def fst_conv)
  moreover have "8 * src + (src_offset + (j - (8 * dest + dest_offset))) =
      j - (8 * dest + dest_offset) + (8 * src + src_offset)" by simp
  ultimately show ?thesis
    using set by (simp only: atLeastLessThan_iff) auto
qed

text \<open>Source and destination the same bits: each step erases the bit and then reads it.\<close>

lemma concatbits_same:
  assumes "8 * src + src_offset = 8 * dest + dest_offset"
    and "8 * dest + dest_offset + nbits \<le> 8 * length mem"
  shows "mbit (fst (concatbits mem dest dest_offset src src_offset nbits False)) j =
    (mbit mem j \<and> \<not> (8 * dest + dest_offset \<le> j \<and> j < 8 * dest + dest_offset + nbits))"
proof -
  let ?D = "8 * dest + dest_offset"
  have body: "mbit (concatbits_body dest dest_offset src src_offset False i m) j =
      (j \<noteq> ?D + i \<and> mbit m j)" if "?D + i < 8 * length m" for i m j
  proof -
    have "(?D + i) div 8 < length m" using that by (simp add: less_mult_imp_div_less mult.commute)
    then show ?thesis
      using assms(1) by (auto simp: concatbits_body_def Let_def TEST_BIT_MSB_mbit mbit_SET_CLEAR
          add.assoc [symmetric])
  qed
  have "\<forall>i\<in>set xs. ?D + i < 8 * length m \<Longrightarrow>
      mbit (fold (concatbits_body dest dest_offset src src_offset False) xs m) j =
      (mbit m j \<and> j \<notin> (+) ?D ` set xs)" for xs m
    by (induction xs arbitrary: m) (auto simp: body)
  then have "mbit (fold (concatbits_body dest dest_offset src src_offset False) (rev [0..<nbits]) mem) j =
      (mbit mem j \<and> j \<notin> (+) ?D ` {0..<nbits})"
    using assms(2) by simp
  then show ?thesis
    using assms(1) by (auto simp: concatbits_def image_iff algebra_simps)
qed

lemma concatbits_msb:
  assumes "8 * dest + dof + n \<le> 8 * length mem"
  shows "mbit (fst (concatbits mem dest dof src so n False)) j =
    (if 8 * dest + dof \<le> j \<and> j < 8 * dest + dof + n
     then 8 * src + so \<noteq> 8 * dest + dof \<and> mbit mem (j - (8 * dest + dof) + (8 * src + so))
     else mbit mem j)"
proof (cases "8 * src + so = 8 * dest + dof")
  case True
  with concatbits_same [OF True assms] show ?thesis by auto
next
  case False
  with concatbits_overlap [OF False assms] show ?thesis by auto
qed

lemma lsb_index_div: "lsb_index k div 8 = k div 8"
proof -
  have "(8 * q + r) div 8 = q" if "r < 8" for q r :: nat using that by simp
  moreover have "7 - k mod 8 < 8" by simp
  ultimately show ?thesis unfolding lsb_index_def by blast
qed

lemma length_fold_concatbits [simp]: "length (fold (concatbits_body d dof s so l) idx mem) = length mem"
  by (induction idx arbitrary: mem) simp_all

lemma length_concatbits [simp]: "length (fst (concatbits mem dest dof src so n l)) = length mem"
  by (simp add: concatbits_def Let_def)

text \<open>Least significant bit first, with no byte in common: the order of the loop does not matter.\<close>

lemma concatbits_lsb:
  assumes "8 * dest + dof + n \<le> 8 * length mem"
    and "8 * dest + dof + n \<le> 8 * (src + so div 8) \<or> 8 * (src + (so + n + 7) div 8) \<le> 8 * dest + dof"
  shows "mbit (fst (concatbits mem dest dof src so n True)) j =
    (if 8 * dest + dof \<le> j \<and> j < 8 * dest + dof + n
     then bit (mem ! ((8 * src + so + (j - (8 * dest + dof))) div 8)) ((8 * src + so + (j - (8 * dest + dof))) mod 8) else mbit mem j)"
proof -
  let ?P = "\<lambda>i. lsb_index (8 * src + (so + i))"
  define idx where "idx = (if (int src - int dest) * 8 + int so - int dof > 0 then [0..<n] else rev [0..<n])"
  have set: "set idx = {0..<n}" "distinct idx" by (auto simp: idx_def)
  have far: "8 * dest + (dof + i) \<noteq> ?P k" if "i < n" "k < n" for i k
  proof -
    have a: "?P k div 8 = src + (so + k) div 8" by (simp add: lsb_index_div)
    have b: "8 * (?P k div 8) \<le> ?P k" "?P k < 8 * (?P k div 8 + 1)" by simp_all
    have c: "src + so div 8 \<le> src + (so + k) div 8" by (simp add: div_le_mono)
    have "(so + k) div 8 + 1 = (so + k + 8) div 8" by simp
    also have "\<dots> \<le> (so + n + 7) div 8" using that by (intro div_le_mono) simp
    finally have d: "src + (so + k) div 8 + 1 \<le> src + (so + n + 7) div 8" by simp
    from assms(2) show ?thesis
    proof
      assume "8 * dest + dof + n \<le> 8 * (src + so div 8)"
      moreover have "8 * (src + so div 8) \<le> ?P k" by (rule order.trans [OF mult_le_mono2 [OF c] b(1) [unfolded a]])
      ultimately show ?thesis using that by linarith
    next
      assume "8 * (src + (so + n + 7) div 8) \<le> 8 * dest + dof"
      moreover have "?P k < 8 * (src + (so + n + 7) div 8)" by (rule order.strict_trans2 [OF b(2) [unfolded a] mult_le_mono2 [OF d]])
      ultimately show ?thesis by linarith
    qed
  qed
  have "mbit (fold (concatbits_body dest dof src so True) idx mem) j =
    (if 8 * dest + dof \<le> j \<and> j - (8 * dest + dof) \<in> set idx then mbit mem (?P (j - (8 * dest + dof))) else mbit mem j)"
  proof (rule fold_concatbits)
    have "sorted_wrt (\<lambda>i k. 8 * dest + (dof + i) \<noteq> ?P k) xs" if "set xs \<subseteq> {0..<n}" for xs
      using that far by (induction xs) auto
    then show "sorted_wrt (\<lambda>i k. 8 * dest + (dof + i) \<noteq> ?P k) idx" using set by simp
  qed (use assms(1) set far in auto)
  moreover have "fst (concatbits mem dest dof src so n True) = fold (concatbits_body dest dof src so True) idx mem"
    by (simp only: concatbits_def Let_def idx_def fst_conv)
  moreover have "mbit mem (lsb_index k) = bit (mem ! (k div 8)) (k mod 8)" for k
    using TEST_BIT_LSB_mbit [of mem k] by (simp add: TEST_BIT_LSB_def shr_and_1)
  ultimately show ?thesis
    using set by (auto simp: add.assoc)
qed

subsection \<open>Properties\<close>

text \<open>writing a number big endian into a buffer and reading it back gives the number
  truncated to the bytes written, and reading bytes and writing them back reproduces exactly
  those bytes and leaves the rest of the buffer alone (\<open>num_to_bytes\<close>, \<open>bytes_to_num\<close>).\<close>

theorem num_bytes_roundtrip:
  assumes "len \<le> 8" "len \<le> length d" "len \<le> length s"
  shows "bytes_to_num (num_to_bytes n len d) len = take_bit (8 * len) n \<and>
    num_to_bytes (bytes_to_num s len) len d = take len s @ drop len d"
  using assms by (simp add: bytes_to_num_num_to_bytes num_to_bytes_bytes_to_num)

theorem num_bytes_roundtrip_witness:
  "bytes_to_num (num_to_bytes 0x1234567 2 [0, 0, 7]) 2 = take_bit 16 0x1234567 \<and>
   num_to_bytes (bytes_to_num [1, 2, 3] 2) 2 [0, 0, 7] = [1, 2, 7]"
  using num_bytes_roundtrip [of 2 "[0, 0, 7]" "[1, 2, 3]" "0x1234567"] by simp

text \<open>the fixed-width accessors are inverse pairs in both byte orders: for every width from
  two to eight bytes, reading what \<open>Uint*byteToMem*\<close> wrote gives the value (truncated to the
  width where the C type is wider), and writing what \<open>Mem*ToUint*byte\<close> read reproduces the bytes.\<close>

theorem mem_uint_roundtrip:
  assumes "8 \<le> length d" "8 \<le> length s"
  shows "(MemLeToUint2byte (Uint2byteToMemLe d v2) = v2) \<and>
    (MemBeToUint2byte (Uint2byteToMemBe d v2) = v2) \<and>
    (MemLeToUint3byte (Uint3byteToMemLe d v4) = take_bit 24 v4) \<and>
    (MemBeToUint3byte (Uint3byteToMemBe d v4) = take_bit 24 v4) \<and>
    (MemLeToUint4byte (Uint4byteToMemLe d v4) = v4) \<and>
    (MemBeToUint4byte (Uint4byteToMemBe d v4) = v4) \<and>
    (MemLeToUint5byte (Uint5byteToMemLe d v8) = take_bit 40 v8) \<and>
    (MemBeToUint5byte (Uint5byteToMemBe d v8) = take_bit 40 v8) \<and>
    (MemLeToUint6byte (Uint6byteToMemLe d v8) = take_bit 48 v8) \<and>
    (MemBeToUint6byte (Uint6byteToMemBe d v8) = take_bit 48 v8) \<and>
    (MemLeToUint7byte (Uint7byteToMemLe d v8) = take_bit 56 v8) \<and>
    (MemBeToUint7byte (Uint7byteToMemBe d v8) = take_bit 56 v8) \<and>
    (MemLeToUint8byte (Uint8byteToMemLe d v8) = v8) \<and>
    (MemBeToUint8byte (Uint8byteToMemBe d v8) = v8) \<and>
    (Uint2byteToMemLe d (MemLeToUint2byte s) = take 2 s @ drop 2 d) \<and>
    (Uint2byteToMemBe d (MemBeToUint2byte s) = take 2 s @ drop 2 d) \<and>
    (Uint3byteToMemLe d (MemLeToUint3byte s) = take 3 s @ drop 3 d) \<and>
    (Uint3byteToMemBe d (MemBeToUint3byte s) = take 3 s @ drop 3 d) \<and>
    (Uint4byteToMemLe d (MemLeToUint4byte s) = take 4 s @ drop 4 d) \<and>
    (Uint4byteToMemBe d (MemBeToUint4byte s) = take 4 s @ drop 4 d) \<and>
    (Uint5byteToMemLe d (MemLeToUint5byte s) = take 5 s @ drop 5 d) \<and>
    (Uint5byteToMemBe d (MemBeToUint5byte s) = take 5 s @ drop 5 d) \<and>
    (Uint6byteToMemLe d (MemLeToUint6byte s) = take 6 s @ drop 6 d) \<and>
    (Uint6byteToMemBe d (MemBeToUint6byte s) = take 6 s @ drop 6 d) \<and>
    (Uint7byteToMemLe d (MemLeToUint7byte s) = take 7 s @ drop 7 d) \<and>
    (Uint7byteToMemBe d (MemBeToUint7byte s) = take 7 s @ drop 7 d) \<and>
    (Uint8byteToMemLe d (MemLeToUint8byte s) = take 8 s @ drop 8 d) \<and>
    (Uint8byteToMemBe d (MemBeToUint8byte s) = take 8 s @ drop 8 d)"
  using assms by (simp add: mem_codec take_bit_word_eq_self)

theorem mem_uint_roundtrip_witness:
  "MemLeToUint3byte (Uint3byteToMemLe (replicate 8 0) 0x12345678) = take_bit 24 0x12345678 \<and>
   Uint5byteToMemBe (replicate 8 0) (MemBeToUint5byte [1, 2, 3, 4, 5, 6, 7, 8]) =
     [1, 2, 3, 4, 5] @ replicate 3 0"
  using mem_uint_roundtrip [of "replicate 8 0" "[1, 2, 3, 4, 5, 6, 7, 8]" 0 "0x12345678" 0]
  by simp

lemma map_bit_rev:
  assumes "\<And>i. i < n \<Longrightarrow> bit v i = bit w (n - 1 - i)"
  shows "map (bit v) [0..<n] = rev (map (bit w) [0..<n])"
  using assms by (intro nth_equalityI) (auto simp: rev_nth)

text \<open>\<open>reflect8\<close> (a 64-bit multiplication, a mask and a modulus), \<open>reflect16\<close>, \<open>reflect32\<close>
  (five mask-and-shift exchanges) and \<open>reflect64\<close> reverse the order of all bits of their argument.\<close>

theorem reflect_reverses:
  "(map (bit (reflect8 b)) [0..<8] = rev (map (bit b) [0..<8])) \<and>
   (map (bit (reflect16 h)) [0..<16] = rev (map (bit h) [0..<16])) \<and>
   (map (bit (reflect32 w)) [0..<32] = rev (map (bit w) [0..<32])) \<and>
   (map (bit (reflect64 q)) [0..<64] = rev (map (bit q) [0..<64]))"
  by (intro conjI map_bit_rev; simp add: reflect8_bit reflect16_bit reflect32_bit reflect64_bit)

text \<open>shifting an array by one bit is a shift of its bit string. \<open>lsl\<close> drops the first bit of
  the \<open>n\<close> bytes and appends a zero, \<open>rsl\<close> drops the last and prepends a zero, \<open>lslx\<close> repeats
  \<open>lsl\<close>; the bytes behind the first \<open>n\<close> keep their values.\<close>

theorem array_shift_bits:
  assumes "0 < n" "n \<le> length d"
  shows "(bits_be (lsl d n) = tl (bits_be (take n d)) @ [False] @ bits_be (drop n d)) \<and>
    (bits_be (rsl d n) = False # butlast (bits_be (take n d)) @ bits_be (drop n d)) \<and>
    (lslx d n k = ((\<lambda>d. lsl d n) ^^ k) d)"
proof (intro conjI)
  have ne: "take n d \<noteq> []" using assms by auto
  then show "bits_be (lsl d n) = tl (bits_be (take n d)) @ [False] @ bits_be (drop n d)"
    using assms by (simp add: lsl_eq_list bits_be_lsl_list)
  have "bits_be (fst (rsl_list 0 (take n d))) = butlast (False # bits_be (take n d))"
    using bits_be_rsl_list [of 0 "take n d"] by (metis butlast_snoc)
  moreover have "bits_be (take n d) \<noteq> []"
    using ne by (cases "take n d") auto
  ultimately show "bits_be (rsl d n) = False # butlast (bits_be (take n d)) @ bits_be (drop n d)"
    using assms by (simp add: rsl_def rsl_pass)
qed (rule lslx_lsl)

theorem array_shift_bits_witness:
  "bits_be (lsl [0x81, 0x01, 0xFF] 2) = tl (bits_be [0x81, 0x01]) @ [False] @ bits_be [0xFF]"
  using array_shift_bits [of 2 "[0x81, 0x01, 0xFF]"] by simp

text \<open>\<open>rslx\<close> does not iterate \<open>rsl\<close>: its carry is not cleared between passes, so the bit
  that a pass drops enters on the left in the next one. The passes rotate the array and the
  carry (initially zero) to the right as one bit string.\<close>

theorem rslx_rotates:
  assumes "n \<le> length d"
  shows "\<exists>carry. carry # bits_be (take n (rslx d n k)) =
      (rotr1 ^^ k) (False # bits_be (take n d)) \<and> drop n (rslx d n k) = drop n d"
  using rslx_state [OF assms, of k 0] by (auto simp: rslx_def)

theorem rslx_rotates_witness:
  "(\<exists>carry. carry # bits_be (take 1 (rslx [0x01] 1 2)) =
      (rotr1 ^^ 2) (False # bits_be (take 1 [0x01])) \<and> drop 1 (rslx [0x01] 1 2) = []) \<and>
   rslx [0x01] 1 2 = [0x80] \<and> rsl (rsl [0x01] 1) 1 = [0x00]"
  using rslx_rotates [of 1 "[0x01]" 2]
  by (simp add: rslx_def rsl_def rsl_step_def upt_rec)

text \<open>the hexadecimal decoders agree with the encoding: decoding the text of a byte array
  gives the array, both decoders accept exactly the texts of even length whose characters are
  all hexadecimal digits, and they leave the same bytes behind, also when they fail.\<close>

theorem hex_decoders:
  assumes "length s div 2 \<le> length d" "CHR 0x00 \<notin> set s" "length bs \<le> length d"
  shows "(hexstr2ByteArr (hex_encode bs) d (length d) = (int (length bs), bs @ drop (length bs) d)) \<and>
    (fst (hexstr_to_byte_array s d) \<longleftrightarrow> even (length s) \<and> list_all is_hex s) \<and>
    (fst (hexstr2ByteArr s d (length d)) = (if fst (hexstr_to_byte_array s d) then int (length s div 2) else -1)) \<and>
    (snd (hexstr2ByteArr s d (length d)) = fst (snd (hexstr_to_byte_array s d)))"
  using assms
  by (simp_all add: hexstr2ByteArr_eq hexstr_to_byte_array_eq is_hex_encode hex_pairs_encode
      write_at_def)

theorem hex_decoders_witness:
  "hexstr2ByteArr (hex_encode [0xC0, 0x1F]) [0, 0, 9] 3 = (2, [0xC0, 0x1F, 9])"
  using hex_decoders [of "''00''" "[0, 0, 9]" "[0xC0, 0x1F]"] by (simp add: numeral_3_eq_3)

text \<open>C4: \<open>concatbits\<close> returns \<open>dest_offset + nbits\<close> and moves \<open>nbits\<close> bits inside one memory. Read
  most significant bit first it behaves as if the source were copied aside first, whatever the overlap of the two
  areas; a source that is exactly the destination is erased. Read least significant bit first
  (\<open>src_lsb\<close>), for a destination that shares no byte with the source, bit \<open>k\<close> of the source is bit
  \<open>k mod 8\<close> of its byte. No other bit changes.\<close>

theorem concatbits_moves:
  assumes "8 * dest + dest_offset + nbits \<le> 8 * length mem"
    and "src_lsb \<Longrightarrow> 8 * dest + dest_offset + nbits \<le> 8 * (src + src_offset div 8) \<or>
      8 * (src + (src_offset + nbits + 7) div 8) \<le> 8 * dest + dest_offset"
    and "concatbits mem dest dest_offset src src_offset nbits src_lsb = (mem', end_offset)"
  shows "end_offset = dest_offset + nbits \<and> length mem' = length mem \<and>
    (mbit mem' j = (if 8 * dest + dest_offset \<le> j \<and> j < 8 * dest + dest_offset + nbits
     then let k = 8 * src + src_offset + (j - (8 * dest + dest_offset)) in
       if src_lsb then bit (mem ! (k div 8)) (k mod 8)
       else 8 * src + src_offset \<noteq> 8 * dest + dest_offset \<and> mbit mem k
     else mbit mem j))"
proof -
  have m: "mem' = fst (concatbits mem dest dest_offset src src_offset nbits src_lsb)" "end_offset = dest_offset + nbits"
    using assms(3) by (simp_all add: concatbits_def)
  show ?thesis
  proof (cases src_lsb)
    case True
    then show ?thesis using concatbits_lsb [OF assms(1) assms(2)] m by (simp add: Let_def)
  next
    case False
    then show ?thesis
      using concatbits_msb [OF assms(1), of src src_offset j] m by (simp add: Let_def add.commute)
  qed
qed

text \<open>Two bits of a byte, least significant first, put behind three bits of another byte.\<close>

theorem concatbits_moves_witness:
  "(case concatbits [0xA0, 1] 0 3 1 0 2 True of (mem', n) \<Rightarrow> n = 5 \<and> mbit mem' 3 \<and> \<not> mbit mem' 4)"
proof -
  obtain mem' n where c: "concatbits [0xA0, 1] 0 3 1 0 2 True = (mem', n)" by fastforce
  have "8 * 0 + 3 + 2 \<le> 8 * length [0xA0, 1 :: u8]" by simp
  from concatbits_moves [OF this _ c, of 3] concatbits_moves [OF this _ c, of 4] show ?thesis
    unfolding c by (simp add: Let_def)
qed

text \<open>the in-place array permutations: \<open>reverse_array\<close>, which exchanges through three
  exclusive ors without a temporary, reverses the first \<open>n\<close> bytes; \<open>rol\<close> rotates them by one and
  \<open>ror\<close> undoes \<open>rol\<close>; \<open>xor\<close> with the same bytes twice is the identity.\<close>

theorem array_permutations:
  assumes "0 < n" "n \<le> length d"
  shows "(reverse_array d n = rev (take n d) @ drop n d) \<and>
    (rol d n = rotate1 (take n d) @ drop n d) \<and>
    (ror (rol d n) n = d) \<and>
    (xor_c (xor_c d s n) s n = d)"
  by (intro conjI reverse_array_rev fold_rol ror_rol xor_c_involution assms)

theorem array_permutations_witness:
  "reverse_array [1, 2, 3, 4, 5] 4 = [4, 3, 2, 1, 5] \<and> rol [1, 2, 3] 3 = [2, 3, 1]"
  using array_permutations [of 4 "[1, 2, 3, 4, 5]"] array_permutations [of 3 "[1, 2, 3]"]
  by simp

end
