(* ===== verification/Crc16.thy ===== *)
theory Crc16
  imports Crc_Core Common_Util_Laws
begin

text \<open>
  \<open>common/crc16.c\<close>: the CRC-16 of the RFID protocols, computed from a lookup table that is
  regenerated when the protocol changes. The three static variables are the record
  \<open>crc_state\<close>; every function that reads or writes them takes and returns it. The bitwise
  register of \<open>Crc_Core\<close> is the reference the table-driven code is proved against.
\<close>

subsection \<open>State and types\<close>

datatype CrcType =
    CRC_NONE | CRC_11784 | CRC_14443_A | CRC_14443_B | CRC_15693 | CRC_ICLASS | CRC_FELICA
  | CRC_LEGIC | CRC_LEGIC_16 | CRC_CCITT | CRC_KERMIT | CRC_XMODEM | CRC_CRYPTORF | CRC_PHILIPS

record crc_state =
  crc_table :: "u16 list"
  crc_table_init :: bool
  current_crc_type :: CrcType

definition crc_state0 :: crc_state where
  "crc_state0 = \<lparr>crc_table = replicate 256 0, crc_table_init = False, current_crc_type = CRC_NONE\<rparr>"

definition CRC16_POLY_CCITT :: u16 where "CRC16_POLY_CCITT = 0x1021"
definition CRC16_POLY_LEGIC :: u16 where "CRC16_POLY_LEGIC = 0xc6c6"
definition CRC16_POLY_LEGIC_16 :: u16 where "CRC16_POLY_LEGIC_16 = 0x002d"
definition X25_CRC_CHECK :: u16 where "X25_CRC_CHECK = NOT 0xF0B8"

subsection \<open>The lookup table\<close>

text \<open>The body of the inner loop of \<open>generate_table\<close> on \<open>crc\<close> and \<open>c\<close>.\<close>

definition table_bit :: "u16 \<Rightarrow> u16 \<times> u16 \<Rightarrow> u16 \<times> u16" where
  "table_bit polynomial = (\<lambda>(crc, c).
    ((if (crc XOR c) AND 0x8000 \<noteq> 0 then shl crc 1 XOR polynomial else shl crc 1), shl c 1))"

definition table_entry :: "u16 \<Rightarrow> bool \<Rightarrow> nat \<Rightarrow> u16" where
  "table_entry polynomial refin i =
    (let c = (if refin then shl (ucast (reflect8 (word_of_nat i))) 8 else shl (word_of_nat i) 8);
         crc = fst ((table_bit polynomial ^^ 8) (0, c))
     in if refin then reflect16 crc else crc)"

definition generate_table :: "u16 \<Rightarrow> bool \<Rightarrow> crc_state \<Rightarrow> crc_state" where
  "generate_table polynomial refin st =
    (let t = fold (\<lambda>i t. t[i := table_entry polynomial refin i]) [0..<256] (crc_table st)
     in st\<lparr>crc_table := t, crc_table_init := True\<rparr>)"

definition reset_table :: "crc_state \<Rightarrow> crc_state" where
  "reset_table st = st\<lparr>crc_table := replicate (length (crc_table st)) 0, crc_table_init := False,
    current_crc_type := CRC_NONE\<rparr>"

definition init_table :: "CrcType \<Rightarrow> crc_state \<Rightarrow> crc_state" where
  "init_table crctype st =
    (if crctype = current_crc_type st \<and> crc_table_init st then st
     else
       let st = (if crctype \<noteq> current_crc_type st then reset_table st else st);
           st = st\<lparr>current_crc_type := crctype\<rparr>
       in (case crctype of
             CRC_14443_A \<Rightarrow> generate_table CRC16_POLY_CCITT True st
           | CRC_14443_B \<Rightarrow> generate_table CRC16_POLY_CCITT True st
           | CRC_15693 \<Rightarrow> generate_table CRC16_POLY_CCITT True st
           | CRC_ICLASS \<Rightarrow> generate_table CRC16_POLY_CCITT True st
           | CRC_CRYPTORF \<Rightarrow> generate_table CRC16_POLY_CCITT True st
           | CRC_KERMIT \<Rightarrow> generate_table CRC16_POLY_CCITT True st
           | CRC_FELICA \<Rightarrow> generate_table CRC16_POLY_CCITT False st
           | CRC_XMODEM \<Rightarrow> generate_table CRC16_POLY_CCITT False st
           | CRC_CCITT \<Rightarrow> generate_table CRC16_POLY_CCITT False st
           | CRC_11784 \<Rightarrow> generate_table CRC16_POLY_CCITT False st
           | CRC_PHILIPS \<Rightarrow> generate_table CRC16_POLY_CCITT False st
           | CRC_LEGIC \<Rightarrow> generate_table CRC16_POLY_LEGIC True st
           | CRC_LEGIC_16 \<Rightarrow> generate_table CRC16_POLY_LEGIC_16 True st
           | CRC_NONE \<Rightarrow> st\<lparr>crc_table_init := False, current_crc_type := CRC_NONE\<rparr>))"

subsection \<open>The checksum functions\<close>

definition crc16_fast :: "crc_state \<Rightarrow> bytes \<Rightarrow> nat \<Rightarrow> u16 \<Rightarrow> bool \<Rightarrow> bool \<Rightarrow> u16" where
  "crc16_fast st d n initval refin refout =
    (if n = 0 then NOT initval
     else
       let crc = (if refin then reflect16 initval else initval);
           crc = (if refin = False
             then fold (\<lambda>b crc. shl crc 8 XOR
                          crc_table st ! unat ((shr crc 8 XOR ucast b) AND 0xFF)) (take n d) crc
             else fold (\<lambda>b crc. shr crc 8 XOR
                          crc_table st ! unat ((crc AND 0xFF) XOR ucast b)) (take n d) crc)
       in if refout \<noteq> refin then reflect16 crc else crc)"

definition crc16_ccitt :: "crc_state \<Rightarrow> bytes \<Rightarrow> nat \<Rightarrow> u16" where
  "crc16_ccitt st d n = crc16_fast st d n 0xffff False False"

definition crc16_fdxb :: "crc_state \<Rightarrow> bytes \<Rightarrow> nat \<Rightarrow> u16" where
  "crc16_fdxb st d n = crc16_fast st d n 0x0000 False True"

definition crc16_kermit :: "crc_state \<Rightarrow> bytes \<Rightarrow> nat \<Rightarrow> u16" where
  "crc16_kermit st d n = crc16_fast st d n 0x0000 True True"

definition crc16_xmodem :: "crc_state \<Rightarrow> bytes \<Rightarrow> nat \<Rightarrow> u16" where
  "crc16_xmodem st d n = crc16_fast st d n 0x0000 False False"

definition crc16_x25 :: "crc_state \<Rightarrow> bytes \<Rightarrow> nat \<Rightarrow> u16" where
  "crc16_x25 st d n = NOT (crc16_fast st d n 0xffff True True)"

definition crc16_a :: "crc_state \<Rightarrow> bytes \<Rightarrow> nat \<Rightarrow> u16" where
  "crc16_a st d n = crc16_fast st d n 0xC6C6 True True"

definition crc16_iclass :: "crc_state \<Rightarrow> bytes \<Rightarrow> nat \<Rightarrow> u16" where
  "crc16_iclass st d n = crc16_fast st d n 0x4807 True True"

definition crc16_legic :: "crc_state \<Rightarrow> bytes \<Rightarrow> nat \<Rightarrow> u8 \<Rightarrow> u16" where
  "crc16_legic st d n uidcrc =
    (let initial = shl (ucast uidcrc) 8 OR ucast uidcrc in crc16_fast st d n initial True False)"

definition crc16_philips :: "crc_state \<Rightarrow> bytes \<Rightarrow> nat \<Rightarrow> u16" where
  "crc16_philips st d n = crc16_fast st d n 0x49A3 False False"

text \<open>\<open>first\<close> and \<open>second\<close> are out-parameters; \<open>None\<close> is a return that does not write them.\<close>

definition compute_crc :: "CrcType \<Rightarrow> bytes \<Rightarrow> nat \<Rightarrow> crc_state \<Rightarrow> (u8 \<times> u8) option \<times> crc_state" where
  "compute_crc ct d n st =
    (if n = 0 then (None, st)
     else
       let st = init_table ct st;
           write = (\<lambda>crc :: u16. Some (ucast (crc AND 0xFF), ucast (shr crc 8 AND 0xFF)))
       in ((case ct of
             CRC_14443_A \<Rightarrow> write (crc16_a st d n)
           | CRC_CRYPTORF \<Rightarrow> write (crc16_x25 st d n)
           | CRC_14443_B \<Rightarrow> write (crc16_x25 st d n)
           | CRC_15693 \<Rightarrow> write (crc16_x25 st d n)
           | CRC_ICLASS \<Rightarrow> write (crc16_iclass st d n)
           | CRC_FELICA \<Rightarrow> write (crc16_xmodem st d n)
           | CRC_XMODEM \<Rightarrow> write (crc16_xmodem st d n)
           | CRC_CCITT \<Rightarrow> write (crc16_ccitt st d n)
           | CRC_KERMIT \<Rightarrow> write (crc16_kermit st d n)
           | CRC_11784 \<Rightarrow> write (crc16_fdxb st d n)
           | CRC_LEGIC \<Rightarrow> None
           | CRC_LEGIC_16 \<Rightarrow> None
           | CRC_PHILIPS \<Rightarrow> write (crc16_philips st d n)
           | CRC_NONE \<Rightarrow> None), st))"

definition Crc16ex :: "CrcType \<Rightarrow> bytes \<Rightarrow> nat \<Rightarrow> crc_state \<Rightarrow> u16 \<times> crc_state" where
  "Crc16ex ct d n st =
    (if n < 3 then (0, st)
     else
       let st = init_table ct st
       in ((case ct of
             CRC_14443_A \<Rightarrow> crc16_a st d n
           | CRC_CRYPTORF \<Rightarrow> crc16_x25 st d n
           | CRC_14443_B \<Rightarrow> crc16_x25 st d n
           | CRC_15693 \<Rightarrow> crc16_x25 st d n
           | CRC_ICLASS \<Rightarrow> crc16_iclass st d n
           | CRC_FELICA \<Rightarrow> crc16_xmodem st d n
           | CRC_XMODEM \<Rightarrow> crc16_xmodem st d n
           | CRC_CCITT \<Rightarrow> crc16_ccitt st d n
           | CRC_KERMIT \<Rightarrow> crc16_kermit st d n
           | CRC_11784 \<Rightarrow> crc16_fdxb st d n
           | CRC_LEGIC \<Rightarrow> 0
           | CRC_LEGIC_16 \<Rightarrow> 0
           | CRC_PHILIPS \<Rightarrow> crc16_philips st d n
           | CRC_NONE \<Rightarrow> 0), st))"

definition check_crc :: "CrcType \<Rightarrow> bytes \<Rightarrow> nat \<Rightarrow> crc_state \<Rightarrow> bool \<times> crc_state" where
  "check_crc ct d n st =
    (if n < 3 then (False, st)
     else
       let st = init_table ct st
       in ((case ct of
             CRC_14443_A \<Rightarrow> crc16_a st d n = 0
           | CRC_CRYPTORF \<Rightarrow> crc16_x25 st d n = X25_CRC_CHECK
           | CRC_14443_B \<Rightarrow> crc16_x25 st d n = X25_CRC_CHECK
           | CRC_15693 \<Rightarrow> crc16_x25 st d n = X25_CRC_CHECK
           | CRC_ICLASS \<Rightarrow> crc16_iclass st d n = 0
           | CRC_FELICA \<Rightarrow> crc16_xmodem st d n = 0
           | CRC_XMODEM \<Rightarrow> crc16_xmodem st d n = 0
           | CRC_CCITT \<Rightarrow> crc16_ccitt st d n = 0
           | CRC_KERMIT \<Rightarrow> crc16_kermit st d n = 0
           | CRC_11784 \<Rightarrow> crc16_fdxb st d n = 0
           | CRC_LEGIC \<Rightarrow> False
           | CRC_LEGIC_16 \<Rightarrow> False
           | CRC_PHILIPS \<Rightarrow> crc16_philips st d n = 0
           | CRC_NONE \<Rightarrow> False), st))"

subsection \<open>The bit-looped functions\<close>

definition update_crc16_ex :: "u16 \<Rightarrow> u8 \<Rightarrow> u16 \<Rightarrow> u16" where
  "update_crc16_ex crc c polynomial =
    (let v = (crc XOR ucast c) AND 0xff;
         (tmp, _) = ((\<lambda>(tmp, v).
           ((if (tmp XOR v) AND 1 \<noteq> 0 then shr tmp 1 XOR polynomial else shr tmp 1), shr v 1)) ^^ 8) (0, v)
     in (shr crc 8 XOR tmp) AND 0xffff)"

definition update_crc16 :: "u16 \<Rightarrow> u8 \<Rightarrow> u16" where
  "update_crc16 crc c = update_crc16_ex crc c CRC16_POLY_CCITT"

text \<open>
  The loop body of \<open>Crc16\<close>. \<open>d[i] >> offset\<close> and \<open>d[i] << (8 - offset)\<close> are computed in \<open>int\<close>, so a
  shift by 8 leaves 0 of a byte, as it does on a word of eight bits.
\<close>

definition Crc16_body :: "bytes \<Rightarrow> u8 \<Rightarrow> u16 \<Rightarrow> bool \<Rightarrow> nat \<Rightarrow> u8 \<times> u16 \<Rightarrow> u8 \<times> u16" where
  "Crc16_body d offset polynomial refin i = (\<lambda>(prebits, remainder).
     let c = prebits OR shr (d ! i) (unat offset);
         prebits = shl (d ! i) (8 - unat offset);
         c = (if refin then reflect8 c else c);
         remainder = remainder XOR shl (ucast c) 8;
         remainder = ((\<lambda>r. if r AND 0x8000 \<noteq> 0 then shl r 1 XOR polynomial else shl r 1) ^^ 8) remainder
     in (prebits, remainder))"

definition Crc16 :: "bytes \<Rightarrow> nat \<Rightarrow> u16 \<Rightarrow> u16 \<Rightarrow> bool \<Rightarrow> bool \<Rightarrow> u16" where
  "Crc16 d bitlength remainder polynomial refin refout =
    (if bitlength = 0 then NOT remainder
     else
       let offset = 8 - word_of_nat (bitlength mod 8);
           remainder = snd (fold (Crc16_body d offset polynomial refin)
                              [0..<(bitlength + 7) div 8] (0, remainder))
       in if refout then reflect16 remainder else remainder)"

end
