(* ===== verification/Crc16_Laws.thy ===== *)
theory Crc16_Laws
  imports Crc16
begin

text \<open>
  The CRC-16 code against the bitwise register: the generated table holds the register's byte
  steps, \<open>crc16_fast\<close> is the register run over the (possibly reflected) bytes, the table state
  never goes stale, an appended checksum is accepted and a corrupted byte is rejected, and the
  bit-looped \<open>Crc16\<close> agrees except that it loses the last byte of a whole number of bytes.
\<close>

subsection \<open>The register on bytes\<close>

definition feed16 :: "u16 \<Rightarrow> u8 \<Rightarrow> u16 \<Rightarrow> u16" where
  "feed16 p b r = (crc_step p ^^ 8) (r XOR shl (ucast b) 8)"

lemma shl8_inj: "shl (ucast b :: u16) 8 = shl (ucast c) 8 \<Longrightarrow> b = (c :: u8)"
proof (rule u8_eqI)
  fix i :: nat
  assume "shl (ucast b :: u16) 8 = shl (ucast c) 8" "i < 8"
  then show "bit b i = bit c i"
    using bit_eq_iff [of "shl (ucast b :: u16) 8" "shl (ucast c) 8"]
    by (auto simp: word_bits dest: spec [of _ "8 + i"])
qed

lemma feed16_register: "bit p 0 \<Longrightarrow> byte_register (feed16 p)"
  by unfold_locales (auto simp: feed16_def dest!: crc_steps_inj intro: shl8_inj)

lemma ccitt_odd: "bit CRC16_POLY_CCITT 0"
  by (simp add: CRC16_POLY_CCITT_def)

interpretation ccitt: byte_register "feed16 CRC16_POLY_CCITT"
  by (rule feed16_register [OF ccitt_odd])

lemma feed16_split: "feed16 p b r = (crc_step p ^^ 8) (shl (ucast (b XOR ucast (shr r 8))) 8) XOR shl r 8"
proof -
  have "r XOR shl (ucast b) 8 = shl (ucast (b XOR ucast (shr r 8))) 8 XOR take_bit 8 r"
    by (rule bit_word_eqI) (auto simp: word_bits)
  moreover have "(crc_step p ^^ 8) (take_bit 8 r) = shl (take_bit 8 r) 8"
    by (rule crc_steps_low) (auto simp: word_bits)
  moreover have "shl (take_bit 8 r) 8 = shl r 8"
    by (rule bit_word_eqI) (auto simp: word_bits)
  ultimately show ?thesis by (simp add: feed16_def crc_steps_xor)
qed

subsection \<open>The table\<close>

lemma and_8000: "(x :: u16) AND 0x8000 \<noteq> 0 \<longleftrightarrow> bit x 15"
  using and_exp_eq_0_iff_not_bit [of x 15] by simp

lemma table_bits:
  "fst ((table_bit p ^^ k) (0, c)) XOR snd ((table_bit p ^^ k) (0, c)) = (crc_step p ^^ k) c \<and>
   snd ((table_bit p ^^ k) (0, c)) = shl c k"
proof (induction k)
  case (Suc k)
  obtain a b where ab: "(table_bit p ^^ k) (0, c) = (a, b)" by force
  then have "crc_step p ((crc_step p ^^ k) c) = crc_step p (a XOR b)" using Suc by (metis fst_conv snd_conv)
  also have "\<dots> = (if bit (a XOR b) 15 then shl a 1 XOR p else shl a 1) XOR shl b 1"
    unfolding crc_step_def by (rule bit_word_eqI) (auto simp: word_bits)
  finally show ?case
    using Suc ab by (simp add: table_bit_def and_8000 push_bit_push_bit)
qed simp

lemma table_bits_8:
  assumes "shl c 8 = 0"
  shows "fst ((table_bit p ^^ 8) (0, c)) = (crc_step p ^^ 8) c"
  using table_bits [where p = p and k = 8 and c = c] assms by (metis xor.right_neutral)

lemma shl_byte_16: "shl (shl (ucast (b :: u8)) 8 :: u16) 8 = 0"
  by (rule bit_word_eqI) (auto simp: word_bits)

lemma table_entry_plain:
  assumes "i < 256"
  shows "table_entry p False i = (crc_step p ^^ 8) (shl (ucast (word_of_nat i :: u8)) 8)"
proof -
  have "shl (word_of_nat i :: u16) 8 = shl (ucast (word_of_nat i :: u8)) 8"
    by (rule bit_word_eqI) (auto simp: word_bits bit_of_nat_iff)
  then show ?thesis
    by (simp add: table_entry_def Let_def table_bits_8 shl_byte_16)
qed

lemma table_entry_refin:
  "table_entry p True i = reflect16 ((crc_step p ^^ 8) (shl (ucast (reflect8 (word_of_nat i))) 8))"
  by (simp add: table_entry_def Let_def table_bits_8 shl_byte_16)

definition table_for :: "u16 \<Rightarrow> bool \<Rightarrow> u16 list" where
  "table_for p refin = map (table_entry p refin) [0..<256]"

lemma fold_table:
  "length t = 256 \<Longrightarrow> fold (\<lambda>i t. t[i := f i]) [0..<256] t = map f [0..<256]"
proof -
  have "k \<le> length t \<Longrightarrow> fold (\<lambda>i t. t[i := f i]) [0..<k] t = map f [0..<k] @ drop k t" for k
    by (induction k) (auto simp: list_update_append Cons_nth_drop_Suc [symmetric])
  from this [of 256] show "length t = 256 \<Longrightarrow> ?thesis" by simp
qed

lemma generate_table_table:
  "length (crc_table st) = 256 \<Longrightarrow>
   generate_table p refin st = st\<lparr>crc_table := table_for p refin, crc_table_init := True\<rparr>"
  by (simp add: generate_table_def fold_table table_for_def)

lemma table_for_nth: "i < 256 \<Longrightarrow> table_for p refin ! i = table_entry p refin i"
  by (simp add: table_for_def)

subsection \<open>The table state\<close>

text \<open>The polynomial and the reflection that each protocol's table is generated for.\<close>

definition type_poly :: "CrcType \<Rightarrow> u16" where
  "type_poly ct = (if ct = CRC_LEGIC then CRC16_POLY_LEGIC
    else if ct = CRC_LEGIC_16 then CRC16_POLY_LEGIC_16 else CRC16_POLY_CCITT)"

definition type_refin :: "CrcType \<Rightarrow> bool" where
  "type_refin ct = (ct \<in> {CRC_14443_A, CRC_14443_B, CRC_15693, CRC_ICLASS, CRC_CRYPTORF,
     CRC_KERMIT, CRC_LEGIC, CRC_LEGIC_16})"

definition crc_inv :: "crc_state \<Rightarrow> bool" where
  "crc_inv st = (length (crc_table st) = 256 \<and>
     (crc_table_init st \<longrightarrow> current_crc_type st \<noteq> CRC_NONE \<and>
       crc_table st = table_for (type_poly (current_crc_type st)) (type_refin (current_crc_type st))))"

lemma crc_inv0: "crc_inv crc_state0"
  by (simp add: crc_inv_def crc_state0_def)

lemma crc_inv_reset: "crc_inv st \<Longrightarrow> crc_inv (reset_table st)"
  by (simp add: crc_inv_def reset_table_def)

lemma crc_inv_init [inv_intros]: "crc_inv st \<Longrightarrow> crc_inv (init_table ct st)"
  by (cases ct) (auto simp: init_table_def crc_inv_def generate_table_table reset_table_def
      type_poly_def type_refin_def Let_def table_for_def)

lemma init_table_state:
  assumes "crc_inv st" "ct \<noteq> CRC_NONE"
  shows "crc_table (init_table ct st) = table_for (type_poly ct) (type_refin ct)"
  using assms
  by (cases ct) (auto simp: init_table_def crc_inv_def generate_table_table reset_table_def
      type_poly_def type_refin_def Let_def)

subsection \<open>The fast loop\<close>

lemma reflect16_xor: "reflect16 (x XOR y) = reflect16 x XOR reflect16 y"
  by (rule bit_word_eqI) (simp add: reflect16_bit word_bits)

lemma reflect16_reflect16 [simp]: "reflect16 (reflect16 x) = x"
  by (rule bit_word_eqI) (simp add: reflect16_bit)

lemma reflect8_reflect8 [simp]: "reflect8 (reflect8 x) = x"
  by (rule u8_eqI) (simp add: reflect8_bit)

lemma reflect8_xor: "reflect8 (x XOR y) = reflect8 x XOR reflect8 y"
  by (rule u8_eqI) (simp add: reflect8_bit word_bits)

lemma unat_u16_byte: "unat (ucast (b :: u8) :: u16) = unat b"
  by (simp add: unat_ucast_up)

lemma fast_step_plain:
  "shl crc 8 XOR table_for p False ! unat ((shr crc 8 XOR ucast b) AND 0xFF) = feed16 p b crc"
proof -
  have e: "(shr crc 8 XOR ucast b) AND 0xFF = ucast (b XOR ucast (shr crc 8))"
    unfolding and_masks by (rule bit_word_eqI) (auto simp: word_bits)
  have "unat (b XOR ucast (shr crc 8)) < 256"
    using unsigned_less [of "b XOR ucast (shr crc 8)"] by simp
  then show ?thesis
    unfolding e unat_u16_byte by (simp add: table_for_nth table_entry_plain feed16_split xor.commute)
qed

lemma fast_step_refin:
  "shr (reflect16 r) 8 XOR table_for p True ! unat ((reflect16 r AND 0xFF) XOR ucast b) =
   reflect16 (feed16 p (reflect8 b) r)"
proof -
  let ?j = "b XOR reflect8 (ucast (shr r 8))"
  have e: "(reflect16 r AND 0xFF) XOR ucast b = ucast ?j"
    unfolding and_masks by (rule bit_word_eqI) (auto simp: word_bits reflect16_bit reflect8_bit)
  have "reflect8 ?j = reflect8 b XOR ucast (shr r 8)"
    by (simp add: reflect8_xor)
  moreover have "bit (reflect16 (shl r 8)) i = bit (shr (reflect16 r) 8) i" if "i < 16" for i
    using that by (cases "i < 8") (auto simp: word_bits reflect16_bit)
  then have "reflect16 (shl r 8) = shr (reflect16 r) 8"
    by (intro bit_word_eqI) simp
  moreover have "unat ?j < 256"
    using unsigned_less [of ?j] by simp
  ultimately show ?thesis
    unfolding e unat_u16_byte
    by (simp add: table_for_nth table_entry_refin feed16_split reflect16_xor xor.commute)
qed

text \<open>The reference: the bitwise register over the message.\<close>

definition crc16_ref :: "u16 \<Rightarrow> bytes \<Rightarrow> u16 \<Rightarrow> bool \<Rightarrow> bool \<Rightarrow> u16" where
  "crc16_ref p msg initval refin refout =
    (let r = fold (\<lambda>b. feed16 p (if refin then reflect8 b else b)) msg initval
     in if refout then reflect16 r else r)"

lemma crc16_fast_ref:
  assumes "crc_table st = table_for p refin" "0 < n"
  shows "crc16_fast st d n initval refin refout = crc16_ref p (take n d) initval refin refout"
proof (cases refin)
  case True
  have "fold (\<lambda>b crc. shr crc 8 XOR table_for p True ! unat ((crc AND 0xFF) XOR ucast b)) xs (reflect16 r) =
      reflect16 (fold (\<lambda>b. feed16 p (reflect8 b)) xs r)" for xs r
    by (induction xs arbitrary: r) (simp_all add: fast_step_refin)
  with True assms show ?thesis
    by (simp add: crc16_fast_def crc16_ref_def Let_def)
next
  case False
  have "fold (\<lambda>b crc. shl crc 8 XOR table_for p False ! unat ((shr crc 8 XOR ucast b) AND 0xFF)) xs r =
      fold (feed16 p) xs r" for xs r
    by (induction xs arbitrary: r) (simp_all add: fast_step_plain)
  with False assms show ?thesis
    by (simp add: crc16_fast_def crc16_ref_def Let_def)
qed

subsection \<open>Compute and check\<close>

text \<open>The parameters of each protocol: start value, output reflection, final exclusive or.\<close>

definition type_init :: "CrcType \<Rightarrow> u16" where
  "type_init ct = (case ct of CRC_14443_A \<Rightarrow> 0xC6C6 | CRC_CRYPTORF \<Rightarrow> 0xffff | CRC_14443_B \<Rightarrow> 0xffff
     | CRC_15693 \<Rightarrow> 0xffff | CRC_ICLASS \<Rightarrow> 0x4807 | CRC_CCITT \<Rightarrow> 0xffff | CRC_PHILIPS \<Rightarrow> 0x49A3 | _ \<Rightarrow> 0)"

definition type_refout :: "CrcType \<Rightarrow> bool" where
  "type_refout ct = (type_refin ct \<or> ct = CRC_11784)"

definition type_xorout :: "CrcType \<Rightarrow> u16" where
  "type_xorout ct = (if ct \<in> {CRC_CRYPTORF, CRC_14443_B, CRC_15693} then 0xffff else 0)"

text \<open>The protocols that \<open>compute_crc\<close> and \<open>check_crc\<close> implement.\<close>

definition supported :: "CrcType \<Rightarrow> bool" where
  "supported ct = (ct \<notin> {CRC_NONE, CRC_LEGIC, CRC_LEGIC_16})"

definition type_feed :: "CrcType \<Rightarrow> u8 \<Rightarrow> u16 \<Rightarrow> u16" where
  "type_feed ct b = feed16 CRC16_POLY_CCITT (if type_refin ct then reflect8 b else b)"

definition type_out :: "CrcType \<Rightarrow> u16 \<Rightarrow> u16" where
  "type_out ct r = (if type_refout ct then reflect16 r else r) XOR type_xorout ct"

definition type_register :: "CrcType \<Rightarrow> bytes \<Rightarrow> u16" where
  "type_register ct msg = fold (type_feed ct) msg (type_init ct)"

lemma not_u16: "NOT (x :: u16) = x XOR 0xffff"
proof -
  have m: "(0xffff :: u16) = - 1" by code_simp
  show ?thesis by (simp only: m bit.xor_one_right)
qed

lemma type_fast:
  assumes "crc_inv st" "supported ct" "0 < n"
  shows "crc16_fast (init_table ct st) d n (type_init ct) (type_refin ct) (type_refout ct) =
    type_out ct (type_register ct (take n d)) XOR type_xorout ct"
proof -
  have "ct \<noteq> CRC_NONE" "type_poly ct = CRC16_POLY_CCITT"
    using assms(2) by (auto simp: supported_def type_poly_def)
  then have "crc_table (init_table ct st) = table_for CRC16_POLY_CCITT (type_refin ct)"
    using init_table_state [OF assms(1), of ct] by simp
  then show ?thesis
    using assms(3) by (simp add: crc16_fast_ref crc16_ref_def type_out_def type_register_def
        type_feed_def Let_def cong: fold_cong)
qed

lemmas type_params = type_init_def type_refin_def type_refout_def type_xorout_def supported_def

lemma crc_functions:
  assumes "crc_inv st" "0 < n"
  shows "crc16_a (init_table CRC_14443_A st) d n = type_out CRC_14443_A (type_register CRC_14443_A (take n d))"
    "crc16_x25 (init_table CRC_14443_B st) d n = type_out CRC_14443_B (type_register CRC_14443_B (take n d))"
    "crc16_x25 (init_table CRC_15693 st) d n = type_out CRC_15693 (type_register CRC_15693 (take n d))"
    "crc16_x25 (init_table CRC_CRYPTORF st) d n = type_out CRC_CRYPTORF (type_register CRC_CRYPTORF (take n d))"
    "crc16_iclass (init_table CRC_ICLASS st) d n = type_out CRC_ICLASS (type_register CRC_ICLASS (take n d))"
    "crc16_xmodem (init_table CRC_FELICA st) d n = type_out CRC_FELICA (type_register CRC_FELICA (take n d))"
    "crc16_xmodem (init_table CRC_XMODEM st) d n = type_out CRC_XMODEM (type_register CRC_XMODEM (take n d))"
    "crc16_ccitt (init_table CRC_CCITT st) d n = type_out CRC_CCITT (type_register CRC_CCITT (take n d))"
    "crc16_kermit (init_table CRC_KERMIT st) d n = type_out CRC_KERMIT (type_register CRC_KERMIT (take n d))"
    "crc16_fdxb (init_table CRC_11784 st) d n = type_out CRC_11784 (type_register CRC_11784 (take n d))"
    "crc16_philips (init_table CRC_PHILIPS st) d n = type_out CRC_PHILIPS (type_register CRC_PHILIPS (take n d))"
proof -
  note f = type_fast [OF assms(1) _ assms(2), of _ d]
  note p = type_params
  show "crc16_a (init_table CRC_14443_A st) d n = type_out CRC_14443_A (type_register CRC_14443_A (take n d))"
    using f [of CRC_14443_A] by (simp add: crc16_a_def p)
  show "crc16_x25 (init_table CRC_14443_B st) d n = type_out CRC_14443_B (type_register CRC_14443_B (take n d))"
    using f [of CRC_14443_B] by (simp add: crc16_x25_def p not_u16)
  show "crc16_x25 (init_table CRC_15693 st) d n = type_out CRC_15693 (type_register CRC_15693 (take n d))"
    using f [of CRC_15693] by (simp add: crc16_x25_def p not_u16)
  show "crc16_x25 (init_table CRC_CRYPTORF st) d n = type_out CRC_CRYPTORF (type_register CRC_CRYPTORF (take n d))"
    using f [of CRC_CRYPTORF] by (simp add: crc16_x25_def p not_u16)
  show "crc16_iclass (init_table CRC_ICLASS st) d n = type_out CRC_ICLASS (type_register CRC_ICLASS (take n d))"
    using f [of CRC_ICLASS] by (simp add: crc16_iclass_def p)
  show "crc16_xmodem (init_table CRC_FELICA st) d n = type_out CRC_FELICA (type_register CRC_FELICA (take n d))"
    using f [of CRC_FELICA] by (simp add: crc16_xmodem_def p)
  show "crc16_xmodem (init_table CRC_XMODEM st) d n = type_out CRC_XMODEM (type_register CRC_XMODEM (take n d))"
    using f [of CRC_XMODEM] by (simp add: crc16_xmodem_def p)
  show "crc16_ccitt (init_table CRC_CCITT st) d n = type_out CRC_CCITT (type_register CRC_CCITT (take n d))"
    using f [of CRC_CCITT] by (simp add: crc16_ccitt_def p)
  show "crc16_kermit (init_table CRC_KERMIT st) d n = type_out CRC_KERMIT (type_register CRC_KERMIT (take n d))"
    using f [of CRC_KERMIT] by (simp add: crc16_kermit_def p)
  show "crc16_fdxb (init_table CRC_11784 st) d n = type_out CRC_11784 (type_register CRC_11784 (take n d))"
    using f [of CRC_11784] by (simp add: crc16_fdxb_def p)
  show "crc16_philips (init_table CRC_PHILIPS st) d n = type_out CRC_PHILIPS (type_register CRC_PHILIPS (take n d))"
    using f [of CRC_PHILIPS] by (simp add: crc16_philips_def p)
qed

definition write_crc :: "u16 \<Rightarrow> u8 \<times> u8" where
  "write_crc crc = (ucast (crc AND 0xFF), ucast (shr crc 8 AND 0xFF))"

lemma compute_crc_type:
  assumes "crc_inv st" "supported ct" "0 < n"
  shows "compute_crc ct d n st =
    (Some (write_crc (type_out ct (type_register ct (take n d)))), init_table ct st)"
  using assms(2,3)
  by (cases ct) (simp_all add: compute_crc_def write_crc_def crc_functions [OF assms(1,3)] Let_def
      supported_def)

text \<open>The register value that \<open>check_crc\<close> accepts.\<close>

definition type_good :: "CrcType \<Rightarrow> u16" where
  "type_good ct = (if ct \<in> {CRC_CRYPTORF, CRC_14443_B, CRC_15693}
     then reflect16 (NOT X25_CRC_CHECK) else 0)"

lemma reflect16_0: "reflect16 0 = 0"
  by (rule bit_word_eqI) (simp add: reflect16_bit)

lemma reflect16_eq_iff: "reflect16 x = y \<longleftrightarrow> x = reflect16 y"
  by auto

lemma type_out_good:
  "type_out ct r = (if ct \<in> {CRC_CRYPTORF, CRC_14443_B, CRC_15693} then X25_CRC_CHECK else 0) \<longleftrightarrow>
   r = type_good ct"
proof -
  have x: "(reflect16 r XOR 0xffff = X25_CRC_CHECK) = (r = reflect16 (NOT X25_CRC_CHECK))"
  proof -
    have "(a XOR m = c) = (a = c XOR m)" for a m c :: u16
      using xor_cancel(3) [of a m] xor_cancel(3) [of c m] by auto
    then show ?thesis
      by (simp only: not_u16 reflect16_eq_iff)
  qed
  show ?thesis
  proof (cases "ct \<in> {CRC_CRYPTORF, CRC_14443_B, CRC_15693}")
    case True
    then have "type_refout ct" by (auto simp: type_params)
    with True x show ?thesis
      by (simp only: type_out_def type_good_def type_xorout_def if_True simp_thms)
  next
    case False
    then show ?thesis
      by (simp only: type_out_def type_good_def type_xorout_def if_False xor.right_neutral
          reflect16_eq_iff [where y = 0] reflect16_0 split: if_split) simp
  qed
qed

lemma check_crc_type:
  assumes "crc_inv st" "supported ct" "3 \<le> n"
  shows "check_crc ct d n st = (type_register ct (take n d) = type_good ct, init_table ct st)"
proof -
  have n: "0 < n" "\<not> n < 3" using assms(3) by auto
  show ?thesis
    using assms(2) n(2) unfolding type_out_good [symmetric]
    by (cases ct) (simp_all add: check_crc_def crc_functions [OF assms(1) n(1)] Let_def supported_def)
qed

text \<open>The order in which the two checksum bytes follow the message on the air.\<close>

definition wire :: "CrcType \<Rightarrow> u8 \<times> u8 \<Rightarrow> bytes" where
  "wire ct fs = (if type_refin ct then [fst fs, snd fs]
     else if ct = CRC_11784 then [reflect8 (fst fs), reflect8 (snd fs)]
     else [snd fs, fst fs])"

lemma feed16_hi: "feed16 p (ucast (shr r 8)) r = shl r 8"
  by (simp add: feed16_split)

lemma feed16_lo: "feed16 p (ucast r) (shl r 8) = 0"
proof -
  have "ucast (shr (shl r 8) 8) = (ucast r :: u8)" "shl (shl r 8) 8 = 0"
    by (rule bit_word_eqI; auto simp: word_bits)+
  then show ?thesis by (simp add: feed16_split)
qed

lemma feed16_complement:
  "feed16 p (NOT (ucast r)) (feed16 p (NOT (ucast (shr r 8))) r) =
   feed16 p (NOT 0) (feed16 p (NOT 0) 0)"
proof -
  let ?K = "feed16 p (NOT 0) 0"
  have K: "?K = (crc_step p ^^ 8) (shl (ucast (NOT 0 :: u8)) 8)"
    unfolding feed16_split [of p _ 0] by simp
  have "NOT (ucast (shr r 8)) XOR ucast (shr r 8) = (NOT 0 :: u8)"
    by (rule bit_word_eqI) (simp add: word_bits)
  then have 1: "feed16 p (NOT (ucast (shr r 8))) r = ?K XOR shl r 8"
    unfolding feed16_split [of p _ r] K by simp
  have "NOT (ucast r) XOR ucast (shr (?K XOR shl r 8) 8) = NOT 0 XOR (ucast (shr ?K 8) :: u8)"
    "shl (?K XOR shl r 8) 8 = shl ?K 8"
    by (rule bit_word_eqI; auto simp: word_bits)+
  then show ?thesis
    unfolding 1 by (simp only: feed16_split [of p _ "?K XOR shl r 8"] feed16_split [of p _ ?K])
qed

lemma x25_good:
  "feed16 CRC16_POLY_CCITT (NOT 0) (feed16 CRC16_POLY_CCITT (NOT 0) 0) = reflect16 (NOT X25_CRC_CHECK)"
  by code_simp

lemma wire_good:
  assumes "supported ct"
  shows "fold (type_feed ct) (wire ct (write_crc (type_out ct r))) r = type_good ct"
proof -
  have o1: "reflect8 (ucast (reflect16 r AND 0xFF)) = ucast (shr r 8)"
    "reflect8 (ucast (shr (reflect16 r) 8 AND 0xFF)) = ucast r"
    "(ucast (r AND 0xFF) :: u8) = ucast r" "(ucast (shr r 8 AND 0xFF) :: u8) = ucast (shr r 8)"
    unfolding and_masks
    by (rule u8_eqI; auto simp: word_bits reflect16_bit reflect8_bit)+
  have o2: "reflect8 (ucast ((reflect16 r XOR 0xffff) AND 0xFF)) = NOT (ucast (shr r 8))"
    "reflect8 (ucast (shr (reflect16 r XOR 0xffff) 8 AND 0xFF)) = NOT (ucast r)"
    unfolding and_masks not_u16 [symmetric]
    by (rule u8_eqI; auto simp: word_bits reflect16_bit reflect8_bit)+
  have x: "feed16 CRC16_POLY_CCITT (- 1) (feed16 CRC16_POLY_CCITT (- 1) 0) =
      reflect16 (NOT X25_CRC_CHECK)"
    using x25_good by simp
  show ?thesis
    using assms o1 o2 x
    by (cases ct) (simp_all add: wire_def write_crc_def type_out_def type_feed_def type_params
        type_good_def feed16_hi feed16_lo feed16_complement x25_good)
qed

lemma type_register_append: "type_register ct (a @ b) = fold (type_feed ct) b (type_register ct a)"
  by (simp add: type_register_def)

text \<open>Each protocol's byte step is a \<open>byte_register\<close> too.\<close>

lemma type_feed_register: "byte_register (type_feed ct)"
proof
  show "type_feed ct b s = type_feed ct b t \<Longrightarrow> s = t" for b s t
    by (auto simp: type_feed_def dest: ccitt.feed_state_inj)
  show "type_feed ct b s = type_feed ct c s \<Longrightarrow> b = c" for b c s
    by (auto simp: type_feed_def dest!: ccitt.feed_byte_inj split: if_splits) (metis reflect8_reflect8)
qed

interpretation crc16_type: byte_register "type_feed ct" for ct
  by (rule type_feed_register)

subsection \<open>The bit-looped code\<close>

definition feed_bit :: "u16 \<Rightarrow> bool \<Rightarrow> u16 \<Rightarrow> u16" where
  "feed_bit p b r = crc_step p (r XOR (if b then 0x8000 else 0))"

lemma crc_step_split: "crc_step p (r XOR x) = feed_bit p (bit x 15) r XOR shl x 1" for r x :: u16
proof -
  have t: "bit (0x8000 :: int) i = (i = 15)" for i
    using bit_exp_iff [where 'a = int, of 15 i] by simp
  show ?thesis
    by (rule bit_word_eqI) (auto simp: feed_bit_def crc_step_def word_bits t)
qed

lemma crc_steps_bits:
  fixes r x :: u16
  assumes "k \<le> 16"
  shows "(crc_step p ^^ k) (r XOR x) =
    fold (feed_bit p) (map (\<lambda>i. bit x (15 - i)) [0..<k]) r XOR shl x k"
  using assms
proof (induction k)
  case (Suc k)
  then have "bit (shl x k) 15 = bit x (15 - k)" by (simp add: word_bits)
  with Suc show ?case
    by (simp add: crc_step_split push_bit_push_bit)
qed simp

text \<open>The bits of a byte, most significant first.\<close>

definition byte_bits :: "u8 \<Rightarrow> bool list" where
  "byte_bits b = map (bit b) [7, 6, 5, 4, 3, 2, 1, 0]"

lemma bits_be_Cons: "bits_be (b # d) = byte_bits b @ bits_be d"
  by (simp add: byte_bits_def)

lemma length_byte_bits [simp]: "length (byte_bits b) = 8"
  by (simp add: byte_bits_def)

lemma feed16_bits: "feed16 p c r = fold (feed_bit p) (byte_bits c) r"
proof -
  have "map (\<lambda>i. bit (shl (ucast c) 8 :: u16) (15 - i)) [0..<8] = byte_bits c"
    by (simp add: upt_8 byte_bits_def word_bits)
  then show ?thesis
    using crc_steps_bits [of 8 p r "shl (ucast c) 8"] by (simp add: feed16_def shl_byte_16)
qed

lemma fold_feed16_bits: "fold (feed16 p) cs r = fold (feed_bit p) (bits_be cs) r"
  by (induction cs arbitrary: r) (simp_all add: feed16_bits bits_be_Cons del: bits_be_simps(2))

text \<open>The bytes that the loop forms from two neighbours when \<open>m\<close> bits are left over.\<close>

fun shifted :: "nat \<Rightarrow> u8 \<Rightarrow> bytes \<Rightarrow> bytes" where
  "shifted m x [] = []"
| "shifted m x (y # ys) = (shl x m OR shr y (8 - m)) # shifted m y ys"

lemma byte_bits_shifted:
  assumes "m < 8"
  shows "byte_bits (shl x m OR shr y (8 - m)) = drop m (byte_bits x) @ take m (byte_bits y)"
  using assms by (elim less_8_cases) (simp_all add: byte_bits_def word_bits)

lemma bits_be_shifted:
  assumes "m < 8"
  shows "bits_be (shifted m x ys) @ drop m (byte_bits (last (x # ys))) =
    drop m (byte_bits x) @ bits_be ys"
  using assms
proof (induction ys arbitrary: x)
  case (Cons y ys)
  then show ?case
    using Cons.IH [of y] by (simp add: bits_be_Cons byte_bits_shifted del: bits_be_simps(2))
qed simp

lemma length_shifted [simp]: "length (shifted m x ys) = length ys"
  by (induction ys arbitrary: x) auto

lemma Crc16_body_step:
  assumes "m < 8" "offset = 8 - word_of_nat m"
  shows "Crc16_body d offset p refin i (shl x m, r) =
    (shl (d ! i) m,
     feed16 p (if refin then reflect8 (shl x m OR shr (d ! i) (8 - m)) else shl x m OR shr (d ! i) (8 - m)) r)"
proof -
  have o: "unat offset = 8 - m" "8 - (8 - m) = m"
    using assms by (auto elim!: less_8_cases)
  have "(\<lambda>r. if bit r 15 then shl r 1 XOR p else shl r 1) = crc_step p"
    by (rule ext) (simp add: crc_step_def)
  then show ?thesis
    by (simp only: Crc16_body_def Let_def o and_8000 feed16_def prod.case)
qed

lemma Crc16_fold:
  assumes "m < 8" "offset = 8 - word_of_nat m" "k + length ys = length d" "drop k d = ys"
  shows "snd (fold (Crc16_body d offset p refin) [k..<length d] (shl x m, r)) =
    fold (\<lambda>b. feed16 p (if refin then reflect8 b else b)) (shifted m x ys) r"
  using assms(3,4)
proof (induction ys arbitrary: k x r)
  case (Cons y ys)
  then have k: "k < length d" "d ! k = y" "drop (Suc k) d = ys"
    by (auto simp: nth_via_drop drop_Suc dest: arg_cong [where f = tl] simp flip: drop_tl tl_drop)
  then have "[k..<length d] = k # [Suc k..<length d]" by (simp add: upt_rec)
  then show ?case
    using Cons.IH [of "Suc k"] Cons.prems(1) k by (simp add: Crc16_body_step [OF assms(1,2)])
qed simp

lemma Crc16_shifted:
  assumes "0 < bitlength" "(bitlength + 7) div 8 \<le> length d"
  shows "Crc16 d bitlength r p refin refout =
    (let r = fold (\<lambda>b. feed16 p (if refin then reflect8 b else b))
               (shifted (bitlength mod 8) 0 (take ((bitlength + 7) div 8) d)) r
     in if refout then reflect16 r else r)"
proof -
  let ?n = "(bitlength + 7) div 8" and ?o = "8 - word_of_nat (bitlength mod 8) :: u8"
  have "fold (Crc16_body d ?o p refin) [0..<?n] s = fold (Crc16_body (take ?n d) ?o p refin) [0..<?n] s" for s
    by (rule fold_cong) (auto simp: Crc16_body_def)
  then show ?thesis
    using assms Crc16_fold [of "bitlength mod 8" ?o 0 "take ?n d" "take ?n d" p refin 0 r]
    by (simp add: Crc16_def Let_def min_absorb2)
qed

lemma Crc16_bits:
  assumes "bitlength mod 8 \<noteq> 0" "bitlength \<le> 8 * length d"
  shows "Crc16 d bitlength 0 p False refout =
    (let r = fold (feed_bit p) (take bitlength (bits_be d)) 0 in if refout then reflect16 r else r)"
proof -
  define m q where "m = bitlength mod 8" and "q = bitlength div 8"
  have L: "bitlength = 8 * q + m" "0 < m" "m < 8"
    using assms(1) by (simp_all add: m_def q_def)
  have n: "(bitlength + 7) div 8 = Suc q" using L by (simp add: div_nat_eqI)
  have len: "Suc q \<le> length d" using L assms(2) by simp
  let ?ys = "take (Suc q) d" and ?z = "replicate (8 - m) False"
  have z: "drop m (byte_bits 0) = ?z"
    using L(3) by (elim less_8_cases) (simp_all add: byte_bits_def numeral_eq_Suc)
  have "bits_be (shifted m 0 ?ys) = take (8 * Suc q) (?z @ bits_be ?ys)"
    using bits_be_shifted [OF L(3), of 0 ?ys] len
    by (metis (no_types, lifting) append_eq_conv_conj length_bits_be length_shifted length_take min_absorb2 z)
  also have "\<dots> = ?z @ take bitlength (bits_be ?ys)"
    using L by (simp add: mult.commute)
  also have "take bitlength (bits_be ?ys) = take bitlength (bits_be d)"
  proof -
    have "bits_be d = bits_be ?ys @ bits_be (drop (Suc q) d)"
      by (metis append_take_drop_id bits_be_simps(3))
    moreover have "bitlength \<le> length (bits_be ?ys)" using len L by simp
    ultimately show ?thesis by simp
  qed
  finally have b: "bits_be (shifted m 0 ?ys) = ?z @ take bitlength (bits_be d)" .
  have "fold (feed_bit p) (replicate k False) 0 = 0" for k
    by (induction k) (simp_all add: feed_bit_def)
  moreover have "(bitlength + 7) div 8 \<le> length d" "0 < bitlength" using n len L by auto
  ultimately show ?thesis
    using Crc16_shifted [of bitlength d 0 p False refout] b
    by (simp add: n m_def [symmetric] fold_feed16_bits)
qed

lemma shifted_0: "shifted 0 x (ys @ [y]) = x # ys"
proof -
  have "shr (y :: u8) 8 = 0" for y by (rule bit_word_eqI) (auto simp: word_bits)
  then show ?thesis by (induction ys arbitrary: x) simp_all
qed

subsection \<open>Reachable table states\<close>

text \<open>The states the three static variables can be in: any sequence of calls from start-up.\<close>

inductive crc_reachable :: "crc_state \<Rightarrow> bool" where
  start: "crc_reachable crc_state0"
| compute: "crc_reachable st \<Longrightarrow> crc_reachable (snd (compute_crc ct d n st))"
| residue: "crc_reachable st \<Longrightarrow> crc_reachable (snd (Crc16ex ct d n st))"
| check: "crc_reachable st \<Longrightarrow> crc_reachable (snd (check_crc ct d n st))"
| init: "crc_reachable st \<Longrightarrow> crc_reachable (init_table ct st)"
| reset: "crc_reachable st \<Longrightarrow> crc_reachable (reset_table st)"

lemma crc_reachable_inv: "crc_reachable st \<Longrightarrow> crc_inv st"
  by (induction rule: crc_reachable.induct)
    (auto simp: compute_crc_def Crc16ex_def check_crc_def Let_def crc_inv0 crc_inv_reset
      intro: inv_intros)

lemma compute_crc_unsupported:
  "\<not> supported ct \<or> n = 0 \<Longrightarrow> fst (compute_crc ct d n st) = None"
  by (cases ct) (auto simp: compute_crc_def supported_def)

lemma check_crc_unsupported:
  "\<not> supported ct \<or> n < 3 \<Longrightarrow> fst (check_crc ct d n st) = False"
  by (cases ct) (auto simp: check_crc_def supported_def)

subsection \<open>Properties\<close>

text \<open>C1: in every table state that calls can reach, a checksum appended in the byte order of its
  protocol (low byte first, high byte first, or bit-reversed for ISO 11784) is accepted by
  \<open>check_crc\<close>, for all eleven protocols that \<open>compute_crc\<close> implements and every message.\<close>

theorem crc16_append_accepted:
  assumes "crc_reachable st" "crc_reachable st'" "supported ct" "msg \<noteq> []"
    and "fst (compute_crc ct msg (length msg) st) = Some fs"
  shows "fst (check_crc ct (msg @ wire ct fs) (length msg + 2) st')"
proof -
  have fs: "fs = write_crc (type_out ct (type_register ct msg))"
    using compute_crc_type [OF crc_reachable_inv [OF assms(1)] assms(3), of "length msg" msg] assms(4,5)
    by simp
  have "length (wire ct fs) = 2" "3 \<le> length msg + 2"
    using assms(4) by (auto simp: wire_def Suc_le_eq)
  then show ?thesis
    using wire_good [OF assms(3), of "type_register ct msg"]
    by (simp add: check_crc_type [OF crc_reachable_inv [OF assms(2)] assms(3)] type_register_append fs)
qed

theorem crc16_append_accepted_witness:
  "\<exists>f s. fst (compute_crc CRC_15693 [0x26, 0x01, 0x00] 3 crc_state0) = Some (f, s) \<and>
    fst (check_crc CRC_15693 [0x26, 0x01, 0x00, f, s] 5 crc_state0)"
proof -
  have s: "supported CRC_15693" by (simp add: supported_def)
  obtain f t where fs: "fst (compute_crc CRC_15693 [0x26, 0x01, 0x00] 3 crc_state0) = Some (f, t)"
    using compute_crc_type [OF crc_inv0 s, of 3 "[0x26, 0x01, 0x00]"] by (simp add: write_crc_def)
  have "fst (check_crc CRC_15693 ([0x26, 0x01, 0x00] @ wire CRC_15693 (f, t)) (length [0x26, 0x01, 0x00 :: u8] + 2) crc_state0)"
    by (rule crc16_append_accepted [OF crc_reachable.start crc_reachable.start s])
      (simp_all add: fs numeral_3_eq_3 [symmetric])
  then show ?thesis using fs by (auto simp: wire_def type_refin_def eval_nat_numeral)
qed

text \<open>C2: no corruption of a single byte is accepted: if a frame passes \<open>check_crc\<close>, the frame with
  one byte replaced by any other value, checksum bytes included, fails it.\<close>

theorem crc16_corruption_rejected:
  assumes "crc_reachable st" "crc_reachable st'" "supported ct" "b \<noteq> c"
    and "fst (check_crc ct (xs @ b # ys) (length (xs @ b # ys)) st)"
  shows "\<not> fst (check_crc ct (xs @ c # ys) (length (xs @ c # ys)) st')"
proof -
  have len: "3 \<le> length (xs @ b # ys)"
    using assms(5) by (auto simp: check_crc_def Let_def split: if_splits)
  then have "type_register ct (xs @ b # ys) = type_good ct"
    using assms(5) check_crc_type [OF crc_reachable_inv [OF assms(1)] assms(3) len] by simp
  moreover have "type_register ct (xs @ b # ys) \<noteq> type_register ct (xs @ c # ys)"
    unfolding type_register_def by (rule crc16_type.single_byte_detected [OF assms(4)])
  ultimately show ?thesis
    using check_crc_type [OF crc_reachable_inv [OF assms(2)] assms(3), of "length (xs @ c # ys)"] len
    by simp
qed

theorem crc16_corruption_rejected_witness:
  "\<not> fst (check_crc CRC_14443_A [0x51, 0x00, 0x57, 0xCD] 4 crc_state0)"
proof -
  have s: "supported CRC_14443_A" by (simp add: supported_def)
  have "type_register CRC_14443_A [0x50, 0x00, 0x57, 0xCD] = type_good CRC_14443_A"
    by code_simp
  then have "fst (check_crc CRC_14443_A ([] @ 0x50 # [0x00, 0x57, 0xCD])
      (length ([] @ 0x50 # [0x00, 0x57, 0xCD :: u8])) crc_state0)"
    by (simp add: check_crc_type [OF crc_inv0 s])
  from crc16_corruption_rejected [OF crc_reachable.start crc_reachable.start s _ this, of "0x51"]
  show ?thesis by (simp add: eval_nat_numeral)
qed

text \<open>C3: the lookup table is never stale: after any sequence of calls, with any interleaving of
  protocols and resets, \<open>compute_crc\<close> and \<open>check_crc\<close> answer as they do right after start-up, and
  the table-driven checksum equals the bitwise register over the message.\<close>

theorem crc16_table_never_stale:
  assumes "crc_reachable st"
  shows "fst (compute_crc ct d n st) = fst (compute_crc ct d n crc_state0) \<and>
    fst (check_crc ct d n st) = fst (check_crc ct d n crc_state0) \<and>
    (0 < n \<and> ct \<noteq> CRC_NONE \<longrightarrow>
      crc16_fast (init_table ct st) d n initval (type_refin ct) refout =
      crc16_ref (type_poly ct) (take n d) initval (type_refin ct) refout)"
proof (intro conjI impI)
  note inv = crc_reachable_inv [OF assms]
  show "fst (compute_crc ct d n st) = fst (compute_crc ct d n crc_state0)"
    by (cases "supported ct \<and> 0 < n")
      (auto simp: compute_crc_type [OF inv] compute_crc_type [OF crc_inv0] compute_crc_unsupported)
  show "fst (check_crc ct d n st) = fst (check_crc ct d n crc_state0)"
    by (cases "supported ct \<and> 3 \<le> n")
      (auto simp: check_crc_type [OF inv] check_crc_type [OF crc_inv0] check_crc_unsupported)
  assume "0 < n \<and> ct \<noteq> CRC_NONE"
  then show "crc16_fast (init_table ct st) d n initval (type_refin ct) refout =
      crc16_ref (type_poly ct) (take n d) initval (type_refin ct) refout"
    by (simp add: crc16_fast_ref init_table_state [OF inv])
qed

theorem crc16_table_never_stale_witness:
  "fst (compute_crc CRC_XMODEM [1] 1 (init_table CRC_LEGIC (init_table CRC_14443_A crc_state0))) =
   fst (compute_crc CRC_XMODEM [1] 1 crc_state0)"
  using crc16_table_never_stale [of "init_table CRC_LEGIC (init_table CRC_14443_A crc_state0)" CRC_XMODEM "[1]" 1]
  by (simp add: crc_reachable.start crc_reachable.init)

text \<open>the bit-looped \<open>Crc16\<close> over a bit length that is not a multiple of eight is the
  bit-serial register over exactly the first \<open>bitlength\<close> bits of the buffer.\<close>

theorem Crc16_bit_serial:
  assumes "bitlength mod 8 \<noteq> 0" "bitlength \<le> 8 * length d"
  shows "Crc16 d bitlength 0 p False refout =
    (let r = fold (feed_bit p) (take bitlength (bits_be d)) 0 in if refout then reflect16 r else r)"
  using assms by (rule Crc16_bits)

theorem Crc16_bit_serial_witness:
  "Crc16 [0xA0] 3 0 0x1021 False False = fold (feed_bit 0x1021) (take 3 (bits_be [0xA0])) 0"
  using Crc16_bit_serial [of 3 "[0xA0]" "0x1021" False] by (simp del: bits_be_simps)

text \<open>over a whole number of bytes \<open>Crc16\<close> does not see the last byte: the offset is 8
  instead of 0, so the loop processes a zero byte and then all bytes but the last.\<close>

theorem Crc16_whole_bytes_lose_last:
  "Crc16 (ys @ [y]) (8 * length (ys @ [y])) r p refin refout =
   (let r = fold (\<lambda>b. feed16 p (if refin then reflect8 b else b)) (0 # ys) r
    in if refout then reflect16 r else r)"
proof -
  let ?l = "length (ys @ [y])"
  have n: "(8 * ?l + 7) div 8 = ?l" and z: "(8 * ?l) mod 8 = 0"
    by (rule div_nat_eqI) (simp_all only: mod_mult_self1_is_0, auto)
  have "Crc16 (ys @ [y]) (8 * ?l) r p refin refout =
    (let r = fold (\<lambda>b. feed16 p (if refin then reflect8 b else b))
               (shifted ((8 * ?l) mod 8) 0 (take ((8 * ?l + 7) div 8) (ys @ [y]))) r
     in if refout then reflect16 r else r)"
    by (rule Crc16_shifted) (simp_all only: n, simp_all)
  then show ?thesis
    unfolding n z take_all [OF order_refl] shifted_0 .
qed

end
