(* ===== verification/Cipher_Utils.thy ===== *)
theory Cipher_Utils
  imports Common_Util_Laws
begin

text \<open>
  The bit streams of \<open>client/src/loclass/cipherutils.c\<close> and of its firmware twin
  \<open>armsrc/optimized_cipherutils.c\<close>, which feed and collect the bits of the iCLASS cipher and
  build HID transport frames. \<open>numbits\<close> and \<open>position\<close> are \<open>uint32_t\<close> counters that stay far below
  their range; a stream reads behind its buffer when \<open>position\<close> passes \<open>numbits\<close>, so the laws
  ask for bits to be left. The locale \<open>bit_source\<close> is the contract of reading a stream, which
  \<open>headBit\<close> and \<open>tailBit\<close> both provide.
\<close>

subsection \<open>Model\<close>

record bitstream_in =
  in_buffer :: bytes
  in_numbits :: nat
  in_position :: nat

record bitstream_out =
  out_buffer :: bytes
  out_numbits :: nat
  out_position :: nat

definition headBit :: "bitstream_in \<Rightarrow> bool \<times> bitstream_in" where
  "headBit stream =
    (let bytepos = in_position stream div 8;
         bitpos = in_position stream mod 8
     in (shr (in_buffer stream ! bytepos) (7 - bitpos) AND 1 \<noteq> 0,
         stream\<lparr>in_position := in_position stream + 1\<rparr>))"

definition tailBit :: "bitstream_in \<Rightarrow> bool \<times> bitstream_in" where
  "tailBit stream =
    (let bitpos = in_numbits stream - 1 - in_position stream;
         bytepos = bitpos div 8;
         bitpos = bitpos mod 8
     in (shr (in_buffer stream ! bytepos) (7 - bitpos) AND 1 \<noteq> 0,
         stream\<lparr>in_position := in_position stream + 1\<rparr>))"

definition pushBit :: "bitstream_out \<Rightarrow> bool \<Rightarrow> bitstream_out" where
  "pushBit stream b =
    (let bytepos = out_position stream div 8;
         bitpos = out_position stream mod 8
     in stream\<lparr>out_buffer := (out_buffer stream)
                 [bytepos := out_buffer stream ! bytepos OR shl (of_bool b) (7 - bitpos)],
          out_position := out_position stream + 1,
          out_numbits := out_numbits stream + 1\<rparr>)"

definition push6bits :: "bitstream_out \<Rightarrow> u8 \<Rightarrow> bitstream_out" where
  "push6bits stream bits =
    (let stream = pushBit stream (bits AND 0x20 \<noteq> 0);
         stream = pushBit stream (bits AND 0x10 \<noteq> 0);
         stream = pushBit stream (bits AND 0x08 \<noteq> 0);
         stream = pushBit stream (bits AND 0x04 \<noteq> 0);
         stream = pushBit stream (bits AND 0x02 \<noteq> 0)
     in pushBit stream (bits AND 0x01 \<noteq> 0))"

definition bitsLeft :: "bitstream_in \<Rightarrow> int" where
  "bitsLeft stream = int (in_numbits stream) - int (in_position stream)"

definition x_num_to_bytes :: "u64 \<Rightarrow> nat \<Rightarrow> bytes \<Rightarrow> bytes" where
  "x_num_to_bytes n len dest = num_to_bytes n len dest"

definition x_bytes_to_num :: "bytes \<Rightarrow> nat \<Rightarrow> u64" where
  "x_bytes_to_num src len = bytes_to_num src len"

text \<open>
  The loop \<open>while (bitsLeft(&in) > 0) pushBit(&out, pop(&in))\<close> of the self tests, for either way
  of taking bits.
\<close>

function copy_bits ::
  "(bitstream_in \<Rightarrow> bool \<times> bitstream_in) \<Rightarrow> bitstream_in \<Rightarrow> bitstream_out \<Rightarrow> nat \<Rightarrow> bitstream_out" where
  "copy_bits pop ins out fuel =
    (if bitsLeft ins > 0 \<and> fuel > 0
     then let (b, ins) = pop ins in copy_bits pop ins (pushBit out b) (fuel - 1) else out)"
  by pat_completeness auto
termination by (relation "measure (\<lambda>(p, i, q, f). f)") auto

declare copy_bits.simps [simp del]

subsection \<open>Reading\<close>

locale bit_source =
  fixes pop :: "'s \<Rightarrow> bool \<times> 's" and left :: "'s \<Rightarrow> bool list"
  assumes pop_left: "left s = b # r \<Longrightarrow> fst (pop s) = b \<and> left (snd (pop s)) = r"
begin

primrec pops :: "nat \<Rightarrow> 's \<Rightarrow> bool list \<times> 's" where
  "pops 0 s = ([], s)"
| "pops (Suc k) s = (let (b, s) = pop s; (bs, s) = pops k s in (b # bs, s))"

text \<open>Taking \<open>k\<close> bits yields the next \<open>k\<close> bits of the stream and leaves the others.\<close>

lemma pops_left:
  "k \<le> length (left s) \<Longrightarrow> fst (pops k s) = take k (left s) \<and> left (snd (pops k s)) = drop k (left s)"
proof (induction k arbitrary: s)
  case (Suc k)
  then obtain b r where l: "left s = b # r" by (cases "left s") auto
  with Suc.prems Suc.IH [of "snd (pop s)"] pop_left [OF l] show ?case
    by (simp add: case_prod_beta Let_def)
qed simp

end

definition head_left :: "bitstream_in \<Rightarrow> bool list" where
  "head_left s = map (mbit (in_buffer s)) [in_position s..<in_numbits s]"

definition tail_left :: "bitstream_in \<Rightarrow> bool list" where
  "tail_left s = rev (map (mbit (in_buffer s)) [0..<in_numbits s - in_position s])"

lemma headBit_mbit:
  "headBit s = (mbit (in_buffer s) (in_position s), s\<lparr>in_position := in_position s + 1\<rparr>)"
  by (simp add: headBit_def Let_def mbit_def shr_and_1)

lemma tailBit_mbit:
  "tailBit s = (mbit (in_buffer s) (in_numbits s - 1 - in_position s), s\<lparr>in_position := in_position s + 1\<rparr>)"
  by (simp add: tailBit_def Let_def mbit_def shr_and_1)

lemma head_pop_left:
  assumes "head_left s = b # r"
  shows "fst (headBit s) = b \<and> head_left (snd (headBit s)) = r"
proof -
  have "in_position s < in_numbits s"
    using assms by (cases "in_position s < in_numbits s") (auto simp: head_left_def)
  then show ?thesis
    using assms by (simp add: head_left_def headBit_mbit upt_conv_Cons)
qed

lemma tail_pop_left:
  assumes "tail_left s = b # r"
  shows "fst (tailBit s) = b \<and> tail_left (snd (tailBit s)) = r"
proof -
  define d where "d = in_numbits s - in_position s"
  have "d \<noteq> 0" using assms by (auto simp: tail_left_def d_def)
  then obtain e where e: "d = Suc e" by (cases d) auto
  then have "in_numbits s - 1 - in_position s = e" "in_numbits s - Suc (in_position s) = e"
    by (auto simp: d_def)
  then show ?thesis
    using assms by (simp add: tail_left_def tailBit_mbit d_def [symmetric] e)
qed

interpretation head: bit_source headBit head_left
  by unfold_locales (rule head_pop_left)

interpretation tail: bit_source tailBit tail_left
  by unfold_locales (rule tail_pop_left)

subsection \<open>Writing\<close>

text \<open>An output stream over a zeroed buffer: what was pushed, and zeros behind it.\<close>

definition out_ok :: "bitstream_out \<Rightarrow> bool" where
  "out_ok s = (\<forall>k. out_position s \<le> k \<and> k < 8 * length (out_buffer s) \<longrightarrow> \<not> mbit (out_buffer s) k)"

definition out_bits :: "bitstream_out \<Rightarrow> bool list" where
  "out_bits s = map (mbit (out_buffer s)) [0..<out_position s]"

lemma length_out_bits [simp]: "length (out_bits s) = out_position s"
  by (simp add: out_bits_def)

lemma pushBit_mbit:
  assumes "out_position s < 8 * length (out_buffer s)"
  shows "mbit (out_buffer (pushBit s b)) k = ((k = out_position s \<and> b) \<or> mbit (out_buffer s) k)"
proof -
  have "out_position s div 8 < length (out_buffer s)"
    using assms by (simp add: less_mult_imp_div_less mult.commute)
  moreover have "SET_BIT_MSB (out_buffer s) (out_position s) = out_buffer (pushBit s True)"
    "out_buffer (pushBit s False) = out_buffer s"
    by (simp_all add: SET_BIT_MSB_def pushBit_def Let_def)
  ultimately show ?thesis
    using mbit_SET_CLEAR(1) [of "out_position s" "out_buffer s" k] by (cases b) auto
qed

lemma pushBit_simps [simp]:
  "out_position (pushBit s b) = Suc (out_position s)"
  "out_numbits (pushBit s b) = Suc (out_numbits s)"
  "length (out_buffer (pushBit s b)) = length (out_buffer s)"
  by (simp_all add: pushBit_def Let_def)

lemma pushBit_ok:
  assumes "out_ok s" "out_position s < 8 * length (out_buffer s)"
  shows "out_ok (pushBit s b)" and "out_bits (pushBit s b) = out_bits s @ [b]"
  using assms by (auto simp: out_ok_def out_bits_def pushBit_mbit)

lemma fold_pushBit:
  assumes "out_ok s" "out_position s + length bs \<le> 8 * length (out_buffer s)"
  shows "out_ok (fold (\<lambda>b s. pushBit s b) bs s) \<and>
    out_bits (fold (\<lambda>b s. pushBit s b) bs s) = out_bits s @ bs \<and>
    out_position (fold (\<lambda>b s. pushBit s b) bs s) = out_position s + length bs \<and>
    length (out_buffer (fold (\<lambda>b s. pushBit s b) bs s)) = length (out_buffer s)"
  using assms
proof (induction bs arbitrary: s)
  case (Cons b bs)
  then show ?case
    using Cons.IH [of "pushBit s b"] pushBit_ok [of s b] by simp
qed simp

lemma push6bits_fold:
  "push6bits s bits = fold (\<lambda>b s. pushBit s b) (map (bit bits) [5, 4, 3, 2, 1, 0]) s"
proof -
  have b: "(bits AND 2 ^ i \<noteq> 0) = bit bits i" for i
    using and_exp_eq_0_iff_not_bit [of bits i] by simp
  show ?thesis
    using b [of 5] b [of 4] b [of 3] b [of 2] b [of 1] b [of 0]
    by (simp add: push6bits_def Let_def)
qed

text \<open>A buffer is determined by its bits.\<close>

lemma bits_be_mbit: "bits_be d = map (mbit d) [0..<8 * length d]"
proof (induction d)
  case (Cons b d)
  have "[0..<8 * length (b # d)] = [0..<8] @ map (\<lambda>k. k + 8) [0..<8 * length d]"
    by (simp add: map_add_upt upt_add_eq_append [of 0 8 "8 * length d", simplified] add.commute)
  moreover have "(k + 8) div 8 = Suc (k div 8)" for k :: nat by simp
  then have "mbit (b # d) (k + 8) = mbit d k" for k by (simp only: mbit_def nth_Cons_Suc mod_add_self2)
  moreover have "map (mbit (b # d)) [0..<8] = map (bit b) [7, 6, 5, 4, 3, 2, 1, 0]"
    by (simp add: upt_8 mbit_def)
  ultimately show ?case
    using Cons by (simp add: comp_def)
qed simp

lemma bits_be_inj: "length d = length e \<Longrightarrow> bits_be d = bits_be e \<Longrightarrow> d = e"
proof (induction d e rule: list_induct2)
  case (Cons x xs y ys)
  then have "map (bit x) [7, 6, 5, 4, 3, 2, 1, 0] = map (bit y) [7, 6, 5, 4, 3, 2, 1, 0]"
    "bits_be xs = bits_be ys" by auto
  moreover from this(1) have "bit x i = bit y i" if "i < 8" for i
    using that by (elim less_8_cases) simp_all
  then have "x = y" by (rule u8_eqI)
  ultimately show ?case using Cons.IH by simp
qed simp

subsection \<open>Copying\<close>

lemma copy_bits_head:
  assumes "bit_source pop left" and "\<And>s. length (left s) = in_numbits s - in_position s"
    and "length (left ins) \<le> fuel" "out_ok out"
    and "out_position out + length (left ins) \<le> 8 * length (out_buffer out)"
  shows "out_bits (copy_bits pop ins out fuel) = out_bits out @ left ins \<and>
    length (out_buffer (copy_bits pop ins out fuel)) = length (out_buffer out)"
  using assms(3-)
proof (induction fuel arbitrary: ins out)
  case 0
  then show ?case by (simp add: copy_bits.simps [of pop ins out 0])
next
  case (Suc fuel)
  show ?case
  proof (cases "left ins")
    case Nil
    then have "\<not> bitsLeft ins > 0" using assms(2) [of ins] by (simp add: bitsLeft_def)
    then show ?thesis using Nil by (simp add: copy_bits.simps [of pop ins out])
  next
    case (Cons b r)
    then have l: "bitsLeft ins > 0" using assms(2) [of ins] by (simp add: bitsLeft_def)
    have p: "fst (pop ins) = b" "left (snd (pop ins)) = r"
      using bit_source.pop_left [OF assms(1) Cons] by auto
    have "copy_bits pop ins out (Suc fuel) = copy_bits pop (snd (pop ins)) (pushBit out b) fuel"
      using l p(1) by (simp add: copy_bits.simps [of pop ins out] case_prod_beta Let_def)
    then show ?thesis
      using Suc.IH [of "snd (pop ins)" "pushBit out b"] Suc.prems Cons p pushBit_ok [of out b]
      by simp
  qed
qed

lemma length_left: "length (head_left s) = in_numbits s - in_position s"
  "length (tail_left s) = in_numbits s - in_position s"
  by (simp_all add: head_left_def tail_left_def)

text \<open>the bit streams are faithful: copying a buffer bit by bit from its head reproduces it, and
  copying it from its tail twice reproduces it too, for every buffer (the property that the
  program's self tests \<open>testBitStream\<close> and \<open>testReversedBitstream\<close> check on one input).\<close>

theorem bitstream_copies:
  assumes "n = 8 * length input"
  shows "(let out = copy_bits headBit \<lparr>in_buffer = input, in_numbits = n, in_position = 0\<rparr>
           \<lparr>out_buffer = replicate (length input) 0, out_numbits = 0, out_position = 0\<rparr> n
     in out_buffer out = input) \<and>
    (let reversed = copy_bits tailBit \<lparr>in_buffer = input, in_numbits = n, in_position = 0\<rparr>
           \<lparr>out_buffer = replicate (length input) 0, out_numbits = 0, out_position = 0\<rparr> n;
         out = copy_bits tailBit \<lparr>in_buffer = out_buffer reversed, in_numbits = n, in_position = 0\<rparr>
           \<lparr>out_buffer = replicate (length input) 0, out_numbits = 0, out_position = 0\<rparr> n
     in out_buffer out = input)"
proof -
  let ?out = "\<lparr>out_buffer = replicate (length input) 0, out_numbits = 0, out_position = 0\<rparr>"
  let ?in = "\<lambda>d. \<lparr>in_buffer = d, in_numbits = n, in_position = 0\<rparr>"
  have z: "mbit (replicate l 0) k = False" if "k < 8 * l" for k l
    using that by (simp add: mbit_def less_mult_imp_div_less mult.commute)
  then have ok: "out_ok ?out" and nil: "out_bits ?out = []"
    by (auto simp: out_ok_def out_bits_def)
  have pos: "out_bits os = xs \<Longrightarrow> length xs = n \<Longrightarrow> length (out_buffer os) = length input \<Longrightarrow>
      bits_be (out_buffer os) = xs" for os xs
    using assms by (metis bits_be_mbit length_out_bits out_bits_def)
  have h: "bits_be (out_buffer (copy_bits headBit (?in d) ?out n)) = bits_be d \<and>
    length (out_buffer (copy_bits headBit (?in d) ?out n)) = length input" if d: "length d = length input" for d
  proof -
    have "out_bits (copy_bits headBit (?in d) ?out n) = out_bits ?out @ head_left (?in d) \<and>
      length (out_buffer (copy_bits headBit (?in d) ?out n)) = length (out_buffer ?out)"
      by (rule copy_bits_head [OF head.bit_source_axioms length_left(1)])
        (use ok assms in \<open>simp_all add: length_left\<close>)
    moreover have "head_left (?in d) = bits_be d" "length (bits_be d) = n"
      using assms d by (simp_all add: head_left_def bits_be_mbit)
    ultimately show ?thesis by (simp add: nil pos)
  qed
  have t: "bits_be (out_buffer (copy_bits tailBit (?in d) ?out n)) = rev (bits_be d) \<and>
    length (out_buffer (copy_bits tailBit (?in d) ?out n)) = length input" if d: "length d = length input" for d
  proof -
    have "out_bits (copy_bits tailBit (?in d) ?out n) = out_bits ?out @ tail_left (?in d) \<and>
      length (out_buffer (copy_bits tailBit (?in d) ?out n)) = length (out_buffer ?out)"
      by (rule copy_bits_head [OF tail.bit_source_axioms length_left(2)])
        (use ok assms in \<open>simp_all add: length_left\<close>)
    moreover have "tail_left (?in d) = rev (bits_be d)" "length (rev (bits_be d)) = n"
      using assms d by (simp_all add: tail_left_def bits_be_mbit)
    ultimately show ?thesis by (simp add: nil pos)
  qed
  let ?rev = "out_buffer (copy_bits tailBit (?in input) ?out n)"
  have "out_buffer (copy_bits headBit (?in input) ?out n) = input"
    using h [of input] by (intro bits_be_inj) simp_all
  moreover have "out_buffer (copy_bits tailBit (?in ?rev) ?out n) = input"
    using t [of input] t [of ?rev] by (intro bits_be_inj) simp_all
  ultimately show ?thesis by (simp only: Let_def)
qed

theorem bitstream_copies_witness:
  "out_buffer (copy_bits headBit \<lparr>in_buffer = [0xDE, 0xAD], in_numbits = 16, in_position = 0\<rparr>
     \<lparr>out_buffer = [0, 0], out_numbits = 0, out_position = 0\<rparr> 16) = [0xDE, 0xAD]"
  using bitstream_copies [of 16 "[0xDE, 0xAD]"] by (simp add: Let_def numeral_2_eq_2)

end
