(* ===== verification/Parity_Bits.thy ===== *)
theory Parity_Bits
  imports Prelude
begin

text \<open>
  \<open>common/parity.h\<close>: the odd-parity table and the byte, 16-bit and 32-bit parity functions.
  The functions return \<open>uint8_t\<close> 0 or 1; the model keeps the byte. The firmware and the client
  are built by GCC or Clang, so the 16- and 32-bit functions are the \<open>__GNUC__\<close> branch,
  \<open>__builtin_parity\<close>; the table branch of the other compilers is modelled beside it as
  \<open>evenparity32_table\<close>, where an index outside the table is \<open>None\<close>.
\<close>

definition g_odd_byte_parity :: "u8 list" where
  "g_odd_byte_parity =
    [1, 0, 0, 1, 0, 1, 1, 0, 0, 1, 1, 0, 1, 0, 0, 1,
     0, 1, 1, 0, 1, 0, 0, 1, 1, 0, 0, 1, 0, 1, 1, 0,
     0, 1, 1, 0, 1, 0, 0, 1, 1, 0, 0, 1, 0, 1, 1, 0,
     1, 0, 0, 1, 0, 1, 1, 0, 0, 1, 1, 0, 1, 0, 0, 1,
     0, 1, 1, 0, 1, 0, 0, 1, 1, 0, 0, 1, 0, 1, 1, 0,
     1, 0, 0, 1, 0, 1, 1, 0, 0, 1, 1, 0, 1, 0, 0, 1,
     1, 0, 0, 1, 0, 1, 1, 0, 0, 1, 1, 0, 1, 0, 0, 1,
     0, 1, 1, 0, 1, 0, 0, 1, 1, 0, 0, 1, 0, 1, 1, 0,
     0, 1, 1, 0, 1, 0, 0, 1, 1, 0, 0, 1, 0, 1, 1, 0,
     1, 0, 0, 1, 0, 1, 1, 0, 0, 1, 1, 0, 1, 0, 0, 1,
     1, 0, 0, 1, 0, 1, 1, 0, 0, 1, 1, 0, 1, 0, 0, 1,
     0, 1, 1, 0, 1, 0, 0, 1, 1, 0, 0, 1, 0, 1, 1, 0,
     1, 0, 0, 1, 0, 1, 1, 0, 0, 1, 1, 0, 1, 0, 0, 1,
     0, 1, 1, 0, 1, 0, 0, 1, 1, 0, 0, 1, 0, 1, 1, 0,
     0, 1, 1, 0, 1, 0, 0, 1, 1, 0, 0, 1, 0, 1, 1, 0,
     1, 0, 0, 1, 0, 1, 1, 0, 0, 1, 1, 0, 1, 0, 0, 1]"

definition oddparity8 :: "u8 \<Rightarrow> u8" where
  "oddparity8 x = g_odd_byte_parity ! unat x"

definition evenparity8 :: "u8 \<Rightarrow> u8" where
  "evenparity8 x = of_bool (g_odd_byte_parity ! unat x = 0)"

definition evenparity16 :: "u16 \<Rightarrow> u8" where
  "evenparity16 x = of_bool (wparity x)"

definition oddparity16 :: "u16 \<Rightarrow> u8" where
  "oddparity16 x = of_bool (\<not> wparity x)"

definition evenparity32 :: "u32 \<Rightarrow> u8" where
  "evenparity32 x = of_bool (wparity x)"

definition oddparity32 :: "u32 \<Rightarrow> u8" where
  "oddparity32 x = of_bool (\<not> wparity x)"

text \<open>The branch of the compilers without \<open>__builtin_parity\<close>.\<close>

definition evenparity32_table :: "u32 \<Rightarrow> u8 option" where
  "evenparity32_table x0 =
    (let x1 = x0 XOR shr x0 16; x2 = x1 XOR shr x1 8 in
     if unat x2 < length g_odd_byte_parity
     then Some (of_bool (g_odd_byte_parity ! unat x2 = 0)) else None)"

subsection \<open>The table is the parity\<close>

lemma g_odd_byte_parity_eq:
  "g_odd_byte_parity = map (\<lambda>n. of_bool (\<not> wparity (word_of_nat n :: u8))) [0..<256]"
  by code_simp

lemma oddparity8_wparity: "oddparity8 x = of_bool (\<not> wparity x)"
proof -
  have "unat x < 256" using unsigned_less [of x] by simp
  then show ?thesis
    by (simp add: oddparity8_def g_odd_byte_parity_eq)
qed

lemma evenparity8_wparity: "evenparity8 x = of_bool (wparity x)"
  using oddparity8_wparity [of x] by (auto simp: oddparity8_def evenparity8_def)

lemmas parity_wparity =
  oddparity8_wparity evenparity8_wparity evenparity16_def oddparity16_def
  evenparity32_def oddparity32_def

text \<open>A byte followed by its parity bit has the parity the name promises.\<close>

lemma evenparity8_linear: "evenparity8 (x XOR y) = evenparity8 x XOR evenparity8 y"
  by (simp add: evenparity8_wparity wparity_xor)

end
