(* ===== verification/Wiegand_Utils.thy ===== *)
theory Wiegand_Utils
  imports Cipher_Utils Parity_Bits
begin

text \<open>
  \<open>client/src/wiegand_formatutils.c\<close>: the packed Wiegand message of up to 96 bits in three words,
  bit and field access counted from the first transmitted bit, the HID transport header and
  the conversions from binary strings, PACS bytes and raw HID words. \<open>Length\<close> and bit positions are
  \<open>uint8_t\<close>; the model has naturals and writes \<open>mod 256\<close> where the C code narrows a sum. A
  pointer argument that the code updates is returned. The laws of the accessors are collected in
  \<open>codec_laws\<close>; \<open>wbit\<close> is the abstract view of a message as a sequence of bits.
\<close>

subsection \<open>Messages\<close>

record wiegand_message =
  Length :: nat
  Top :: u32
  Mid :: u32
  Bot :: u32

record wiegand_card =
  FacilityCode :: u32
  CardNumber :: u64
  IssueLevel :: u32
  OEM :: u32
  ParityValid :: bool

definition message0 :: wiegand_message where
  "message0 = \<lparr>Length = 0, Top = 0, Mid = 0, Bot = 0\<rparr>"

definition card0 :: wiegand_card where
  "card0 = \<lparr>FacilityCode = 0, CardNumber = 0, IssueLevel = 0, OEM = 0, ParityValid = False\<rparr>"

subsection \<open>Bits and fields\<close>

definition get_bit_by_position :: "wiegand_message \<Rightarrow> nat \<Rightarrow> u8" where
  "get_bit_by_position data pos =
    (if pos \<ge> Length data then 0
     else
       let pos = (Length data - pos) - 1 in
       if pos > 95 then 0
       else if pos > 63 then ucast (shr (Top data) (pos - 64) AND 1)
       else if pos > 31 then ucast (shr (Mid data) (pos - 32) AND 1)
       else ucast (shr (Bot data) pos AND 1))"

definition set_bit_by_position :: "wiegand_message \<Rightarrow> bool \<Rightarrow> nat \<Rightarrow> bool \<times> wiegand_message" where
  "set_bit_by_position data v pos =
    (if pos \<ge> Length data then (False, data)
     else
       let pos = (Length data - pos) - 1 in
       if pos > 95 then (False, data)
       else if pos > 63 then
         (True, data\<lparr>Top := if v then Top data OR shl 1 (pos - 64)
                            else Top data AND NOT (shl 1 (pos - 64))\<rparr>)
       else if pos > 31 then
         (True, data\<lparr>Mid := if v then Mid data OR shl 1 (pos - 32)
                            else Mid data AND NOT (shl 1 (pos - 32))\<rparr>)
       else
         (True, data\<lparr>Bot := if v then Bot data OR shl 1 pos
                            else Bot data AND NOT (shl 1 pos)\<rparr>))"

definition get_linear_field :: "wiegand_message \<Rightarrow> nat \<Rightarrow> nat \<Rightarrow> u64" where
  "get_linear_field data firstBit len =
    fold (\<lambda>i result. shl result 1 OR ucast (get_bit_by_position data ((firstBit + i) mod 256)))
      [0..<len] 0"

definition set_linear_field ::
  "wiegand_message \<Rightarrow> u64 \<Rightarrow> nat \<Rightarrow> nat \<Rightarrow> bool \<times> wiegand_message" where
  "set_linear_field data v firstBit len =
    (let (result, tmpdata) =
       fold (\<lambda>i (result, tmpdata).
           let (ok, tmpdata) = set_bit_by_position tmpdata (shr v ((len - i) - 1) AND 1 \<noteq> 0)
                                 ((firstBit + i) mod 256)
           in (result \<and> ok, tmpdata))
         [0..<len] (True, data)
     in if result then (result, tmpdata) else (result, data))"

definition get_nonlinear_field :: "wiegand_message \<Rightarrow> nat \<Rightarrow> nat list \<Rightarrow> u64" where
  "get_nonlinear_field data numBits bits =
    fold (\<lambda>i result. shl result 1 OR ucast (get_bit_by_position data (bits ! i)))
      [0..<numBits] 0"

definition set_nonlinear_field ::
  "wiegand_message \<Rightarrow> u64 \<Rightarrow> nat \<Rightarrow> nat list \<Rightarrow> bool \<times> wiegand_message" where
  "set_nonlinear_field data v numBits bits =
    (let (result, tmpdata) =
       fold (\<lambda>i (result, tmpdata).
           let (ok, tmpdata) = set_bit_by_position tmpdata (shr v ((numBits - i) - 1) AND 1 \<noteq> 0)
                                 (bits ! i)
           in (result \<and> ok, tmpdata))
         [0..<numBits] (True, data)
     in if result then (result, tmpdata) else (result, data))"

subsection \<open>The HID transport header\<close>

lemma shr1_less: "0 < (h :: u32) \<Longrightarrow> unat (shr h 1) < unat h"
proof -
  assume "0 < h"
  then have "0 < unat h" by (simp add: word_less_nat_alt)
  have "unat (shr h 1) = drop_bit 1 (unat h)" by (rule unat_drop_bit_eq)
  also have "\<dots> = unat h div 2" by (simp add: drop_bit_eq_div)
  finally show "unat (shr h 1) < unat h" using \<open>0 < unat h\<close> by simp
qed

text \<open>\<open>while (hfmt > 0) { hfmt >>= 1; len++; }\<close>\<close>

function header_len_loop :: "u32 \<Rightarrow> nat \<Rightarrow> nat" where
  "header_len_loop hfmt len = (if hfmt > 0 then header_len_loop (shr hfmt 1) (len + 1) else len)"
  by pat_completeness auto
termination
  by (relation "measure (\<lambda>(h, l). unat h)")
    (use shr1_less in simp_all)

declare header_len_loop.simps [simp del]

definition get_length_from_header :: "wiegand_message \<Rightarrow> nat" where
  "get_length_from_header data =
    (let (hfmt, len) =
       (if Top data AND 0x000FFFFF > 0 then (Top data AND 0x000FFFFF, 64)
        else if Mid data AND 0xFFFFFFC0 \<noteq> 0 then (Mid data, 31)
        else if shr (Mid data) 5 AND 1 = 1
          then (shl (Mid data AND 31) 6 OR shr (Bot data) 26, 25)
        else (0, 37))
     in header_len_loop hfmt len mod 256)"

definition initialize_message_object :: "u32 \<Rightarrow> u32 \<Rightarrow> u32 \<Rightarrow> int \<Rightarrow> wiegand_message" where
  "initialize_message_object t m b n =
    (let result = message0\<lparr>Top := t, Mid := m, Bot := b\<rparr>
     in result\<lparr>Length := if n > 0 then nat (n mod 256) else get_length_from_header result\<rparr>)"

definition add_HID_header :: "wiegand_message \<Rightarrow> bool \<times> wiegand_message" where
  "add_HID_header data =
    (if Length data > 84 \<or> Length data = 0 then (False, data)
     else if Length data = 48 then
       (True, data\<lparr>Mid := Mid data OR shl 1 (Length data - 32)\<rparr>)
     else
       (True,
        (if Length data \<ge> 64 then
           let data = data\<lparr>Top := Top data OR 0x09e00000\<rparr>
           in data\<lparr>Top := Top data OR shl 1 (Length data - 64)\<rparr>
         else if Length data > 37 then
           let data = data\<lparr>Top := Top data OR 0x09e00000\<rparr>
           in data\<lparr>Mid := Mid data OR shl 1 (Length data - 32)\<rparr>
         else if Length data = 37 then data
         else if Length data \<ge> 32 then
           let data = data\<lparr>Mid := Mid data OR 0x20\<rparr>
           in data\<lparr>Mid := Mid data OR shl 1 (Length data - 32)\<rparr>
         else
           let data = data\<lparr>Mid := Mid data OR 0x20\<rparr>
           in data\<lparr>Bot := Bot data OR shl 1 (Length data)\<rparr>)))"

subsection \<open>Binary strings\<close>

text \<open>
  A \<open>char *\<close> is the string before its NUL, \<open>binstr_size\<close> the capacity of the array. \<open>None\<close> is the
  error return where nothing is written. \<open>bytes_2_binstr\<close> is from \<open>client/src/util.c\<close>.
\<close>

definition bin_char :: "bool \<Rightarrow> char" where
  "bin_char b = (if b then CHR ''1'' else CHR ''0'')"

definition bytes_2_binstr :: "bytes \<Rightarrow> nat \<Rightarrow> string" where
  "bytes_2_binstr source sourcelen =
    concat (map (\<lambda>b. map (\<lambda>i. bin_char (shr b i AND 1 \<noteq> 0)) [7, 6, 5, 4, 3, 2, 1, 0])
      (take sourcelen source))"

definition wiegand_message_to_binstr :: "wiegand_message \<Rightarrow> nat \<Rightarrow> string option" where
  "wiegand_message_to_binstr packed binstr_size =
    (if binstr_size \<le> Length packed then None
     else Some (map (\<lambda>i. bin_char (get_bit_by_position packed i \<noteq> 0)) [0..<Length packed]))"

text \<open>
  The next two functions write into \<open>binstr\<close> before their last checks, so they return the buffer's
  string beside the result; \<open>dst\<close> is its string before the call.
\<close>

definition wiegand_raw_to_binstr :: "bytes \<Rightarrow> nat \<Rightarrow> string \<Rightarrow> nat \<Rightarrow> bool \<times> string" where
  "wiegand_raw_to_binstr raw raw_len dst binstr_size =
    (if raw_len = 0 \<or> binstr_size = 0 then (False, dst)
     else if binstr_size \<le> raw_len * 8 then (False, dst)
     else
       let dst = bytes_2_binstr raw raw_len in
       case dropWhile (\<lambda>c. c \<noteq> CHR ''1'') dst of
         [] \<Rightarrow> (False, dst)
       | sentinel # payload \<Rightarrow>
           if payload = [] then (False, dst)
           else if binstr_size \<le> length payload then (False, dst)
           else (True, payload))"

definition wiegand_new_pacs_to_binstr :: "bytes \<Rightarrow> nat \<Rightarrow> string \<Rightarrow> nat \<Rightarrow> bool \<times> string" where
  "wiegand_new_pacs_to_binstr pacs pacs_len dst binstr_size =
    (if pacs_len < 2 \<or> pacs ! 0 > 0x07 then (False, dst)
     else
       let payload_len = pacs_len - 1;
           padded_bits = payload_len * 8 in
       if binstr_size \<le> padded_bits then (False, dst)
       else
         let dst = bytes_2_binstr (tl pacs) payload_len;
             trimmed_len = length dst in
         if unat (pacs ! 0) \<ge> trimmed_len then (False, dst)
         else (True, take (trimmed_len - unat (pacs ! 0)) dst))"

text \<open>The \<open>PM3_*\<close> result codes.\<close>

datatype pm3_result = PM3_SUCCESS | PM3_EINVARG | PM3_ESOFT

fun push_binstr :: "string \<Rightarrow> bitstream_out \<Rightarrow> bitstream_out option" where
  "push_binstr [] bout = Some bout"
| "push_binstr (c # cs) bout =
    (if c = CHR ''1'' then push_binstr cs (pushBit bout True)
     else if c = CHR ''0'' then push_binstr cs (pushBit bout False)
     else None)"

definition wiegand_pack_bin_with_hid_header ::
  "string \<Rightarrow> wiegand_message \<Rightarrow> pm3_result \<times> wiegand_message" where
  "wiegand_pack_bin_with_hid_header binstr packed =
    (let bin_len = length binstr in
     if bin_len = 0 \<or> bin_len > 84 then (PM3_EINVARG, packed)
     else
       let bout = \<lparr>out_buffer = replicate 12 0, out_numbits = 0, out_position = 0\<rparr>;
           bout = fold (\<lambda>_ bout. pushBit bout False) [0..<96 - bin_len - 1] bout;
           bout = pushBit bout True in
       case push_binstr binstr bout of
         None \<Rightarrow> (PM3_EINVARG, packed)
       | Some bout \<Rightarrow>
           let hex = out_buffer bout;
               packed = packed\<lparr>Length := bin_len mod 256,
                               Top := ucast (bytes_to_num hex 4),
                               Mid := ucast (bytes_to_num (drop 4 hex) 4),
                               Bot := ucast (bytes_to_num (drop 8 hex) 4)\<rparr>;
               (ok, packed) = add_HID_header packed
           in (if ok then PM3_SUCCESS else PM3_EINVARG, packed))"

record wiegand_input =
  wi_bin_len :: nat
  wi_binstr :: string
  wi_packed_valid :: bool
  wi_packed :: wiegand_message

definition input0 :: wiegand_input where
  "input0 = \<lparr>wi_bin_len = 0, wi_binstr = [], wi_packed_valid = False, wi_packed = message0\<rparr>"

text \<open>\<open>sizeof(input->binstr)\<close>.\<close>

definition BINSTR_SIZE :: nat where "BINSTR_SIZE = 145"

definition wiegand_set_plain_binstr :: "string \<Rightarrow> wiegand_input \<Rightarrow> pm3_result \<times> wiegand_input" where
  "wiegand_set_plain_binstr s input =
    (if length s = 0 \<or> length s \<ge> BINSTR_SIZE then (PM3_EINVARG, input)
     else if \<not> list_all (\<lambda>c. c = CHR ''0'' \<or> c = CHR ''1'') s then (PM3_EINVARG, input0)
     else (PM3_SUCCESS, input0\<lparr>wi_binstr := s, wi_bin_len := length s\<rparr>))"

definition wiegand_set_new_pacs_binstr :: "bytes \<Rightarrow> nat \<Rightarrow> wiegand_input \<Rightarrow> pm3_result \<times> wiegand_input" where
  "wiegand_set_new_pacs_binstr pacs pacs_len input =
    (let (ok, s) = wiegand_new_pacs_to_binstr pacs pacs_len [] BINSTR_SIZE in
     if \<not> ok then (PM3_EINVARG, input0\<lparr>wi_binstr := s\<rparr>)
     else (PM3_SUCCESS, input0\<lparr>wi_binstr := s, wi_bin_len := length s\<rparr>))"

text \<open>The common tail of the two functions that normalise an input and then pack it.\<close>

definition pack_normalised :: "pm3_result \<times> wiegand_input \<Rightarrow> pm3_result \<times> wiegand_input" where
  "pack_normalised r =
    (let (res, input) = r in
     if res \<noteq> PM3_SUCCESS then (res, input)
     else if wi_bin_len input > 84 then (PM3_SUCCESS, input\<lparr>wi_packed_valid := False\<rparr>)
     else
       let (res, m) = wiegand_pack_bin_with_hid_header (wi_binstr input) (wi_packed input)
       in (res, input\<lparr>wi_packed := m, wi_packed_valid := (res = PM3_SUCCESS)\<rparr>))"

definition wiegand_pack_from_plain_bin :: "string \<Rightarrow> wiegand_input \<Rightarrow> pm3_result \<times> wiegand_input" where
  "wiegand_pack_from_plain_bin s input = pack_normalised (wiegand_set_plain_binstr s input)"

definition wiegand_pack_from_new_pacs :: "bytes \<Rightarrow> nat \<Rightarrow> wiegand_input \<Rightarrow> pm3_result \<times> wiegand_input" where
  "wiegand_pack_from_new_pacs pacs pacs_len input =
    pack_normalised (wiegand_set_new_pacs_binstr pacs pacs_len input)"

definition wiegand_pack_from_raw_hid :: "bytes \<Rightarrow> nat \<Rightarrow> wiegand_input \<Rightarrow> pm3_result \<times> wiegand_input" where
  "wiegand_pack_from_raw_hid raw raw_len input =
    (if raw_len = 0 then (PM3_EINVARG, input)
     else
       let (ok, s) = wiegand_raw_to_binstr raw raw_len [] BINSTR_SIZE in
         if \<not> ok then (PM3_EINVARG, input0\<lparr>wi_binstr := s\<rparr>)
         else
           let input = input0\<lparr>wi_binstr := s, wi_bin_len := length s\<rparr> in
           if wi_bin_len input > 96 then (PM3_SUCCESS, input\<lparr>wi_packed_valid := False\<rparr>)
           else if raw_len > 12 then (PM3_EINVARG, input)
           else
             let aligned = replicate (12 - raw_len) 0 @ take raw_len raw;
                 m = initialize_message_object (ucast (bytes_to_num aligned 4))
                       (ucast (bytes_to_num (drop 4 aligned) 4))
                       (ucast (bytes_to_num (drop 8 aligned) 4)) 0
             in (PM3_SUCCESS, input\<lparr>wi_packed := m, wi_packed_valid := True\<rparr>))"

subsection \<open>The abstract view\<close>

text \<open>The bit of the three words by weight, and the bit of the message by position.\<close>

definition mraw :: "wiegand_message \<Rightarrow> nat \<Rightarrow> bool" where
  "mraw m i = (if i < 32 then bit (Bot m) i else if i < 64 then bit (Mid m) (i - 32)
     else i < 96 \<and> bit (Top m) (i - 64))"

definition wbit :: "wiegand_message \<Rightarrow> nat \<Rightarrow> bool" where
  "wbit m pos = (pos < Length m \<and> mraw m (Length m - pos - 1))"

lemma get_bit_wbit [codec_laws]: "get_bit_by_position m pos = of_bool (wbit m pos)"
  by (auto simp: get_bit_by_position_def wbit_def mraw_def Let_def shr_and_1)

lemma set_bit_mraw:
  assumes "pos < Length m" "Length m \<le> 96"
  shows "fst (set_bit_by_position m v pos)"
    and "mraw (snd (set_bit_by_position m v pos)) i =
      (if i = Length m - pos - 1 then v else mraw m i)"
  using assms
  by (auto simp: set_bit_by_position_def Let_def mraw_def word_bits bit_exp_iff)

lemma Length_set_bit [simp]: "Length (snd (set_bit_by_position m v pos)) = Length m"
  by (simp add: set_bit_by_position_def Let_def)

lemma wbit_set_bit [codec_laws]:
  assumes "pos < Length m" "Length m \<le> 96"
  shows "wbit (snd (set_bit_by_position m v pos)) q = (if q = pos then v else wbit m q)"
  using set_bit_mraw [OF assms, of v] assms by (auto simp: wbit_def)

lemma get_linear_step:
  "get_linear_field m fb (Suc n) =
   shl (get_linear_field m fb n) 1 OR of_bool (wbit m ((fb + n) mod 256))"
  by (simp add: get_linear_field_def codec_laws)

lemma bit_shl1_or:
  "bit (shl (x :: 'a::len word) 1 OR of_bool b) 0 = b"
  "bit (shl x 1 OR of_bool b) (Suc k) = (Suc k < LENGTH('a) \<and> bit x k)"
  by (auto simp: word_bits)

lemma get_linear_bit:
  assumes "n \<le> 64"
  shows "bit (get_linear_field m fb n) k = (k < n \<and> wbit m ((fb + (n - 1 - k)) mod 256))"
  using assms
proof (induction n arbitrary: k)
  case 0
  then show ?case by (simp add: get_linear_field_def)
next
  case (Suc n)
  show ?case
  proof (cases k)
    case 0
    then show ?thesis by (simp add: get_linear_step bit_shl1_or del: One_nat_def)
  next
    case (Suc j)
    have "n - 1 - j = Suc n - 1 - Suc j" by simp
    then show ?thesis
      using Suc.IH [of j] Suc.prems \<open>k = Suc j\<close>
      by (auto simp: get_linear_step bit_shl1_or simp del: One_nat_def)
  qed
qed

lemma get_nonlinear_step:
  "get_nonlinear_field m (Suc n) ps = shl (get_nonlinear_field m n ps) 1 OR of_bool (wbit m (ps ! n))"
  by (simp add: get_nonlinear_field_def codec_laws)

lemma get_nonlinear_bit:
  assumes "n \<le> 64"
  shows "bit (get_nonlinear_field m n ps) k = (k < n \<and> wbit m (ps ! (n - 1 - k)))"
  using assms
proof (induction n arbitrary: k)
  case 0
  then show ?case by (simp add: get_nonlinear_field_def)
next
  case (Suc n)
  show ?case
  proof (cases k)
    case 0
    then show ?thesis by (simp add: get_nonlinear_step bit_shl1_or del: One_nat_def)
  next
    case (Suc j)
    have "n - 1 - j = Suc n - 1 - Suc j" by simp
    then show ?thesis
      using Suc.IH [of j] Suc.prems \<open>k = Suc j\<close>
      by (auto simp: get_nonlinear_step bit_shl1_or simp del: One_nat_def)
  qed
qed

text \<open>
  A field is a list of positions, most significant first; \<open>set_positions\<close> is the loop that both
  setters share. Inside the message it writes all bits, outside it leaves the message alone.
\<close>

definition set_position :: "u64 \<Rightarrow> nat list \<Rightarrow> nat \<Rightarrow> bool \<times> wiegand_message \<Rightarrow> bool \<times> wiegand_message" where
  "set_position v ps i = (\<lambda>(result, t).
     let (ok, t) = set_bit_by_position t (bit v (length ps - i - 1)) (ps ! i) in (result \<and> ok, t))"

definition set_positions :: "wiegand_message \<Rightarrow> u64 \<Rightarrow> nat list \<Rightarrow> bool \<times> wiegand_message" where
  "set_positions m v ps = fold (set_position v ps) [0..<length ps] (True, m)"

lemma set_positions_prefix:
  assumes "k \<le> length ps" "Length m \<le> 96" "\<forall>p\<in>set ps. p < Length m"
  shows "\<exists>t. fold (set_position v ps) [0..<k] (True, m) = (True, t) \<and> Length t = Length m \<and>
     (distinct ps \<longrightarrow> (\<forall>q. wbit t q = (if q \<in> set (take k ps)
        then \<exists>i<k. ps ! i = q \<and> bit v (length ps - i - 1) else wbit m q)))"
  using assms(1)
proof (induction k)
  case (Suc k)
  then obtain t where t: "fold (set_position v ps) [0..<k] (True, m) = (True, t)" "Length t = Length m"
     "distinct ps \<longrightarrow> (\<forall>q. wbit t q = (if q \<in> set (take k ps)
        then \<exists>i<k. ps ! i = q \<and> bit v (length ps - i - 1) else wbit m q))" by auto
  let ?p = "ps ! k" and ?v = "bit v (length ps - k - 1)"
  let ?t = "snd (set_bit_by_position t ?v ?p)"
  have p: "?p < Length t" "Length t \<le> 96" using Suc.prems assms t(2) by auto
  have "wbit ?t q = (if q \<in> set (take (Suc k) ps)
        then \<exists>i<Suc k. ps ! i = q \<and> bit v (length ps - i - 1) else wbit m q)"
    if d: "distinct ps" for q
  proof -
    have k: "k < length ps" using Suc.prems by simp
    have "?p \<notin> set (take k ps)"
      using d k by (auto simp: in_set_conv_nth nth_eq_iff_index_eq)
    moreover have "\<And>i. i < k \<Longrightarrow> ps ! i \<noteq> ?p"
      using d k by (simp add: nth_eq_iff_index_eq)
    ultimately show ?thesis
      using t(3) d k by (auto simp: wbit_set_bit [OF p] take_Suc_conv_app_nth less_Suc_eq)
  qed
  moreover have "fold (set_position v ps) [0..<Suc k] (True, m) = (True, ?t)"
    using t(1) set_bit_mraw(1) [OF p, of ?v] by (cases "set_bit_by_position t ?v ?p") (simp add: set_position_def)
  ultimately show ?case
    using t(2) by (intro exI [of _ ?t]) simp
qed auto

lemma set_positions_inside:
  assumes "Length m \<le> 96" "\<forall>p\<in>set ps. p < Length m"
  shows "fst (set_positions m v ps)" and "Length (snd (set_positions m v ps)) = Length m"
    and "distinct ps \<Longrightarrow> i < length ps \<Longrightarrow>
      wbit (snd (set_positions m v ps)) (ps ! i) = bit v (length ps - i - 1)"
    and "distinct ps \<Longrightarrow> q \<notin> set ps \<Longrightarrow> wbit (snd (set_positions m v ps)) q = wbit m q"
proof -
  from set_positions_prefix [OF order_refl assms, of v]
  obtain t where t: "set_positions m v ps = (True, t)" "Length t = Length m"
     "distinct ps \<longrightarrow> (\<forall>q. wbit t q = (if q \<in> set ps
        then \<exists>i<length ps. ps ! i = q \<and> bit v (length ps - i - 1) else wbit m q))"
    by (auto simp: set_positions_def)
  show "fst (set_positions m v ps)" "Length (snd (set_positions m v ps)) = Length m"
    using t(1,2) by simp_all
  show "distinct ps \<Longrightarrow> q \<notin> set ps \<Longrightarrow> wbit (snd (set_positions m v ps)) q = wbit m q"
    using t(1,3) by simp
  assume d: "distinct ps" "i < length ps"
  then have "(\<exists>j<length ps. ps ! j = ps ! i \<and> bit v (length ps - j - 1)) = bit v (length ps - i - 1)"
    by (auto simp: nth_eq_iff_index_eq)
  then show "wbit (snd (set_positions m v ps)) (ps ! i) = bit v (length ps - i - 1)"
    using t(1,3) d by simp
qed

lemma bit_shr_and_1: "(shr (v :: u64) n AND 1 \<noteq> 0) = bit v n"
  by (simp add: shr_and_1)

lemma set_linear_positions:
  assumes "fb + n \<le> 256"
  shows "set_linear_field m v fb n =
    (let (ok, t) = set_positions m v [fb..<fb + n] in if ok then (ok, t) else (ok, m))"
proof -
  have "fold (\<lambda>i (result, t). let (ok, t) = set_bit_by_position t (bit v (n - i - 1)) ((fb + i) mod 256)
          in (result \<and> ok, t)) [0..<n] s = fold (set_position v [fb..<fb + n]) [0..<n] s" for s
    using assms by (intro fold_cong) (auto simp: set_position_def fun_eq_iff)
  then show ?thesis
    by (simp add: set_linear_field_def set_positions_def bit_shr_and_1)
qed

lemma set_nonlinear_positions:
  "set_nonlinear_field m v (length ps) ps =
    (let (ok, t) = set_positions m v ps in if ok then (ok, t) else (ok, m))"
  by (simp add: set_nonlinear_field_def set_positions_def set_position_def [abs_def] bit_shr_and_1)

subsection \<open>Reading after writing\<close>

text \<open>The contract of a field write inside the message, for the two kinds of field.\<close>

lemma set_linear_ok:
  assumes "fb + n \<le> Length m" "Length m \<le> 96"
  shows "fst (set_linear_field m v fb n)" and "Length (snd (set_linear_field m v fb n)) = Length m"
    and "wbit (snd (set_linear_field m v fb n)) q =
      (if fb \<le> q \<and> q < fb + n then bit v (n - (q - fb) - 1) else wbit m q)"
proof -
  have l: "fb + n \<le> 256" "\<forall>p\<in>set [fb..<fb + n]. p < Length m" using assms by auto
  note i = set_positions_inside [OF assms(2) l(2), where v = v]
  have e: "set_linear_field m v fb n = set_positions m v [fb..<fb + n]"
    using i(1) by (cases "set_positions m v [fb..<fb + n]") (simp add: set_linear_positions [OF l(1)])
  show "fst (set_linear_field m v fb n)" "Length (snd (set_linear_field m v fb n)) = Length m"
    using i(1,2) by (simp_all add: e)
  show "wbit (snd (set_linear_field m v fb n)) q =
      (if fb \<le> q \<and> q < fb + n then bit v (n - (q - fb) - 1) else wbit m q)"
  proof (cases "fb \<le> q \<and> q < fb + n")
    case True
    then have "q - fb < n" by auto
    with True show ?thesis using i(3) [of "q - fb"] by (simp add: e)
  next
    case False
    then have "q \<notin> set [fb..<fb + n]" by auto
    then show ?thesis using False i(4) [of q] by (auto simp: e)
  qed
qed

lemma set_nonlinear_ok:
  assumes "n = length ps" "\<forall>p\<in>set ps. p < Length m" "Length m \<le> 96" "distinct ps"
  shows "fst (set_nonlinear_field m v n ps)" and "Length (snd (set_nonlinear_field m v n ps)) = Length m"
    and "i < n \<Longrightarrow> wbit (snd (set_nonlinear_field m v n ps)) (ps ! i) = bit v (n - i - 1)"
    and "q \<notin> set ps \<Longrightarrow> wbit (snd (set_nonlinear_field m v n ps)) q = wbit m q"
proof -
  note i = set_positions_inside [OF assms(3,2), where v = v]
  have e: "set_nonlinear_field m v n ps = set_positions m v ps"
    using i(1) assms(1) by (cases "set_positions m v ps") (simp add: set_nonlinear_positions)
  show "fst (set_nonlinear_field m v n ps)" "Length (snd (set_nonlinear_field m v n ps)) = Length m"
    using i(1,2) by (simp_all add: e)
  show "i < n \<Longrightarrow> wbit (snd (set_nonlinear_field m v n ps)) (ps ! i) = bit v (n - i - 1)"
    "q \<notin> set ps \<Longrightarrow> wbit (snd (set_nonlinear_field m v n ps)) q = wbit m q"
    unfolding e using i(3,4) assms(1,4) by simp_all
qed

lemma Length_set_linear [simp]: "Length (snd (set_linear_field m v fb n)) = Length m"
proof -
  have "Length (snd (fold (\<lambda>i (result, t). let (ok, t) = set_bit_by_position t (shr v ((n - i) - 1) AND 1 \<noteq> 0)
          ((fb + i) mod 256) in (result \<and> ok, t)) xs (r, t))) = Length t" for xs r t
    by (induction xs arbitrary: r t) (auto simp: case_prod_beta Let_def)
  then show ?thesis
    by (simp add: set_linear_field_def case_prod_beta Let_def)
qed

lemma Length_set_nonlinear [simp]: "Length (snd (set_nonlinear_field m v n ps)) = Length m"
proof -
  have "Length (snd (fold (\<lambda>i (result, t). let (ok, t) = set_bit_by_position t (shr v ((n - i) - 1) AND 1 \<noteq> 0)
          (ps ! i) in (result \<and> ok, t)) xs (r, t))) = Length t" for xs r t
    by (induction xs arbitrary: r t) (auto simp: case_prod_beta Let_def)
  then show ?thesis
    by (simp add: set_nonlinear_field_def case_prod_beta Let_def)
qed

text \<open>Reads depend on the bits of the field only.\<close>

lemma get_linear_cong:
  assumes "n \<le> 64" "fb + n \<le> 256" "\<And>q. fb \<le> q \<Longrightarrow> q < fb + n \<Longrightarrow> wbit m q = wbit m' q"
  shows "get_linear_field m fb n = get_linear_field m' fb n"
  using assms by (intro bit_word_eqI) (auto simp: get_linear_bit)

lemma get_nonlinear_cong:
  assumes "n \<le> 64" "n \<le> length ps" "\<And>q. q \<in> set ps \<Longrightarrow> wbit m q = wbit m' q"
  shows "get_nonlinear_field m n ps = get_nonlinear_field m' n ps"
  using assms by (intro bit_word_eqI) (auto simp: get_nonlinear_bit)

text \<open>The read-after-write laws, with side conditions on numerals only.\<close>

lemma get_set_linear_same [codec_laws]:
  assumes "fb + n \<le> Length m" "Length m \<le> 96" "n \<le> 64"
  shows "get_linear_field (snd (set_linear_field m v fb n)) fb n = take_bit n v"
  using assms by (intro bit_word_eqI) (auto simp: get_linear_bit set_linear_ok bit_take_bit_iff)

lemma get_set_linear_other [codec_laws]:
  assumes "fb' + n' \<le> Length m" "Length m \<le> 96" "n \<le> 64" "fb + n \<le> 256" "fb' + n' \<le> fb \<or> fb + n \<le> fb'"
  shows "get_linear_field (snd (set_linear_field m v fb' n')) fb n = get_linear_field m fb n"
  using assms by (intro get_linear_cong) (auto simp: set_linear_ok)

lemma get_linear_set_bit [codec_laws]:
  assumes "p < Length m" "Length m \<le> 96" "n \<le> 64" "fb + n \<le> 256" "p < fb \<or> fb + n \<le> p"
  shows "get_linear_field (snd (set_bit_by_position m b p)) fb n = get_linear_field m fb n"
  using assms by (intro get_linear_cong) (auto simp: wbit_set_bit)

lemma get_nonlinear_set_bit [codec_laws]:
  assumes "p < Length m" "Length m \<le> 96" "n \<le> 64" "n \<le> length ps" "p \<notin> set ps"
  shows "get_nonlinear_field (snd (set_bit_by_position m b p)) n ps = get_nonlinear_field m n ps"
  using assms by (intro get_nonlinear_cong) (auto simp: wbit_set_bit)

lemma wbit_set_linear_other [codec_laws]:
  assumes "fb + n \<le> Length m" "Length m \<le> 96" "q < fb \<or> fb + n \<le> q"
  shows "wbit (snd (set_linear_field m v fb n)) q = wbit m q"
  using assms by (auto simp: set_linear_ok)

lemma get_set_nonlinear_same [codec_laws]:
  assumes "n = length ps" "\<forall>p\<in>set ps. p < Length m" "Length m \<le> 96" "distinct ps" "n \<le> 64"
  shows "get_nonlinear_field (snd (set_nonlinear_field m v n ps)) n ps = take_bit n v"
  using assms(5) set_nonlinear_ok(3) [OF assms(1-4)]
  by (intro bit_word_eqI) (auto simp: get_nonlinear_bit bit_take_bit_iff Suc_diff_Suc)

lemma get_set_nonlinear_other [codec_laws]:
  assumes "n' = length ps'" "\<forall>p\<in>set ps'. p < Length m" "Length m \<le> 96" "distinct ps'"
    and "n \<le> 64" "n \<le> length ps" "\<forall>p\<in>set ps. p \<notin> set ps'"
  shows "get_nonlinear_field (snd (set_nonlinear_field m v n' ps')) n ps = get_nonlinear_field m n ps"
  using assms by (intro get_nonlinear_cong) (auto simp: set_nonlinear_ok)

text \<open>A field that does not fit is refused and nothing is written.\<close>

lemma set_position_simps:
  "fst (set_position v ps i s) =
     (fst s \<and> fst (set_bit_by_position (snd s) (bit v (length ps - i - 1)) (ps ! i)))"
  "snd (set_position v ps i s) =
     snd (set_bit_by_position (snd s) (bit v (length ps - i - 1)) (ps ! i))"
  by (simp_all add: set_position_def case_prod_beta Let_def)

lemma set_position_fold_Length:
  "Length (snd (fold (set_position v ps) xs s)) = Length (snd s)"
  by (induction xs arbitrary: s) (simp_all add: set_position_simps)

lemma set_position_fold_refused:
  "i < k \<Longrightarrow> ps ! i \<ge> Length m \<Longrightarrow> \<not> fst (fold (set_position v ps) [0..<k] (r, m))"
proof (induction k)
  case (Suc k)
  then show ?case
    using set_position_fold_Length [of v ps "[0..<k]" "(r, m)"]
    by (cases "i = k") (auto simp: set_position_simps set_bit_by_position_def)
qed simp

lemma set_linear_refused:
  assumes "Length m < fb + n" "fb + n \<le> 256" "0 < n"
  shows "set_linear_field m v fb n = (False, m)"
proof -
  have "\<not> fst (set_positions m v [fb..<fb + n])"
    unfolding set_positions_def
    by (rule set_position_fold_refused [of "n - 1"]) (use assms in auto)
  then show ?thesis
    using assms by (simp add: set_linear_positions case_prod_beta Let_def)
qed

subsection \<open>The header\<close>

text \<open>The header lies above the message, so it changes no bit and no field of it.\<close>

lemma add_HID_header_Length [simp]: "Length (snd (add_HID_header m)) = Length m"
  by (simp add: add_HID_header_def Let_def)

lemma add_HID_header_ok: "fst (add_HID_header m) = (0 < Length m \<and> Length m \<le> 84)"
  by (simp add: add_HID_header_def Let_def)

lemma bit_09e00000: "bit (0x09e00000 :: u32) i = (i \<in> {21, 22, 23, 24, 27})"
proof (cases "i < 32")
  case True
  then show ?thesis
    by (rule less_list_all) (unfold upt_32 list.pred_inject, intro conjI; simp)
qed auto

lemma bit_20: "bit (0x20 :: u32) i = (i = 5)"
  using bit_exp_iff [where 'a = "32 word", of 5 i] by (auto dest: bit_imp_le_length)

lemma bit_10000: "bit (0x10000 :: u32) i = (i = 16)"
  using bit_exp_iff [where 'a = "32 word", of 16 i] by (auto dest: bit_imp_le_length)

lemma header_mraw:
  assumes "i < Length m"
  shows "mraw (snd (add_HID_header m)) i = mraw m i"
proof -
  have "Length m \<le> 84 \<Longrightarrow> \<not> bit (0x09e00000 :: u32) (i - 64)"
    using assms by (simp only: bit_09e00000) auto
  moreover have "Length m < 37 \<Longrightarrow> \<not> bit (0x20 :: u32) (i - 32)"
    using assms by (simp only: bit_20)
  ultimately show ?thesis
    using assms unfolding add_HID_header_def Let_def mraw_def
    by (auto simp: bit_or_iff bit_exp_iff bit_10000 simp del: bit_numeral_word_iff)
qed

lemma header_wbit [codec_laws]: "wbit (snd (add_HID_header m)) q = wbit m q"
  by (cases "q < Length m") (simp_all add: wbit_def header_mraw)

lemma header_linear [codec_laws]: "get_linear_field (snd (add_HID_header m)) fb n = get_linear_field m fb n"
  by (simp add: get_linear_field_def codec_laws cong: fold_cong)

lemma header_nonlinear [codec_laws]:
  "get_nonlinear_field (snd (add_HID_header m)) n ps = get_nonlinear_field m n ps"
  by (simp add: get_nonlinear_field_def codec_laws cong: fold_cong)

end
