(* ===== verification/Wiegand_Formats.thy ===== *)
theory Wiegand_Formats
  imports Wiegand_Utils
begin

text \<open>
  \<open>client/src/wiegand_formats.c\<close>: the 43 Wiegand card formats, each a pair of a \<open>Pack\<close> and an
  \<open>Unpack\<close> function and a descriptor of its fields, and the functions that search the format
  table. A \<open>Pack\<close> function gets the index of its own format, the card and the message object and
  returns the result, the card (one format writes into it) and the message; an \<open>Unpack\<close>
  function returns the result and the card. The descriptors are a table of their own,
  because \<open>validate_card_limit\<close>, which every \<open>Pack\<close> calls, reads them.
\<close>

subsection \<open>Descriptors\<close>

record cardformatdescriptor =
  hasCardNumber :: bool
  hasFacilityCode :: bool
  hasIssueLevel :: bool
  hasOEMCode :: bool
  hasParity :: bool
  MaxFC :: u32
  MaxCN :: u64
  MaxIL :: u32
  MaxOEM :: u32

definition descriptor ::
  "bool \<Rightarrow> bool \<Rightarrow> bool \<Rightarrow> bool \<Rightarrow> bool \<Rightarrow> u32 \<Rightarrow> u64 \<Rightarrow> u32 \<Rightarrow> u32 \<Rightarrow> cardformatdescriptor" where
  "descriptor cn fc il oem par mfc mcn mil moem =
    \<lparr>hasCardNumber = cn, hasFacilityCode = fc, hasIssueLevel = il, hasOEMCode = oem,
     hasParity = par, MaxFC = mfc, MaxCN = mcn, MaxIL = mil, MaxOEM = moem\<rparr>"

text \<open>The column \<open>Fields\<close> of \<open>FormatTable\<close>.\<close>

definition FormatFields :: "cardformatdescriptor list" where
  "FormatFields = [
    descriptor True True False False True 0xff 0xffff 0x0 0x0, \<comment> \<open>H10301\<close>
    descriptor True True False False True 0xfff 0xfff 0x0 0x0, \<comment> \<open>ind26\<close>
    descriptor True True False False False 0x1fff 0x3fff 0x0 0x0, \<comment> \<open>ind27\<close>
    descriptor True True False False False 0x1fff 0x3fff 0x0 0x0, \<comment> \<open>indasc27\<close>
    descriptor True True False False False 0x7ff 0xffff 0x0 0x0, \<comment> \<open>Tecom27\<close>
    descriptor True True False False True 0xff 0x7fff 0x0 0x0, \<comment> \<open>2804W\<close>
    descriptor True True False False False 0x1fff 0xffff 0x0 0x0, \<comment> \<open>ind29\<close>
    descriptor True True False False True 0xfff 0xffff 0x0 0x0, \<comment> \<open>ATSW30\<close>
    descriptor True True False False False 0xf 0x7fffff 0x0 0x0, \<comment> \<open>ADT31\<close>
    descriptor True False False False False 0x0 0x3fff 0x0 0x0, \<comment> \<open>HCP32\<close>
    descriptor True True False False False 0xfff 0x1fffffff 0x0 0x0, \<comment> \<open>HPP32\<close>
    descriptor True True True False True 0xff 0xffff 0x1f 0x0, \<comment> \<open>Kastle\<close>
    descriptor True True False False False 0xff 0xffff 0x0 0x0, \<comment> \<open>Kantech\<close>
    descriptor True True False False False 0xfff 0xffff 0x0 0x0, \<comment> \<open>WIE32\<close>
    descriptor True True False False True 0x7f 0xffffff 0x0 0x0, \<comment> \<open>D10202\<close>
    descriptor True True False False True 0xffff 0xffff 0x0 0x0, \<comment> \<open>H10306\<close>
    descriptor True True False False True 0xffff 0xffff 0x0 0x0, \<comment> \<open>N10002\<close>
    descriptor True True False False False 0x3ff 0xffff 0x0 0x0, \<comment> \<open>Optus34\<close>
    descriptor True True True False False 0x3ff 0xffff 0x7 0x0, \<comment> \<open>SMP34\<close>
    descriptor True True False False True 0xff 0xffffff 0x0 0x0, \<comment> \<open>BQT34\<close>
    descriptor True True False False True 0xfff 0xfffff 0x0 0x0, \<comment> \<open>C1k35s\<close>
    descriptor True True False True True 0xff 0xffff 0x0 0x3ff, \<comment> \<open>C15001\<close>
    descriptor True True True False True 0xff 0xffffff 0x3 0x0, \<comment> \<open>S12906\<close>
    descriptor True True False False True 0xff 0xffffff 0x0 0x0, \<comment> \<open>S12906b\<close>
    descriptor True True False False True 0x3ffff 0xffff 0x0 0x0, \<comment> \<open>Sie36\<close>
    descriptor True False False False True 0x0 99999999 0x0 0x0, \<comment> \<open>H10320\<close>
    descriptor True False False False True 0x0 0x7ffffffff 0x0 0x0, \<comment> \<open>H10302\<close>
    descriptor True True False False True 0xffff 0x7ffff 0x0 0x0, \<comment> \<open>H10304\<close>
    descriptor True True False False False 0x1fff 0x3ffff 0x0 0x0, \<comment> \<open>P10004\<close>
    descriptor True False False False True 0x0 0x7ffff 0x0 0x0, \<comment> \<open>HGen37\<close>
    descriptor True True False False True 0xf 0x1fffffff 0x0 0x0, \<comment> \<open>MDI37\<close>
    descriptor True True True False True 0xfff 0x3ffff 0x7 0x0, \<comment> \<open>BQT38\<close>
    descriptor True True False True True 0x3ff 0xffffff 0x0 0x7, \<comment> \<open>ISCS\<close>
    descriptor True True False False True 0xffff 0xfffff 0x0 0x0, \<comment> \<open>PW39\<close>
    descriptor True True False False False 0xfff 0xffff 0x0 0x0, \<comment> \<open>P10001\<close>
    descriptor True False False False False 0x0 0xffffffffff 0x0 0x0, \<comment> \<open>Casi40\<close>
    descriptor True True False False True 0x3ff 0xfffffff 0x0 0x0, \<comment> \<open>Verkada40\<close>
    descriptor True True False True True 0xfff 0xfffff 0x0 0x7f, \<comment> \<open>BC40\<close>
    descriptor True True True False True 0xffff 0xfffff 0xf 0x0, \<comment> \<open>Defcon32\<close>
    descriptor True True False False True 0x3fff 0x3fffffff 0x0 0x0, \<comment> \<open>H800002\<close>
    descriptor True True False False True 0x3fffff 0x7fffff 0x0 0x0, \<comment> \<open>C1k48s\<close>
    descriptor True True False False True 0xfffff 0x3ffffffff 0x0 0x0, \<comment> \<open>Avig56\<close>
    descriptor True True False False False 0xffffff 0xffffffff 0x0 0x0, \<comment> \<open>IR56\<close>
    descriptor False False False False False 0 0 0 0]"

definition validate_card_limit :: "int \<Rightarrow> wiegand_card \<Rightarrow> bool" where
  "validate_card_limit format_idx crd =
    (let card_descriptor = FormatFields ! nat format_idx in
     if \<not> hasCardNumber card_descriptor \<and> CardNumber crd \<noteq> 0 then False
     else if \<not> hasFacilityCode card_descriptor \<and> FacilityCode crd \<noteq> 0 then False
     else if \<not> hasIssueLevel card_descriptor \<and> IssueLevel crd \<noteq> 0 then False
     else if \<not> hasOEMCode card_descriptor \<and> OEM crd \<noteq> 0 then False
     else \<not> (FacilityCode crd > MaxFC card_descriptor \<or>
              CardNumber crd > MaxCN card_descriptor \<or>
              IssueLevel crd > MaxIL card_descriptor \<or>
              OEM crd > MaxOEM card_descriptor))"

subsection \<open>The formats\<close>

type_synonym pack_fun =
  "int \<Rightarrow> wiegand_card \<Rightarrow> wiegand_message \<Rightarrow> bool \<Rightarrow> bool \<times> wiegand_card \<times> wiegand_message"

type_synonym unpack_fun = "wiegand_message \<Rightarrow> wiegand_card \<Rightarrow> bool \<times> wiegand_card"

text \<open>The last lines of every \<open>Pack\<close>: \<open>if (preamble) return add_HID_header(packed); return true;\<close>\<close>

definition finish_pack ::
  "bool \<Rightarrow> wiegand_card \<Rightarrow> wiegand_message \<Rightarrow> bool \<times> wiegand_card \<times> wiegand_message" where
  "finish_pack preamble crd packed =
    (if preamble then let (ok, packed) = add_HID_header packed in (ok, crd, packed)
     else (True, crd, packed))"

text \<open>\<open>for (int i = start; i < start + length; i += 2)\<close>\<close>

definition step_parity_check :: "wiegand_message \<Rightarrow> nat \<Rightarrow> nat \<Rightarrow> bool \<Rightarrow> bool" where
  "step_parity_check packed start len even_parity =
    fold (\<lambda>k parity.
        let i = start + 2 * k;
            bit1 = get_bit_by_position packed i \<noteq> 0;
            bit2 = get_bit_by_position packed (i + 1) \<noteq> 0
        in parity \<noteq> (bit1 \<noteq> bit2)) [0..<(len + 1) div 2] even_parity"

definition Pack_Defcon32 :: pack_fun where
  "Pack_Defcon32 format_idx crd packed preamble =
    (let packed = message0 in
     if \<not> validate_card_limit format_idx crd then (False, crd, packed)
     else
       let packed = packed\<lparr>Length := 42\<rparr>;
           packed = snd (set_linear_field packed (CardNumber crd) 21 20);
           packed = snd (set_linear_field packed (ucast (IssueLevel crd)) 17 4);
           packed = snd (set_linear_field packed (ucast (FacilityCode crd)) 1 16);
           packed = snd (set_bit_by_position packed (evenparity32 (ucast (get_nonlinear_field packed 10 [2, 4, 6, 8, 10, 12, 14, 16, 18, 20])) \<noteq> 0) 0);
           packed = snd (set_bit_by_position packed (oddparity32 (ucast (get_nonlinear_field packed 10 [21, 23, 25, 27, 29, 31, 33, 35, 37, 39])) \<noteq> 0) 41)
       in finish_pack preamble crd packed)"

definition Unpack_Defcon32 :: unpack_fun where
  "Unpack_Defcon32 packed crd =
    (if Length packed \<noteq> 42 then (False, crd)
     else
       let crd = card0;
           crd = crd\<lparr>FacilityCode := ucast (get_linear_field packed 1 16)\<rparr>;
           crd = crd\<lparr>IssueLevel := ucast (get_linear_field packed 17 4)\<rparr>;
           crd = crd\<lparr>CardNumber := get_linear_field packed 21 20\<rparr>;
           crd = crd\<lparr>ParityValid :=
             get_bit_by_position packed 41 = oddparity32 (ucast (get_nonlinear_field packed 10 [21, 23, 25, 27, 29, 31, 33, 35, 37, 39])) \<and>
             get_bit_by_position packed 0 = evenparity32 (ucast (get_nonlinear_field packed 10 [2, 4, 6, 8, 10, 12, 14, 16, 18, 20]))\<rparr>
       in (True, crd))"

definition Pack_H10301 :: pack_fun where
  "Pack_H10301 format_idx crd packed preamble =
    (let packed = message0 in
     if \<not> validate_card_limit format_idx crd then (False, crd, packed)
     else
       let packed = packed\<lparr>Length := 26\<rparr>;
           packed = packed\<lparr>Bot := Bot packed OR ucast (shl (CardNumber crd AND 0xFFFF) 1)\<rparr>;
           packed = packed\<lparr>Bot := Bot packed OR shl (FacilityCode crd AND 0xFF) 17\<rparr>;
           packed = packed\<lparr>Bot := Bot packed OR ucast (oddparity32 (shr (Bot packed) 1 AND 0xFFF))\<rparr>;
           packed = packed\<lparr>Bot := Bot packed OR shl (ucast (evenparity32 (shr (Bot packed) 13 AND 0xFFF))) 25\<rparr>
       in finish_pack preamble crd packed)"

definition Unpack_H10301 :: unpack_fun where
  "Unpack_H10301 packed crd =
    (if Length packed \<noteq> 26 then (False, crd)
     else
       let crd = card0;
           crd = crd\<lparr>CardNumber := ucast (shr (Bot packed) 1 AND 0xFFFF)\<rparr>;
           crd = crd\<lparr>FacilityCode := shr (Bot packed) 17 AND 0xFF\<rparr>;
           crd = crd\<lparr>ParityValid :=
             ucast (oddparity32 (shr (Bot packed) 1 AND 0xFFF)) = Bot packed AND 1 \<and>
             ucast (evenparity32 (shr (Bot packed) 13 AND 0xFFF)) = shr (Bot packed) 25 AND 1\<rparr>
       in (True, crd))"

definition Pack_ind26 :: pack_fun where
  "Pack_ind26 format_idx crd packed preamble =
    (let packed = message0 in
     if \<not> validate_card_limit format_idx crd then (False, crd, packed)
     else
       let packed = packed\<lparr>Length := 26\<rparr>;
           packed = snd (set_linear_field packed (ucast (FacilityCode crd)) 1 12);
           packed = snd (set_linear_field packed (CardNumber crd) 13 12);
           packed = snd (set_bit_by_position packed (evenparity32 (ucast (get_linear_field packed 1 12)) \<noteq> 0) 0);
           packed = snd (set_bit_by_position packed (oddparity32 (ucast (get_linear_field packed 13 12)) \<noteq> 0) 25)
       in finish_pack preamble crd packed)"

definition Unpack_ind26 :: unpack_fun where
  "Unpack_ind26 packed crd =
    (if Length packed \<noteq> 26 then (False, crd)
     else
       let crd = card0;
           crd = crd\<lparr>FacilityCode := ucast (get_linear_field packed 1 12)\<rparr>;
           crd = crd\<lparr>CardNumber := get_linear_field packed 13 12\<rparr>;
           crd = crd\<lparr>ParityValid :=
             get_bit_by_position packed 0 = evenparity32 (ucast (get_linear_field packed 1 12)) \<and>
             get_bit_by_position packed 25 = oddparity32 (ucast (get_linear_field packed 13 12))\<rparr>
       in (True, crd))"

definition Pack_Tecom27 :: pack_fun where
  "Pack_Tecom27 format_idx crd packed preamble =
    (let packed = message0 in
     if \<not> validate_card_limit format_idx crd then (False, crd, packed)
     else
       let packed = packed\<lparr>Length := 27\<rparr>;
           packed = snd (set_nonlinear_field packed (ucast (FacilityCode crd)) 11 [15, 19, 24, 23, 22, 18, 6, 10, 14, 3, 2]);
           packed = snd (set_nonlinear_field packed (CardNumber crd) 16 [0, 1, 13, 12, 9, 26, 20, 16, 17, 21, 25, 7, 8, 11, 4, 5])
       in finish_pack preamble crd packed)"

definition Unpack_Tecom27 :: unpack_fun where
  "Unpack_Tecom27 packed crd =
    (if Length packed \<noteq> 27 then (False, crd)
     else
       let crd = card0;
           crd = crd\<lparr>CardNumber := get_nonlinear_field packed 16 [0, 1, 13, 12, 9, 26, 20, 16, 17, 21, 25, 7, 8, 11, 4, 5]\<rparr>;
           crd = crd\<lparr>FacilityCode := ucast (get_nonlinear_field packed 11 [15, 19, 24, 23, 22, 18, 6, 10, 14, 3, 2])\<rparr>
       in (True, crd))"

definition Pack_ind27 :: pack_fun where
  "Pack_ind27 format_idx crd packed preamble =
    (let packed = message0 in
     if \<not> validate_card_limit format_idx crd then (False, crd, packed)
     else
       let packed = packed\<lparr>Length := 27\<rparr>;
           packed = snd (set_linear_field packed (ucast (FacilityCode crd)) 0 13);
           packed = snd (set_linear_field packed (CardNumber crd) 13 14)
       in finish_pack preamble crd packed)"

definition Unpack_ind27 :: unpack_fun where
  "Unpack_ind27 packed crd =
    (if Length packed \<noteq> 27 then (False, crd)
     else
       let crd = card0;
           crd = crd\<lparr>FacilityCode := ucast (get_linear_field packed 0 13)\<rparr>;
           crd = crd\<lparr>CardNumber := get_linear_field packed 13 14\<rparr>
       in (True, crd))"

definition Pack_indasc27 :: pack_fun where
  "Pack_indasc27 format_idx crd packed preamble =
    (let packed = message0 in
     if \<not> validate_card_limit format_idx crd then (False, crd, packed)
     else
       let packed = packed\<lparr>Length := 27\<rparr>;
           packed = snd (set_nonlinear_field packed (ucast (FacilityCode crd)) 13 [9, 4, 6, 5, 0, 7, 19, 8, 10, 16, 24, 12, 22]);
           packed = snd (set_nonlinear_field packed (CardNumber crd) 14 [26, 1, 3, 15, 14, 17, 20, 13, 25, 2, 18, 21, 11, 23])
       in finish_pack preamble crd packed)"

definition Unpack_indasc27 :: unpack_fun where
  "Unpack_indasc27 packed crd =
    (if Length packed \<noteq> 27 then (False, crd)
     else
       let crd = card0;
           crd = crd\<lparr>FacilityCode := ucast (get_nonlinear_field packed 13 [9, 4, 6, 5, 0, 7, 19, 8, 10, 16, 24, 12, 22])\<rparr>;
           crd = crd\<lparr>CardNumber := get_nonlinear_field packed 14 [26, 1, 3, 15, 14, 17, 20, 13, 25, 2, 18, 21, 11, 23]\<rparr>
       in (True, crd))"

definition Pack_2804W :: pack_fun where
  "Pack_2804W format_idx crd packed preamble =
    (let packed = message0 in
     if \<not> validate_card_limit format_idx crd then (False, crd, packed)
     else
       let packed = packed\<lparr>Length := 28\<rparr>;
           packed = snd (set_linear_field packed (ucast (FacilityCode crd)) 4 8);
           packed = snd (set_linear_field packed (CardNumber crd) 12 15);
           packed = snd (set_bit_by_position packed (oddparity32 (ucast (get_nonlinear_field packed 16 [4, 5, 7, 8, 10, 11, 13, 14, 16, 17, 19, 20, 22, 23, 25, 26])) \<noteq> 0) 2);
           packed = snd (set_bit_by_position packed (evenparity32 (ucast (get_linear_field packed 1 13)) \<noteq> 0) 0);
           packed = snd (set_bit_by_position packed (oddparity32 (ucast (get_linear_field packed 0 27)) \<noteq> 0) 27)
       in finish_pack preamble crd packed)"

definition Unpack_2804W :: unpack_fun where
  "Unpack_2804W packed crd =
    (if Length packed \<noteq> 28 then (False, crd)
     else
       let crd = card0;
           crd = crd\<lparr>FacilityCode := ucast (get_linear_field packed 4 8)\<rparr>;
           crd = crd\<lparr>CardNumber := get_linear_field packed 12 15\<rparr>;
           crd = crd\<lparr>ParityValid :=
             get_bit_by_position packed 0 = evenparity32 (ucast (get_linear_field packed 1 13)) \<and>
             get_bit_by_position packed 2 = oddparity32 (ucast (get_nonlinear_field packed 16 [4, 5, 7, 8, 10, 11, 13, 14, 16, 17, 19, 20, 22, 23, 25, 26])) \<and>
             get_bit_by_position packed 27 = oddparity32 (ucast (get_linear_field packed 0 27))\<rparr>
       in (True, crd))"

definition Pack_ind29 :: pack_fun where
  "Pack_ind29 format_idx crd packed preamble =
    (let packed = message0 in
     if \<not> validate_card_limit format_idx crd then (False, crd, packed)
     else
       let packed = packed\<lparr>Length := 29\<rparr>;
           packed = snd (set_linear_field packed (ucast (FacilityCode crd)) 0 13);
           packed = snd (set_linear_field packed (CardNumber crd) 13 16)
       in finish_pack preamble crd packed)"

definition Unpack_ind29 :: unpack_fun where
  "Unpack_ind29 packed crd =
    (if Length packed \<noteq> 29 then (False, crd)
     else
       let crd = card0;
           crd = crd\<lparr>FacilityCode := ucast (get_linear_field packed 0 13)\<rparr>;
           crd = crd\<lparr>CardNumber := get_linear_field packed 13 16\<rparr>
       in (True, crd))"

definition Pack_ATSW30 :: pack_fun where
  "Pack_ATSW30 format_idx crd packed preamble =
    (let packed = message0 in
     if \<not> validate_card_limit format_idx crd then (False, crd, packed)
     else
       let packed = packed\<lparr>Length := 30\<rparr>;
           packed = snd (set_linear_field packed (ucast (FacilityCode crd)) 1 12);
           packed = snd (set_linear_field packed (CardNumber crd) 13 16);
           packed = snd (set_bit_by_position packed (evenparity32 (ucast (get_linear_field packed 1 12)) \<noteq> 0) 0);
           packed = snd (set_bit_by_position packed (oddparity32 (ucast (get_linear_field packed 13 16)) \<noteq> 0) 29)
       in finish_pack preamble crd packed)"

definition Unpack_ATSW30 :: unpack_fun where
  "Unpack_ATSW30 packed crd =
    (if Length packed \<noteq> 30 then (False, crd)
     else
       let crd = card0;
           crd = crd\<lparr>FacilityCode := ucast (get_linear_field packed 1 12)\<rparr>;
           crd = crd\<lparr>CardNumber := get_linear_field packed 13 16\<rparr>;
           crd = crd\<lparr>ParityValid :=
             get_bit_by_position packed 0 = evenparity32 (ucast (get_linear_field packed 1 12)) \<and>
             get_bit_by_position packed 29 = oddparity32 (ucast (get_linear_field packed 13 16))\<rparr>
       in (True, crd))"

definition Pack_ADT31 :: pack_fun where
  "Pack_ADT31 format_idx crd packed preamble =
    (let packed = message0 in
     if \<not> validate_card_limit format_idx crd then (False, crd, packed)
     else
       let packed = packed\<lparr>Length := 31\<rparr>;
           packed = snd (set_linear_field packed (ucast (FacilityCode crd)) 1 4);
           packed = snd (set_linear_field packed (CardNumber crd) 5 23)
       in finish_pack preamble crd packed)"

definition Unpack_ADT31 :: unpack_fun where
  "Unpack_ADT31 packed crd =
    (if Length packed \<noteq> 31 then (False, crd)
     else
       let crd = card0;
           crd = crd\<lparr>FacilityCode := ucast (get_linear_field packed 1 4)\<rparr>;
           crd = crd\<lparr>CardNumber := get_linear_field packed 5 23\<rparr>
       in (True, crd))"

definition Pack_hcp32 :: pack_fun where
  "Pack_hcp32 format_idx crd packed preamble =
    (let packed = message0 in
     if \<not> validate_card_limit format_idx crd then (False, crd, packed)
     else
       let packed = packed\<lparr>Length := 32\<rparr>;
           packed = snd (set_linear_field packed (CardNumber crd) 1 24)
       in finish_pack preamble crd packed)"

definition Unpack_hcp32 :: unpack_fun where
  "Unpack_hcp32 packed crd =
    (if Length packed \<noteq> 32 then (False, crd)
     else
       let crd = card0;
           crd = crd\<lparr>CardNumber := get_linear_field packed 1 24\<rparr>
       in (True, crd))"

definition Pack_hpp32 :: pack_fun where
  "Pack_hpp32 format_idx crd packed preamble =
    (let packed = message0 in
     if \<not> validate_card_limit format_idx crd then (False, crd, packed)
     else
       let packed = packed\<lparr>Length := 32\<rparr>;
           packed = snd (set_linear_field packed (ucast (FacilityCode crd)) 1 12);
           packed = snd (set_linear_field packed (CardNumber crd) 13 29)
       in finish_pack preamble crd packed)"

definition Unpack_hpp32 :: unpack_fun where
  "Unpack_hpp32 packed crd =
    (if Length packed \<noteq> 32 then (False, crd)
     else
       let crd = card0;
           crd = crd\<lparr>FacilityCode := ucast (get_linear_field packed 1 12)\<rparr>;
           crd = crd\<lparr>CardNumber := get_linear_field packed 13 29\<rparr>
       in (True, crd))"

definition Pack_wie32 :: pack_fun where
  "Pack_wie32 format_idx crd packed preamble =
    (let packed = message0 in
     if \<not> validate_card_limit format_idx crd then (False, crd, packed)
     else
       let packed = packed\<lparr>Length := 32\<rparr>;
           packed = snd (set_linear_field packed (ucast (FacilityCode crd)) 4 12);
           packed = snd (set_linear_field packed (CardNumber crd) 16 16)
       in finish_pack preamble crd packed)"

definition Unpack_wie32 :: unpack_fun where
  "Unpack_wie32 packed crd =
    (if Length packed \<noteq> 32 then (False, crd)
     else
       let crd = card0;
           crd = crd\<lparr>FacilityCode := ucast (get_linear_field packed 4 12)\<rparr>;
           crd = crd\<lparr>CardNumber := get_linear_field packed 16 16\<rparr>
       in (True, crd))"

definition Pack_Kastle :: pack_fun where
  "Pack_Kastle format_idx crd packed preamble =
    (let packed = message0 in
     if \<not> validate_card_limit format_idx crd then (False, crd, packed)
     else
       let packed = packed\<lparr>Length := 32\<rparr>;
           packed = snd (set_bit_by_position packed True 1);
           packed = snd (set_linear_field packed (ucast (IssueLevel crd)) 2 5);
           packed = snd (set_linear_field packed (ucast (FacilityCode crd)) 7 8);
           packed = snd (set_linear_field packed (CardNumber crd) 15 16);
           packed = snd (set_bit_by_position packed (evenparity32 (ucast (get_linear_field packed 1 16)) \<noteq> 0) 0);
           packed = snd (set_bit_by_position packed (oddparity32 (ucast (get_linear_field packed 14 17)) \<noteq> 0) 31)
       in finish_pack preamble crd packed)"

definition Unpack_Kastle :: unpack_fun where
  "Unpack_Kastle packed crd =
    (if Length packed \<noteq> 32 then (False, crd)
     else if get_bit_by_position packed 1 \<noteq> 1 then (False, crd)
     else
       let crd = card0;
           crd = crd\<lparr>IssueLevel := ucast (get_linear_field packed 2 5)\<rparr>;
           crd = crd\<lparr>FacilityCode := ucast (get_linear_field packed 7 8)\<rparr>;
           crd = crd\<lparr>CardNumber := get_linear_field packed 15 16\<rparr>;
           crd = crd\<lparr>ParityValid :=
             get_bit_by_position packed 0 = evenparity32 (ucast (get_linear_field packed 1 16)) \<and>
             get_bit_by_position packed 31 = oddparity32 (ucast (get_linear_field packed 14 17))\<rparr>
       in (True, crd))"

definition Pack_Kantech :: pack_fun where
  "Pack_Kantech format_idx crd packed preamble =
    (let packed = message0 in
     if \<not> validate_card_limit format_idx crd then (False, crd, packed)
     else
       let packed = packed\<lparr>Length := 32\<rparr>;
           packed = snd (set_linear_field packed (ucast (FacilityCode crd)) 7 8);
           packed = snd (set_linear_field packed (CardNumber crd) 15 16)
       in finish_pack preamble crd packed)"

definition Unpack_Kantech :: unpack_fun where
  "Unpack_Kantech packed crd =
    (if Length packed \<noteq> 32 then (False, crd)
     else
       let crd = card0;
           crd = crd\<lparr>FacilityCode := ucast (get_linear_field packed 7 8)\<rparr>;
           crd = crd\<lparr>CardNumber := get_linear_field packed 15 16\<rparr>
       in (True, crd))"

definition Pack_D10202 :: pack_fun where
  "Pack_D10202 format_idx crd packed preamble =
    (let packed = message0 in
     if \<not> validate_card_limit format_idx crd then (False, crd, packed)
     else
       let packed = packed\<lparr>Length := 33\<rparr>;
           packed = snd (set_linear_field packed (ucast (FacilityCode crd)) 1 7);
           packed = snd (set_linear_field packed (CardNumber crd) 8 24);
           packed = snd (set_bit_by_position packed (evenparity32 (ucast (get_linear_field packed 1 16)) \<noteq> 0) 0);
           packed = snd (set_bit_by_position packed (oddparity32 (ucast (get_linear_field packed 16 16)) \<noteq> 0) 32)
       in finish_pack preamble crd packed)"

definition Unpack_D10202 :: unpack_fun where
  "Unpack_D10202 packed crd =
    (if Length packed \<noteq> 33 then (False, crd)
     else
       let crd = card0;
           crd = crd\<lparr>CardNumber := get_linear_field packed 8 24\<rparr>;
           crd = crd\<lparr>FacilityCode := ucast (get_linear_field packed 1 7)\<rparr>;
           crd = crd\<lparr>ParityValid :=
             get_bit_by_position packed 0 = evenparity32 (ucast (get_linear_field packed 1 16)) \<and>
             get_bit_by_position packed 32 = oddparity32 (ucast (get_linear_field packed 16 16))\<rparr>
       in (True, crd))"

definition Pack_H10306 :: pack_fun where
  "Pack_H10306 format_idx crd packed preamble =
    (let packed = message0 in
     if \<not> validate_card_limit format_idx crd then (False, crd, packed)
     else
       let packed = packed\<lparr>Length := 34\<rparr>;
           packed = packed\<lparr>Bot := Bot packed OR ucast (shl (CardNumber crd AND 0xFFFF) 1)\<rparr>;
           packed = packed\<lparr>Bot := Bot packed OR shl (FacilityCode crd AND 0x7FFF) 17\<rparr>;
           packed = packed\<lparr>Mid := Mid packed OR shr (FacilityCode crd AND 0x8000) 15\<rparr>;
           packed = packed\<lparr>Mid := Mid packed OR
             shl (ucast (evenparity32 ((Mid packed AND 0x00000001) XOR (Bot packed AND 0xFFFE0000)))) 1\<rparr>;
           packed = packed\<lparr>Bot := Bot packed OR ucast (oddparity32 (Bot packed AND 0x0001FFFE))\<rparr>
       in finish_pack preamble crd packed)"

definition Unpack_H10306 :: unpack_fun where
  "Unpack_H10306 packed crd =
    (if Length packed \<noteq> 34 then (False, crd)
     else
       let crd = card0;
           crd = crd\<lparr>FacilityCode := ucast (get_linear_field packed 1 16)\<rparr>;
           crd = crd\<lparr>CardNumber := get_linear_field packed 17 16\<rparr>;
           crd = crd\<lparr>ParityValid :=
             get_bit_by_position packed 0 = evenparity32 (ucast (get_linear_field packed 1 16)) \<and>
             get_bit_by_position packed 33 = oddparity32 (ucast (get_linear_field packed 17 16))\<rparr>
       in (True, crd))"

definition Pack_N10002 :: pack_fun where
  "Pack_N10002 format_idx crd packed preamble =
    (let packed = message0 in
     if \<not> validate_card_limit format_idx crd then (False, crd, packed)
     else
       let packed = packed\<lparr>Length := 34\<rparr>;
           packed = snd (set_linear_field packed (ucast (FacilityCode crd)) 1 16);
           packed = snd (set_linear_field packed (CardNumber crd) 17 16);
           packed = snd (set_bit_by_position packed (evenparity32 (ucast (get_linear_field packed 1 16)) \<noteq> 0) 0);
           packed = snd (set_bit_by_position packed (oddparity32 (ucast (get_linear_field packed 17 16)) \<noteq> 0) 33)
       in finish_pack preamble crd packed)"

definition Unpack_N10002 :: unpack_fun where
  "Unpack_N10002 packed crd =
    (if Length packed \<noteq> 34 then (False, crd)
     else
       let crd = card0;
           crd = crd\<lparr>FacilityCode := ucast (get_linear_field packed 1 16)\<rparr>;
           crd = crd\<lparr>CardNumber := get_linear_field packed 17 16\<rparr>;
           crd = crd\<lparr>ParityValid :=
             get_bit_by_position packed 0 = evenparity32 (ucast (get_linear_field packed 1 16)) \<and>
             get_bit_by_position packed 33 = oddparity32 (ucast (get_linear_field packed 17 16))\<rparr>
       in (True, crd))"

definition Pack_C1k35s :: pack_fun where
  "Pack_C1k35s format_idx crd packed preamble =
    (let packed = message0 in
     if \<not> validate_card_limit format_idx crd then (False, crd, packed)
     else
       let packed = packed\<lparr>Length := 35\<rparr>;
           packed = packed\<lparr>Bot := Bot packed OR ucast (shl (CardNumber crd AND 0x000FFFFF) 1)\<rparr>;
           packed = packed\<lparr>Bot := Bot packed OR shl (FacilityCode crd AND 0x000007FF) 21\<rparr>;
           packed = packed\<lparr>Mid := Mid packed OR shr (FacilityCode crd AND 0x00000800) 11\<rparr>;
           packed = packed\<lparr>Mid := Mid packed OR
             shl (ucast (evenparity32 ((Mid packed AND 0x1) XOR (Bot packed AND 0xB6DB6DB6)))) 1\<rparr>;
           packed = packed\<lparr>Bot := Bot packed OR
             ucast (oddparity32 ((Mid packed AND 0x3) XOR (Bot packed AND 0x6DB6DB6C)))\<rparr>;
           packed = packed\<lparr>Mid := Mid packed OR
             shl (ucast (oddparity32 ((Mid packed AND 0x3) XOR (Bot packed AND 0xFFFFFFFF)))) 2\<rparr>
       in finish_pack preamble crd packed)"

definition Unpack_C1k35s :: unpack_fun where
  "Unpack_C1k35s packed crd =
    (if Length packed \<noteq> 35 then (False, crd)
     else
       let crd = card0;
           crd = crd\<lparr>CardNumber := ucast (shr (Bot packed) 1 AND 0x000FFFFF)\<rparr>;
           crd = crd\<lparr>FacilityCode := shl (Mid packed AND 1) 11 OR shr (Bot packed) 21\<rparr>;
           crd = crd\<lparr>ParityValid :=
             ucast (evenparity32 ((Mid packed AND 0x1) XOR (Bot packed AND 0xB6DB6DB6))) = shr (Mid packed) 1 AND 1 \<and>
             ucast (oddparity32 ((Mid packed AND 0x3) XOR (Bot packed AND 0x6DB6DB6C))) = shr (Bot packed) 0 AND 1 \<and>
             ucast (oddparity32 ((Mid packed AND 0x3) XOR (Bot packed AND 0xFFFFFFFF))) = shr (Mid packed) 2 AND 1\<rparr>
       in (True, crd))"

text \<open>
  The digits of H10320 are computed in \<open>double\<close> as \<open>CardNumber / pow(10, 7 - idx)\<close>. The card number
  is below \<open>10 ^ 8\<close> after \<open>validate_card_limit\<close>, so numerator and power are exact and the
  quotient is never within a rounding error below an integer: truncation is integer division.
\<close>

definition Pack_H10320 :: pack_fun where
  "Pack_H10320 format_idx crd packed preamble =
    (let packed = message0 in
     if \<not> validate_card_limit format_idx crd then (False, crd, packed)
     else
       let packed = packed\<lparr>Length := 37\<rparr>;
           packed = snd (set_bit_by_position packed True 0);
           packed = fold (\<lambda>idx packed.
             snd (set_linear_field packed (CardNumber crd div 10 ^ (7 - idx) mod 10) (idx * 4) 4)) [0..<8] packed;
           packed = snd (set_bit_by_position packed (evenparity32 (ucast (get_nonlinear_field packed 8 [0, 4, 8, 12, 16, 20, 24, 28])) \<noteq> 0) 32);
           packed = snd (set_bit_by_position packed (oddparity32 (ucast (get_nonlinear_field packed 8 [1, 5, 9, 13, 17, 21, 25, 29])) \<noteq> 0) 33);
           packed = snd (set_bit_by_position packed (evenparity32 (ucast (get_nonlinear_field packed 8 [2, 6, 10, 14, 18, 22, 28, 30])) \<noteq> 0) 34);
           packed = snd (set_bit_by_position packed (evenparity32 (ucast (get_nonlinear_field packed 8 [3, 7, 11, 15, 19, 23, 29, 31])) \<noteq> 0) 35)
       in finish_pack preamble crd packed)"

text \<open>The digit loop of \<open>Unpack_H10320\<close>, with its early return.\<close>

fun h10320_digits :: "wiegand_message \<Rightarrow> nat list \<Rightarrow> wiegand_card \<Rightarrow> bool \<times> wiegand_card" where
  "h10320_digits packed [] crd = (True, crd)"
| "h10320_digits packed (idx # idxs) crd =
    (let val = get_linear_field packed (idx * 4) 4 in
     if val > 9 then (False, crd\<lparr>CardNumber := 0\<rparr>)
     else h10320_digits packed idxs (crd\<lparr>CardNumber := CardNumber crd + val * 10 ^ (7 - idx)\<rparr>))"

definition Unpack_H10320 :: unpack_fun where
  "Unpack_H10320 packed crd =
    (if Length packed \<noteq> 37 then (False, crd)
     else if get_bit_by_position packed 0 \<noteq> 1 then (False, crd)
     else
       let (ok, crd) = h10320_digits packed [0..<8] card0 in
       if \<not> ok then (False, crd)
       else
       let crd = crd\<lparr>ParityValid :=
             get_bit_by_position packed 32 = evenparity32 (ucast (get_nonlinear_field packed 8 [0, 4, 8, 12, 16, 20, 24, 28])) \<and>
             get_bit_by_position packed 33 = oddparity32 (ucast (get_nonlinear_field packed 8 [1, 5, 9, 13, 17, 21, 25, 29])) \<and>
             get_bit_by_position packed 34 = evenparity32 (ucast (get_nonlinear_field packed 8 [2, 6, 10, 14, 18, 22, 28, 30])) \<and>
             get_bit_by_position packed 35 = evenparity32 (ucast (get_nonlinear_field packed 8 [3, 7, 11, 15, 19, 23, 29, 31]))\<rparr>
       in (True, crd))"

definition Pack_S12906 :: pack_fun where
  "Pack_S12906 format_idx crd packed preamble =
    (let packed = message0 in
     if \<not> validate_card_limit format_idx crd then (False, crd, packed)
     else
       let packed = packed\<lparr>Length := 36\<rparr>;
           packed = snd (set_linear_field packed (ucast (FacilityCode crd)) 1 8);
           packed = snd (set_linear_field packed (ucast (IssueLevel crd)) 9 2);
           packed = snd (set_linear_field packed (CardNumber crd) 11 24);
           packed = snd (set_bit_by_position packed (oddparity32 (ucast (get_linear_field packed 1 17)) \<noteq> 0) 0);
           packed = snd (set_bit_by_position packed (oddparity32 (ucast (get_linear_field packed 17 18)) \<noteq> 0) 35)
       in finish_pack preamble crd packed)"

definition Unpack_S12906 :: unpack_fun where
  "Unpack_S12906 packed crd =
    (if Length packed \<noteq> 36 then (False, crd)
     else
       let crd = card0;
           crd = crd\<lparr>FacilityCode := ucast (get_linear_field packed 1 8)\<rparr>;
           crd = crd\<lparr>IssueLevel := ucast (get_linear_field packed 9 2)\<rparr>;
           crd = crd\<lparr>CardNumber := get_linear_field packed 11 24\<rparr>;
           crd = crd\<lparr>ParityValid :=
             get_bit_by_position packed 0 = oddparity32 (ucast (get_linear_field packed 1 17)) \<and>
             get_bit_by_position packed 35 = oddparity32 (ucast (get_linear_field packed 17 18))\<rparr>
       in (True, crd))"

definition S12906b_odd_parity_bit_0 :: "nat list" where
  "S12906b_odd_parity_bit_0 = [1, 2, 4, 5, 7, 8, 12, 13, 15, 16, 18, 19, 21, 22, 24, 25, 27, 28, 30, 31, 33, 34]"

definition S12906b_even_parity_bit_9 :: "nat list" where
  "S12906b_even_parity_bit_9 = [2, 3, 5, 6, 8, 11, 13, 14, 16, 17, 19, 20, 22, 23, 25, 26, 28, 29, 31, 32, 34, 35]"

definition S12906b_even_parity_bit_10 :: "nat list" where
  "S12906b_even_parity_bit_10 = [1, 3, 4, 6, 7, 11, 12, 14, 15, 17, 18, 20, 21, 23, 24, 26, 27, 29, 30, 32, 33, 35]"

definition S12906b_BITS_USED_BY_PARITY :: nat where "S12906b_BITS_USED_BY_PARITY = 22"
definition S12906b_FACILITY_CODE :: u32 where "S12906b_FACILITY_CODE = 217"

definition Pack_S12906b :: pack_fun where
  "Pack_S12906b format_idx crd packed preamble =
    (let packed = message0 in
     if \<not> validate_card_limit format_idx crd then (False, crd, packed)
     else if FacilityCode crd \<noteq> S12906b_FACILITY_CODE then (False, crd, packed)
     else if IssueLevel crd \<noteq> 0 then (False, crd, packed)
     else if \<not> ParityValid crd then (False, crd, packed)
     else if OEM crd \<noteq> 0 then (False, crd, packed)
     else
       let packed = packed\<lparr>Length := 36\<rparr>;
           packed = snd (set_linear_field packed (ucast (FacilityCode crd)) 1 8);
           packed = snd (set_linear_field packed (CardNumber crd) 11 24);
           packed = snd (set_bit_by_position packed (oddparity32 (ucast (get_nonlinear_field packed S12906b_BITS_USED_BY_PARITY S12906b_odd_parity_bit_0)) \<noteq> 0) 0);
           packed = snd (set_bit_by_position packed (evenparity32 (ucast (get_nonlinear_field packed S12906b_BITS_USED_BY_PARITY S12906b_even_parity_bit_9)) \<noteq> 0) 9);
           packed = snd (set_bit_by_position packed (evenparity32 (ucast (get_nonlinear_field packed S12906b_BITS_USED_BY_PARITY S12906b_even_parity_bit_10)) \<noteq> 0) 10)
       in finish_pack preamble crd packed)"

definition Unpack_S12906b :: unpack_fun where
  "Unpack_S12906b packed crd =
    (let crd = card0 in
     if Length packed \<noteq> 36 then (False, crd)
     else
       let crd = crd\<lparr>FacilityCode := ucast (get_linear_field packed 1 8)\<rparr>;
           crd = crd\<lparr>CardNumber := get_linear_field packed 11 24\<rparr> in
       if FacilityCode crd \<noteq> S12906b_FACILITY_CODE then (False, crd)
       else
       let odd_1 = (get_bit_by_position packed 0 = oddparity32 (ucast (get_nonlinear_field packed S12906b_BITS_USED_BY_PARITY S12906b_odd_parity_bit_0)));
           even1 = (get_bit_by_position packed 9 = evenparity32 (ucast (get_nonlinear_field packed S12906b_BITS_USED_BY_PARITY S12906b_even_parity_bit_9)));
           even2 = (get_bit_by_position packed 10 = evenparity32 (ucast (get_nonlinear_field packed S12906b_BITS_USED_BY_PARITY S12906b_even_parity_bit_10)));
           crd = crd\<lparr>ParityValid := odd_1 \<and> even1 \<and> even2\<rparr>
       in (True, crd))"

definition Pack_Sie36 :: pack_fun where
  "Pack_Sie36 format_idx crd packed preamble =
    (let packed = message0 in
     if \<not> validate_card_limit format_idx crd then (False, crd, packed)
     else
       let packed = packed\<lparr>Length := 36\<rparr>;
           packed = snd (set_linear_field packed (ucast (FacilityCode crd)) 1 18);
           packed = snd (set_linear_field packed (CardNumber crd) 19 16);
           packed = snd (set_bit_by_position packed (oddparity32 (ucast (get_nonlinear_field packed 23 [1, 3, 4, 6, 7, 9, 10, 12, 13, 15, 16, 18, 19, 21, 22, 24, 25, 27, 28, 30, 31, 33, 34])) \<noteq> 0) 0);
           packed = snd (set_bit_by_position packed (evenparity32 (ucast (get_nonlinear_field packed 23 [1, 2, 4, 5, 7, 8, 10, 11, 13, 14, 16, 17, 19, 20, 22, 23, 25, 26, 28, 29, 31, 32, 34])) \<noteq> 0) 35)
       in finish_pack preamble crd packed)"

definition Unpack_Sie36 :: unpack_fun where
  "Unpack_Sie36 packed crd =
    (if Length packed \<noteq> 36 then (False, crd)
     else
       let crd = card0;
           crd = crd\<lparr>FacilityCode := ucast (get_linear_field packed 1 18)\<rparr>;
           crd = crd\<lparr>CardNumber := get_linear_field packed 19 16\<rparr>;
           crd = crd\<lparr>ParityValid :=
             get_bit_by_position packed 0 = oddparity32 (ucast (get_nonlinear_field packed 23 [1, 3, 4, 6, 7, 9, 10, 12, 13, 15, 16, 18, 19, 21, 22, 24, 25, 27, 28, 30, 31, 33, 34])) \<and>
             get_bit_by_position packed 35 = evenparity32 (ucast (get_nonlinear_field packed 23 [1, 2, 4, 5, 7, 8, 10, 11, 13, 14, 16, 17, 19, 20, 22, 23, 25, 26, 28, 29, 31, 32, 34]))\<rparr>
       in (True, crd))"

text \<open>\<open>Pack_C15001\<close> writes the default OEM back into the caller's card.\<close>

definition Pack_C15001 :: pack_fun where
  "Pack_C15001 format_idx crd packed preamble =
    (let packed = message0 in
     if \<not> validate_card_limit format_idx crd then (False, crd, packed)
     else
       let crd = (if OEM crd = 0 then crd\<lparr>OEM := 900\<rparr> else crd);
           packed = packed\<lparr>Length := 36\<rparr>;
           packed = snd (set_linear_field packed (ucast (OEM crd)) 1 10);
           packed = snd (set_linear_field packed (ucast (FacilityCode crd)) 11 8);
           packed = snd (set_linear_field packed (CardNumber crd) 19 16);
           packed = snd (set_bit_by_position packed (evenparity32 (ucast (get_linear_field packed 1 17)) \<noteq> 0) 0);
           packed = snd (set_bit_by_position packed (oddparity32 (ucast (get_linear_field packed 18 17)) \<noteq> 0) 35)
       in finish_pack preamble crd packed)"

definition Unpack_C15001 :: unpack_fun where
  "Unpack_C15001 packed crd =
    (if Length packed \<noteq> 36 then (False, crd)
     else
       let crd = card0;
           crd = crd\<lparr>OEM := ucast (get_linear_field packed 1 10)\<rparr>;
           crd = crd\<lparr>FacilityCode := ucast (get_linear_field packed 11 8)\<rparr>;
           crd = crd\<lparr>CardNumber := get_linear_field packed 19 16\<rparr>;
           crd = crd\<lparr>ParityValid :=
             get_bit_by_position packed 0 = evenparity32 (ucast (get_linear_field packed 1 17)) \<and>
             get_bit_by_position packed 35 = oddparity32 (ucast (get_linear_field packed 18 17))\<rparr>
       in (True, crd))"

definition Pack_H10302 :: pack_fun where
  "Pack_H10302 format_idx crd packed preamble =
    (let packed = message0 in
     if \<not> validate_card_limit format_idx crd then (False, crd, packed)
     else
       let packed = packed\<lparr>Length := 37\<rparr>;
           packed = snd (set_linear_field packed (CardNumber crd) 1 35);
           packed = snd (set_bit_by_position packed (evenparity32 (ucast (get_linear_field packed 1 18)) \<noteq> 0) 0);
           packed = snd (set_bit_by_position packed (oddparity32 (ucast (get_linear_field packed 18 18)) \<noteq> 0) 36)
       in finish_pack preamble crd packed)"

definition Unpack_H10302 :: unpack_fun where
  "Unpack_H10302 packed crd =
    (if Length packed \<noteq> 37 then (False, crd)
     else
       let crd = card0;
           crd = crd\<lparr>CardNumber := get_linear_field packed 1 35\<rparr>;
           crd = crd\<lparr>ParityValid :=
             get_bit_by_position packed 0 = evenparity32 (ucast (get_linear_field packed 1 18)) \<and>
             get_bit_by_position packed 36 = oddparity32 (ucast (get_linear_field packed 18 18))\<rparr>
       in (True, crd))"

definition Pack_P10004 :: pack_fun where
  "Pack_P10004 format_idx crd packed preamble =
    (let packed = message0 in
     if \<not> validate_card_limit format_idx crd then (False, crd, packed)
     else
       let packed = packed\<lparr>Length := 37\<rparr>;
           packed = snd (set_linear_field packed (ucast (FacilityCode crd)) 1 13);
           packed = snd (set_linear_field packed (CardNumber crd) 14 18)
       in finish_pack preamble crd packed)"

definition Unpack_P10004 :: unpack_fun where
  "Unpack_P10004 packed crd =
    (if Length packed \<noteq> 37 then (False, crd)
     else
       let crd = card0;
           crd = crd\<lparr>FacilityCode := ucast (get_linear_field packed 1 13)\<rparr>;
           crd = crd\<lparr>CardNumber := get_linear_field packed 14 18\<rparr>
       in (True, crd))"

definition Pack_H10304 :: pack_fun where
  "Pack_H10304 format_idx crd packed preamble =
    (let packed = message0 in
     if \<not> validate_card_limit format_idx crd then (False, crd, packed)
     else
       let packed = packed\<lparr>Length := 37\<rparr>;
           packed = snd (set_linear_field packed (ucast (FacilityCode crd)) 1 16);
           packed = snd (set_linear_field packed (CardNumber crd) 17 19);
           packed = snd (set_bit_by_position packed (evenparity32 (ucast (get_linear_field packed 1 18)) \<noteq> 0) 0);
           packed = snd (set_bit_by_position packed (oddparity32 (ucast (get_linear_field packed 18 18)) \<noteq> 0) 36)
       in finish_pack preamble crd packed)"

definition Unpack_H10304 :: unpack_fun where
  "Unpack_H10304 packed crd =
    (if Length packed \<noteq> 37 then (False, crd)
     else
       let crd = card0;
           crd = crd\<lparr>FacilityCode := ucast (get_linear_field packed 1 16)\<rparr>;
           crd = crd\<lparr>CardNumber := get_linear_field packed 17 19\<rparr>;
           crd = crd\<lparr>ParityValid :=
             get_bit_by_position packed 0 = evenparity32 (ucast (get_linear_field packed 1 18)) \<and>
             get_bit_by_position packed 36 = oddparity32 (ucast (get_linear_field packed 18 18))\<rparr>
       in (True, crd))"

definition Pack_HGeneric37 :: pack_fun where
  "Pack_HGeneric37 format_idx crd packed preamble =
    (let packed = message0 in
     if \<not> validate_card_limit format_idx crd then (False, crd, packed)
     else
       let packed = packed\<lparr>Length := 37\<rparr>;
           packed = snd (set_linear_field packed (CardNumber crd) 4 32);
           packed = snd (set_bit_by_position packed True 36);
           packed = snd (set_bit_by_position packed (evenparity32 (ucast (get_nonlinear_field packed 8 [4, 8, 12, 16, 20, 24, 28, 32])) \<noteq> 0) 0);
           packed = snd (set_bit_by_position packed (oddparity32 (ucast (get_nonlinear_field packed 8 [6, 10, 14, 18, 22, 26, 30, 34])) \<noteq> 0) 2);
           packed = snd (set_bit_by_position packed (evenparity32 (ucast (get_nonlinear_field packed 8 [7, 11, 15, 19, 23, 27, 31, 35])) \<noteq> 0) 3)
       in finish_pack preamble crd packed)"

definition Unpack_HGeneric37 :: unpack_fun where
  "Unpack_HGeneric37 packed crd =
    (if Length packed \<noteq> 37 then (False, crd)
     else if get_bit_by_position packed 36 \<noteq> 1 then (False, crd)
     else
       let crd = card0;
           crd = crd\<lparr>CardNumber := get_linear_field packed 4 32\<rparr>;
           crd = crd\<lparr>ParityValid :=
             get_bit_by_position packed 0 = evenparity32 (ucast (get_nonlinear_field packed 8 [4, 8, 12, 16, 20, 24, 28, 32])) \<and>
             get_bit_by_position packed 2 = oddparity32 (ucast (get_nonlinear_field packed 8 [6, 10, 14, 18, 22, 28, 30, 34])) \<and>
             get_bit_by_position packed 3 = evenparity32 (ucast (get_nonlinear_field packed 8 [7, 11, 15, 19, 23, 27, 31, 35]))\<rparr>
       in (True, crd))"

definition Pack_H800002 :: pack_fun where
  "Pack_H800002 format_idx crd packed preamble =
    (let packed = message0 in
     if \<not> validate_card_limit format_idx crd then (False, crd, packed)
     else
       let packed = packed\<lparr>Length := 46\<rparr>;
           packed = snd (set_linear_field packed (ucast (FacilityCode crd)) 1 14);
           packed = snd (set_linear_field packed (CardNumber crd) 15 30);
           even_parity = evenparity32 (shr (Bot packed) 1 XOR (Mid packed AND 0x1fff));
           packed = snd (set_bit_by_position packed (even_parity \<noteq> 0) 0);
           packed = snd (set_bit_by_position packed (even_parity XOR 1 \<noteq> 0) 45)
       in finish_pack preamble crd packed)"

definition Unpack_H800002 :: unpack_fun where
  "Unpack_H800002 packed crd =
    (if Length packed \<noteq> 46 then (False, crd)
     else
       let crd = card0;
           crd = crd\<lparr>FacilityCode := ucast (get_linear_field packed 1 14)\<rparr>;
           crd = crd\<lparr>CardNumber := get_linear_field packed 15 30\<rparr>;
           even_parity = evenparity32 (shr (Bot packed) 1 XOR (Mid packed AND 0x1fff));
           crd = crd\<lparr>ParityValid := get_bit_by_position packed 0 = even_parity\<rparr>;
           crd = crd\<lparr>ParityValid := ParityValid crd \<and> get_bit_by_position packed 45 \<noteq> even_parity\<rparr>
       in (True, crd))"

definition Pack_MDI37 :: pack_fun where
  "Pack_MDI37 format_idx crd packed preamble =
    (let packed = message0 in
     if \<not> validate_card_limit format_idx crd then (False, crd, packed)
     else
       let packed = packed\<lparr>Length := 37\<rparr>;
           packed = snd (set_linear_field packed (ucast (FacilityCode crd)) 3 4);
           packed = snd (set_linear_field packed (CardNumber crd) 7 29);
           packed = snd (set_bit_by_position packed (evenparity32 (ucast (get_linear_field packed 1 18)) \<noteq> 0) 0);
           packed = snd (set_bit_by_position packed (oddparity32 (ucast (get_linear_field packed 18 18)) \<noteq> 0) 36)
       in finish_pack preamble crd packed)"

definition Unpack_MDI37 :: unpack_fun where
  "Unpack_MDI37 packed crd =
    (if Length packed \<noteq> 37 then (False, crd)
     else
       let crd = card0;
           crd = crd\<lparr>FacilityCode := ucast (get_linear_field packed 3 4)\<rparr>;
           crd = crd\<lparr>CardNumber := get_linear_field packed 7 29\<rparr>;
           crd = crd\<lparr>ParityValid :=
             get_bit_by_position packed 0 = evenparity32 (ucast (get_linear_field packed 1 18)) \<and>
             get_bit_by_position packed 36 = oddparity32 (ucast (get_linear_field packed 18 18))\<rparr>
       in (True, crd))"

definition Pack_P10001 :: pack_fun where
  "Pack_P10001 format_idx crd packed preamble =
    (let packed = message0 in
     if \<not> validate_card_limit format_idx crd then (False, crd, packed)
     else
       let packed = packed\<lparr>Length := 40\<rparr>;
           packed = snd (set_linear_field packed 0xF 0 4);
           packed = snd (set_linear_field packed (ucast (FacilityCode crd)) 4 12);
           packed = snd (set_linear_field packed (CardNumber crd) 16 16);
           packed = snd (set_linear_field packed
             (get_linear_field packed 0 8 XOR get_linear_field packed 8 8 XOR
             get_linear_field packed 16 8 XOR get_linear_field packed 24 8) 32 8)
       in finish_pack preamble crd packed)"

definition Unpack_P10001 :: unpack_fun where
  "Unpack_P10001 packed crd =
    (if Length packed \<noteq> 40 then (False, crd)
     else
       let crd = card0;
           crd = crd\<lparr>CardNumber := get_linear_field packed 16 16\<rparr>;
           crd = crd\<lparr>FacilityCode := ucast (get_linear_field packed 4 12)\<rparr>;
           crd = crd\<lparr>ParityValid :=
             (get_linear_field packed 0 8 XOR get_linear_field packed 8 8 XOR
             get_linear_field packed 16 8 XOR get_linear_field packed 24 8) = get_linear_field packed 32 8\<rparr>
       in (True, crd))"

definition Pack_C1k48s :: pack_fun where
  "Pack_C1k48s format_idx crd packed preamble =
    (let packed = message0 in
     if \<not> validate_card_limit format_idx crd then (False, crd, packed)
     else
       let packed = packed\<lparr>Length := 48\<rparr>;
           packed = packed\<lparr>Bot := Bot packed OR ucast (shl (CardNumber crd AND 0x007FFFFF) 1)\<rparr>;
           packed = packed\<lparr>Bot := Bot packed OR shl (FacilityCode crd AND 0x000000FF) 24\<rparr>;
           packed = packed\<lparr>Mid := Mid packed OR shr (FacilityCode crd AND 0x003FFF00) 8\<rparr>;
           packed = packed\<lparr>Mid := Mid packed OR
             shl (ucast (evenparity32 ((Mid packed AND 0x00001B6D) XOR (Bot packed AND 0xB6DB6DB6)))) 14\<rparr>;
           packed = packed\<lparr>Bot := Bot packed OR
             ucast (oddparity32 ((Mid packed AND 0x000036DB) XOR (Bot packed AND 0x6DB6DB6C)))\<rparr>;
           packed = packed\<lparr>Mid := Mid packed OR
             shl (ucast (oddparity32 ((Mid packed AND 0x00007FFF) XOR (Bot packed AND 0xFFFFFFFF)))) 15\<rparr>
       in finish_pack preamble crd packed)"

definition Unpack_C1k48s :: unpack_fun where
  "Unpack_C1k48s packed crd =
    (if Length packed \<noteq> 48 then (False, crd)
     else
       let crd = card0;
           crd = crd\<lparr>CardNumber := ucast (shr (Bot packed) 1 AND 0x007FFFFF)\<rparr>;
           crd = crd\<lparr>FacilityCode := shl (Mid packed AND 0x00003FFF) 8 OR shr (Bot packed) 24\<rparr>;
           crd = crd\<lparr>ParityValid :=
             ucast (evenparity32 ((Mid packed AND 0x00001B6D) XOR (Bot packed AND 0xB6DB6DB6))) = shr (Mid packed) 14 AND 1 \<and>
             ucast (oddparity32 ((Mid packed AND 0x000036DB) XOR (Bot packed AND 0x6DB6DB6C))) = shr (Bot packed) 0 AND 1 \<and>
             ucast (oddparity32 ((Mid packed AND 0x00007FFF) XOR (Bot packed AND 0xFFFFFFFF))) = shr (Mid packed) 15 AND 1\<rparr>
       in (True, crd))"

definition Pack_CasiRusco40 :: pack_fun where
  "Pack_CasiRusco40 format_idx crd packed preamble =
    (let packed = message0 in
     if \<not> validate_card_limit format_idx crd then (False, crd, packed)
     else
       let packed = packed\<lparr>Length := 40\<rparr>;
           packed = snd (set_linear_field packed (CardNumber crd) 1 38)
       in finish_pack preamble crd packed)"

definition Unpack_CasiRusco40 :: unpack_fun where
  "Unpack_CasiRusco40 packed crd =
    (if Length packed \<noteq> 40 then (False, crd)
     else
       let crd = card0;
           crd = crd\<lparr>CardNumber := get_linear_field packed 1 38\<rparr>
       in (True, crd))"

definition Pack_Verkada40 :: pack_fun where
  "Pack_Verkada40 format_idx crd packed preamble =
    (let packed = message0 in
     if \<not> validate_card_limit format_idx crd then (False, crd, packed)
     else
       let packed = packed\<lparr>Length := 40\<rparr>;
           packed = snd (set_linear_field packed (ucast (FacilityCode crd)) 1 10);
           packed = snd (set_linear_field packed (CardNumber crd) 11 28);
           packed = snd (set_bit_by_position packed (evenparity32 (ucast (get_linear_field packed 1 10)) \<noteq> 0) 0);
           packed = snd (set_bit_by_position packed (evenparity32 (ucast (get_linear_field packed 11 28)) \<noteq> 0) 39)
       in finish_pack preamble crd packed)"

definition Unpack_Verkada40 :: unpack_fun where
  "Unpack_Verkada40 packed crd =
    (if Length packed \<noteq> 40 then (False, crd)
     else
       let crd = card0;
           crd = crd\<lparr>FacilityCode := ucast (get_linear_field packed 1 10)\<rparr>;
           crd = crd\<lparr>CardNumber := get_linear_field packed 11 28\<rparr>;
           crd = crd\<lparr>ParityValid :=
             get_bit_by_position packed 0 = evenparity32 (ucast (get_linear_field packed 1 10)) \<and>
             get_bit_by_position packed 39 = evenparity32 (ucast (get_linear_field packed 11 28))\<rparr>
       in (True, crd))"

text \<open>\<open>Pack_Optus\<close> validates before it clears the message.\<close>

definition Pack_Optus :: pack_fun where
  "Pack_Optus format_idx crd packed preamble =
    (if \<not> validate_card_limit format_idx crd then (False, crd, packed)
     else
       let packed = message0;
           packed = packed\<lparr>Length := 34\<rparr>;
           packed = snd (set_linear_field packed (CardNumber crd) 1 16);
           packed = snd (set_linear_field packed (ucast (FacilityCode crd)) 22 11)
       in finish_pack preamble crd packed)"

definition Unpack_Optus :: unpack_fun where
  "Unpack_Optus packed crd =
    (if Length packed \<noteq> 34 then (False, crd)
     else
       let crd = card0;
           crd = crd\<lparr>CardNumber := get_linear_field packed 1 16\<rparr>;
           crd = crd\<lparr>FacilityCode := ucast (get_linear_field packed 22 11)\<rparr>
       in (True, crd))"

definition Pack_Smartpass :: pack_fun where
  "Pack_Smartpass format_idx crd packed preamble =
    (let packed = message0 in
     if \<not> validate_card_limit format_idx crd then (False, crd, packed)
     else
       let packed = packed\<lparr>Length := 34\<rparr>;
           packed = snd (set_linear_field packed (ucast (FacilityCode crd)) 1 13);
           packed = snd (set_linear_field packed (ucast (IssueLevel crd)) 14 3);
           packed = snd (set_linear_field packed (CardNumber crd) 17 16)
       in finish_pack preamble crd packed)"

definition Unpack_Smartpass :: unpack_fun where
  "Unpack_Smartpass packed crd =
    (if Length packed \<noteq> 34 then (False, crd)
     else
       let crd = card0;
           crd = crd\<lparr>FacilityCode := ucast (get_linear_field packed 1 13)\<rparr>;
           crd = crd\<lparr>IssueLevel := ucast (get_linear_field packed 14 3)\<rparr>;
           crd = crd\<lparr>CardNumber := get_linear_field packed 17 16\<rparr>
       in (True, crd))"

definition Pack_bqt34 :: pack_fun where
  "Pack_bqt34 format_idx crd packed preamble =
    (let packed = message0 in
     if \<not> validate_card_limit format_idx crd then (False, crd, packed)
     else
       let packed = packed\<lparr>Length := 34\<rparr>;
           packed = snd (set_linear_field packed (ucast (FacilityCode crd)) 1 8);
           packed = snd (set_linear_field packed (CardNumber crd) 9 24);
           packed = snd (set_bit_by_position packed (evenparity32 (ucast (get_linear_field packed 1 16)) \<noteq> 0) 0);
           packed = snd (set_bit_by_position packed (oddparity32 (ucast (get_linear_field packed 17 16)) \<noteq> 0) 33)
       in finish_pack preamble crd packed)"

definition Unpack_bqt34 :: unpack_fun where
  "Unpack_bqt34 packed crd =
    (if Length packed \<noteq> 34 then (False, crd)
     else
       let crd = card0;
           crd = crd\<lparr>FacilityCode := ucast (get_linear_field packed 1 8)\<rparr>;
           crd = crd\<lparr>CardNumber := get_linear_field packed 9 24\<rparr>;
           crd = crd\<lparr>ParityValid :=
             get_bit_by_position packed 0 = evenparity32 (ucast (get_linear_field packed 1 16)) \<and>
             get_bit_by_position packed 33 = oddparity32 (ucast (get_linear_field packed 17 16))\<rparr>
       in (True, crd))"

definition Pack_bqt38 :: pack_fun where
  "Pack_bqt38 format_idx crd packed preamble =
    (let packed = message0 in
     if \<not> validate_card_limit format_idx crd then (False, crd, packed)
     else
       let packed = packed\<lparr>Length := 38\<rparr>;
           packed = snd (set_linear_field packed (ucast (FacilityCode crd)) 24 13);
           packed = snd (set_linear_field packed (CardNumber crd) 1 19);
           packed = snd (set_linear_field packed (ucast (IssueLevel crd)) 20 4);
           packed = snd (set_bit_by_position packed (evenparity32 (ucast (get_linear_field packed 1 18)) \<noteq> 0) 0);
           packed = snd (set_bit_by_position packed (oddparity32 (ucast (get_linear_field packed 19 18)) \<noteq> 0) 37)
       in finish_pack preamble crd packed)"

definition Unpack_bqt38 :: unpack_fun where
  "Unpack_bqt38 packed crd =
    (if Length packed \<noteq> 38 then (False, crd)
     else
       let crd = card0;
           crd = crd\<lparr>FacilityCode := ucast (get_linear_field packed 24 13)\<rparr>;
           crd = crd\<lparr>CardNumber := get_linear_field packed 1 19\<rparr>;
           crd = crd\<lparr>IssueLevel := ucast (get_linear_field packed 20 4)\<rparr>;
           crd = crd\<lparr>ParityValid :=
             get_bit_by_position packed 0 = evenparity32 (ucast (get_linear_field packed 1 18)) \<and>
             get_bit_by_position packed 37 = oddparity32 (ucast (get_linear_field packed 19 18))\<rparr>
       in (True, crd))"

definition Pack_iscs38 :: pack_fun where
  "Pack_iscs38 format_idx crd packed preamble =
    (let packed = message0 in
     if \<not> validate_card_limit format_idx crd then (False, crd, packed)
     else
       let packed = packed\<lparr>Length := 38\<rparr>;
           packed = snd (set_linear_field packed (ucast (FacilityCode crd)) 5 10);
           packed = snd (set_linear_field packed (CardNumber crd) 15 22);
           packed = snd (set_linear_field packed (ucast (OEM crd)) 1 4);
           packed = snd (set_bit_by_position packed (evenparity32 (ucast (get_linear_field packed 1 18)) \<noteq> 0) 0);
           packed = snd (set_bit_by_position packed (oddparity32 (ucast (get_linear_field packed 19 18)) \<noteq> 0) 37)
       in finish_pack preamble crd packed)"

definition Unpack_iscs38 :: unpack_fun where
  "Unpack_iscs38 packed crd =
    (if Length packed \<noteq> 38 then (False, crd)
     else
       let crd = card0;
           crd = crd\<lparr>FacilityCode := ucast (get_linear_field packed 5 10)\<rparr>;
           crd = crd\<lparr>CardNumber := get_linear_field packed 15 22\<rparr>;
           crd = crd\<lparr>OEM := ucast (get_linear_field packed 1 4)\<rparr>;
           crd = crd\<lparr>ParityValid :=
             get_bit_by_position packed 0 = evenparity32 (ucast (get_linear_field packed 1 18)) \<and>
             get_bit_by_position packed 37 = oddparity32 (ucast (get_linear_field packed 19 18))\<rparr>
       in (True, crd))"

definition Pack_pw39 :: pack_fun where
  "Pack_pw39 format_idx crd packed preamble =
    (let packed = message0 in
     if \<not> validate_card_limit format_idx crd then (False, crd, packed)
     else
       let packed = packed\<lparr>Length := 39\<rparr>;
           packed = snd (set_linear_field packed (ucast (FacilityCode crd)) 1 17);
           packed = snd (set_linear_field packed (CardNumber crd) 18 20);
           packed = snd (set_bit_by_position packed (evenparity32 (ucast (get_linear_field packed 1 18)) \<noteq> 0) 0);
           packed = snd (set_bit_by_position packed (oddparity32 (ucast (get_linear_field packed 19 19)) \<noteq> 0) 38)
       in finish_pack preamble crd packed)"

definition Unpack_pw39 :: unpack_fun where
  "Unpack_pw39 packed crd =
    (if Length packed \<noteq> 39 then (False, crd)
     else
       let crd = card0;
           crd = crd\<lparr>FacilityCode := ucast (get_linear_field packed 1 17)\<rparr>;
           crd = crd\<lparr>CardNumber := get_linear_field packed 18 20\<rparr>;
           crd = crd\<lparr>ParityValid :=
             get_bit_by_position packed 0 = evenparity32 (ucast (get_linear_field packed 1 18)) \<and>
             get_bit_by_position packed 38 = oddparity32 (ucast (get_linear_field packed 19 19))\<rparr>
       in (True, crd))"

definition Pack_bc40 :: pack_fun where
  "Pack_bc40 format_idx crd packed preamble =
    (let packed = message0 in
     if \<not> validate_card_limit format_idx crd then (False, crd, packed)
     else
       let packed = packed\<lparr>Length := 40\<rparr>;
           packed = snd (set_linear_field packed (ucast (OEM crd)) 0 7);
           packed = snd (set_linear_field packed (ucast (FacilityCode crd)) 7 12);
           packed = snd (set_linear_field packed (CardNumber crd) 19 19);
           packed = snd (set_bit_by_position packed (oddparity32 (ucast (get_linear_field packed 19 19)) \<noteq> 0) 39)
       in finish_pack preamble crd packed)"

definition Unpack_bc40 :: unpack_fun where
  "Unpack_bc40 packed crd =
    (if Length packed \<noteq> 40 then (False, crd)
     else
       let crd = card0;
           crd = crd\<lparr>OEM := ucast (get_linear_field packed 0 7)\<rparr>;
           crd = crd\<lparr>FacilityCode := ucast (get_linear_field packed 7 12)\<rparr>;
           crd = crd\<lparr>CardNumber := get_linear_field packed 19 19\<rparr>;
           crd = crd\<lparr>ParityValid :=
             get_bit_by_position packed 39 = oddparity32 (ucast (get_linear_field packed 19 19))\<rparr>
       in (True, crd))"

definition Pack_Avig56 :: pack_fun where
  "Pack_Avig56 format_idx crd packed preamble =
    (let packed = message0\<lparr>Length := 56\<rparr> in
     if \<not> validate_card_limit format_idx crd then (False, crd, packed)
     else
       let packed = snd (set_linear_field packed (ucast (FacilityCode crd)) 1 20);
           packed = snd (set_linear_field packed (CardNumber crd) 21 34);
           even_parity_valid = step_parity_check packed 0 28 True;
           packed = snd (set_bit_by_position packed (\<not> even_parity_valid) 0);
           odd_parity_valid = step_parity_check packed 28 28 False;
           packed = snd (set_bit_by_position packed (\<not> odd_parity_valid) 55)
       in finish_pack preamble crd packed)"

definition Unpack_Avig56 :: unpack_fun where
  "Unpack_Avig56 packed crd =
    (if Length packed \<noteq> 56 then (False, crd)
     else
       let crd = card0;
           crd = crd\<lparr>FacilityCode := ucast (get_linear_field packed 1 20)\<rparr>;
           crd = crd\<lparr>CardNumber := get_linear_field packed 21 34\<rparr>;
           even_parity_valid = step_parity_check packed 0 28 True;
           odd_parity_valid = step_parity_check packed 28 28 False;
           crd = crd\<lparr>ParityValid := even_parity_valid \<and> odd_parity_valid\<rparr>
       in (True, crd))"

definition Pack_IR56 :: pack_fun where
  "Pack_IR56 format_idx crd packed preamble =
    (let packed = message0\<lparr>Length := 56\<rparr> in
     if \<not> validate_card_limit format_idx crd then (False, crd, packed)
     else
       let packed = packed\<lparr>Bot := ucast (CardNumber crd)\<rparr>;
           packed = packed\<lparr>Mid := FacilityCode crd\<rparr>
       in finish_pack preamble crd packed)"

definition Unpack_IR56 :: unpack_fun where
  "Unpack_IR56 packed crd =
    (let crd = card0 in
     if Length packed \<noteq> 56 then (False, crd)
     else
       let crd = crd\<lparr>FacilityCode := Mid packed\<rparr>;
           crd = crd\<lparr>CardNumber := ucast (Bot packed)\<rparr>
       in (True, crd))"

subsection \<open>The format table\<close>

record cardformat =
  Name :: "string option"
  Pack :: pack_fun
  Unpack :: unpack_fun
  Bits :: nat
  Fields :: cardformatdescriptor

definition format_row :: "string \<Rightarrow> pack_fun \<Rightarrow> unpack_fun \<Rightarrow> nat \<Rightarrow> nat \<Rightarrow> cardformat" where
  "format_row name p u bits i =
    \<lparr>Name = Some name, Pack = p, Unpack = u, Bits = bits, Fields = FormatFields ! i\<rparr>"

text \<open>The rows before the terminating null row; the descriptions are only printed.\<close>

definition FormatTable :: "cardformat list" where
  "FormatTable = [
    format_row ''H10301'' Pack_H10301 Unpack_H10301 26 0,
    format_row ''ind26'' Pack_ind26 Unpack_ind26 26 1,
    format_row ''ind27'' Pack_ind27 Unpack_ind27 27 2,
    format_row ''indasc27'' Pack_indasc27 Unpack_indasc27 27 3,
    format_row ''Tecom27'' Pack_Tecom27 Unpack_Tecom27 27 4,
    format_row ''2804W'' Pack_2804W Unpack_2804W 28 5,
    format_row ''ind29'' Pack_ind29 Unpack_ind29 29 6,
    format_row ''ATSW30'' Pack_ATSW30 Unpack_ATSW30 30 7,
    format_row ''ADT31'' Pack_ADT31 Unpack_ADT31 31 8,
    format_row ''HCP32'' Pack_hcp32 Unpack_hcp32 32 9,
    format_row ''HPP32'' Pack_hpp32 Unpack_hpp32 32 10,
    format_row ''Kastle'' Pack_Kastle Unpack_Kastle 32 11,
    format_row ''Kantech'' Pack_Kantech Unpack_Kantech 32 12,
    format_row ''WIE32'' Pack_wie32 Unpack_wie32 32 13,
    format_row ''D10202'' Pack_D10202 Unpack_D10202 33 14,
    format_row ''H10306'' Pack_H10306 Unpack_H10306 34 15,
    format_row ''N10002'' Pack_N10002 Unpack_N10002 34 16,
    format_row ''Optus34'' Pack_Optus Unpack_Optus 34 17,
    format_row ''SMP34'' Pack_Smartpass Unpack_Smartpass 34 18,
    format_row ''BQT34'' Pack_bqt34 Unpack_bqt34 34 19,
    format_row ''C1k35s'' Pack_C1k35s Unpack_C1k35s 35 20,
    format_row ''C15001'' Pack_C15001 Unpack_C15001 36 21,
    format_row ''S12906'' Pack_S12906 Unpack_S12906 36 22,
    format_row ''S12906b'' Pack_S12906b Unpack_S12906b 36 23,
    format_row ''Sie36'' Pack_Sie36 Unpack_Sie36 36 24,
    format_row ''H10320'' Pack_H10320 Unpack_H10320 37 25,
    format_row ''H10302'' Pack_H10302 Unpack_H10302 37 26,
    format_row ''H10304'' Pack_H10304 Unpack_H10304 37 27,
    format_row ''P10004'' Pack_P10004 Unpack_P10004 37 28,
    format_row ''HGen37'' Pack_HGeneric37 Unpack_HGeneric37 37 29,
    format_row ''MDI37'' Pack_MDI37 Unpack_MDI37 37 30,
    format_row ''BQT38'' Pack_bqt38 Unpack_bqt38 38 31,
    format_row ''ISCS'' Pack_iscs38 Unpack_iscs38 38 32,
    format_row ''PW39'' Pack_pw39 Unpack_pw39 39 33,
    format_row ''P10001'' Pack_P10001 Unpack_P10001 40 34,
    format_row ''Casi40'' Pack_CasiRusco40 Unpack_CasiRusco40 40 35,
    format_row ''Verkada40'' Pack_Verkada40 Unpack_Verkada40 40 36,
    format_row ''BC40'' Pack_bc40 Unpack_bc40 40 37,
    format_row ''Defcon32'' Pack_Defcon32 Unpack_Defcon32 42 38,
    format_row ''H800002'' Pack_H800002 Unpack_H800002 46 39,
    format_row ''C1k48s'' Pack_C1k48s Unpack_C1k48s 48 40,
    format_row ''Avig56'' Pack_Avig56 Unpack_Avig56 56 41,
    format_row ''IR56'' Pack_IR56 Unpack_IR56 56 42]"

text \<open>\<open>ARRAYLEN(FormatTable)\<close> counts the null row too.\<close>

definition FormatTable_ARRAYLEN :: nat where
  "FormatTable_ARRAYLEN = length FormatTable + 1"

text \<open>\<open>None\<close> is the null row that the function returns for an index out of bounds.\<close>

definition HIDGetCardFormat :: "int \<Rightarrow> cardformat option" where
  "HIDGetCardFormat idx =
    (if idx < 0 \<or> idx > int FormatTable_ARRAYLEN - 2 then None else Some (FormatTable ! nat idx))"

definition char_lower :: "char \<Rightarrow> char" where
  "char_lower c = (if in_range CHR ''A'' CHR ''Z'' c then char_of ((of_char c :: nat) + 32) else c)"

fun find_format :: "string \<Rightarrow> cardformat list \<Rightarrow> int \<Rightarrow> int" where
  "find_format s [] i = -1"
| "find_format s (f # fs) i =
    (if map_option (map char_lower) (Name f) = Some s then i else find_format s fs (i + 1))"

definition HIDFindCardFormat :: "string \<Rightarrow> int" where
  "HIDFindCardFormat format = find_format (map char_lower format) FormatTable 0"

definition HIDPack :: "int \<Rightarrow> wiegand_card \<Rightarrow> wiegand_message \<Rightarrow> bool \<Rightarrow> bool \<times> wiegand_card \<times> wiegand_message" where
  "HIDPack format_idx crd packed preamble =
    (let packed = message0 in
     if format_idx < 0 \<or> format_idx > int FormatTable_ARRAYLEN - 2 then (False, crd, packed)
     else Pack (FormatTable ! nat format_idx) format_idx crd packed preamble)"

definition wiegand_pack_formatted ::
  "int \<Rightarrow> wiegand_card \<Rightarrow> bool \<Rightarrow> wiegand_message \<Rightarrow> pm3_result \<times> wiegand_card \<times> wiegand_message" where
  "wiegand_pack_formatted format_idx crd preamble packed =
    (let (ok, crd, packed) = HIDPack format_idx crd packed preamble
     in (if ok = False then PM3_ESOFT else PM3_SUCCESS, crd, packed))"

definition wiegand_pack_from_formatted ::
  "int \<Rightarrow> wiegand_card \<Rightarrow> bool \<Rightarrow> wiegand_input \<Rightarrow> pm3_result \<times> wiegand_card \<times> wiegand_input" where
  "wiegand_pack_from_formatted format_idx crd preamble input =
    (let input = input0;
         (res, crd, m) = wiegand_pack_formatted format_idx crd preamble (wi_packed input);
         input = input\<lparr>wi_packed := m\<rparr> in
     if res \<noteq> PM3_SUCCESS then (res, crd, input)
     else
       let input = input\<lparr>wi_packed_valid := True\<rparr> in
       case wiegand_message_to_binstr (wi_packed input) BINSTR_SIZE of
         None \<Rightarrow> (PM3_EINVARG, crd, input)
       | Some s \<Rightarrow> (PM3_SUCCESS, crd, input\<lparr>wi_binstr := s, wi_bin_len := length s\<rparr>))"

text \<open>
  The loop of \<open>HIDTryUnpack\<close> over the table. The card object is shared by all formats. Beside
  the two counters the model records the cards that \<open>hid_print_card\<close> prints, with the row's
  number.
\<close>

record try_state =
  try_card :: wiegand_card
  found_cnt :: nat
  found_invalid_par :: nat
  printed :: "(nat \<times> wiegand_card) list"

definition try_step :: "wiegand_message \<Rightarrow> nat \<Rightarrow> try_state \<Rightarrow> try_state" where
  "try_step packed i st =
    (let fmt = FormatTable ! i;
         (ok, crd) = Unpack fmt packed (try_card st);
         st = st\<lparr>try_card := crd\<rparr> in
     if ok then
       let st = st\<lparr>found_cnt := found_cnt st + 1, printed := printed st @ [(i, crd)]\<rparr>
       in if hasParity (Fields fmt) \<and> \<not> ParityValid crd
          then st\<lparr>found_invalid_par := found_invalid_par st + 1\<rparr> else st
     else st)"

definition try_all :: "wiegand_message \<Rightarrow> try_state" where
  "try_all packed = fold (try_step packed) [0..<length FormatTable]
     \<lparr>try_card = card0, found_cnt = 0, found_invalid_par = 0, printed = []\<rparr>"

definition HIDTryUnpack :: "wiegand_message \<Rightarrow> bool" where
  "HIDTryUnpack packed =
    (let st = try_all packed in int (found_cnt st) - int (found_invalid_par st) > 0)"

text \<open>\<open>for (i = 0; i < 4; i++) if (get_bit_by_position(&packed, i) == 1)\<close>\<close>

fun first_nibble_bit :: "wiegand_message \<Rightarrow> nat list \<Rightarrow> nat option" where
  "first_nibble_bit packed [] = None"
| "first_nibble_bit packed (i # idx) =
    (if get_bit_by_position packed i = 1 then Some i else first_nibble_bit packed idx)"

definition decode_wiegand :: "u32 \<Rightarrow> u32 \<Rightarrow> u32 \<Rightarrow> int \<Rightarrow> bool" where
  "decode_wiegand t m b n =
    (if t = 0 \<and> m = 0 \<and> b = 0 then False
     else if n > 0 then HIDTryUnpack (initialize_message_object t m b n)
     else if n < 0 then
       let scan_end = (- n) * 4;
           packed = initialize_message_object t m b scan_end;
           scan_start = (case first_nibble_bit packed [0..<4] of
             None \<Rightarrow> scan_end - 3 | Some i \<Rightarrow> scan_end - int i)
       in list_ex (\<lambda>i. HIDTryUnpack (packed\<lparr>Length := nat (i mod 256)\<rparr>)) [scan_start..scan_end]
     else
       let packed = initialize_message_object t m b 0 in
       HIDTryUnpack packed \<or> HIDTryUnpack (packed\<lparr>Length := (Length packed + 1) mod 256\<rparr>))"

end
