(* ===== verification/Wiegand_Rows.thy ===== *)
theory Wiegand_Rows
  imports Wiegand_Formats
begin

text \<open>
  What the 43 formats of \<open>client/src/wiegand_formats.c\<close> guarantee: which cards a \<open>Pack\<close> accepts,
  and for which of them the \<open>Unpack\<close> of the same row reads the card back with valid parity.
  \<open>row_fits\<close> states the second exactly; where it is not \<open>True\<close> the field limits of the row
  admit cards that its layout does not carry. \<open>codec\<close> is the contract of one row, the locale
  \<open>format_table\<close> that of the table, interpreted on \<open>FormatTable\<close>.
\<close>

subsection \<open>The contract of a row\<close>

text \<open>The message unpacks to the fields of the card, with valid parity where the row has parity.\<close>

definition carries :: "unpack_fun \<Rightarrow> bool \<Rightarrow> wiegand_message \<Rightarrow> wiegand_card \<Rightarrow> bool" where
  "carries unpack par m crd =
    (let (ok, u) = unpack m card0 in
     ok \<and> FacilityCode u = FacilityCode crd \<and> CardNumber u = CardNumber crd \<and>
     IssueLevel u = IssueLevel crd \<and> OEM u = OEM crd \<and> (par \<longrightarrow> ParityValid u))"

text \<open>\<open>S12906b\<close> accepts its own facility code and cards marked valid only.\<close>

definition row_accepts :: "nat \<Rightarrow> wiegand_card \<Rightarrow> bool" where
  "row_accepts i crd = (validate_card_limit (int i) crd \<and>
    (i = 23 \<longrightarrow> FacilityCode crd = S12906b_FACILITY_CODE \<and> ParityValid crd))"

text \<open>\<open>C15001\<close> replaces OEM 0 by 900.\<close>

definition row_card :: "nat \<Rightarrow> wiegand_card \<Rightarrow> wiegand_card" where
  "row_card i crd = (if i = 21 \<and> OEM crd = 0 then crd\<lparr>OEM := 900\<rparr> else crd)"

definition row_fits :: "nat \<Rightarrow> wiegand_card \<Rightarrow> bool \<Rightarrow> bool" where
  "row_fits i crd preamble =
    (if i = 10 then CardNumber crd = 0
     else if i = 25 then 80000000 \<le> unat (CardNumber crd)
     else if i = 29 then bit (CardNumber crd) 9 = bit (CardNumber crd) 7
     else if i = 32 then unat (CardNumber crd) < 2 ^ 22
     else if i = 35 then unat (CardNumber crd) < 2 ^ 38
     else if i = 37 then unat (CardNumber crd) < 2 ^ 19
     else if i = 42 then \<not> preamble
     else True)"

definition codec :: "nat \<Rightarrow> pack_fun \<Rightarrow> unpack_fun \<Rightarrow> nat \<Rightarrow> bool" where
  "codec i pack unpack bits \<longleftrightarrow> (\<forall>c m pre.
     fst (pack (int i) c m pre) = row_accepts i c \<and>
     (row_accepts i c \<longrightarrow>
        fst (snd (pack (int i) c m pre)) = row_card i c \<and>
        Length (snd (snd (pack (int i) c m pre))) = bits \<and>
        carries unpack (hasParity (FormatFields ! i)) (snd (snd (pack (int i) c m pre))) (row_card i c)
          = row_fits i c pre))"

subsection \<open>Shared lemmas\<close>

lemma finish_pack_simps:
  "snd (snd (finish_pack pre c m)) = (if pre then snd (add_HID_header m) else m)"
  "fst (finish_pack pre c m) = (pre \<longrightarrow> fst (add_HID_header m))"
  "fst (snd (finish_pack pre c m)) = c"
  by (simp_all add: finish_pack_def case_prod_beta)

lemma take_bit_self_iff: "take_bit n (w :: 'a::len word) = w \<longleftrightarrow> unat w < 2 ^ n"
proof
  assume "take_bit n w = w"
  then show "unat w < 2 ^ n" by (metis take_bit_nat_less_exp unsigned_take_bit_eq)
next
  assume "unat w < 2 ^ n"
  then show "take_bit n w = w" by (metis take_bit_nat_eq_self unsigned_take_bit_eq word_unat_eq_iff)
qed

lemma take_bit_field32: "ucast (take_bit n (ucast (fc :: u32) :: u64)) = fc \<longleftrightarrow> unat fc < 2 ^ n"
proof -
  have "ucast (take_bit n (ucast (fc :: u32) :: u64)) = take_bit n fc"
    by (rule bit_word_eqI) (auto simp: word_bits)
  then show ?thesis by (simp add: take_bit_self_iff)
qed

lemma u64_of_u32:
  assumes "unat (cn :: u64) < 2 ^ 32"
  shows "ucast (ucast cn :: u32) = cn"
  using bit_lt_mask [OF assms] by (intro bit_word_eqI) (auto simp: word_bits intro: ccontr)

lemma parity_bit_set [simp]:
  "of_bool (evenparity32 x \<noteq> 0) = evenparity32 x" "of_bool (oddparity32 x \<noteq> 0) = oddparity32 x"
  by (simp_all add: parity_wparity)

lemma u32_eqI: "list_all (\<lambda>i. bit a i = bit b i) [0..<32] \<Longrightarrow> a = (b :: u32)"
  by (intro bit_word_eqI) (simp add: list_all_iff)

text \<open>A parity as the sum of the bits, so that masks and permutations are arithmetic.\<close>

lemma odd_filter_sum: "odd (length (filter P xs)) = odd (\<Sum>x\<leftarrow>xs. of_bool (P x) :: nat)"
  by (induction xs) auto

lemma wparity_sum: "wparity (w :: u32) = odd (\<Sum>i\<leftarrow>[0..<32]. of_bool (bit w i) :: nat)"
  by (simp add: wparity_def odd_filter_sum)

lemma get_linear_zero [codec_laws]: "get_linear_field (message0\<lparr>Length := n\<rparr>) fb k = 0"
proof -
  have "\<not> wbit (message0\<lparr>Length := n\<rparr>) q" for q
    by (simp add: wbit_def mraw_def message0_def)
  moreover have "fold (\<lambda>i (r :: u64). shl r 1) xs 0 = 0" for xs :: "nat list"
    by (induction xs) simp_all
  ultimately show ?thesis
    by (simp add: get_linear_field_def get_bit_wbit)
qed

text \<open>The limits of a row as bounds on naturals.\<close>

lemmas row_unfold = row_accepts_def row_card_def row_fits_def FormatFields_def descriptor_def
  validate_card_limit_def word_less_nat_alt

lemmas codec_unfold = codec_def carries_def row_unfold Let_def finish_pack_simps codec_laws card0_def
  take_bit_self_iff take_bit_field32 add_HID_header_ok

subsection \<open>The formats whose fields are set through the accessors\<close>

lemma codec_accessors:
    "codec 1 Pack_ind26 Unpack_ind26 26"
    "codec 2 Pack_ind27 Unpack_ind27 27"
    "codec 3 Pack_indasc27 Unpack_indasc27 27"
    "codec 4 Pack_Tecom27 Unpack_Tecom27 27"
    "codec 5 Pack_2804W Unpack_2804W 28"
    "codec 6 Pack_ind29 Unpack_ind29 29"
    "codec 7 Pack_ATSW30 Unpack_ATSW30 30"
    "codec 8 Pack_ADT31 Unpack_ADT31 31"
    "codec 9 Pack_hcp32 Unpack_hcp32 32"
    "codec 11 Pack_Kastle Unpack_Kastle 32"
    "codec 12 Pack_Kantech Unpack_Kantech 32"
    "codec 13 Pack_wie32 Unpack_wie32 32"
    "codec 14 Pack_D10202 Unpack_D10202 33"
    "codec 16 Pack_N10002 Unpack_N10002 34"
    "codec 17 Pack_Optus Unpack_Optus 34"
    "codec 18 Pack_Smartpass Unpack_Smartpass 34"
    "codec 19 Pack_bqt34 Unpack_bqt34 34"
    "codec 21 Pack_C15001 Unpack_C15001 36"
    "codec 22 Pack_S12906 Unpack_S12906 36"
    "codec 24 Pack_Sie36 Unpack_Sie36 36"
    "codec 26 Pack_H10302 Unpack_H10302 37"
    "codec 27 Pack_H10304 Unpack_H10304 37"
    "codec 28 Pack_P10004 Unpack_P10004 37"
    "codec 30 Pack_MDI37 Unpack_MDI37 37"
    "codec 31 Pack_bqt38 Unpack_bqt38 38"
    "codec 32 Pack_iscs38 Unpack_iscs38 38"
    "codec 33 Pack_pw39 Unpack_pw39 39"
    "codec 34 Pack_P10001 Unpack_P10001 40"
    "codec 35 Pack_CasiRusco40 Unpack_CasiRusco40 40"
    "codec 36 Pack_Verkada40 Unpack_Verkada40 40"
    "codec 37 Pack_bc40 Unpack_bc40 40"
    "codec 38 Pack_Defcon32 Unpack_Defcon32 42"
  by (simp_all add: codec_unfold
  Pack_ind26_def Unpack_ind26_def Pack_ind27_def Unpack_ind27_def Pack_indasc27_def
  Unpack_indasc27_def Pack_Tecom27_def Unpack_Tecom27_def Pack_2804W_def Unpack_2804W_def
  Pack_ind29_def Unpack_ind29_def Pack_ATSW30_def Unpack_ATSW30_def Pack_ADT31_def
  Unpack_ADT31_def Pack_hcp32_def Unpack_hcp32_def Pack_Kastle_def Unpack_Kastle_def
  Pack_Kantech_def Unpack_Kantech_def Pack_wie32_def Unpack_wie32_def Pack_D10202_def
  Unpack_D10202_def Pack_N10002_def Unpack_N10002_def Pack_Optus_def Unpack_Optus_def
  Pack_Smartpass_def Unpack_Smartpass_def Pack_bqt34_def Unpack_bqt34_def Pack_C15001_def
  Unpack_C15001_def Pack_S12906_def Unpack_S12906_def Pack_Sie36_def Unpack_Sie36_def
  Pack_H10302_def Unpack_H10302_def Pack_H10304_def Unpack_H10304_def Pack_P10004_def
  Unpack_P10004_def Pack_MDI37_def Unpack_MDI37_def Pack_bqt38_def Unpack_bqt38_def
  Pack_iscs38_def Unpack_iscs38_def Pack_pw39_def Unpack_pw39_def Pack_P10001_def
  Unpack_P10001_def Pack_CasiRusco40_def Unpack_CasiRusco40_def Pack_Verkada40_def
  Unpack_Verkada40_def Pack_bc40_def Unpack_bc40_def Pack_Defcon32_def Unpack_Defcon32_def)

lemma codec_HPP32: "codec 10 Pack_hpp32 Unpack_hpp32 32"
  by (auto simp: codec_unfold Pack_hpp32_def Unpack_hpp32_def set_linear_refused)


lemma codec_S12906b: "codec 23 Pack_S12906b Unpack_S12906b 36"
  by (auto simp: codec_unfold Pack_S12906b_def Unpack_S12906b_def S12906b_BITS_USED_BY_PARITY_def
    S12906b_FACILITY_CODE_def S12906b_odd_parity_bit_0_def S12906b_even_parity_bit_9_def
    S12906b_even_parity_bit_10_def)

subsection \<open>HGen37\<close>

text \<open>The second parity is written over bit 26 and checked over bit 28.\<close>

lemma wparity_snoc:
  assumes "unat (x :: u64) < 2 ^ 31"
  shows "wparity (ucast (shl x 1 OR of_bool b) :: u32) = (wparity (ucast x :: u32) \<noteq> b)"
proof -
  let ?y = "ucast (shl x 1 OR of_bool b) :: u32"
  have "drop_bit 1 ?y = ucast x"
    using bit_lt_mask [OF assms] by (intro bit_word_eqI) (auto simp: word_bits intro: ccontr)
  moreover have "odd ?y = b"
    by (simp add: word_bits flip: bit_0)
  ultimately show ?thesis
    using wparity_shift1 [of ?y] by simp
qed

lemma wparity_nonlinear:
  "n \<le> 31 \<Longrightarrow> wparity (ucast (get_nonlinear_field m n ps) :: u32) = odd (\<Sum>i\<leftarrow>[0..<n]. of_bool (wbit m (ps ! i)) :: nat)"
proof (induction n)
  case 0
  then show ?case by (simp add: get_nonlinear_field_def)
next
  case (Suc n)
  have "unat (get_nonlinear_field m n ps) < 2 ^ 31"
    using Suc.prems by (intro unat_lt_bits) (simp add: get_nonlinear_bit)
  from wparity_snoc [OF this] show ?case
    using Suc by (simp add: get_nonlinear_step)
qed

lemma HGen37_parity:
  "(oddparity32 (ucast (get_nonlinear_field (snd (set_linear_field (message0\<lparr>Length := 37\<rparr>) cn 4 32))
      8 [6, 10, 14, 18, 22, 26, 30, 34])) =
    oddparity32 (ucast (get_nonlinear_field (snd (set_linear_field (message0\<lparr>Length := 37\<rparr>) cn 4 32))
      8 [6, 10, 14, 18, 22, 28, 30, 34]))) = (bit cn 9 = bit cn 7)"
  by (simp add: parity_wparity wparity_nonlinear upt_8 set_linear_ok)

lemma codec_HGen37: "codec 29 Pack_HGeneric37 Unpack_HGeneric37 37"
  by (simp add: codec_unfold Pack_HGeneric37_def Unpack_HGeneric37_def HGen37_parity)

subsection \<open>Avig56\<close>

text \<open>A parity check counts a bit of its range once, and the check of a bit set to the parity succeeds.\<close>

definition parity_pairs :: "(nat \<Rightarrow> bool) \<Rightarrow> nat \<Rightarrow> nat \<Rightarrow> bool \<Rightarrow> bool" where
  "parity_pairs b s n p = fold (\<lambda>k p. p \<noteq> (b (s + 2 * k) \<noteq> b (Suc (s + 2 * k)))) [0..<n] p"

lemma parity_pairs_update:
  "parity_pairs (b(q := v)) s n p =
    (parity_pairs b s n p \<noteq> (s \<le> q \<and> q < s + 2 * n \<and> v \<noteq> b q))"
proof (induction n)
  case (Suc n)
  have step: "parity_pairs b s (Suc n) p = (parity_pairs b s n p \<noteq> (b (s + 2 * n) \<noteq> b (Suc (s + 2 * n))))" for b
    by (simp add: parity_pairs_def)
  consider "q = s + 2 * n" | "q = Suc (s + 2 * n)" | "q < s + 2 * n" | "Suc (s + 2 * n) < q" by linarith
  then show ?case
    unfolding step Suc by cases auto
qed (simp add: parity_pairs_def)

lemma step_parity_pairs: "step_parity_check m s n p = parity_pairs (wbit m) s ((n + 1) div 2) p"
  by (simp add: step_parity_check_def parity_pairs_def Let_def get_bit_wbit)

lemma step_parity_set_bit [codec_laws]:
  assumes "q < Length m" "Length m \<le> 96"
  shows "step_parity_check (snd (set_bit_by_position m v q)) s n p =
    (step_parity_check m s n p \<noteq> (s \<le> q \<and> q < s + 2 * ((n + 1) div 2) \<and> v \<noteq> wbit m q))"
proof -
  have "wbit (snd (set_bit_by_position m v q)) = (wbit m)(q := v)"
    by (rule ext) (simp add: wbit_set_bit [OF assms])
  then show ?thesis
    by (simp only: step_parity_pairs parity_pairs_update)
qed

lemma step_parity_header [codec_laws]:
  "step_parity_check (snd (add_HID_header m)) s n p = step_parity_check m s n p"
  by (simp add: step_parity_pairs header_wbit [abs_def])

lemma wbit_message0: "\<not> wbit (message0\<lparr>Length := n\<rparr>) q"
  by (simp add: wbit_def mraw_def message0_def)

lemma codec_Avig56: "codec 41 Pack_Avig56 Unpack_Avig56 56"
  by (simp add: codec_unfold Pack_Avig56_def Unpack_Avig56_def wbit_message0 step_parity_set_bit step_parity_header)

subsection \<open>IR56\<close>

lemma codec_IR56: "codec 42 Pack_IR56 Unpack_IR56 56"
proof -
  have h: "Mid (snd (add_HID_header m)) = Mid m OR 0x1000000 \<and> Bot (snd (add_HID_header m)) = Bot m"
    if "Length m = 56" for m
    using that by (simp add: add_HID_header_def)
  have n: "fc OR 0x1000000 \<noteq> fc" if "\<not> 0xffffff < unat fc" for fc :: u32
  proof
    assume "fc OR 0x1000000 = fc"
    then have "bit (fc OR 0x1000000) 24 = bit fc 24" by simp
    then have "bit fc 24" by (simp add: word_bits)
    then show False using that bit_lt_mask [of fc 24 24] by simp
  qed
  show ?thesis
    by (auto simp: codec_unfold Pack_IR56_def Unpack_IR56_def message0_def h n u64_of_u32)
qed

subsection \<open>H800002\<close>

text \<open>The two parity bits and the header lie outside the bits that the parity counts.\<close>

lemma H800002_words:
  "shr (b OR 1) 1 XOR w = shr b 1 XOR (w :: u32)" "shr (b AND NOT 1) 1 XOR w = shr b 1 XOR w"
  "b XOR ((w OR 0x2000) AND 0x1fff) = b XOR (w AND 0x1fff)"
  "b XOR ((w AND NOT 0x2000) AND 0x1fff) = b XOR (w AND 0x1fff)"
  "b XOR ((w OR 0x4000) AND 0x1fff) = b XOR (w AND 0x1fff)"
  by (rule u32_eqI, unfold upt_32 list.pred_inject, intro conjI; simp add: word_bits)+

definition H800002_even :: "wiegand_message \<Rightarrow> u8" where
  "H800002_even m = evenparity32 (shr (Bot m) 1 XOR (Mid m AND 0x1fff))"

lemma H800002_even_laws [codec_laws]:
  assumes "Length m = 46"
  shows "H800002_even (snd (set_bit_by_position m v 0)) = H800002_even m"
    "H800002_even (snd (set_bit_by_position m v 45)) = H800002_even m"
    "H800002_even (snd (add_HID_header m)) = H800002_even m"
proof -
  have "Mid (snd (set_bit_by_position m v 0)) = (if v then Mid m OR 0x2000 else Mid m AND NOT 0x2000)"
    "Bot (snd (set_bit_by_position m v 0)) = Bot m"
    "Bot (snd (set_bit_by_position m v 45)) = (if v then Bot m OR 1 else Bot m AND NOT 1)"
    "Mid (snd (set_bit_by_position m v 45)) = Mid m"
    "Bot (snd (add_HID_header m)) = Bot m" "Mid (snd (add_HID_header m)) = Mid m OR 0x4000"
    using assms by (simp_all add: set_bit_by_position_def add_HID_header_def)
  then show "H800002_even (snd (set_bit_by_position m v 0)) = H800002_even m"
    "H800002_even (snd (set_bit_by_position m v 45)) = H800002_even m"
    "H800002_even (snd (add_HID_header m)) = H800002_even m"
    unfolding H800002_even_def by (simp_all only: H800002_words split: if_split) simp_all
qed

lemma H800002_even_bit:
  "of_bool (H800002_even m \<noteq> 0) = H800002_even m" "(of_bool (H800002_even m XOR 1 \<noteq> 0) \<noteq> H800002_even m) = True"
  by (simp_all add: H800002_even_def parity_wparity)

lemma codec_H800002: "codec 39 Pack_H800002 Unpack_H800002 46"
  by (simp add: codec_unfold Pack_H800002_def [folded H800002_even_def] Unpack_H800002_def [folded H800002_even_def]
    H800002_even_laws H800002_even_bit)

end
