(* ===== verification/Wiegand_Words.thy ===== *)
theory Wiegand_Words
  imports Wiegand_Rows
begin

text \<open>
  The rows that work on the message words directly (H10301, H10306, C1k35s, C1k48s) and the
  decimal row H10320. The words are compared bit by bit, with the parity bits as variables.
\<close>

subsection \<open>H10301\<close>

lemmas pack_words = Let_def message0_def not_not if_True if_False wiegand_message.simps or.left_neutral
  parity_wparity ucast_of_bool simp_thms of_nat_numeral of_nat_0

lemma limits:
  assumes "validate_card_limit (int i) c" "i < 43"
  shows "CardNumber c \<le> MaxCN (FormatFields ! i) \<and> FacilityCode c \<le> MaxFC (FormatFields ! i) \<and>
    IssueLevel c \<le> MaxIL (FormatFields ! i) \<and> OEM c \<le> MaxOEM (FormatFields ! i)"
  using assms by (auto simp: validate_card_limit_def Let_def split: if_splits)

lemma words_H10301:
  fixes cn :: u64 and fc :: u32 and p q :: bool
  assumes "unat cn < 2 ^ 16" "unat fc < 2 ^ 8"
  defines "B \<equiv> ucast (shl (cn AND 0xFFFF) 1) OR shl (fc AND 0xFF) 17"
  assumes b: "b = (B OR of_bool p) OR shl (of_bool q) 25"
  shows "shr b 1 AND 0xFFFF = ucast cn" "shr b 17 AND 0xFF = fc" "shr b 1 AND 0xFFF = shr B 1 AND 0xFFF"
    "shr b 13 AND 0xFFF = shr (B OR of_bool p) 13 AND 0xFFF" "b AND 1 = of_bool p" "shr b 25 AND 1 = of_bool q"
  unfolding b B_def
  by (rule u32_eqI, unfold upt_32 list.pred_inject, intro conjI;
     simp add: word_bits bit_lt_mask [OF assms(1)] bit_lt_mask [OF assms(2)])+

lemma header_H10301:
  "shr (b OR 0x4000000) 1 AND 0xFFFF = shr b 1 AND (0xFFFF :: u32)"
  "shr (b OR 0x4000000) 17 AND 0xFF = shr b 17 AND (0xFF :: u32)"
  "shr (b OR 0x4000000) 1 AND 0xFFF = shr b 1 AND (0xFFF :: u32)"
  "shr (b OR 0x4000000) 13 AND 0xFFF = shr b 13 AND (0xFFF :: u32)"
  "(b OR 0x4000000) AND 1 = b AND (1 :: u32)"
  "shr (b OR 0x4000000) 25 AND 1 = shr b 25 AND (1 :: u32)"
  by (rule u32_eqI, unfold upt_32 list.pred_inject, intro conjI; simp add: word_bits)+

lemma unpack_header_H10301:
  assumes "Length m = 26"
  shows "Unpack_H10301 (snd (add_HID_header m)) c = Unpack_H10301 m c"
proof -
  have "Bot (snd (add_HID_header m)) = Bot m OR 0x4000000"
    using assms by (simp add: add_HID_header_def)
  then show ?thesis
    by (simp only: Unpack_H10301_def header_H10301 add_HID_header_Length)
qed

text \<open>A row whose \<open>Pack\<close> builds a message that the header does not disturb.\<close>

lemma codecI:
  assumes "\<And>c m pre. \<not> validate_card_limit (int i) c \<Longrightarrow> \<not> fst (pack (int i) c m pre)"
    and "\<And>c. validate_card_limit (int i) c \<Longrightarrow> \<exists>w. Length w = bits \<and> carries unpack (hasParity (FormatFields ! i)) w c \<and>
      (\<forall>m pre. pack (int i) c m pre = finish_pack pre c w)"
    and "\<And>m c. Length m = bits \<Longrightarrow> unpack (snd (add_HID_header m)) c = unpack m c"
    and "0 < bits" "bits \<le> 84" "i \<notin> {10, 21, 23, 25, 29, 32, 35, 37, 42}"
  shows "codec i pack unpack bits"
  unfolding codec_def
proof (intro allI conjI impI)
  fix c m pre
  have a: "row_accepts i c = validate_card_limit (int i) c" "row_card i c = c" "row_fits i c pre"
    using assms(6) by (auto simp: row_accepts_def row_card_def row_fits_def)
  show "fst (pack (int i) c m pre) = row_accepts i c"
    using assms(1) [of c m pre] assms(2) [of c] assms(4,5)
    by (cases "validate_card_limit (int i) c") (auto simp: a finish_pack_simps add_HID_header_ok)
  assume "row_accepts i c"
  then obtain w where w: "Length w = bits" "carries unpack (hasParity (FormatFields ! i)) w c"
    "pack (int i) c m pre = finish_pack pre c w"
    using assms(2) [of c] a by auto
  show "fst (snd (pack (int i) c m pre)) = row_card i c" "Length (snd (snd (pack (int i) c m pre))) = bits"
    "carries unpack (hasParity (FormatFields ! i)) (snd (snd (pack (int i) c m pre))) (row_card i c) = row_fits i c pre"
    using w assms(3) [OF w(1)] a(3) by (simp_all add: a(2) finish_pack_simps carries_def)
qed

lemma codec_H10301: "codec 0 Pack_H10301 Unpack_H10301 26"
proof (rule codecI)
  fix c assume v: "validate_card_limit (int 0) c"
  have l: "unat (CardNumber c) < 2 ^ 16" "unat (FacilityCode c) < 2 ^ 8" "IssueLevel c = 0" "OEM c = 0"
    using limits [OF v] by (auto simp: FormatFields_def descriptor_def word_le_nat_alt unat_eq_zero)
  let ?B = "ucast (shl (CardNumber c AND 0xFFFF) 1) OR shl (FacilityCode c AND 0xFF) 17"
  define p where "p = (\<not> wparity (shr ?B 1 AND 0xFFF))"
  define q where "q = wparity (shr (?B OR of_bool p) 13 AND 0xFFF)"
  define b where "b = (?B OR of_bool p) OR shl (of_bool q) 25"
  let ?w = "\<lparr>Length = 26, Top = 0, Mid = 0, Bot = b\<rparr>"
  note w = words_H10301 [OF l(1,2) b_def]
  have P: "Pack_H10301 (int 0) c m pre = finish_pack pre c ?w" for m pre
    unfolding b_def q_def p_def by (simp only: Pack_H10301_def v v [simplified] pack_words)
  have par: "wparity (shr b 1 AND 0xFFF) = (\<not> p)" "wparity (shr b 13 AND 0xFFF) = q"
    unfolding w p_def q_def by simp_all
  have "carries Unpack_H10301 True ?w c"
    using l by (simp add: carries_def Unpack_H10301_def par w(1,2,5,6) parity_wparity u64_of_u32 card0_def
      del: One_nat_def)
  with P show "\<exists>w. Length w = 26 \<and> carries Unpack_H10301 (hasParity (FormatFields ! 0)) w c \<and>
      (\<forall>m pre. Pack_H10301 (int 0) c m pre = finish_pack pre c w)"
    by (intro exI [of _ ?w]) (simp add: FormatFields_def descriptor_def)
qed (simp_all add: unpack_header_H10301 Pack_H10301_def Let_def)


subsection \<open>C1k35s\<close>

lemma words_C1k35s:
  fixes cn :: u64 and fc :: u32 and p q r :: bool
  assumes "unat cn < 2 ^ 20" "unat fc < 2 ^ 12"
  defines "B \<equiv> ucast (shl (cn AND 0x000FFFFF) 1) OR shl (fc AND 0x000007FF) 21"
  defines "M \<equiv> shr (fc AND 0x00000800) 11"
  defines "M1 \<equiv> M OR shl (of_bool p) 1"
  assumes b: "b = B OR of_bool q" and h: "h = M1 OR shl (of_bool r) 2"
  shows "shr b 1 AND 0x000FFFFF = ucast cn" "shl (h AND 1) 11 OR shr b 21 = fc"
    "(h AND 0x1) XOR (b AND 0xB6DB6DB6) = (M AND 0x1) XOR (B AND 0xB6DB6DB6)"
    "(h AND 0x3) XOR (b AND 0x6DB6DB6C) = (M1 AND 0x3) XOR (B AND 0x6DB6DB6C)"
    "(h AND 0x3) XOR (b AND 0xFFFFFFFF) = (M1 AND 0x3) XOR (b AND 0xFFFFFFFF)"
    "shr h 1 AND 1 = of_bool p" "shr b 0 AND 1 = of_bool q" "shr h 2 AND 1 = of_bool r"
  unfolding b h B_def M_def M1_def
  by (rule u32_eqI, unfold upt_32 list.pred_inject, intro conjI;
     simp add: word_bits bit_lt_mask [OF assms(1)] bit_lt_mask [OF assms(2)])+

lemma header_C1k35s:
  "(h OR 0x28) AND 1 = h AND (1 :: u32)"
  "(h OR 0x28) AND 0x1 = h AND (0x1 :: u32)" "(h OR 0x28) AND 0x3 = h AND (0x3 :: u32)"
  "(h OR 0x28) AND 0x3 = h AND (0x3 :: u32)"
  "shr (h OR 0x28) 1 AND 1 = shr h 1 AND (1 :: u32)" "shr (h OR 0x28) 2 AND 1 = shr h 2 AND (1 :: u32)"
  by (rule u32_eqI, unfold upt_32 list.pred_inject, intro conjI; simp add: word_bits)+

lemma unpack_header_C1k35s:
  assumes "Length m = 35"
  shows "Unpack_C1k35s (snd (add_HID_header m)) c = Unpack_C1k35s m c"
proof -
  have "Mid (snd (add_HID_header m)) = Mid m OR 0x28 \<and> Bot (snd (add_HID_header m)) = Bot m"
    using assms by (simp add: add_HID_header_def or.assoc)
  then show ?thesis
    by (simp only: Unpack_C1k35s_def header_C1k35s add_HID_header_Length)
qed

lemma codec_C1k35s: "codec 20 Pack_C1k35s Unpack_C1k35s 35"
proof (rule codecI)
  fix c assume v: "validate_card_limit (int 20) c"
  have l: "unat (CardNumber c) < 2 ^ 20" "unat (FacilityCode c) < 2 ^ 12" "IssueLevel c = 0" "OEM c = 0"
    using limits [OF v] by (auto simp: FormatFields_def descriptor_def word_le_nat_alt unat_eq_zero)
  let ?B = "ucast (shl (CardNumber c AND 0x000FFFFF) 1) OR shl (FacilityCode c AND 0x000007FF) 21"
  let ?M = "shr (FacilityCode c AND 0x00000800) 11"
  define p where "p = wparity ((?M AND 0x1) XOR (?B AND 0xB6DB6DB6))"
  let ?M1 = "?M OR shl (of_bool p) 1"
  define q where "q = (\<not> wparity ((?M1 AND 0x3) XOR (?B AND 0x6DB6DB6C)))"
  define b where "b = ?B OR of_bool q"
  define r where "r = (\<not> wparity ((?M1 AND 0x3) XOR (b AND 0xFFFFFFFF)))"
  define h where "h = ?M1 OR shl (of_bool r) 2"
  let ?w = "\<lparr>Length = 35, Top = 0, Mid = h, Bot = b\<rparr>"
  note w = words_C1k35s [OF l(1,2) b_def h_def]
  have P: "Pack_C1k35s (int 20) c m pre = finish_pack pre c ?w" for m pre
    unfolding h_def r_def b_def q_def p_def by (simp only: Pack_C1k35s_def v v [simplified] pack_words)
  have par: "wparity ((h AND 0x1) XOR (b AND 0xB6DB6DB6)) = p"
    "wparity ((h AND 0x3) XOR (b AND 0x6DB6DB6C)) = (\<not> q)"
    "wparity ((h AND 0x3) XOR (b AND 0xFFFFFFFF)) = (\<not> r)"
    unfolding w p_def q_def r_def by simp_all
  have "Unpack_C1k35s ?w card0 = (True, card0\<lparr>CardNumber := ucast (ucast (CardNumber c) :: u32),
      FacilityCode := FacilityCode c, ParityValid := True\<rparr>)"
    by (simp only: Unpack_C1k35s_def pack_words par w(1,2,6-8))
  then have "carries Unpack_C1k35s True ?w c"
    using l by (simp add: carries_def u64_of_u32 card0_def)
  with P show "\<exists>w. Length w = 35 \<and> carries Unpack_C1k35s (hasParity (FormatFields ! 20)) w c \<and>
      (\<forall>m pre. Pack_C1k35s (int 20) c m pre = finish_pack pre c w)"
    by (intro exI [of _ ?w]) (simp add: FormatFields_def descriptor_def)
qed (simp_all add: unpack_header_C1k35s Pack_C1k35s_def Let_def)

subsection \<open>C1k48s\<close>

lemma words_C1k48s:
  fixes cn :: u64 and fc :: u32 and p q r :: bool
  assumes "unat cn < 2 ^ 23" "unat fc < 2 ^ 22"
  defines "B \<equiv> ucast (shl (cn AND 0x007FFFFF) 1) OR shl (fc AND 0x000000FF) 24"
  defines "M \<equiv> shr (fc AND 0x003FFF00) 8"
  defines "M1 \<equiv> M OR shl (of_bool p) 14"
  assumes b: "b = B OR of_bool q" and h: "h = M1 OR shl (of_bool r) 15"
  shows "shr b 1 AND 0x007FFFFF = ucast cn" "shl (h AND 0x00003FFF) 8 OR shr b 24 = fc"
    "(h AND 0x00001B6D) XOR (b AND 0xB6DB6DB6) = (M AND 0x00001B6D) XOR (B AND 0xB6DB6DB6)"
    "(h AND 0x000036DB) XOR (b AND 0x6DB6DB6C) = (M1 AND 0x000036DB) XOR (B AND 0x6DB6DB6C)"
    "(h AND 0x00007FFF) XOR (b AND 0xFFFFFFFF) = (M1 AND 0x00007FFF) XOR (b AND 0xFFFFFFFF)"
    "shr h 14 AND 1 = of_bool p" "shr b 0 AND 1 = of_bool q" "shr h 15 AND 1 = of_bool r"
  unfolding b h B_def M_def M1_def
  by (rule u32_eqI, unfold upt_32 list.pred_inject, intro conjI;
     simp add: word_bits bit_lt_mask [OF assms(1)] bit_lt_mask [OF assms(2)])+

lemma header_C1k48s:
  "(h OR 0x10000) AND 0x00003FFF = h AND (0x00003FFF :: u32)"
  "(h OR 0x10000) AND 0x00001B6D = h AND (0x00001B6D :: u32)" "(h OR 0x10000) AND 0x000036DB = h AND (0x000036DB :: u32)"
  "(h OR 0x10000) AND 0x00007FFF = h AND (0x00007FFF :: u32)"
  "shr (h OR 0x10000) 14 AND 1 = shr h 14 AND (1 :: u32)" "shr (h OR 0x10000) 15 AND 1 = shr h 15 AND (1 :: u32)"
  by (rule u32_eqI, unfold upt_32 list.pred_inject, intro conjI; simp add: word_bits)+

lemma unpack_header_C1k48s:
  assumes "Length m = 48"
  shows "Unpack_C1k48s (snd (add_HID_header m)) c = Unpack_C1k48s m c"
proof -
  have "Mid (snd (add_HID_header m)) = Mid m OR 0x10000 \<and> Bot (snd (add_HID_header m)) = Bot m"
    using assms by (simp add: add_HID_header_def or.assoc)
  then show ?thesis
    by (simp only: Unpack_C1k48s_def header_C1k48s add_HID_header_Length)
qed

lemma codec_C1k48s: "codec 40 Pack_C1k48s Unpack_C1k48s 48"
proof (rule codecI)
  fix c assume v: "validate_card_limit (int 40) c"
  have l: "unat (CardNumber c) < 2 ^ 23" "unat (FacilityCode c) < 2 ^ 22" "IssueLevel c = 0" "OEM c = 0"
    using limits [OF v] by (auto simp: FormatFields_def descriptor_def word_le_nat_alt unat_eq_zero)
  let ?B = "ucast (shl (CardNumber c AND 0x007FFFFF) 1) OR shl (FacilityCode c AND 0x000000FF) 24"
  let ?M = "shr (FacilityCode c AND 0x003FFF00) 8"
  define p where "p = wparity ((?M AND 0x00001B6D) XOR (?B AND 0xB6DB6DB6))"
  let ?M1 = "?M OR shl (of_bool p) 14"
  define q where "q = (\<not> wparity ((?M1 AND 0x000036DB) XOR (?B AND 0x6DB6DB6C)))"
  define b where "b = ?B OR of_bool q"
  define r where "r = (\<not> wparity ((?M1 AND 0x00007FFF) XOR (b AND 0xFFFFFFFF)))"
  define h where "h = ?M1 OR shl (of_bool r) 15"
  let ?w = "\<lparr>Length = 48, Top = 0, Mid = h, Bot = b\<rparr>"
  note w = words_C1k48s [OF l(1,2) b_def h_def]
  have P: "Pack_C1k48s (int 40) c m pre = finish_pack pre c ?w" for m pre
    unfolding h_def r_def b_def q_def p_def by (simp only: Pack_C1k48s_def v v [simplified] pack_words)
  have par: "wparity ((h AND 0x00001B6D) XOR (b AND 0xB6DB6DB6)) = p"
    "wparity ((h AND 0x000036DB) XOR (b AND 0x6DB6DB6C)) = (\<not> q)"
    "wparity ((h AND 0x00007FFF) XOR (b AND 0xFFFFFFFF)) = (\<not> r)"
    unfolding w p_def q_def r_def by simp_all
  have "Unpack_C1k48s ?w card0 = (True, card0\<lparr>CardNumber := ucast (ucast (CardNumber c) :: u32),
      FacilityCode := FacilityCode c, ParityValid := True\<rparr>)"
    by (simp only: Unpack_C1k48s_def pack_words par w(1,2,6-8))
  then have "carries Unpack_C1k48s True ?w c"
    using l by (simp add: carries_def u64_of_u32 card0_def)
  with P show "\<exists>w. Length w = 48 \<and> carries Unpack_C1k48s (hasParity (FormatFields ! 40)) w c \<and>
      (\<forall>m pre. Pack_C1k48s (int 40) c m pre = finish_pack pre c w)"
    by (intro exI [of _ ?w]) (simp add: FormatFields_def descriptor_def)
qed (simp_all add: unpack_header_C1k48s Pack_C1k48s_def Let_def)

subsection \<open>H10306\<close>

lemma words_H10306:
  fixes cn :: u64 and fc :: u32 and p q :: bool
  assumes "unat cn < 2 ^ 16" "unat fc < 2 ^ 16"
  assumes w: "w = \<lparr>Length = 34, Top = 0, Mid = shr (fc AND 0x8000) 15 OR shl (of_bool p) 1,
    Bot = (ucast (shl (cn AND 0xFFFF) 1) OR shl (fc AND 0x7FFF) 17) OR of_bool q\<rparr>"
  shows "ucast (get_linear_field w 1 16) = fc" "get_linear_field w 17 16 = cn"
proof -
  show "ucast (get_linear_field w 1 16) = fc"
    unfolding w
    by (rule u32_eqI, unfold upt_32 list.pred_inject, intro conjI;
      simp add: word_bits get_linear_bit wbit_def mraw_def bit_lt_mask [OF assms(1)] bit_lt_mask [OF assms(2)])
  show "get_linear_field w 17 16 = cn"
  proof (rule bit_word_eqI)
    fix n
    have "list_all (\<lambda>n. bit (get_linear_field w 17 16) n = bit cn n) [0..<16]"
      unfolding w upt_16 list.pred_inject
      by (intro conjI; simp add: word_bits get_linear_bit wbit_def mraw_def bit_lt_mask [OF assms(2)])
    then show "bit (get_linear_field w 17 16) n = bit cn n"
      using bit_lt_mask [OF assms(1), of n] get_linear_bit [of 16 w 17 n]
      by (cases "n < 16") (auto simp: list_all_iff)
  qed
qed

lemma parities_H10306:
  fixes cn :: u64 and fc :: u32
  assumes "unat cn < 2 ^ 16" "unat fc < 2 ^ 16"
  defines "B \<equiv> ucast (shl (cn AND 0xFFFF) 1) OR shl (fc AND 0x7FFF) 17"
  defines "M \<equiv> shr (fc AND 0x8000) 15"
  shows "wparity ((M AND 0x00000001) XOR (B AND 0xFFFE0000)) = wparity fc"
    "wparity (B AND 0x0001FFFE) = wparity (ucast cn :: u32)"
proof -
  have M: "(M AND 0x00000001) XOR (B AND 0xFFFE0000) = of_bool (bit fc 15) XOR shl (take_bit 15 fc) 17"
    "B AND 0x0001FFFE = shl (ucast cn) 1"
    unfolding M_def B_def
    by (rule u32_eqI, unfold upt_32 list.pred_inject, intro conjI;
      simp add: word_bits bit_lt_mask [OF assms(1)] bit_lt_mask [OF assms(2)])+
  show "wparity ((M AND 0x00000001) XOR (B AND 0xFFFE0000)) = wparity fc"
    "wparity (B AND 0x0001FFFE) = wparity (ucast cn :: u32)"
    unfolding M wparity_sum upt_32
    by (simp_all add: word_bits bit_lt_mask [OF assms(1)] bit_lt_mask [OF assms(2)] ac_simps del: even_add odd_add)
qed

lemma codec_H10306: "codec 15 Pack_H10306 Unpack_H10306 34"
proof (rule codecI)
  fix c assume v: "validate_card_limit (int 15) c"
  have l: "unat (CardNumber c) < 2 ^ 16" "unat (FacilityCode c) < 2 ^ 16" "IssueLevel c = 0" "OEM c = 0"
    using limits [OF v] by (auto simp: FormatFields_def descriptor_def word_le_nat_alt unat_eq_zero)
  let ?B = "ucast (shl (CardNumber c AND 0xFFFF) 1) OR shl (FacilityCode c AND 0x7FFF) 17"
  let ?M = "shr (FacilityCode c AND 0x8000) 15"
  define p where "p = wparity ((?M AND 0x00000001) XOR (?B AND 0xFFFE0000))"
  define q where "q = (\<not> wparity (?B AND 0x0001FFFE))"
  define w where "w = \<lparr>Length = 34, Top = 0, Mid = ?M OR shl (of_bool p) 1, Bot = ?B OR of_bool q\<rparr>"
  note words = words_H10306 [OF l(1,2) w_def] and parities = parities_H10306 [OF l(1,2)]
  have P: "Pack_H10306 (int 15) c m pre = finish_pack pre c w" for m pre
    unfolding w_def q_def p_def by (simp only: Pack_H10306_def v v [simplified] pack_words)
  have L: "Length w = 34" and b: "wbit w 0 = p" "wbit w 33 = q"
    by (simp_all add: w_def wbit_def mraw_def word_bits)
  have "evenparity32 (FacilityCode c) = of_bool p" "oddparity32 (ucast (CardNumber c)) = of_bool q"
    unfolding p_def q_def parities by (simp_all add: parity_wparity)
  then have "carries Unpack_H10306 True w c"
    using l words by (simp add: carries_def Unpack_H10306_def L get_bit_wbit b card0_def)
  with P L show "\<exists>w. Length w = 34 \<and> carries Unpack_H10306 (hasParity (FormatFields ! 15)) w c \<and>
      (\<forall>m pre. Pack_H10306 (int 15) c m pre = finish_pack pre c w)"
    by (intro exI [of _ w]) (simp add: FormatFields_def descriptor_def)
qed (simp_all add: Unpack_H10306_def Pack_H10306_def Let_def codec_laws)

subsection \<open>H10320\<close>

lemma digits_sum: "(\<Sum>i<k. n div 10 ^ i mod 10 * 10 ^ i) = n mod (10 :: nat) ^ k"
proof (induction k)
  case (Suc k)
  have "n mod (10 ^ k * 10) = 10 ^ k * (n div 10 ^ k mod 10) + n mod 10 ^ k" by (rule mod_mult2_eq)
  then show ?case using Suc by (simp add: ac_simps)
qed simp

lemma word_digit:
  assumes "k < 8"
  shows "cn div 10 ^ k mod 10 = (word_of_nat (unat cn div 10 ^ k mod 10) :: u64)"
proof -
  have "(10::nat) ^ k < 2 ^ 64" using assms power_strict_increasing [of k 8 "10::nat"] by simp
  then have "unat ((10 :: u64) ^ k) = 10 ^ k"
    using unat_of_nat [of "10 ^ k", where 'a = 64] by simp
  then show ?thesis
    by (intro word_unat_eq_iff [THEN iffD2]) (simp add: unat_div unat_mod unat_of_nat)
qed

lemma digit_facts:
  fixes cn :: u64
  assumes "k < 8"
  defines "d \<equiv> cn div 10 ^ k mod 10"
  shows "take_bit 4 d = d" "\<not> 9 < d" "unat d = unat cn div 10 ^ k mod 10"
proof -
  show u: "unat d = unat cn div 10 ^ k mod 10"
    unfolding d_def word_digit [OF assms(1)] by (simp add: unat_of_nat)
  have "unat d < 10" unfolding u by simp
  then show "take_bit 4 d = d" "\<not> 9 < d"
    by (simp_all add: take_bit_self_iff word_less_nat_alt)
qed

lemma digits_word:
  fixes cn :: u64
  assumes "unat cn < 10 ^ 8"
  shows "cn div 10 ^ 7 mod 10 * 10 ^ 7 + cn div 10 ^ 6 mod 10 * 10 ^ 6 + cn div 10 ^ 5 mod 10 * 10 ^ 5 +
    cn div 10 ^ 4 mod 10 * 10 ^ 4 + cn div 10 ^ 3 mod 10 * 10 ^ 3 + cn div 10 ^ 2 mod 10 * 10 ^ 2 +
    cn div 10 ^ 1 mod 10 * 10 ^ 1 + cn div 10 ^ 0 mod 10 * 10 ^ 0 = cn"
proof -
  let ?n = "unat cn"
  have "(\<Sum>i<8. ?n div 10 ^ i mod 10 * 10 ^ i) = ?n" using assms by (simp add: digits_sum)
  then have "word_of_nat (\<Sum>i<8. ?n div 10 ^ i mod 10 * 10 ^ i) = cn" by simp
  moreover have "word_of_nat (\<Sum>i<8. ?n div 10 ^ i mod 10 * 10 ^ i) = (\<Sum>i<8. cn div 10 ^ i mod 10 * 10 ^ i)"
    by (simp add: word_digit)
  ultimately show ?thesis
    by (simp add: lessThan_nat_numeral ac_simps)
qed


lemma bit_3_digit:
  assumes "unat (d :: u64) < 10"
  shows "bit d 3 = (8 \<le> unat d)"
proof -
  have "bit d 3 = bit (unat d) 3" by (simp add: bit_unsigned_iff)
  also have "\<dots> = odd (unat d div 8)" by (simp only: bit_iff_odd) simp
  also have "\<dots> = (8 \<le> unat d)" using assms by presburger
  finally show ?thesis .
qed

text \<open>The message of eight digits and what the unpacker reads from it.\<close>

definition H10320_digits :: "(nat \<Rightarrow> u64) \<Rightarrow> wiegand_message" where
  "H10320_digits D = fold (\<lambda>idx packed. snd (set_linear_field packed (D idx) (idx * 4) 4)) [0..<8]
     (snd (set_bit_by_position (message0\<lparr>Length := 37\<rparr>) True 0))"

lemma H10320_digits_laws:
  assumes "\<And>i. i < 8 \<Longrightarrow> take_bit 4 (D i) = D i"
  shows "Length (H10320_digits D) = 37" "wbit (H10320_digits D) 0 = bit (D 0) 3"
    "i < 8 \<Longrightarrow> get_linear_field (H10320_digits D) (i * 4) 4 = D i"
proof -
  show "Length (H10320_digits D) = 37" "wbit (H10320_digits D) 0 = bit (D 0) 3"
    by (simp_all add: H10320_digits_def upt_8 codec_laws set_linear_ok)
  have "\<forall>i<8. get_linear_field (H10320_digits D) (i * 4) 4 = D i"
    unfolding all_less_8 H10320_digits_def upt_8
    by (intro conjI; simp add: codec_laws assms)
  then show "i < 8 \<Longrightarrow> get_linear_field (H10320_digits D) (i * 4) 4 = D i" by blast
qed

definition H10320_message :: "(nat \<Rightarrow> u64) \<Rightarrow> wiegand_message" where
  "H10320_message D =
    (let packed = H10320_digits D;
         packed = snd (set_bit_by_position packed (evenparity32 (ucast (get_nonlinear_field packed 8 [0, 4, 8, 12, 16, 20, 24, 28])) \<noteq> 0) 32);
         packed = snd (set_bit_by_position packed (oddparity32 (ucast (get_nonlinear_field packed 8 [1, 5, 9, 13, 17, 21, 25, 29])) \<noteq> 0) 33);
         packed = snd (set_bit_by_position packed (evenparity32 (ucast (get_nonlinear_field packed 8 [2, 6, 10, 14, 18, 22, 28, 30])) \<noteq> 0) 34)
     in snd (set_bit_by_position packed (evenparity32 (ucast (get_nonlinear_field packed 8 [3, 7, 11, 15, 19, 23, 29, 31])) \<noteq> 0) 35))"

lemma H10320_digit_loop:
  assumes "\<And>i. i < 8 \<Longrightarrow> get_linear_field m (i * 4) 4 = D i" "\<And>i. i < 8 \<Longrightarrow> \<not> 9 < D i"
  shows "h10320_digits m [0..<8] card0 = (True, card0\<lparr>CardNumber := D 0 * 10 ^ 7 + D 1 * 10 ^ 6 + D 2 * 10 ^ 5 +
    D 3 * 10 ^ 4 + D 4 * 10 ^ 3 + D 5 * 10 ^ 2 + D 6 * 10 ^ 1 + D 7 * 10 ^ 0\<rparr>)"
proof -
  have "\<forall>i<8. get_linear_field m (i * 4) 4 = D i" "\<forall>i<8. \<not> 9 < D i" using assms by auto
  then show ?thesis
    unfolding all_less_8 upt_8 by (simp add: card0_def Let_def)
qed

lemma H10320_unpack:
  assumes D: "\<And>i. i < 8 \<Longrightarrow> take_bit 4 (D i) = D i" "\<And>i. i < 8 \<Longrightarrow> \<not> 9 < D i"
  shows "\<exists>u. Unpack_H10320 (H10320_message D) card0 = (bit (D 0) 3, u) \<and> (bit (D 0) 3 \<longrightarrow>
    u = card0\<lparr>CardNumber := D 0 * 10 ^ 7 + D 1 * 10 ^ 6 + D 2 * 10 ^ 5 +
      D 3 * 10 ^ 4 + D 4 * 10 ^ 3 + D 5 * 10 ^ 2 + D 6 * 10 ^ 1 + D 7 * 10 ^ 0, ParityValid := True\<rparr>)"
proof -
  let ?m = "H10320_message D"
  note laws = H10320_digits_laws [of D, OF D(1)]
  have "\<forall>i<8. get_linear_field ?m (i * 4) 4 = D i"
  proof -
    have "\<forall>i<8. get_linear_field (H10320_digits D) (i * 4) 4 = D i" using laws(3) by blast
    then show ?thesis
      unfolding all_less_8 by (simp add: H10320_message_def Let_def codec_laws laws(1))
  qed
  then have "h10320_digits ?m [0..<8] card0 = (True, card0\<lparr>CardNumber := D 0 * 10 ^ 7 + D 1 * 10 ^ 6 + D 2 * 10 ^ 5 +
    D 3 * 10 ^ 4 + D 4 * 10 ^ 3 + D 5 * 10 ^ 2 + D 6 * 10 ^ 1 + D 7 * 10 ^ 0\<rparr>)"
    by (intro H10320_digit_loop) (use D in auto)
  moreover have "Length ?m = 37" "wbit ?m 0 = bit (D 0) 3"
    by (simp_all add: H10320_message_def Let_def laws codec_laws)
  moreover have "get_bit_by_position ?m 32 = evenparity32 (ucast (get_nonlinear_field ?m 8 [0, 4, 8, 12, 16, 20, 24, 28]))"
    "get_bit_by_position ?m 33 = oddparity32 (ucast (get_nonlinear_field ?m 8 [1, 5, 9, 13, 17, 21, 25, 29]))"
    "get_bit_by_position ?m 34 = evenparity32 (ucast (get_nonlinear_field ?m 8 [2, 6, 10, 14, 18, 22, 28, 30]))"
    "get_bit_by_position ?m 35 = evenparity32 (ucast (get_nonlinear_field ?m 8 [3, 7, 11, 15, 19, 23, 29, 31]))"
    by (simp_all add: H10320_message_def Let_def laws codec_laws)
  ultimately show ?thesis
    by (simp add: Unpack_H10320_def get_bit_wbit card0_def)
qed

lemma h10320_digits_header: "h10320_digits (snd (add_HID_header m)) xs c = h10320_digits m xs c"
  by (induction xs arbitrary: c) (simp_all add: Let_def codec_laws)

lemma unpack_header_H10320:
  "Length m = 37 \<Longrightarrow> Unpack_H10320 (snd (add_HID_header m)) c = Unpack_H10320 m c"
  by (cases "h10320_digits m [0..<8] card0") (simp add: Unpack_H10320_def h10320_digits_header codec_laws)

lemma codec_H10320: "codec 25 Pack_H10320 Unpack_H10320 37"
  unfolding codec_def
proof (intro allI)
  fix c :: wiegand_card and m :: wiegand_message and pre :: bool
  let ?D = "\<lambda>idx. CardNumber c div 10 ^ (7 - idx) mod 10"
  let ?w = "H10320_message ?D"
  have P: "Pack_H10320 (int 25) c m pre = (if \<not> validate_card_limit (int 25) c then (False, c, message0)
      else finish_pack pre c ?w)"
    by (simp only: Pack_H10320_def H10320_message_def H10320_digits_def Let_def)
  have D: "take_bit 4 (?D i) = ?D i" "\<not> 9 < ?D i" if "i < 8" for i
    by (rule digit_facts; simp)+
  have L: "Length ?w = 37"
    using H10320_digits_laws(1) [of ?D, OF D(1)] by (simp add: H10320_message_def Let_def)
  have "carries Unpack_H10320 True (if pre then snd (add_HID_header ?w) else ?w) c = row_fits 25 c pre"
    if v: "validate_card_limit (int 25) c"
  proof -
    have l: "unat (CardNumber c) < 10 ^ 8" "FacilityCode c = 0" "IssueLevel c = 0" "OEM c = 0"
      using limits [OF v] by (auto simp: FormatFields_def descriptor_def word_le_nat_alt unat_eq_zero)
    have "unat (CardNumber c) div 10 ^ 7 < 10" using l(1) by simp
    then have b: "bit (?D 0) 3 = row_fits 25 c pre"
      using digit_facts(3) [of 7 "CardNumber c"] by (simp add: bit_3_digit row_fits_def less_eq_div_iff_mult_less_eq)
    obtain u where u: "Unpack_H10320 ?w card0 = (bit (?D 0) 3, u)"
      "bit (?D 0) 3 \<Longrightarrow> u = card0\<lparr>CardNumber := CardNumber c, ParityValid := True\<rparr>"
      using H10320_unpack [of ?D, OF D] digits_word [OF l(1)] by auto
    have "carries Unpack_H10320 True ?w c = row_fits 25 c pre"
      using u l unfolding carries_def b by (auto simp: card0_def)
    moreover have "Unpack_H10320 (snd (add_HID_header ?w)) card0 = Unpack_H10320 ?w card0"
      by (rule unpack_header_H10320 [OF L])
    ultimately show ?thesis by (simp add: carries_def)
  qed
  then show "fst (Pack_H10320 (int 25) c m pre) = row_accepts 25 c \<and> (row_accepts 25 c \<longrightarrow>
    fst (snd (Pack_H10320 (int 25) c m pre)) = row_card 25 c \<and> Length (snd (snd (Pack_H10320 (int 25) c m pre))) = 37 \<and>
    carries Unpack_H10320 (hasParity (FormatFields ! 25)) (snd (snd (Pack_H10320 (int 25) c m pre))) (row_card 25 c)
      = row_fits 25 c pre)"
    unfolding P by (simp add: L finish_pack_simps add_HID_header_ok row_accepts_def row_card_def FormatFields_def descriptor_def)
qed
end
