(* ===== verification/Wiegand_Table.thy ===== *)
theory Wiegand_Table
  imports Wiegand_Words
begin

text \<open>
  The format table as a whole: every row satisfies the contract \<open>codec\<close>, so that packing, the
  search for a matching format and the decoding of a raw HID frame fit together. The locale
  \<open>format_table\<close> holds what the search relies on; it is interpreted on \<open>FormatTable\<close>.
\<close>

subsection \<open>All rows\<close>

lemma upt_43: "[0..<43] = [0, 1, 2, 3, 4, 5, 6, 7, 8, 9, 10, 11, 12, 13, 14, 15, 16, 17, 18, 19, 20, 21,
  22, 23, 24, 25, 26, 27, 28, 29, 30, 31, 32, 33, 34, 35, 36, 37, 38, 39, 40, 41, 42]"
  by code_simp

lemmas codec_rows = codec_accessors codec_HPP32 codec_S12906b codec_HGen37 codec_Avig56 codec_IR56
  codec_H800002 codec_H10301 codec_C1k35s codec_C1k48s codec_H10306 codec_H10320

lemma length_FormatTable [simp]: "length FormatTable = 43"
  by (simp add: FormatTable_def)

lemma table_list: "list_all2 P [0..<43] FormatTable \<Longrightarrow> i < 43 \<Longrightarrow> P i (FormatTable ! i)"
  by (auto simp: list_all2_conv_all_nth)

lemma table_codec:
  "i < 43 \<Longrightarrow> codec i (Pack (FormatTable ! i)) (Unpack (FormatTable ! i)) (Bits (FormatTable ! i))"
proof (rule table_list [where P = "\<lambda>i f. codec i (Pack f) (Unpack f) (Bits f)"])
  show "list_all2 (\<lambda>i f. codec i (Pack f) (Unpack f) (Bits f)) [0..<43] FormatTable"
    unfolding upt_43 FormatTable_def format_row_def list.rel_inject cardformat.simps
    by (intro conjI list.rel_intros(1) codec_rows)
qed

lemma table_Fields: "i < 43 \<Longrightarrow> Fields (FormatTable ! i) = FormatFields ! i"
proof (rule table_list [where P = "\<lambda>i f. Fields f = FormatFields ! i"])
  show "list_all2 (\<lambda>i f. Fields f = FormatFields ! i) [0..<43] FormatTable"
    unfolding upt_43 FormatTable_def format_row_def list.rel_inject cardformat.simps by (intro conjI refl list.rel_intros(1))
qed

lemma table_Bits: "i < 43 \<Longrightarrow> 26 \<le> Bits (FormatTable ! i) \<and> Bits (FormatTable ! i) \<le> 56"
proof (rule table_list [where P = "\<lambda>i f. 26 \<le> Bits f \<and> Bits f \<le> 56"])
  show "list_all2 (\<lambda>i f. 26 \<le> Bits f \<and> Bits f \<le> 56) [0..<43] FormatTable"
    unfolding upt_43 FormatTable_def format_row_def list.rel_inject cardformat.simps by simp
qed

text \<open>A result of an \<open>Unpack\<close> does not depend on the card object it is given.\<close>

definition fresh :: "unpack_fun \<Rightarrow> bool" where
  "fresh unpack \<longleftrightarrow> (\<forall>m c c'. fst (unpack m c) \<longrightarrow> unpack m c' = unpack m c)"

lemma table_fresh: "i < 43 \<Longrightarrow> fresh (Unpack (FormatTable ! i))"
proof (rule table_list [where P = "\<lambda>i f. fresh (Unpack f)"])
  show "list_all2 (\<lambda>i f. fresh (Unpack f)) [0..<43] FormatTable"
    unfolding upt_43 FormatTable_def format_row_def list.rel_inject cardformat.simps
    by (intro conjI list.rel_intros(1); simp add: fresh_def case_prod_beta Let_def
    Unpack_H10301_def Unpack_ind26_def Unpack_ind27_def Unpack_indasc27_def Unpack_Tecom27_def
    Unpack_2804W_def Unpack_ind29_def Unpack_ATSW30_def Unpack_ADT31_def Unpack_hcp32_def
    Unpack_hpp32_def Unpack_Kastle_def Unpack_Kantech_def Unpack_wie32_def Unpack_D10202_def
    Unpack_H10306_def Unpack_N10002_def Unpack_Optus_def Unpack_Smartpass_def Unpack_bqt34_def
    Unpack_C1k35s_def Unpack_C15001_def Unpack_S12906_def Unpack_S12906b_def Unpack_Sie36_def
    Unpack_H10320_def Unpack_H10302_def Unpack_H10304_def Unpack_P10004_def Unpack_HGeneric37_def
    Unpack_MDI37_def Unpack_bqt38_def Unpack_iscs38_def Unpack_pw39_def Unpack_P10001_def
    Unpack_CasiRusco40_def Unpack_Verkada40_def Unpack_bc40_def Unpack_Defcon32_def
    Unpack_H800002_def Unpack_C1k48s_def Unpack_Avig56_def Unpack_IR56_def)
qed

text \<open>An \<open>Unpack\<close> succeeds on messages of the length of its row only.\<close>

lemma table_unpack_length:
  "i < 43 \<Longrightarrow> fst (Unpack (FormatTable ! i) m c) \<Longrightarrow> Length m = Bits (FormatTable ! i)"
proof -
  have "list_all2 (\<lambda>i f. fst (Unpack f m c) \<longrightarrow> Length m = Bits f) [0..<43] FormatTable"
    unfolding upt_43 FormatTable_def format_row_def list.rel_inject cardformat.simps
    by (intro conjI list.rel_intros(1); simp add: case_prod_beta Let_def
    Unpack_H10301_def Unpack_ind26_def Unpack_ind27_def Unpack_indasc27_def Unpack_Tecom27_def
    Unpack_2804W_def Unpack_ind29_def Unpack_ATSW30_def Unpack_ADT31_def Unpack_hcp32_def
    Unpack_hpp32_def Unpack_Kastle_def Unpack_Kantech_def Unpack_wie32_def Unpack_D10202_def
    Unpack_H10306_def Unpack_N10002_def Unpack_Optus_def Unpack_Smartpass_def Unpack_bqt34_def
    Unpack_C1k35s_def Unpack_C15001_def Unpack_S12906_def Unpack_S12906b_def Unpack_Sie36_def
    Unpack_H10320_def Unpack_H10302_def Unpack_H10304_def Unpack_P10004_def Unpack_HGeneric37_def
    Unpack_MDI37_def Unpack_bqt38_def Unpack_iscs38_def Unpack_pw39_def Unpack_P10001_def
    Unpack_CasiRusco40_def Unpack_Verkada40_def Unpack_bc40_def Unpack_Defcon32_def
    Unpack_H800002_def Unpack_C1k48s_def Unpack_Avig56_def Unpack_IR56_def)
  then show "i < 43 \<Longrightarrow> fst (Unpack (FormatTable ! i) m c) \<Longrightarrow> Length m = Bits (FormatTable ! i)"
    using table_list [where P = "\<lambda>i f. fst (Unpack f m c) \<longrightarrow> Length m = Bits f"] by blast
qed

text \<open>The words above the message are clear unless a header was asked for, and the header is \<open>add_HID_header\<close>.\<close>

definition clean :: "wiegand_message \<Rightarrow> bool" where
  "clean m \<longleftrightarrow> (\<forall>q\<ge>Length m. \<not> mraw m q)"

lemma clean_intros [inv_intros]:
  "clean (message0\<lparr>Length := n\<rparr>)"
  "clean m \<Longrightarrow> Length m \<le> 96 \<Longrightarrow> clean (snd (set_bit_by_position m v p))"
proof -
  show "clean (message0\<lparr>Length := n\<rparr>)" by (simp add: clean_def mraw_def message0_def)
  assume m: "clean m" "Length m \<le> 96"
  show "clean (snd (set_bit_by_position m v p))"
  proof (cases "p < Length m")
    case True
    then show ?thesis using m set_bit_mraw(2) [OF True m(2), of v] by (auto simp: clean_def)
  next
    case False
    then show ?thesis using m by (simp add: set_bit_by_position_def)
  qed
qed

lemma clean_fold:
  assumes "\<And>i s. clean (snd s) \<Longrightarrow> Length (snd s) \<le> 96 \<Longrightarrow> clean (snd (f i s)) \<and> Length (snd (f i s)) = Length (snd s)"
    and "clean (snd s)" "Length (snd s) \<le> 96"
  shows "clean (snd (fold f xs s))"
  using assms(2-3)
proof (induction xs arbitrary: s)
  case (Cons i xs)
  then show ?case using assms(1) [of s i] by simp
qed simp

lemma clean_fields [inv_intros]:
  assumes "clean m" "Length m \<le> 96"
  shows "clean (snd (set_linear_field m v fb n))" "clean (snd (set_nonlinear_field m v n ps))"
proof -
  have "clean (snd (fold (\<lambda>i (result, t). let (ok, t) = set_bit_by_position t (V i) (P i)
      in (result \<and> ok, t)) xs (True, m)))" for V P and xs :: "nat list"
    by (rule clean_fold) (use assms in \<open>auto simp: case_prod_beta Let_def intro: clean_intros\<close>)
  then show "clean (snd (set_linear_field m v fb n))" "clean (snd (set_nonlinear_field m v n ps))"
    unfolding set_linear_field_def set_nonlinear_field_def
    using assms(1) by (simp_all add: case_prod_beta Let_def)
qed

definition framed :: "nat \<Rightarrow> pack_fun \<Rightarrow> bool" where
  "framed i pack \<longleftrightarrow> (\<forall>c m. row_accepts i c \<longrightarrow> clean (snd (snd (pack (int i) c m False))) \<and>
     snd (snd (pack (int i) c m True)) = snd (add_HID_header (snd (snd (pack (int i) c m False)))))"


lemma framed_S12906b: "framed 23 Pack_S12906b"
proof -
  have "OEM c = 0 \<and> IssueLevel c = 0" if "validate_card_limit 23 c" for c
    using limits [of 23 c] that by (simp add: FormatFields_def descriptor_def)
  then show ?thesis
    by (simp add: framed_def row_accepts_def Let_def finish_pack_simps clean_intros clean_fields Pack_S12906b_def)
qed

text \<open>A message of literal words is clean when its highest bits are.\<close>

lemma clean_listed:
  assumes "list_all (\<lambda>q. \<not> mraw m q) [Length m..<96]"
  shows "clean m"
  unfolding clean_def
proof (intro allI impI)
  fix q assume "Length m \<le> q"
  then show "\<not> mraw m q"
    using assms by (cases "q < 96") (simp_all add: list_all_iff, simp add: mraw_def)
qed

lemma framed_words:
  "framed 0 Pack_H10301" "framed 15 Pack_H10306" "framed 20 Pack_C1k35s" "framed 40 Pack_C1k48s"
  by (simp_all add: framed_def row_accepts_def Let_def finish_pack_simps message0_def
      Pack_H10301_def Pack_H10306_def Pack_C1k35s_def Pack_C1k48s_def)
    (intro allI impI clean_listed; simp add: mraw_def word_bits parity_wparity del: bit_0)+

lemma framed_IR56: "framed 42 Pack_IR56"
proof -
  have "clean \<lparr>Length = 56, Top = 0, Mid = FacilityCode c, Bot = b\<rparr>" if "validate_card_limit 42 c" for c b
  proof -
    have "unat (FacilityCode c) < 2 ^ 24"
      using limits [of 42 c] that by (simp add: FormatFields_def descriptor_def word_le_nat_alt)
    from bit_lt_mask [OF this] show ?thesis by (intro clean_listed) (simp add: mraw_def)
  qed
  then show ?thesis
    by (simp add: framed_def row_accepts_def Let_def finish_pack_simps message0_def Pack_IR56_def)
qed

lemma table_framed: "i < 43 \<Longrightarrow> framed i (Pack (FormatTable ! i))"
proof (rule table_list [where P = "\<lambda>i f. framed i (Pack f)"])
  show "list_all2 (\<lambda>i f. framed i (Pack f)) [0..<43] FormatTable"
    unfolding upt_43 FormatTable_def format_row_def list.rel_inject cardformat.simps
    by (intro conjI list.rel_intros(1) framed_words framed_IR56 framed_S12906b;
      simp add: framed_def row_accepts_def Let_def finish_pack_simps clean_intros clean_fields upt_8
    Pack_H10301_def Pack_ind26_def Pack_ind27_def Pack_indasc27_def Pack_Tecom27_def
    Pack_2804W_def Pack_ind29_def Pack_ATSW30_def Pack_ADT31_def Pack_hcp32_def Pack_hpp32_def
    Pack_Kastle_def Pack_Kantech_def Pack_wie32_def Pack_D10202_def Pack_H10306_def
    Pack_N10002_def Pack_Optus_def Pack_Smartpass_def Pack_bqt34_def Pack_C1k35s_def
    Pack_C15001_def Pack_S12906_def Pack_S12906b_def Pack_Sie36_def Pack_H10320_def
    Pack_H10302_def Pack_H10304_def Pack_P10004_def Pack_HGeneric37_def Pack_MDI37_def
    Pack_bqt38_def Pack_iscs38_def Pack_pw39_def Pack_P10001_def Pack_CasiRusco40_def
    Pack_Verkada40_def Pack_bc40_def Pack_Defcon32_def Pack_H800002_def Pack_C1k48s_def
    Pack_Avig56_def Pack_IR56_def)
qed

subsection \<open>The search for a format\<close>

text \<open>
  What the search needs of a table of unpackers: a hit does not depend on the card object that the
  rows share. The search then reports exactly the rows that unpack the message, and succeeds when
  one of them has valid parity or none.
\<close>

locale unpack_table =
  fixes rows :: nat and unpack :: "nat \<Rightarrow> unpack_fun" and par :: "nat \<Rightarrow> bool"
  assumes unpack_fresh: "i < rows \<Longrightarrow> fst (unpack i m c) \<Longrightarrow> unpack i m c' = unpack i m c"
begin

definition search_step :: "wiegand_message \<Rightarrow> nat \<Rightarrow> try_state \<Rightarrow> try_state" where
  "search_step m i st =
    (let (ok, crd) = unpack i m (try_card st); st = st\<lparr>try_card := crd\<rparr> in
     if ok then
       let st = st\<lparr>found_cnt := found_cnt st + 1, printed := printed st @ [(i, crd)]\<rparr>
       in if par i \<and> \<not> ParityValid crd then st\<lparr>found_invalid_par := found_invalid_par st + 1\<rparr> else st
     else st)"

definition hit :: "wiegand_message \<Rightarrow> nat \<Rightarrow> bool" where
  "hit m i = fst (unpack i m card0)"

definition good :: "wiegand_message \<Rightarrow> nat \<Rightarrow> bool" where
  "good m i \<longleftrightarrow> hit m i \<and> (par i \<longrightarrow> ParityValid (snd (unpack i m card0)))"

lemma unpack_hit: "i < rows \<Longrightarrow> fst (unpack i m c) = hit m i \<and> (hit m i \<longrightarrow> unpack i m c = unpack i m card0)"
  unfolding hit_def using unpack_fresh by metis

lemma search_step_hit:
  assumes "i < rows" "hit m i"
  shows "found_cnt (search_step m i s) = Suc (found_cnt s)"
    and "int (found_cnt (search_step m i s)) - int (found_invalid_par (search_step m i s)) =
      int (found_cnt s) - int (found_invalid_par s) + (if good m i then 1 else 0)"
    and "printed (search_step m i s) = printed s @ [(i, snd (unpack i m card0))]"
  using assms(2) [unfolded hit_def] assms(2) unpack_hit [of i m "try_card s"] assms(1)
  by (simp_all add: search_step_def case_prod_beta Let_def good_def)

lemma search_step_miss:
  assumes "i < rows" "\<not> hit m i"
  shows "found_cnt (search_step m i s) = found_cnt s"
    and "found_invalid_par (search_step m i s) = found_invalid_par s"
    and "printed (search_step m i s) = printed s"
  using assms unpack_hit [of i m "try_card s"]
  by (simp_all add: search_step_def case_prod_beta Let_def good_def)

lemma search_prefix:
  assumes "n \<le> rows" "st0 = \<lparr>try_card = card0, found_cnt = 0, found_invalid_par = 0, printed = []\<rparr>"
    and st: "st = fold (search_step m) [0..<n] st0"
  shows "found_cnt st = length (filter (hit m) [0..<n]) \<and>
    int (found_cnt st) - int (found_invalid_par st) = int (length (filter (good m) [0..<n])) \<and>
    printed st = map (\<lambda>i. (i, snd (unpack i m card0))) (filter (hit m) [0..<n])"
  using assms(1) unfolding st
proof (induction n)
  case (Suc n)
  define s where "s = fold (search_step m) [0..<n] st0"
  have e: "fold (search_step m) [0..<Suc n] st0 = search_step m n s" by (simp add: s_def)
  have n: "n < rows" and IH: "found_cnt s = length (filter (hit m) [0..<n])"
    "int (found_cnt s) - int (found_invalid_par s) = int (length (filter (good m) [0..<n]))"
    "printed s = map (\<lambda>i. (i, snd (unpack i m card0))) (filter (hit m) [0..<n])"
    using Suc unfolding s_def by auto
  show ?case
  proof (cases "hit m n")
    case True
    show ?thesis
      unfolding e using search_step_hit [OF n True, of s] IH True by (cases "good m n") simp_all
  next
    case False
    show ?thesis unfolding e using search_step_miss [OF n False, of s] IH False by (simp add: good_def [of m n])
  qed
qed (simp add: assms(2))

end

text \<open>A table whose rows also pack: what a row accepts and carries, the search recognises.\<close>

locale format_table = unpack_table +
  fixes pack :: "nat \<Rightarrow> pack_fun" and accepts :: "nat \<Rightarrow> wiegand_card \<Rightarrow> bool"
    and stored :: "nat \<Rightarrow> wiegand_card \<Rightarrow> wiegand_card" and fits :: "nat \<Rightarrow> wiegand_card \<Rightarrow> bool \<Rightarrow> bool"
  assumes pack_accepts: "i < rows \<Longrightarrow> fst (pack i (int i) c m pre) = accepts i c"
    and pack_carries: "i < rows \<Longrightarrow> accepts i c \<Longrightarrow>
      carries (unpack i) (par i) (snd (snd (pack i (int i) c m pre))) (stored i c) = fits i c pre"
begin

lemma packed_good:
  assumes "i < rows" "accepts i c" "fits i c pre"
  shows "good (snd (snd (pack i (int i) c m pre))) i"
  using pack_carries [OF assms(1,2)] assms(3)
  by (auto simp: carries_def good_def hit_def case_prod_beta Let_def)

lemma pack_inj:
  assumes "i < rows" "accepts i c" "fits i c pre" "accepts i d" "fits i d pre"
    and "snd (snd (pack i (int i) c m pre)) = snd (snd (pack i (int i) d m pre))"
  shows "FacilityCode (stored i c) = FacilityCode (stored i d) \<and> CardNumber (stored i c) = CardNumber (stored i d) \<and>
    IssueLevel (stored i c) = IssueLevel (stored i d) \<and> OEM (stored i c) = OEM (stored i d)"
proof -
  define w where "w = snd (snd (pack i (int i) c m pre))"
  have "carries (unpack i) (par i) w (stored i c)" "carries (unpack i) (par i) w (stored i d)"
    unfolding w_def using pack_carries [OF assms(1,2), of m pre] pack_carries [OF assms(1,4), of m pre] assms(3,5,6)
    by simp_all
  then show ?thesis
    by (simp add: carries_def case_prod_beta Let_def)
qed

end

interpretation wiegand: format_table 43 "\<lambda>i. Unpack (FormatTable ! i)" "\<lambda>i. hasParity (FormatFields ! i)"
  "\<lambda>i. Pack (FormatTable ! i)" row_accepts row_card row_fits
proof
  fix i m c c' pre
  assume i: "i < (43::nat)"
  show "fst (Unpack (FormatTable ! i) m c) \<Longrightarrow> Unpack (FormatTable ! i) m c' = Unpack (FormatTable ! i) m c"
    using table_fresh [OF i] unfolding fresh_def by blast
  show "fst (Pack (FormatTable ! i) (int i) c m pre) = row_accepts i c"
    "row_accepts i c \<Longrightarrow> carries (Unpack (FormatTable ! i)) (hasParity (FormatFields ! i))
      (snd (snd (Pack (FormatTable ! i) (int i) c m pre))) (row_card i c) = row_fits i c pre"
    using table_codec [OF i] unfolding codec_def by blast+
qed

subsection \<open>The length in the header\<close>

lemma header_len_loop_top:
  "bit h k \<Longrightarrow> (\<forall>j>k. \<not> bit h j) \<Longrightarrow> header_len_loop h len = len + k + 1"
proof (induction k arbitrary: h len)
  case 0
  have "bit h n = bit 1 n" for n
    using 0 by (cases "n = 0") (simp_all add: bit_1_iff)
  then have "h = 1" by (rule bit_word_eqI)
  then show ?case by (simp add: header_len_loop.simps [of 1] header_len_loop.simps [of 0])
next
  case (Suc k)
  have "h \<noteq> 0" using Suc.prems(1) by auto
  then have "header_len_loop h len = header_len_loop (shr h 1) (len + 1)"
    by (simp add: header_len_loop.simps [of h] word_gt_0)
  also have "\<dots> = len + 1 + k + 1"
    by (rule Suc.IH) (use Suc.prems in \<open>auto simp: bit_drop_bit_eq\<close>)
  finally show ?case by simp
qed

lemma header_len_loop_0: "header_len_loop 0 len = len"
  by (simp add: header_len_loop.simps [of 0])

text \<open>The sentinel above a binary string may already be set, except for 37 bits, which have none.\<close>

definition nearly_clean :: "wiegand_message \<Rightarrow> bool" where
  "nearly_clean m \<longleftrightarrow> (\<forall>q>Length m. \<not> mraw m q) \<and> (Length m = 37 \<longrightarrow> \<not> mraw m 37)"

lemma clean_nearly: "clean m \<Longrightarrow> nearly_clean m"
  by (simp add: clean_def nearly_clean_def)

lemma nearly_clean_words:
  assumes "nearly_clean m"
  shows "Length m < 64 \<Longrightarrow> Top m = 0" "Length m < 32 \<Longrightarrow> Mid m = 0"
    "Length m < 64 + j \<Longrightarrow> \<not> bit (Top m) j" "Length m < 32 + j \<Longrightarrow> \<not> bit (Mid m) j"
    "Length m < j \<Longrightarrow> \<not> bit (Bot m) j" "Length m = 37 \<Longrightarrow> \<not> bit (Mid m) 5"
proof -
  note q = assms [unfolded nearly_clean_def, THEN conjunct1, rule_format]
  have t: "\<not> bit (Top m) j" if "Length m < 64 + j" for j
    using q [OF that] by (cases "j < 32") (auto simp: mraw_def)
  have d: "\<not> bit (Mid m) j" if "Length m < 32 + j" for j
    using q [OF that] by (cases "j < 32") (auto simp: mraw_def)
  have b: "\<not> bit (Bot m) j" if "Length m < j" for j
    using q [OF that] by (cases "j < 32") (auto simp: mraw_def)
  show "Length m < 64 \<Longrightarrow> Top m = 0" using t by (intro bit_word_eqI) simp
  show "Length m < 32 \<Longrightarrow> Mid m = 0" using d by (intro bit_word_eqI) simp
  show "Length m < 64 + j \<Longrightarrow> \<not> bit (Top m) j" "Length m < 32 + j \<Longrightarrow> \<not> bit (Mid m) j"
    "Length m < j \<Longrightarrow> \<not> bit (Bot m) j" using t d b by auto
  show "Length m = 37 \<Longrightarrow> \<not> bit (Mid m) 5"
    using assms by (simp add: nearly_clean_def mraw_def)
qed

lemma and_FFFFF: "(w :: u32) AND 0x000FFFFF = take_bit 20 w"
  by (simp add: take_bit_eq_mask mask_eq_exp_minus_1)

lemma and_FFFFFFC0: "(w AND 0xFFFFFFC0 \<noteq> (0 :: u32)) = (\<exists>j\<ge>6. bit w j)"
proof -
  have m: "bit (w AND 0xFFFFFFC0) j = (6 \<le> j \<and> bit w j)" for j
  proof (cases "j < 32")
    case True
    then show ?thesis by (rule less_list_all) (unfold upt_32 list.pred_inject, intro conjI; simp add: word_bits)
  qed simp
  have "bit w j \<Longrightarrow> j < 32" for j using bit_imp_le_length [of w j] by simp
  then show ?thesis using m by (auto simp: bit_eq_iff)
qed

lemma header_length_case:
  assumes "nearly_clean m" "25 \<le> Length m" "Length m \<le> 83"
  shows "get_length_from_header (snd (add_HID_header m)) = (if Length m < 64 then Length m else Length m + 1)"
proof -
  consider "64 \<le> Length m" | "38 \<le> Length m" "Length m < 64" | "Length m = 37" | "32 \<le> Length m" "Length m < 37"
    | "26 \<le> Length m" "Length m < 32" | "Length m = 25" using assms by linarith
  then show ?thesis
  proof cases
    case 1
    let ?h = "take_bit 20 (Top (snd (add_HID_header m)))"
    have T: "Top (snd (add_HID_header m)) = Top m OR 0x09e00000 OR shl 1 (Length m - 64)"
      using 1 assms by (simp add: add_HID_header_def or.assoc)
    have "bit ?h (Length m - 64)" "\<forall>j>Length m - 64. \<not> bit ?h j"
      using 1 assms(3) nearly_clean_words(3) [OF assms(1)] unfolding T
      by (auto simp: word_bits bit_exp_iff bit_09e00000 simp del: bit_numeral_word_iff)
    then have "header_len_loop ?h 64 = Length m + 1" "?h \<noteq> 0"
      using header_len_loop_top [of ?h "Length m - 64" 64] 1 by auto
    then show ?thesis
      using 1 assms(3) by (simp add: get_length_from_header_def and_FFFFF word_gt_0)
  next
    case 2
    let ?h = "Mid (snd (add_HID_header m))"
    have T: "take_bit 20 (Top (snd (add_HID_header m))) = 0"
      using 2 nearly_clean_words(1) [OF assms(1)] by (simp add: add_HID_header_def)
    have M: "?h = Mid m OR shl 1 (Length m - 32)"
      using 2 by (simp add: add_HID_header_def)
    have b: "bit ?h (Length m - 32)" "\<forall>j>Length m - 32. \<not> bit ?h j"
      using 2 nearly_clean_words(4) [OF assms(1)] unfolding M by (auto simp: word_bits bit_exp_iff)
    moreover have "?h AND 0xFFFFFFC0 \<noteq> 0"
      unfolding and_FFFFFFC0 using b(1) 2 by (intro exI [of _ "Length m - 32"]) auto
    ultimately show ?thesis
      using header_len_loop_top [OF b, of 31] 2 T by (simp add: get_length_from_header_def and_FFFFF)
  next
    case 3
    have "snd (add_HID_header m) = m" using 3 by (simp add: add_HID_header_def)
    moreover have "\<not> (Mid m AND 0xFFFFFFC0 \<noteq> 0)" "\<not> bit (Mid m) 5" "Top m = 0"
      unfolding and_FFFFFFC0 using 3 nearly_clean_words(1,4,6) [OF assms(1)] by auto
    ultimately show ?thesis
      using 3 by (simp add: get_length_from_header_def shr_and_1 header_len_loop_0)
  next
    case 4
    let ?m = "snd (add_HID_header m)"
    let ?h = "shl (take_bit 5 (Mid ?m)) 6 OR shr (Bot ?m) 26"
    have M: "Mid ?m = Mid m OR 0x20 OR shl 1 (Length m - 32)" and T: "Top ?m = 0"
      using 4 nearly_clean_words(1) [OF assms(1)] by (simp_all add: add_HID_header_def or.assoc)
    have b: "bit ?h (Length m - 26)" "\<forall>j>Length m - 26. \<not> bit ?h j"
      using 4 nearly_clean_words(4) [OF assms(1)] unfolding M
      by (auto simp: word_bits bit_exp_iff bit_20 simp del: bit_numeral_word_iff)
    have "\<not> (Mid ?m AND 0xFFFFFFC0 \<noteq> 0)" "bit (Mid ?m) 5"
      unfolding and_FFFFFFC0 M using 4 nearly_clean_words(4) [OF assms(1)]
      by (auto simp: word_bits bit_exp_iff bit_20 simp del: bit_numeral_word_iff)
    then show ?thesis
      using header_len_loop_top [OF b, of 25] 4 T by (simp add: get_length_from_header_def shr_and_1 and_masks)
  next
    case 5
    let ?m = "snd (add_HID_header m)"
    let ?h = "shr (Bot ?m) 26"
    have B: "Bot ?m = Bot m OR shl 1 (Length m)" and M: "Mid ?m = 0x20" and T: "Top ?m = 0"
      using 5 nearly_clean_words(1,2) [OF assms(1)] by (simp_all add: add_HID_header_def)
    have b: "bit ?h (Length m - 26)" "\<forall>j>Length m - 26. \<not> bit ?h j"
      using 5 nearly_clean_words(5) [OF assms(1)] unfolding B by (auto simp: word_bits bit_exp_iff)
    show ?thesis
      using header_len_loop_top [OF b, of 25] 5 T M by (simp add: get_length_from_header_def shr_and_1 and_masks)
  next
    case 6
    let ?m = "snd (add_HID_header m)"
    have B: "Bot ?m = Bot m OR shl 1 25" and M: "Mid ?m = 0x20" and T: "Top ?m = 0"
      using 6 nearly_clean_words(1,2) [OF assms(1)] by (simp_all add: add_HID_header_def)
    have "shr (Bot ?m) 26 = 0"
      unfolding B using 6 nearly_clean_words(5) [OF assms(1)] by (intro bit_word_eqI) (auto simp: word_bits bit_exp_iff)
    then show ?thesis
      using 6 T M by (simp add: get_length_from_header_def shr_and_1 and_masks header_len_loop_0)
  qed
qed

end
