(* ===== verification/Wiegand_Claims.thy ===== *)
theory Wiegand_Claims
  imports Wiegand_Table
begin

text \<open>
  The properties of the Wiegand component: packing, searching, decoding a raw HID frame, and the
  conversions from and to binary strings, each over the whole format table.
\<close>

subsection \<open>Packing\<close>

lemma HIDPack_row:
  assumes "0 \<le> i" "i < 43"
  shows "HIDPack i c m pre = Pack (FormatTable ! nat i) (int (nat i)) c message0 pre"
  using assms by (simp add: HIDPack_def FormatTable_ARRAYLEN_def)

lemma HIDPack_outside: "i < 0 \<or> 43 \<le> i \<Longrightarrow> HIDPack i c m pre = (False, c, message0)"
  by (auto simp: HIDPack_def FormatTable_ARRAYLEN_def)

lemma HIDPack_facts:
  assumes "HIDPack i c m0 pre = (ok, c', m)"
  shows "(ok \<longleftrightarrow> 0 \<le> i \<and> i < 43 \<and> row_accepts (nat i) c) \<and>
    (ok \<longrightarrow> c' = row_card (nat i) c \<and> Length m = Bits (FormatTable ! nat i) \<and>
      carries (Unpack (FormatTable ! nat i)) (hasParity (Fields (FormatTable ! nat i))) m c' = row_fits (nat i) c pre)"
proof (cases "0 \<le> i \<and> i < 43")
  case True
  then have i: "nat i < 43" by auto
  show ?thesis
    using table_codec [OF i, unfolded codec_def, rule_format, of c message0 pre] True assms
    by (simp add: HIDPack_row table_Fields [OF i])
next
  case False
  then show ?thesis using assms HIDPack_outside [of i c m0 pre] by auto
qed

text \<open>C5: \<open>HIDPack\<close> accepts exactly the formats of the table and the cards within the format's limits. What
  it packs has the length of the format, and its \<open>Unpack\<close> reads back every field of the card, with valid
  parity, exactly when the card fits the layout of the format (\<open>row_fits\<close>: always, for 36 of the
  43 formats; the others have limits that exceed their layout, or two definitions of a parity bit).\<close>

theorem HIDPack_contract:
  assumes "HIDPack i c m0 pre = (ok, c', m)"
  shows "(ok \<longleftrightarrow> 0 \<le> i \<and> i < 43 \<and> row_accepts (nat i) c) \<and>
    (ok \<longrightarrow> c' = row_card (nat i) c \<and> Length m = Bits (FormatTable ! nat i) \<and>
      carries (Unpack (FormatTable ! nat i)) (hasParity (Fields (FormatTable ! nat i))) m c' = row_fits (nat i) c pre)"
  using HIDPack_facts [OF assms] .

theorem HIDPack_contract_witness:
  "let (ok, c', m) = HIDPack 0 (card0\<lparr>FacilityCode := 118, CardNumber := 1603\<rparr>) message0 True
   in ok \<and> Length m = 26 \<and> carries Unpack_H10301 True m c'"
proof -
  let ?c = "card0\<lparr>FacilityCode := 118, CardNumber := 1603\<rparr>"
  obtain ok c' m where p: "HIDPack 0 ?c message0 True = (ok, c', m)" by (metis prod_cases3)
  have r: "row_accepts (nat 0) ?c" "row_fits (nat 0) ?c True"
    by (simp_all add: row_accepts_def validate_card_limit_def FormatFields_def descriptor_def card0_def row_fits_def)
  have t: "Unpack (FormatTable ! nat 0) = Unpack_H10301" "Bits (FormatTable ! nat 0) = 26"
    "hasParity (Fields (FormatTable ! nat 0))"
    by (simp_all add: FormatTable_def format_row_def FormatFields_def descriptor_def)
  show ?thesis using HIDPack_contract [OF p] r t by (auto simp: p)
qed

subsection \<open>Searching\<close>

lemma try_all_search:
  "try_all m = fold (wiegand.search_step m) [0..<43]
     \<lparr>try_card = card0, found_cnt = 0, found_invalid_par = 0, printed = []\<rparr>"
proof -
  have "try_step m i st = wiegand.search_step m i st" if "i < 43" for i st
    using table_Fields [OF that] by (simp only: try_step_def wiegand.search_step_def Let_def)
  then show ?thesis
    unfolding try_all_def length_FormatTable by (intro fold_cong) auto
qed

lemma HIDTryUnpack_good: "HIDTryUnpack m \<longleftrightarrow> (\<exists>i<43. wiegand.good m i)"
proof -
  have "int (found_cnt (try_all m)) - int (found_invalid_par (try_all m)) =
      int (length (filter (wiegand.good m) [0..<43]))"
    using wiegand.search_prefix [of 43] unfolding try_all_search by blast
  then have "HIDTryUnpack m \<longleftrightarrow> filter (wiegand.good m) [0..<43] \<noteq> []"
    by (simp only: HIDTryUnpack_def Let_def of_nat_0_less_iff length_greater_0_conv)
  then show ?thesis by (auto simp: filter_empty_conv)
qed

text \<open>C7: The search for a format succeeds exactly when some format of the table unpacks the message with
  valid parity or has no parity, whatever the formats before it left in the shared card object, and it
  prints, in table order, exactly the formats that unpack the message with the cards they yield.\<close>

theorem HIDTryUnpack_finds:
  "(HIDTryUnpack m \<longleftrightarrow> (\<exists>fmt\<in>set FormatTable. fst (Unpack fmt m card0) \<and>
      (hasParity (Fields fmt) \<longrightarrow> ParityValid (snd (Unpack fmt m card0))))) \<and>
   printed (try_all m) = map (\<lambda>i. (i, snd (Unpack (FormatTable ! i) m card0)))
     (filter (\<lambda>i. fst (Unpack (FormatTable ! i) m card0)) [0..<length FormatTable])"
proof -
  have e: "(\<exists>fmt\<in>set FormatTable. P fmt) = (\<exists>i<43. P (FormatTable ! i))" for P
    by (auto simp: set_conv_nth)
  have "(\<exists>i<43. wiegand.good m i) = (\<exists>fmt\<in>set FormatTable. fst (Unpack fmt m card0) \<and>
      (hasParity (Fields fmt) \<longrightarrow> ParityValid (snd (Unpack fmt m card0))))"
    unfolding e by (auto simp: wiegand.good_def wiegand.hit_def table_Fields)
  moreover have "printed (try_all m) = map (\<lambda>i. (i, snd (Unpack (FormatTable ! i) m card0)))
     (filter (wiegand.hit m) [0..<43])"
    using wiegand.search_prefix [of 43] unfolding try_all_search by blast
  ultimately show ?thesis
    by (simp add: HIDTryUnpack_good wiegand.hit_def [abs_def])
qed

theorem HIDTryUnpack_finds_witness: "\<not> HIDTryUnpack message0 \<and> printed (try_all message0) = []"
proof -
  have "\<not> fst (Unpack (FormatTable ! i) message0 card0)" if "i < 43" for i
    using table_unpack_length [OF that, of message0 card0] table_Bits [OF that] by (auto simp: message0_def)
  then show ?thesis
    using HIDTryUnpack_finds [of message0] by (auto simp: in_set_conv_nth filter_empty_conv)
qed

subsection \<open>Decoding a frame\<close>

text \<open>C8: The transport header that \<open>add_HID_header\<close> puts above a message of \<open>L\<close> bits tells
  \<open>get_length_from_header\<close> that length for \<open>25 \<le> L \<le> 63\<close>, and \<open>L + 1\<close> for \<open>64 \<le> L \<le> 83\<close>, where the
  sentinel bit is counted.\<close>

theorem header_length:
  assumes "\<And>q. Length m \<le> q \<Longrightarrow> \<not> mraw m q" "25 \<le> Length m" "Length m \<le> 83"
  shows "get_length_from_header (snd (add_HID_header m)) = (if Length m < 64 then Length m else Length m + 1)"
proof -
  have "nearly_clean m" using assms(1) by (simp add: nearly_clean_def)
  then show ?thesis using assms(2,3) by (rule header_length_case)
qed

theorem header_length_witness:
  "get_length_from_header (snd (add_HID_header \<lparr>Length = 64, Top = 0, Mid = 1, Bot = 5\<rparr>)) = 65"
proof -
  have "\<not> mraw \<lparr>Length = 64, Top = 0, Mid = 1, Bot = 5\<rparr> q" if "64 \<le> q" for q
    using that by (simp add: mraw_def)
  then show ?thesis using header_length [of "\<lparr>Length = 64, Top = 0, Mid = 1, Bot = 5\<rparr>"] by simp
qed

lemma HIDPack_framed:
  assumes "HIDPack i c m0 True = (True, c', m)"
  obtains w where "m = snd (add_HID_header w)" "clean w" "Length w = Length m"
proof -
  have i: "0 \<le> i" "i < 43" and a: "row_accepts (nat i) c"
    using HIDPack_facts [OF assms] by auto
  then have n: "nat i < 43" by auto
  define w where "w = snd (snd (Pack (FormatTable ! nat i) (int (nat i)) c message0 False))"
  have m': "snd (snd (Pack (FormatTable ! nat i) (int (nat i)) c message0 True)) = m"
    using assms unfolding HIDPack_row [OF i] by simp
  note f = table_framed [OF n, unfolded framed_def, rule_format, OF a, of message0, folded w_def]
  have m: "m = snd (add_HID_header w)" by (rule trans [OF m' [symmetric] conjunct2 [OF f]])
  then have "Length w = Length m" by simp
  with m conjunct1 [OF f] show thesis by (rule that)
qed

text \<open>C6: End to end: a card packed with the HID header by any format whose layout it fits is found again by
  \<open>decode_wiegand\<close> from the three raw words alone, with the length taken from the header (the three words
  must not all be zero, which only a 37-bit format without parity can produce).\<close>

theorem packed_frame_decodes:
  assumes "HIDPack i c m0 True = (True, c', m)" "row_fits (nat i) c True"
    and "\<not> (Top m = 0 \<and> Mid m = 0 \<and> Bot m = 0)"
  shows "initialize_message_object (Top m) (Mid m) (Bot m) 0 = m \<and> decode_wiegand (Top m) (Mid m) (Bot m) 0"
proof -
  have i: "0 \<le> i" "i < 43" and a: "row_accepts (nat i) c"
    using HIDPack_facts [OF assms(1)] by auto
  then have n: "nat i < 43" by auto
  obtain w where w: "m = snd (add_HID_header w)" "clean w" "Length w = Length m"
    by (rule HIDPack_framed [OF assms(1)])
  have "Length w = Bits (FormatTable ! nat i)" using HIDPack_facts [OF assms(1)] w(3) by simp
  then have len: "get_length_from_header m = Length m"
    using header_length_case [OF clean_nearly [OF w(2)]] table_Bits [OF n] unfolding w(1) by simp
  have "get_length_from_header (m\<lparr>Length := k\<rparr>) = get_length_from_header m" for k
    by (simp add: get_length_from_header_def)
  then have e: "initialize_message_object (Top m) (Mid m) (Bot m) 0 = m"
    using len [symmetric] by (simp add: initialize_message_object_def message0_def Let_def)
      (cases m, simp add: get_length_from_header_def)
  have "wiegand.good m (nat i)"
    using wiegand.packed_good [OF n a assms(2), of message0] assms(1) by (simp add: HIDPack_row [OF i])
  then have "HIDTryUnpack m" unfolding HIDTryUnpack_good using n by blast
  then show ?thesis using assms(3) e by (auto simp: decode_wiegand_def Let_def)
qed

theorem packed_frame_decodes_witness:
  "let (ok, c', m) = HIDPack 1 (card0\<lparr>FacilityCode := 5, CardNumber := 7\<rparr>) message0 True
   in decode_wiegand (Top m) (Mid m) (Bot m) 0"
proof -
  let ?c = "card0\<lparr>FacilityCode := 5, CardNumber := 7\<rparr>"
  obtain ok c' m where p: "HIDPack 1 ?c message0 True = (ok, c', m)" by (metis prod_cases3)
  have "row_accepts (nat 1) ?c" and f: "row_fits (nat 1) ?c True"
    by (simp_all add: row_accepts_def validate_card_limit_def FormatFields_def descriptor_def card0_def row_fits_def)
  then have ok: "ok" using HIDPack_facts [OF p] by simp
  obtain w where "m = snd (add_HID_header w)" "Length w = Length m"
    using HIDPack_framed [of 1 ?c message0 c' m] p ok by auto
  moreover have "Length m = 26"
    using HIDPack_facts [OF p] ok by (simp add: FormatTable_def format_row_def)
  ultimately have "bit (Mid m) 5" by (simp add: add_HID_header_def bit_or_iff)
  then have "Mid m \<noteq> 0" by auto
  then show ?thesis using packed_frame_decodes [of 1 ?c message0 c' m] p f ok by simp
qed

subsection \<open>Binary strings\<close>

lemma push_binstr_fold:
  "set s \<subseteq> {CHR ''0'', CHR ''1''} \<Longrightarrow>
   push_binstr s bout = Some (fold (\<lambda>b s. pushBit s b) (map (\<lambda>c. c = CHR ''1'') s) bout)"
  by (induction s arbitrary: bout) auto

lemma fold_zeros: "fold (\<lambda>_ bout. pushBit bout False) [0..<n] bout = fold (\<lambda>b s. pushBit s b) (replicate n False) bout"
  by (induction n arbitrary: bout) (simp_all add: replicate_append_same [symmetric] del: replicate.simps)

text \<open>The words read from twelve bytes, as one string of 96 bits.\<close>

lemma upt_96: "[0..<96] = 0 # 1 # [2..<96]"
  by (simp add: upt_conv_Cons)

lemma mraw_bytes:
  assumes "length hex = 12" "k < 96"
  shows "mraw \<lparr>Length = n, Top = ucast (bytes_to_num hex 4), Mid = ucast (bytes_to_num (drop 4 hex) 4),
    Bot = ucast (bytes_to_num (drop 8 hex) 4)\<rparr> k = mbit hex (95 - k)"
  using assms(2)
proof (rule less_list_all)
  show "list_all (\<lambda>k. mraw \<lparr>Length = n, Top = ucast (bytes_to_num hex 4), Mid = ucast (bytes_to_num (drop 4 hex) 4),
    Bot = ucast (bytes_to_num (drop 8 hex) 4)\<rparr> k = mbit hex (95 - k)) [0..<96]"
    unfolding upt_96 using assms(1) by (simp add: mraw_def mbit_def word_bits bytes_to_num_bit del: bit_0)
qed

text \<open>The message that a binary string packs to: the string, the sentinel above it, nothing else.\<close>

lemma pack_bin_message:
  assumes "set s \<subseteq> {CHR ''0'', CHR ''1''}" "1 \<le> length s" "length s \<le> 84"
  obtains w where "wiegand_pack_bin_with_hid_header s m0 = (PM3_SUCCESS, snd (add_HID_header w))"
    "Length w = length s" "\<And>k. mraw w k = (if k < length s then s ! (length s - 1 - k) = CHR ''1'' else k = length s)"
proof -
  let ?n = "length s" and ?p = "\<lambda>c. c = CHR ''1''"
  let ?bits = "replicate (96 - ?n - 1) False @ [True] @ map ?p s"
  let ?out = "\<lparr>out_buffer = replicate 12 0, out_numbits = 0, out_position = 0\<rparr>"
  define out where "out = fold (\<lambda>b s. pushBit s b) ?bits ?out"
  have z: "mbit (replicate 12 0) k = False" if "k < 96" for k
    using that by (simp add: mbit_def less_mult_imp_div_less)
  have "out_ok ?out" "out_bits ?out = []" by (auto simp: out_ok_def out_bits_def z)
  then have o: "out_bits out = ?bits" "out_position out = 96" "length (out_buffer out) = 12"
    using fold_pushBit [of ?out ?bits] assms(2,3) unfolding out_def by auto
  define hex where "hex = out_buffer out"
  have h: "mbit hex k = ?bits ! k" if "k < 96" for k
  proof -
    have "out_bits out ! k = mbit hex k" using that o(2) by (simp add: out_bits_def hex_def)
    then show ?thesis by (simp add: o(1))
  qed
  define w where "w = \<lparr>Length = ?n, Top = ucast (bytes_to_num hex 4), Mid = ucast (bytes_to_num (drop 4 hex) 4),
    Bot = ucast (bytes_to_num (drop 8 hex) 4)\<rparr>"
  have "push_binstr s (pushBit (fold (\<lambda>_ bout. pushBit bout False) [0..<96 - ?n - 1] ?out) True) = Some out"
    using assms(1) by (simp add: push_binstr_fold fold_zeros out_def)
  moreover have "?n \<noteq> 0" "\<not> 84 < ?n" using assms(2,3) by auto
  ultimately have "wiegand_pack_bin_with_hid_header s m0 = (PM3_SUCCESS, snd (add_HID_header w))"
    using assms(3) by (cases m0) (simp add: wiegand_pack_bin_with_hid_header_def Let_def hex_def w_def case_prod_beta add_HID_header_ok)
  moreover have "mraw w k = (if k < ?n then s ! (?n - 1 - k) = CHR ''1'' else k = ?n)" for k
  proof (cases "k < 96")
    case True
    have "95 - k - (96 - ?n - 1) = ?n - k" if "k \<le> ?n" using that assms(3) by simp
    then show ?thesis
      using mraw_bytes [of hex k ?n] o(3) h [of "95 - k"] True assms(3)
      by (auto simp: w_def hex_def nth_append nth_Cons' Suc_diff_Suc)
  next
    case False
    then show ?thesis using assms(3) by (simp add: mraw_def)
  qed
  ultimately show thesis by (intro that [of w]) (simp_all add: w_def)
qed

text \<open>A binary string of 1 to 84 digits packs into a message of that length whose bits, read back by
  \<open>wiegand_message_to_binstr\<close>, are the string.\<close>

theorem binstr_roundtrip:
  assumes "set s \<subseteq> {CHR ''0'', CHR ''1''}" "1 \<le> length s" "length s \<le> 84"
  shows "let (res, m) = wiegand_pack_bin_with_hid_header s m0 in
    res = PM3_SUCCESS \<and> Length m = length s \<and> wiegand_message_to_binstr m BINSTR_SIZE = Some s"
proof -
  obtain w where w: "wiegand_pack_bin_with_hid_header s m0 = (PM3_SUCCESS, snd (add_HID_header w))"
    "Length w = length s" "\<And>k. mraw w k = (if k < length s then s ! (length s - 1 - k) = CHR ''1'' else k = length s)"
    by (rule pack_bin_message [OF assms]) blast
  have "wbit w i = (s ! i = CHR ''1'')" if "i < length s" for i
  proof -
    have "length s - i - 1 < length s" "length s - 1 - (length s - i - 1) = i" using that by auto
    then show ?thesis using that by (simp add: wbit_def w(2,3) del: diff_diff_left)
  qed
  moreover have "s ! i = CHR ''0'' \<or> s ! i = CHR ''1''" if "i < length s" for i
    using subsetD [OF assms(1) nth_mem [OF that]] by simp
  ultimately have "bin_char (wbit w i) = s ! i" if "i < length s" for i
    using that by (cases "s ! i = CHR ''1''") (force simp: bin_char_def)+
  then have "map (\<lambda>i. bin_char (wbit w i)) [0..<length s] = s"
    by (intro nth_equalityI) simp_all
  then show ?thesis
    using assms(3) by (simp add: w(1,2) wiegand_message_to_binstr_def BINSTR_SIZE_def codec_laws)
qed

theorem binstr_roundtrip_witness:
  "let (res, m) = wiegand_pack_bin_with_hid_header ''1011'' message0 in
    res = PM3_SUCCESS \<and> Length m = 4 \<and> wiegand_message_to_binstr m BINSTR_SIZE = Some ''1011''"
  using binstr_roundtrip [of "''1011''" message0] by (simp add: eval_nat_numeral)

lemma top_bit_exists:
  assumes "(h :: u32) \<noteq> 0"
  shows "\<exists>k. bit h k \<and> (\<forall>j>k. \<not> bit h j)"
proof -
  have f: "finite {j. bit h j}" by (rule finite_subset [of _ "{..<32}"]) (auto dest: bit_imp_le_length)
  moreover have "{j. bit h j} \<noteq> {}" using assms by (auto simp: bit_eq_iff)
  ultimately have "bit h (Max {j. bit h j})" using Max_in by blast
  moreover have "j \<le> Max {j. bit h j}" if "bit h j" for j using f that by simp
  ultimately show ?thesis by (meson not_le)
qed

text \<open>The header of a packed binary string tells its length for 25 to 63 digits except 37. A string of 37
  digits is packed with the sentinel bit that a 37-bit HID frame must not have, and the header tells
  a length of 26 to 36, whatever the digits.\<close>

theorem binstr_header_length:
  assumes "set s \<subseteq> {CHR ''0'', CHR ''1''}" "25 \<le> length s" "length s \<le> 63"
  shows "let n = get_length_from_header (snd (wiegand_pack_bin_with_hid_header s m0)) in
    if length s = 37 then 25 \<le> n \<and> n \<le> 36 else n = length s"
proof -
  have l: "1 \<le> length s" "length s \<le> 84" using assms(2,3) by auto
  obtain w where w: "wiegand_pack_bin_with_hid_header s m0 = (PM3_SUCCESS, snd (add_HID_header w))"
    "Length w = length s" "\<And>k. mraw w k = (if k < length s then s ! (length s - 1 - k) = CHR ''1'' else k = length s)"
    by (rule pack_bin_message [OF assms(1) l]) blast
  show ?thesis
  proof (cases "length s = 37")
    case False
    then have "nearly_clean w" by (simp add: nearly_clean_def w)
    then show ?thesis using header_length_case [of w] False assms(2,3) by (simp add: w)
  next
    case True
    have m: "snd (add_HID_header w) = w" using True w(2) by (simp add: add_HID_header_def)
    have t: "\<not> bit (Top w) j" for j
      using w(3) [of "64 + j"] True by (cases "j < 32") (auto simp: mraw_def)
    have d: "\<not> bit (Mid w) j" if "5 < j" for j
      using w(3) [of "32 + j"] True that by (cases "j < 32") (auto simp: mraw_def)
    have d5: "bit (Mid w) 5" using w(3) [of 37] True by (simp add: mraw_def)
    have T: "Top w = 0" using t by (intro bit_word_eqI) simp
    have M: "\<not> (Mid w AND 0xFFFFFFC0 \<noteq> 0)" unfolding and_FFFFFFC0 using d by auto
    let ?h = "shl (take_bit 5 (Mid w)) 6 OR shr (Bot w) 26"
    have h: "\<not> bit ?h j" if "11 \<le> j" for j
      using that by (auto simp: word_bits)
    have "25 \<le> header_len_loop ?h 25 \<and> header_len_loop ?h 25 \<le> 36"
    proof (cases "?h = 0")
      case False
      then obtain k where "bit ?h k" "\<forall>j>k. \<not> bit ?h j" using top_bit_exists [of ?h] by blast
      then show ?thesis using header_len_loop_top [of ?h k 25] h [of k] by (cases "11 \<le> k") auto
    qed (simp add: header_len_loop_0)
    then show ?thesis
      using T M d5 True by (simp add: w(1) m get_length_from_header_def shr_and_1 and_masks)
  qed
qed

theorem binstr_header_length_witness:
  "let n = get_length_from_header (snd (wiegand_pack_bin_with_hid_header (replicate 37 CHR ''0'') message0)) in
    25 \<le> n \<and> n \<le> 36"
  using binstr_header_length [of "replicate 37 CHR ''0''" message0] by simp

subsection \<open>Fields and names\<close>

text \<open>Writing a linear field is all or nothing: when the field lies inside the message the value is stored,
  reads back truncated to the field's width and changes no bit outside; otherwise the result is
  false and the message is untouched, although the bits before the end were set in the temporary copy.\<close>

theorem linear_field_access:
  assumes "0 < n" "n \<le> 64" "fb + n \<le> 256" "Length m \<le> 96"
  shows "let (ok, m') = set_linear_field m v fb n in
    (ok \<longleftrightarrow> fb + n \<le> Length m) \<and>
    (ok \<longrightarrow> get_linear_field m' fb n = take_bit n v \<and> Length m' = Length m \<and>
      (\<forall>q. q < fb \<or> fb + n \<le> q \<longrightarrow> get_bit_by_position m' q = get_bit_by_position m q)) \<and>
    (\<not> ok \<longrightarrow> m' = m)"
proof (cases "fb + n \<le> Length m")
  case True
  note w = set_linear_ok [OF True assms(4), where v = v]
  have "get_bit_by_position (snd (set_linear_field m v fb n)) q = get_bit_by_position m q"
    if "q < fb \<or> fb + n \<le> q" for q
    using that w(3) [of q] by (auto simp: get_bit_wbit)
  then show ?thesis
    using True w(1,2) get_set_linear_same [OF True assms(4,2), of v]
    by (cases "set_linear_field m v fb n") auto
next
  case False
  then show ?thesis using set_linear_refused [of m fb n v] assms by simp
qed

theorem linear_field_access_witness:
  "let (ok, m') = set_linear_field (message0\<lparr>Length := 26\<rparr>) 5 24 4 in \<not> ok \<and> m' = message0\<lparr>Length := 26\<rparr>"
  using linear_field_access [of 4 24 "message0\<lparr>Length := 26\<rparr>" 5] by (simp add: case_prod_beta)

lemma find_format_range:
  "find_format s fs i = -1 \<and> (\<forall>f\<in>set fs. map_option (map char_lower) (Name f) \<noteq> Some s) \<or>
   (\<exists>k<length fs. find_format s fs i = i + int k \<and> map_option (map char_lower) (Name (fs ! k)) = Some s \<and>
     (\<forall>j<k. map_option (map char_lower) (Name (fs ! j)) \<noteq> Some s))"
proof (induction fs arbitrary: i)
  case (Cons f fs)
  show ?case
  proof (cases "map_option (map char_lower) (Name f) = Some s")
    case True
    then show ?thesis by (intro disjI2 exI [of _ 0]) simp
  next
    case False
    then have e: "find_format s (f # fs) i = find_format s fs (i + 1)" by (simp only: find_format.simps if_False)
    show ?thesis
      using Cons.IH [of "i + 1"]
    proof (elim disjE exE conjE)
      fix k assume "k < length fs" "find_format s fs (i + 1) = i + 1 + int k"
        "map_option (map char_lower) (Name (fs ! k)) = Some s"
        "\<forall>j<k. map_option (map char_lower) (Name (fs ! j)) \<noteq> Some s"
      then show ?thesis
        unfolding e using False by (intro disjI2 exI [of _ "Suc k"]) (auto simp: less_Suc_eq_0_disj)
    qed (use False e in auto)
  qed
qed simp

text \<open>The format lookup ignores case and is exact: it returns the first row whose name matches, and \<open>-1\<close>,
  which \<open>HIDPack\<close> refuses, when no row matches.\<close>

theorem HIDFindCardFormat_exact:
  "let i = HIDFindCardFormat s; matches = (\<lambda>j. map_option (map char_lower) (Name (FormatTable ! j)) = Some (map char_lower s)) in
    (if \<exists>j<43. matches j then 0 \<le> i \<and> i < 43 \<and> matches (nat i) \<and> (\<forall>j<nat i. \<not> matches j)
     else i = -1 \<and> \<not> fst (HIDPack i c m pre))"
proof -
  let ?m = "\<lambda>j. map_option (map char_lower) (Name (FormatTable ! j)) = Some (map char_lower s)"
  consider "HIDFindCardFormat s = -1" "\<And>j. j < 43 \<Longrightarrow> \<not> ?m j"
    | k where "k < 43" "HIDFindCardFormat s = int k" "?m k" "\<forall>j<k. \<not> ?m j"
    using find_format_range [of "map char_lower s" FormatTable 0] nth_mem [of _ FormatTable]
    unfolding HIDFindCardFormat_def length_FormatTable by (metis add_0)
  then show ?thesis
  proof cases
    case 1
    then show ?thesis by (auto simp: HIDPack_outside)
  next
    case 2
    then show ?thesis by (auto simp: Let_def)
  qed
qed

theorem HIDFindCardFormat_exact_witness: "HIDFindCardFormat ''h10301'' = 0"
proof -
  have "Name (FormatTable ! 0) = Some ''H10301''" by (simp add: FormatTable_def format_row_def)
  moreover have "map char_lower ''H10301'' = map char_lower ''h10301''"
    by (simp add: char_lower_def in_range_def; code_simp)
  ultimately have m: "map_option (map char_lower) (Name (FormatTable ! 0)) = Some (map char_lower ''h10301'')"
    by simp
  then have e: "\<exists>j<43. map_option (map char_lower) (Name (FormatTable ! j)) = Some (map char_lower ''h10301'')"
    by (intro exI [of _ 0]) simp
  have "0 \<le> HIDFindCardFormat ''h10301''" "\<not> 0 < nat (HIDFindCardFormat ''h10301'')"
    using HIDFindCardFormat_exact [of "''h10301''", unfolded Let_def if_P [OF e]] m by blast+
  then show ?thesis by simp
qed

end
