(* ===== verification/Crypto1.thy ===== *)
theory Crypto1
  imports Parity_Bits
begin

text \<open>
  The stream cipher of MIFARE Classic, \<open>common/crapto1/crypto1.c\<close>, with the rollback functions
  and the nonce functions of \<open>common/crapto1/crapto1.c\<close>. The 48-bit register is kept in two
  words, its even and its odd positions, which change places with every bit; only 24 bits of
  each are part of the register, the words collect garbage above them. The C parameters
  \<open>is_encrypted\<close> and \<open>fb\<close> are only tested for zero and are Booleans here; a function that
  changes its \<open>struct Crypto1State *\<close> returns its result and the new state.
\<close>

record crypto1_state =
  s_odd :: u32
  s_even :: u32

definition LF_POLY_ODD :: u32 where "LF_POLY_ODD = 0x29CE5C"
definition LF_POLY_EVEN :: u32 where "LF_POLY_EVEN = 0x870804"

definition crypto1_filter :: "u32 \<Rightarrow> u8" where
  "crypto1_filter x =
    (let f = shr (0xf22c0 :: u32) (unat (x AND 0xf)) AND 16;
         f = f OR (shr 0x6c9c0 (unat (shr x 4 AND 0xf)) AND 8);
         f = f OR (shr 0x3c8b0 (unat (shr x 8 AND 0xf)) AND 4);
         f = f OR (shr 0x1e458 (unat (shr x 12 AND 0xf)) AND 2);
         f = f OR (shr 0x0d938 (unat (shr x 16 AND 0xf)) AND 1)
     in bit01 (0xEC57E80A :: u32) (unat f))"

definition crypto1_init :: "u64 \<Rightarrow> crypto1_state" where
  "crypto1_init key =
    fold (\<lambda>i s. \<lparr>s_odd = shl (s_odd s) 1 OR bit01 key ((i - 1) XOR 7),
                 s_even = shl (s_even s) 1 OR bit01 key (i XOR 7)\<rparr>)
      (map (\<lambda>k. 47 - 2 * k) [0..<24]) \<lparr>s_odd = 0, s_even = 0\<rparr>"

definition crypto1_deinit :: "crypto1_state \<Rightarrow> crypto1_state" where
  "crypto1_deinit s = s\<lparr>s_odd := 0, s_even := 0\<rparr>"

definition crypto1_get_lfsr :: "crypto1_state \<Rightarrow> u64" where
  "crypto1_get_lfsr s =
    fold (\<lambda>i lfsr. shl (shl lfsr 1 OR bit01 (s_odd s) (i XOR 3)) 1 OR bit01 (s_even s) (i XOR 3))
      (rev [0..<24]) 0"

definition crypto1_bit :: "crypto1_state \<Rightarrow> u8 \<Rightarrow> bool \<Rightarrow> u8 \<times> crypto1_state" where
  "crypto1_bit s inp is_encrypted =
    (let ret = crypto1_filter (s_odd s);
         feedin = ucast ret AND of_bool is_encrypted;
         feedin = feedin XOR of_bool (inp \<noteq> 0);
         feedin = feedin XOR (LF_POLY_ODD AND s_odd s);
         feedin = feedin XOR (LF_POLY_EVEN AND s_even s);
         ev = shl (s_even s) 1 OR ucast (evenparity32 feedin)
     in (ret, \<lparr>s_odd = ev, s_even = s_odd s\<rparr>))"

definition crypto1_byte :: "crypto1_state \<Rightarrow> u8 \<Rightarrow> bool \<Rightarrow> u8 \<times> crypto1_state" where
  "crypto1_byte s inp is_encrypted =
    fold (\<lambda>i (ret, s). case crypto1_bit s (bit01 inp i) is_encrypted of
        (b, s') \<Rightarrow> (ret OR shl b i, s')) [0..<8] (0, s)"

definition crypto1_word :: "crypto1_state \<Rightarrow> u32 \<Rightarrow> bool \<Rightarrow> u32 \<times> crypto1_state" where
  "crypto1_word s inp is_encrypted =
    fold (\<lambda>i (ret, s). case crypto1_bit s (bit01 inp (i XOR 24)) is_encrypted of
        (b, s') \<Rightarrow> (ret OR shl (ucast b) (24 XOR i), s')) [0..<32] (0, s)"

text \<open>
  The rollback of \<open>crapto1.c\<close>. There \<open>filter\<close> is a macro over the table that \<open>init_lut\<close> fills
  before \<open>main\<close> with the filter of its index.
\<close>

definition filterlut :: "nat \<Rightarrow> u8" where
  "filterlut i = crypto1_filter (word_of_nat i)"

definition lfsr_rollback_bit :: "crypto1_state \<Rightarrow> u32 \<Rightarrow> bool \<Rightarrow> u8 \<times> crypto1_state" where
  "lfsr_rollback_bit s inp fb =
    (let od = s_odd s AND 0xffffff;
         t = od; od = s_even s; ev = t;
         out = ev AND 1;
         ev = shr ev 1;
         out = out XOR (LF_POLY_EVEN AND ev);
         out = out XOR (LF_POLY_ODD AND od);
         out = out XOR of_bool (inp \<noteq> 0);
         ret = filterlut (unat (od AND 0xfffff));
         out = out XOR (ucast ret AND of_bool fb)
     in (ret, \<lparr>s_odd = od, s_even = ev OR shl (ucast (evenparity32 out)) 23\<rparr>))"

definition lfsr_rollback_byte :: "crypto1_state \<Rightarrow> u32 \<Rightarrow> bool \<Rightarrow> u8 \<times> crypto1_state" where
  "lfsr_rollback_byte s inp fb =
    fold (\<lambda>i (ret, s). case lfsr_rollback_bit s (bit01 inp i) fb of
        (b, s') \<Rightarrow> (ret OR shl b i, s')) (rev [0..<8]) (0, s)"

definition lfsr_rollback_word :: "crypto1_state \<Rightarrow> u32 \<Rightarrow> bool \<Rightarrow> u32 \<times> crypto1_state" where
  "lfsr_rollback_word s inp fb =
    fold (\<lambda>i (ret, s). case lfsr_rollback_bit s (bit01 inp (i XOR 24)) fb of
        (b, s') \<Rightarrow> (ret OR shl (ucast b) (24 XOR i), s')) (rev [0..<32]) (0, s)"

text \<open>Nonces.\<close>

definition SWAPENDIAN :: "u32 \<Rightarrow> u32" where
  "SWAPENDIAN x = (let x = (shr x 8 AND 0xff00ff) OR shl (x AND 0xff00ff) 8 in shr x 16 OR shl x 16)"

definition prng_step :: "u32 \<Rightarrow> u32" where
  "prng_step x = shr x 1 OR shl (((shr x 16 XOR shr x 18) XOR shr x 19) XOR shr x 21) 31"

definition prng_successor :: "u32 \<Rightarrow> u32 \<Rightarrow> u32" where
  "prng_successor x n = SWAPENDIAN ((prng_step ^^ unat n) (SWAPENDIAN x))"

definition prng16_step :: "u16 \<Rightarrow> u16" where
  "prng16_step x = shr x 1 OR shl (((x XOR shr x 2) XOR shr x 3) XOR shr x 5) 15"

definition swap16 :: "u16 \<Rightarrow> u16" where
  "swap16 x = shl (x AND 0xff) 8 OR shr x 8"

definition validate_prng_nonce :: "u32 \<Rightarrow> bool" where
  "validate_prng_nonce nonce =
    (let x = swap16 (ucast (shr nonce 16)); x = (prng16_step ^^ 16) x; x = swap16 x
     in ucast x = nonce AND 0xFFFF)"

text \<open>
  \<open>nonce_distance\<close> fills its static table on the first call: entry \<open>swap16 x\<^sub>i\<close> is \<open>i\<close> for the
  65535 successive values \<open>x\<^sub>i\<close> of the 16-bit register from 1 on. The table is
  \<open>calloc\<close>ed, so every other entry is 0. (The allocation is assumed to succeed.)
\<close>

definition dist_loop :: "nat \<Rightarrow> (u16 \<Rightarrow> u16) \<times> u16 \<Rightarrow> (u16 \<Rightarrow> u16) \<times> u16" where
  "dist_loop n = fold (\<lambda>i (dist, x). (dist(swap16 x := word_of_nat i), prng16_step x)) [1..<n]"

definition dist_table :: "u16 \<Rightarrow> u16" where
  "dist_table = fst (dist_loop 65536 (\<lambda>_. 0, 1))"

definition nonce_distance :: "u32 \<Rightarrow> u32 \<Rightarrow> int" where
  "nonce_distance x y =
    (65535 + uint (dist_table (ucast (shr y 16))) - uint (dist_table (ucast (shr x 16)))) mod 65535"

end
