(* ===== verification/Crypto1_Laws.thy ===== *)
theory Crypto1_Laws
  imports Crypto1
begin

text \<open>
  The split register against the 48-bit register of the cipher's description, the rollback as
  the inverse of the cipher, and the loading of keys.
\<close>

subsection \<open>The 48-bit register\<close>

text \<open>
  Bit 0 is the newest bit, bit 47 the oldest. \<open>taps48\<close> are the positions of the feedback,
  \<open>nlf48\<close> is the nonlinear filter as the composition of its two layers.
\<close>

definition reg48 :: "crypto1_state \<Rightarrow> 48 word" where
  "reg48 s = word_of_bits (\<lambda>n. if even n then bit (s_odd s) (n div 2) else bit (s_even s) (n div 2))"

definition taps48 :: "nat list" where
  "taps48 = map (\<lambda>t. 47 - t) [0, 5, 9, 10, 12, 14, 15, 17, 19, 24, 25, 27, 29, 35, 39, 41, 42, 43]"

definition nlf_a :: "bool \<Rightarrow> bool \<Rightarrow> bool \<Rightarrow> bool \<Rightarrow> bool" where
  "nlf_a a b c d = (((a \<or> b) \<noteq> (a \<and> d)) \<noteq> (c \<and> ((a \<noteq> b) \<or> d)))"

definition nlf_b :: "bool \<Rightarrow> bool \<Rightarrow> bool \<Rightarrow> bool \<Rightarrow> bool" where
  "nlf_b a b c d = (((a \<and> b) \<or> c) \<noteq> ((a \<noteq> b) \<and> (c \<or> d)))"

definition nlf_c :: "bool \<Rightarrow> bool \<Rightarrow> bool \<Rightarrow> bool \<Rightarrow> bool \<Rightarrow> bool" where
  "nlf_c a b c d e = ((a \<or> ((b \<or> e) \<and> (d \<noteq> e))) \<noteq> ((a \<noteq> (b \<and> d)) \<and> ((c \<noteq> d) \<or> (b \<and> e))))"

definition nlf48 :: "48 word \<Rightarrow> bool" where
  "nlf48 r = (let x = (\<lambda>t. bit r (47 - t)) in
    nlf_c (nlf_a (x 9) (x 11) (x 13) (x 15)) (nlf_b (x 17) (x 19) (x 21) (x 23))
      (nlf_b (x 25) (x 27) (x 29) (x 31)) (nlf_a (x 33) (x 35) (x 37) (x 39))
      (nlf_b (x 41) (x 43) (x 45) (x 47)))"

definition feedback48 :: "48 word \<Rightarrow> bool" where
  "feedback48 r = odd (length (filter (bit r) taps48))"

definition next48 :: "bool \<Rightarrow> bool \<Rightarrow> 48 word \<Rightarrow> 48 word" where
  "next48 b enc r = shl r 1 OR of_bool ((feedback48 r \<noteq> b) \<noteq> (enc \<and> nlf48 r))"

definition prev48 :: "bool \<Rightarrow> bool \<Rightarrow> 48 word \<Rightarrow> 48 word" where
  "prev48 b enc r = (let q = shr r 1; old = ((bit r 0 \<noteq> feedback48 q) \<noteq> b) \<noteq> (enc \<and> nlf48 q) in
    q OR shl (of_bool old) 47)"

lemma bit_reg48:
  "bit (reg48 s) n = (n < 48 \<and> (if even n then bit (s_odd s) (n div 2) else bit (s_even s) (n div 2)))"
  by (simp add: reg48_def)


subsection \<open>The filter table\<close>

definition nib :: "bool \<Rightarrow> bool \<Rightarrow> bool \<Rightarrow> bool \<Rightarrow> u32" where
  "nib a b c d = ((of_bool a OR shl (of_bool b) 1) OR shl (of_bool c) 2) OR shl (of_bool d) 3"

lemma nibble_bits:
  "shr (x :: u32) k AND 0xf = nib (bit x k) (bit x (k + 1)) (bit x (k + 2)) (bit x (k + 3))"
proof (rule bit_word_eqI)
  fix n :: nat
  consider "n = 0" | "n = 1" | "n = 2" | "n = 3" | "4 \<le> n" by linarith
  then show "bit (shr x k AND 0xf) n = bit (nib (bit x k) (bit x (k + 1)) (bit x (k + 2)) (bit x (k + 3))) n"
    unfolding and_masks nib_def by cases (auto simp: word_bits)
qed

lemma layer_table_values:
  "\<forall>a b c d.
    shr (0xf22c0 :: u32) (unat (nib a b c d)) AND 16 = (if nlf_b d c b a then 16 else 0) \<and>
    shr (0x6c9c0 :: u32) (unat (nib a b c d)) AND 8 = (if nlf_a d c b a then 8 else 0) \<and>
    shr (0x3c8b0 :: u32) (unat (nib a b c d)) AND 4 = (if nlf_b d c b a then 4 else 0) \<and>
    shr (0x1e458 :: u32) (unat (nib a b c d)) AND 2 = (if nlf_b d c b a then 2 else 0) \<and>
    shr (0x0d938 :: u32) (unat (nib a b c d)) AND 1 = (if nlf_a d c b a then 1 else 0)"
  by code_simp

lemma last_layer_values:
  "\<forall>p q r s t. bit01 (0xEC57E80A :: u32)
    (unat (((((if p then 16 else 0 :: u32) OR (if q then 8 else 0)) OR (if r then 4 else 0))
      OR (if s then 2 else 0)) OR (if t then 1 else 0))) = (of_bool (nlf_c t s r q p) :: u8)"
  by code_simp

lemmas layer_tables = layer_table_values [rule_format, THEN conjunct1]
  layer_table_values [rule_format, THEN conjunct2, THEN conjunct1]
  layer_table_values [rule_format, THEN conjunct2, THEN conjunct2, THEN conjunct1]
  layer_table_values [rule_format, THEN conjunct2, THEN conjunct2, THEN conjunct2, THEN conjunct1]
  layer_table_values [rule_format, THEN conjunct2, THEN conjunct2, THEN conjunct2, THEN conjunct2]

lemma crypto1_filter_bits:
  "crypto1_filter x = of_bool (nlf_c
     (nlf_a (bit x 19) (bit x 18) (bit x 17) (bit x 16)) (nlf_b (bit x 15) (bit x 14) (bit x 13) (bit x 12))
     (nlf_b (bit x 11) (bit x 10) (bit x 9) (bit x 8)) (nlf_a (bit x 7) (bit x 6) (bit x 5) (bit x 4))
     (nlf_b (bit x 3) (bit x 2) (bit x 1) (bit x 0)))"
proof -
  have n: "x AND 0xf = nib (bit x 0) (bit x 1) (bit x 2) (bit x 3)"
    "shr x 4 AND 0xf = nib (bit x 4) (bit x 5) (bit x 6) (bit x 7)"
    "shr x 8 AND 0xf = nib (bit x 8) (bit x 9) (bit x 10) (bit x 11)"
    "shr x 12 AND 0xf = nib (bit x 12) (bit x 13) (bit x 14) (bit x 15)"
    "shr x 16 AND 0xf = nib (bit x 16) (bit x 17) (bit x 18) (bit x 19)"
    using nibble_bits [of 0 x] nibble_bits [of 4 x] nibble_bits [of 8 x] nibble_bits [of 12 x]
      nibble_bits [of 16 x] by simp_all
  show ?thesis
    unfolding crypto1_filter_def Let_def n layer_tables last_layer_values [rule_format] ..
qed

lemma crypto1_filter_reg: "crypto1_filter (s_odd s) = of_bool (nlf48 (reg48 s))"
  unfolding crypto1_filter_bits nlf48_def Let_def bit_reg48 by simp

lemma filterlut_eq: "filterlut (unat (x AND 0xfffff)) = crypto1_filter x"
proof -
  have "x AND 0xfffff = take_bit 20 x"
    by (simp add: take_bit_eq_mask mask_eq_exp_minus_1)
  then have "bit (x AND 0xfffff) i = bit x i" if "i < 20" for i
    using that by (simp add: bit_take_bit_iff)
  then show ?thesis
    by (simp add: filterlut_def crypto1_filter_bits)
qed


subsection \<open>The feedback\<close>

lemma parity_mask:
  assumes "filter (bit m) [0..<LENGTH('a)] = ps"
  shows "wparity (m AND x :: 'a::len word) = odd (length (filter (bit x) ps))"
proof -
  have "bit (m AND x) = (\<lambda>i. bit x i \<and> bit m i)"
    by (rule ext) (auto simp: bit_and_iff)
  then have "filter (bit (m AND x)) [0..<LENGTH('a)] = filter (bit x) ps"
    unfolding assms [symmetric] by (simp only: filter_filter conj_commute)
  then show ?thesis
    by (simp add: wparity_def)
qed

lemma taps_odd: "filter (bit LF_POLY_ODD) [0..<LENGTH(32)] = [2, 3, 4, 6, 9, 10, 11, 14, 15, 16, 19, 21]"
  by code_simp

lemma taps_even: "filter (bit LF_POLY_EVEN) [0..<LENGTH(32)] = [2, 11, 16, 17, 18, 23]"
  by code_simp

lemma taps_split:
  "mset taps48 = mset (map (\<lambda>j. 2 * j) [2, 3, 4, 6, 9, 10, 11, 14, 15, 16, 19, 21] @
    map (\<lambda>j. 2 * j + 1) [2, 11, 16, 17, 18, 23])"
  by code_simp

lemma filter_length_mset: "mset xs = mset ys \<Longrightarrow> length (filter p xs) = length (filter p ys)"
  by (metis mset_filter size_mset)

lemma filter_reg48:
  assumes "list_all (\<lambda>j. j < 24) js"
  shows "length (filter (bit (reg48 s)) (map (\<lambda>j. 2 * j) js)) = length (filter (bit (s_odd s)) js)"
    and "length (filter (bit (reg48 s)) (map (\<lambda>j. 2 * j + 1) js)) = length (filter (bit (s_even s)) js)"
  using assms by (induction js) (auto simp: bit_reg48)

lemma feedback_reg48:
  "(wparity (LF_POLY_ODD AND s_odd s) \<noteq> wparity (LF_POLY_EVEN AND s_even s)) = feedback48 (reg48 s)"
proof -
  have "list_all (\<lambda>j. j < (24::nat)) [2, 3, 4, 6, 9, 10, 11, 14, 15, 16, 19, 21]"
    "list_all (\<lambda>j. j < (24::nat)) [2, 11, 16, 17, 18, 23]" by code_simp+
  from filter_reg48(1) [OF this(1), of s] filter_reg48(2) [OF this(2), of s] show ?thesis
    unfolding feedback48_def filter_length_mset [OF taps_split] parity_mask [OF taps_odd]
      parity_mask [OF taps_even] filter_append length_append by simp
qed

subsection \<open>The cipher step\<close>

lemma reg48_push:
  "reg48 \<lparr>s_odd = shl (s_even s) 1 OR of_bool p, s_even = s_odd s\<rparr> = shl (reg48 s) 1 OR of_bool p"
proof (rule bit_word_eqI)
  fix n :: nat assume "n < LENGTH(48)"
  then show "bit (reg48 \<lparr>s_odd = shl (s_even s) 1 OR of_bool p, s_even = s_odd s\<rparr>) n =
    bit (shl (reg48 s) 1 OR of_bool p) n"
    by (cases n) (auto simp: bit_reg48 word_bits elim: oddE)
qed

lemma crypto1_bit_reg:
  "crypto1_bit s inp enc = (b, t) \<Longrightarrow>
    b = of_bool (nlf48 (reg48 s)) \<and> reg48 t = next48 (inp \<noteq> 0) enc (reg48 s)"
proof -
  assume a: "crypto1_bit s inp enc = (b, t)"
  have e: "(of_bool p :: u32) AND of_bool enc = of_bool (enc \<and> p)" for p
    by (cases enc) simp_all
  have f: "((((enc \<and> nlf48 (reg48 s)) \<noteq> (inp \<noteq> 0)) \<noteq> wparity (LF_POLY_ODD AND s_odd s)) \<noteq>
      wparity (LF_POLY_EVEN AND s_even s)) = ((feedback48 (reg48 s) \<noteq> (inp \<noteq> 0)) \<noteq> (enc \<and> nlf48 (reg48 s)))"
    unfolding feedback_reg48 [symmetric] by argo
  show ?thesis
    using a unfolding crypto1_bit_def Let_def crypto1_filter_reg ucast_of_bool e parity_wparity wparity_xor
      wparity_of_bool f prod.inject next48_def
    by (auto simp only: reg48_push)
qed


subsection \<open>The rollback\<close>

lemma reg48_pop:
  fixes s :: crypto1_state
  defines "u \<equiv> \<lparr>s_odd = s_even s, s_even = shr (s_odd s AND 0xffffff) 1\<rparr>"
  shows "reg48 u = shr (reg48 s) 1"
    and "reg48 \<lparr>s_odd = s_even s, s_even = shr (s_odd s AND 0xffffff) 1 OR shl (of_bool p) 23\<rparr> =
      shr (reg48 s) 1 OR shl (of_bool p) 47"
proof -
  show "reg48 u = shr (reg48 s) 1"
    unfolding u_def and_masks
    by (rule bit_word_eqI) (auto simp: bit_reg48 word_bits elim!: evenE oddE)
  show "reg48 \<lparr>s_odd = s_even s, s_even = shr (s_odd s AND 0xffffff) 1 OR shl (of_bool p) 23\<rparr> =
      shr (reg48 s) 1 OR shl (of_bool p) 47"
  proof (rule bit_word_eqI)
    fix n :: nat assume "n < LENGTH(48)"
    then have n: "n < 48" by simp
    show "bit (reg48 \<lparr>s_odd = s_even s, s_even = shr (s_odd s AND 0xffffff) 1 OR shl (of_bool p) 23\<rparr>) n =
        bit (shr (reg48 s) 1 OR shl (of_bool p) 47) n"
    proof (cases "even n")
      case True
      with n show ?thesis unfolding and_masks by (auto simp: bit_reg48 word_bits elim!: evenE)
    next
      case False
      then obtain k where "n = 2 * k + 1" by (elim oddE)
      with n show ?thesis unfolding and_masks
        by (cases "k = 23") (auto simp: bit_reg48 word_bits)
    qed
  qed
qed

lemma lfsr_rollback_bit_reg:
  assumes a: "lfsr_rollback_bit s inp fb = (b, t)"
  shows "b = of_bool (nlf48 (shr (reg48 s) 1)) \<and> reg48 t = prev48 (inp \<noteq> 0) fb (reg48 s)"
proof -
  let ?u = "\<lparr>s_odd = s_even s, s_even = shr (s_odd s AND 0xffffff) 1\<rparr>"
  have c: "crypto1_filter (s_even s) = of_bool (nlf48 (shr (reg48 s) 1))"
    using crypto1_filter_reg [of ?u] unfolding reg48_pop(1) crypto1_state.simps .
  have o: "wparity ((s_odd s AND 0xffffff) AND 1) = bit (reg48 s) 0"
  proof -
    have "bit (s_odd s AND 0xffffff) 0 = bit (reg48 s) 0"
      by (simp only: bit_and_iff bit_reg48) simp
    then show ?thesis
      using shr_and_1 [of 0 "s_odd s AND 0xffffff"] by (simp only: drop_bit_0 id_apply wparity_of_bool)
  qed
  have f: "(wparity (LF_POLY_EVEN AND shr (s_odd s AND 0xffffff) 1) \<noteq> wparity (LF_POLY_ODD AND s_even s)) =
      feedback48 (shr (reg48 s) 1)"
    using feedback_reg48 [of ?u] unfolding reg48_pop(1) crypto1_state.simps by argo
  have e: "(of_bool p :: u32) AND of_bool enc = of_bool (enc \<and> p)" for p enc
    by (cases enc) simp_all
  have g: "((((bit (reg48 s) 0 \<noteq> wparity (LF_POLY_EVEN AND shr (s_odd s AND 0xffffff) 1)) \<noteq>
      wparity (LF_POLY_ODD AND s_even s)) \<noteq> (inp \<noteq> 0)) \<noteq> (fb \<and> nlf48 (shr (reg48 s) 1))) =
    (((bit (reg48 s) 0 \<noteq> feedback48 (shr (reg48 s) 1)) \<noteq> (inp \<noteq> 0)) \<noteq> (fb \<and> nlf48 (shr (reg48 s) 1)))"
    unfolding f [symmetric] by argo
  show ?thesis
    using a unfolding lfsr_rollback_bit_def Let_def filterlut_eq c ucast_of_bool e parity_wparity wparity_xor
      wparity_of_bool o g prod.inject prev48_def
    by (auto simp only: reg48_pop)
qed

lemma oldest_tap:
  "feedback48 (take_bit 47 r) = (feedback48 r \<noteq> bit r 47)" "nlf48 (take_bit 47 r) = nlf48 r"
  unfolding feedback48_def taps48_def nlf48_def Let_def by (simp_all add: bit_take_bit_iff)

lemma shr_shl_48: "shr (shl r 1 OR of_bool p) 1 = take_bit 47 (r :: 48 word)"
  by (rule bit_word_eqI) (auto simp: word_bits)

lemma prev48_next48: "prev48 b enc (next48 b enc r) = r"
proof -
  have n: "bit (next48 b enc r) 0 = ((feedback48 r \<noteq> b) \<noteq> (enc \<and> nlf48 r))"
    by (simp add: next48_def word_bits)
  have "((((feedback48 r \<noteq> b) \<noteq> (enc \<and> nlf48 r)) \<noteq> (feedback48 r \<noteq> bit r 47)) \<noteq> b) \<noteq> (enc \<and> nlf48 r) \<longleftrightarrow> bit r 47"
    by argo
  then have "prev48 b enc (next48 b enc r) = take_bit 47 r OR shl (of_bool (bit r 47)) 47"
    unfolding prev48_def Let_def n unfolding next48_def shr_shl_48 oldest_tap by simp
  also have "\<dots> = r"
  proof (rule bit_word_eqI)
    fix n :: nat assume "n < LENGTH(48)"
    then show "bit (take_bit 47 r OR shl (of_bool (bit r 47)) 47) n = bit r n"
      by (cases "n = 47") (auto simp: word_bits)
  qed
  finally show ?thesis .
qed


subsection \<open>Running the cipher forward and back\<close>

text \<open>
  A run accumulates a keystream word and moves the register. \<open>bitpos\<close> gives the place of each
  keystream bit and \<open>inbit\<close> the input bit; running the reversed list of positions backwards
  from the end state returns to the start state and collects the same keystream.
\<close>

definition fwd48 :: "(nat \<Rightarrow> nat) \<Rightarrow> (nat \<Rightarrow> bool) \<Rightarrow> bool \<Rightarrow> nat \<Rightarrow> 'a::len word \<times> 48 word \<Rightarrow> 'a word \<times> 48 word" where
  "fwd48 bitpos inbit enc i x = (fst x OR shl (of_bool (nlf48 (snd x))) (bitpos i), next48 (inbit i) enc (snd x))"

definition bwd48 :: "(nat \<Rightarrow> nat) \<Rightarrow> (nat \<Rightarrow> bool) \<Rightarrow> bool \<Rightarrow> nat \<Rightarrow> 'a::len word \<times> 48 word \<Rightarrow> 'a word \<times> 48 word" where
  "bwd48 bitpos inbit enc i x =
    (fst x OR shl (of_bool (nlf48 (shr (snd x) 1))) (bitpos i), prev48 (inbit i) enc (snd x))"

lemma nlf48_next48: "nlf48 (shr (next48 b enc r) 1) = nlf48 r"
  unfolding next48_def shr_shl_48 by (rule oldest_tap)

lemma fold_fwd48_Cons:
  "fold (fwd48 bp ib enc) (x # xs) (a, r) =
    fold (fwd48 bp ib enc) xs (a OR shl (of_bool (nlf48 r)) (bp x), next48 (ib x) enc r)"
  by (simp add: fwd48_def)

lemma fold_fwd48_acc:
  "fold (fwd48 bp ib enc) xs (a :: 'a::len word, r) =
    (a OR fst (fold (fwd48 bp ib enc) xs (0 :: 'a word, r)), snd (fold (fwd48 bp ib enc) xs (0 :: 'a word, r)))"
proof (induction xs arbitrary: a r)
  case (Cons x xs)
  have split: "fold (fwd48 bp ib enc) xs (b, next48 (ib x) enc r) =
      (b OR fst (fold (fwd48 bp ib enc) xs (0 :: 'a word, next48 (ib x) enc r)),
       snd (fold (fwd48 bp ib enc) xs (0 :: 'a word, next48 (ib x) enc r)))" for b :: "'a word"
    by (rule Cons.IH)
  show ?case
    unfolding fold_fwd48_Cons by (subst (1 2 3) split) (simp only: fst_conv snd_conv or.assoc or.left_neutral)
qed simp

lemma bwd48_fwd48:
  "fold (bwd48 bp ib enc) (rev xs) (a :: 'a::len word, snd (fold (fwd48 bp ib enc) xs (0 :: 'a word, r))) =
    (a OR fst (fold (fwd48 bp ib enc) xs (0 :: 'a word, r)), r)"
proof (induction xs arbitrary: a r)
  case (Cons x xs)
  define k where "k = shl (of_bool (nlf48 r) :: 'a word) (bp x)"
  define q where "q = next48 (ib x) enc r"
  have f: "fold (fwd48 bp ib enc) (x # xs) (0 :: 'a word, r) = (k OR fst (fold (fwd48 bp ib enc) xs (0 :: 'a word, q)),
      snd (fold (fwd48 bp ib enc) xs (0 :: 'a word, q)))"
    unfolding fold_fwd48_Cons or.left_neutral k_def q_def by (rule fold_fwd48_acc)
  have "bwd48 bp ib enc x (b, q) = (b OR k, r)" for b
    by (simp add: bwd48_def q_def k_def nlf48_next48 prev48_next48 del: One_nat_def)
  then have "fold (bwd48 bp ib enc) (rev (x # xs)) (a, snd (fold (fwd48 bp ib enc) xs (0 :: 'a word, q))) =
      (a OR (k OR fst (fold (fwd48 bp ib enc) xs (0 :: 'a word, q))), r)"
    using Cons.IH [of a q] by (simp add: or.assoc or.commute [of k])
  then show ?case unfolding f fst_conv snd_conv .
qed simp

lemma bwd48_run:
  assumes "(b :: 'a::len word, q) = fold (fwd48 bp ib enc) xs (0, r)"
    and "(b', p) = fold (bwd48 bp ib enc) (rev xs) (0, q)"
  shows "b' = b \<and> p = r"
proof -
  have "fold (bwd48 bp ib enc) (rev xs) (0, snd (b, q)) = (0 OR fst (b, q), r)"
    unfolding assms(1) by (rule bwd48_fwd48)
  then show ?thesis using assms(2) by simp
qed

lemma fold_map_rel:
  assumes "\<And>i x. f (g i x) = h i (f x)"
  shows "f (fold g xs x) = fold h xs (f x)"
  using assms by (induction xs arbitrary: x) auto

definition abs48 :: "'w \<times> crypto1_state \<Rightarrow> 'w \<times> 48 word" where
  "abs48 x = (fst x, reg48 (snd x))"

lemma bit01_neq_0 [simp]: "(bit01 x n \<noteq> (0 :: 'b::len word)) = bit x n"
  by simp

lemma crypto1_byte_fwd48:
  "abs48 (crypto1_byte s inp enc) = fold (fwd48 (\<lambda>i. i) (bit inp) enc) [0..<8] (0, reg48 s)"
  unfolding crypto1_byte_def
  by (subst fold_map_rel [where f = abs48 and h = "fwd48 (\<lambda>i. i) (bit inp) enc"])
    (auto simp: abs48_def fwd48_def dest: crypto1_bit_reg split: prod.splits)

lemma crypto1_word_fwd48:
  "abs48 (crypto1_word s inp enc) = fold (fwd48 (\<lambda>i. 24 XOR i) (\<lambda>i. bit inp (i XOR 24)) enc) [0..<32] (0, reg48 s)"
  unfolding crypto1_word_def
  by (subst fold_map_rel [where f = abs48 and h = "fwd48 (\<lambda>i. 24 XOR i) (\<lambda>i. bit inp (i XOR 24)) enc"])
    (auto simp: abs48_def fwd48_def dest: crypto1_bit_reg split: prod.splits)

lemma lfsr_rollback_byte_bwd48:
  "abs48 (lfsr_rollback_byte s inp enc) = fold (bwd48 (\<lambda>i. i) (bit inp) enc) (rev [0..<8]) (0, reg48 s)"
  unfolding lfsr_rollback_byte_def
  by (subst fold_map_rel [where f = abs48 and h = "bwd48 (\<lambda>i. i) (bit inp) enc"])
    (auto simp: abs48_def bwd48_def dest: lfsr_rollback_bit_reg split: prod.splits simp del: upt_rec_numeral)

lemma lfsr_rollback_word_bwd48:
  "abs48 (lfsr_rollback_word s inp enc) =
    fold (bwd48 (\<lambda>i. 24 XOR i) (\<lambda>i. bit inp (i XOR 24)) enc) (rev [0..<32]) (0, reg48 s)"
  unfolding lfsr_rollback_word_def
  by (subst fold_map_rel [where f = abs48 and h = "bwd48 (\<lambda>i. 24 XOR i) (\<lambda>i. bit inp (i XOR 24)) enc"])
    (auto simp: abs48_def bwd48_def dest: lfsr_rollback_bit_reg split: prod.splits simp del: upt_rec_numeral)

lemma rollback_bit:
  assumes "crypto1_bit s i enc = (b, t)" "lfsr_rollback_bit t j enc = (b', u)" "(i = 0) = (j = 0)"
  shows "b' = b" "reg48 u = reg48 s"
  using crypto1_bit_reg [OF assms(1)] lfsr_rollback_bit_reg [OF assms(2)] assms(3)
  by (simp_all add: nlf48_next48 prev48_next48 del: One_nat_def)

lemma rollback_byte:
  assumes "crypto1_byte s x enc = (b, t)" "lfsr_rollback_byte t (ucast x) enc = (b', u)"
  shows "b' = b \<and> reg48 u = reg48 s"
proof -
  have x: "bit (ucast x :: u32) = bit x"
    by (rule ext) (auto simp: word_bits dest: bit_imp_le_length)
  have "(b, reg48 t) = fold (fwd48 (\<lambda>i. i) (bit x) enc) [0..<8] (0, reg48 s)"
    "(b', reg48 u) = fold (bwd48 (\<lambda>i. i) (bit x) enc) (rev [0..<8]) (0, reg48 t)"
    using crypto1_byte_fwd48 [of s x enc] lfsr_rollback_byte_bwd48 [of t "ucast x" enc]
    unfolding assms abs48_def fst_conv snd_conv x .
  then show ?thesis by (rule bwd48_run)
qed

lemma rollback_word:
  assumes "crypto1_word s x enc = (b, t)" "lfsr_rollback_word t x enc = (b', u)"
  shows "b' = b \<and> reg48 u = reg48 s"
proof -
  have "(b, reg48 t) = fold (fwd48 (\<lambda>i. 24 XOR i) (\<lambda>i. bit x (i XOR 24)) enc) [0..<32] (0, reg48 s)"
    "(b', reg48 u) = fold (bwd48 (\<lambda>i. 24 XOR i) (\<lambda>i. bit x (i XOR 24)) enc) (rev [0..<32]) (0, reg48 t)"
    using crypto1_word_fwd48 [of s x enc] lfsr_rollback_word_bwd48 [of t x enc]
    unfolding assms abs48_def fst_conv snd_conv .
  then show ?thesis by (rule bwd48_run)
qed

text \<open>C10: 
  The rollback functions undo the cipher: whatever the input, the encryption flag and the
  garbage above the 24 bits of the two words, they return to the register before the run and
  produce the keystream that the run produced.
\<close>

theorem rollback_inverts_cipher:
  "(let (b, t) = crypto1_bit s (of_bool i) enc; (b', u) = lfsr_rollback_bit t (of_bool i) enc
    in b' = b \<and> reg48 u = reg48 s) \<and>
   (let (b, t) = crypto1_byte s x enc; (b', u) = lfsr_rollback_byte t (ucast x) enc
    in b' = b \<and> reg48 u = reg48 s) \<and>
   (let (b, t) = crypto1_word s y enc; (b', u) = lfsr_rollback_word t y enc
    in b' = b \<and> reg48 u = reg48 s)"
proof (intro conjI)
  show "let (b, t) = crypto1_bit s (of_bool i) enc; (b', u) = lfsr_rollback_bit t (of_bool i) enc
    in b' = b \<and> reg48 u = reg48 s"
    unfolding Let_def by (auto split: prod.split intro: rollback_bit)
  show "let (b, t) = crypto1_byte s x enc; (b', u) = lfsr_rollback_byte t (ucast x) enc
    in b' = b \<and> reg48 u = reg48 s"
    unfolding Let_def by (auto split: prod.split dest: rollback_byte)
  show "let (b, t) = crypto1_word s y enc; (b', u) = lfsr_rollback_word t y enc
    in b' = b \<and> reg48 u = reg48 s"
    unfolding Let_def by (auto split: prod.split dest: rollback_word)
qed


subsection \<open>Keys\<close>

lemma upt_24: "[0..<24] = [0,1,2,3,4,5,6,7,8,9,10,11,12,13,14,15,16,17,18,19,20,21,22,23]"
  by code_simp

lemma upt_48: "[0..<48] = [0,1,2,3,4,5,6,7,8,9,10,11,12,13,14,15,16,17,18,19,20,21,22,23,
    24,25,26,27,28,29,30,31,32,33,34,35,36,37,38,39,40,41,42,43,44,45,46,47]"
  by code_simp

lemma init_index: "n < 24 \<Longrightarrow> map (\<lambda>k. 47 - 2 * k) [0..<24] ! (24 - 1 - n) = 2 * n + (1::nat)"
  by (simp add: nth_upt less_imp_diff_less del: upt_rec_numeral)

lemma init_words:
  "bit (s_odd (crypto1_init key)) n = (n < 24 \<and> bit key ((2 * n) XOR 7))"
  "bit (s_even (crypto1_init key)) n = (n < 24 \<and> bit key ((2 * n + 1) XOR 7))"
proof -
  let ?xs = "map (\<lambda>k. 47 - 2 * k) [0..<24] :: nat list"
  have "s_odd (crypto1_init key) = fold (\<lambda>i acc. shl acc 1 OR bit01 key ((i - 1) XOR 7)) ?xs 0"
    unfolding crypto1_init_def by (subst fold_map_rel [where f = s_odd]) auto
  then have "bit (s_odd (crypto1_init key)) n \<longleftrightarrow> n < 32 \<and> n < 24 \<and> bit key ((?xs ! (24 - 1 - n) - 1) XOR 7)"
    by (simp only: bit_fold_shl length_map length_upt diff_zero len_num1 len_bit0) simp
  then show "bit (s_odd (crypto1_init key)) n = (n < 24 \<and> bit key ((2 * n) XOR 7))"
    by (cases "n < 24") (simp_all only: init_index, simp_all)
  have "s_even (crypto1_init key) = fold (\<lambda>i acc. shl acc 1 OR bit01 key (i XOR 7)) ?xs 0"
    unfolding crypto1_init_def by (subst fold_map_rel [where f = s_even]) auto
  then have "bit (s_even (crypto1_init key)) n \<longleftrightarrow> n < 32 \<and> n < 24 \<and> bit key ((?xs ! (24 - 1 - n)) XOR 7)"
    by (simp only: bit_fold_shl length_map length_upt diff_zero len_num1 len_bit0) simp
  then show "bit (s_even (crypto1_init key)) n = (n < 24 \<and> bit key ((2 * n + 1) XOR 7))"
    by (cases "n < 24") (simp_all only: init_index, simp_all)
qed

lemma fold_two_shl:
  "fold (\<lambda>i acc. shl (shl acc 1 OR of_bool (p i)) 1 OR of_bool (q i)) xs (a :: 'a::len word) =
    fold (\<lambda>c acc. shl acc 1 OR of_bool c) (concat (map (\<lambda>i. [p i, q i]) xs)) a"
  by (induction xs arbitrary: a) (simp_all del: push_bit_or)

lemma get_lfsr_bits:
  "bit (crypto1_get_lfsr s) n = (n < 48 \<and> (if even n then bit (s_even s) ((n div 2) XOR 3) else bit (s_odd s) ((n div 2) XOR 3)))"
proof -
  let ?cs = "concat (map (\<lambda>i. [bit (s_odd s) (i XOR 3), bit (s_even s) (i XOR 3)]) (rev [0..<24]))"
  have l: "length ?cs = 48" unfolding upt_24 by simp
  have "bit (crypto1_get_lfsr s) n = (n < 64 \<and> n < 48 \<and> ?cs ! (47 - n))"
    unfolding crypto1_get_lfsr_def fold_two_shl
    using bit_fold_shl [of "\<lambda>c. c" ?cs n, where 'a = 64] l by simp
  moreover have "list_all (\<lambda>n. ?cs ! (47 - n) =
      (if even n then bit (s_even s) ((n div 2) XOR 3) else bit (s_odd s) ((n div 2) XOR 3))) [0..<48]"
    unfolding upt_24 upt_48 list.pred_inject by (intro conjI) simp_all
  ultimately show ?thesis
    by (auto dest: less_list_all)
qed

text \<open>
  Loading a key and reading the register back gives the key: the two permutations of the bit
  order are inverse, on the 48 bits that a key has.
\<close>

theorem key_roundtrip: "crypto1_get_lfsr (crypto1_init key) = take_bit 48 key"
proof (rule bit_word_eqI)
  fix n :: nat
  have "list_all (\<lambda>n. bit (crypto1_get_lfsr (crypto1_init key)) n = bit key n) [0..<48]"
    unfolding get_lfsr_bits init_words upt_48 list.pred_inject by (intro conjI) simp_all
  then show "bit (crypto1_get_lfsr (crypto1_init key)) n = bit (take_bit 48 key) n"
    using less_list_all [of n 48 "\<lambda>n. bit (crypto1_get_lfsr (crypto1_init key)) n = bit key n"]
    by (cases "n < 48") (simp_all add: bit_take_bit_iff get_lfsr_bits)
qed

text \<open>C9: 
  The two words implement the 48-bit register: every function of the cipher that moves the
  state commutes with \<open>reg48\<close>, and the bits it returns are the filter of the register before
  the move. Input is the bit shifted in, and with the encryption flag also the keystream bit.
\<close>

theorem split_register_refines:
  "crypto1_bit s i enc = (of_bool (nlf48 (reg48 s)), snd (crypto1_bit s i enc)) \<and>
   reg48 (snd (crypto1_bit s i enc)) = next48 (i \<noteq> 0) enc (reg48 s) \<and>
   abs48 (crypto1_byte s i enc) = fold (fwd48 (\<lambda>k. k) (bit i) enc) [0..<8] (0, reg48 s) \<and>
   abs48 (crypto1_word s w enc) =
     fold (fwd48 (\<lambda>k. 24 XOR k) (\<lambda>k. bit w (k XOR 24)) enc) [0..<32] (0, reg48 s)"
proof (intro conjI)
  obtain b t where r: "crypto1_bit s i enc = (b, t)" by force
  show "crypto1_bit s i enc = (of_bool (nlf48 (reg48 s)), snd (crypto1_bit s i enc))"
    "reg48 (snd (crypto1_bit s i enc)) = next48 (i \<noteq> 0) enc (reg48 s)"
    using crypto1_bit_reg [OF r] r by simp_all
qed (rule crypto1_byte_fwd48 crypto1_word_fwd48)+

end
