(* ===== verification/Crypto1_Nonces.thy ===== *)
theory Crypto1_Nonces
  imports Crypto1
begin

text \<open>
  The nonce generator of the weak MIFARE tags. A nonce is a window of 32 bits of the sequence
  of a 16-bit feedback register; \<open>validate_prng_nonce\<close> recognises exactly the words that
  the generator produces, and \<open>nonce_distance\<close> counts the steps between two of them, because
  the register runs through all 65535 nonzero values.
\<close>

subsection \<open>Steps as bits\<close>

lemma bit_prng_step:
  "bit (prng_step x) n = (if n = 31 then ((bit x 16 \<noteq> bit x 18) \<noteq> bit x 19) \<noteq> bit x 21 else bit x (Suc n))"
proof (cases "n < 32")
  case True
  then show ?thesis
    by (cases "n = 31") (auto simp: prng_step_def word_bits)
qed (simp add: bit_word_ge)

lemma bit_prng16_step:
  "bit (prng16_step x) n = (if n = 15 then ((bit x 0 \<noteq> bit x 2) \<noteq> bit x 3) \<noteq> bit x 5 else bit x (Suc n))"
proof (cases "n < 16")
  case True
  then show ?thesis
    by (cases "n = 15") (auto simp: prng16_step_def word_bits)
qed (simp add: bit_word_ge)

lemma bit_SWAPENDIAN: "bit (SWAPENDIAN x) n = (n < 32 \<and> bit x (n XOR 24))"
proof (cases "n < 32")
  case True
  have "list_all (\<lambda>n. bit (SWAPENDIAN x) n = bit x (n XOR 24)) [0..<32]"
    unfolding upt_32 list.pred_inject by (intro conjI) (simp_all add: SWAPENDIAN_def word_bits)
  with True show ?thesis using less_list_all [OF True] by blast
qed (simp add: bit_word_ge)

lemma xor_24_lt: "n < 32 \<Longrightarrow> n XOR 24 < (32::nat)"
proof -
  assume "n < 32"
  moreover have "list_all (\<lambda>n. n XOR 24 < (32::nat)) [0..<32]" by code_simp
  ultimately show ?thesis by (rule less_list_all)
qed

lemma SWAPENDIAN_involution [simp]: "SWAPENDIAN (SWAPENDIAN x) = x"
  by (rule bit_word_eqI) (simp add: bit_SWAPENDIAN xor_24_lt xor.assoc)

lemma bit_swap16: "bit (swap16 x) n = (n < 16 \<and> bit x (n XOR 8))"
proof (cases "n < 16")
  case True
  have "list_all (\<lambda>n. bit (swap16 x) n = bit x (n XOR 8)) [0..<16]"
    unfolding upt_16 list.pred_inject by (intro conjI) (simp_all add: swap16_def word_bits)
  with True show ?thesis using less_list_all [OF True] by blast
qed (simp add: bit_word_ge)

lemma swap16_involution [simp]: "swap16 (swap16 x) = x"
proof -
  have "list_all (\<lambda>n. n XOR 8 < (16::nat) \<and> n XOR 8 XOR 8 = n) [0..<16]" by code_simp
  then have "n < 16 \<Longrightarrow> n XOR 8 < 16" for n :: nat
    using less_list_all [of n 16] by blast
  then show ?thesis
    by (intro bit_word_eqI) (simp add: bit_swap16 xor.assoc)
qed

subsection \<open>The words the generator produces\<close>

text \<open>\<open>lagged y\<close>: the upper half of the 32-bit window follows from the lower half.\<close>

definition lagged :: "u32 \<Rightarrow> bool" where
  "lagged y \<longleftrightarrow> (\<forall>k<16. bit y (k + 16) = (((bit y k \<noteq> bit y (k + 2)) \<noteq> bit y (k + 3)) \<noteq> bit y (k + 5)))"

fun seq16 :: "u16 \<Rightarrow> nat \<Rightarrow> bool" where
  "seq16 x n = (if n < 16 then bit x n
    else ((seq16 x (n - 16) \<noteq> seq16 x (n - 14)) \<noteq> seq16 x (n - 13)) \<noteq> seq16 x (n - 11))"

declare seq16.simps [simp del]

lemma seq16_steps: "n < 16 \<Longrightarrow> bit ((prng16_step ^^ k) x) n = seq16 x (n + k)"
proof (induction k arbitrary: n)
  case 0
  then show ?case by (simp add: seq16.simps)
next
  case (Suc k)
  show ?case
  proof (cases "n = 15")
    case True
    have "seq16 x (16 + k) = (((seq16 x (0 + k) \<noteq> seq16 x (2 + k)) \<noteq> seq16 x (3 + k)) \<noteq> seq16 x (5 + k))"
      by (subst seq16.simps) (simp add: add.commute)
    then show ?thesis
      using Suc.IH [of 0] Suc.IH [of 2] Suc.IH [of 3] Suc.IH [of 5] True
      by (simp add: bit_prng16_step del: bit_0)
  next
    case False
    then show ?thesis
      using Suc.IH [of "Suc n"] Suc.prems by (simp add: bit_prng16_step)
  qed
qed

lemma lagged_seq16:
  "lagged y \<longleftrightarrow> (\<forall>n<32. bit y n = seq16 (ucast y) n)"
proof
  assume l: "lagged y"
  show "\<forall>n<32. bit y n = seq16 (ucast y) n"
  proof (intro allI impI)
    fix n :: nat assume "n < 32"
    then show "bit y n = seq16 (ucast y) n"
    proof (induction n rule: less_induct)
      case (less n)
      show ?case
      proof (cases "n < 16")
        case False
        then obtain k where k: "n = k + 16" by (metis add.commute le_Suc_ex not_less)
        with less.prems have "k < 16" by simp
        then show ?thesis
          using l less.IH [of k] less.IH [of "k + 2"] less.IH [of "k + 3"] less.IH [of "k + 5"]
          by (simp add: lagged_def k seq16.simps [of _ "k + 16"] add.commute [of _ k])
      qed (simp add: seq16.simps word_bits)
    qed
  qed
next
  assume s: "\<forall>n<32. bit y n = seq16 (ucast y) n"
  then show "lagged y"
    unfolding lagged_def by (simp add: seq16.simps [of _ "_ + 16"] add.commute [of 3] add.commute [of 5])
qed


lemma seq16_16:
  "k < 16 \<Longrightarrow> seq16 x (k + 16) = bit ((prng16_step ^^ 16) x) k"
  by (simp add: seq16_steps)

lemma ucast_low: "(ucast (a :: u16) = (b :: u32) AND 0xFFFF) = (\<forall>i<16. bit a i = bit b i)"
proof -
  have "bit (ucast a :: u32) i = (i < 16 \<and> bit a i)" "bit (b AND 0xFFFF) i = (i < 16 \<and> bit b i)" for i
    unfolding and_masks by (auto simp: bit_word_ucast_iff bit_take_bit_iff)
  note b = this
  show ?thesis
  proof
    assume "ucast a = b AND 0xFFFF"
    then have "bit (ucast a :: u32) i = bit (b AND 0xFFFF) i" for i by (rule arg_cong)
    then show "\<forall>i<16. bit a i = bit b i" unfolding b by blast
  next
    assume "\<forall>i<16. bit a i = bit b i"
    then show "ucast a = b AND 0xFFFF" by (intro bit_word_eqI) (simp only: b, blast)
  qed
qed

lemma xor_8: "n < 16 \<Longrightarrow> n XOR 8 < (16::nat)" "n < 16 \<Longrightarrow> n XOR 24 = (n XOR 8) + (16::nat)"
proof -
  have "list_all (\<lambda>n. n XOR 8 < (16::nat) \<and> n XOR 24 = (n XOR 8) + (16::nat)) [0..<16]" by code_simp
  then show "n < 16 \<Longrightarrow> n XOR 8 < 16" "n < 16 \<Longrightarrow> n XOR 24 = (n XOR 8) + 16"
    using less_list_all by blast+
qed

lemma all_xor_8: "(\<forall>i<16. P (i XOR 8)) = (\<forall>i<(16::nat). P i)"
proof -
  have "(i XOR 8) XOR 8 = i" for i :: nat by (simp add: xor.assoc)
  then show ?thesis by (metis xor_8(1))
qed

lemma validate_lagged: "validate_prng_nonce nonce = lagged (SWAPENDIAN nonce)"
proof -
  define y where "y = SWAPENDIAN nonce"
  have n: "nonce = SWAPENDIAN y" by (simp add: y_def)
  have x: "swap16 (ucast (shr nonce 16)) = (ucast y :: u16)"
  proof (rule bit_word_eqI)
    fix i :: nat assume "i < LENGTH(16)"
    moreover have "list_all (\<lambda>i. bit (swap16 (ucast (shr nonce 16))) i = bit y i) [0..<16]"
      unfolding n upt_16 list.pred_inject by (intro conjI) (simp_all add: bit_swap16 word_bits bit_SWAPENDIAN)
    ultimately show "bit (swap16 (ucast (shr nonce 16))) i = bit (ucast y :: u16) i"
      using less_list_all [of i 16] by (simp add: bit_word_ucast_iff)
  qed
  have "(ucast (swap16 z) = nonce AND 0xFFFF) = (\<forall>i<16. bit z i = bit y (i + 16))" for z
  proof -
    have "(ucast (swap16 z) = nonce AND 0xFFFF) = (\<forall>i<16. bit (swap16 z) i = bit nonce i)"
      by (rule ucast_low)
    also have "\<dots> = (\<forall>i<16. bit z (i XOR 8) = bit y ((i XOR 8) + 16))"
      by (auto simp: bit_swap16 n bit_SWAPENDIAN xor_8(2))
    also have "\<dots> = (\<forall>i<16. bit z i = bit y (i + 16))"
      by (rule all_xor_8)
    finally show ?thesis .
  qed
  then have "validate_prng_nonce nonce = (\<forall>i<16. seq16 (ucast y) (i + 16) = bit y (i + 16))"
    unfolding validate_prng_nonce_def Let_def x by (simp add: seq16_16)
  also have "\<dots> = (\<forall>n<32. bit y n = seq16 (ucast y) n)"
  proof (rule iffI; intro allI impI)
    fix n :: nat
    assume a: "\<forall>i<16. seq16 (ucast y) (i + 16) = bit y (i + 16)" and "n < 32"
    then show "bit y n = seq16 (ucast y) n"
      using a [rule_format, of "n - 16"] by (cases "n < 16") (auto simp: seq16.simps [of _ n] word_bits)
  qed auto
  finally show ?thesis by (simp add: lagged_seq16 y_def)
qed

subsection \<open>Stepping windows\<close>

text \<open>The relation at position \<open>k\<close>; a step moves it down and establishes it at the top.\<close>

definition lag :: "u32 \<Rightarrow> nat \<Rightarrow> bool" where
  "lag y k \<longleftrightarrow> bit y (k + 16) = (((bit y k \<noteq> bit y (k + 2)) \<noteq> bit y (k + 3)) \<noteq> bit y (k + 5))"

lemma lagged_lag: "lagged y \<longleftrightarrow> (\<forall>k<16. lag y k)"
  by (simp add: lagged_def lag_def)

lemma lag_step: "lag (prng_step y) 15" "k < 15 \<Longrightarrow> lag (prng_step y) k = lag y (Suc k)"
  by (simp_all add: lag_def bit_prng_step)

lemma lagged_step: "lagged y \<Longrightarrow> lagged (prng_step y)"
  unfolding lagged_lag
proof (intro allI impI)
  fix k :: nat assume "\<forall>k<16. lag y k" "k < 16"
  then show "lag (prng_step y) k" by (cases "k = 15") (auto simp: lag_step)
qed

lemma lagged_after_16: "lagged ((prng_step ^^ 16) y)"
proof -
  have "\<forall>j. 16 - k \<le> j \<and> j < 16 \<longrightarrow> lag ((prng_step ^^ k) y) j" if "k \<le> 16" for k
    using that
  proof (induction k)
    case (Suc k)
    show ?case
    proof (intro allI impI)
      fix j assume j: "16 - Suc k \<le> j \<and> j < 16"
      show "lag ((prng_step ^^ Suc k) y) j"
        using Suc.IH [THEN spec, of "Suc j"] Suc.prems j by (cases "j = 15") (auto simp: lag_step)
    qed
  qed auto
  from this [of 16] show ?thesis
    by (simp add: lagged_lag)
qed

text \<open>One step back, with the oldest bit chosen so that the window stays lagged.\<close>

definition prng_prev :: "u32 \<Rightarrow> u32" where
  "prng_prev y = shl y 1 OR of_bool (((bit y 15 \<noteq> bit y 1) \<noteq> bit y 2) \<noteq> bit y 4)"

lemma bit_prng_prev:
  "bit (prng_prev y) n = (n < 32 \<and> (if n = 0 then ((bit y 15 \<noteq> bit y 1) \<noteq> bit y 2) \<noteq> bit y 4 else bit y (n - 1)))"
  by (cases n) (auto simp: prng_prev_def word_bits)

lemma prng_prev:
  assumes "lagged y"
  shows "prng_step (prng_prev y) = y" "lagged (prng_prev y)"
proof -
  show "prng_step (prng_prev y) = y"
  proof (rule bit_word_eqI)
    fix n :: nat assume "n < LENGTH(32)"
    then show "bit (prng_step (prng_prev y)) n = bit y n"
      using assms [unfolded lagged_def, rule_format, of 15] by (simp add: bit_prng_step bit_prng_prev)
  qed
  have "lag (prng_prev y) k" if "k < 16" for k
  proof (cases k)
    case 0
    then show ?thesis by (simp add: lag_def bit_prng_prev) argo
  next
    case (Suc j)
    then have "lag y j" using assms that unfolding lagged_lag by simp
    then show ?thesis
      using that by (simp add: Suc lag_def bit_prng_prev add.commute)
  qed
  then show "lagged (prng_prev y)" by (simp add: lagged_lag)
qed

lemma prng_prevs:
  assumes "lagged y"
  shows "(prng_step ^^ k) ((prng_prev ^^ k) y) = y \<and> lagged ((prng_prev ^^ k) y)"
proof (induction k)
  case (Suc k)
  have "(prng_step ^^ Suc k) ((prng_prev ^^ Suc k) y) = (prng_step ^^ k) (prng_step (prng_prev ((prng_prev ^^ k) y)))"
    by (simp only: funpow_Suc_right [of k prng_step] funpow.simps(2) [of k prng_prev] comp_apply)
  with Suc show ?case
    using prng_prev [of "(prng_prev ^^ k) y"] by simp
qed (use assms in simp)

lemma lagged_steps: "lagged y \<Longrightarrow> lagged ((prng_step ^^ k) y)"
  by (induction k) (simp_all add: lagged_step)

lemma SWAPENDIAN_successor: "SWAPENDIAN (prng_successor x n) = (prng_step ^^ unat n) (SWAPENDIAN x)"
  by (simp add: prng_successor_def)

text \<open>C12: 
  The validator accepts exactly the nonces that the weak generator can have reached: those that
  are the successor, 16 steps later, of some word; and every later successor of an accepted
  nonce is accepted.
\<close>

theorem validate_prng_nonce_exact:
  "validate_prng_nonce nonce = (\<exists>x. nonce = prng_successor x 16) \<and>
   (\<forall>n. validate_prng_nonce nonce \<longrightarrow> validate_prng_nonce (prng_successor nonce n)) \<and>
   (\<forall>x n. 16 \<le> n \<longrightarrow> validate_prng_nonce (prng_successor x n))"
proof (intro conjI allI impI)
  show "validate_prng_nonce nonce = (\<exists>x. nonce = prng_successor x 16)"
  proof
    assume "validate_prng_nonce nonce"
    then have "(prng_step ^^ 16) ((prng_prev ^^ 16) (SWAPENDIAN nonce)) = SWAPENDIAN nonce"
      using prng_prevs validate_lagged by blast
    then have "nonce = prng_successor (SWAPENDIAN ((prng_prev ^^ 16) (SWAPENDIAN nonce))) 16"
      by (simp add: prng_successor_def)
    then show "\<exists>x. nonce = prng_successor x 16" ..
  qed (auto simp: validate_lagged SWAPENDIAN_successor lagged_after_16)
next
  fix n assume "validate_prng_nonce nonce"
  then show "validate_prng_nonce (prng_successor nonce n)"
    by (simp add: validate_lagged SWAPENDIAN_successor lagged_steps)
next
  fix x n :: u32 assume "16 \<le> n"
  then have "unat n = (unat n - 16) + 16" by (simp add: word_le_nat_alt)
  then have "(prng_step ^^ unat n) y = (prng_step ^^ (unat n - 16)) ((prng_step ^^ 16) y)" for y
    by (metis comp_apply funpow_add)
  then show "validate_prng_nonce (prng_successor x n)"
    by (simp add: validate_lagged SWAPENDIAN_successor lagged_steps lagged_after_16)
qed


lemma validate_prng_nonce_exact_witness: "validate_prng_nonce (prng_successor 0x1234abcd 20)"
proof -
  have "16 \<le> (20 :: u32)" by simp
  then show ?thesis using validate_prng_nonce_exact by blast
qed

subsection \<open>The 16-bit register\<close>

lemma prng16_of_lagged: "lagged y \<Longrightarrow> ucast (prng_step y) = prng16_step (ucast y)"
proof (rule bit_word_eqI)
  fix n :: nat assume "lagged y" "n < LENGTH(16)"
  then show "bit (ucast (prng_step y) :: u16) n = bit (prng16_step (ucast y)) n"
    by (auto simp: bit_word_ucast_iff bit_prng16_step bit_prng_step lagged_lag lag_def dest: spec [of _ 0] simp del: bit_0)
qed

lemma prng16_of_laggeds: "lagged y \<Longrightarrow> ucast ((prng_step ^^ k) y) = (prng16_step ^^ k) (ucast y)"
  by (induction k) (simp_all add: prng16_of_lagged lagged_steps)

lemma lagged_eqI:
  assumes "lagged y" "lagged z" "ucast y = (ucast z :: u16)"
  shows "y = z"
  using assms by (intro bit_word_eqI) (simp add: lagged_seq16)

lemma prng16_step_xor: "prng16_step (x XOR y) = prng16_step x XOR prng16_step y"
  by (rule bit_word_eqI) (auto simp: bit_prng16_step bit_xor_iff)

lemma prng16_steps_xor: "(prng16_step ^^ k) (x XOR y) = (prng16_step ^^ k) x XOR (prng16_step ^^ k) y"
  by (induction k) (simp_all add: prng16_step_xor)

lemma prng16_step_0: "prng16_step 0 = 0"
  by (rule bit_word_eqI) (simp add: bit_prng16_step)

lemma prng16_step_inj: "prng16_step x = prng16_step y \<Longrightarrow> x = y"
proof (rule bit_word_eqI)
  fix n :: nat assume e: "prng16_step x = prng16_step y" and n: "n < LENGTH(16)"
  then have b: "bit (prng16_step x) k = bit (prng16_step y) k" for k by simp
  have s: "bit x (Suc k) = bit y (Suc k)" if "Suc k < 16" for k
    using b [of k] that by (simp add: bit_prng16_step)
  show "bit x n = bit y n"
  proof (cases n)
    case 0
    then show ?thesis
      using b [of 15] s [of 1] s [of 2] s [of 4] by (simp add: bit_prng16_step del: bit_0) argo
  qed (use s n in simp)
qed

text \<open>
  A linear map on 16-bit words is the list of its values at the 16 unit words; composing the map
  with itself sends each column through the map. Sixteen such squarings reach the step counts
  that decide the period.
\<close>

fun apply_cols :: "u16 list \<Rightarrow> u16 \<Rightarrow> u16" where
  "apply_cols [] x = 0"
| "apply_cols (c # cs) x = (if odd x then c else 0) XOR apply_cols cs (shr x 1)"

definition square_cols :: "u16 list \<Rightarrow> u16 list" where
  "square_cols m = map (apply_cols m) m"

lemma apply_cols_map:
  assumes "f 0 = 0" "\<And>x y. f (x XOR y) = f x XOR f y"
  shows "apply_cols (map f m) x = f (apply_cols m x)"
  using assms by (induction m arbitrary: x) auto

lemma square_cols:
  assumes "\<And>x. apply_cols m x = (prng16_step ^^ n) x"
  shows "apply_cols (square_cols m) x = (prng16_step ^^ (2 * n)) x"
proof -
  have z: "(prng16_step ^^ n) 0 = 0"
    by (induction n) (simp_all add: prng16_step_0)
  have "square_cols m = map (prng16_step ^^ n) m"
    by (simp add: square_cols_def assms)
  then have "apply_cols (square_cols m) x = (prng16_step ^^ n) ((prng16_step ^^ n) x)"
    by (simp add: apply_cols_map [of "prng16_step ^^ n", OF z prng16_steps_xor] assms)
  then show ?thesis
    by (simp add: mult_2 funpow_add)
qed

fun units :: "nat \<Rightarrow> nat \<Rightarrow> u16 list" where
  "units k 0 = []"
| "units k (Suc m) = shl 1 k # units (Suc k) m"

lemma apply_units: "bit (apply_cols (units k m) x) n = (n < 16 \<and> k \<le> n \<and> n < k + m \<and> bit x (n - k))"
proof (induction m arbitrary: k x)
  case (Suc m)
  have "bit (apply_cols (units k (Suc m)) x) n =
      ((bit x 0 \<and> n < 16 \<and> n = k) \<noteq> (n < 16 \<and> Suc k \<le> n \<and> n < Suc k + m \<and> bit (shr x 1) (n - Suc k)))"
    unfolding units.simps apply_cols.simps bit_xor_iff Suc.IH
    by (cases "odd x") (auto simp: bit_exp_iff bit_0)
  also have "\<dots> = (n < 16 \<and> k \<le> n \<and> n < k + Suc m \<and> bit x (n - k))"
    by (cases "n = k") (auto simp: bit_drop_bit_eq Suc_diff_Suc)
  finally show ?case .
qed simp

lemma apply_units16: "apply_cols (units 0 16) x = x"
  by (rule bit_word_eqI) (simp add: apply_units)

lemma units16: "units 0 16 =
    [1, 2, 4, 8, 16, 32, 64, 128, 256, 512, 1024, 2048, 4096, 8192, 16384, 32768]"
  by code_simp

lemma cols_0: "apply_cols
    [32768, 1, 32770, 32772, 8, 32784, 32, 64, 128, 256,
     512, 1024, 2048, 4096, 8192, 16384] x = (prng16_step ^^ 1) x"
proof -
  have "map prng16_step (units 0 16) =
    [32768, 1, 32770, 32772, 8, 32784, 32, 64, 128, 256,
     512, 1024, 2048, 4096, 8192, 16384]"
    by (simp add: units16 prng16_step_def)
  then show ?thesis
    using apply_cols_map [of prng16_step "units 0 16" x, OF prng16_step_0 prng16_step_xor] by (simp add: apply_units16)
qed

lemma cols_1: "apply_cols
    [16384, 32768, 16385, 49154, 32772, 16392, 32784, 32, 64, 128,
     256, 512, 1024, 2048, 4096, 8192] x = (prng16_step ^^ 2) x"
  using square_cols [OF cols_0, of x] by (simp add: square_cols_def)

lemma cols_2: "apply_cols
    [4096, 8192, 20480, 45056, 24577, 53250, 40964, 16392, 32784, 32,
     64, 128, 256, 512, 1024, 2048] x = (prng16_step ^^ 4) x"
  using square_cols [OF cols_1, of x] by (simp add: square_cols_def)

lemma cols_3: "apply_cols
    [256, 512, 1280, 2816, 5632, 11520, 23040, 46080, 26625, 53250,
     40964, 16392, 32784, 32, 64, 128] x = (prng16_step ^^ 8) x"
  using square_cols [OF cols_2, of x] by (simp add: square_cols_def)

lemma cols_4: "apply_cols
    [26625, 53250, 51205, 63499, 61462, 34861, 4186, 8372, 16744, 33488,
     1440, 2880, 5760, 11520, 23040, 46080] x = (prng16_step ^^ 16) x"
  using square_cols [OF cols_3, of x] by (simp add: square_cols_def)

lemma cols_5: "apply_cols
    [5185, 10370, 17732, 40648, 15761, 28514, 57029, 48522, 31508, 63016,
     60497, 55458, 45380, 25224, 50448, 35360] x = (prng16_step ^^ 32) x"
  using square_cols [OF cols_4, of x] by (simp add: square_cols_def)

lemma cols_6: "apply_cols
    [38801, 12066, 51668, 1080, 2161, 34674, 3813, 7627, 15255, 30511,
     61022, 56508, 47481, 29426, 58852, 52168] x = (prng16_step ^^ 64) x"
  using square_cols [OF cols_5, of x] by (simp add: square_cols_def)

lemma cols_7: "apply_cols
    [21116, 42232, 7052, 25957, 51915, 51178, 36820, 8105, 16210, 32420,
     64841, 64147, 62759, 59983, 54431, 43326] x = (prng16_step ^^ 128) x"
  using square_cols [OF cols_6, of x] by (simp add: square_cols_def)

lemma cols_8: "apply_cols
    [41728, 17921, 12034, 64773, 64010, 22292, 44584, 23633, 47267, 28998,
     57996, 50456, 35376, 5216, 10432, 20864] x = (prng16_step ^^ 256) x"
  using square_cols [OF cols_7, of x] by (simp add: square_cols_def)

lemma cols_9: "apply_cols
    [35845, 6154, 48144, 62501, 59466, 23697, 47395, 29254, 58508, 51480,
     37424, 9312, 18624, 37248, 8961, 17922] x = (prng16_step ^^ 512) x"
  using square_cols [OF cols_8, of x] by (simp add: square_cols_def)

lemma cols_10: "apply_cols
    [49223, 32911, 49496, 17143, 34287, 52120, 38704, 11872, 23744, 47488,
     29441, 58882, 52228, 38920, 12305, 24611] x = (prng16_step ^^ 1024) x"
  using square_cols [OF cols_9, of x] by (simp add: square_cols_def)

lemma cols_11: "apply_cols
    [18066, 36132, 23770, 65318, 65101, 47624, 29713, 59427, 53318, 41101,
     16666, 33332, 1129, 2258, 4516, 9033] x = (prng16_step ^^ 2048) x"
  using square_cols [OF cols_10, of x] by (simp add: square_cols_def)

lemma cols_12: "apply_cols
    [27513, 55027, 50846, 58949, 52362, 62061, 58586, 51637, 37739, 9942,
     19885, 39771, 14007, 28015, 56030, 46524] x = (prng16_step ^^ 4096) x"
  using square_cols [OF cols_11, of x] by (simp add: square_cols_def)

lemma cols_13: "apply_cols
    [52822, 40108, 63246, 8267, 16535, 20345, 40691, 15847, 31694, 63388,
     61241, 56946, 48357, 31178, 62357, 59179] x = (prng16_step ^^ 8192) x"
  using square_cols [OF cols_12, of x] by (simp add: square_cols_def)

lemma cols_14: "apply_cols
    [26543, 53086, 63763, 38280, 11025, 12684, 25369, 50739, 35943, 6351,
     12702, 25405, 50810, 36085, 6635, 13271] x = (prng16_step ^^ 16384) x"
  using square_cols [OF cols_13, of x] by (simp add: square_cols_def)

lemma cols_15: "apply_cols
    [1021, 2042, 3081, 7151, 14302, 27712, 55424, 45313, 25091, 50183,
     34831, 4127, 8255, 16511, 33023, 510] x = (prng16_step ^^ 32768) x"
  using square_cols [OF cols_14, of x] by (simp add: square_cols_def)

lemma cols_16: "apply_cols
    [32768, 1, 32770, 32772, 8, 32784, 32, 64, 128, 256,
     512, 1024, 2048, 4096, 8192, 16384] x = (prng16_step ^^ 65536) x"
  using square_cols [OF cols_15, of x] by (simp add: square_cols_def)


subsection \<open>The period\<close>

lemma prng16_bij_back: "(prng16_step ^^ k) x = (prng16_step ^^ k) y \<Longrightarrow> x = y"
  by (induction k) (auto dest: prng16_step_inj)

lemma period_65535: "(prng16_step ^^ 65535) x = x"
proof -
  have "(prng16_step ^^ Suc 65535) x = (prng16_step ^^ 1) x"
    using cols_16 [of x] cols_0 [of x] by (simp del: funpow.simps)
  then have "prng16_step ((prng16_step ^^ 65535) x) = prng16_step x"
    unfolding funpow.simps(2) comp_apply by simp
  then show ?thesis by (rule prng16_step_inj)
qed

text \<open>The four maximal divisors 255, 3855, 13107 and 21845 of 65535 are not periods of 1.\<close>

lemmas cols = cols_0 cols_1 cols_2 cols_3 cols_4 cols_5 cols_6 cols_7 cols_8 cols_9 cols_10 cols_11
  cols_12 cols_13 cols_14

lemma not_periods:
  "(prng16_step ^^ 255) 1 \<noteq> 1" "(prng16_step ^^ 3855) 1 \<noteq> 1"
  "(prng16_step ^^ 13107) 1 \<noteq> 1" "(prng16_step ^^ 21845) 1 \<noteq> 1"
proof -
  have p: "(prng16_step ^^ (a + b)) x = (prng16_step ^^ a) ((prng16_step ^^ b) x)" for a b x
    by (simp add: funpow_add)
  have n: "255 = 128 + (64 + (32 + (16 + (8 + (4 + (2 + (1 :: nat)))))))"
    "3855 = 2048 + (1024 + (512 + (256 + (8 + (4 + (2 + (1 :: nat)))))))"
    "13107 = 8192 + (4096 + (512 + (256 + (32 + (16 + (2 + (1 :: nat)))))))"
    "21845 = 16384 + (4096 + (1024 + (256 + (64 + (16 + (4 + (1 :: nat)))))))"
    by simp_all
  show "(prng16_step ^^ 255) 1 \<noteq> 1" unfolding n(1) p cols [symmetric] by simp
  show "(prng16_step ^^ 3855) 1 \<noteq> 1" unfolding n(2) p cols [symmetric] by simp
  show "(prng16_step ^^ 13107) 1 \<noteq> 1" unfolding n(3) p cols [symmetric] by simp
  show "(prng16_step ^^ 21845) 1 \<noteq> 1" unfolding n(4) p cols [symmetric] by simp
qed


lemma coprime_or_dvd:
  fixes p :: nat
  assumes "list_all (\<lambda>x. x dvd p \<longrightarrow> x = 1 \<or> x = p) [0..<Suc p]" "0 < p"
  shows "p dvd e \<or> coprime e p"
proof -
  have "gcd e p dvd p" "gcd e p < Suc p"
    using assms(2) by (simp_all add: le_imp_less_Suc)
  then have "gcd e p = 1 \<or> gcd e p = p"
    using assms(1) less_list_all by blast
  then show ?thesis
    by (metis coprime_iff_gcd_eq_1 gcd_dvd1)
qed

lemma maximal_divisors:
  fixes d :: nat
  assumes "d dvd 65535" "d \<noteq> 65535"
  shows "d dvd 255 \<or> d dvd 3855 \<or> d dvd 13107 \<or> d dvd 21845"
proof -
  obtain e where e: "65535 = d * e" using assms(1) by (elim dvdE)
  have p: "3 dvd e \<or> coprime e 3" "5 dvd e \<or> coprime e 5" "17 dvd e \<or> coprime e 17" "257 dvd e \<or> coprime e 257"
    by (rule coprime_or_dvd; code_simp)+
  have "3 dvd e \<or> 5 dvd e \<or> 17 dvd e \<or> 257 dvd e"
  proof (rule ccontr)
    assume "\<not> ?thesis"
    then have c: "coprime e 3" "coprime e 5" "coprime e 17" "coprime e 257" using p by auto
    have "e dvd d * e" by simp
    then have "e dvd 3 * (5 * (17 * 257))" unfolding e [symmetric] by simp
    then have "e dvd 5 * (17 * 257)" using c(1) coprime_dvd_mult_right_iff by blast
    then have "e dvd 17 * 257" using c(2) coprime_dvd_mult_right_iff by blast
    then have "e dvd 257" using c(3) coprime_dvd_mult_right_iff by blast
    then have "e dvd 257 * 1" by simp
    then have "e dvd 1" using c(4) coprime_dvd_mult_right_iff by blast
    with e assms(2) show False by simp
  qed
  then obtain k where "e = 3 * k \<or> e = 5 * k \<or> e = 17 * k \<or> e = 257 * k"
    by (elim disjE dvdE) blast+
  then have "d * k = 21845 \<or> d * k = 13107 \<or> d * k = 3855 \<or> d * k = 255"
    using e by auto
  then show ?thesis by (metis dvd_triv_left)
qed

lemma no_smaller_period:
  assumes "0 < d" "d < 65535"
  shows "(prng16_step ^^ d) 1 \<noteq> 1"
proof
  assume f: "(prng16_step ^^ d) 1 = 1"
  have m: "(prng16_step ^^ (k * n)) x = x" if "(prng16_step ^^ n) x = x" for k n x
    using that by (induction k) (simp_all add: funpow_add)
  have "(prng16_step ^^ gcd d 65535) 1 = 1"
  proof -
    obtain x y where b: "d * x = 65535 * y + gcd d 65535"
      using bezout_nat [of d 65535] assms(1) by auto
    have "(prng16_step ^^ (d * x)) 1 = 1" using m [OF f, where k = x] by (simp add: mult.commute)
    moreover have "(prng16_step ^^ (65535 * y + gcd d 65535)) 1 = (prng16_step ^^ (gcd d 65535)) 1"
      using m [OF period_65535, where k = y] by (simp add: add.commute [of "65535 * y"] funpow_add mult.commute)
    ultimately show ?thesis using b by simp
  qed
  then have g: "gcd d 65535 dvd n \<Longrightarrow> (prng16_step ^^ n) 1 = 1" for n
    using m by (metis dvdE mult.commute)
  have "gcd d 65535 \<noteq> 65535"
    using assms by (metis gcd_le1_nat leD less_irrefl)
  then show False
    using maximal_divisors [of "gcd d 65535"] g not_periods by auto
qed

subsection \<open>Distances\<close>

text \<open>\<open>state16 i\<close> is the value of the register in pass \<open>i\<close> of the loop of \<open>nonce_distance\<close>.\<close>

definition state16 :: "nat \<Rightarrow> u16" where
  "state16 i = (prng16_step ^^ (i - 1)) 1"

lemma state16_inj:
  assumes "1 \<le> i" "i \<le> j" "j \<le> 65535" "state16 i = state16 j"
  shows "i = j"
proof (rule ccontr)
  assume "i \<noteq> j"
  have "j - 1 = (i - 1) + (j - i)" using assms by simp
  then have "(prng16_step ^^ (i - 1)) 1 = (prng16_step ^^ (i - 1)) ((prng16_step ^^ (j - i)) 1)"
    using assms(4) unfolding state16_def by (metis comp_apply funpow_add)
  then have "1 = (prng16_step ^^ (j - i)) 1" by (rule prng16_bij_back)
  then show False using assms \<open>i \<noteq> j\<close> no_smaller_period [of "j - i"] by simp
qed

lemma prng16_steps_nonzero: "(prng16_step ^^ k) 1 \<noteq> 0"
proof (induction k)
  case (Suc k)
  then show ?case using prng16_step_inj [of "(prng16_step ^^ k) 1" 0] by (auto simp: prng16_step_0)
qed simp

lemma state16_surj:
  assumes "x \<noteq> 0"
  obtains i where "1 \<le> i" "i \<le> 65535" "x = state16 i"
proof -
  have i: "inj_on state16 {1..65535}"
  proof (rule inj_onI)
    fix a b assume "a \<in> {1..65535}" "b \<in> {1..65535}" "state16 a = state16 b"
    then show "a = b" using state16_inj [of a b] state16_inj [of b a] by (cases "a \<le> b") auto
  qed
  have "state16 ` {1..65535} \<subseteq> UNIV - {0}"
    using prng16_steps_nonzero by (auto simp: state16_def)
  moreover have "card (state16 ` {1..65535}) = card (UNIV - {0 :: u16})"
    unfolding card_image [OF i] by (simp add: card_Diff_singleton card_word)
  ultimately have "state16 ` {1..65535} = UNIV - {0}"
    by (intro card_subset_eq) simp_all
  then have "x \<in> state16 ` {1..65535}" using assms by simp
  then show thesis using that by auto
qed


lemma state16_Suc: "1 \<le> i \<Longrightarrow> prng16_step (state16 i) = state16 (Suc i)"
  by (cases i) (simp_all add: state16_def)

lemma dist_loop_entries:
  assumes "1 \<le> n" "n \<le> 65536"
  shows "snd (dist_loop n (\<lambda>_. 0, 1)) = state16 n \<and>
    (\<forall>i. 1 \<le> i \<and> i < n \<longrightarrow> fst (dist_loop n (\<lambda>_. 0, 1)) (swap16 (state16 i)) = word_of_nat i)"
  using assms
proof (induction n rule: dec_induct)
  case base
  then show ?case by (simp add: dist_loop_def state16_def)
next
  case (step n)
  let ?p = "dist_loop n (\<lambda>_. 0, 1)"
  have d: "dist_loop (Suc n) (\<lambda>_. 0, 1) = ((fst ?p)(swap16 (snd ?p) := word_of_nat n), prng16_step (snd ?p))"
    using step.hyps by (simp add: dist_loop_def case_prod_unfold)
  have IH: "snd ?p = state16 n" "\<And>i. 1 \<le> i \<Longrightarrow> i < n \<Longrightarrow> fst ?p (swap16 (state16 i)) = word_of_nat i"
    using step by auto
  have "fst (dist_loop (Suc n) (\<lambda>_. 0, 1)) (swap16 (state16 i)) = word_of_nat i" if "1 \<le> i" "i < Suc n" for i
  proof (cases "i = n")
    case False
    then have "state16 i \<noteq> state16 n"
      using state16_inj [of i n] that step.prems by auto
    then have "swap16 (state16 i) \<noteq> swap16 (state16 n)" by (metis swap16_involution)
    then show ?thesis using False that by (simp add: d IH)
  qed (simp add: d IH)
  then show ?case
    using step.hyps by (simp add: d IH state16_Suc)
qed

lemma dist_table_state16:
  assumes "1 \<le> i" "i \<le> 65535"
  shows "uint (dist_table (swap16 (state16 i))) = int i"
proof -
  have "dist_table (swap16 (state16 i)) = word_of_nat i"
    using dist_loop_entries [of 65536] assms by (simp add: dist_table_def)
  then show ?thesis
    using assms by (simp add: unsigned_of_nat take_bit_nat_eq_self)
qed

lemma SWAPENDIAN_0 [simp]: "SWAPENDIAN 0 = 0"
  by (simp add: SWAPENDIAN_def)

lemma upper_half: "ucast (shr nonce 16) = swap16 (ucast (SWAPENDIAN nonce))"
proof (rule bit_word_eqI)
  fix n :: nat assume "n < LENGTH(16)"
  moreover have "list_all (\<lambda>n. bit (ucast (shr nonce 16) :: u16) n = bit (swap16 (ucast (SWAPENDIAN nonce))) n) [0..<16]"
    unfolding upt_16 list.pred_inject by (intro conjI) (simp_all add: bit_swap16 word_bits bit_SWAPENDIAN)
  ultimately show "bit (ucast (shr nonce 16) :: u16) n = bit (swap16 (ucast (SWAPENDIAN nonce))) n"
    using less_list_all [of n 16] by simp
qed

text \<open>
  The comment of \<open>nonce_distance\<close> holds: for nonces of the weak generator that are not 0, the
  successor after the returned number of steps is the second nonce, and the number lies below
  the period 65535.
\<close>

theorem nonce_distance_steps:
  assumes "validate_prng_nonce x" "validate_prng_nonce y" "x \<noteq> 0" "y \<noteq> 0"
  shows "prng_successor x (word_of_int (nonce_distance x y)) = y \<and>
    0 \<le> nonce_distance x y \<and> nonce_distance x y < 65535"
proof -
  define a b where "a = SWAPENDIAN x" and "b = SWAPENDIAN y"
  have l: "lagged a" "lagged b" using assms(1,2) by (simp_all add: validate_lagged a_def b_def)
  have z: "lagged 0" by (simp add: lagged_lag lag_def)
  have nz: "ucast a \<noteq> (0 :: u16)" "ucast b \<noteq> (0 :: u16)"
    using lagged_eqI [OF l(1) z] lagged_eqI [OF l(2) z] assms(3,4)
    by (metis SWAPENDIAN_involution SWAPENDIAN_0 a_def ucast_0, metis SWAPENDIAN_involution SWAPENDIAN_0 b_def ucast_0)
  obtain i where i: "1 \<le> i" "i \<le> 65535" "ucast a = state16 i" using state16_surj [OF nz(1)] .
  obtain j where j: "1 \<le> j" "j \<le> 65535" "ucast b = state16 j" using state16_surj [OF nz(2)] .
  define d where "d = nonce_distance x y"
  have d: "d = (65535 + int j - int i) mod 65535"
    using dist_table_state16 [OF i(1,2)] dist_table_state16 [OF j(1,2)]
    by (simp add: d_def nonce_distance_def upper_half i j flip: a_def b_def)
  then have r: "0 \<le> d" "d < 65535" by simp_all
  have "d = (if i \<le> j then int j - int i else 65535 + int j - int i)"
  proof (cases "i \<le> j")
    case True
    then have "65535 + int j - int i = (int j - int i) + 65535" by simp
    with True i j show ?thesis unfolding d by (simp only: mod_add_self2) simp
  qed (use i j d in simp)
  then have n: "nat d + (i - 1) = (if i \<le> j then j - 1 else (j - 1) + 65535)"
    using i j by auto
  have "(prng16_step ^^ nat d) (ucast a) = (prng16_step ^^ (nat d + (i - 1))) 1"
    by (simp add: i(3) state16_def funpow_add)
  also have "\<dots> = (prng16_step ^^ (j - 1)) 1"
    unfolding n by (auto simp only: funpow_add comp_apply period_65535 split: if_split)
  finally have "(prng16_step ^^ nat d) (ucast a) = ucast b"
    using j(3) by (simp add: state16_def)
  then have "(prng_step ^^ nat d) a = b"
    using prng16_of_laggeds [OF l(1)] by (intro lagged_eqI lagged_steps l) simp
  moreover have "unat (word_of_int d :: u32) = nat d"
    using r by (simp add: unat_eq_nat_uint uint_word_of_int)
  ultimately show ?thesis
    using r by (simp add: prng_successor_def flip: d_def a_def) (simp add: b_def)
qed

text \<open>Two nonces of the generator: 17 steps lead from the first to the second.\<close>

lemma nonce_distance_steps_witness:
  "prng_successor 0xabcd1949 (word_of_int (nonce_distance 0xabcd1949 0x8c241a38)) = 0x8c241a38"
  using nonce_distance_steps [of "0xabcd1949" "0x8c241a38"]
  by (simp add: validate_prng_nonce_def swap16_def Let_def flip: cols_4)

end
