(* ===== verification/Crapto1.thy ===== *)
theory Crapto1
  imports Crypto1
begin

text \<open>
  The key recovery of \<open>common/crapto1/crapto1.c\<close> with \<open>common/bucketsort.c\<close>. A table is a C
  array, here a function from indices to words; a function that takes \<open>tbl\<close> and \<open>*end\<close> takes
  the index of the first entry and the index one past the last, and returns the changed array
  and the new end. The list of found states, which the code writes through the moving pointer
  \<open>sl\<close>, is a list that grows at its end. Allocations are assumed to succeed, and the tables
  are assumed to be large enough.
\<close>

type_synonym table = "nat \<Rightarrow> u32"

text \<open>\<open>even32\<close> looks its argument up in a table of 0x10E100A parities.\<close>

definition uc_evenparity32_lut :: "nat \<Rightarrow> u8" where
  "uc_evenparity32_lut i = evenparity32 (word_of_nat i)"

definition even32 :: "u32 \<Rightarrow> u32" where
  "even32 x = ucast (uc_evenparity32_lut (unat x))"

abbreviation lut_filter :: "u32 \<Rightarrow> u8" where
  "lut_filter x \<equiv> filterlut (unat (x AND 0xfffff))"

definition update_contribution :: "u32 \<Rightarrow> u32 \<Rightarrow> u32 \<Rightarrow> u32" where
  "update_contribution item mask1 mask2 =
    (let p = shr item 25;
         p = shl p 1 OR even32 (item AND mask1);
         p = shl p 1 OR even32 (item AND mask2)
     in shl p 24 OR (item AND 0xffffff))"

text \<open>
  The two table extensions. The loop is entered with the entry at \<open>t\<close> already shifted; each
  branch ends with the step \<open>*++tbl <<= 1\<close> of the \<open>for\<close> statement.
\<close>

function extend_simple_loop :: "u8 \<Rightarrow> table \<Rightarrow> nat \<Rightarrow> nat \<Rightarrow> table \<times> nat" where
  "extend_simple_loop b a t e =
    (if \<not> t < e then (a, e)
     else let f = lut_filter (a t) in
       if f XOR lut_filter (a t OR 1) \<noteq> 0 then
         (let a = a(t := a t OR ucast (f XOR b)) in
          extend_simple_loop b (a(Suc t := shl (a (Suc t)) 1)) (Suc t) e)
       else if f = b then
         (let a = a(e := a (Suc t)); a = a(Suc t := a t OR 1) in
          extend_simple_loop b (a(Suc (Suc t) := shl (a (Suc (Suc t))) 1)) (Suc (Suc t)) (Suc e))
       else
         (let a = a(t := a (e - 1)) in
          extend_simple_loop b (a(t := shl (a t) 1)) t (e - 1)))"
  by pat_completeness auto
termination by (relation "measure (\<lambda>(b, a, t, e). e - t)") auto

declare extend_simple_loop.simps [simp del]

definition extend_table_simple :: "table \<Rightarrow> nat \<Rightarrow> nat \<Rightarrow> u8 \<Rightarrow> table \<times> nat" where
  "extend_table_simple a t e b = extend_simple_loop b (a(t := shl (a t) 1)) t e"

function extend_loop :: "u8 \<Rightarrow> u32 \<Rightarrow> u32 \<Rightarrow> u32 \<Rightarrow> table \<Rightarrow> nat \<Rightarrow> nat \<Rightarrow> table \<times> nat" where
  "extend_loop b m1 m2 inp a t e =
    (if \<not> t < e then (a, e)
     else let f = lut_filter (a t) in
       if f XOR lut_filter (a t OR 1) \<noteq> 0 then
         (let a = a(t := a t OR ucast (f XOR b));
              a = a(t := update_contribution (a t) m1 m2);
              a = a(t := a t XOR inp) in
          extend_loop b m1 m2 inp (a(Suc t := shl (a (Suc t)) 1)) (Suc t) e)
       else if f = b then
         (let a = a(e := a (Suc t));
              a = a(Suc t := a t OR 1);
              a = a(t := update_contribution (a t) m1 m2);
              a = a(t := a t XOR inp);
              a = a(Suc t := update_contribution (a (Suc t)) m1 m2);
              a = a(Suc t := a (Suc t) XOR inp) in
          extend_loop b m1 m2 inp (a(Suc (Suc t) := shl (a (Suc (Suc t))) 1)) (Suc (Suc t)) (Suc e))
       else
         (let a = a(t := a (e - 1)) in
          extend_loop b m1 m2 inp (a(t := shl (a t) 1)) t (e - 1)))"
  by pat_completeness auto
termination by (relation "measure (\<lambda>(b, m1, m2, inp, a, t, e). e - t)") auto

declare extend_loop.simps [simp del]

definition extend_table :: "table \<Rightarrow> nat \<Rightarrow> nat \<Rightarrow> u8 \<Rightarrow> u32 \<Rightarrow> u32 \<Rightarrow> u32 \<Rightarrow> table \<times> nat" where
  "extend_table a t e b m1 m2 inp = extend_loop b m1 m2 (shl inp 24) (a(t := shl (a t) 1)) t e"

text \<open>
  The bucket sort by the most significant byte. A bucket is the list of the entries written
  between its \<open>head\<close> and \<open>bp\<close>. Only the buckets that are non-empty on both sides are written
  back; \<open>bucket_info\<close> holds, for each of them, the first index and the index one past the last.
\<close>

definition fill_buckets :: "table \<Rightarrow> nat \<Rightarrow> nat \<Rightarrow> nat \<Rightarrow> u32 list" where
  "fill_buckets a start stop =
    fold (\<lambda>p bucket. let j = unat (shr (a p AND 0xff000000) 24) in bucket(j := bucket j @ [a p]))
      [start..<stop] (\<lambda>_. [])"

definition write_bucket :: "u32 list \<Rightarrow> table \<Rightarrow> nat \<Rightarrow> table \<times> nat" where
  "write_bucket xs a p = fold (\<lambda>x (a, p). (a(p := x), Suc p)) xs (a, p)"

definition write_back :: "(nat \<Rightarrow> bool) \<Rightarrow> (nat \<Rightarrow> u32 list) \<Rightarrow> table \<Rightarrow> nat \<Rightarrow> table \<times> (nat \<times> nat) list" where
  "write_back common bucket a start =
    (case fold (\<lambda>j (a, p, info).
        if common j then (case write_bucket (bucket j) a p of (a', p') \<Rightarrow> (a', p', info @ [(p, p')]))
        else (a, p, info)) [0..<256] (a, start, [])
     of (a, p, info) \<Rightarrow> (a, info))"

definition bucket_sort_intersect ::
  "table \<Rightarrow> nat \<Rightarrow> nat \<Rightarrow> table \<Rightarrow> nat \<Rightarrow> nat \<Rightarrow> table \<times> (nat \<times> nat) list \<times> table \<times> (nat \<times> nat) list" where
  "bucket_sort_intersect ae es ee ao os oe =
    (let be = fill_buckets ae es ee; bo = fill_buckets ao os oe;
         common = (\<lambda>j. be j \<noteq> [] \<and> bo j \<noteq> []) in
     case write_back common be ae es of (ae', ie) \<Rightarrow>
     case write_back common bo ao os of (ao', io) \<Rightarrow> (ae', ie, ao', io))"


subsection \<open>Recovery from 32 bits of keystream\<close>

text \<open>
  \<open>recover\<close> works on one slice of the odd and one of the even table: the record holds the two
  arrays, their ends, the keystream halves and the input bits that are left. The C variable
  \<open>rem\<close> runs from 11 down to -1; the model counts \<open>rem + 1\<close>.
\<close>

record search =
  oarr :: table
  otail :: nat
  earr :: table
  etail :: nat
  soks :: u32
  seks :: u32
  sinp :: u32

definition extend_round :: "nat \<Rightarrow> nat \<Rightarrow> search \<Rightarrow> bool \<times> search" where
  "extend_round os es s =
    (let oks = shr (soks s) 1; eks = shr (seks s) 1; inp = shr (sinp s) 2;
         s = s\<lparr>soks := oks, seks := eks, sinp := inp\<rparr>
     in case extend_table (oarr s) os (otail s) (ucast (oks AND 1)) (shl LF_POLY_EVEN 1 OR 1) (shl LF_POLY_ODD 1) 0
       of (ao, oe) \<Rightarrow>
       if oe \<le> os then (False, s\<lparr>oarr := ao, otail := oe\<rparr>)
       else case extend_table (earr s) es (etail s) (ucast (eks AND 1)) LF_POLY_ODD (shl LF_POLY_EVEN 1 OR 1) (inp AND 3)
         of (ae, ee) \<Rightarrow> (es < ee, s\<lparr>oarr := ao, otail := oe, earr := ae, etail := ee\<rparr>))"

fun extend_rounds :: "nat \<Rightarrow> nat \<Rightarrow> nat \<Rightarrow> nat \<Rightarrow> search \<Rightarrow> bool \<times> nat \<times> search" where
  "extend_rounds 0 rem1 os es s = (True, rem1, s)"
| "extend_rounds (Suc i) rem1 os es s =
    (if rem1 = 1 then (True, 0, s)
     else case extend_round os es s of (ok, s') \<Rightarrow>
       if ok then extend_rounds i (rem1 - 1) os es s' else (False, rem1 - 1, s'))"

lemma extend_rounds_rem:
  "extend_rounds i rem1 os es s = (ok, rem1', s') \<Longrightarrow> rem1' \<le> rem1 \<and> (0 < i \<and> 0 < rem1 \<longrightarrow> rem1' < rem1)"
proof (induction i arbitrary: rem1 s)
  case (Suc i)
  obtain o1 s1 where r: "extend_round os es s = (o1, s1)" by force
  show ?case
    using Suc.prems Suc.IH [of "rem1 - 1" s1] by (auto simp: r split: if_splits)
qed simp

definition emit_states :: "search \<Rightarrow> nat \<Rightarrow> nat \<Rightarrow> crypto1_state list \<Rightarrow> table \<times> crypto1_state list" where
  "emit_states s os es sl =
    fold (\<lambda>e (ae, sl).
        let v = (shl (ae e) 1 XOR even32 (ae e AND LF_POLY_EVEN)) XOR of_bool (sinp s AND 4 \<noteq> 0);
            ae = ae(e := v)
        in (ae, sl @ map (\<lambda>o'. \<lparr>s_odd = v XOR even32 (oarr s o' AND LF_POLY_ODD), s_even = oarr s o'\<rparr>)
              [os..<otail s]))
      [es..<etail s] (earr s, sl)"

function recover :: "search \<Rightarrow> nat \<Rightarrow> nat \<Rightarrow> nat \<Rightarrow> crypto1_state list \<Rightarrow> table \<times> table \<times> crypto1_state list" where
  "recover s os es rem1 sl =
    (if rem1 = 0 then (case emit_states s os es sl of (ae, sl') \<Rightarrow> (oarr s, ae, sl'))
     else case extend_rounds 4 rem1 os es s of (ok, rem1', s') \<Rightarrow>
       if \<not> ok then (oarr s', earr s', sl)
       else case bucket_sort_intersect (earr s') es (etail s') (oarr s') os (otail s') of (ae, ie, ao, io) \<Rightarrow>
         fold (\<lambda>((eh, et), (oh, ot)) (ao, ae, sl).
             recover (s'\<lparr>oarr := ao, otail := ot, earr := ae, etail := et\<rparr>) oh eh rem1' sl)
           (rev (zip ie io)) (ao, ae, sl))"
  by pat_completeness auto
termination
  by (relation "measure (\<lambda>(s, os, es, rem1, sl). rem1)") (auto dest: extend_rounds_rem [OF sym])

declare recover.simps [simp del]

text \<open>
  The initial tables hold, from high to low, every index from \<open>2\<^sup>20\<close> to 0 whose filter is the
  first keystream bit (index \<open>2\<^sup>20\<close> repeats 0 for the table look-up); four extensions follow.
\<close>

definition init_table_entries :: "u8 \<Rightarrow> table \<times> nat" where
  "init_table_entries b =
    fold (\<lambda>i (a, e). if lut_filter (word_of_nat i) = b then (a(e := word_of_nat i), Suc e) else (a, e))
      (rev [0..<2 ^ 20 + 1]) (\<lambda>_. 0, 0)"

definition extend_four :: "u32 \<Rightarrow> table \<times> nat \<Rightarrow> u32 \<times> table \<times> nat" where
  "extend_four ks tbl =
    fold (\<lambda>_ (ks, a, e). let ks = shr ks 1 in (ks, extend_table_simple a 0 e (ucast (ks AND 1)))) [0..<4] (ks, tbl)"

definition keystream_half :: "u32 \<Rightarrow> nat list \<Rightarrow> u32" where
  "keystream_half ks is = fold (\<lambda>i acc. shl acc 1 OR bit01 ks (i XOR 24)) is 0"

definition lfsr_recovery32 :: "u32 \<Rightarrow> u32 \<Rightarrow> crypto1_state list" where
  "lfsr_recovery32 ks2 inp =
    (let oks = keystream_half ks2 (map (\<lambda>k. 31 - 2 * k) [0..<16]);
         eks = keystream_half ks2 (map (\<lambda>k. 30 - 2 * k) [0..<16]);
         odd_tbl = init_table_entries (ucast (oks AND 1));
         even_tbl = init_table_entries (ucast (eks AND 1))
     in case extend_four oks odd_tbl of (oks, ao, oe) \<Rightarrow>
        case extend_four eks even_tbl of (eks, ae, ee) \<Rightarrow>
          let inp = ((shr inp 16 AND 0xff) OR shl inp 16) OR (inp AND 0xff00) in
          snd (snd (recover \<lparr>oarr = ao, otail = oe, earr = ae, etail = ee, soks = oks, seks = eks, sinp = shl inp 1\<rparr>
            0 0 12 [])))"

subsection \<open>The common prefix attack\<close>

definition fastfwd :: "u32 list list" where
  "fastfwd = [[0, 0x4BC53, 0xECB1, 0x450E2, 0x25E29, 0x6E27A, 0x2B298, 0x60ECB],
              [0, 0x1D962, 0x4BC53, 0x56531, 0xECB1, 0x135D3, 0x450E2, 0x58980]]"

definition prefix_good :: "bytes \<Rightarrow> nat \<Rightarrow> nat \<Rightarrow> bool" where
  "prefix_good ks isodd i =
    list_all (\<lambda>c. let entry = word_of_nat i XOR fastfwd ! isodd ! c in
        bit01 (ks ! c) isodd = lut_filter (shr entry 1) \<and> bit01 (ks ! c) (isodd + 2) = lut_filter entry) [0..<8]"

definition lfsr_prefix_ks :: "bytes \<Rightarrow> nat \<Rightarrow> u32 list" where
  "lfsr_prefix_ks ks isodd =
    fold (\<lambda>i candidates. if prefix_good ks isodd i then candidates @ [word_of_nat i] else candidates)
      [0..<2 ^ 21] [] @ [- 1]"

text \<open>
  \<open>check_pfx_parity\<close> returns the state it wrote to \<open>*sl\<close> and whether the pointer moves past it:
  eight states are rolled back over the reader nonce, each must explain its parity bits.
\<close>

definition pfx_round :: "u32 \<Rightarrow> u32 \<Rightarrow> bytes list \<Rightarrow> u32 \<Rightarrow> u32 \<Rightarrow> bool \<Rightarrow> nat \<Rightarrow> crypto1_state \<times> bool" where
  "pfx_round prefix rresp parities od ev no_par c =
    (let s = \<lparr>s_odd = od XOR fastfwd ! 1 ! c, s_even = ev XOR fastfwd ! 0 ! c\<rparr>;
         s = snd (lfsr_rollback_bit s 0 False);
         s = snd (lfsr_rollback_bit s 0 False)
     in case lfsr_rollback_bit s 0 False of (ks3, s) \<Rightarrow>
        case lfsr_rollback_word s 0 False of (ks2, s) \<Rightarrow>
        case lfsr_rollback_word s (prefix OR shl (word_of_nat c) 5) True of (ks1, s) \<Rightarrow>
          if no_par then (s, True)
          else
            (let nr = ks1 XOR (prefix OR shl (word_of_nat c) 5); rr = ks2 XOR rresp;
                 par = (\<lambda>j. parities ! c ! j)
             in (s, odd ((evenparity32 (nr AND 0xff) XOR par 3) XOR bit01 ks2 24) \<and>
                    odd ((evenparity32 (rr AND 0xff000000) XOR par 4) XOR bit01 ks2 16) \<and>
                    odd ((evenparity32 (rr AND 0x00ff0000) XOR par 5) XOR bit01 ks2 8) \<and>
                    odd ((evenparity32 (rr AND 0x0000ff00) XOR par 6) XOR bit01 ks2 0) \<and>
                    odd ((evenparity32 (rr AND 0x000000ff) XOR par 7) XOR ks3))))"

fun check_pfx_parity ::
  "u32 \<Rightarrow> u32 \<Rightarrow> bytes list \<Rightarrow> u32 \<Rightarrow> u32 \<Rightarrow> bool \<Rightarrow> nat list \<Rightarrow> crypto1_state \<Rightarrow> crypto1_state \<times> bool" where
  "check_pfx_parity prefix rresp parities od ev no_par [] s = (s, True)"
| "check_pfx_parity prefix rresp parities od ev no_par (c # cs) s =
    (case pfx_round prefix rresp parities od ev no_par c of (s', good) \<Rightarrow>
      if no_par then (s', True)
      else if good then check_pfx_parity prefix rresp parities od ev no_par cs s'
      else (s', False))"

text \<open>
  The three nested loops over the two candidate lists and the upper bits. The candidates are
  changed in place, so the even list is carried from one odd candidate to the next; a list ends
  at the first entry that is \<open>-1\<close>.
\<close>

definition prefix_tops ::
  "u32 \<Rightarrow> u32 \<Rightarrow> bytes list \<Rightarrow> bool \<Rightarrow> u32 \<Rightarrow> u32 \<Rightarrow> crypto1_state list \<Rightarrow> u32 \<times> u32 \<times> crypto1_state list" where
  "prefix_tops pfx rr par no_par od ev sl =
    fold (\<lambda>top (od, ev, sl).
        let od = od + shl 1 21; ev = ev + shl (if top mod 8 = 0 then 2 else 1) 21
        in case check_pfx_parity pfx rr par od ev no_par [0..<8] \<lparr>s_odd = 0, s_even = 0\<rparr> of
            (s, good) \<Rightarrow> (od, ev, if good then sl @ [s] else sl))
      [0..<64] (od, ev, sl)"

fun prefix_evens ::
  "u32 \<Rightarrow> u32 \<Rightarrow> bytes list \<Rightarrow> bool \<Rightarrow> u32 \<Rightarrow> u32 list \<Rightarrow> crypto1_state list \<Rightarrow> u32 list \<times> u32 \<times> crypto1_state list" where
  "prefix_evens pfx rr par no_par od [] sl = ([], od, sl)"
| "prefix_evens pfx rr par no_par od (e # es) sl =
    (if e + 1 = 0 then (e # es, od, sl)
     else case prefix_tops pfx rr par no_par od e sl of (od', e', sl') \<Rightarrow>
       case prefix_evens pfx rr par no_par od' es sl' of (es', od'', sl'') \<Rightarrow> (e' # es', od'', sl''))"

fun prefix_odds ::
  "u32 \<Rightarrow> u32 \<Rightarrow> bytes list \<Rightarrow> bool \<Rightarrow> u32 list \<Rightarrow> u32 list \<Rightarrow> crypto1_state list \<Rightarrow> crypto1_state list" where
  "prefix_odds pfx rr par no_par [] even_ks sl = sl"
| "prefix_odds pfx rr par no_par (od # ods) even_ks sl =
    (if od + 1 = 0 then sl
     else case prefix_evens pfx rr par no_par od even_ks sl of (even_ks', _, sl') \<Rightarrow>
       prefix_odds pfx rr par no_par ods even_ks' sl')"

definition lfsr_common_prefix :: "u32 \<Rightarrow> u32 \<Rightarrow> bytes \<Rightarrow> bytes list \<Rightarrow> bool \<Rightarrow> crypto1_state list" where
  "lfsr_common_prefix pfx rr ks par no_par =
    prefix_odds pfx rr par no_par (lfsr_prefix_ks ks 1) (lfsr_prefix_ks ks 0) []"

subsection \<open>Recovery from 64 bits of keystream\<close>

definition S1 :: "u32 list" where
  "S1 = [0x62141, 0x310A0, 0x18850, 0x0C428, 0x06214,
         0x0310A, 0x85E30, 0xC69AD, 0x634D6, 0xB5CDE, 0xDE8DA, 0x6F46D, 0xB3C83,
         0x59E41, 0xA8995, 0xD027F, 0x6813F, 0x3409F, 0x9E6FA]"

definition S2 :: "u32 list" where
  "S2 = [0x3A557B00, 0x5D2ABD80, 0x2E955EC0, 0x174AAF60,
         0x0BA557B0, 0x05D2ABD8, 0x0449DE68, 0x048464B0, 0x42423258, 0x278192A8,
         0x156042D0, 0x0AB02168, 0x43F89B30, 0x61FC4D98, 0x765EAD48, 0x7D8FDD20,
         0x7EC7EE90, 0x7F63F748, 0x79117020]"

definition T1 :: "u32 list" where
  "T1 = [0x4F37D, 0x279BE, 0x97A6A, 0x4BD35, 0x25E9A, 0x12F4D, 0x097A6, 0x80D66,
         0xC4006, 0x62003, 0xB56B4, 0x5AB5A, 0xA9318, 0xD0F39, 0x6879C, 0xB057B,
         0x582BD, 0x2C15E, 0x160AF, 0x8F6E2, 0xC3DC4, 0xE5857, 0x72C2B, 0x39615,
         0x98DBF, 0xC806A, 0xE0680, 0x70340, 0x381A0, 0x98665, 0x4C332, 0xA272C]"

definition T2 :: "u32 list" where
  "T2 = [0x3C88B810, 0x5E445C08, 0x2982A580, 0x14C152C0,
         0x4A60A960, 0x253054B0, 0x52982A58, 0x2FEC9EA8, 0x1156C4D0, 0x08AB6268,
         0x42F53AB0, 0x217A9D58, 0x161DC528, 0x0DAE6910, 0x46D73488, 0x25CB11C0,
         0x52E588E0, 0x6972C470, 0x34B96238, 0x5CFC3A98, 0x28DE96C8, 0x12CFC0E0,
         0x4967E070, 0x64B3F038, 0x74F97398, 0x7CDC3248, 0x38CE92A0, 0x1C674950,
         0x0E33A4A8, 0x01B959D0, 0x40DCACE8, 0x26CEDDF0]"

definition C1 :: "u32 list" where "C1 = [0x846B5, 0x4235A, 0x211AD]"
definition C2 :: "u32 list" where "C2 = [0x1A822E0, 0x21A822E0, 0x21A822E0]"

text \<open>The three last odd bits of one table entry, and the 32 even bits; both stop at the first misfit.\<close>

fun odd_tail :: "u32 \<Rightarrow> (u32 \<times> u32 \<times> u8) list \<Rightarrow> u32 \<Rightarrow> u32 option" where
  "odd_tail i [] v = Some v"
| "odd_tail i ((c1, c2, k) # cs) v =
    (let v = shl v 1; v = v OR ucast (evenparity32 ((i AND c1) XOR (v AND c2)))
     in if lut_filter v \<noteq> k then None else odd_tail i cs v)"

fun even_bits :: "u32 \<Rightarrow> (u8 \<times> u32 \<times> u8) list \<Rightarrow> u32 \<Rightarrow> bool \<times> u32" where
  "even_bits v [] win = (True, win)"
| "even_bits v ((hi, t2, k) # cs) win =
    (let win = (shl win 1 XOR ucast hi) XOR ucast (evenparity32 (v AND t2))
     in if lut_filter win \<noteq> k then (False, win) else even_bits v cs win)"

definition recover64_entry ::
  "u32 \<Rightarrow> bytes \<Rightarrow> bytes \<Rightarrow> bytes \<Rightarrow> u32 \<Rightarrow> u32 \<Rightarrow> u32 \<times> crypto1_state list \<Rightarrow> u32 \<times> crypto1_state list" where
  "recover64_entry i oks eks hi low v0 acc =
    (case acc of (win, sl) \<Rightarrow>
     case odd_tail i (zip C1 (zip C2 (drop 29 oks))) v0 of
       None \<Rightarrow> (win, sl)
     | Some v \<Rightarrow>
         let win = fold (\<lambda>s2 win. shl win 1 OR ucast (evenparity32 (v AND s2))) S2 win XOR low
         in case even_bits v (zip hi (zip T2 eks)) win of (ok, win) \<Rightarrow>
           if \<not> ok then (win, sl)
           else let v = shl v 1 OR ucast (evenparity32 (LF_POLY_EVEN AND v))
                in (win, sl @ [\<lparr>s_odd = v XOR ucast (evenparity32 (LF_POLY_ODD AND win)), s_even = win\<rparr>]))"

fun extend_28 :: "table \<Rightarrow> nat \<Rightarrow> u8 list \<Rightarrow> table \<times> nat" where
  "extend_28 a e [] = (a, e)"
| "extend_28 a e (k # ks) = (if e = 0 then (a, e) else case extend_table_simple a 0 e k of (a', e') \<Rightarrow> extend_28 a' e' ks)"

definition recover64_start ::
  "bytes \<Rightarrow> bytes \<Rightarrow> u32 \<Rightarrow> table \<times> u32 \<times> u32 \<times> crypto1_state list \<Rightarrow> table \<times> u32 \<times> u32 \<times> crypto1_state list" where
  "recover64_start oks eks i st =
    (case st of (a, low, win, sl) \<Rightarrow>
     if lut_filter i \<noteq> oks ! 0 then (a, low, win, sl)
     else case extend_28 (a(0 := i)) 1 (take 28 (drop 1 oks)) of (a, e) \<Rightarrow>
       if e = 0 then (a, low, win, sl)
       else
         let low = fold (\<lambda>s1 low. shl low 1 OR ucast (evenparity32 (i AND s1))) S1 low;
             hi = map (\<lambda>t1. evenparity32 (i AND t1)) T1
         in case fold (\<lambda>k. recover64_entry i oks eks hi low (a k)) (rev [0..<e]) (win, sl) of
           (win, sl) \<Rightarrow> (a, low, win, sl))"

definition lfsr_recovery64 :: "u32 \<Rightarrow> u32 \<Rightarrow> crypto1_state list" where
  "lfsr_recovery64 ks2 ks3 =
    (let oks = map (\<lambda>k. bit01 ks2 ((2 * k) XOR 24)) [0..<16] @ map (\<lambda>k. bit01 ks3 ((2 * k) XOR 24)) [0..<16];
         eks = map (\<lambda>k. bit01 ks2 ((2 * k + 1) XOR 24)) [0..<16] @ map (\<lambda>k. bit01 ks3 ((2 * k + 1) XOR 24)) [0..<16]
     in case fold (\<lambda>i. recover64_start oks eks (word_of_nat i)) (rev [0..<2 ^ 20]) (\<lambda>_. 0, 0, 0, []) of
       (_, _, _, sl) \<Rightarrow> sl)"

end
