(* ===== verification/Crapto1_Laws.thy ===== *)
theory Crapto1_Laws
  imports Crapto1 Crypto1_Laws
begin

text \<open>
  The table operations of the key recovery: extending a table replaces every entry by those of
  its two continuations that produce the keystream bit, in place and whatever the order in which
  the loop moves entries around; the parity look-ups stay inside their table; the bucket sort
  keeps exactly the entries whose top byte occurs in both tables, grouped; and the candidate
  list of the common prefix attack is complete.
\<close>

subsection \<open>Extending a table\<close>

function ext_loop :: "(u32 \<Rightarrow> u32) \<Rightarrow> u8 \<Rightarrow> table \<Rightarrow> nat \<Rightarrow> nat \<Rightarrow> table \<times> nat" where
  "ext_loop g b a t e =
    (if \<not> t < e then (a, e)
     else if lut_filter (a t) \<noteq> lut_filter (a t OR 1) then
       ext_loop g b (a(t := g (a t OR ucast (lut_filter (a t) XOR b)), Suc t := shl (a (Suc t)) 1)) (Suc t) e
     else if lut_filter (a t) = b then
       ext_loop g b ((a(e := a (Suc t), t := g (a t), Suc t := g (a t OR 1)))
         (Suc (Suc t) := shl ((a(e := a (Suc t))) (Suc (Suc t))) 1)) (Suc (Suc t)) (Suc e)
     else ext_loop g b (a(t := shl (a (e - 1)) 1)) t (e - 1))"
  by pat_completeness auto
termination by (relation "measure (\<lambda>(g, b, a, t, e). e - t)") auto

declare ext_loop.simps [simp del]

lemma xor_eq_0_iff: "(x XOR y = 0) = (x = (y :: 'a::len word))"
  by (metis xor_cancel(1) xor.right_neutral xor_self_eq)

lemma simple_ext_loop: "extend_simple_loop b a t e = ext_loop (\<lambda>x. x) b a t e"
proof (induction "e - t" arbitrary: a t e rule: less_induct)
  case less
  consider "\<not> t < e" | "t < e" "lut_filter (a t) \<noteq> lut_filter (a t OR 1)"
    | "t < e" "lut_filter (a t) = lut_filter (a t OR 1)" "lut_filter (a t) = b"
    | "t < e" "lut_filter (a t) = lut_filter (a t OR 1)" "lut_filter (a t) \<noteq> b" by blast
  moreover have b3: "lut_filter (a t) = b \<and> lut_filter (a t OR 1) = b"
    if "lut_filter (a t) = lut_filter (a t OR 1)" "lut_filter (a t) = b" using that by simp
  ultimately show ?case
  proof cases
    case 1
    then show ?thesis by (simp add: extend_simple_loop.simps [of b a] ext_loop.simps [of _ b a])
  next
    case 2
    show ?thesis
      unfolding extend_simple_loop.simps [of b a t e] ext_loop.simps [of _ b a t e] Let_def xor_eq_0_iff
      using 2 by (simp add: less.hyps del: One_nat_def)
  next
    case 3
    show ?thesis
      unfolding extend_simple_loop.simps [of b a t e] ext_loop.simps [of _ b a t e] Let_def xor_eq_0_iff
      using 3(1) b3 [OF 3(2,3)] by (simp add: less.hyps fun_upd_idem del: One_nat_def)
  next
    case 4
    show ?thesis
      unfolding extend_simple_loop.simps [of b a t e] ext_loop.simps [of _ b a t e] Let_def xor_eq_0_iff
      using 4 by (simp add: less.hyps del: One_nat_def)
  qed
qed

lemma extend_ext_loop:
  "extend_loop b m1 m2 inp a t e = ext_loop (\<lambda>x. update_contribution x m1 m2 XOR inp) b a t e"
proof (induction "e - t" arbitrary: a t e rule: less_induct)
  case less
  consider "\<not> t < e" | "t < e" "lut_filter (a t) \<noteq> lut_filter (a t OR 1)"
    | "t < e" "lut_filter (a t) = lut_filter (a t OR 1)" "lut_filter (a t) = b"
    | "t < e" "lut_filter (a t) = lut_filter (a t OR 1)" "lut_filter (a t) \<noteq> b" by blast
  moreover have b3: "lut_filter (a t) = b \<and> lut_filter (a t OR 1) = b"
    if "lut_filter (a t) = lut_filter (a t OR 1)" "lut_filter (a t) = b" using that by simp
  ultimately show ?case
  proof cases
    case 1
    then show ?thesis by (simp add: extend_loop.simps [of b m1 m2 inp a] ext_loop.simps [of _ b a])
  next
    case 2
    show ?thesis
      unfolding extend_loop.simps [of b m1 m2 inp a t e] ext_loop.simps [of _ b a t e] Let_def xor_eq_0_iff
      using 2 by (simp add: less.hyps del: One_nat_def)
  next
    case 3
    show ?thesis
      unfolding extend_loop.simps [of b m1 m2 inp a t e] ext_loop.simps [of _ b a t e] Let_def xor_eq_0_iff
      using 3(1) b3 [OF 3(2,3)] by (simp add: less.hyps fun_upd_idem del: One_nat_def)
  next
    case 4
    show ?thesis
      unfolding extend_loop.simps [of b m1 m2 inp a t e] ext_loop.simps [of _ b a t e] Let_def xor_eq_0_iff
      using 4 by (simp add: less.hyps del: One_nat_def)
  qed
qed


text \<open>The continuations of an entry that produce the keystream bit \<open>b\<close>.\<close>

definition continuations :: "u8 \<Rightarrow> u32 \<Rightarrow> u32 list" where
  "continuations b x = filter (\<lambda>y. lut_filter y = b) [shl x 1, shl x 1 OR 1]"

definition grown :: "(u32 \<Rightarrow> u32) \<Rightarrow> u8 \<Rightarrow> u32 \<Rightarrow> u32 multiset" where
  "grown g b y = image_mset g (mset (filter (\<lambda>y. lut_filter y = b) [y, y OR 1]))"

definition all_grown :: "(u32 \<Rightarrow> u32) \<Rightarrow> u8 \<Rightarrow> table \<Rightarrow> nat \<Rightarrow> nat \<Rightarrow> u32 multiset" where
  "all_grown g b a i j = (\<Sum>k\<in>{i..<j}. grown g b (shl (a k) 1))"

lemma all_grown_cong:
  "(\<And>k. i \<le> k \<Longrightarrow> k < j \<Longrightarrow> a k = a' k) \<Longrightarrow> all_grown g b a i j = all_grown g b a' i j"
  unfolding all_grown_def by (rule sum.cong) auto

lemma all_grown_empty [simp]: "j \<le> i \<Longrightarrow> all_grown g b a i j = {#}"
  by (simp add: all_grown_def)

lemma all_grown_head: "i < j \<Longrightarrow> all_grown g b a i j = grown g b (shl (a i) 1) + all_grown g b a (Suc i) j"
  by (simp add: all_grown_def sum.atLeast_Suc_lessThan)

lemma all_grown_last: "i \<le> j \<Longrightarrow> all_grown g b a i (Suc j) = all_grown g b a i j + grown g b (shl (a j) 1)"
  by (simp add: all_grown_def)

lemma lut_filter_01: "lut_filter x = 0 \<or> lut_filter x = 1"
  by (simp add: filterlut_def crypto1_filter_bits)

text \<open>What the loop still has to produce when it is at entry \<open>t\<close>.\<close>

definition pending :: "(u32 \<Rightarrow> u32) \<Rightarrow> u8 \<Rightarrow> table \<Rightarrow> nat \<Rightarrow> nat \<Rightarrow> u32 multiset" where
  "pending g b a t e = (if t < e then grown g b (a t) + all_grown g b a (Suc t) e else {#})"

lemma pending_shift: "pending g b (a(t := shl (a t) 1)) t e = all_grown g b a t e"
proof (cases "t < e")
  case True
  then show ?thesis
    unfolding pending_def by (simp add: all_grown_head del: One_nat_def cong: all_grown_cong)
qed (simp add: pending_def)

lemma grown_replace:
  assumes "lut_filter y \<noteq> lut_filter (y OR 1)" "b = 0 \<or> b = 1"
  shows "grown g b y = {#g (y OR ucast (lut_filter y XOR b))#}"
  using assms lut_filter_01 [of y] lut_filter_01 [of "y OR 1"] by (auto simp: grown_def)

lemma ext_loop_grows:
  assumes "b = 0 \<or> b = 1" "t \<le> e" "ext_loop g b a t e = (a', e')"
  shows "t \<le> e' \<and> (\<forall>i<t. a' i = a i) \<and> mset (map a' [t..<e']) = pending g b a t e"
  using assms(2,3)
proof (induction "e - t" arbitrary: a t e rule: less_induct)
  case less
  consider "\<not> t < e" | "t < e" "lut_filter (a t) \<noteq> lut_filter (a t OR 1)"
    | "t < e" "lut_filter (a t) = lut_filter (a t OR 1)" "lut_filter (a t) = b"
    | "t < e" "lut_filter (a t) = lut_filter (a t OR 1)" "lut_filter (a t) \<noteq> b" by blast
  then show ?case
  proof cases
    case 1
    then have "a' = a" "e' = e" "t = e"
      using less.prems unfolding ext_loop.simps [of g b a t e] by auto
    then show ?thesis by (simp add: pending_def)
  next
    case 2
    let ?v = "g (a t OR ucast (lut_filter (a t) XOR b))"
    let ?a = "a(t := ?v, Suc t := shl (a (Suc t)) 1)"
    have "ext_loop g b ?a (Suc t) e = (a', e')"
      using less.prems(2) 2 by (simp only: ext_loop.simps [of g b a t e] if_True if_False not_not simp_thms)
    then have IH: "Suc t \<le> e'" "\<forall>i<Suc t. a' i = ?a i" "mset (map a' [Suc t..<e']) = pending g b ?a (Suc t) e"
      using less.hyps [of e "Suc t" ?a] 2 by auto
    have "pending g b ?a (Suc t) e = pending g b ((a(t := ?v))(Suc t := shl ((a(t := ?v)) (Suc t)) 1)) (Suc t) e"
      by simp
    also have "\<dots> = all_grown g b (a(t := ?v)) (Suc t) e" by (rule pending_shift)
    also have "\<dots> = all_grown g b a (Suc t) e" by (rule all_grown_cong) simp
    finally have "mset (map a' [t..<e']) = {#?v#} + all_grown g b a (Suc t) e"
      using IH by (simp add: upt_conv_Cons)
    then show ?thesis
      using IH 2 assms(1) by (auto simp: pending_def grown_replace)
  next
    case 3
    let ?u = "a(e := a (Suc t), t := g (a t), Suc t := g (a t OR 1))"
    let ?a = "?u(Suc (Suc t) := shl (?u (Suc (Suc t))) 1)"
    have "(a(e := a (Suc t))) (Suc (Suc t)) = ?u (Suc (Suc t))" by simp
    then have "ext_loop g b ?a (Suc (Suc t)) (Suc e) = (a', e')"
      using less.prems(2) 3 by (simp only: ext_loop.simps [of g b a t e] if_True if_False not_not simp_thms)
    then have IH: "Suc (Suc t) \<le> e'" "\<forall>i<Suc (Suc t). a' i = ?a i"
      "mset (map a' [Suc (Suc t)..<e']) = pending g b ?a (Suc (Suc t)) (Suc e)"
      using less.hyps [of "Suc e" "Suc (Suc t)" ?a] 3 by auto
    have "pending g b ?a (Suc (Suc t)) (Suc e) = all_grown g b ?u (Suc (Suc t)) (Suc e)" by (rule pending_shift)
    also have "\<dots> = all_grown g b a (Suc t) e"
    proof (cases "Suc t = e")
      case False
      with 3 have "Suc t < e" "Suc (Suc t) \<le> e" by simp_all
      then have "all_grown g b ?u (Suc (Suc t)) (Suc e) = all_grown g b ?u (Suc (Suc t)) e + grown g b (shl (a (Suc t)) 1)"
        unfolding all_grown_last [OF \<open>Suc (Suc t) \<le> e\<close>] by simp
      also have "all_grown g b ?u (Suc (Suc t)) e = all_grown g b a (Suc (Suc t)) e" by (rule all_grown_cong) simp
      finally show ?thesis
        unfolding all_grown_head [OF \<open>Suc t < e\<close>] by (simp only: add.commute)
    qed simp
    finally have "mset (map a' [t..<e']) = {#g (a t), g (a t OR 1)#} + all_grown g b a (Suc t) e"
      using IH by (simp add: upt_conv_Cons)
    moreover have "grown g b (a t) = {#g (a t), g (a t OR 1)#}"
      using 3 by (simp add: grown_def)
    ultimately show ?thesis
      using IH 3 by (auto simp: pending_def)
  next
    case 4
    let ?a = "a(t := shl (a (e - 1)) 1)"
    have "ext_loop g b ?a t (e - 1) = (a', e')"
      using less.prems(2) 4 by (simp only: ext_loop.simps [of g b a t e] if_True if_False not_not simp_thms)
    then have IH: "t \<le> e'" "\<forall>i<t. a' i = ?a i" "mset (map a' [t..<e']) = pending g b ?a t (e - 1)"
      using less.hyps [of "e - 1" t ?a] 4 by auto
    have "grown g b (a t) = {#}" using 4 by (simp add: grown_def)
    moreover have "pending g b ?a t (e - 1) = all_grown g b a (Suc t) e"
    proof (cases "t = e - 1")
      case False
      then obtain k where k: "e = Suc k" "t < k" using 4 by (cases e) auto
      have "all_grown g b ?a (Suc t) k = all_grown g b a (Suc t) k" by (rule all_grown_cong) simp
      then show ?thesis using k by (simp add: pending_def all_grown_last add.commute)
    qed (use 4 in \<open>simp add: pending_def\<close>)
    ultimately show ?thesis
      using IH 4 by (auto simp: pending_def)
  qed
qed


lemma grown_continuations: "grown g b (shl x 1) = image_mset g (mset (continuations b x))"
  by (simp add: grown_def continuations_def)

lemma all_grown_list: "all_grown g b a t e = image_mset g (mset (concat (map (continuations b) (map a [t..<e]))))"
proof (induction e)
  case (Suc e)
  then show ?case
    by (cases "t \<le> e") (simp_all add: all_grown_last grown_continuations del: One_nat_def)
qed simp

text \<open>C13: 
  Both functions replace the entries of the slice by all their continuations with the right
  filter bit (the second one with the contribution bits and the input bits added), and leave the
  entries before the slice alone. This holds however the loop moved entries to the end or back.
\<close>

theorem extend_table_continuations:
  assumes "b = 0 \<or> b = 1" "t \<le> e"
  shows "(case extend_table_simple a t e b of (a', e') \<Rightarrow> t \<le> e' \<and> (\<forall>i<t. a' i = a i) \<and>
      mset (map a' [t..<e']) = mset (concat (map (continuations b) (map a [t..<e])))) \<and>
    (case extend_table a t e b m1 m2 inp of (a', e') \<Rightarrow> t \<le> e' \<and> (\<forall>i<t. a' i = a i) \<and>
      mset (map a' [t..<e']) = mset (map (\<lambda>x. update_contribution x m1 m2 XOR shl inp 24)
        (concat (map (continuations b) (map a [t..<e])))))"
proof -
  obtain a1 e1 where r1: "extend_table_simple a t e b = (a1, e1)" by force
  obtain a2 e2 where r2: "extend_table a t e b m1 m2 inp = (a2, e2)" by force
  note g = ext_loop_grows [OF assms, where a = "a(t := shl (a t) 1)", unfolded pending_shift all_grown_list]
  have "t \<le> e1 \<and> (\<forall>i<t. a1 i = (a(t := shl (a t) 1)) i) \<and>
      mset (map a1 [t..<e1]) = image_mset (\<lambda>x. x) (mset (concat (map (continuations b) (map a [t..<e]))))"
    using r1 unfolding extend_table_simple_def simple_ext_loop by (rule g)
  moreover have "t \<le> e2 \<and> (\<forall>i<t. a2 i = (a(t := shl (a t) 1)) i) \<and>
      mset (map a2 [t..<e2]) = image_mset (\<lambda>x. update_contribution x m1 m2 XOR shl inp 24)
        (mset (concat (map (continuations b) (map a [t..<e]))))"
    using r2 unfolding extend_table_def extend_ext_loop by (rule g)
  ultimately show ?thesis
    unfolding r1 r2 by (simp only: prod.case multiset.map_ident mset_map) simp
qed


lemma extend_table_continuations_witness:
  "case extend_table_simple (\<lambda>i. [5, 17, 9] ! i) 0 3 1 of (a', e') \<Rightarrow>
     mset (map a' [0..<e']) = mset (concat (map (continuations 1) [5, 17, 9]))"
proof -
  have "map (\<lambda>i. [5, 17, 9 :: u32] ! i) [0..<3] = [5, 17, 9]" by code_simp
  then show ?thesis
    using extend_table_continuations [of 1 0 3 "\<lambda>i. [5, 17, 9] ! i" 0 0 0]
    by (simp only: prod.case_eq_if simp_thms le0)
qed

subsection \<open>The parity look-ups\<close>

lemma and_le_mask: "unat (x AND m) \<le> unat (m :: 'a::len word)"
  using word_and_le1 [of x m] by (simp add: word_le_nat_alt)

lemma even32_eq: "even32 x = of_bool (wparity x)"
  by (simp add: even32_def uc_evenparity32_lut_def parity_wparity)


text \<open>
  Every index that the recovery uses into the two tables built by \<open>init_lut\<close> is inside them: the
  four masks bound the parity index below 0x10E100A entries (one mask reaches the last entry),
  and the filter index is masked to 20 bits.
\<close>

theorem lookups_in_bounds:
  "(\<forall>m \<in> {shl LF_POLY_EVEN 1 OR 1, shl LF_POLY_ODD 1, LF_POLY_ODD, LF_POLY_EVEN}. unat (x AND m) < 0x10E100A) \<and>
   unat (shl LF_POLY_EVEN 1 OR 1) = 0x10E100A - 1 \<and> unat (x AND 0xfffff) < 0x100000"
proof -
  have "unat (shl LF_POLY_EVEN 1 OR 1) = 0x10E1009" "unat (shl LF_POLY_ODD 1) = 0x539CB8"
    "unat LF_POLY_ODD = 0x29CE5C" "unat LF_POLY_EVEN = 0x870804" "unat (0xfffff :: u32) = 0xfffff"
    by (simp_all add: LF_POLY_EVEN_def LF_POLY_ODD_def)
  then show ?thesis
    using and_le_mask [of x "shl LF_POLY_EVEN 1 OR 1"] and_le_mask [of x "shl LF_POLY_ODD 1"]
      and_le_mask [of x LF_POLY_ODD] and_le_mask [of x LF_POLY_EVEN] and_le_mask [of x "0xfffff"]
    by (auto simp del: One_nat_def)
qed

lemma lookups_in_bounds_witness: "unat (0xFFFFFFFF AND LF_POLY_ODD) < 0x10E100A"
  using lookups_in_bounds [of "0xFFFFFFFF"] by blast

subsection \<open>The bucket sort\<close>

abbreviation msb8 :: "u32 \<Rightarrow> nat" where
  "msb8 x \<equiv> unat (shr (x AND 0xff000000) 24)"

lemma fill_buckets_filter:
  "fill_buckets a s t j = filter (\<lambda>x. msb8 x = j) (map a [s..<t])"
proof -
  have "fold (\<lambda>p bucket. let j = msb8 (a p) in bucket(j := bucket j @ [a p])) ps b j =
      b j @ filter (\<lambda>x. msb8 x = j) (map a ps)" for ps b
    by (induction ps arbitrary: b) (simp_all add: Let_def)
  then show ?thesis by (simp add: fill_buckets_def)
qed

lemma write_bucket_eq:
  "write_bucket xs a p = (\<lambda>i. if p \<le> i \<and> i < p + length xs then xs ! (i - p) else a i, p + length xs)"
proof (induction xs arbitrary: a p)
  case (Cons x xs)
  have "write_bucket (x # xs) a p = write_bucket xs (a(p := x)) (Suc p)"
    by (simp add: write_bucket_def)
  then show ?case
    by (auto simp: Cons.IH fun_eq_iff nth_Cons' )
qed (auto simp: write_bucket_def fun_eq_iff)

definition bucket_step :: "(nat \<Rightarrow> bool) \<Rightarrow> (nat \<Rightarrow> u32 list) \<Rightarrow> nat \<Rightarrow> table \<times> nat \<times> (nat \<times> nat) list \<Rightarrow> table \<times> nat \<times> (nat \<times> nat) list" where
  "bucket_step common bucket = (\<lambda>j (a, p, info).
    if common j then (case write_bucket (bucket j) a p of (a', p') \<Rightarrow> (a', p', info @ [(p, p')])) else (a, p, info))"

lemma write_back_fold:
  "\<exists>a' infos. fold (bucket_step common bucket) js (a, p, info) =
      (a', p + sum_list (map (\<lambda>j. length (bucket j)) (filter common js)), info @ infos) \<and>
    map (\<lambda>(h, t). map a' [h..<t]) infos = map bucket (filter common js) \<and>
    (\<forall>i. i < p \<or> p + sum_list (map (\<lambda>j. length (bucket j)) (filter common js)) \<le> i \<longrightarrow> a' i = a i)"
proof (induction js arbitrary: a p info)
  case (Cons j js)
  show ?case
  proof (cases "common j")
    case True
    let ?xs = "bucket j"
    let ?a = "\<lambda>i. if p \<le> i \<and> i < p + length ?xs then ?xs ! (i - p) else a i"
    let ?q = "p + length ?xs"
    obtain a' infos where r: "fold (bucket_step common bucket) js (?a, ?q, info @ [(p, ?q)]) =
        (a', ?q + sum_list (map (\<lambda>j. length (bucket j)) (filter common js)), (info @ [(p, ?q)]) @ infos)"
      "map (\<lambda>(h, t). map a' [h..<t]) infos = map bucket (filter common js)"
      "\<forall>i. i < ?q \<or> ?q + sum_list (map (\<lambda>j. length (bucket j)) (filter common js)) \<le> i \<longrightarrow> a' i = ?a i"
      using Cons.IH [of ?a ?q "info @ [(p, ?q)]"] by blast
    have "map a' [p..<?q] = ?xs"
      by (rule nth_equalityI) (use r(3) in auto)
    then show ?thesis
      using r True by (intro exI [of _ a'] exI [of _ "(p, ?q) # infos"])
        (auto simp: bucket_step_def write_bucket_eq)
  next
    case False
    then show ?thesis using Cons.IH [of a p info] by (simp add: bucket_step_def)
  qed
qed simp

lemma sum_buckets_le:
  assumes "distinct js"
  shows "sum_list (map (\<lambda>j. length (filter (\<lambda>x. f x = j) xs)) js) \<le> length xs"
proof (induction xs)
  case (Cons x xs)
  have "sum_list (map (\<lambda>j. length (filter (\<lambda>x. f x = j) (x # xs))) js) =
      sum_list (map (\<lambda>j. length (filter (\<lambda>x. f x = j) xs)) js) + sum_list (map (\<lambda>j. if f x = j then 1 else 0) js)"
    by (induction js) auto
  also have "sum_list (map (\<lambda>j. if f x = j then 1 else 0) js) \<le> (1 :: nat)"
    using assms by (induction js) auto
  finally show ?case using Cons by simp
qed simp

lemma write_back_slices:
  assumes "write_back common bucket a s = (a', infos)" "bucket = fill_buckets a s e" "s \<le> e"
  shows "map (\<lambda>(h, t). map a' [h..<t]) infos =
      map (\<lambda>j. filter (\<lambda>x. msb8 x = j) (map a [s..<e])) (filter common [0..<256])"
    and "i < s \<or> e \<le> i \<Longrightarrow> a' i = a i"
proof -
  let ?n = "sum_list (map (\<lambda>j. length (bucket j)) (filter common [0..<256]))"
  obtain a1 infos1 where r: "fold (bucket_step common bucket) [0..<256] (a, s, []) = (a1, s + ?n, [] @ infos1)"
    "map (\<lambda>(h, t). map a1 [h..<t]) infos1 = map bucket (filter common [0..<256])"
    "\<forall>i. i < s \<or> s + ?n \<le> i \<longrightarrow> a1 i = a i"
    using write_back_fold [of common bucket "[0..<256]" a s "[]"] by blast
  have "a' = a1" "infos = infos1"
    using assms(1) r(1) unfolding write_back_def bucket_step_def by simp_all
  moreover have "?n \<le> length (map a [s..<e])"
    unfolding assms(2) fill_buckets_filter by (rule sum_buckets_le) simp
  ultimately show "map (\<lambda>(h, t). map a' [h..<t]) infos =
      map (\<lambda>j. filter (\<lambda>x. msb8 x = j) (map a [s..<e])) (filter common [0..<256])"
    and "i < s \<or> e \<le> i \<Longrightarrow> a' i = a i"
    using r assms(2,3) by (auto simp: fill_buckets_filter)
qed

text \<open>
  The bucket sort keeps, on both sides, exactly the entries whose top byte occurs on the other
  side too. The two lists of buckets run over the same bytes in ascending order, each bucket
  holds its entries in their old order, and nothing outside the two slices is written.
\<close>

theorem bucket_sort_groups:
  assumes "es \<le> ee" "os \<le> oe"
  shows "case bucket_sort_intersect ae es ee ao os oe of (ae', ie, ao', io) \<Rightarrow>
    (let ev = map ae [es..<ee]; od = map ao [os..<oe];
         both = filter (\<lambda>j. (\<exists>x \<in> set ev. msb8 x = j) \<and> (\<exists>x \<in> set od. msb8 x = j)) [0..<256]
     in map (\<lambda>(h, t). map ae' [h..<t]) ie = map (\<lambda>j. filter (\<lambda>x. msb8 x = j) ev) both \<and>
        map (\<lambda>(h, t). map ao' [h..<t]) io = map (\<lambda>j. filter (\<lambda>x. msb8 x = j) od) both \<and>
        (\<forall>i. i < es \<or> ee \<le> i \<longrightarrow> ae' i = ae i) \<and> (\<forall>i. i < os \<or> oe \<le> i \<longrightarrow> ao' i = ao i))"
proof -
  let ?be = "fill_buckets ae es ee" and ?bo = "fill_buckets ao os oe"
  let ?c = "\<lambda>j. ?be j \<noteq> [] \<and> ?bo j \<noteq> []"
  obtain ae' ie where e: "write_back ?c ?be ae es = (ae', ie)" by force
  obtain ao' io where o: "write_back ?c ?bo ao os = (ao', io)" by force
  have c: "?c = (\<lambda>j. (\<exists>x \<in> set (map ae [es..<ee]). msb8 x = j) \<and> (\<exists>x \<in> set (map ao [os..<oe]). msb8 x = j))"
    unfolding fill_buckets_filter filter_empty_conv by auto
  have r: "bucket_sort_intersect ae es ee ao os oe = (ae', ie, ao', io)"
    unfolding bucket_sort_intersect_def Let_def e o by simp
  show ?thesis
    unfolding r prod.case Let_def c [symmetric]
    using write_back_slices [OF e refl assms(1)] write_back_slices [OF o refl assms(2)] by blast
qed

lemma bucket_sort_groups_witness:
  "case bucket_sort_intersect (\<lambda>i. [0x01000005, 0x02000006] ! i) 0 2 (\<lambda>i. [0x02000007, 0x03000008] ! i) 0 2
    of (ae', ie, ao', io) \<Rightarrow> map (\<lambda>(h, t). map ae' [h..<t]) ie = [[0x02000006]]"
proof -
  have "map (\<lambda>i. [0x01000005, 0x02000006 :: u32] ! i) [0..<2] = [0x01000005, 0x02000006]"
    "map (\<lambda>i. [0x02000007, 0x03000008 :: u32] ! i) [0..<2] = [0x02000007, 0x03000008]" by code_simp+
  moreover have "filter (\<lambda>j. (\<exists>x \<in> set [0x01000005, 0x02000006]. msb8 x = j) \<and>
      (\<exists>x \<in> set [0x02000007, 0x03000008]. msb8 x = j)) [0..<256] = [2]" by code_simp
  ultimately show ?thesis
    using bucket_sort_groups [of 0 2 0 2 "\<lambda>i. [0x01000005, 0x02000006] ! i" "\<lambda>i. [0x02000007, 0x03000008] ! i"]
    by (simp add: Let_def case_prod_unfold)
qed


subsection \<open>Candidates of the common prefix attack\<close>

text \<open>
  The candidate list is the ascending list of exactly those 21-bit values that explain the two
  filter bits of all eight keystreams, closed by the end marker, which is not a candidate.
\<close>

theorem lfsr_prefix_ks_exact:
  "lfsr_prefix_ks ks isodd = map word_of_nat (filter (prefix_good ks isodd) [0..<2 ^ 21]) @ [- 1] \<and>
   - 1 \<notin> set (butlast (lfsr_prefix_ks ks isodd))"
proof -
  have f: "fold (\<lambda>i cs. if p i then cs @ [w i] else cs) is cs = cs @ map w (filter p is)" for p w "is" cs
    by (induction "is" arbitrary: cs) auto
  have e: "lfsr_prefix_ks ks isodd = map word_of_nat (filter (prefix_good ks isodd) [0..<2 ^ 21]) @ [- 1]"
    by (simp only: lfsr_prefix_ks_def f append_Nil)
  have "word_of_nat i \<noteq> (- 1 :: u32)" if "i < 2 ^ 21" for i
  proof
    assume "word_of_nat i = (- 1 :: u32)"
    then have "unat (word_of_nat i :: u32) = unat (- 1 :: u32)" by simp
    moreover have "unat (- 1 :: u32) = 2 ^ 32 - 1" by (simp add: unsigned_minus_1_eq_mask mask_eq_exp_minus_1)
    ultimately show False using that by (simp add: unsigned_of_nat take_bit_nat_eq_self)
  qed
  then have "(- 1 :: u32) \<notin> word_of_nat ` {i. i < 2 ^ 21 \<and> prefix_good ks isodd i}"
    by (metis (no_types, lifting) imageE mem_Collect_eq)
  then show ?thesis
    unfolding e butlast_snoc set_map set_filter set_upt by (simp add: conj_commute)
qed

end
