(* ===== verification/Iclass_Cipher.thy ===== *)
theory Iclass_Cipher
  imports Cipher_Utils
begin

text \<open>
  The iCLASS cipher and its MACs: the client's \<open>client/src/loclass/cipher.c\<close>, which feeds bit
  streams, its brute-force variant on bytes, and the firmware's \<open>armsrc/optimized_cipher.c\<close>. Both
  files hold the same select table and each its own successor function. A \<open>State_t *\<close> that a
  function changes is an argument and a result. Buffers that the code fills by index are lists;
  the allocation in \<open>doMAC_N\<close> is assumed to succeed.
\<close>

record iclass_state =
  cs_l :: u8
  cs_r :: u8
  cs_b :: u8
  cs_t :: u16

definition opt_select_LUT :: "u8 list" where
  "opt_select_LUT =
    [0, 3, 2, 1, 2, 3, 0, 1, 4, 7, 7, 4, 6, 7, 5, 4,
     1, 2, 3, 0, 2, 3, 0, 1, 5, 6, 6, 5, 6, 7, 5, 4,
     6, 5, 4, 7, 4, 5, 6, 7, 6, 5, 5, 6, 4, 5, 7, 6,
     7, 4, 5, 6, 4, 5, 6, 7, 7, 4, 4, 7, 4, 5, 7, 6,
     6, 5, 4, 7, 4, 5, 6, 7, 2, 1, 1, 2, 0, 1, 3, 2,
     3, 0, 1, 2, 0, 1, 2, 3, 7, 4, 4, 7, 4, 5, 7, 6,
     0, 3, 2, 1, 2, 3, 0, 1, 0, 3, 3, 0, 2, 3, 1, 0,
     5, 6, 7, 4, 6, 7, 4, 5, 5, 6, 6, 5, 6, 7, 5, 4,
     2, 1, 0, 3, 0, 1, 2, 3, 6, 5, 5, 6, 4, 5, 7, 6,
     3, 0, 1, 2, 0, 1, 2, 3, 7, 4, 4, 7, 4, 5, 7, 6,
     2, 1, 0, 3, 0, 1, 2, 3, 2, 1, 1, 2, 0, 1, 3, 2,
     3, 0, 1, 2, 0, 1, 2, 3, 3, 0, 0, 3, 0, 1, 3, 2,
     4, 7, 6, 5, 6, 7, 4, 5, 0, 3, 3, 0, 2, 3, 1, 0,
     1, 2, 3, 0, 2, 3, 0, 1, 5, 6, 6, 5, 6, 7, 5, 4,
     4, 7, 6, 5, 6, 7, 4, 5, 4, 7, 7, 4, 6, 7, 5, 4,
     1, 2, 3, 0, 2, 3, 0, 1, 1, 2, 2, 1, 2, 3, 1, 0]"

subsection \<open>The client\<close>

definition successor :: "bytes \<Rightarrow> iclass_state \<Rightarrow> u8 \<Rightarrow> iclass_state" where
  "successor k s y =
    (let Tt = cs_t s AND 0xc533;
         Tt = Tt XOR shr Tt 1;
         Tt = Tt XOR shr Tt 4;
         Tt = Tt XOR shr Tt 10;
         Tt = Tt XOR shr Tt 8;
         t' = shr (cs_t s) 1 OR shl ((Tt XOR ucast (shr (cs_r s) 7)) XOR ucast (shr (cs_r s) 3)) 15;
         opt_B = ((cs_b s XOR shr (cs_b s) 6) XOR shr (cs_b s) 5) XOR shr (cs_b s) 4;
         b' = shr (cs_b s) 1 OR shl (opt_B XOR cs_r s) 7;
         lut = ucast (opt_select_LUT ! unat (cs_r s)) :: u32;
         sel = lut AND 0x04;
         sel = sel OR ((lut XOR shl (ucast Tt XOR ucast y) 1) AND 0x02);
         sel = sel OR ((lut XOR ucast Tt) AND 0x01);
         r' = (k ! unat sel XOR b') + cs_l s
     in \<lparr>cs_l = r' + cs_r s, cs_r = r', cs_b = b', cs_t = t'\<rparr>)"

function suc :: "bytes \<Rightarrow> iclass_state \<Rightarrow> bitstream_in \<Rightarrow> iclass_state" where
  "suc k s bitstream =
    (if bitsLeft bitstream > 0
     then (case headBit bitstream of (y, bitstream) \<Rightarrow> suc k (successor k s (of_bool y)) bitstream)
     else s)"
  by pat_completeness auto
termination
  by (relation "measure (\<lambda>(k, s, i). in_numbits i - in_position i)") (auto simp: bitsLeft_def headBit_def Let_def)

declare suc.simps [simp del]

function cipher_output :: "bytes \<Rightarrow> iclass_state \<Rightarrow> bitstream_in \<Rightarrow> bitstream_out \<Rightarrow> bitstream_out" where
  "cipher_output k s inp out =
    (if bitsLeft inp > 0
     then let out = pushBit out (shr (cs_r s) 2 AND 1 \<noteq> 0)
          in case headBit inp of (y, inp) \<Rightarrow> cipher_output k (successor k s (of_bool y)) inp out
     else out)"
  by pat_completeness auto
termination
  by (relation "measure (\<lambda>(k, s, i, out). in_numbits i - in_position i)") (auto simp: bitsLeft_def headBit_def Let_def)

declare cipher_output.simps [simp del]

definition iclass_init :: "bytes \<Rightarrow> iclass_state" where
  "iclass_init k =
    \<lparr>cs_l = (k ! 0 XOR 0x4c) + 0xEC, cs_r = (k ! 0 XOR 0x4c) + 0x21, cs_b = 0x4c, cs_t = 0xE012\<rparr>"

definition MAC :: "bytes \<Rightarrow> bitstream_in \<Rightarrow> bitstream_out \<Rightarrow> bitstream_out" where
  "MAC k input out =
    (let input_32_zeroes = \<lparr>in_buffer = [0, 0, 0, 0], in_numbits = 4 * 8, in_position = 0\<rparr>;
         initState = suc k (iclass_init k) input
     in cipher_output k initState input_32_zeroes out)"

definition doMAC :: "bytes \<Rightarrow> bytes \<Rightarrow> bytes" where
  "doMAC cc_nr_p div_key_p =
    (let cc_nr = take 12 cc_nr_p @ [0];
         cc_nr = reverse_arraybytes cc_nr 12;
         bitstream = \<lparr>in_buffer = cc_nr, in_numbits = 12 * 8, in_position = 0\<rparr>;
         out = \<lparr>out_buffer = replicate 8 0, out_numbits = 8 * 8, out_position = 0\<rparr>;
         dest = out_buffer (MAC div_key_p bitstream out)
     in take 4 (reverse_arraybytes dest 8))"

definition suc_bytes :: "bytes \<Rightarrow> iclass_state \<Rightarrow> bytes \<Rightarrow> nat \<Rightarrow> iclass_state" where
  "suc_bytes k s inp len =
    fold (\<lambda>i s.
        let b = inp ! i; s = successor k s b;
            b = shr b 1; s = successor k s b;
            b = shr b 1; s = successor k s b;
            b = shr b 1; s = successor k s b;
            b = shr b 1; s = successor k s b;
            b = shr b 1; s = successor k s b;
            b = shr b 1; s = successor k s b;
            b = shr b 1
        in successor k s b) [0..<len] s"

definition output_byte :: "(iclass_state \<Rightarrow> iclass_state) \<Rightarrow> iclass_state \<Rightarrow> u8 \<times> iclass_state" where
  "output_byte step s =
    (let bout = shr (cs_r s AND 0x4) 2; s = step s;
         bout = bout OR shr (cs_r s AND 0x4) 1; s = step s;
         bout = bout OR (cs_r s AND 0x4); s = step s;
         bout = bout OR shl (cs_r s AND 0x4) 1; s = step s;
         bout = bout OR shl (cs_r s AND 0x4) 2; s = step s;
         bout = bout OR shl (cs_r s AND 0x4) 3; s = step s;
         bout = bout OR shl (cs_r s AND 0x4) 4; s = step s;
         bout = bout OR shl (cs_r s AND 0x4) 5; s = step s
     in (bout, s))"

definition output_bytes :: "bytes \<Rightarrow> iclass_state \<Rightarrow> bytes \<Rightarrow> nat \<Rightarrow> bytes \<times> iclass_state" where
  "output_bytes k s out nbytes =
    fold (\<lambda>i (out, s). case output_byte (\<lambda>s. successor k s 0) s of (bout, s) \<Rightarrow> (out[i := bout], s))
      [0..<nbytes] (out, s)"

definition doMAC_brute :: "bytes \<Rightarrow> bytes \<Rightarrow> bytes \<Rightarrow> bytes" where
  "doMAC_brute cc_nr div_key mac =
    (let s = iclass_init div_key; s = suc_bytes div_key s cc_nr 12
     in fst (output_bytes div_key s mac 4))"

definition doMAC_N :: "bytes \<Rightarrow> u8 \<Rightarrow> bytes \<Rightarrow> bytes" where
  "doMAC_N address_data_p address_data_size div_key_p =
    (let size = unat address_data_size;
         address_data = take size address_data_p;
         div_key = take 8 div_key_p;
         address_data = reverse_arraybytes address_data size;
         bitstream = \<lparr>in_buffer = address_data, in_numbits = size * 8, in_position = 0\<rparr>;
         out = \<lparr>out_buffer = replicate 8 0, out_numbits = 8 * 8, out_position = 0\<rparr>;
         dest = out_buffer (MAC div_key bitstream out)
     in take 4 (reverse_arraybytes dest 8))"

subsection \<open>The firmware\<close>

definition opt_successor :: "bytes \<Rightarrow> iclass_state \<Rightarrow> u8 \<Rightarrow> iclass_state" where
  "opt_successor k s y =
    (let Tt = cs_t s AND 0xc533;
         Tt = Tt XOR shr Tt 1;
         Tt = Tt XOR shr Tt 4;
         Tt = Tt XOR shr Tt 10;
         Tt = Tt XOR shr Tt 8;
         s = s\<lparr>cs_t := shr (cs_t s) 1\<rparr>;
         s = s\<lparr>cs_t := cs_t s OR shl ((Tt XOR ucast (shr (cs_r s) 7)) XOR ucast (shr (cs_r s) 3)) 15\<rparr>;
         opt_B = cs_b s;
         opt_B = opt_B XOR shr (cs_b s) 6;
         opt_B = opt_B XOR shr (cs_b s) 5;
         opt_B = opt_B XOR shr (cs_b s) 4;
         s = s\<lparr>cs_b := shr (cs_b s) 1\<rparr>;
         s = s\<lparr>cs_b := cs_b s OR shl (opt_B XOR cs_r s) 7\<rparr>;
         lut = ucast (opt_select_LUT ! unat (cs_r s)) :: u32;
         opt_select = lut AND 0x04;
         opt_select = opt_select OR ((lut XOR shl (ucast Tt XOR ucast y) 1) AND 0x02);
         opt_select = opt_select OR ((lut XOR ucast Tt) AND 0x01);
         r = cs_r s;
         s = s\<lparr>cs_r := (k ! unat opt_select XOR cs_b s) + cs_l s\<rparr>
     in s\<lparr>cs_l := cs_r s + r\<rparr>)"

definition opt_suc :: "bytes \<Rightarrow> iclass_state \<Rightarrow> bytes \<Rightarrow> nat \<Rightarrow> bool \<Rightarrow> iclass_state" where
  "opt_suc k s inp len add32Zeroes =
    (let s = fold (\<lambda>i s.
            let head = inp ! i; s = opt_successor k s head;
                head = shr head 1; s = opt_successor k s head;
                head = shr head 1; s = opt_successor k s head;
                head = shr head 1; s = opt_successor k s head;
                head = shr head 1; s = opt_successor k s head;
                head = shr head 1; s = opt_successor k s head;
                head = shr head 1; s = opt_successor k s head;
                head = shr head 1
            in opt_successor k s head) [0..<len] s
     in if add32Zeroes then
          fold (\<lambda>i s. opt_successor k (opt_successor k (opt_successor k (opt_successor k s 0) 0) 0) 0) [0..<8] s
        else s)"

definition opt_output :: "bytes \<Rightarrow> iclass_state \<Rightarrow> bytes \<Rightarrow> bytes" where
  "opt_output k s buffer =
    fst (fold (\<lambda>times (buffer, s).
        case output_byte (\<lambda>s. opt_successor k s 0) s of (bout, s) \<Rightarrow> (buffer[times := bout], s)) [0..<4] (buffer, s))"

definition opt_MAC :: "bytes \<Rightarrow> bytes \<Rightarrow> bytes \<Rightarrow> bytes" where
  "opt_MAC k input out = opt_output k (opt_suc k (iclass_init k) input 12 False) out"

definition opt_MAC_N :: "bytes \<Rightarrow> bytes \<Rightarrow> u8 \<Rightarrow> bytes \<Rightarrow> bytes" where
  "opt_MAC_N k input in_size out = opt_output k (opt_suc k (iclass_init k) input (unat in_size) False) out"

definition opt_doReaderMAC :: "bytes \<Rightarrow> bytes \<Rightarrow> bytes" where
  "opt_doReaderMAC cc_nr_p div_key_p = take 4 (opt_MAC div_key_p cc_nr_p (replicate 8 0))"

definition opt_doReaderMAC_2 :: "iclass_state \<Rightarrow> bytes \<Rightarrow> bytes \<Rightarrow> bytes \<Rightarrow> bytes" where
  "opt_doReaderMAC_2 s nr mac div_key_p = opt_output div_key_p (opt_suc div_key_p s nr 4 False) mac"

definition opt_doMAC_N :: "bytes \<Rightarrow> u8 \<Rightarrow> bytes \<Rightarrow> bytes" where
  "opt_doMAC_N in_p in_size div_key_p = take 4 (opt_MAC_N div_key_p in_p in_size (replicate 8 0))"

definition opt_doTagMAC :: "bytes \<Rightarrow> bytes \<Rightarrow> bytes \<Rightarrow> bytes" where
  "opt_doTagMAC cc_p div_key_p mac =
    opt_output div_key_p (opt_suc div_key_p (iclass_init div_key_p) cc_p 12 True) mac"

definition opt_doTagMAC_1 :: "bytes \<Rightarrow> bytes \<Rightarrow> iclass_state" where
  "opt_doTagMAC_1 cc_p div_key_p = opt_suc div_key_p (iclass_init div_key_p) cc_p 8 False"

definition opt_doTagMAC_2 :: "iclass_state \<Rightarrow> bytes \<Rightarrow> bytes \<Rightarrow> bytes \<Rightarrow> bytes" where
  "opt_doTagMAC_2 s nr mac div_key_p = opt_output div_key_p (opt_suc div_key_p s nr 4 True) mac"

end
