(* ===== verification/Iclass_Cipher_Laws.thy ===== *)
theory Iclass_Cipher_Laws
  imports Iclass_Cipher
begin

text \<open>
  The iCLASS cipher step against the definitions of its description, and the three
  implementations of the MAC against each other: the bit-stream version of the client, its
  brute-force version on bytes, and the firmware version all compute the same four bytes, and
  the tag MAC may be split after the card challenge.
\<close>

subsection \<open>The step\<close>

text \<open>
  The registers are numbered from their most significant bit in the description of the cipher:
  \<open>r\<^sub>0\<close> is bit 7.
\<close>

definition T_fun :: "u16 \<Rightarrow> bool" where
  "T_fun t = odd (length (filter (\<lambda>i. bit t (15 - i)) [0, 1, 5, 7, 10, 11, 14, 15]))"

definition B_fun :: "u8 \<Rightarrow> bool" where
  "B_fun b = odd (length (filter (\<lambda>i. bit b (7 - i)) [1, 2, 3, 7]))"

definition select_fun :: "bool \<Rightarrow> bool \<Rightarrow> u8 \<Rightarrow> nat" where
  "select_fun x y r =
    (let ri = (\<lambda>i. bit r (7 - i));
         z0 = ((ri 0 \<and> ri 2) \<noteq> (ri 1 \<and> \<not> ri 3)) \<noteq> (ri 2 \<or> ri 4);
         z1 = (((((ri 0 \<or> ri 2) \<noteq> (ri 5 \<or> ri 7)) \<noteq> ri 1) \<noteq> ri 6) \<noteq> x) \<noteq> y;
         z2 = (((ri 3 \<and> \<not> ri 5) \<noteq> (ri 4 \<and> ri 6)) \<noteq> ri 7) \<noteq> x
     in 4 * of_bool z0 + 2 * of_bool z1 + of_bool z2)"

definition suc_fun :: "bytes \<Rightarrow> iclass_state \<Rightarrow> bool \<Rightarrow> iclass_state" where
  "suc_fun k s y =
    (let t' = shr (cs_t s) 1 OR shl (of_bool ((T_fun (cs_t s) \<noteq> bit (cs_r s) 7) \<noteq> bit (cs_r s) 3)) 15;
         b' = shr (cs_b s) 1 OR shl (of_bool (B_fun (cs_b s) \<noteq> bit (cs_r s) 0)) 7;
         r' = (k ! select_fun (T_fun (cs_t s)) y (cs_r s) XOR b') + cs_l s
     in \<lparr>cs_l = r' + cs_r s, cs_r = r', cs_b = b', cs_t = t'\<rparr>)"

lemma upt_256: "[0..<256] =
   [0, 1, 2, 3, 4, 5, 6, 7, 8, 9, 10, 11, 12, 13, 14, 15, 16, 17, 18, 19, 20, 21, 22, 23,
    24, 25, 26, 27, 28, 29, 30, 31, 32, 33, 34, 35, 36, 37, 38, 39, 40, 41, 42, 43, 44, 45, 46, 47,
    48, 49, 50, 51, 52, 53, 54, 55, 56, 57, 58, 59, 60, 61, 62, 63, 64, 65, 66, 67, 68, 69, 70, 71,
    72, 73, 74, 75, 76, 77, 78, 79, 80, 81, 82, 83, 84, 85, 86, 87, 88, 89, 90, 91, 92, 93, 94, 95,
    96, 97, 98, 99, 100, 101, 102, 103, 104, 105, 106, 107, 108, 109, 110, 111, 112, 113, 114, 115, 116, 117, 118, 119,
    120, 121, 122, 123, 124, 125, 126, 127, 128, 129, 130, 131, 132, 133, 134, 135, 136, 137, 138, 139, 140, 141, 142, 143,
    144, 145, 146, 147, 148, 149, 150, 151, 152, 153, 154, 155, 156, 157, 158, 159, 160, 161, 162, 163, 164, 165, 166, 167,
    168, 169, 170, 171, 172, 173, 174, 175, 176, 177, 178, 179, 180, 181, 182, 183, 184, 185, 186, 187, 188, 189, 190, 191,
    192, 193, 194, 195, 196, 197, 198, 199, 200, 201, 202, 203, 204, 205, 206, 207, 208, 209, 210, 211, 212, 213, 214, 215,
    216, 217, 218, 219, 220, 221, 222, 223, 224, 225, 226, 227, 228, 229, 230, 231, 232, 233, 234, 235, 236, 237, 238, 239,
    240, 241, 242, 243, 244, 245, 246, 247, 248, 249, 250, 251, 252, 253, 254, 255]"
  by code_simp

lemma select_LUT:
  "opt_select_LUT = map (\<lambda>n. word_of_nat (select_fun False False (word_of_nat n))) [0..<256]"
  unfolding upt_256 list.map by (simp add: select_fun_def opt_select_LUT_def)

lemma opt_successor_eq: "opt_successor k s y = successor k s y"
  by (simp add: opt_successor_def successor_def Let_def)

lemma Tt_reduction:
  fixes t :: u16
  defines "a \<equiv> t AND 0xc533"
  defines "b \<equiv> a XOR shr a 1"
  defines "c \<equiv> b XOR shr b 4"
  defines "d \<equiv> c XOR shr c 10"
  shows "bit (d XOR shr d 8) 0 = T_fun t"
  unfolding d_def c_def b_def a_def T_fun_def by (simp add: word_bits del: bit_0)

lemma B_reduction:
  "bit (((b XOR shr b 6) XOR shr b 5) XOR shr b 4) 0 = B_fun (b :: u8)"
  unfolding B_fun_def by (simp add: word_bits del: bit_0)


definition sel3 :: "bool \<Rightarrow> bool \<Rightarrow> bool \<Rightarrow> u32" where
  "sel3 z0 z1 z2 = (shl (of_bool z0) 2 OR shl (of_bool z1) 1) OR of_bool z2"

lemma unat_sel3: "unat (sel3 z0 z1 z2) = 4 * of_bool z0 + 2 * of_bool z1 + of_bool z2"
  by (cases z0; cases z1; cases z2) (simp_all add: sel3_def)

lemma sel3_combine:
  "((sel3 z0 z1 z2 AND 0x04) OR ((sel3 z0 z1 z2 XOR shl (x XOR y) 1) AND 0x02)) OR ((sel3 z0 z1 z2 XOR x) AND 0x01) =
    sel3 z0 ((z1 \<noteq> bit x 0) \<noteq> bit y 0) (z2 \<noteq> bit x 0)" (is "?l = ?r")
proof (rule bit_word_eqI)
  fix n :: nat assume "n < LENGTH(32)"
  then have n: "n < 32" by simp
  then have m: "bit (4 :: u32) n = (n = 2)" "bit (2 :: u32) n = (n = 1)" "bit (1 :: u32) n = (n = 0)"
    using bit_exp_iff [of 2 n, where 'a = u32] bit_exp_iff [of 1 n, where 'a = u32] bit_exp_iff [of 0 n, where 'a = u32]
    by auto
  consider "n = 0" | "n = 1" | "n = 2" | "3 \<le> n" by linarith
  then show "bit ?l n = bit ?r n"
    using n unfolding bit_or_iff bit_and_iff m by cases (auto simp: sel3_def word_bits simp del: bit_0)
qed

lemma LUT_sel3:
  "ucast (opt_select_LUT ! unat r) = sel3 (bit (select_fun False False r) 2) (bit (select_fun False False r) 1)
    (bit (select_fun False False r) 0)"
proof -
  let ?v = "select_fun False False r"
  have "unat r < 256" using unsigned_less [of r] by simp
  then have v: "opt_select_LUT ! unat r = word_of_nat ?v"
    by (simp add: select_LUT)
  have "?v < 8" by (simp add: select_fun_def Let_def)
  then show ?thesis
    unfolding v by (elim less_8_cases) (simp_all add: sel3_def bit_iff_odd)
qed

lemma select_fun_bits:
  "select_fun x y r = 4 * of_bool (bit (select_fun False False r) 2) +
    2 * of_bool ((bit (select_fun False False r) 1 \<noteq> x) \<noteq> y) + of_bool (bit (select_fun False False r) 0 \<noteq> x)"
proof -
  have b: "bit (4 * of_bool p + 2 * of_bool q + of_bool s :: nat) 2 = p"
    "bit (4 * of_bool p + 2 * of_bool q + of_bool s :: nat) 1 = q"
    "bit (4 * of_bool p + 2 * of_bool q + of_bool s :: nat) 0 = s" for p q s
    by (cases p; cases q; cases s; simp add: bit_iff_odd)+
  show ?thesis
    unfolding select_fun_def Let_def b by simp
qed

lemma shl_top: "shl (x :: u16) 15 = shl (of_bool (bit x 0)) 15" "shl (z :: u8) 7 = shl (of_bool (bit z 0)) 7"
  by (rule bit_word_eqI; auto simp: word_bits not_less less_Suc_eq_le dest: le_antisym)+


lemma successor_is_step: "successor k s y = suc_fun k s (bit y 0)"
proof -
  define a where "a = cs_t s AND 0xc533"
  define b where "b = a XOR shr a 1"
  define c where "c = b XOR shr b 4"
  define d where "d = c XOR shr c 10"
  define e where "e = d XOR shr d 8"
  have T: "bit e 0 = T_fun (cs_t s)"
    unfolding e_def d_def c_def b_def a_def by (rule Tt_reduction)
  have t: "shl ((e XOR ucast (shr (cs_r s) 7)) XOR ucast (shr (cs_r s) 3)) 15 =
      shl (of_bool ((T_fun (cs_t s) \<noteq> bit (cs_r s) 7) \<noteq> bit (cs_r s) 3)) 15"
    by (subst shl_top(1)) (simp only: bit_xor_iff T bit_word_ucast_iff bit_drop_bit_eq, simp)
  have u: "shl ((((cs_b s XOR shr (cs_b s) 6) XOR shr (cs_b s) 5) XOR shr (cs_b s) 4) XOR cs_r s) 7 =
      shl (of_bool (B_fun (cs_b s) \<noteq> bit (cs_r s) 0)) 7"
    by (subst shl_top(2)) (simp only: bit_xor_iff [of _ "cs_r s"] B_reduction)
  have xb: "bit (ucast e :: u32) 0 = T_fun (cs_t s)" "bit (ucast y :: u32) 0 = bit y 0"
    using T by (simp_all only: bit_word_ucast_iff) simp_all
  show "successor k s y = suc_fun k s (bit y 0)"
    unfolding successor_def Let_def a_def [symmetric] b_def [symmetric] c_def [symmetric] d_def [symmetric]
      e_def [symmetric] t u LUT_sel3 sel3_combine xb unat_sel3 suc_fun_def select_fun_bits [symmetric] ..
qed

text \<open>C14: 
  One step of the client's and of the firmware's cipher is the step of the cipher's description;
  of the input byte only the lowest bit counts. The table is the select function, which picks
  one of the eight key bytes.
\<close>

theorem successor_is_cipher_step:
  "successor k s y = suc_fun k s (bit y 0) \<and> opt_successor k s y = suc_fun k s (bit y 0) \<and>
   select_fun (T_fun (cs_t s)) (bit y 0) (cs_r s) < 8"
  by (simp add: opt_successor_eq successor_is_step select_fun_def Let_def)

lemma successor_low_bit: "successor k s y = successor k s (of_bool (bit y 0))"
proof -
  have "bit (of_bool (bit y 0) :: u8) 0 = bit y 0" by simp
  then show ?thesis
    using successor_is_step [of k s y] successor_is_step [of k s "of_bool (bit y 0)"] by simp
qed

subsection \<open>Runs\<close>

text \<open>The state after a bit string, and the output bits along it.\<close>

definition run :: "bytes \<Rightarrow> iclass_state \<Rightarrow> bool list \<Rightarrow> iclass_state" where
  "run k s bs = fold (\<lambda>b s. successor k s (of_bool b)) bs s"

fun outs :: "bytes \<Rightarrow> iclass_state \<Rightarrow> bool list \<Rightarrow> bool list" where
  "outs k s [] = []"
| "outs k s (b # bs) = bit (cs_r s) 2 # outs k (successor k s (of_bool b)) bs"

lemma length_outs [simp]: "length (outs k s bs) = length bs"
  by (induction bs arbitrary: s) simp_all

lemma run_append: "run k s (xs @ ys) = run k (run k s xs) ys"
  by (simp add: run_def)

lemma outs_append: "outs k s (xs @ ys) = outs k s xs @ outs k (run k s xs) ys"
  by (induction xs arbitrary: s) (simp_all add: run_def)

definition bits_le :: "u8 \<Rightarrow> bool list" where
  "bits_le b = map (bit b) [0, 1, 2, 3, 4, 5, 6, 7]"

lemma headBit_bits:
  assumes "0 < bitsLeft i"
  obtains b i' where "headBit i = (b, i')" "head_left i = b # head_left i'"
proof -
  obtain b r where l: "head_left i = b # r"
    using assms length_left(1) [of i] by (cases "head_left i") (auto simp: bitsLeft_def)
  moreover obtain b' i' where h: "headBit i = (b', i')" by force
  ultimately show thesis
    using head_pop_left [OF l] that [of b i'] by simp
qed

lemma bits_none: "\<not> 0 < bitsLeft i \<Longrightarrow> head_left i = []"
  using length_left(1) [of i] by (simp add: bitsLeft_def)

lemma suc_run: "suc k s i = run k s (head_left i)"
proof (induction k s i rule: suc.induct)
  case (1 k s i)
  show ?case
  proof (cases "0 < bitsLeft i")
    case True
    then obtain b i' where h: "headBit i = (b, i')" "head_left i = b # head_left i'"
      by (rule headBit_bits)
    have "suc k s i = suc k (successor k s (of_bool b)) i'"
      using h(1) True by (subst suc.simps) simp
    then show ?thesis
      using 1 True h by (simp add: run_def)
  qed (simp add: suc.simps [of k s i] bits_none run_def)
qed

lemma output_outs: "cipher_output k s i out = fold (\<lambda>b out. pushBit out b) (outs k s (head_left i)) out"
proof (induction k s i out rule: cipher_output.induct)
  case (1 k s i out)
  show ?case
  proof (cases "0 < bitsLeft i")
    case True
    then obtain b i' where h: "headBit i = (b, i')" "head_left i = b # head_left i'"
      by (rule headBit_bits)
    have p: "(shr (cs_r s) 2 AND 1 \<noteq> 0) = bit (cs_r s) 2"
      by (simp add: shr_and_1)
    have "cipher_output k s i out = cipher_output k (successor k s (of_bool b)) i' (pushBit out (bit (cs_r s) 2))"
      using h(1) True by (subst cipher_output.simps) (simp add: p Let_def)
    then show ?thesis
      using 1 True h p by simp
  qed (simp add: cipher_output.simps [of k s i] bits_none)
qed

text \<open>A byte fed bit by bit by shifting it, least significant bit first.\<close>

lemma successor_shr: "successor k s (shr y n) = successor k s (of_bool (bit y n))"
  using successor_low_bit [of k s "shr y n"] by (simp only: bit_drop_bit_eq) simp

lemma byte_run:
  "successor k (successor k (successor k (successor k (successor k (successor k (successor k (successor k s
     b0) (shr b0 1)) (shr (shr b0 1) 1)) (shr (shr (shr b0 1) 1) 1)) (shr (shr (shr (shr b0 1) 1) 1) 1))
     (shr (shr (shr (shr (shr b0 1) 1) 1) 1) 1)) (shr (shr (shr (shr (shr (shr b0 1) 1) 1) 1) 1) 1))
     (shr (shr (shr (shr (shr (shr (shr b0 1) 1) 1) 1) 1) 1) 1) = run k s (bits_le b0)"
proof -
  have d: "shr b0 1 = shr b0 1" "shr (shr b0 1) 1 = shr b0 2" "shr (shr b0 2) 1 = shr b0 3" "shr (shr b0 3) 1 = shr b0 4"
    "shr (shr b0 4) 1 = shr b0 5" "shr (shr b0 5) 1 = shr b0 6" "shr (shr b0 6) 1 = shr b0 7"
    by (simp_all add: numeral_eq_Suc)
  show ?thesis
    unfolding d(2-) successor_shr run_def bits_le_def list.map fold_simps
    by (subst successor_low_bit [of k s b0]) (rule refl)
qed

lemma suc_bytes_run:
  "n \<le> length inp \<Longrightarrow> suc_bytes k s inp n = run k s (concat (map bits_le (take n inp)))"
proof (induction n)
  case (Suc n)
  have "suc_bytes k s inp (Suc n) = run k (suc_bytes k s inp n) (bits_le (inp ! n))"
    unfolding suc_bytes_def Let_def byte_run by simp
  then show ?case
    using Suc by (simp add: take_Suc_conv_app_nth run_append)
qed (simp add: suc_bytes_def run_def)


subsection \<open>The MACs\<close>

text \<open>Byte \<open>i\<close> of an output bit string, least significant bit first.\<close>

definition mac_byte :: "bool list \<Rightarrow> nat \<Rightarrow> u8" where
  "mac_byte bs i = word_of_bits (\<lambda>j. bs ! (8 * i + j))"

lemma and_4: "x AND 0x4 = shl (of_bool (bit x 2)) 2" for x :: u8
  by (rule u8_eqI, erule less_8_cases) (simp_all add: word_bits)

lemma replicate_8: "replicate 8 x = [x, x, x, x, x, x, x, x]"
  by (simp add: numeral_eq_Suc)

lemma mac_byte_collect:
  "((((((shr (shl (of_bool a) 2) 2 OR shr (shl (of_bool b) 2) 1) OR shl (of_bool c) 2) OR shl (shl (of_bool d) 2) 1)
      OR shl (shl (of_bool e) 2) 2) OR shl (shl (of_bool f) 2) 3) OR shl (shl (of_bool g) 2) 4) OR shl (shl (of_bool h) 2) 5 =
    mac_byte [a, b, c, d, e, f, g, h] 0"
  unfolding mac_byte_def by (rule u8_eqI, erule less_8_cases) (simp_all add: word_bits)

lemma output_byte_outs:
  "output_byte (\<lambda>s. successor k s 0) s =
    (mac_byte (outs k s (replicate 8 False)) 0, run k s (replicate 8 False))"
proof -
  define s1 where "s1 = successor k s 0"
  define s2 where "s2 = successor k s1 0"
  define s3 where "s3 = successor k s2 0"
  define s4 where "s4 = successor k s3 0"
  define s5 where "s5 = successor k s4 0"
  define s6 where "s6 = successor k s5 0"
  define s7 where "s7 = successor k s6 0"
  define s8 where "s8 = successor k s7 0"
  have z: "of_bool False = (0 :: u8)" by simp
  show ?thesis
    unfolding output_byte_def Let_def replicate_8 run_def fold_simps outs.simps z
      s1_def [symmetric] s2_def [symmetric] s3_def [symmetric] s4_def [symmetric] s5_def [symmetric] s6_def [symmetric] s7_def [symmetric] s8_def [symmetric]
      and_4 mac_byte_collect ..
qed

lemma mac_byte_append:
  "8 * i + 8 \<le> length xs \<Longrightarrow> mac_byte (xs @ ys) i = mac_byte xs i"
  "length xs = 8 * n \<Longrightarrow> mac_byte (xs @ ys) (n + i) = mac_byte ys i"
  by (rule u8_eqI; simp add: mac_byte_def nth_append)+

lemma output_bytes_outs:
  "n \<le> length out \<Longrightarrow> output_bytes k s out n =
    (map (mac_byte (outs k s (replicate (8 * n) False))) [0..<n] @ drop n out, run k s (replicate (8 * n) False))"
proof (induction n)
  case (Suc n)
  let ?o = "outs k s (replicate (8 * n) False)" and ?s = "run k s (replicate (8 * n) False)"
  have r: "replicate (8 * Suc n) False = replicate (8 * n) False @ replicate 8 False"
    by (simp add: replicate_add [symmetric] add.commute)
  have d: "drop n out = out ! n # drop (Suc n) out" using Suc.prems by (simp add: Cons_nth_drop_Suc)
  have "output_bytes k s out (Suc n) = (case output_bytes k s out n of (out, s) \<Rightarrow>
      case output_byte (\<lambda>s. successor k s 0) s of (b, s) \<Rightarrow> (out[n := b], s))"
    by (simp add: output_bytes_def)
  also have "\<dots> = ((map (mac_byte ?o) [0..<n] @ drop n out)[n := mac_byte (outs k ?s (replicate 8 False)) 0],
      run k ?s (replicate 8 False))"
    using Suc by (simp add: output_byte_outs)
  also have "(map (mac_byte ?o) [0..<n] @ drop n out)[n := mac_byte (outs k ?s (replicate 8 False)) 0] =
      map (mac_byte ?o) [0..<n] @ [mac_byte (outs k ?s (replicate 8 False)) 0] @ drop (Suc n) out"
    by (simp add: list_update_append d)
  also have "map (mac_byte ?o) [0..<n] = map (mac_byte (outs k s (replicate (8 * Suc n) False))) [0..<n]"
    unfolding r outs_append by (rule map_cong) (simp_all add: mac_byte_append(1))
  also have "mac_byte (outs k ?s (replicate 8 False)) 0 = mac_byte (outs k s (replicate (8 * Suc n) False)) n"
    unfolding r outs_append using mac_byte_append(2) [of ?o n _ 0] by simp
  finally show ?case
    by (simp add: r run_append del: mult_Suc_right)
qed (simp add: output_bytes_def run_def)


lemma reverse_arraybytes_map:
  "n \<le> length a \<Longrightarrow> reverse_arraybytes a n = map reflect8 (take n a) @ drop n a"
proof (induction n)
  case (Suc n)
  then have "drop n a = a ! n # drop (Suc n) a" by (simp add: Cons_nth_drop_Suc)
  with Suc show ?case
    by (simp add: reverse_arraybytes_def take_Suc_conv_app_nth list_update_append nth_append)
qed (simp add: reverse_arraybytes_def)

lemma bits_be_reflect: "bits_be (map reflect8 xs) = concat (map bits_le xs)"
  by (induction xs) (simp_all add: bits_le_def reflect8_bit del: bit_0)

lemma mbit_append: "k < 8 * length xs \<Longrightarrow> mbit (xs @ ys) k = mbit xs k"
  by (simp add: mbit_def nth_append less_mult_imp_div_less mult.commute)

lemma reflected_input:
  assumes "n \<le> length xs"
  shows "head_left \<lparr>in_buffer = map reflect8 (take n xs) @ ys, in_numbits = n * 8, in_position = 0\<rparr> =
    concat (map bits_le (take n xs))"
proof -
  have "map (mbit (map reflect8 (take n xs) @ ys)) [0..<n * 8] = map (mbit (map reflect8 (take n xs))) [0..<n * 8]"
    using assms by (intro map_cong) (simp_all add: mbit_append)
  then show ?thesis
    using assms by (simp add: head_left_def bits_be_reflect [symmetric] bits_be_mbit mult.commute min_absorb2)
qed

lemma zeroes_input: "head_left \<lparr>in_buffer = [0, 0, 0, 0], in_numbits = 32, in_position = 0\<rparr> = replicate 32 False"
proof -
  have "mbit [0, 0, 0, 0] k = False" if "k < 32" for k
  proof -
    have "k div 8 = 0 \<or> k div 8 = 1 \<or> k div 8 = 2 \<or> k div 8 = 3" using that by linarith
    then have "[0, 0, 0, 0 :: u8] ! (k div 8) = 0" by auto
    then show ?thesis by (simp add: mbit_def)
  qed
  then show ?thesis
    by (simp add: head_left_def list_eq_iff_nth_eq)
qed

lemma MAC_bytes:
  "take 4 (reverse_arraybytes (out_buffer (MAC k i \<lparr>out_buffer = replicate 8 0, out_numbits = 8 * 8, out_position = 0\<rparr>)) 8) =
    map (mac_byte (outs k (run k (iclass_init k) (head_left i)) (replicate 32 False))) [0..<4]"
proof -
  let ?o = "outs k (run k (iclass_init k) (head_left i)) (replicate 32 False)"
  let ?out = "\<lparr>out_buffer = replicate 8 0, out_numbits = 8 * 8, out_position = 0\<rparr>"
  define w where "w = fold (\<lambda>b out. pushBit out b) ?o ?out"
  have m: "MAC k i ?out = w"
    by (simp add: MAC_def suc_run output_outs zeroes_input w_def)
  have z: "mbit (replicate 8 0) j = False" if "j < 64" for j
    using that by (simp add: mbit_def less_mult_imp_div_less)
  then have "out_ok ?out" "out_bits ?out = []"
    by (auto simp: out_ok_def out_bits_def)
  then have w: "out_bits w = ?o" "out_position w = 32" "length (out_buffer w) = 8"
    using fold_pushBit [of ?out ?o] by (simp_all add: w_def)
  have "reflect8 (out_buffer w ! n) = mac_byte ?o n" if n: "n < 4" for n
  proof (rule u8_eqI)
    fix j :: nat assume j: "j < 8"
    have "bit (reflect8 (out_buffer w ! n)) j = mbit (out_buffer w) (8 * n + j)"
      using j by (simp add: reflect8_bit mbit_def)
    also have "\<dots> = out_bits w ! (8 * n + j)"
      using n j w(2) by (simp add: out_bits_def)
    finally show "bit (reflect8 (out_buffer w ! n)) j = bit (mac_byte ?o n) j"
      using j by (simp add: mac_byte_def w(1))
  qed
  then show ?thesis
    unfolding m using w(3) by (intro nth_equalityI) (simp_all add: reverse_arraybytes_map)
qed


lemma opt_suc_run:
  assumes "n \<le> length inp"
  shows "opt_suc k s inp n False = run k s (concat (map bits_le (take n inp)))"
    and "opt_suc k s inp n True = run k s (concat (map bits_le (take n inp)) @ replicate 32 False)"
proof -
  have z: "fold (\<lambda>i s. successor k (successor k (successor k (successor k s 0) 0) 0) 0) [0..<n] t =
      run k t (replicate (4 * n) False)" for n t
  proof (induction n)
    case (Suc n)
    have "replicate (4 * Suc n) False = replicate (4 * n) False @ [False, False, False, False]"
      using replicate_add [of "4 * n" 4 False] by (simp add: add.commute numeral_eq_Suc)
    then have "run k t (replicate (4 * Suc n) False) = run k (run k t (replicate (4 * n) False)) [False, False, False, False]"
      by (simp only: run_append)
    with Suc show ?case by (simp add: run_def del: mult_Suc_right)
  qed (simp add: run_def)
  have f: "opt_suc k s inp n False = suc_bytes k s inp n"
    unfolding opt_suc_def suc_bytes_def opt_successor_eq Let_def if_False ..
  show "opt_suc k s inp n False = run k s (concat (map bits_le (take n inp)))"
    unfolding f by (rule suc_bytes_run [OF assms])
  then show "opt_suc k s inp n True = run k s (concat (map bits_le (take n inp)) @ replicate 32 False)"
    using z [of 8] by (simp add: opt_suc_def Let_def opt_successor_eq run_append)
qed

lemma opt_output_outs:
  assumes "4 \<le> length buffer"
  shows "opt_output k s buffer = map (mac_byte (outs k s (replicate 32 False))) [0..<4] @ drop 4 buffer"
proof -
  have "opt_output k s buffer = fst (output_bytes k s buffer 4)"
    by (simp add: opt_output_def output_bytes_def opt_successor_eq)
  then show ?thesis
    using output_bytes_outs [OF assms, of k s] by simp
qed

definition mac4 :: "bytes \<Rightarrow> bool list \<Rightarrow> bytes" where
  "mac4 k bs = map (mac_byte (outs k (run k (iclass_init k) bs) (replicate 32 False))) [0..<4]"

text \<open>C15: 
  The bit-stream MAC of the client, its byte-wise variant for brute forcing and the firmware's
  reader MAC compute the same four bytes for every challenge and key, whatever buffer receives
  them, and so do the two functions for data of any length. The tag MAC is the MAC of the
  challenge followed by 32 zero bits, and preparing the state with the first eight bytes and
  finishing it with the other four gives the same tag and reader MACs.
\<close>

theorem mac_implementations_agree:
  assumes "length cc = 8" "length nr = 4" "length key = 8" "length mac = 4" "unat n \<le> length data"
  shows "doMAC (cc @ nr) key = opt_doReaderMAC (cc @ nr) key \<and>
    doMAC_brute (cc @ nr) key mac = doMAC (cc @ nr) key \<and>
    doMAC_N data n key = opt_doMAC_N data n key \<and>
    opt_doReaderMAC_2 (opt_doTagMAC_1 cc key) nr mac key = opt_doReaderMAC (cc @ nr) key \<and>
    opt_doTagMAC_2 (opt_doTagMAC_1 cc key) nr mac key = opt_doTagMAC (cc @ nr) key mac \<and>
    opt_doTagMAC (cc @ nr) key mac = opt_doMAC_N (cc @ nr @ replicate 4 0) 16 key"
proof -
  let ?b = "\<lambda>xs. concat (map bits_le xs)"
  have z: "?b (replicate 4 0) = replicate 32 False"
    by (simp add: bits_le_def numeral_eq_Suc)
  have i: "reverse_arraybytes (take 12 (cc @ nr) @ [0]) 12 = map reflect8 (take 12 (cc @ nr)) @ [0]"
    "take 12 (cc @ nr) = cc @ nr"
    using assms by (simp_all add: reverse_arraybytes_map)
  have 1: "doMAC (cc @ nr) key = mac4 key (?b (cc @ nr))"
    using assms reflected_input [of 12 "cc @ nr" "[0]"]
    unfolding doMAC_def Let_def MAC_bytes mac4_def i(1) by (simp only: i(2)) simp
  have 2: "doMAC_N data n key = mac4 key (?b (take (unat n) data))"
    using assms unfolding doMAC_N_def Let_def MAC_bytes mac4_def
    by (simp add: reverse_arraybytes_map reflected_input [of "unat n" "take (unat n) data" "[]", simplified])
  have 3: "opt_doReaderMAC (cc @ nr) key = mac4 key (?b (cc @ nr))"
    using assms by (simp add: opt_doReaderMAC_def opt_MAC_def opt_suc_run opt_output_outs mac4_def)
  have 4: "opt_doMAC_N xs m key = mac4 key (?b (take (unat m) xs))" if "unat m \<le> length xs" for xs m
    using that by (simp add: opt_doMAC_N_def opt_MAC_N_def opt_suc_run opt_output_outs mac4_def)
  have 5: "doMAC_brute (cc @ nr) key mac = mac4 key (?b (cc @ nr))"
    using assms by (simp add: doMAC_brute_def Let_def suc_bytes_run output_bytes_outs mac4_def)
  have 6: "opt_doReaderMAC_2 (opt_doTagMAC_1 cc key) nr mac key = mac4 key (?b (cc @ nr))"
    using assms by (simp add: opt_doReaderMAC_2_def opt_doTagMAC_1_def opt_suc_run opt_output_outs mac4_def run_append)
  have 7: "opt_doTagMAC_2 (opt_doTagMAC_1 cc key) nr mac key = mac4 key (?b (cc @ nr) @ replicate 32 False)"
    using assms by (simp add: opt_doTagMAC_2_def opt_doTagMAC_1_def opt_suc_run opt_output_outs mac4_def run_append)
  have 8: "opt_doTagMAC (cc @ nr) key mac = mac4 key (?b (cc @ nr) @ replicate 32 False)"
    using assms by (simp add: opt_doTagMAC_def opt_suc_run opt_output_outs mac4_def)
  have 9: "opt_doMAC_N (cc @ nr @ replicate 4 0) 16 key = mac4 key (?b (cc @ nr) @ replicate 32 False)"
    using 4 [of 16 "cc @ nr @ replicate 4 0"] assms z by simp
  show ?thesis
    unfolding 1 2 3 5 6 7 8 9 4 [OF assms(5)] by simp
qed

text \<open>The test vector of \<open>testMAC\<close>: the hypotheses hold, and the key is that of the paper.\<close>

lemma mac_implementations_agree_witness:
  "doMAC [0xFE, 0xFF, 0xFF, 0xFF, 0xFF, 0xFF, 0xFF, 0xFF, 0, 0, 0, 0] [0xE0, 0x33, 0xCA, 0x41, 0x9A, 0xEE, 0x43, 0xF9] =
   opt_doReaderMAC [0xFE, 0xFF, 0xFF, 0xFF, 0xFF, 0xFF, 0xFF, 0xFF, 0, 0, 0, 0] [0xE0, 0x33, 0xCA, 0x41, 0x9A, 0xEE, 0x43, 0xF9]"
  using mac_implementations_agree [of "[0xFE, 0xFF, 0xFF, 0xFF, 0xFF, 0xFF, 0xFF, 0xFF]" "[0, 0, 0, 0]"
    "[0xE0, 0x33, 0xCA, 0x41, 0x9A, 0xEE, 0x43, 0xF9]" "[0, 0, 0, 0]" 0 "[]"]
  by simp

end
