(* ===== verification/Des.thy ===== *)
theory Des
  imports Prelude
begin

text \<open>
  DES and triple DES, \<open>common/mbedtls/des.c\<close>, which the iCLASS key diversification uses. The
  context of the C code is its list of subkeys. A macro that assigns to its arguments returns
  their new values; the temporary \<open>T\<close> is local to it. Functions that fill an output block
  return it.
\<close>

definition GET_UINT32_BE :: "bytes \<Rightarrow> nat \<Rightarrow> u32" where
  "GET_UINT32_BE b i = ((shl (ucast (b ! i)) 24 OR shl (ucast (b ! (i + 1))) 16)
    OR shl (ucast (b ! (i + 2))) 8) OR ucast (b ! (i + 3))"

definition PUT_UINT32_BE :: "u32 \<Rightarrow> bytes" where
  "PUT_UINT32_BE n = [ucast (shr n 24), ucast (shr n 16), ucast (shr n 8), ucast n]"

definition SB1 :: "u32 list" where
  "SB1 =
    [0x01010400, 0x00000000, 0x00010000, 0x01010404,
     0x01010004, 0x00010404, 0x00000004, 0x00010000,
     0x00000400, 0x01010400, 0x01010404, 0x00000400,
     0x01000404, 0x01010004, 0x01000000, 0x00000004,
     0x00000404, 0x01000400, 0x01000400, 0x00010400,
     0x00010400, 0x01010000, 0x01010000, 0x01000404,
     0x00010004, 0x01000004, 0x01000004, 0x00010004,
     0x00000000, 0x00000404, 0x00010404, 0x01000000,
     0x00010000, 0x01010404, 0x00000004, 0x01010000,
     0x01010400, 0x01000000, 0x01000000, 0x00000400,
     0x01010004, 0x00010000, 0x00010400, 0x01000004,
     0x00000400, 0x00000004, 0x01000404, 0x00010404,
     0x01010404, 0x00010004, 0x01010000, 0x01000404,
     0x01000004, 0x00000404, 0x00010404, 0x01010400,
     0x00000404, 0x01000400, 0x01000400, 0x00000000,
     0x00010004, 0x00010400, 0x00000000, 0x01010004]"

definition SB2 :: "u32 list" where
  "SB2 =
    [0x80108020, 0x80008000, 0x00008000, 0x00108020,
     0x00100000, 0x00000020, 0x80100020, 0x80008020,
     0x80000020, 0x80108020, 0x80108000, 0x80000000,
     0x80008000, 0x00100000, 0x00000020, 0x80100020,
     0x00108000, 0x00100020, 0x80008020, 0x00000000,
     0x80000000, 0x00008000, 0x00108020, 0x80100000,
     0x00100020, 0x80000020, 0x00000000, 0x00108000,
     0x00008020, 0x80108000, 0x80100000, 0x00008020,
     0x00000000, 0x00108020, 0x80100020, 0x00100000,
     0x80008020, 0x80100000, 0x80108000, 0x00008000,
     0x80100000, 0x80008000, 0x00000020, 0x80108020,
     0x00108020, 0x00000020, 0x00008000, 0x80000000,
     0x00008020, 0x80108000, 0x00100000, 0x80000020,
     0x00100020, 0x80008020, 0x80000020, 0x00100020,
     0x00108000, 0x00000000, 0x80008000, 0x00008020,
     0x80000000, 0x80100020, 0x80108020, 0x00108000]"

definition SB3 :: "u32 list" where
  "SB3 =
    [0x00000208, 0x08020200, 0x00000000, 0x08020008,
     0x08000200, 0x00000000, 0x00020208, 0x08000200,
     0x00020008, 0x08000008, 0x08000008, 0x00020000,
     0x08020208, 0x00020008, 0x08020000, 0x00000208,
     0x08000000, 0x00000008, 0x08020200, 0x00000200,
     0x00020200, 0x08020000, 0x08020008, 0x00020208,
     0x08000208, 0x00020200, 0x00020000, 0x08000208,
     0x00000008, 0x08020208, 0x00000200, 0x08000000,
     0x08020200, 0x08000000, 0x00020008, 0x00000208,
     0x00020000, 0x08020200, 0x08000200, 0x00000000,
     0x00000200, 0x00020008, 0x08020208, 0x08000200,
     0x08000008, 0x00000200, 0x00000000, 0x08020008,
     0x08000208, 0x00020000, 0x08000000, 0x08020208,
     0x00000008, 0x00020208, 0x00020200, 0x08000008,
     0x08020000, 0x08000208, 0x00000208, 0x08020000,
     0x00020208, 0x00000008, 0x08020008, 0x00020200]"

definition SB4 :: "u32 list" where
  "SB4 =
    [0x00802001, 0x00002081, 0x00002081, 0x00000080,
     0x00802080, 0x00800081, 0x00800001, 0x00002001,
     0x00000000, 0x00802000, 0x00802000, 0x00802081,
     0x00000081, 0x00000000, 0x00800080, 0x00800001,
     0x00000001, 0x00002000, 0x00800000, 0x00802001,
     0x00000080, 0x00800000, 0x00002001, 0x00002080,
     0x00800081, 0x00000001, 0x00002080, 0x00800080,
     0x00002000, 0x00802080, 0x00802081, 0x00000081,
     0x00800080, 0x00800001, 0x00802000, 0x00802081,
     0x00000081, 0x00000000, 0x00000000, 0x00802000,
     0x00002080, 0x00800080, 0x00800081, 0x00000001,
     0x00802001, 0x00002081, 0x00002081, 0x00000080,
     0x00802081, 0x00000081, 0x00000001, 0x00002000,
     0x00800001, 0x00002001, 0x00802080, 0x00800081,
     0x00002001, 0x00002080, 0x00800000, 0x00802001,
     0x00000080, 0x00800000, 0x00002000, 0x00802080]"

definition SB5 :: "u32 list" where
  "SB5 =
    [0x00000100, 0x02080100, 0x02080000, 0x42000100,
     0x00080000, 0x00000100, 0x40000000, 0x02080000,
     0x40080100, 0x00080000, 0x02000100, 0x40080100,
     0x42000100, 0x42080000, 0x00080100, 0x40000000,
     0x02000000, 0x40080000, 0x40080000, 0x00000000,
     0x40000100, 0x42080100, 0x42080100, 0x02000100,
     0x42080000, 0x40000100, 0x00000000, 0x42000000,
     0x02080100, 0x02000000, 0x42000000, 0x00080100,
     0x00080000, 0x42000100, 0x00000100, 0x02000000,
     0x40000000, 0x02080000, 0x42000100, 0x40080100,
     0x02000100, 0x40000000, 0x42080000, 0x02080100,
     0x40080100, 0x00000100, 0x02000000, 0x42080000,
     0x42080100, 0x00080100, 0x42000000, 0x42080100,
     0x02080000, 0x00000000, 0x40080000, 0x42000000,
     0x00080100, 0x02000100, 0x40000100, 0x00080000,
     0x00000000, 0x40080000, 0x02080100, 0x40000100]"

definition SB6 :: "u32 list" where
  "SB6 =
    [0x20000010, 0x20400000, 0x00004000, 0x20404010,
     0x20400000, 0x00000010, 0x20404010, 0x00400000,
     0x20004000, 0x00404010, 0x00400000, 0x20000010,
     0x00400010, 0x20004000, 0x20000000, 0x00004010,
     0x00000000, 0x00400010, 0x20004010, 0x00004000,
     0x00404000, 0x20004010, 0x00000010, 0x20400010,
     0x20400010, 0x00000000, 0x00404010, 0x20404000,
     0x00004010, 0x00404000, 0x20404000, 0x20000000,
     0x20004000, 0x00000010, 0x20400010, 0x00404000,
     0x20404010, 0x00400000, 0x00004010, 0x20000010,
     0x00400000, 0x20004000, 0x20000000, 0x00004010,
     0x20000010, 0x20404010, 0x00404000, 0x20400000,
     0x00404010, 0x20404000, 0x00000000, 0x20400010,
     0x00000010, 0x00004000, 0x20400000, 0x00404010,
     0x00004000, 0x00400010, 0x20004010, 0x00000000,
     0x20404000, 0x20000000, 0x00400010, 0x20004010]"

definition SB7 :: "u32 list" where
  "SB7 =
    [0x00200000, 0x04200002, 0x04000802, 0x00000000,
     0x00000800, 0x04000802, 0x00200802, 0x04200800,
     0x04200802, 0x00200000, 0x00000000, 0x04000002,
     0x00000002, 0x04000000, 0x04200002, 0x00000802,
     0x04000800, 0x00200802, 0x00200002, 0x04000800,
     0x04000002, 0x04200000, 0x04200800, 0x00200002,
     0x04200000, 0x00000800, 0x00000802, 0x04200802,
     0x00200800, 0x00000002, 0x04000000, 0x00200800,
     0x04000000, 0x00200800, 0x00200000, 0x04000802,
     0x04000802, 0x04200002, 0x04200002, 0x00000002,
     0x00200002, 0x04000000, 0x04000800, 0x00200000,
     0x04200800, 0x00000802, 0x00200802, 0x04200800,
     0x00000802, 0x04000002, 0x04200802, 0x04200000,
     0x00200800, 0x00000000, 0x00000002, 0x04200802,
     0x00000000, 0x00200802, 0x04200000, 0x00000800,
     0x04000002, 0x04000800, 0x00000800, 0x00200002]"

definition SB8 :: "u32 list" where
  "SB8 =
    [0x10001040, 0x00001000, 0x00040000, 0x10041040,
     0x10000000, 0x10001040, 0x00000040, 0x10000000,
     0x00040040, 0x10040000, 0x10041040, 0x00041000,
     0x10041000, 0x00041040, 0x00001000, 0x00000040,
     0x10040000, 0x10000040, 0x10001000, 0x00001040,
     0x00041000, 0x00040040, 0x10040040, 0x10041000,
     0x00001040, 0x00000000, 0x00000000, 0x10040040,
     0x10000040, 0x10001000, 0x00041040, 0x00040000,
     0x00041040, 0x00040000, 0x10041000, 0x00001000,
     0x00000040, 0x10040040, 0x00001000, 0x00041040,
     0x10001000, 0x00000040, 0x10000040, 0x10040000,
     0x10040040, 0x10000000, 0x00040000, 0x10001040,
     0x00000000, 0x10041040, 0x00040040, 0x10000040,
     0x10040000, 0x10001000, 0x10001040, 0x00000000,
     0x10041040, 0x00041000, 0x00041000, 0x00001040,
     0x00001040, 0x00040040, 0x10000000, 0x10041000]"

definition LHs :: "u32 list" where
  "LHs =
    [0x00000000, 0x00000001, 0x00000100, 0x00000101,
     0x00010000, 0x00010001, 0x00010100, 0x00010101,
     0x01000000, 0x01000001, 0x01000100, 0x01000101,
     0x01010000, 0x01010001, 0x01010100, 0x01010101]"

definition RHs :: "u32 list" where
  "RHs =
    [0x00000000, 0x01000000, 0x00010000, 0x01010000,
     0x00000100, 0x01000100, 0x00010100, 0x01010100,
     0x00000001, 0x01000001, 0x00010001, 0x01010001,
     0x00000101, 0x01000101, 0x00010101, 0x01010101]"

definition odd_parity_table :: "u8 list" where
  "odd_parity_table =
    [1, 2, 4, 7, 8, 11, 13, 14, 16, 19, 21, 22, 25, 26, 28, 31,
     32, 35, 37, 38, 41, 42, 44, 47, 49, 50, 52, 55, 56, 59, 61, 62,
     64, 67, 69, 70, 73, 74, 76, 79, 81, 82, 84, 87, 88, 91, 93, 94,
     97, 98, 100, 103, 104, 107, 109, 110, 112, 115, 117, 118, 121, 122, 124, 127,
     128, 131, 133, 134, 137, 138, 140, 143, 145, 146, 148, 151, 152, 155, 157, 158,
     161, 162, 164, 167, 168, 171, 173, 174, 176, 179, 181, 182, 185, 186, 188, 191,
     193, 194, 196, 199, 200, 203, 205, 206, 208, 211, 213, 214, 217, 218, 220, 223,
     224, 227, 229, 230, 233, 234, 236, 239, 241, 242, 244, 247, 248, 251, 253, 254]"

definition weak_key_table :: "bytes list" where
  "weak_key_table =
    [[0x01, 0x01, 0x01, 0x01, 0x01, 0x01, 0x01, 0x01],
     [0xFE, 0xFE, 0xFE, 0xFE, 0xFE, 0xFE, 0xFE, 0xFE],
     [0x1F, 0x1F, 0x1F, 0x1F, 0x0E, 0x0E, 0x0E, 0x0E],
     [0xE0, 0xE0, 0xE0, 0xE0, 0xF1, 0xF1, 0xF1, 0xF1],
     [0x01, 0x1F, 0x01, 0x1F, 0x01, 0x0E, 0x01, 0x0E],
     [0x1F, 0x01, 0x1F, 0x01, 0x0E, 0x01, 0x0E, 0x01],
     [0x01, 0xE0, 0x01, 0xE0, 0x01, 0xF1, 0x01, 0xF1],
     [0xE0, 0x01, 0xE0, 0x01, 0xF1, 0x01, 0xF1, 0x01],
     [0x01, 0xFE, 0x01, 0xFE, 0x01, 0xFE, 0x01, 0xFE],
     [0xFE, 0x01, 0xFE, 0x01, 0xFE, 0x01, 0xFE, 0x01],
     [0x1F, 0xE0, 0x1F, 0xE0, 0x0E, 0xF1, 0x0E, 0xF1],
     [0xE0, 0x1F, 0xE0, 0x1F, 0xF1, 0x0E, 0xF1, 0x0E],
     [0x1F, 0xFE, 0x1F, 0xFE, 0x0E, 0xFE, 0x0E, 0xFE],
     [0xFE, 0x1F, 0xFE, 0x1F, 0xFE, 0x0E, 0xFE, 0x0E],
     [0xE0, 0xFE, 0xE0, 0xFE, 0xF1, 0xFE, 0xF1, 0xFE],
     [0xFE, 0xE0, 0xFE, 0xE0, 0xFE, 0xF1, 0xFE, 0xF1]]"

text \<open>The permutation macros; the parameters are the values before the macro.\<close>

definition exchange :: "nat \<Rightarrow> u32 \<Rightarrow> u32 \<times> u32 \<Rightarrow> u32 \<times> u32" where
  "exchange k m = (\<lambda>(x, y). let T = (shr x k XOR y) AND m in (x XOR shl T k, y XOR T))"

definition DES_IP :: "u32 \<Rightarrow> u32 \<Rightarrow> u32 \<times> u32" where
  "DES_IP X Y =
    (let (X, Y) = exchange 4 0x0F0F0F0F (X, Y);
         (X, Y) = exchange 16 0x0000FFFF (X, Y);
         (Y, X) = exchange 2 0x33333333 (Y, X);
         (Y, X) = exchange 8 0x00FF00FF (Y, X);
         Y = shl Y 1 OR shr Y 31;
         T = (X XOR Y) AND 0xAAAAAAAA; Y = Y XOR T; X = X XOR T;
         X = shl X 1 OR shr X 31
     in (X, Y))"

definition DES_FP :: "u32 \<Rightarrow> u32 \<Rightarrow> u32 \<times> u32" where
  "DES_FP X Y =
    (let X = shl X 31 OR shr X 1;
         T = (X XOR Y) AND 0xAAAAAAAA; X = X XOR T; Y = Y XOR T;
         Y = shl Y 31 OR shr Y 1;
         (Y, X) = exchange 8 0x00FF00FF (Y, X);
         (Y, X) = exchange 2 0x33333333 (Y, X);
         (X, Y) = exchange 16 0x0000FFFF (X, Y);
         (X, Y) = exchange 4 0x0F0F0F0F (X, Y)
     in (X, Y))"

text \<open>\<open>DES_ROUND(X,Y)\<close> with the subkeys \<open>SK[n]\<close> and \<open>SK[n + 1]\<close>: the new \<open>Y\<close>.\<close>

definition DES_ROUND :: "u32 list \<Rightarrow> nat \<Rightarrow> u32 \<Rightarrow> u32 \<Rightarrow> u32" where
  "DES_ROUND SK n X Y =
    (let T = SK ! n XOR X;
         Y = Y XOR (((SB8 ! unat (T AND 0x3F) XOR SB6 ! unat (shr T 8 AND 0x3F)) XOR
             SB4 ! unat (shr T 16 AND 0x3F)) XOR SB2 ! unat (shr T 24 AND 0x3F));
         T = SK ! (n + 1) XOR (shl X 28 OR shr X 4)
     in Y XOR (((SB7 ! unat (T AND 0x3F) XOR SB5 ! unat (shr T 8 AND 0x3F)) XOR
             SB3 ! unat (shr T 16 AND 0x3F)) XOR SB1 ! unat (shr T 24 AND 0x3F)))"

subsection \<open>Keys\<close>

definition mbedtls_des_key_set_parity :: "bytes \<Rightarrow> bytes" where
  "mbedtls_des_key_set_parity key = fold (\<lambda>i key. key[i := odd_parity_table ! (unat (key ! i) div 2)]) [0..<8] key"

definition mbedtls_des_key_check_key_parity :: "bytes \<Rightarrow> int" where
  "mbedtls_des_key_check_key_parity key =
    (if list_ex (\<lambda>i. key ! i \<noteq> odd_parity_table ! (unat (key ! i) div 2)) [0..<8] then 1 else 0)"

definition mbedtls_des_key_check_weak :: "bytes \<Rightarrow> int" where
  "mbedtls_des_key_check_weak key = (if list_ex (\<lambda>i. weak_key_table ! i = take 8 key) [0..<16] then 1 else 0)"

definition subkeys :: "u32 \<Rightarrow> u32 \<Rightarrow> u32 list" where
  "subkeys X Y =
    [(((((((((((((((((((((shl X 4 AND 0x24000000) OR (shl X 28 AND 0x10000000)) OR (shl X 14 AND 0x08000000)) OR
       (shl X 18 AND 0x02080000)) OR (shl X 6 AND 0x01000000)) OR (shl X 9 AND 0x00200000)) OR
       (shr X 1 AND 0x00100000)) OR (shl X 10 AND 0x00040000)) OR (shl X 2 AND 0x00020000)) OR
       (shr X 10 AND 0x00010000)) OR (shr Y 13 AND 0x00002000)) OR (shr Y 4 AND 0x00001000)) OR
       (shl Y 6 AND 0x00000800)) OR (shr Y 1 AND 0x00000400)) OR (shr Y 14 AND 0x00000200)) OR
       (Y AND 0x00000100)) OR (shr Y 5 AND 0x00000020)) OR (shr Y 10 AND 0x00000010)) OR
       (shr Y 3 AND 0x00000008)) OR (shr Y 18 AND 0x00000004)) OR (shr Y 26 AND 0x00000002)) OR
       (shr Y 24 AND 0x00000001),
     (((((((((((((((((((((shl X 15 AND 0x20000000) OR (shl X 17 AND 0x10000000)) OR (shl X 10 AND 0x08000000)) OR
       (shl X 22 AND 0x04000000)) OR (shr X 2 AND 0x02000000)) OR (shl X 1 AND 0x01000000)) OR
       (shl X 16 AND 0x00200000)) OR (shl X 11 AND 0x00100000)) OR (shl X 3 AND 0x00080000)) OR
       (shr X 6 AND 0x00040000)) OR (shl X 15 AND 0x00020000)) OR (shr X 4 AND 0x00010000)) OR
       (shr Y 2 AND 0x00002000)) OR (shl Y 8 AND 0x00001000)) OR (shr Y 14 AND 0x00000808)) OR
       (shr Y 9 AND 0x00000400)) OR (Y AND 0x00000200)) OR (shl Y 7 AND 0x00000100)) OR
       (shr Y 7 AND 0x00000020)) OR (shr Y 3 AND 0x00000011)) OR (shl Y 2 AND 0x00000004)) OR
       (shr Y 21 AND 0x00000002)]"

definition mbedtls_des_setkey :: "bytes \<Rightarrow> u32 list" where
  "mbedtls_des_setkey key =
    (let X = GET_UINT32_BE key 0; Y = GET_UINT32_BE key 4;
         T = (shr Y 4 XOR X) AND 0x0F0F0F0F; X = X XOR T; Y = Y XOR shl T 4;
         T = (Y XOR X) AND 0x10101010; X = X XOR T; Y = Y XOR T;
         lh = (\<lambda>n. LHs ! unat (shr X n AND 0xF)); rh = (\<lambda>n. RHs ! unat (shr Y n AND 0xF));
         X = ((((((shl (lh 0) 3 OR shl (lh 8) 2) OR shl (lh 16) 1) OR lh 24)
             OR shl (lh 5) 7) OR shl (lh 13) 6) OR shl (lh 21) 5) OR shl (lh 29) 4;
         Y = ((((((shl (rh 1) 3 OR shl (rh 9) 2) OR shl (rh 17) 1) OR rh 25)
             OR shl (rh 4) 7) OR shl (rh 12) 6) OR shl (rh 20) 5) OR shl (rh 28) 4;
         X = X AND 0x0FFFFFFF; Y = Y AND 0x0FFFFFFF
     in fst (fold (\<lambda>i (SK, X, Y).
          let n = (if i < 2 \<or> i = 8 \<or> i = 15 then 1 else 2);
              X = (shl X n OR shr X (28 - n)) AND 0x0FFFFFFF;
              Y = (shl Y n OR shr Y (28 - n)) AND 0x0FFFFFFF
          in (SK @ subkeys X Y, X, Y)) [0..<16] ([], X, Y)))"

definition mbedtls_des_setkey_enc :: "bytes \<Rightarrow> u32 list" where
  "mbedtls_des_setkey_enc key = mbedtls_des_setkey key"

definition SWAP :: "nat \<Rightarrow> nat \<Rightarrow> 'a list \<Rightarrow> 'a list" where
  "SWAP i j xs = xs[i := xs ! j, j := xs ! i]"

definition mbedtls_des_setkey_dec :: "bytes \<Rightarrow> u32 list" where
  "mbedtls_des_setkey_dec key =
    fold (\<lambda>i sk. SWAP (i + 1) (31 - i) (SWAP i (30 - i) sk)) [0, 2, 4, 6, 8, 10, 12, 14] (mbedtls_des_setkey key)"

text \<open>
  The key schedules of triple DES fill two arrays of 96 subkeys, one for encryption and one for
  decryption; the array the caller does not keep is scratch space. Both arrays are initially
  arbitrary, so the model starts from the parts that \<open>mbedtls_des_setkey\<close> writes.
\<close>

definition des3_set2key :: "u32 list \<Rightarrow> u32 list \<Rightarrow> bytes \<Rightarrow> u32 list \<times> u32 list" where
  "des3_set2key esk dsk key =
    fold (\<lambda>i (esk, dsk).
        let dsk = dsk[i := esk ! (30 - i)];
            dsk = dsk[i + 1 := esk ! (31 - i)];
            esk = esk[i + 32 := dsk ! (62 - i)];
            esk = esk[i + 33 := dsk ! (63 - i)];
            esk = esk[i + 64 := esk ! i];
            esk = esk[i + 65 := esk ! (i + 1)];
            dsk = dsk[i + 64 := dsk ! i];
            dsk = dsk[i + 65 := dsk ! (i + 1)]
        in (esk, dsk)) (map (\<lambda>k. 2 * k) [0..<16])
      (mbedtls_des_setkey key @ drop 32 esk, take 32 dsk @ mbedtls_des_setkey (drop 8 key) @ drop 64 dsk)"

definition mbedtls_des3_set2key_enc :: "u32 list \<Rightarrow> u32 list \<Rightarrow> bytes \<Rightarrow> u32 list" where
  "mbedtls_des3_set2key_enc ctx sk key = fst (des3_set2key ctx sk key)"

definition mbedtls_des3_set2key_dec :: "u32 list \<Rightarrow> u32 list \<Rightarrow> bytes \<Rightarrow> u32 list" where
  "mbedtls_des3_set2key_dec ctx sk key = snd (des3_set2key sk ctx key)"

definition des3_set3key :: "u32 list \<Rightarrow> u32 list \<Rightarrow> bytes \<Rightarrow> u32 list \<times> u32 list" where
  "des3_set3key esk dsk key =
    fold (\<lambda>i (esk, dsk).
        let dsk = dsk[i := esk ! (94 - i)];
            dsk = dsk[i + 1 := esk ! (95 - i)];
            esk = esk[i + 32 := dsk ! (62 - i)];
            esk = esk[i + 33 := dsk ! (63 - i)];
            dsk = dsk[i + 64 := esk ! (30 - i)];
            dsk = dsk[i + 65 := esk ! (31 - i)]
        in (esk, dsk)) (map (\<lambda>k. 2 * k) [0..<16])
      (mbedtls_des_setkey key @ take 32 (drop 32 esk) @ mbedtls_des_setkey (drop 16 key),
       take 32 dsk @ mbedtls_des_setkey (drop 8 key) @ drop 64 dsk)"

definition mbedtls_des3_set3key_enc :: "u32 list \<Rightarrow> u32 list \<Rightarrow> bytes \<Rightarrow> u32 list" where
  "mbedtls_des3_set3key_enc ctx sk key = fst (des3_set3key ctx sk key)"

definition mbedtls_des3_set3key_dec :: "u32 list \<Rightarrow> u32 list \<Rightarrow> bytes \<Rightarrow> u32 list" where
  "mbedtls_des3_set3key_dec ctx sk key = snd (des3_set3key sk ctx key)"

subsection \<open>Blocks\<close>

definition mbedtls_des_crypt_ecb :: "u32 list \<Rightarrow> bytes \<Rightarrow> bytes" where
  "mbedtls_des_crypt_ecb SK input =
    (let X = GET_UINT32_BE input 0; Y = GET_UINT32_BE input 4;
         (X, Y) = DES_IP X Y;
         (X, Y) = fold (\<lambda>i (X, Y).
             let X = DES_ROUND SK (4 * i) Y X; Y = DES_ROUND SK (4 * i + 2) X Y in (X, Y)) [0..<8] (X, Y);
         (Y, X) = DES_FP Y X
     in PUT_UINT32_BE Y @ PUT_UINT32_BE X)"

definition mbedtls_des3_crypt_ecb :: "u32 list \<Rightarrow> bytes \<Rightarrow> bytes" where
  "mbedtls_des3_crypt_ecb SK input =
    (let X = GET_UINT32_BE input 0; Y = GET_UINT32_BE input 4;
         (X, Y) = DES_IP X Y;
         (X, Y) = fold (\<lambda>i (X, Y).
             let X = DES_ROUND SK (4 * i) Y X; Y = DES_ROUND SK (4 * i + 2) X Y in (X, Y)) [0..<8] (X, Y);
         (X, Y) = fold (\<lambda>i (X, Y).
             let Y = DES_ROUND SK (32 + 4 * i) X Y; X = DES_ROUND SK (32 + 4 * i + 2) Y X in (X, Y)) [0..<8] (X, Y);
         (X, Y) = fold (\<lambda>i (X, Y).
             let X = DES_ROUND SK (64 + 4 * i) Y X; Y = DES_ROUND SK (64 + 4 * i + 2) X Y in (X, Y)) [0..<8] (X, Y);
         (Y, X) = DES_FP Y X
     in PUT_UINT32_BE Y @ PUT_UINT32_BE X)"

text \<open>
  The CBC loops are the same for both ciphers; \<open>ecb\<close> is the block function of the context. The
  error code is \<open>Inl\<close>; otherwise the new \<open>iv\<close> and the output.
\<close>

definition MBEDTLS_ERR_DES_INVALID_INPUT_LENGTH :: int where
  "MBEDTLS_ERR_DES_INVALID_INPUT_LENGTH = - 0x0032"

function cbc_encrypt :: "(bytes \<Rightarrow> bytes) \<Rightarrow> bytes \<Rightarrow> bytes \<Rightarrow> bytes \<times> bytes" where
  "cbc_encrypt ecb iv input =
    (if input = [] then (iv, [])
     else let block = ecb (map2 (XOR) (take 8 input) iv)
          in case cbc_encrypt ecb block (drop 8 input) of (iv', out) \<Rightarrow> (iv', block @ out))"
  by pat_completeness auto
termination by (relation "measure (\<lambda>(e, i, s). length s)") auto

function cbc_decrypt :: "(bytes \<Rightarrow> bytes) \<Rightarrow> bytes \<Rightarrow> bytes \<Rightarrow> bytes \<times> bytes" where
  "cbc_decrypt ecb iv input =
    (if input = [] then (iv, [])
     else let temp = take 8 input; block = map2 (XOR) (ecb temp) iv
          in case cbc_decrypt ecb temp (drop 8 input) of (iv', out) \<Rightarrow> (iv', block @ out))"
  by pat_completeness auto
termination by (relation "measure (\<lambda>(e, i, s). length s)") auto

declare cbc_encrypt.simps [simp del] cbc_decrypt.simps [simp del]

definition mbedtls_des_crypt_cbc :: "u32 list \<Rightarrow> bool \<Rightarrow> bytes \<Rightarrow> bytes \<Rightarrow> int + bytes \<times> bytes" where
  "mbedtls_des_crypt_cbc ctx encrypt iv input =
    (if length input mod 8 \<noteq> 0 then Inl MBEDTLS_ERR_DES_INVALID_INPUT_LENGTH
     else Inr (if encrypt then cbc_encrypt (mbedtls_des_crypt_ecb ctx) iv input
               else cbc_decrypt (mbedtls_des_crypt_ecb ctx) iv input))"

definition mbedtls_des3_crypt_cbc :: "u32 list \<Rightarrow> bool \<Rightarrow> bytes \<Rightarrow> bytes \<Rightarrow> int + bytes \<times> bytes" where
  "mbedtls_des3_crypt_cbc ctx encrypt iv input =
    (if length input mod 8 \<noteq> 0 then Inl MBEDTLS_ERR_DES_INVALID_INPUT_LENGTH
     else Inr (if encrypt then cbc_encrypt (mbedtls_des3_crypt_ecb ctx) iv input
               else cbc_decrypt (mbedtls_des3_crypt_ecb ctx) iv input))"

end
