(* ===== verification/Des_Laws.thy ===== *)
theory Des_Laws
  imports Des
begin

text \<open>
  DES and triple DES as permutations: the round macro is a Feistel step, the two permutation
  macros are inverse to each other, the decryption schedule is the reversed encryption
  schedule, and the chained modes are proved once for a block cipher with an inverse
  (locale \<open>block_cipher\<close>), interpreted for both ciphers of the file.
\<close>

subsection \<open>Chaining\<close>

locale block_cipher =
  fixes enc dec :: "bytes \<Rightarrow> bytes"
  assumes dec_enc: "length b = 8 \<Longrightarrow> dec (enc b) = b"
    and length_enc: "length b = 8 \<Longrightarrow> length (enc b) = 8"
begin

lemma map2_xor_cancel:
  "length (xs :: bytes) = length ys \<Longrightarrow> map2 (XOR) (map2 (XOR) xs ys) ys = xs"
  by (induction xs ys rule: list_induct2) simp_all

lemma cbc_blocks:
  assumes "length iv = 8"
  shows "length input = 8 * n \<Longrightarrow>
    length (fst (cbc_encrypt enc iv input)) = 8 \<and> length (snd (cbc_encrypt enc iv input)) = 8 * n \<and>
    cbc_decrypt dec iv (snd (cbc_encrypt enc iv input)) = (fst (cbc_encrypt enc iv input), input)"
  using assms
proof (induction n arbitrary: iv input)
  case (Suc n)
  define block where "block = enc (map2 (XOR) (take 8 input) iv)"
  have b: "length block = 8" and p: "map2 (XOR) (dec block) iv = take 8 input"
    using Suc.prems by (simp_all add: block_def length_enc dec_enc map2_xor_cancel)
  obtain iv' out where rest: "cbc_encrypt enc block (drop 8 input) = (iv', out)" by force
  have e: "cbc_encrypt enc iv input = (iv', block @ out)"
    using Suc.prems rest by (subst cbc_encrypt.simps) (auto simp: block_def Let_def)
  have ih: "length iv' = 8" "length out = 8 * n" "cbc_decrypt dec block out = (iv', drop 8 input)"
    using Suc.IH [of "drop 8 input" block] Suc.prems b rest by simp_all
  have "block \<noteq> []" using b by auto
  then show ?case
    unfolding e using b ih p by (subst cbc_decrypt.simps) (simp add: Let_def)
qed (simp add: cbc_encrypt.simps cbc_decrypt.simps)

lemma cbc_roundtrip:
  assumes "length iv = 8" "length input mod 8 = 0"
  obtains iv' out where "length out = length input" "cbc_encrypt enc iv input = (iv', out)"
    "cbc_decrypt dec iv out = (iv', input)"
proof -
  obtain n where n: "length input = 8 * n" using assms(2) by (auto simp: mod_eq_0_iff_dvd)
  obtain iv' out where "cbc_encrypt enc iv input = (iv', out)" by force
  then show ?thesis
    using cbc_blocks [OF assms(1) n] n by (intro that [of out iv']) simp_all
qed

end

subsection \<open>The permutation macros\<close>

lemma exchange_involution:
  assumes "shr (shl m k) k = m"
  shows "exchange k m (exchange k m s) = s"
proof -
  obtain x y where s: "s = (x, y)" by force
  define T where "T = (shr x k XOR y) AND m"
  have b: "bit m n \<Longrightarrow> n + k < LENGTH(32)" for n
    using arg_cong [OF assms, of "\<lambda>w. bit w n"] by (simp add: word_bits)
  have "(shr (x XOR shl T k) k XOR (y XOR T)) AND m = T"
    unfolding T_def by (rule bit_word_eqI) (use b in \<open>auto simp: word_bits add.commute simp del: len_num1 len_bit0 len_bit1\<close>)
  then show ?thesis
    unfolding s exchange_def Let_def prod.case T_def [symmetric] by (simp only: prod.case xor_cancel)
qed

lemma exchange_masks [simp]:
  "exchange 4 0x0F0F0F0F (exchange 4 0x0F0F0F0F s) = s"
  "exchange 16 0x0000FFFF (exchange 16 0x0000FFFF s) = s"
  "exchange 2 0x33333333 (exchange 2 0x33333333 s) = s"
  "exchange 8 0x00FF00FF (exchange 8 0x00FF00FF s) = s"
  by (rule exchange_involution, simp)+

definition rotl1 :: "u32 \<Rightarrow> u32" where "rotl1 x = shl x 1 OR shr x 31"
definition rotr1 :: "u32 \<Rightarrow> u32" where "rotr1 x = shl x 31 OR shr x 1"
definition cross :: "u32 \<times> u32 \<Rightarrow> u32 \<times> u32" where
  "cross = (\<lambda>(x, y). let T = (x XOR y) AND 0xAAAAAAAA in (x XOR T, y XOR T))"

lemma u32_eq_endsI:
  fixes x y :: u32
  assumes "bit x 31 = bit y 31" "bit x 0 = bit y 0" "\<And>n. 0 < n \<Longrightarrow> n < 31 \<Longrightarrow> bit x n = bit y n"
  shows "x = y"
proof (rule bit_word_eqI)
  fix n assume "n < LENGTH(32)"
  then have "n = 31 \<or> n = 0 \<or> 0 < n \<and> n < 31" by simp linarith
  then show "bit x n = bit y n" using assms by auto
qed

lemma rotate_inverse [simp]: "rotr1 (rotl1 x) = x" "rotl1 (rotr1 x) = x"
  unfolding rotl1_def rotr1_def by (rule u32_eq_endsI; simp add: word_bits del: bit_0)+

lemma cross_involution [simp]: "cross (cross s) = s"
proof -
  obtain x y where s: "s = (x, y)" by force
  have "((x XOR ((x XOR y) AND m)) XOR (y XOR ((x XOR y) AND m))) AND m = ((x XOR y) AND m :: u32)" for m
    by (rule bit_word_eqI) (auto simp: word_bits)
  then show ?thesis by (simp add: s cross_def Let_def)
qed

lemma DES_IP_steps:
  "DES_IP x y =
    (let (X, Y) = exchange 16 0x0000FFFF (exchange 4 0x0F0F0F0F (x, y));
         (Y, X) = exchange 8 0x00FF00FF (exchange 2 0x33333333 (Y, X));
         (X, Y) = cross (X, rotl1 Y)
     in (rotl1 X, Y))"
  by (simp add: DES_IP_def cross_def rotl1_def Let_def split_beta xor.commute)

lemma DES_FP_steps:
  "DES_FP x y =
    (let (X, Y) = cross (rotr1 x, y);
         (Y, X) = exchange 2 0x33333333 (exchange 8 0x00FF00FF (rotr1 Y, X))
     in exchange 4 0x0F0F0F0F (exchange 16 0x0000FFFF (X, Y)))"
  by (simp add: DES_FP_def cross_def rotr1_def Let_def split_beta)

lemma DES_FP_IP [simp]: "(case DES_IP x y of (X, Y) \<Rightarrow> DES_FP X Y) = (x, y)"
  by (simp add: DES_IP_steps DES_FP_steps Let_def split_beta)

lemma DES_IP_FP [simp]: "(case DES_FP x y of (X, Y) \<Rightarrow> DES_IP X Y) = (x, y)"
  by (simp add: DES_IP_steps DES_FP_steps Let_def split_beta)

subsection \<open>Rounds\<close>

definition F_des :: "u32 \<times> u32 \<Rightarrow> u32 \<Rightarrow> u32" where
  "F_des = (\<lambda>(k, k') X. DES_ROUND [k, k'] 0 X 0)"

definition feistel :: "u32 \<times> u32 \<Rightarrow> u32 \<times> u32 \<Rightarrow> u32 \<times> u32" where
  "feistel k = (\<lambda>(a, b). (b, a XOR F_des k b))"

definition des_core :: "(u32 \<times> u32) list \<Rightarrow> u32 \<times> u32 \<Rightarrow> u32 \<times> u32" where
  "des_core ks s = prod.swap (fold feistel ks s)"

definition key_pairs :: "nat \<Rightarrow> u32 list \<Rightarrow> (u32 \<times> u32) list" where
  "key_pairs m sk = map (\<lambda>i. (sk ! (2 * i), sk ! (2 * i + 1))) [m..<m + 16]"

lemma DES_ROUND_F: "DES_ROUND SK n X Y = Y XOR F_des (SK ! n, SK ! (n + 1)) X"
  by (simp add: DES_ROUND_def F_des_def Let_def xor.assoc)

lemma feistel_reverse: "fold feistel (rev ks) (prod.swap (fold feistel ks s)) = prod.swap s"
proof (induction ks arbitrary: s)
  case (Cons k ks)
  have "feistel k (prod.swap (feistel k s)) = prod.swap s"
    by (cases s) (simp add: feistel_def)
  then show ?case using Cons by simp
qed simp

lemma des_core_reverse: "des_core (rev ks) (des_core ks s) = s"
  by (simp add: des_core_def feistel_reverse)

text \<open>Eight passes of the loop, two rounds each, are sixteen Feistel steps.\<close>

lemma round_loop:
  "fold (\<lambda>i (X, Y). let X = DES_ROUND SK (4 * (m + i)) Y X; Y = DES_ROUND SK (4 * (m + i) + 2) X Y in (X, Y)) [0..<n] s =
    fold feistel (map (\<lambda>i. (SK ! (2 * i), SK ! (2 * i + 1))) [2 * m..<2 * m + 2 * n]) s"
proof (induction n)
  case (Suc n)
  have "[2 * m..<2 * m + 2 * Suc n] = [2 * m..<2 * m + 2 * n] @ [2 * (m + n), Suc (2 * (m + n))]"
    by (simp add: upt_Suc_append)
  with Suc show ?case
    by (simp add: split_beta Let_def DES_ROUND_F feistel_def add.commute)
qed simp

lemma round_loop_swapped:
  "fold (\<lambda>i (X, Y). let Y = DES_ROUND SK (4 * (m + i)) X Y; X = DES_ROUND SK (4 * (m + i) + 2) Y X in (X, Y)) [0..<n] s =
    prod.swap (fold (\<lambda>i (X, Y). let X = DES_ROUND SK (4 * (m + i)) Y X; Y = DES_ROUND SK (4 * (m + i) + 2) X Y in (X, Y)) [0..<n] (prod.swap s))"
  by (induction n) (simp_all add: split_beta Let_def)

definition load :: "bytes \<Rightarrow> u32 \<times> u32" where
  "load b = DES_IP (GET_UINT32_BE b 0) (GET_UINT32_BE b 4)"

definition store :: "u32 \<times> u32 \<Rightarrow> bytes" where
  "store = (\<lambda>(a, b). case DES_FP a b of (Y, X) \<Rightarrow> PUT_UINT32_BE Y @ PUT_UINT32_BE X)"

lemma GET_PUT [simp]:
  "GET_UINT32_BE (PUT_UINT32_BE a @ PUT_UINT32_BE b) 0 = a"
  "GET_UINT32_BE (PUT_UINT32_BE a @ PUT_UINT32_BE b) 4 = b"
proof -
  have "((shl (ucast (ucast (shr n 24) :: u8)) 24 OR shl (ucast (ucast (shr n 16) :: u8)) 16) OR
      shl (ucast (ucast (shr n 8) :: u8)) 8) OR ucast (ucast n :: u8) = n" (is "?l = n") for n :: u32
  proof (rule bit_word_eqI)
    fix k assume "k < LENGTH(32)"
    then have "k < 8 \<or> 8 \<le> k \<and> k < 16 \<or> 16 \<le> k \<and> k < 24 \<or> 24 \<le> k \<and> k < 32" by simp linarith
    then show "bit ?l k = bit n k"
      by (elim disjE) (auto simp: word_bits)
  qed
  then show "GET_UINT32_BE (PUT_UINT32_BE a @ PUT_UINT32_BE b) 0 = a" "GET_UINT32_BE (PUT_UINT32_BE a @ PUT_UINT32_BE b) 4 = b"
    by (simp_all add: GET_UINT32_BE_def PUT_UINT32_BE_def nth_append)
qed

lemma PUT_GET:
  "PUT_UINT32_BE (GET_UINT32_BE b i) = [b ! i, b ! (i + 1), b ! (i + 2), b ! (i + 3)]"
proof -
  have "ucast (shr (((shl (ucast x) 24 OR shl (ucast y) 16) OR shl (ucast z) 8) OR ucast w :: u32) 24) = (x :: u8)"
    "ucast (shr (((shl (ucast x) 24 OR shl (ucast y) 16) OR shl (ucast z) 8) OR ucast w :: u32) 16) = (y :: u8)"
    "ucast (shr (((shl (ucast x) 24 OR shl (ucast y) 16) OR shl (ucast z) 8) OR ucast w :: u32) 8) = (z :: u8)"
    "ucast (((shl (ucast x) 24 OR shl (ucast y) 16) OR shl (ucast z) 8) OR ucast w :: u32) = (w :: u8)" for x y z w :: u8
    by (rule u8_eqI; auto simp: word_bits)+
  then show ?thesis by (simp add: GET_UINT32_BE_def PUT_UINT32_BE_def)
qed

lemma load_store [simp]: "load (store s) = s"
  using DES_IP_FP by (cases s) (simp add: load_def store_def split_beta)

lemma store_load:
  assumes "length b = 8"
  shows "store (load b) = b"
proof -
  have "[b ! 0, b ! Suc 0, b ! Suc (Suc 0), b ! 3, b ! 4, b ! 5, b ! 6, b ! 7] = b"
    using list_eq_8 [OF assms] by (simp add: numeral_2_eq_2)
  then show ?thesis
    using DES_FP_IP [of "GET_UINT32_BE b 0" "GET_UINT32_BE b 4"]
    by (simp add: load_def store_def split_beta PUT_GET)
qed

lemma length_store [simp]: "length (store s) = 8"
  by (simp add: store_def split_beta PUT_UINT32_BE_def)

text \<open>The loop bodies of the source, with the offset of their first subkey written as it is there.\<close>

lemma round_loops_at:
  "fold (\<lambda>i (X, Y). let X = DES_ROUND SK (4 * i) Y X; Y = DES_ROUND SK (4 * i + 2) X Y in (X, Y)) [0..<8] s =
    fold feistel (key_pairs 0 SK) s"
  "fold (\<lambda>i (X, Y). let Y = DES_ROUND SK (32 + 4 * i) X Y; X = DES_ROUND SK (32 + 4 * i + 2) Y X in (X, Y)) [0..<8] s =
    prod.swap (fold feistel (key_pairs 16 SK) (prod.swap s))"
  "fold (\<lambda>i (X, Y). let X = DES_ROUND SK (64 + 4 * i) Y X; Y = DES_ROUND SK (64 + 4 * i + 2) X Y in (X, Y)) [0..<8] s =
    fold feistel (key_pairs 32 SK) s"
proof -
  have m: "32 + 4 * i = 4 * (8 + i)" "64 + 4 * i = 4 * (16 + i)" for i :: nat by simp_all
  show "fold (\<lambda>i (X, Y). let X = DES_ROUND SK (4 * i) Y X; Y = DES_ROUND SK (4 * i + 2) X Y in (X, Y)) [0..<8] s =
      fold feistel (key_pairs 0 SK) s"
    using round_loop [of SK 0 8 s] unfolding key_pairs_def by (simp del: upt_rec_numeral)
  show "fold (\<lambda>i (X, Y). let Y = DES_ROUND SK (32 + 4 * i) X Y; X = DES_ROUND SK (32 + 4 * i + 2) Y X in (X, Y)) [0..<8] s =
      prod.swap (fold feistel (key_pairs 16 SK) (prod.swap s))"
    unfolding m round_loop_swapped round_loop key_pairs_def by (simp del: upt_rec_numeral)
  show "fold (\<lambda>i (X, Y). let X = DES_ROUND SK (64 + 4 * i) Y X; Y = DES_ROUND SK (64 + 4 * i + 2) X Y in (X, Y)) [0..<8] s =
      fold feistel (key_pairs 32 SK) s"
    unfolding m round_loop key_pairs_def by (simp del: upt_rec_numeral)
qed

lemma swap_case: "(case s of (X, Y) \<Rightarrow> f Y X) = (case prod.swap s of (X, Y) \<Rightarrow> f X Y)"
  by (cases s) simp

lemma des_ecb: "mbedtls_des_crypt_ecb sk b = store (des_core (key_pairs 0 sk) (load b))"
  unfolding mbedtls_des_crypt_ecb_def load_def store_def des_core_def
  by (simp only: Let_def [of "GET_UINT32_BE b 0"] Let_def [of "GET_UINT32_BE b 4"] round_loops_at)
    (simp add: split_beta Let_def)

lemma des3_ecb:
  "mbedtls_des3_crypt_ecb sk b =
    store (des_core (key_pairs 32 sk) (des_core (key_pairs 16 sk) (des_core (key_pairs 0 sk) (load b))))"
  unfolding mbedtls_des3_crypt_ecb_def load_def store_def des_core_def
  by (simp only: Let_def [of "GET_UINT32_BE b 0"] Let_def [of "GET_UINT32_BE b 4"] round_loops_at)
    (simp add: split_beta Let_def prod.swap_def)

subsection \<open>Key schedules\<close>

lemma length_subkey_loop:
  "length (fst (fold (\<lambda>i (SK, X, Y). (SK @ subkeys (g i X) (g i Y), g i X, g i Y)) xs (SK, X, Y))) =
    length SK + 2 * length xs"
  by (induction xs arbitrary: SK X Y) (simp_all add: subkeys_def)

lemma length_setkey [simp]: "length (mbedtls_des_setkey key) = 32"
  unfolding mbedtls_des_setkey_def Let_def by (simp only: length_subkey_loop) simp

text \<open>The reversed position of a subkey: pairs in reverse order, each kept as it is.\<close>

definition rp :: "nat \<Rightarrow> nat" where
  "rp j = 30 + 2 * (j mod 2) - j"

lemma key_pairs_nth:
  "i < 16 \<Longrightarrow> key_pairs m sk ! i = (sk ! (2 * m + 2 * i), sk ! (2 * m + (2 * i + 1)))"
  by (simp add: key_pairs_def algebra_simps)

lemma length_key_pairs [simp]: "length (key_pairs m sk) = 16"
  by (simp add: key_pairs_def)

lemma key_pairs_rev:
  assumes "\<And>j. j < 32 \<Longrightarrow> dk ! (2 * m + j) = ek ! (2 * n + rp j)"
  shows "key_pairs m dk = rev (key_pairs n ek)"
proof (rule nth_equalityI)
  fix i assume "i < length (key_pairs m dk)"
  then have i: "i < 16" by simp
  then have "rp (2 * i) = 2 * (15 - i)" "rp (2 * i + 1) = 2 * (15 - i) + 1"
    by (simp_all add: rp_def)
  with i show "key_pairs m dk ! i = rev (key_pairs n ek) ! i"
    using assms [of "2 * i"] assms [of "2 * i + 1"] by (simp add: key_pairs_nth rev_nth del: add_Suc_right)
qed simp

lemma key_pairs_cong:
  "(\<And>j. j < 32 \<Longrightarrow> dk ! (2 * m + j) = ek ! (2 * n + j)) \<Longrightarrow> key_pairs m dk = key_pairs n ek"
  by (rule nth_equalityI) (simp_all add: key_pairs_nth del: add_Suc_right)

lemma setkey_dec_pairs: "key_pairs 0 (mbedtls_des_setkey_dec key) = rev (key_pairs 0 (mbedtls_des_setkey_enc key))"
proof (rule key_pairs_rev)
  fix j :: nat assume "j < 32"
  moreover have "list_all (\<lambda>j. mbedtls_des_setkey_dec key ! j = mbedtls_des_setkey key ! rp j) [0..<32]"
    unfolding upt_32 mbedtls_des_setkey_dec_def by (simp add: SWAP_def rp_def nth_list_update numeral_eq_Suc [of "num.One"] numeral_3_eq_3)
  ultimately show "mbedtls_des_setkey_dec key ! (2 * 0 + j) = mbedtls_des_setkey_enc key ! (2 * 0 + rp j)"
    by (simp add: list_all_iff mbedtls_des_setkey_enc_def)
qed

text \<open>
  The two schedules of triple DES: both arrays after \<open>k\<close> passes of the loop, for the schedules
  \<open>e\<close>, \<open>d\<close> (and \<open>c\<close>) of the single keys.
\<close>

lemma fold_even: "fold f (map (\<lambda>k. 2 * k) [0..<n]) s = fold (\<lambda>k. f (2 * k)) [0..<n] s"
  by (simp add: fold_map comp_def)

lemma rp_even: "k < 16 \<Longrightarrow> rp (2 * k) = 30 - 2 * k" "k < 16 \<Longrightarrow> rp (Suc (2 * k)) = 31 - 2 * k"
  by (simp_all add: rp_def)

definition set2_inv :: "u32 list \<Rightarrow> u32 list \<Rightarrow> nat \<Rightarrow> u32 list \<times> u32 list \<Rightarrow> bool" where
  "set2_inv e d k = (\<lambda>(es, ds). length es = 96 \<and> length ds = 96 \<and>
    (\<forall>j<32. es ! j = e ! j \<and> ds ! (32 + j) = d ! j) \<and>
    (\<forall>j<2 * k. ds ! j = e ! rp j \<and> es ! (32 + j) = d ! rp j \<and> es ! (64 + j) = e ! j \<and> ds ! (64 + j) = e ! rp j))"

definition set3_inv :: "u32 list \<Rightarrow> u32 list \<Rightarrow> u32 list \<Rightarrow> nat \<Rightarrow> u32 list \<times> u32 list \<Rightarrow> bool" where
  "set3_inv e d c k = (\<lambda>(es, ds). length es = 96 \<and> length ds = 96 \<and>
    (\<forall>j<32. es ! j = e ! j \<and> ds ! (32 + j) = d ! j \<and> es ! (64 + j) = c ! j) \<and>
    (\<forall>j<2 * k. ds ! j = c ! rp j \<and> es ! (32 + j) = d ! rp j \<and> ds ! (64 + j) = e ! rp j))"

lemma below_2Suc: "j < 2 * Suc k \<longleftrightarrow> j < 2 * k \<or> j = 2 * k \<or> j = Suc (2 * k)"
  by auto

lemma set2key_schedules:
  assumes "length esk = 96" "length dsk = 96"
  shows "set2_inv (mbedtls_des_setkey key) (mbedtls_des_setkey (drop 8 key)) 16 (des3_set2key esk dsk key)"
  unfolding des3_set2key_def fold_even
proof (rule fold_invariant_upt)
  show "set2_inv (mbedtls_des_setkey key) (mbedtls_des_setkey (drop 8 key)) 0
      (mbedtls_des_setkey key @ drop 32 esk, take 32 dsk @ mbedtls_des_setkey (drop 8 key) @ drop 64 dsk)"
    using assms by (simp add: set2_inv_def nth_append)
next
  fix k and s :: "u32 list \<times> u32 list"
  assume k: "k < 16" and inv: "set2_inv (mbedtls_des_setkey key) (mbedtls_des_setkey (drop 8 key)) k s"
  obtain es ds where s: "s = (es, ds)" by force
  have h: "j < 32 \<Longrightarrow> ds ! (32 + j) = mbedtls_des_setkey (drop 8 key) ! j" for j
    using inv by (simp add: s set2_inv_def)
  have r: "ds ! (62 - 2 * k) = mbedtls_des_setkey (drop 8 key) ! (30 - 2 * k)"
    "ds ! (63 - 2 * k) = mbedtls_des_setkey (drop 8 key) ! (31 - 2 * k)"
    using k h [of "30 - 2 * k"] h [of "31 - 2 * k"] by simp_all
  show "set2_inv (mbedtls_des_setkey key) (mbedtls_des_setkey (drop 8 key)) (Suc k)
      ((\<lambda>(esk, dsk). let dsk = dsk[2 * k := esk ! (30 - 2 * k)]; dsk = dsk[2 * k + 1 := esk ! (31 - 2 * k)];
          esk = esk[2 * k + 32 := dsk ! (62 - 2 * k)]; esk = esk[2 * k + 33 := dsk ! (63 - 2 * k)];
          esk = esk[2 * k + 64 := esk ! (2 * k)]; esk = esk[2 * k + 65 := esk ! (2 * k + 1)];
          dsk = dsk[2 * k + 64 := dsk ! (2 * k)]; dsk = dsk[2 * k + 65 := dsk ! (2 * k + 1)]
        in (esk, dsk)) s)"
    using inv k r unfolding s set2_inv_def below_2Suc
    by (auto simp: Let_def nth_list_update rp_even)
qed

lemma set3key_schedules:
  assumes "length esk = 96" "length dsk = 96"
  shows "set3_inv (mbedtls_des_setkey key) (mbedtls_des_setkey (drop 8 key)) (mbedtls_des_setkey (drop 16 key)) 16
    (des3_set3key esk dsk key)"
  unfolding des3_set3key_def fold_even
proof (rule fold_invariant_upt
    [where P = "set3_inv (mbedtls_des_setkey key) (mbedtls_des_setkey (drop 8 key)) (mbedtls_des_setkey (drop 16 key))"])
  show "set3_inv (mbedtls_des_setkey key) (mbedtls_des_setkey (drop 8 key)) (mbedtls_des_setkey (drop 16 key)) 0
      (mbedtls_des_setkey key @ take 32 (drop 32 esk) @ mbedtls_des_setkey (drop 16 key),
       take 32 dsk @ mbedtls_des_setkey (drop 8 key) @ drop 64 dsk)"
    using assms by (simp add: set3_inv_def nth_append)
next
  fix k and s :: "u32 list \<times> u32 list"
  assume k: "k < 16"
    and inv: "set3_inv (mbedtls_des_setkey key) (mbedtls_des_setkey (drop 8 key)) (mbedtls_des_setkey (drop 16 key)) k s"
  obtain es ds where s: "s = (es, ds)" by force
  have h: "j < 32 \<Longrightarrow> ds ! (32 + j) = mbedtls_des_setkey (drop 8 key) ! j"
    "j < 32 \<Longrightarrow> es ! (64 + j) = mbedtls_des_setkey (drop 16 key) ! j" for j
    using inv by (simp_all add: s set3_inv_def)
  have r: "ds ! (62 - 2 * k) = mbedtls_des_setkey (drop 8 key) ! (30 - 2 * k)"
    "ds ! (63 - 2 * k) = mbedtls_des_setkey (drop 8 key) ! (31 - 2 * k)"
    "es ! (94 - 2 * k) = mbedtls_des_setkey (drop 16 key) ! (30 - 2 * k)"
    "es ! (95 - 2 * k) = mbedtls_des_setkey (drop 16 key) ! (31 - 2 * k)"
    using k h [of "30 - 2 * k"] h [of "31 - 2 * k"] by simp_all
  show "set3_inv (mbedtls_des_setkey key) (mbedtls_des_setkey (drop 8 key)) (mbedtls_des_setkey (drop 16 key)) (Suc k)
      ((\<lambda>(esk, dsk). let dsk = dsk[2 * k := esk ! (94 - 2 * k)]; dsk = dsk[2 * k + 1 := esk ! (95 - 2 * k)];
          esk = esk[2 * k + 32 := dsk ! (62 - 2 * k)]; esk = esk[2 * k + 33 := dsk ! (63 - 2 * k)];
          dsk = dsk[2 * k + 64 := esk ! (30 - 2 * k)]; dsk = dsk[2 * k + 65 := esk ! (31 - 2 * k)]
        in (esk, dsk)) s)"
    using inv k r unfolding s set3_inv_def below_2Suc
    by (auto simp: Let_def nth_list_update rp_even)
qed

lemma schedule_pairs:
  assumes "length ctx = 96" "length sk = 96"
  defines "K \<equiv> \<lambda>key. key_pairs 0 (mbedtls_des_setkey key)"
  shows
    "key_pairs 0 (mbedtls_des3_set2key_enc ctx sk key) = K key"
    "key_pairs 16 (mbedtls_des3_set2key_enc ctx sk key) = rev (K (drop 8 key))"
    "key_pairs 32 (mbedtls_des3_set2key_enc ctx sk key) = K key"
    "key_pairs 0 (mbedtls_des3_set2key_dec ctx sk key) = rev (K key)"
    "key_pairs 16 (mbedtls_des3_set2key_dec ctx sk key) = K (drop 8 key)"
    "key_pairs 32 (mbedtls_des3_set2key_dec ctx sk key) = rev (K key)"
    "key_pairs 0 (mbedtls_des3_set3key_enc ctx sk key) = K key"
    "key_pairs 16 (mbedtls_des3_set3key_enc ctx sk key) = rev (K (drop 8 key))"
    "key_pairs 32 (mbedtls_des3_set3key_enc ctx sk key) = K (drop 16 key)"
    "key_pairs 0 (mbedtls_des3_set3key_dec ctx sk key) = rev (K (drop 16 key))"
    "key_pairs 16 (mbedtls_des3_set3key_dec ctx sk key) = K (drop 8 key)"
    "key_pairs 32 (mbedtls_des3_set3key_dec ctx sk key) = rev (K key)"
  using set2key_schedules [OF assms(1,2), of key] set2key_schedules [OF assms(2,1), of key]
    set3key_schedules [OF assms(1,2), of key] set3key_schedules [OF assms(2,1), of key]
  unfolding K_def mbedtls_des3_set2key_enc_def mbedtls_des3_set2key_dec_def
    mbedtls_des3_set3key_enc_def mbedtls_des3_set3key_dec_def
  by (auto simp: set2_inv_def set3_inv_def split_beta intro!: key_pairs_cong key_pairs_rev)

subsection \<open>The ciphers\<close>

text \<open>Both directions of single DES on the halves of the block.\<close>

lemma des_inverse:
  "length b = 8 \<Longrightarrow> mbedtls_des_crypt_ecb (mbedtls_des_setkey_dec key) (mbedtls_des_crypt_ecb (mbedtls_des_setkey_enc key) b) = b"
  "length b = 8 \<Longrightarrow> mbedtls_des_crypt_ecb (mbedtls_des_setkey_enc key) (mbedtls_des_crypt_ecb (mbedtls_des_setkey_dec key) b) = b"
  using des_core_reverse [of "rev (key_pairs 0 (mbedtls_des_setkey_enc key))"]
  by (simp_all add: des_ecb setkey_dec_pairs des_core_reverse store_load)

lemma length_des_ecb [simp]: "length (mbedtls_des_crypt_ecb sk b) = 8" "length (mbedtls_des3_crypt_ecb sk b) = 8"
  by (simp_all add: des_ecb des3_ecb)

lemma des3_composition:
  assumes "length ctx = 96" "length sk = 96" "length b = 8"
  defines "E \<equiv> \<lambda>k. mbedtls_des_crypt_ecb (mbedtls_des_setkey_enc k)"
    and "D \<equiv> \<lambda>k. mbedtls_des_crypt_ecb (mbedtls_des_setkey_dec k)"
  shows "mbedtls_des3_crypt_ecb (mbedtls_des3_set2key_enc ctx sk key) b = E key (D (drop 8 key) (E key b))"
    "mbedtls_des3_crypt_ecb (mbedtls_des3_set2key_dec ctx sk key) b = D key (E (drop 8 key) (D key b))"
    "mbedtls_des3_crypt_ecb (mbedtls_des3_set3key_enc ctx sk key) b = E (drop 16 key) (D (drop 8 key) (E key b))"
    "mbedtls_des3_crypt_ecb (mbedtls_des3_set3key_dec ctx sk key) b = D key (E (drop 8 key) (D (drop 16 key) b))"
  using assms(1-3)
  by (simp_all add: E_def D_def des_ecb des3_ecb schedule_pairs setkey_dec_pairs)
    (simp_all add: mbedtls_des_setkey_enc_def)

interpretation des: block_cipher "mbedtls_des_crypt_ecb (mbedtls_des_setkey_enc key)"
    "mbedtls_des_crypt_ecb (mbedtls_des_setkey_dec key)" for key
  by unfold_locales (simp_all add: des_inverse)

text \<open>Triple DES with the schedules of one key, made in contexts with any content.\<close>

lemma des3_block_ciphers:
  assumes "length ctx = 96" "length sk = 96"
  shows "block_cipher (mbedtls_des3_crypt_ecb (mbedtls_des3_set2key_enc ctx sk key))
      (mbedtls_des3_crypt_ecb (mbedtls_des3_set2key_dec ctx sk key))"
    "block_cipher (mbedtls_des3_crypt_ecb (mbedtls_des3_set3key_enc ctx sk key))
      (mbedtls_des3_crypt_ecb (mbedtls_des3_set3key_dec ctx sk key))"
  using assms by (unfold_locales; simp add: des3_composition des_inverse)+

interpretation des3_2key: block_cipher "mbedtls_des3_crypt_ecb (mbedtls_des3_set2key_enc (replicate 96 0) (replicate 96 0) key)"
    "mbedtls_des3_crypt_ecb (mbedtls_des3_set2key_dec (replicate 96 0) (replicate 96 0) key)" for key
  by (rule des3_block_ciphers) simp_all

interpretation des3_3key: block_cipher "mbedtls_des3_crypt_ecb (mbedtls_des3_set3key_enc (replicate 96 0) (replicate 96 0) key)"
    "mbedtls_des3_crypt_ecb (mbedtls_des3_set3key_dec (replicate 96 0) (replicate 96 0) key)" for key
  by (rule des3_block_ciphers) simp_all

text \<open>C16: 
  Decryption inverts encryption on every block, for DES and for triple DES with two and with
  three keys, and triple DES is the composition encrypt, decrypt, encrypt of single DES under
  its keys, although it permutes only at the two ends. The schedules of triple DES do not
  depend on the previous content of the context or of the scratch array.
\<close>

theorem des_ciphers:
  assumes "length b = 8" "length ctx = 96" "length sk = 96"
  shows "mbedtls_des_crypt_ecb (mbedtls_des_setkey_dec key) (mbedtls_des_crypt_ecb (mbedtls_des_setkey_enc key) b) = b \<and>
    mbedtls_des_crypt_ecb (mbedtls_des_setkey_enc key) (mbedtls_des_crypt_ecb (mbedtls_des_setkey_dec key) b) = b \<and>
    mbedtls_des3_crypt_ecb (mbedtls_des3_set2key_dec ctx sk key)
      (mbedtls_des3_crypt_ecb (mbedtls_des3_set2key_enc ctx sk key) b) = b \<and>
    mbedtls_des3_crypt_ecb (mbedtls_des3_set3key_dec ctx sk key)
      (mbedtls_des3_crypt_ecb (mbedtls_des3_set3key_enc ctx sk key) b) = b \<and>
    mbedtls_des3_crypt_ecb (mbedtls_des3_set2key_enc ctx sk key) b =
      mbedtls_des_crypt_ecb (mbedtls_des_setkey_enc key)
        (mbedtls_des_crypt_ecb (mbedtls_des_setkey_dec (drop 8 key)) (mbedtls_des_crypt_ecb (mbedtls_des_setkey_enc key) b)) \<and>
    mbedtls_des3_crypt_ecb (mbedtls_des3_set3key_enc ctx sk key) b =
      mbedtls_des_crypt_ecb (mbedtls_des_setkey_enc (drop 16 key))
        (mbedtls_des_crypt_ecb (mbedtls_des_setkey_dec (drop 8 key)) (mbedtls_des_crypt_ecb (mbedtls_des_setkey_enc key) b))"
  using assms by (simp add: des_inverse des3_composition)

text \<open>Key and block of \<open>mbedtls_des_self_test\<close>.\<close>

lemma des_ciphers_witness:
  "mbedtls_des_crypt_ecb (mbedtls_des_setkey_dec [0x01, 0x23, 0x45, 0x67, 0x89, 0xAB, 0xCD, 0xEF])
    (mbedtls_des_crypt_ecb (mbedtls_des_setkey_enc [0x01, 0x23, 0x45, 0x67, 0x89, 0xAB, 0xCD, 0xEF])
      [0x4E, 0x6F, 0x77, 0x20, 0x69, 0x73, 0x20, 0x74]) = [0x4E, 0x6F, 0x77, 0x20, 0x69, 0x73, 0x20, 0x74]"
  using des_ciphers [of "[0x4E, 0x6F, 0x77, 0x20, 0x69, 0x73, 0x20, 0x74]" "replicate 96 0" "replicate 96 0"
    "[0x01, 0x23, 0x45, 0x67, 0x89, 0xAB, 0xCD, 0xEF]"] by simp

text \<open>
  The chained modes refuse a length that is not a multiple of eight, in both directions; any
  other input of any length is decrypted to itself, with the same final chaining value and an
  output as long as the input.
\<close>

theorem cbc_modes:
  assumes "length iv = 8" "length ctx = 96" "length sk = 96"
  shows "(length input mod 8 \<noteq> 0 \<longrightarrow>
      mbedtls_des_crypt_cbc key_schedule encrypt iv input = Inl MBEDTLS_ERR_DES_INVALID_INPUT_LENGTH \<and>
      mbedtls_des3_crypt_cbc key_schedule encrypt iv input = Inl MBEDTLS_ERR_DES_INVALID_INPUT_LENGTH) \<and>
    (length input mod 8 = 0 \<longrightarrow>
      (\<exists>iv' out. length out = length input \<and>
        mbedtls_des_crypt_cbc (mbedtls_des_setkey_enc key) True iv input = Inr (iv', out) \<and>
        mbedtls_des_crypt_cbc (mbedtls_des_setkey_dec key) False iv out = Inr (iv', input)) \<and>
      (\<exists>iv' out. length out = length input \<and>
        mbedtls_des3_crypt_cbc (mbedtls_des3_set2key_enc ctx sk key) True iv input = Inr (iv', out) \<and>
        mbedtls_des3_crypt_cbc (mbedtls_des3_set2key_dec ctx sk key) False iv out = Inr (iv', input)) \<and>
      (\<exists>iv' out. length out = length input \<and>
        mbedtls_des3_crypt_cbc (mbedtls_des3_set3key_enc ctx sk key) True iv input = Inr (iv', out) \<and>
        mbedtls_des3_crypt_cbc (mbedtls_des3_set3key_dec ctx sk key) False iv out = Inr (iv', input)))"
proof (intro conjI impI)
  assume "length input mod 8 = 0"
  note l = assms(1) this
  show "\<exists>iv' out. length out = length input \<and>
      mbedtls_des_crypt_cbc (mbedtls_des_setkey_enc key) True iv input = Inr (iv', out) \<and>
      mbedtls_des_crypt_cbc (mbedtls_des_setkey_dec key) False iv out = Inr (iv', input)"
    by (rule des.cbc_roundtrip [OF l, of key]) (use l in \<open>auto simp: mbedtls_des_crypt_cbc_def\<close>)
  show "\<exists>iv' out. length out = length input \<and>
      mbedtls_des3_crypt_cbc (mbedtls_des3_set2key_enc ctx sk key) True iv input = Inr (iv', out) \<and>
      mbedtls_des3_crypt_cbc (mbedtls_des3_set2key_dec ctx sk key) False iv out = Inr (iv', input)"
    by (rule block_cipher.cbc_roundtrip [OF des3_block_ciphers(1) [OF assms(2,3)] l, of key])
      (use l in \<open>auto simp: mbedtls_des3_crypt_cbc_def\<close>)
  show "\<exists>iv' out. length out = length input \<and>
      mbedtls_des3_crypt_cbc (mbedtls_des3_set3key_enc ctx sk key) True iv input = Inr (iv', out) \<and>
      mbedtls_des3_crypt_cbc (mbedtls_des3_set3key_dec ctx sk key) False iv out = Inr (iv', input)"
    by (rule block_cipher.cbc_roundtrip [OF des3_block_ciphers(2) [OF assms(2,3)] l, of key])
      (use l in \<open>auto simp: mbedtls_des3_crypt_cbc_def\<close>)
qed (simp_all add: mbedtls_des_crypt_cbc_def mbedtls_des3_crypt_cbc_def)

lemma cbc_modes_witness:
  "\<exists>iv' out. length out = 16 \<and>
    mbedtls_des_crypt_cbc (mbedtls_des_setkey_enc [1, 2, 3, 4, 5, 6, 7, 8]) True (replicate 8 0) (replicate 16 0xA5) = Inr (iv', out) \<and>
    mbedtls_des_crypt_cbc (mbedtls_des_setkey_dec [1, 2, 3, 4, 5, 6, 7, 8]) False (replicate 8 0) out = Inr (iv', replicate 16 0xA5)"
  using cbc_modes [of "replicate 8 0" "replicate 96 0" "replicate 96 0" "replicate 16 0xA5" "[]" True "[1, 2, 3, 4, 5, 6, 7, 8]"]
  by (simp only: length_replicate) simp

end
