(* ===== verification/Iclass_Keys.thy ===== *)
theory Iclass_Keys
  imports Cipher_Utils Des
begin

text \<open>
  The iCLASS key diversification, \<open>armsrc/optimized_ikeys.c\<close> and \<open>client/src/loclass/ikeys.c\<close>
  (the same text up to debug output), and the search for pre-images of \<open>hash0\<close> that only the
  client has. A \<open>uint64_t *\<close> that a function changes is an argument and the result. The index of
  a six-bit group is at most 7 in every call, so the shift distances of the code are not negative.
\<close>

definition pi :: "u8 list" where
  "pi = [0x0F, 0x17, 0x1B, 0x1D, 0x1E, 0x27, 0x2B, 0x2D, 0x2E, 0x33, 0x35, 0x39, 0x36, 0x3A, 0x3C, 0x47,
    0x4B, 0x4D, 0x4E, 0x53, 0x55, 0x56, 0x59, 0x5A, 0x5C, 0x63, 0x65, 0x66, 0x69, 0x6A, 0x6C, 0x71,
    0x72, 0x74, 0x78]"

definition getSixBitByte :: "u64 \<Rightarrow> nat \<Rightarrow> u8" where
  "getSixBitByte c n = ucast (shr c (42 - 6 * n) AND 0x3F)"

definition pushbackSixBitByte :: "u64 \<Rightarrow> u8 \<Rightarrow> nat \<Rightarrow> u64" where
  "pushbackSixBitByte c z n =
    (let masked = ucast (z AND 0x3F); eraser = 0x3F;
         masked = shl masked (42 - 6 * n);
         eraser = shl eraser (42 - 6 * n);
         eraser = NOT eraser
     in (c AND eraser) OR masked)"

definition swapZvalues :: "u64 \<Rightarrow> u64" where
  "swapZvalues c =
    (let newz = 0;
         newz = pushbackSixBitByte newz (getSixBitByte c 0) 7;
         newz = pushbackSixBitByte newz (getSixBitByte c 1) 6;
         newz = pushbackSixBitByte newz (getSixBitByte c 2) 5;
         newz = pushbackSixBitByte newz (getSixBitByte c 3) 4;
         newz = pushbackSixBitByte newz (getSixBitByte c 4) 3;
         newz = pushbackSixBitByte newz (getSixBitByte c 5) 2;
         newz = pushbackSixBitByte newz (getSixBitByte c 6) 1;
         newz = pushbackSixBitByte newz (getSixBitByte c 7) 0
     in newz OR (c AND 0xFFFF000000000000))"

text \<open>
  \<open>ck\<close> stops at \<open>i = 1\<close>, \<open>j = -1\<close>. Its calls start at \<open>(3, 2)\<close> and so never have a smaller \<open>i\<close>, for
  which the code would not return and the model stops as well.
\<close>

function ck :: "nat \<Rightarrow> int \<Rightarrow> u64 \<Rightarrow> u64" where
  "ck i j z =
    (if j < 0 then (if i \<le> 1 then z else ck (i - 1) (int i - 2) z)
     else if getSixBitByte z i = getSixBitByte z (nat j) then
       let newz = fold (\<lambda>c newz. let val = getSixBitByte z c in
              if c = i then pushbackSixBitByte newz (word_of_int j) c else pushbackSixBitByte newz val c) [0..<4] 0
       in ck i (j - 1) newz
     else ck i (j - 1) z)"
  by pat_completeness auto
termination by (relation "measures [\<lambda>(i, j, z). i, \<lambda>(i, j, z). nat (j + 1)]") auto

declare ck.simps [simp del]

definition check :: "u64 \<Rightarrow> u64" where
  "check z =
    (let ck1 = ck 3 2 z;
         ck2 = ck 3 2 (shl z 24);
         ck1 = ck1 AND 0x00000000FFFFFF000000;
         ck2 = ck2 AND 0x00000000FFFFFF000000
     in ck1 OR shr ck2 24)"

function permute :: "bitstream_in \<Rightarrow> u64 \<Rightarrow> nat \<Rightarrow> nat \<Rightarrow> bitstream_out \<Rightarrow> bitstream_out" where
  "permute p_in z l r out =
    (if bitsLeft p_in \<le> 0 then out
     else case tailBit p_in of (pn, p_in) \<Rightarrow>
       if pn then permute p_in z (l + 1) r (push6bits out (getSixBitByte z l + 1))
       else permute p_in z l (r + 1) (push6bits out (getSixBitByte z r)))"
  by pat_completeness auto
termination
  by (relation "measure (\<lambda>(p, z, l, r, out). in_numbits p - in_position p)") (auto simp: bitsLeft_def tailBit_def Let_def)

declare permute.simps [simp del]

text \<open>The byte \<open>k[i]\<close> of the key, from \<open>y\<close>, the permuted groups and the selector \<open>p\<close>.\<close>

definition hash0_byte :: "u8 \<Rightarrow> u64 \<Rightarrow> u8 \<Rightarrow> nat \<Rightarrow> u8" where
  "hash0_byte y zTilde p i =
    (let k = shl y (7 - i) AND 0x80;
         zTilde_i = shl (getSixBitByte zTilde i) 1;
         p_i = shr p i AND 0x1
     in if k \<noteq> 0 then ((k OR (NOT zTilde_i AND 0x7E)) OR (p_i AND 1)) + 1
        else (k OR (zTilde_i AND 0x7E)) OR (NOT p_i AND 1))"

definition hash0_mods :: "u64 \<Rightarrow> u64" where
  "hash0_mods c =
    fold (\<lambda>n zP.
        let zn = getSixBitByte c n; zn4 = getSixBitByte c (n + 4);
            zn' = (zn mod (63 - word_of_nat n)) + word_of_nat n;
            zn4' = (zn4 mod (64 - word_of_nat n)) + word_of_nat n
        in pushbackSixBitByte (pushbackSixBitByte zP zn' n) zn4' (n + 4)) [0..<4] 0"

definition hash0_p :: "u8 \<Rightarrow> u8" where
  "hash0_p x = (let p = pi ! (unat x mod 35) in if x AND 1 \<noteq> 0 then NOT p else p)"

definition hash0 :: "u64 \<Rightarrow> bytes" where
  "hash0 c =
    (let c = swapZvalues c;
         x = ucast (shr (c AND 0xFF00000000000000) 56) :: u8;
         y = ucast (shr (c AND 0x00FF000000000000) 48) :: u8;
         zP = hash0_mods c;
         zCaret = check zP;
         p = hash0_p x;
         p_in = \<lparr>in_buffer = [p], in_numbits = 8, in_position = 0\<rparr>;
         out = \<lparr>out_buffer = [0, 0, 0, 0, 0, 0, 0, 0], out_numbits = 0, out_position = 0\<rparr>;
         out = permute p_in zCaret 0 4 out;
         zTilde = x_bytes_to_num (out_buffer out) 8;
         zTilde = shr zTilde 16
     in map (hash0_byte y zTilde p) [0..<8])"

definition diversifyKey :: "bytes \<Rightarrow> bytes \<Rightarrow> bytes" where
  "diversifyKey csn key =
    (let ctx_enc = mbedtls_des_setkey_enc key;
         crypted_csn = mbedtls_des_crypt_ecb ctx_enc csn;
         c_csn = x_bytes_to_num crypted_csn 8
     in hash0 c_csn)"

subsection \<open>Pre-images\<close>

function reverse_ck :: "nat \<Rightarrow> int \<Rightarrow> u64 \<Rightarrow> u64" where
  "reverse_ck i j z =
    (if j < 0 then (if i \<le> 1 then z else reverse_ck (i - 1) (int i - 2) z)
     else if uint (getSixBitByte z i) = j then
       let newz = fold (\<lambda>c newz. let val = getSixBitByte z c in
              if c = i then pushbackSixBitByte newz (getSixBitByte z (nat j)) c else pushbackSixBitByte newz val c) [0..<4] 0
       in reverse_ck i (j - 1) newz
     else reverse_ck i (j - 1) z)"
  by pat_completeness auto
termination by (relation "measures [\<lambda>(i, j, z). i, \<lambda>(i, j, z). nat (j + 1)]") auto

declare reverse_ck.simps [simp del]

definition reverse_check :: "u64 \<Rightarrow> u64" where
  "reverse_check z =
    (let shifted_ck2_part = z AND 0x0000000000FFFFFF;
         ck2 = shl shifted_ck2_part 24;
         ck1 = z AND NOT (shr ck2 24);
         ck1 = reverse_ck 3 2 ck1;
         ck2 = reverse_ck 3 2 ck2
     in ck1 OR shr ck2 24)"

function reverse_permute ::
  "bitstream_in \<Rightarrow> u64 \<Rightarrow> nat \<Rightarrow> bitstream_out \<Rightarrow> bitstream_out \<Rightarrow> bool \<Rightarrow> bitstream_out \<times> bitstream_out" where
  "reverse_permute p_in z l out1 out2 fix' =
    (if bitsLeft p_in \<le> 0 then (out1, out2)
     else case tailBit p_in of (pn, p_in) \<Rightarrow>
       if pn then
         let zl = getSixBitByte z l
         in reverse_permute p_in z (l + 1) (push6bits out1 (if fix' then zl - 1 else zl)) out2 fix'
       else
         let zr = getSixBitByte z l
         in reverse_permute p_in z (l + 1) out1 (push6bits out2 zr) fix')"
  by pat_completeness auto
termination
  by (relation "measure (\<lambda>(p, z, l, o1, o2, f). in_numbits p - in_position p)") (auto simp: bitsLeft_def tailBit_def Let_def)

declare reverse_permute.simps [simp del]

definition find_p_in_pi :: "u8 \<Rightarrow> int" where
  "find_p_in_pi p = (case List.find (\<lambda>i. pi ! i = p) [0..<35] of Some i \<Rightarrow> int i | None \<Rightarrow> -1)"

text \<open>The fields of the key that the search reads back: \<open>y\<close>, the six-bit groups and the selector.\<close>

definition invert_fields :: "bytes \<Rightarrow> u8 \<times> u64 \<times> u8" where
  "invert_fields k =
    fold (\<lambda>i (y, zTilde, p).
        (y OR shr (k ! i AND 0x80) (7 - i),
         pushbackSixBitByte zTilde (shr (k ! i AND 0x7E) 1) i,
         p OR shl (k ! i AND 0x01) i)) [0..<8] (0, 0, 0)"

definition invert_group :: "bytes \<Rightarrow> u64 \<Rightarrow> u8 \<Rightarrow> nat \<Rightarrow> u8" where
  "invert_group k zTilde pc i =
    (let p_i = shr pc i AND 0x1;
         zTilde_i = shl (getSixBitByte zTilde i) 1
     in if k ! i AND 0x80 \<noteq> 0
        then NOT (if p_i \<noteq> 0 then zTilde_i - 1 else zTilde_i)
        else zTilde_i OR (p_i AND 0x1))"

definition zeroed_out :: bitstream_out where
  "zeroed_out = \<lparr>out_buffer = [0, 0, 0, 0, 0, 0, 0, 0], out_numbits = 0, out_position = 0\<rparr>"

text \<open>One run of \<open>reverse_permute\<close> and the two shifts that join its halves.\<close>

definition unpermute :: "u8 \<Rightarrow> u64 \<Rightarrow> bool \<Rightarrow> u64" where
  "unpermute p z fix' =
    (let (out1, out2) = reverse_permute \<lparr>in_buffer = [p], in_numbits = 8, in_position = 0\<rparr> z 0 zeroed_out zeroed_out fix'
     in shr (x_bytes_to_num (out_buffer out1) 8) 16 OR shr (x_bytes_to_num (out_buffer out2) 8) 40)"

definition invert_mods :: "u64 \<Rightarrow> u64" where
  "invert_mods zP =
    fold (\<lambda>n c.
        let zn' = getSixBitByte zP n; zn4' = getSixBitByte zP (n + 4);
            zn = (zn' + (63 - 2 * word_of_nat n)) mod (63 - word_of_nat n);
            zn4 = (zn4' + (64 - 2 * word_of_nat n)) mod (64 - word_of_nat n)
        in pushbackSixBitByte (pushbackSixBitByte c zn n) zn4 (n + 4)) [0..<4] 0"

definition hydra_lil_spawns :: "u8 list" where "hydra_lil_spawns = [0x00, 0x01, 0x02, 0x03]"
definition hydra_big_spawns :: "u8 list" where "hydra_big_spawns = [0x3f, 0x3e, 0x3d, 0x3c]"

text \<open>The last index that matches wins, as in the loop over the four spawns; 0 when none does.\<close>

definition spawn :: "u8 list \<Rightarrow> u8 list \<Rightarrow> u8 \<Rightarrow> u8" where
  "spawn from to h = fold (\<lambda>fh s. if from ! fh = h then to ! fh else s) [0..<4] 0"

definition hydra_round :: "u64 \<Rightarrow> nat \<Rightarrow> u64 list \<Rightarrow> u64 list" where
  "hydra_round c n heads =
    (let h = getSixBitByte c n in
     if unat h \<le> n mod 4 \<or> 63 - n mod 4 \<le> unat h then
       let (small, big) =
         (if unat h \<le> n mod 4 then (h, spawn hydra_lil_spawns hydra_big_spawns h)
          else (spawn hydra_big_spawns hydra_lil_spawns h, h))
       in map (\<lambda>v. pushbackSixBitByte v big n) heads @ map (\<lambda>v. pushbackSixBitByte v small n) heads
     else map (\<lambda>v. pushbackSixBitByte v h n) heads)"

definition hydra_heads :: "u64 \<Rightarrow> u64 list" where
  "hydra_heads c = fold (hydra_round c) [0..<8] [0]"

text \<open>
  The candidates for one value of \<open>x\<close>, and the pre-images that are reported: those candidates
  that \<open>hash0\<close> maps to the key. Failing allocations, after which the search returns, are not
  modelled.
\<close>

definition invert_candidates :: "bytes \<Rightarrow> u8 \<Rightarrow> u64 \<Rightarrow> u8 \<Rightarrow> u8 \<Rightarrow> u64 list" where
  "invert_candidates k y zTilde p x =
    (let pc = (if x AND 1 \<noteq> 0 then NOT p else p);
         zTil = fold (\<lambda>i img. pushbackSixBitByte img (shr (invert_group k zTilde pc i) 1) i) [0..<8] zTilde;
         zCaret = unpermute pc zTil False;
         zCaret_fixed = unpermute 0x0F zCaret True;
         zP = reverse_check zCaret_fixed;
         c = invert_mods zP
     in map (\<lambda>v. swapZvalues ((v OR shl (ucast x) 56) OR shl (ucast y) 48)) (hydra_heads c))"

definition invert_hash0 :: "bytes \<Rightarrow> u64 list" where
  "invert_hash0 k =
    (let (y, zTilde, p) = invert_fields k;
         remainder = find_p_in_pi p;
         (p, remainder) = (if remainder < 0 then (NOT p, find_p_in_pi (NOT p)) else (p, remainder));
         x_array = filter (\<lambda>x. int x mod 35 = remainder) [0..<256]
     in concat (map (\<lambda>x. filter (\<lambda>z. hash0 z = k) (invert_candidates k y zTilde p (word_of_nat x))) x_array))"

end
