(* ===== verification/Iclass_Keys_Laws.thy ===== *)
theory Iclass_Keys_Laws
  imports Iclass_Keys Des_Laws
begin

text \<open>
  The key diversification against the definitions of its description, on lists of six-bit
  numbers: what \<open>hash0\<close> computes, which shape its keys have, and what the pre-image search
  reports.
\<close>

subsection \<open>Six-bit groups\<close>

lemma u8_group: "w AND 0x3F = take_bit 6 (w :: 'a::len word)"
  by (rule and_masks)

lemma bit_get: "n < 8 \<Longrightarrow> bit (getSixBitByte c n) k \<longleftrightarrow> k < 6 \<and> bit c (42 - 6 * n + k)"
  by (auto simp: getSixBitByte_def u8_group word_bits)

lemma bit_push:
  assumes "n < 8"
  shows "bit (pushbackSixBitByte c z n) k \<longleftrightarrow>
    (if 42 - 6 * n \<le> k \<and> k < 48 - 6 * n then bit z (k - (42 - 6 * n)) else bit c k)"
proof -
  have m: "0x3F = (mask 6 :: u64)" by (simp add: mask_eq_exp_minus_1)
  have "n = 0 \<or> n = 1 \<or> n = 2 \<or> n = 3 \<or> n = 4 \<or> n = 5 \<or> n = 6 \<or> n = 7" using assms by linarith
  then show ?thesis
    unfolding pushbackSixBitByte_def Let_def m u8_group
    by (elim disjE) (auto simp: word_bits dest: bit_imp_le_length)
qed

lemma get_push [simp]:
  assumes "n < 8" "m < 8"
  shows "getSixBitByte (pushbackSixBitByte c z n) m = (if m = n then z AND 0x3F else getSixBitByte c m)"
proof (rule u8_eqI)
  fix k :: nat assume "k < 8"
  have d: "m \<noteq> n \<Longrightarrow> k < 6 \<Longrightarrow> \<not> (42 - 6 * n \<le> 42 - 6 * m + k \<and> 42 - 6 * m + k < 48 - 6 * n)"
    using assms by linarith
  show "bit (getSixBitByte (pushbackSixBitByte c z n) m) k =
      bit (if m = n then z AND 0x3F else getSixBitByte c m) k"
    using assms d by (auto simp: bit_get bit_push u8_group bit_take_bit_iff)
qed

lemma get_less: "n < 8 \<Longrightarrow> unat (getSixBitByte c n) < 64"
  using unat_lt_bits [of 6 "getSixBitByte c n"] by (simp add: bit_get)

lemma and_3F_small:
  assumes "unat (z :: u8) < 64"
  shows "z AND 0x3F = z"
proof (rule bit_word_eqI)
  fix n
  have "\<not> bit z n" if "6 \<le> n" using bit_lt_mask [of z 6 n] assms that by simp
  then show "bit (z AND 0x3F) n = bit z n" by (cases "n < 6") (auto simp: u8_group bit_take_bit_iff)
qed

lemma get_0 [simp]: "n < 8 \<Longrightarrow> getSixBitByte 0 n = 0"
  by (rule u8_eqI) (simp add: bit_get)

subsection \<open>Scrambling\<close>

text \<open>Definition 8 of the description, on a list of four numbers.\<close>

function ck_list :: "nat \<Rightarrow> int \<Rightarrow> nat list \<Rightarrow> nat list" where
  "ck_list i j zs =
    (if j < 0 then (if i \<le> 1 then zs else ck_list (i - 1) (int i - 2) zs)
     else if zs ! i = zs ! nat j then ck_list i (j - 1) (zs[i := nat j]) else ck_list i (j - 1) zs)"
  by pat_completeness auto
termination by (relation "measures [\<lambda>(i, j, z). i, \<lambda>(i, j, z). nat (j + 1)]") auto

declare ck_list.simps [simp del]

definition quad :: "u64 \<Rightarrow> nat list" where
  "quad z = map (\<lambda>n. unat (getSixBitByte z n)) [0..<4]"

lemma length_quad [simp]: "length (quad z) = 4"
  by (simp add: quad_def)

lemma quad_nth: "n < 4 \<Longrightarrow> quad z ! n = unat (getSixBitByte z n)"
  by (simp add: quad_def)

lemma upt_4: "[0..<4] = [0, 1, 2, 3]"
  by code_simp

text \<open>Rebuilding the four groups with one of them replaced.\<close>

lemma quad_rebuild:
  assumes "i < 4"
  shows "quad (fold (\<lambda>c newz. let val = getSixBitByte z c in
      if c = i then pushbackSixBitByte newz v c else pushbackSixBitByte newz val c) [0..<4] 0) =
    (quad z)[i := unat (v AND 0x3F)]"
proof -
  have "getSixBitByte z n AND 0x3F = getSixBitByte z n" if "n < 4" for n
    using get_less [of n z] that by (intro and_3F_small) simp_all
  moreover have "i = 0 \<or> i = 1 \<or> i = 2 \<or> i = 3" using assms by linarith
  ultimately show ?thesis
    unfolding quad_def upt_4 by (elim disjE) (simp_all add: Let_def)
qed

lemma quad_ck: "i < 4 \<Longrightarrow> j < 4 \<Longrightarrow> quad (ck i j z) = ck_list i j (quad z)"
proof (induction i j z rule: ck.induct)
  case (1 i j z)
  show ?case
  proof (cases "j < 0")
    case True
    then show ?thesis
      using 1 by (subst ck.simps, subst ck_list.simps) simp
  next
    case False
    then have "j = 0 \<or> j = 1 \<or> j = 2 \<or> j = 3" using \<open>j < 4\<close> by linarith
    then have j: "nat j < 4" "unat (word_of_int j AND 0x3F :: u8) = nat j" by auto
    show ?thesis
      using 1 False j quad_rebuild [of i z "word_of_int j"]
      by (subst ck.simps, subst ck_list.simps) (simp add: quad_nth Let_def word_unat_eq_iff)
  qed
qed

text \<open>The scramble written out, and what it establishes.\<close>

lemma ck_list_steps:
  "ck_list 3 2 [a, b, c, d] = ck_list 3 1 [a, b, c, if d = c then 2 else d]"
  "ck_list 3 1 [a, b, c, d] = ck_list 3 0 [a, b, c, if d = b then 1 else d]"
  "ck_list 3 0 [a, b, c, d] = ck_list 3 (-1) [a, b, c, if d = a then 0 else d]"
  "ck_list 3 (-1) [a, b, c, d] = ck_list 2 1 [a, b, c, d]"
  "ck_list 2 1 [a, b, c, d] = ck_list 2 0 [a, b, if c = b then 1 else c, d]"
  "ck_list 2 0 [a, b, c, d] = ck_list 2 (-1) [a, b, if c = a then 0 else c, d]"
  "ck_list 2 (-1) [a, b, c, d] = ck_list 1 0 [a, b, c, d]"
  "ck_list 1 0 [a, b, c, d] = ck_list 1 (-1) [a, if b = a then 0 else b, c, d]"
  "ck_list 1 (-1) [a, b, c, d] = [a, b, c, d]"
  by (subst ck_list.simps, simp)+

lemma ck_list_32:
  "ck_list 3 2 [a, b, c, d] =
    (let d = (if d = c then 2 else d); d = (if d = b then 1 else d); d = (if d = a then 0 else d);
         c = (if c = b then 1 else c); c = (if c = a then 0 else c);
         b = (if b = a then 0 else b)
     in [a, b, c, d])"
  unfolding ck_list_steps Let_def ..

lemma ck_list_distinct:
  assumes "1 \<le> b" "2 \<le> c" "3 \<le> d"
  shows "distinct (ck_list 3 2 [a, b, c, d])"
  using assms unfolding ck_list_32 Let_def by auto

lemma ck_list_bounded:
  assumes "a < m" "b < m" "c < m" "d < m" "3 \<le> m"
  shows "\<forall>z\<in>set (ck_list 3 2 [a, b, c, d]). z < m"
  using assms unfolding ck_list_32 Let_def by auto

subsection \<open>The groups of the intermediate values\<close>

definition quad4 :: "u64 \<Rightarrow> nat list" where
  "quad4 z = map (\<lambda>n. unat (getSixBitByte z (n + 4))) [0..<4]"

lemma length_quad4 [simp]: "length (quad4 z) = 4"
  by (simp add: quad4_def)

lemma bit_check:
  "bit (check z) k \<longleftrightarrow> (if 24 \<le> k \<and> k < 48 then bit (ck 3 2 z) k else k < 24 \<and> bit (ck 3 2 (shl z 24)) (k + 24))"
proof -
  have m: "0x00000000FFFFFF000000 = (shl (mask 24) 24 :: u64)" by (simp add: mask_eq_exp_minus_1)
  show ?thesis
    unfolding check_def Let_def m
    by (simp only: bit_or_iff bit_drop_bit_eq bit_and_iff bit_push_bit_iff bit_mask_iff comp_def)
      (auto simp: add.commute dest: bit_imp_le_length)
qed

lemma get_check:
  assumes "n < 4"
  shows "getSixBitByte (check z) n = getSixBitByte (ck 3 2 z) n"
    and "getSixBitByte (check z) (n + 4) = getSixBitByte (ck 3 2 (shl z 24)) n"
proof -
  have "n = 0 \<or> n = 1 \<or> n = 2 \<or> n = 3" using assms by linarith
  then show "getSixBitByte (check z) n = getSixBitByte (ck 3 2 z) n"
    "getSixBitByte (check z) (n + 4) = getSixBitByte (ck 3 2 (shl z 24)) n"
    by (intro u8_eqI; elim disjE; auto simp: bit_get bit_check add.commute)+
qed

lemma get_shl_24: "n < 4 \<Longrightarrow> getSixBitByte (shl z 24) n = getSixBitByte z (n + 4)"
  by (rule u8_eqI) (auto simp: bit_get word_bits intro: arg_cong [where f = "bit z"])

lemma quad4_nth: "n < 4 \<Longrightarrow> quad4 z ! n = unat (getSixBitByte z (n + 4))"
  by (simp add: quad4_def)

lemma quads_check: "quad (check z) = ck_list 3 2 (quad z)" "quad4 (check z) = ck_list 3 2 (quad4 z)"
proof -
  have "quad (check z) = quad (ck 3 2 z)"
    by (rule nth_equalityI) (simp_all add: quad_nth get_check)
  then show "quad (check z) = ck_list 3 2 (quad z)"
    by (simp add: quad_ck)
  have "quad4 (check z) = quad (ck 3 2 (shl z 24))" "quad (shl z 24) = quad4 z"
    by (rule nth_equalityI; simp add: quad_nth quad4_nth get_check get_shl_24)+
  then show "quad4 (check z) = ck_list 3 2 (quad4 z)"
    by (simp add: quad_ck)
qed

text \<open>The moduli.\<close>

definition z_prime :: "nat \<Rightarrow> nat list \<Rightarrow> nat list" where
  "z_prime m zs = map (\<lambda>n. zs ! n mod (m - n) + n) [0..<4]"

lemma unat_group_mod:
  assumes "unat (x :: u8) < 64" "n < 4" "m = 63 \<or> m = 64"
  shows "unat ((x mod (of_nat m - word_of_nat n) + word_of_nat n) AND 0x3F) = unat x mod (m - n) + n"
proof -
  have k: "unat (of_nat m - word_of_nat n :: u8) = m - n" "unat (word_of_nat n :: u8) = n" "n < m"
    using assms(2,3) by (auto simp: unat_sub_if' unat_of_nat)
  have "unat x mod (m - n) < m - n" using k(3) by simp
  then have l: "unat x mod (m - n) + n < 64" using assms(3) k(3) by linarith
  then have u: "unat (x mod (of_nat m - word_of_nat n) + word_of_nat n) = unat x mod (m - n) + n"
    by (simp add: unat_word_ariths unat_mod_distrib k)
  with l show ?thesis by (simp only: and_3F_small)
qed

lemma get_two_pushes:
  "n < 4 \<Longrightarrow> getSixBitByte (fold (\<lambda>n z. pushbackSixBitByte (pushbackSixBitByte z (a n) n) (b n) (n + 4)) [0..<4] v) n = a n AND 0x3F"
  "n < 4 \<Longrightarrow> getSixBitByte (fold (\<lambda>n z. pushbackSixBitByte (pushbackSixBitByte z (a n) n) (b n) (n + 4)) [0..<4] v) (n + 4) = b n AND 0x3F"
proof -
  assume "n < 4"
  then have "n = 0 \<or> n = 1 \<or> n = 2 \<or> n = 3" by linarith
  then show "getSixBitByte (fold (\<lambda>n z. pushbackSixBitByte (pushbackSixBitByte z (a n) n) (b n) (n + 4)) [0..<4] v) n = a n AND 0x3F"
    "getSixBitByte (fold (\<lambda>n z. pushbackSixBitByte (pushbackSixBitByte z (a n) n) (b n) (n + 4)) [0..<4] v) (n + 4) = b n AND 0x3F"
    unfolding upt_4 by auto
qed

lemma quads_mods: "quad (hash0_mods c) = z_prime 63 (quad c)" "quad4 (hash0_mods c) = z_prime 64 (quad4 c)"
  by (rule nth_equalityI; simp add: quad_nth quad4_nth z_prime_def hash0_mods_def Let_def get_two_pushes
      unat_group_mod [where m = 63, simplified] unat_group_mod [where m = 64, simplified] get_less)+

subsection \<open>Permuting\<close>

lemma unat_plus_1: "unat (w :: u8) < 255 \<Longrightarrow> unat (w + 1) = Suc (unat w)"
  by (simp add: unat_word_ariths)

text \<open>The order in which the two quadruples are consumed: a set selector bit takes from the first.\<close>

fun pseq :: "bool list \<Rightarrow> nat list \<Rightarrow> nat list \<Rightarrow> nat list" where
  "pseq (True # ps) (l # ls) rs = Suc l # pseq ps ls rs"
| "pseq (False # ps) ls (r # rs) = r # pseq ps ls rs"
| "pseq _ _ _ = []"

definition bits6 :: "nat \<Rightarrow> bool list" where
  "bits6 v = map (bit v) [5, 4, 3, 2, 1, 0]"

lemma length_bits6 [simp]: "length (bits6 v) = 6"
  by (simp add: bits6_def)

lemma push6_out:
  assumes "out_ok out" "out_position out + 6 \<le> 8 * length (out_buffer out)"
  shows "out_ok (push6bits out w)" "out_bits (push6bits out w) = out_bits out @ bits6 (unat w)"
    "out_position (push6bits out w) = out_position out + 6"
    "length (out_buffer (push6bits out w)) = length (out_buffer out)"
proof -
  have "map (bit w) [5, 4, 3, 2, 1, 0] = bits6 (unat w)"
    by (simp add: bits6_def bit_unsigned_iff del: bit_0)
  then show "out_ok (push6bits out w)" "out_bits (push6bits out w) = out_bits out @ bits6 (unat w)"
    "out_position (push6bits out w) = out_position out + 6"
    "length (out_buffer (push6bits out w)) = length (out_buffer out)"
    using fold_pushBit [OF assms(1), of "map (bit w) [5, 4, 3, 2, 1, 0]"] assms(2)
    unfolding push6bits_fold by simp_all
qed

lemma permute_pseq:
  assumes "out_ok out" "out_position out + 6 * length (tail_left p_in) \<le> 8 * length (out_buffer out)"
    and "count_list (tail_left p_in) True + l \<le> 4" "count_list (tail_left p_in) False + r \<le> 8" "4 \<le> r"
    and "\<forall>n<4. unat (getSixBitByte z n) < 63"
  shows "out_bits (permute p_in z l r out) =
      out_bits out @ concat (map bits6 (pseq (tail_left p_in) (drop l (quad z)) (drop (r - 4) (quad4 z)))) \<and>
    length (out_buffer (permute p_in z l r out)) = length (out_buffer out)"
  using assms
proof (induction p_in z l r out rule: permute.induct)
  case (1 p_in z l r out)
  show ?case
  proof (cases "tail_left p_in")
    case Nil
    then have "\<not> bitsLeft p_in > 0" using length_left(2) [of p_in] by (simp add: bitsLeft_def)
    then show ?thesis using Nil by (simp add: permute.simps [of p_in z l r out])
  next
    case (Cons b ps)
    obtain p' where t: "tailBit p_in = (b, p')" "tail_left p' = ps"
      using tail_pop_left [OF Cons] by (cases "tailBit p_in") auto
    have bl: "\<not> bitsLeft p_in \<le> 0" using length_left(2) [of p_in] Cons by (simp add: bitsLeft_def)
    have room: "out_position out + 6 \<le> 8 * length (out_buffer out)" using 1(4) Cons by simp
    note o = push6_out [OF 1(3) room]
    show ?thesis
    proof (cases b)
      case True
      have l: "l < 4" using 1(5) Cons True by simp
      then have d: "drop l (quad z) = unat (getSixBitByte z l) # drop (Suc l) (quad z)"
        using Cons_nth_drop_Suc [of l "quad z"] by (simp add: quad_nth)
      have "unat (getSixBitByte z l) < 63" using 1(8) l by simp
      then have u: "unat (getSixBitByte z l + 1) = Suc (unat (getSixBitByte z l))"
        by (intro unat_plus_1) simp
      have "permute p_in z l r out = permute p' z (l + 1) r (push6bits out (getSixBitByte z l + 1))"
        using bl t True by (subst permute.simps) simp
      moreover have "out_bits (permute p' z (l + 1) r (push6bits out (getSixBitByte z l + 1))) =
          out_bits (push6bits out (getSixBitByte z l + 1)) @
          concat (map bits6 (pseq ps (drop (l + 1) (quad z)) (drop (r - 4) (quad4 z)))) \<and>
        length (out_buffer (permute p' z (l + 1) r (push6bits out (getSixBitByte z l + 1)))) =
          length (out_buffer (push6bits out (getSixBitByte z l + 1)))"
        using 1(1) [OF bl t(1) [symmetric] True] 1(4-8) o Cons True t(2) by simp
      ultimately show ?thesis
        using o(2,4) Cons True u by (simp add: d)
    next
      case False
      have d: "drop (r - 4) (quad4 z) = unat (getSixBitByte z r) # drop (Suc r - 4) (quad4 z)"
      proof -
        have "r < 8" using 1(6) Cons False by simp
        moreover obtain r' where "r = r' + 4" using 1(7) by (metis le_add_diff_inverse2)
        ultimately show ?thesis
          using Cons_nth_drop_Suc [of r' "quad4 z"] by (simp add: quad4_nth)
      qed
      have "permute p_in z l r out = permute p' z l (r + 1) (push6bits out (getSixBitByte z r))"
        using bl t False by (subst permute.simps) simp
      moreover have "out_bits (permute p' z l (r + 1) (push6bits out (getSixBitByte z r))) =
          out_bits (push6bits out (getSixBitByte z r)) @
          concat (map bits6 (pseq ps (drop l (quad z)) (drop (r + 1 - 4) (quad4 z)))) \<and>
        length (out_buffer (permute p' z l (r + 1) (push6bits out (getSixBitByte z r)))) =
          length (out_buffer (push6bits out (getSixBitByte z r)))"
        using 1(2) [OF bl t(1) [symmetric] False] 1(4-8) o Cons False t(2) by simp
      ultimately show ?thesis
        using o(2,4) Cons False d by simp
    qed
  qed
qed

text \<open>The groups are read back from the output buffer.\<close>

lemma numeral_64: "(64 :: nat) = 2 ^ 6"
  by simp

lemma mirror_63: "m < 64 \<Longrightarrow> (63 - m) div 8 = 7 - m div 8 \<and> 7 - (63 - m) mod 8 = m mod 8" for m :: nat
  by (rule less_list_all [where P = "\<lambda>m. (63 - m) div 8 = 7 - m div 8 \<and> 7 - (63 - m) mod 8 = m mod 8"], assumption)
    code_simp

lemma get_of_buffer:
  assumes "length buf = 8" "bits_be buf = concat (map bits6 vs) @ rest" "length vs = 8" "i < 8" "vs ! i < 64"
  shows "unat (getSixBitByte (shr (x_bytes_to_num buf 8) 16) i) = vs ! i"
proof -
  have "bit (getSixBitByte (shr (x_bytes_to_num buf 8) 16) i) j \<longleftrightarrow> j < 6 \<and> bit (vs ! i) j" for j
  proof (cases "j < 6")
    case True
    let ?k = "16 + (42 - 6 * i + j)"
    have k: "?k < 64" "63 - ?k = 6 * i + (5 - j)" "6 * i + (5 - j) < 64" using assms(4) True by simp_all
    have "bit (getSixBitByte (shr (x_bytes_to_num buf 8) 16) i) j = bit (buf ! (7 - ?k div 8)) (?k mod 8)"
      using assms(1,4) True k by (simp add: bit_get bit_drop_bit_eq x_bytes_to_num_def bytes_to_num_bit)
    also have "\<dots> = mbit buf (63 - ?k)"
    proof -
      show ?thesis using mirror_63 [OF k(1)] by (simp add: mbit_def del: diff_diff_left)
    qed
    also have "\<dots> = (concat (map bits6 vs) @ rest) ! (6 * i + (5 - j))"
      unfolding k(2) assms(2) [symmetric] bits_be_mbit assms(1) using k(3) by simp
    also have "\<dots> = concat (map bits6 vs) ! (6 * i + (5 - j))"
      using assms(3,4) True k(3) by (simp add: nth_append length_concat comp_def sum_list_triv del: diff_add_assoc2 Nat.diff_add_assoc2) linarith
    also have "\<dots> = bits6 (vs ! i) ! (5 - j)"
    proof -
      have "i < length vs \<Longrightarrow> m < 6 \<Longrightarrow> concat (map bits6 vs) ! (6 * i + m) = bits6 (vs ! i) ! m" for i m and vs
        by (induction vs arbitrary: i) (auto simp: nth_append less_Suc_eq_0_disj)
      from this [of i vs "5 - j"] show ?thesis using assms(3,4) True by (simp del: Nat.add_diff_assoc Nat.diff_add_assoc2)
    qed
    also have "\<dots> = bit (vs ! i) j"
    proof -
      have "j = 0 \<or> j = 1 \<or> j = 2 \<or> j = 3 \<or> j = 4 \<or> j = 5" using True by linarith
      then show ?thesis by (elim disjE) (simp_all add: bits6_def del: bit_0)
    qed
    finally show ?thesis using True by simp
  qed (simp add: bit_get assms(4))
  moreover have "bit (vs ! i) j \<Longrightarrow> j < 6" for j
    using assms(5) take_bit_nat_eq_self [of "vs ! i" 6] by (metis bit_take_bit_iff numeral_64)
  ultimately show ?thesis
    by (intro bit_eqI) (auto simp: bit_unsigned_iff dest: bit_imp_le_length)
qed

subsection \<open>Selectors\<close>

text \<open>The 35 selectors have four set bits and a clear top bit, and are all bytes with that property.\<close>

definition selector :: "nat \<Rightarrow> bool list" where
  "selector x = map (\<lambda>i. bit (pi ! (x mod 35)) i \<noteq> odd x) [0..<8]"

lemma pi_weight: "q \<in> set pi \<Longrightarrow>
  count_list (map (bit q) [0..<8]) True = 4 \<and> count_list (map (bit (NOT q)) [0..<8]) True = 4 \<and> \<not> bit q 7"
proof -
  have "list_all (\<lambda>q. count_list (map (bit q) [0..<8]) True = 4 \<and> count_list (map (bit (NOT q)) [0..<8]) True = 4 \<and> \<not> bit q 7) pi"
    unfolding pi_def upt_8 by (simp add: bit_not_iff)
  moreover assume "q \<in> set pi"
  ultimately show "count_list (map (bit q) [0..<8]) True = 4 \<and> count_list (map (bit (NOT q)) [0..<8]) True = 4 \<and> \<not> bit q 7"
    unfolding list_all_iff by (rule bspec)
qed

lemma pi_mem: "pi ! (x mod 35) \<in> set pi"
  by (rule nth_mem) (simp add: pi_def)

lemma selector_p: "map (bit (hash0_p x)) [0..<8] = selector (unat x)"
proof -
  have "odd x = odd (unat x)" by (simp flip: bit_0 add: bit_unsigned_iff)
  then show ?thesis by (auto simp: hash0_p_def selector_def Let_def and_one_eq mod_2_eq_odd bit_not_iff)
qed

lemma count_selector: "count_list (selector x) True = 4" "count_list (selector x) False = 4"
proof -
  have s: "selector x = map (bit (if odd x then NOT (pi ! (x mod 35)) else pi ! (x mod 35))) [0..<8]"
    by (auto simp: selector_def bit_not_iff)
  then show t: "count_list (selector x) True = 4"
    using pi_weight [OF pi_mem, of x] by simp
  have "count_list bs True + count_list bs False = length bs" for bs
    by (induction bs) auto
  from this [of "selector x"] t show "count_list (selector x) False = 4"
    by (simp add: selector_def)
qed

lemma length_selector [simp]: "length (selector x) = 8"
  by (simp add: selector_def)

lemma length_pseq:
  "count_list ps True = length ls \<Longrightarrow> count_list ps False = length rs \<Longrightarrow> length (pseq ps ls rs) = length ps"
proof (induction ps arbitrary: ls rs)
  case (Cons b ps)
  then show ?case by (cases b; cases ls; cases rs) auto
qed simp

lemma pseq_split:
  "count_list ps True = length ls \<Longrightarrow> count_list ps False = length rs \<Longrightarrow>
    map snd (filter fst (zip ps (pseq ps ls rs))) = map Suc ls \<and>
    map snd (filter (Not \<circ> fst) (zip ps (pseq ps ls rs))) = rs"
proof (induction ps arbitrary: ls rs)
  case (Cons b ps)
  then show ?case by (cases b; cases ls; cases rs) auto
qed simp

lemma pseq_bounded: "\<forall>l\<in>set ls. Suc l < m \<Longrightarrow> \<forall>r\<in>set rs. r < m \<Longrightarrow> \<forall>v\<in>set (pseq ps ls rs). v < m"
  by (induction ps ls rs rule: pseq.induct) auto

lemma tail_left_byte: "tail_left \<lparr>in_buffer = [p], in_numbits = 8, in_position = 0\<rparr> = map (bit p) [0..<8]"
  by (simp add: tail_left_def mbit_def upt_8)

subsection \<open>The bytes of the key\<close>

definition key_byte :: "bool \<Rightarrow> bool \<Rightarrow> nat \<Rightarrow> nat" where
  "key_byte yi s v = (if yi then 128 + 2 * (if s then 64 - v else 63 - v) else 2 * v) + of_bool (\<not> s)"

lemma hash0_byte_key_byte:
  assumes "i < 8" "unat (getSixBitByte zT i) = v" "bit p i \<longrightarrow> v \<noteq> 0"
  shows "unat (hash0_byte y zT p i) = key_byte (bit y i) (bit p i) v"
proof -
  have v: "v < 64" "getSixBitByte zT i = word_of_nat v"
    using get_less [OF assms(1), of zT] assms(2) by auto
  have y: "shl y (7 - i) AND 0x80 = (if bit y i then 0x80 else 0)"
    by (rule u8_eqI, erule less_8_cases) (use assms(1) in \<open>auto simp: word_bits elim!: less_8_cases\<close>)
  have p: "shr p i AND 0x1 = of_bool (bit p i)"
    by (rule shr_and_1)
  have "list_all (\<lambda>v. unat (((0x80 OR (NOT (shl (word_of_nat v) 1) AND 0x7E)) OR 0) + 1 :: u8) = key_byte True False v) [0..<64]"
    "list_all (\<lambda>v. v \<noteq> 0 \<longrightarrow> unat (((0x80 OR (NOT (shl (word_of_nat v) 1) AND 0x7E)) OR 1) + 1 :: u8) = key_byte True True v) [0..<64]"
    "list_all (\<lambda>v. unat ((0 OR (shl (word_of_nat v) 1 AND 0x7E)) OR 1 :: u8) = key_byte False False v) [0..<64]"
    "list_all (\<lambda>v. unat ((0 OR (shl (word_of_nat v) 1 AND 0x7E)) OR 0 :: u8) = key_byte False True v) [0..<64]"
    by code_simp+
  then show ?thesis
    using v(1) assms(3) unfolding hash0_byte_def Let_def y p v(2)
    by (cases "bit y i"; cases "bit p i") (simp_all add: list_all_iff)
qed

subsection \<open>\<open>hash0\<close>\<close>

text \<open>
  The definition of \<open>hash0\<close> in the description (Definition 11): on \<open>x\<close>, \<open>y\<close> and eight numbers of
  six bits.
\<close>

definition hash0_def11 :: "nat \<Rightarrow> nat \<Rightarrow> nat list \<Rightarrow> nat list" where
  "hash0_def11 x y zs =
    (let zh = ck_list 3 2 (z_prime 63 (take 4 zs)); zh4 = ck_list 3 2 (z_prime 64 (drop 4 zs));
         zt = pseq (selector x) zh zh4
     in map (\<lambda>i. key_byte (bit y i) (selector x ! i) (zt ! i)) [0..<8])"

lemma bit_swap_high: "48 \<le> k \<Longrightarrow> bit (swapZvalues c) k = bit c k"
proof -
  have m: "(0xFFFF000000000000 :: u64) = shl (mask 16) 48" by (simp add: mask_eq_exp_minus_1)
  show "48 \<le> k \<Longrightarrow> bit (swapZvalues c) k = bit c k"
    unfolding swapZvalues_def Let_def m
    by (auto simp: bit_push bit_or_iff bit_and_iff bit_push_bit_iff bit_mask_iff dest: bit_imp_le_length)
qed

lemma swap_get:
  assumes "n < 8"
  shows "getSixBitByte (swapZvalues c) n = getSixBitByte c (7 - n)"
proof -
  have m: "(0xFFFF000000000000 :: u64) = shl (mask 16) 48" by (simp add: mask_eq_exp_minus_1)
  have o: "getSixBitByte (w OR (c AND 0xFFFF000000000000)) n = getSixBitByte w n" for w
    unfolding m by (rule u8_eqI) (use assms in \<open>auto simp: bit_get bit_or_iff bit_and_iff bit_push_bit_iff\<close>)
  have g: "getSixBitByte c k AND 0x3F = getSixBitByte c k" if "k < 8" for k
    using get_less [OF that] by (rule and_3F_small)
  show ?thesis
    unfolding swapZvalues_def Let_def o using assms by (elim less_8_cases) (simp_all add: g)
qed

definition six_groups :: "u64 \<Rightarrow> nat list" where
  "six_groups c = map (\<lambda>n. unat (getSixBitByte c (7 - n))) [0..<8]"

definition top_byte :: "u64 \<Rightarrow> nat" where "top_byte c = unat (ucast (shr c 56) :: u8)"
definition next_byte :: "u64 \<Rightarrow> nat" where "next_byte c = unat (ucast (shr c 48) :: u8)"

lemma swapped_bytes:
  "ucast (shr (swapZvalues c AND 0xFF00000000000000) 56) = (ucast (shr c 56) :: u8)"
  "ucast (shr (swapZvalues c AND 0x00FF000000000000) 48) = (ucast (shr c 48) :: u8)"
proof -
  have m: "(0xFF00000000000000 :: u64) = shl (mask 8) 56" "(0x00FF000000000000 :: u64) = shl (mask 8) 48"
    by (simp_all add: mask_eq_exp_minus_1)
  show "ucast (shr (swapZvalues c AND 0xFF00000000000000) 56) = (ucast (shr c 56) :: u8)"
    "ucast (shr (swapZvalues c AND 0x00FF000000000000) 48) = (ucast (shr c 48) :: u8)"
    unfolding m by (rule u8_eqI; auto simp: bit_word_ucast_iff bit_drop_bit_eq bit_and_iff bit_push_bit_iff bit_mask_iff bit_swap_high)+
qed

lemma quads_groups: "quad (swapZvalues c) = take 4 (six_groups c)" "quad4 (swapZvalues c) = drop 4 (six_groups c)"
  by (rule nth_equalityI; simp add: quad_nth quad4_nth six_groups_def swap_get)+

lemma z_prime_bounds:
  assumes "n < 4" "4 \<le> m"
  shows "n \<le> z_prime m zs ! n" "z_prime m zs ! n < m"
proof -
  have "zs ! n mod (m - n) < m - n" using assms by simp
  with assms show "n \<le> z_prime m zs ! n" "z_prime m zs ! n < m" by (simp_all add: z_prime_def less_diff_conv)
qed

lemma scrambled_list:
  assumes "4 \<le> m"
  shows "distinct (ck_list 3 2 (z_prime m zs))" "\<forall>z\<in>set (ck_list 3 2 (z_prime m zs)). z < m"
    "length (ck_list 3 2 (z_prime m zs)) = 4"
proof -
  obtain a b c d where l: "z_prime m zs = [a, b, c, d]" by (simp add: z_prime_def upt_4)
  then have "1 \<le> b" "2 \<le> c" "3 \<le> d" "a < m" "b < m" "c < m" "d < m"
    using z_prime_bounds [of 0 m zs] z_prime_bounds [of 1 m zs] z_prime_bounds [of 2 m zs] z_prime_bounds [of 3 m zs] assms
    by simp_all
  with assms show "distinct (ck_list 3 2 (z_prime m zs))" "\<forall>z\<in>set (ck_list 3 2 (z_prime m zs)). z < m"
    unfolding l by (auto intro!: ck_list_distinct dest: ck_list_bounded [of a m b c d])
  show "length (ck_list 3 2 (z_prime m zs)) = 4"
    unfolding l ck_list_32 Let_def by simp
qed

text \<open>The permuted groups of a run of \<open>hash0\<close>, all of six bits and nonzero where the selector is set.\<close>

lemma hash0_sequence:
  defines "zt c \<equiv> pseq (selector (top_byte c)) (ck_list 3 2 (z_prime 63 (take 4 (six_groups c))))
      (ck_list 3 2 (z_prime 64 (drop 4 (six_groups c))))"
  shows "length (zt c) = 8" and "\<forall>v\<in>set (zt c). v < 64"
    and "map snd (filter fst (zip (selector (top_byte c)) (zt c))) =
      map Suc (ck_list 3 2 (z_prime 63 (take 4 (six_groups c))))"
    and "map snd (filter (Not \<circ> fst) (zip (selector (top_byte c)) (zt c))) =
      ck_list 3 2 (z_prime 64 (drop 4 (six_groups c)))"
    and "i < 8 \<Longrightarrow> selector (top_byte c) ! i \<Longrightarrow> zt c ! i \<noteq> 0"
proof -
  note a = scrambled_list [of 63 "take 4 (six_groups c)", simplified]
  note b = scrambled_list [of 64 "drop 4 (six_groups c)", simplified]
  show l: "length (zt c) = 8"
    unfolding zt_def by (simp add: length_pseq count_selector a b)
  show "\<forall>v\<in>set (zt c). v < 64"
    unfolding zt_def using a(2) b(2) by (intro pseq_bounded) auto
  show s: "map snd (filter fst (zip (selector (top_byte c)) (zt c))) =
      map Suc (ck_list 3 2 (z_prime 63 (take 4 (six_groups c))))"
    "map snd (filter (Not \<circ> fst) (zip (selector (top_byte c)) (zt c))) =
      ck_list 3 2 (z_prime 64 (drop 4 (six_groups c)))"
    unfolding zt_def using a b by (simp_all add: pseq_split count_selector)
  assume "i < 8" "selector (top_byte c) ! i"
  then have "(True, zt c ! i) \<in> set (filter fst (zip (selector (top_byte c)) (zt c)))"
    using l by (auto simp: set_zip)
  then have "zt c ! i \<in> set (map Suc (ck_list 3 2 (z_prime 63 (take 4 (six_groups c)))))"
    unfolding s(1) [symmetric] by force
  then show "zt c ! i \<noteq> 0" by auto
qed

lemma hash0_computes: "map unat (hash0 c) = hash0_def11 (top_byte c) (next_byte c) (six_groups c)"
proof -
  define zC where "zC = check (hash0_mods (swapZvalues c))"
  define x :: u8 where "x = ucast (shr c 56)"
  define out where "out = permute \<lparr>in_buffer = [hash0_p x], in_numbits = 8, in_position = 0\<rparr> zC 0 4
      \<lparr>out_buffer = [0, 0, 0, 0, 0, 0, 0, 0], out_numbits = 0, out_position = 0\<rparr>"
  define zt where "zt = pseq (selector (top_byte c)) (ck_list 3 2 (z_prime 63 (take 4 (six_groups c))))
      (ck_list 3 2 (z_prime 64 (drop 4 (six_groups c))))"
  note z = hash0_sequence [where c = c, folded zt_def]
  have q: "quad zC = ck_list 3 2 (z_prime 63 (take 4 (six_groups c)))"
    "quad4 zC = ck_list 3 2 (z_prime 64 (drop 4 (six_groups c)))"
    by (simp_all add: zC_def quads_check quads_mods quads_groups)
  have tl: "tail_left \<lparr>in_buffer = [hash0_p x], in_numbits = 8, in_position = 0\<rparr> = selector (top_byte c)"
    by (simp add: tail_left_byte selector_p top_byte_def x_def)
  have zero: "mbit [0, 0, 0, 0, 0, 0, 0, 0] k = False" if "k < 64" for k
  proof -
    have r: "[0, 0, 0, 0, 0, 0, 0, 0] = replicate 8 (0 :: u8)" by (simp add: numeral_eq_Suc)
    show ?thesis unfolding r using that by (simp add: mbit_def less_mult_imp_div_less)
  qed
  have ok: "out_ok \<lparr>out_buffer = [0, 0, 0, 0, 0, 0, 0, 0], out_numbits = 0, out_position = 0\<rparr>"
    "out_bits \<lparr>out_buffer = [0, 0, 0, 0, 0, 0, 0, 0], out_numbits = 0, out_position = 0\<rparr> = []"
    using zero by (auto simp: out_ok_def out_bits_def)
  have b63: "\<forall>n<4. unat (getSixBitByte zC n) < 63"
    using scrambled_list(2,3) [of 63 "take 4 (six_groups c)", simplified] by (metis q(1) length_quad nth_mem quad_nth)
  have bits: "out_bits out = concat (map bits6 zt)" "length (out_buffer out) = 8"
    using permute_pseq [OF ok(1), of "\<lparr>in_buffer = [hash0_p x], in_numbits = 8, in_position = 0\<rparr>" 0 4 zC] b63
    by (simp_all add: tl count_selector ok(2) q out_def zt_def)
  have len: "out_position out = 48"
  proof -
    have "length (concat (map bits6 vs)) = 6 * length vs" for vs by (induction vs) simp_all
    then show ?thesis using bits(1) z(1) by (metis length_out_bits mult.commute numeral_times_numeral semiring_norm)
  qed
  have "bits_be (out_buffer out) = out_bits out @ map (mbit (out_buffer out)) [48..<64]"
    unfolding bits_be_mbit out_bits_def len bits(2) map_append [symmetric]
    using upt_add_eq_append [of 0 48 16] by simp
  then have g: "unat (getSixBitByte (shr (x_bytes_to_num (out_buffer out) 8) 16) i) = zt ! i" if "i < 8" for i
    using get_of_buffer [OF bits(2), of zt _ i] that z(1,2) bits(1) nth_mem [of i zt] by simp
  have y: "bit (next_byte c) i = bit (ucast (shr c 48) :: u8) i" if "i < 8" for i
    using that by (simp add: next_byte_def bit_unsigned_iff)
  have p: "bit (hash0_p x) i = selector (top_byte c) ! i" if "i < 8" for i
    using selector_p [of x] that by (metis top_byte_def x_def diff_zero length_upt nth_map_upt add_0)
  have "hash0 c = map (hash0_byte (ucast (shr c 48)) (shr (x_bytes_to_num (out_buffer out) 8) 16) (hash0_p x)) [0..<8]"
    unfolding hash0_def Let_def swapped_bytes out_def zC_def x_def ..
  then show ?thesis
    unfolding hash0_def11_def Let_def zt_def [symmetric]
    using z(5) by (simp add: hash0_byte_key_byte g y p)
qed

text \<open>C18: 
  \<open>hash0\<close> is the function of the description for all 2^64 inputs: moduli, scramble, permutation
  under the selector, complement and packing, with the bytes of the key as numbers. In
  particular no index leaves the eight groups, and no sum leaves its byte.
\<close>

theorem hash0_is_definition:
  "map unat (hash0 c) = hash0_def11 (top_byte c) (next_byte c) (six_groups c)"
  by (rule hash0_computes)

text \<open>The group in a key byte, read back as the pre-image search does.\<close>

definition key_group :: "nat \<Rightarrow> nat" where
  "key_group b = (let m = b div 2 mod 64 in if 128 \<le> b then (if even b then 64 - m else 63 - m) else m)"

lemma key_byte_fields:
  assumes "v < 64" "s \<longrightarrow> v \<noteq> 0"
  shows "key_group (key_byte yi s v) = v" "even (key_byte yi s v) = s" "128 \<le> key_byte yi s v \<longleftrightarrow> yi"
proof -
  have d: "(128 + 2 * m) div 2 mod 64 = m" "Suc (128 + 2 * m) div 2 mod 64 = m" if "m < 64" for m :: nat
    using that by simp_all
  show "key_group (key_byte yi s v) = v" "even (key_byte yi s v) = s" "128 \<le> key_byte yi s v \<longleftrightarrow> yi"
    using assms d [of "64 - v"] d [of "63 - v"] by (cases yi; cases s; simp add: key_byte_def key_group_def Let_def)+
qed

lemma filter_zip_map:
  "length ps = length xs \<Longrightarrow> map snd (filter (P \<circ> fst) (zip ps xs)) = map ((!) xs) (filter (\<lambda>i. P (ps ! i)) [0..<length xs])"
proof (induction xs arbitrary: ps rule: rev_induct)
  case (snoc x xs)
  then obtain p ps' where ps: "ps = ps' @ [p]" "length ps' = length xs" by (cases ps rule: rev_cases) auto
  have f: "filter (\<lambda>i. P ((ps' @ [p]) ! i)) [0..<length xs] = filter (\<lambda>i. P (ps' ! i)) [0..<length xs]"
    by (rule filter_cong) (simp_all add: nth_append ps(2))
  have m: "map ((!) (xs @ [x])) (filter (\<lambda>i. P (ps' ! i)) [0..<length xs]) =
      map ((!) xs) (filter (\<lambda>i. P (ps' ! i)) [0..<length xs])"
    by (simp add: nth_append)
  show ?case
    using snoc.IH [OF ps(2)] ps(2) nth_append_length [of ps' p "[]"] by (simp add: ps f m comp_def)
qed simp

lemma hash0_shape:
  defines "k c \<equiv> map unat (hash0 c)"
  shows "i < 8 \<Longrightarrow> 128 \<le> k c ! i \<longleftrightarrow> bit (next_byte c) i"
    and "map even (k c) = selector (top_byte c)"
    and "distinct (map key_group (filter even (k c))) \<and> 0 \<notin> set (map key_group (filter even (k c)))"
    and "distinct (map key_group (filter odd (k c)))"
proof -
  define zt where "zt = pseq (selector (top_byte c)) (ck_list 3 2 (z_prime 63 (take 4 (six_groups c))))
      (ck_list 3 2 (z_prime 64 (drop 4 (six_groups c))))"
  note z = hash0_sequence [where c = c, folded zt_def]
  let ?s = "\<lambda>i. selector (top_byte c) ! i"
  have k: "k c = map (\<lambda>i. key_byte (bit (next_byte c) i) (?s i) (zt ! i)) [0..<8]"
    unfolding k_def hash0_computes hash0_def11_def Let_def zt_def ..
  have v: "zt ! i < 64" "?s i \<longrightarrow> zt ! i \<noteq> 0" if "i < 8" for i
    using that z(1,2,5) nth_mem [of i zt] by auto
  note f = key_byte_fields [OF v]
  show "128 \<le> k c ! i \<longleftrightarrow> bit (next_byte c) i" if "i < 8" for i
    using that by (simp add: k f)
  show "map even (k c) = selector (top_byte c)"
    by (rule nth_equalityI) (simp_all add: k f)
  have g: "map key_group (filter (P \<circ> even) (k c)) = map ((!) zt) (filter (\<lambda>i. P (?s i)) [0..<8])" for P
  proof -
    have "filter (P \<circ> even) (k c) = map (\<lambda>i. key_byte (bit (next_byte c) i) (?s i) (zt ! i)) (filter (\<lambda>i. P (?s i)) [0..<8])"
      unfolding k filter_map by (rule arg_cong [where f = "map _"], rule filter_cong) (simp_all add: f)
    then show ?thesis by (simp add: f)
  qed
  have e: "map key_group (filter even (k c)) = map Suc (ck_list 3 2 (z_prime 63 (take 4 (six_groups c))))"
    using g [of "\<lambda>b. b"] filter_zip_map [of "selector (top_byte c)" zt "\<lambda>b. b"] z(1,3) by (simp add: comp_def)
  have o: "map key_group (filter odd (k c)) = ck_list 3 2 (z_prime 64 (drop 4 (six_groups c)))"
    using g [of Not] filter_zip_map [of "selector (top_byte c)" zt Not] z(1,4) by (simp add: comp_def)
  show "distinct (map key_group (filter even (k c))) \<and> 0 \<notin> set (map key_group (filter even (k c)))"
    unfolding e using scrambled_list(1) [of 63 "take 4 (six_groups c)"] by (auto simp: distinct_map)
  show "distinct (map key_group (filter odd (k c)))"
    unfolding o using scrambled_list(1) [of 64] by simp
qed

text \<open>C19: 
  Every diversified key keeps the shape that removes weak patterns, whatever the master key and
  the card: the top bits of its bytes are the second byte of the encrypted identity, exactly
  four bytes are even, in one of the 35 selections or its complement, the groups in the four
  even bytes are pairwise different and not zero, and so are, among themselves, the groups in
  the four odd bytes.
\<close>

theorem diversified_key_shape:
  "(let e = mbedtls_des_crypt_ecb (mbedtls_des_setkey_enc key) csn; k = map unat (diversifyKey csn key)
    in length k = 8 \<and>
       map (\<lambda>b. 128 \<le> b) k = map (bit (e ! 1)) [0..<8] \<and>
       map even k = selector (unat (e ! 0)) \<and>
       length (filter even k) = 4 \<and> length (filter odd k) = 4 \<and>
       distinct (map key_group (filter even k)) \<and> 0 \<notin> set (map key_group (filter even k)) \<and>
       distinct (map key_group (filter odd k)))"
proof -
  define e where "e = mbedtls_des_crypt_ecb (mbedtls_des_setkey_enc key) csn"
  define c where "c = x_bytes_to_num e 8"
  define k where "k = map unat (hash0 c)"
  have d: "map unat (diversifyKey csn key) = k"
    by (simp add: diversifyKey_def Let_def k_def c_def e_def)
  have le: "length e = 8" by (simp add: e_def)
  have t: "top_byte c = unat (e ! 0)" and n: "bit (next_byte c) i = bit (e ! 1) i" if "i < 8" for i
  proof -
    have "(ucast (shr c 56) :: u8) = e ! 0" "(ucast (shr c 48) :: u8) = e ! 1"
      by (rule u8_eqI, erule less_8_cases; simp add: word_bits c_def x_bytes_to_num_def bytes_to_num_bit le del: bit_0)+
    then show "top_byte c = unat (e ! 0)" "bit (next_byte c) i = bit (e ! 1) i"
      using that by (simp_all add: top_byte_def next_byte_def bit_unsigned_iff)
  qed
  have t: "top_byte c = unat (e ! 0)" using t [of 0] by simp
  note s = hash0_shape [where c = c, folded k_def]
  have l: "length k = 8" by (simp add: k_def hash0_def Let_def)
  have cnt: "length (filter P ks) = count_list (map P ks) True" for P :: "nat \<Rightarrow> bool" and ks
    by (induction ks) auto
  have cnt': "length (filter odd ks) = count_list (map even ks) False" for ks :: "nat list"
    by (induction ks) auto
  have four: "length (filter even k) = 4" "length (filter odd k) = 4"
    by (simp_all only: cnt [where P = even] cnt' s(2) count_selector)
  have "map (\<lambda>b. 128 \<le> b) k = map (bit (e ! 1)) [0..<8]"
    by (rule nth_equalityI) (simp_all add: l s(1) n)
  then show ?thesis
    unfolding e_def [symmetric] d Let_def using s(2-) t l four by simp
qed

end
