(* ===== verification/Pm3_Codes.thy ===== *)
theory Pm3_Codes
  imports Main
begin

text \<open>The status codes of \<open>include/pm3_cmd.h\<close> that several components return.\<close>

definition PM3_SUCCESS :: int where "PM3_SUCCESS = 0"
definition PM3_EINVARG :: int where "PM3_EINVARG = -2"
definition PM3_EOVFLOW :: int where "PM3_EOVFLOW = -9"
definition PM3_ESOFT :: int where "PM3_ESOFT = -10"
definition PM3_EMALLOC :: int where "PM3_EMALLOC = -12"
definition PM3_EFILE :: int where "PM3_EFILE = -13"
definition PM3_EOUTOFBOUND :: int where "PM3_EOUTOFBOUND = -17"

end
