(* ===== verification/Iclass_Elite.thy ===== *)
theory Iclass_Elite
  imports Iclass_Cipher Iclass_Keys Pm3_Codes
begin

text \<open>
  The high security ("elite") key scheme of iCLASS and the attack on it:
  \<open>client/src/loclass/elite_crack.c\<close>, and the same scheme in the firmware
  (\<open>armsrc/optimized_elite.c\<close>, \<open>iclass_calc_div_key\<close> in \<open>armsrc/optimized_cipher.c\<close>). The brute-force
  threads are a step relation on their program counters and the shared \<open>loclass_found\<close>; whatever
  order the threads run in is a run of it. Allocations and \<open>pthread_create\<close> are assumed to
  succeed; the number of threads \<open>tc\<close> (\<open>num_CPUs()\<close>) is a parameter.
\<close>

subsection \<open>Keys\<close>

definition permute_row :: "bytes \<Rightarrow> nat \<Rightarrow> u8" where
  "permute_row key i =
    ((((((shl (shr (key ! 7 AND shr 0x80 i) (7 - i)) 7 OR
          shl (shr (key ! 6 AND shr 0x80 i) (7 - i)) 6) OR
          shl (shr (key ! 5 AND shr 0x80 i) (7 - i)) 5) OR
          shl (shr (key ! 4 AND shr 0x80 i) (7 - i)) 4) OR
          shl (shr (key ! 3 AND shr 0x80 i) (7 - i)) 3) OR
          shl (shr (key ! 2 AND shr 0x80 i) (7 - i)) 2) OR
          shl (shr (key ! 1 AND shr 0x80 i) (7 - i)) 1) OR
          shl (shr (key ! 0 AND shr 0x80 i) (7 - i)) 0"

definition permutekey :: "bytes \<Rightarrow> bytes" where
  "permutekey key = map (permute_row key) [0..<8]"

definition permute_rev_row :: "bytes \<Rightarrow> nat \<Rightarrow> u8" where
  "permute_rev_row key i =
    ((((((shl (shr (key ! 0 AND shr 0x80 i) (7 - i)) 7 OR
          shl (shr (key ! 1 AND shr 0x80 i) (7 - i)) 6) OR
          shl (shr (key ! 2 AND shr 0x80 i) (7 - i)) 5) OR
          shl (shr (key ! 3 AND shr 0x80 i) (7 - i)) 4) OR
          shl (shr (key ! 4 AND shr 0x80 i) (7 - i)) 3) OR
          shl (shr (key ! 5 AND shr 0x80 i) (7 - i)) 2) OR
          shl (shr (key ! 6 AND shr 0x80 i) (7 - i)) 1) OR
          shl (shr (key ! 7 AND shr 0x80 i) (7 - i)) 0"

definition permutekey_rev :: "bytes \<Rightarrow> bytes" where
  "permutekey_rev key = fold (\<lambda>i dest. dest[7 - i := permute_rev_row key i]) [0..<8] [0, 0, 0, 0, 0, 0, 0, 0]"

definition rr :: "u8 \<Rightarrow> u8" where
  "rr val = shr val 1 OR shl (val AND 1) 7"

definition rl :: "u8 \<Rightarrow> u8" where
  "rl val = shl val 1 OR shr (val AND 0x80) 7"

definition swap :: "u8 \<Rightarrow> u8" where
  "swap val = (shr val 4 AND 0xFF) OR shl (val AND 0xFF) 4"

definition hash1 :: "bytes \<Rightarrow> bytes" where
  "hash1 csn =
    (let k0 = ((((((csn ! 0 XOR csn ! 1) XOR csn ! 2) XOR csn ! 3) XOR csn ! 4) XOR csn ! 5) XOR csn ! 6) XOR csn ! 7;
         k1 = csn ! 0 + csn ! 1 + csn ! 2 + csn ! 3 + csn ! 4 + csn ! 5 + csn ! 6 + csn ! 7;
         k2 = rr (swap (csn ! 2 + k1));
         k3 = rl (swap (csn ! 3 + k0));
         k4 = NOT (rr (csn ! 4 + k2)) + 1;
         k5 = NOT (rl (csn ! 5 + k3)) + 1;
         k6 = rr (csn ! 6 + (k4 XOR 0x3c));
         k7 = rl (csn ! 7 + (k5 XOR 0xc3))
     in [k0 AND 0x7F, k1 AND 0x7F, k2 AND 0x7F, k3 AND 0x7F, k4 AND 0x7F, k5 AND 0x7F, k6 AND 0x7F, k7 AND 0x7F])"

definition rk :: "bytes \<Rightarrow> nat \<Rightarrow> bytes" where
  "rk key n = fold (\<lambda>_ outp_key. map rl outp_key) [0..<n] (take 8 key)"

definition desdecrypt_iclass :: "bytes \<Rightarrow> bytes \<Rightarrow> bytes" where
  "desdecrypt_iclass iclass_key input =
    mbedtls_des_crypt_ecb (mbedtls_des_setkey_dec (permutekey_rev iclass_key)) input"

definition desencrypt_iclass :: "bytes \<Rightarrow> bytes \<Rightarrow> bytes" where
  "desencrypt_iclass iclass_key input =
    mbedtls_des_crypt_ecb (mbedtls_des_setkey_enc (permutekey_rev iclass_key)) input"

text \<open>The key table that \<open>hash2\<close> writes.\<close>

definition hash2 :: "bytes \<Rightarrow> bytes" where
  "hash2 key64 =
    (let key64_negated = map NOT (take 8 key64);
         z0 = desencrypt_iclass key64 key64_negated;
         y0 = desdecrypt_iclass z0 key64_negated;
         (z, y) = fold (\<lambda>i (z, y).
             let temp_output = rk key64 i
             in (z @ [desdecrypt_iclass temp_output (z ! (i - 1))], y @ [desencrypt_iclass temp_output (y ! (i - 1))]))
           [1..<8] ([z0], [y0])
     in concat (map (\<lambda>i. take 8 (y ! i) @ take 8 (z ! i)) [0..<8]))"

definition calculateMasterKey :: "bytes \<Rightarrow> int \<times> bytes" where
  "calculateMasterKey first16bytes =
    (let y_0 = take 8 first16bytes;
         z_0 = take 8 (drop 8 first16bytes);
         z_0_rev = permutekey_rev z_0;
         key64_negated = mbedtls_des_crypt_ecb (mbedtls_des_setkey_enc z_0_rev) y_0;
         key64 = map NOT key64_negated;
         key64_stdformat = permutekey_rev key64;
         result = mbedtls_des_crypt_ecb (mbedtls_des_setkey_enc key64_stdformat) key64_negated
     in (if take 4 z_0 \<noteq> take 4 result then PM3_ESOFT else PM3_SUCCESS, key64))"

definition iclass_calc_div_key :: "bytes \<Rightarrow> bytes \<Rightarrow> bool \<Rightarrow> bytes" where
  "iclass_calc_div_key csn key elite =
    (if elite then
       let keytable = hash2 key; key_index = hash1 csn;
           key_sel = map (\<lambda>i. keytable ! unat (key_index ! i)) [0..<8];
           key_sel_p = permutekey_rev key_sel
       in diversifyKey csn key_sel_p
     else diversifyKey csn key)"

subsection \<open>The search for missing bytes\<close>

definition LOCLASS_CRACKED :: u16 where "LOCLASS_CRACKED = 0x0100"
definition LOCLASS_BEING_CRACKED :: u16 where "LOCLASS_BEING_CRACKED = 0x0200"
definition LOCLASS_CRACK_FAILED :: u16 where "LOCLASS_CRACK_FAILED = 0x0400"

record dumpdata =
  d_csn :: bytes
  d_cc_nr :: bytes
  d_mac :: bytes

text \<open>
  The first loop of \<open>bruteforceItem\<close>, over the key indices. \<open>bytes_to_recover\<close> has three entries,
  but a fourth index is stored before the number is compared with three: that store leaves the
  array (undefined in C), and the model leaves the array as it is. \<open>Inl\<close> is the early return.
\<close>

fun collect :: "bytes \<Rightarrow> bytes \<Rightarrow> nat \<Rightarrow> u16 list \<Rightarrow> u16 list + bytes \<times> nat \<times> u16 list" where
  "collect [] bytes_to_recover n keytable = Inr (bytes_to_recover, n, keytable)"
| "collect (ki # key_index) bytes_to_recover n keytable =
    (if keytable ! unat ki AND (LOCLASS_CRACKED OR LOCLASS_BEING_CRACKED) \<noteq> 0
     then collect key_index bytes_to_recover n keytable
     else
       let bytes_to_recover = bytes_to_recover[n := ki];
           n = n + 1;
           keytable = keytable[unat ki := keytable ! unat ki OR LOCLASS_BEING_CRACKED]
       in if n > 3 then
            Inl (fold (\<lambda>j kt. kt[unat (bytes_to_recover ! j) :=
                kt ! unat (bytes_to_recover ! j) AND NOT LOCLASS_BEING_CRACKED]) [0..<3] keytable)
          else collect key_index bytes_to_recover n keytable)"

text \<open>The key that one value of \<open>brute\<close> selects, and the test of \<open>bf_thread\<close>.\<close>

definition sel_brute_idx :: "bytes \<Rightarrow> nat \<Rightarrow> u8 \<Rightarrow> nat option" where
  "sel_brute_idx bytes_to_recover n ki = List.find (\<lambda>j. ki = bytes_to_recover ! j) [0..<n]"

definition brute_key_sel :: "bytes \<Rightarrow> bytes \<Rightarrow> nat \<Rightarrow> u16 list \<Rightarrow> u32 \<Rightarrow> bytes" where
  "brute_key_sel key_index bytes_to_recover n keytable brute =
    map (\<lambda>i. case sel_brute_idx bytes_to_recover n (key_index ! i) of
          None \<Rightarrow> ucast (keytable ! unat (key_index ! i) AND 0xFF)
        | Some j \<Rightarrow> ucast (shr brute (j * 8) AND 0xFF)) [0..<8]"

definition key_sel_matches :: "dumpdata \<Rightarrow> bytes \<Rightarrow> bool" where
  "key_sel_matches item key_sel =
    (let key_sel_p = permutekey_rev key_sel;
         div_key = diversifyKey (d_csn item) key_sel_p;
         calculated_MAC = doMAC_brute (d_cc_nr item) div_key [0, 0, 0, 0]
     in calculated_MAC = d_mac item)"

definition brute_values :: "nat \<Rightarrow> u32 \<Rightarrow> bytes" where
  "brute_values n brute = map (\<lambda>i. if i < n then ucast (shr brute (i * 8) AND 0xFF) else 0) [0..<3]"

text \<open>
  A thread is at the head of its loop, has read that nothing is found yet, or has returned (with
  the values it found, or \<open>NULL\<close>). \<open>ok\<close> is the test on \<open>brute\<close>.
\<close>

datatype bf_thread = Head u32 | Work u32 | Returned "bytes option"

record bf_config =
  loclass_found :: int
  threads :: "bf_thread list"

definition endmask :: "nat \<Rightarrow> u32" where
  "endmask n = shl 1 (8 * n)"

inductive bf_step :: "(u32 \<Rightarrow> bool) \<Rightarrow> nat \<Rightarrow> nat \<Rightarrow> bf_config \<Rightarrow> bf_config \<Rightarrow> bool"
  for ok tc n where
  exhausted: "\<lbrakk>i < length (threads c); threads c ! i = Head b; b AND endmask n \<noteq> 0\<rbrakk> \<Longrightarrow>
    bf_step ok tc n c (c\<lparr>threads := (threads c)[i := Returned None]\<rparr>)"
| stopped: "\<lbrakk>i < length (threads c); threads c ! i = Head b; b AND endmask n = 0; loclass_found c \<noteq> 0xFF\<rbrakk> \<Longrightarrow>
    bf_step ok tc n c (c\<lparr>threads := (threads c)[i := Returned None]\<rparr>)"
| attempt: "\<lbrakk>i < length (threads c); threads c ! i = Head b; b AND endmask n = 0; loclass_found c = 0xFF\<rbrakk> \<Longrightarrow>
    bf_step ok tc n c (c\<lparr>threads := (threads c)[i := Work b]\<rparr>)"
| found: "\<lbrakk>i < length (threads c); threads c ! i = Work b; ok b\<rbrakk> \<Longrightarrow>
    bf_step ok tc n c \<lparr>loclass_found = int i, threads = (threads c)[i := Returned (Some (brute_values n b))]\<rparr>"
| next_brute: "\<lbrakk>i < length (threads c); threads c ! i = Work b; \<not> ok b\<rbrakk> \<Longrightarrow>
    bf_step ok tc n c (c\<lparr>threads := (threads c)[i := Head (b + word_of_nat tc)]\<rparr>)"

definition bf_init :: "nat \<Rightarrow> bf_config" where
  "bf_init tc = \<lparr>loclass_found = 0xFF, threads = map (\<lambda>i. Head (word_of_nat i)) [0..<tc]\<rparr>"

definition bf_joined :: "bf_config \<Rightarrow> bool" where
  "bf_joined c = list_all (\<lambda>t. case t of Returned _ \<Rightarrow> True | _ \<Rightarrow> False) (threads c)"

text \<open>What \<open>bruteforceItem\<close> does with the result once all threads are joined.\<close>

definition conclude :: "bytes \<Rightarrow> nat \<Rightarrow> u16 list \<Rightarrow> bf_config \<Rightarrow> int \<times> u16 list" where
  "conclude bytes_to_recover n keytable c =
    (if loclass_found c = 0xFF then
       (PM3_ESOFT, fold (\<lambda>i kt. let kt = kt[unat (bytes_to_recover ! i) := kt ! unat (bytes_to_recover ! i) AND 0xFF]
          in kt[unat (bytes_to_recover ! i) := kt ! unat (bytes_to_recover ! i) OR LOCLASS_CRACK_FAILED]) [0..<n] keytable)
     else case threads c ! nat (loclass_found c) of
         Returned (Some values) \<Rightarrow>
           (PM3_SUCCESS, fold (\<lambda>i kt. kt[unat (bytes_to_recover ! i) := (ucast (values ! i) AND 0xFF) OR LOCLASS_CRACKED]) [0..<n] keytable)
       | _ \<Rightarrow> (PM3_ESOFT, keytable))"

inductive bruteforceItem :: "nat \<Rightarrow> dumpdata \<Rightarrow> u16 list \<Rightarrow> int \<Rightarrow> u16 list \<Rightarrow> bool" for tc where
  too_many: "collect (hash1 (d_csn item)) [0, 0, 0] 0 kt = Inl kt' \<Longrightarrow> bruteforceItem tc item kt PM3_ESOFT kt'"
| no_missing: "collect (hash1 (d_csn item)) [0, 0, 0] 0 kt = Inr (btr, 0, kt') \<Longrightarrow> bruteforceItem tc item kt PM3_ESOFT kt'"
| searched: "\<lbrakk>collect (hash1 (d_csn item)) [0, 0, 0] 0 kt = Inr (btr, n, kt1); 0 < n;
    (bf_step (\<lambda>b. key_sel_matches item (brute_key_sel (hash1 (d_csn item)) btr n kt1 b)) tc n)\<^sup>*\<^sup>* (bf_init tc) c;
    bf_joined c; conclude btr n kt1 c = (res, kt')\<rbrakk> \<Longrightarrow> bruteforceItem tc item kt res kt'"

text \<open>The items of a dump are searched until one fails.\<close>

inductive bruteforceItems :: "nat \<Rightarrow> dumpdata list \<Rightarrow> u16 list \<Rightarrow> int \<Rightarrow> u16 list \<Rightarrow> bool" for tc where
  no_item: "bruteforceItems tc [] kt PM3_SUCCESS kt"
| item_failed: "bruteforceItem tc item kt res kt' \<Longrightarrow> res \<noteq> PM3_SUCCESS \<Longrightarrow> bruteforceItems tc (item # items) kt res kt'"
| item_done: "bruteforceItem tc item kt PM3_SUCCESS kt1 \<Longrightarrow> bruteforceItems tc items kt1 res kt' \<Longrightarrow>
    bruteforceItems tc (item # items) kt res kt'"

definition finish_dump :: "int \<Rightarrow> u16 list \<Rightarrow> int" where
  "finish_dump res keytable =
    (if res \<noteq> PM3_SUCCESS then PM3_ESOFT
     else if list_ex (\<lambda>i. keytable ! i AND LOCLASS_CRACKED \<noteq> LOCLASS_CRACKED) [0..<16] then PM3_ESOFT
     else fst (calculateMasterKey (map (\<lambda>i. ucast (keytable ! i AND 0xFF)) [0..<16])))"

definition dump_items :: "bytes \<Rightarrow> dumpdata list" where
  "dump_items dump = map (\<lambda>i. \<lparr>d_csn = take 8 (drop (i * 24) dump), d_cc_nr = take 12 (drop (i * 24 + 8) dump),
     d_mac = take 4 (drop (i * 24 + 20) dump)\<rparr>) [0..<(length dump + 23) div 24]"

definition bruteforceDump :: "nat \<Rightarrow> bytes \<Rightarrow> u16 list \<Rightarrow> int \<Rightarrow> u16 list \<Rightarrow> bool" where
  "bruteforceDump tc dump keytable res keytable' \<longleftrightarrow>
    (\<exists>r. bruteforceItems tc (dump_items dump) keytable r keytable' \<and> res = finish_dump r keytable')"

text \<open>\<open>dump\<close> is the content of the file, or \<open>None\<close> when \<open>loadFile_safe\<close> fails. The result passes through a \<open>uint8_t\<close>.\<close>

definition bruteforceFile :: "nat \<Rightarrow> bytes option \<Rightarrow> u16 list \<Rightarrow> int \<Rightarrow> u16 list \<Rightarrow> bool" where
  "bruteforceFile tc file keytable res keytable' \<longleftrightarrow>
    (case file of
       None \<Rightarrow> res = PM3_EFILE \<and> keytable' = keytable
     | Some dump \<Rightarrow> \<exists>r. bruteforceDump tc dump keytable r keytable' \<and> res = uint (word_of_int r :: u8))"

definition bruteforceFileNoKeys :: "nat \<Rightarrow> bytes option \<Rightarrow> int \<Rightarrow> bool" where
  "bruteforceFileNoKeys tc file res \<longleftrightarrow> (\<exists>keytable'. bruteforceFile tc file (replicate 128 0) res keytable')"

end
