(* ===== verification/Iclass_Elite_Laws.thy ===== *)
theory Iclass_Elite_Laws
  imports Iclass_Elite Iclass_Keys_Laws
begin

text \<open>
  The elite key scheme: the two key formats are inverse to each other, key indices stay inside
  the table, and the master key is recovered from the first sixteen bytes of its table. The
  concurrent search and the attack follow in \<open>Iclass_Search\<close> and \<open>Iclass_Attack\<close>.
\<close>

subsection \<open>Key formats\<close>

lemma pick: "i < 8 \<Longrightarrow> shr (b AND shr 0x80 i) (7 - i) = (of_bool (bit b (7 - i)) :: u8)"
proof -
  assume "i < 8"
  then have "shr (b AND shr 0x80 i) (7 - i) = shr b (7 - i) AND 1"
    unfolding drop_bit_and by (elim less_8_cases) simp_all
  then show ?thesis by (simp only: shr_and_1)
qed

lemma bit_shl_of_bool: "bit (shl (of_bool p :: u8) j) k \<longleftrightarrow> k = j \<and> j < 8 \<and> p"
  by (cases p) (auto simp: bit_exp_iff)

lemma permute_row_bit: "i < 8 \<Longrightarrow> j < 8 \<Longrightarrow> bit (permute_row key i) j = bit (key ! j) (7 - i)"
  unfolding permute_row_def by (simp only: bit_or_iff pick bit_shl_of_bool) (erule less_8_cases [of j]; simp)

lemma permute_rev_row_bit: "i < 8 \<Longrightarrow> j < 8 \<Longrightarrow> bit (permute_rev_row key i) j = bit (key ! (7 - j)) (7 - i)"
  unfolding permute_rev_row_def by (simp only: bit_or_iff pick bit_shl_of_bool) (erule less_8_cases [of j]; simp)

lemma permutekey_nth: "i < 8 \<Longrightarrow> permutekey key ! i = permute_row key i"
  by (simp add: permutekey_def)

lemma permutekey_rev_rows: "permutekey_rev key = map (\<lambda>d. permute_rev_row key (7 - d)) [0..<8]"
  unfolding permutekey_rev_def upt_8 by simp

lemma length_permuted [simp]: "length (permutekey key) = 8" "length (permutekey_rev key) = 8"
  by (simp_all add: permutekey_def permutekey_rev_rows)

lemma permutekey_inverses:
  assumes "length key = 8"
  shows "permutekey_rev (permutekey key) = key" "permutekey (permutekey_rev key) = key"
proof -
  show "permutekey_rev (permutekey key) = key"
  proof (rule nth_equalityI)
    fix d assume "d < length (permutekey_rev (permutekey key))"
    then have d: "d < 8" by simp
    show "permutekey_rev (permutekey key) ! d = key ! d"
    proof (rule u8_eqI)
      fix j :: nat assume "j < 8"
      then show "bit (permutekey_rev (permutekey key) ! d) j = bit (key ! d) j"
        using d by (simp add: permutekey_rev_rows permute_rev_row_bit permutekey_nth permute_row_bit)
    qed
  qed (simp add: assms)
  show "permutekey (permutekey_rev key) = key"
  proof (rule nth_equalityI)
    fix d assume "d < length (permutekey (permutekey_rev key))"
    then have d: "d < 8" by simp
    show "permutekey (permutekey_rev key) ! d = key ! d"
    proof (rule u8_eqI)
      fix j :: nat assume "j < 8"
      then show "bit (permutekey (permutekey_rev key) ! d) j = bit (key ! d) j"
        using d by (simp add: permutekey_rev_rows permute_rev_row_bit permutekey_nth permute_row_bit)
    qed
  qed (simp add: assms)
qed

subsection \<open>Tables\<close>

lemma hash2_first: "take 16 (hash2 K) =
   desdecrypt_iclass (desencrypt_iclass K (map NOT (take 8 K))) (map NOT (take 8 K)) @ desencrypt_iclass K (map NOT (take 8 K))"
proof -
  define z0 where "z0 = desencrypt_iclass K (map NOT (take 8 K))"
  define y0 where "y0 = desdecrypt_iclass z0 (map NOT (take 8 K))"
  have l: "length z0 = 8" "length y0 = 8" by (simp_all add: z0_def y0_def desencrypt_iclass_def desdecrypt_iclass_def)
  define zy where "zy = fold (\<lambda>i (z, y). let temp_output = rk K i
      in (z @ [desdecrypt_iclass temp_output (z ! (i - 1))], y @ [desencrypt_iclass temp_output (y ! (i - 1))])) [1..<8] ([z0], [y0])"
  have grow: "\<exists>z' y'. fold (\<lambda>i (z, y). let temp_output = rk K i
      in (z @ [desdecrypt_iclass temp_output (z ! (i - 1))], y @ [desencrypt_iclass temp_output (y ! (i - 1))])) xs (z, y)
      = (z @ z', y @ y')" for xs z y
    by (induction xs arbitrary: z y) (auto simp: Let_def, metis append.assoc)
  obtain z' y' where zy: "zy = (z0 # z', y0 # y')"
    using grow [of "[1..<8]" "[z0]" "[y0]"] by (auto simp: zy_def)
  have "hash2 K = concat (map (\<lambda>i. take 8 (snd zy ! i) @ take 8 (fst zy ! i)) [0..<8])"
    unfolding hash2_def Let_def zy_def z0_def y0_def by (simp only: split_beta)
  also have "\<dots> = (y0 @ z0) @ concat (map (\<lambda>i. take 8 (snd zy ! i) @ take 8 (fst zy ! i)) [1..<8])"
    using l upt_conv_Cons [of 0 8] by (simp add: zy)
  finally show ?thesis
    using l by (simp add: z0_def y0_def)
qed

lemma NOT_NOT: "NOT \<circ> NOT = (id :: u8 \<Rightarrow> u8)"
  by (rule ext) simp

lemma master_key_of_table:
  assumes "length K = 8"
  shows "calculateMasterKey (take 16 (hash2 K)) = (PM3_SUCCESS, K)"
proof -
  define z0 where "z0 = desencrypt_iclass K (map NOT K)"
  define y0 where "y0 = desdecrypt_iclass z0 (map NOT K)"
  have l: "length z0 = 8" "length y0 = 8" by (simp_all add: z0_def y0_def desencrypt_iclass_def desdecrypt_iclass_def)
  have h: "take 16 (hash2 K) = y0 @ z0"
    using assms by (simp add: hash2_first z0_def y0_def)
  have "mbedtls_des_crypt_ecb (mbedtls_des_setkey_enc (permutekey_rev z0)) y0 = map NOT K"
    using assms by (simp add: y0_def desdecrypt_iclass_def des_inverse)
  then show ?thesis
    using l by (simp add: h calculateMasterKey_def Let_def NOT_NOT z0_def desencrypt_iclass_def)
qed

text \<open>C23: 
  The weakness of the scheme: from the first sixteen bytes of its key table the custom master
  key is computed, for every master key, and the check of the result accepts it.
\<close>

theorem master_key_recovered:
  assumes "length K = 8"
  shows "calculateMasterKey (take 16 (hash2 K)) = (PM3_SUCCESS, K)"
  by (rule master_key_of_table [OF assms])

text \<open>The key of the comment in \<open>hash2\<close>.\<close>

lemma master_key_recovered_witness:
  "calculateMasterKey (take 16 (hash2 [0x5B, 0x7C, 0x62, 0xC4, 0x91, 0xC1, 0x1B, 0x39])) =
    (PM3_SUCCESS, [0x5B, 0x7C, 0x62, 0xC4, 0x91, 0xC1, 0x1B, 0x39])"
  using master_key_recovered [of "[0x5B, 0x7C, 0x62, 0xC4, 0x91, 0xC1, 0x1B, 0x39]"] by simp

text \<open>Eight key indices, each inside the table of 128 entries.\<close>

lemma hash1_range: "length (hash1 csn) = 8" "\<forall>k\<in>set (hash1 csn). unat k < 128"
proof -
  have "unat (w AND 0x7F) < 128" for w :: u8
  proof -
    have "unat (w AND 0x7F) < 2 ^ 7" by (rule unat_lt_bits) (simp add: and_masks bit_take_bit_iff)
    then show ?thesis by simp
  qed
  then show "length (hash1 csn) = 8" "\<forall>k\<in>set (hash1 csn). unat k < 128"
    by (simp_all add: hash1_def Let_def)
qed

end
