(* ===== verification/Iclass_Search.thy ===== *)
theory Iclass_Search
  imports Iclass_Elite_Laws
begin

text \<open>
  The concurrent search of \<open>bf_thread\<close> for up to 255 threads: an invariant of every reachable
  configuration, a bound on the length of every run, and the verdict once all threads have
  returned.
\<close>

subsection \<open>The loop test\<close>

text \<open>Thread \<open>i\<close> tries \<open>i\<close>, \<open>i + tc\<close>, \<open>i + 2 tc\<close> and so on.\<close>

definition candidate :: "nat \<Rightarrow> nat \<Rightarrow> nat \<Rightarrow> nat" where
  "candidate tc i m = i + m * tc"

lemma endmask_test:
  assumes "n \<le> 3" "b < 2 ^ (8 * n) + tc" "tc \<le> 255" "0 < n"
  shows "word_of_nat b AND endmask n \<noteq> 0 \<longleftrightarrow> 2 ^ (8 * n) \<le> b"
proof -
  have "n = 1 \<or> n = 2 \<or> n = 3" using assms(1,4) by linarith
  then have b: "b < 2 ^ (8 * n + 1)" "8 * n + 1 \<le> 25" using assms(2,3) by auto
  have "word_of_nat b AND endmask n \<noteq> 0 \<longleftrightarrow> bit (word_of_nat b :: u32) (8 * n)"
    using and_exp_eq_0_iff_not_bit [of "word_of_nat b :: u32" "8 * n"] b(2) by (simp add: endmask_def push_bit_of_1)
  also have "\<dots> \<longleftrightarrow> bit b (8 * n)"
    using b(2) by (simp add: bit_of_nat_iff possible_bit_word)
  also have "\<dots> \<longleftrightarrow> odd (b div 2 ^ (8 * n))"
    by (rule bit_iff_odd)
  also have "\<dots> \<longleftrightarrow> 2 ^ (8 * n) \<le> b"
  proof -
    have "b div 2 ^ (8 * n) < 2" using b(1) by (simp add: less_mult_imp_div_less)
    then have "odd (b div 2 ^ (8 * n)) \<longleftrightarrow> b div 2 ^ (8 * n) \<noteq> 0" by (auto simp: less_2_cases_iff)
    also have "\<dots> \<longleftrightarrow> 2 ^ (8 * n) \<le> b" by (simp add: div_eq_0_iff not_less)
    finally show ?thesis .
  qed
  finally show ?thesis .
qed

subsection \<open>The invariant\<close>

definition thread_inv :: "(u32 \<Rightarrow> bool) \<Rightarrow> nat \<Rightarrow> nat \<Rightarrow> int \<Rightarrow> nat \<Rightarrow> bf_thread \<Rightarrow> bool" where
  "thread_inv ok tc n f i t = (case t of
      Head b \<Rightarrow> (\<exists>m. b = word_of_nat (candidate tc i m) \<and> candidate tc i m < 2 ^ (8 * n) + tc \<and>
        (\<forall>k<m. \<not> ok (word_of_nat (candidate tc i k))))
    | Work b \<Rightarrow> (\<exists>m. b = word_of_nat (candidate tc i m) \<and> candidate tc i m < 2 ^ (8 * n) \<and>
        (\<forall>k<m. \<not> ok (word_of_nat (candidate tc i k))))
    | Returned None \<Rightarrow> f \<noteq> 0xFF \<or> (\<forall>m. candidate tc i m < 2 ^ (8 * n) \<longrightarrow> \<not> ok (word_of_nat (candidate tc i m)))
    | Returned (Some v) \<Rightarrow> f \<noteq> 0xFF \<and> (\<exists>b. unat b < 2 ^ (8 * n) \<and> ok b \<and> v = brute_values n b))"

definition bf_inv :: "(u32 \<Rightarrow> bool) \<Rightarrow> nat \<Rightarrow> nat \<Rightarrow> bf_config \<Rightarrow> bool" where
  "bf_inv ok tc n c \<longleftrightarrow> length (threads c) = tc \<and>
    (\<forall>i<tc. thread_inv ok tc n (loclass_found c) i (threads c ! i)) \<and>
    (loclass_found c = 0xFF \<or> (\<exists>i<tc. loclass_found c = int i \<and> (\<exists>v. threads c ! i = Returned (Some v))))"

lemma thread_inv_found: "thread_inv ok tc n f i t \<Longrightarrow> f' \<noteq> 0xFF \<Longrightarrow> thread_inv ok tc n f' i t"
  by (auto simp: thread_inv_def split: bf_thread.splits option.splits)

lemma bf_inv_update:
  assumes "bf_inv ok tc n c" "i < tc" "thread_inv ok tc n (loclass_found c) i t" "\<forall>v. threads c ! i \<noteq> Returned (Some v)"
  shows "bf_inv ok tc n (c\<lparr>threads := (threads c)[i := t]\<rparr>)"
  using assms unfolding bf_inv_def by (auto simp: nth_list_update)

lemma candidate_Suc: "candidate tc i (Suc m) = candidate tc i m + tc"
  by (simp add: candidate_def)

lemma candidate_mono: "candidate tc i m < 2 ^ k \<Longrightarrow> 2 ^ k \<le> candidate tc i m' \<Longrightarrow> m < m'"
  unfolding candidate_def by (metis add_le_cancel_left le_less_trans mult_le_mono1 not_le)

lemma bf_step_inv:
  assumes "bf_step ok tc n c c'" "bf_inv ok tc n c" "tc \<le> 255" "0 < n" "n \<le> 3"
  shows "bf_inv ok tc n c'"
  using assms(1)
proof cases
  case (exhausted i b)
  then have i: "i < tc" and h: "thread_inv ok tc n (loclass_found c) i (Head b)"
    using assms(2) unfolding bf_inv_def by metis+
  then obtain m where m: "b = word_of_nat (candidate tc i m)" "candidate tc i m < 2 ^ (8 * n) + tc"
    "\<forall>k<m. \<not> ok (word_of_nat (candidate tc i k))" by (auto simp: thread_inv_def)
  then have "2 ^ (8 * n) \<le> candidate tc i m"
    using exhausted(4) endmask_test [OF assms(5) m(2) assms(3,4)] by simp
  then have "thread_inv ok tc n (loclass_found c) i (Returned None)"
    using m(3) candidate_mono by (auto simp: thread_inv_def)
  then show ?thesis
    unfolding exhausted(1) by (intro bf_inv_update [OF assms(2) i]) (simp_all add: exhausted(3))
next
  case (stopped i b)
  then have "i < tc" "thread_inv ok tc n (loclass_found c) i (Returned None)"
    using assms(2) by (auto simp: bf_inv_def thread_inv_def)
  then show ?thesis
    unfolding stopped(1) by (intro bf_inv_update [OF assms(2)]) (simp_all add: stopped(3))
next
  case (attempt i b)
  then have i: "i < tc" and h: "thread_inv ok tc n (loclass_found c) i (Head b)"
    using assms(2) unfolding bf_inv_def by metis+
  then obtain m where m: "b = word_of_nat (candidate tc i m)" "candidate tc i m < 2 ^ (8 * n) + tc"
    "\<forall>k<m. \<not> ok (word_of_nat (candidate tc i k))" by (auto simp: thread_inv_def)
  then have "candidate tc i m < 2 ^ (8 * n)"
    using attempt(4) endmask_test [OF assms(5) m(2) assms(3,4)] by simp
  then have "thread_inv ok tc n (loclass_found c) i (Work b)"
    using m by (auto simp: thread_inv_def)
  then show ?thesis
    unfolding attempt(1) by (intro bf_inv_update [OF assms(2) i]) (simp_all add: attempt(3))
next
  case (found i b)
  then have i: "i < tc" and h: "thread_inv ok tc n (loclass_found c) i (Work b)"
    using assms(2) unfolding bf_inv_def by metis+
  then obtain m where m: "b = word_of_nat (candidate tc i m)" "candidate tc i m < 2 ^ (8 * n)"
    by (auto simp: thread_inv_def)
  have ne: "int i \<noteq> 0xFF" using i assms(3) by simp
  have "unat (word_of_nat k :: u32) \<le> k" for k
    by (simp add: unat_of_nat)
  then have "unat b < 2 ^ (8 * n)" using m by (metis le_less_trans)
  then have "thread_inv ok tc n (int i) i (Returned (Some (brute_values n b)))"
    using found(4) ne by (auto simp: thread_inv_def)
  then show ?thesis
    using assms(2) i ne unfolding found(1) bf_inv_def
    by (auto simp: nth_list_update intro: thread_inv_found)
next
  case (next_brute i b)
  then have i: "i < tc" and h: "thread_inv ok tc n (loclass_found c) i (Work b)"
    using assms(2) unfolding bf_inv_def by metis+
  then obtain m where m: "b = word_of_nat (candidate tc i m)" "candidate tc i m < 2 ^ (8 * n)"
    "\<forall>k<m. \<not> ok (word_of_nat (candidate tc i k))" by (auto simp: thread_inv_def)
  then have "thread_inv ok tc n (loclass_found c) i (Head (b + word_of_nat tc))"
    using next_brute(4) unfolding thread_inv_def bf_thread.case
    by (intro exI [of _ "Suc m"]) (auto simp: candidate_Suc less_Suc_eq)
  then show ?thesis
    unfolding next_brute(1) by (intro bf_inv_update [OF assms(2) i]) (simp_all add: next_brute(3))
qed

lemma bf_inv_init: "tc \<le> 255 \<Longrightarrow> bf_inv ok tc n (bf_init tc)"
  by (auto simp: bf_inv_def bf_init_def thread_inv_def candidate_def intro!: exI [of _ 0])

subsection \<open>Every run ends\<close>

definition thread_weight :: "nat \<Rightarrow> nat \<Rightarrow> bf_thread \<Rightarrow> nat" where
  "thread_weight tc n t = (case t of
      Head b \<Rightarrow> 2 * (2 ^ (8 * n) + tc - unat b)
    | Work b \<Rightarrow> 2 * (2 ^ (8 * n) + tc - unat b) - 1
    | Returned _ \<Rightarrow> 0)"

definition weight :: "nat \<Rightarrow> nat \<Rightarrow> bf_config \<Rightarrow> nat" where
  "weight tc n c = sum_list (map (thread_weight tc n) (threads c))"

lemma weight_update:
  "i < length ts \<Longrightarrow> thread_weight tc n t < thread_weight tc n (ts ! i) \<Longrightarrow>
   sum_list (map (thread_weight tc n) (ts[i := t])) < sum_list (map (thread_weight tc n) ts)"
  by (induction ts arbitrary: i) (auto split: nat.splits)

lemma unat_candidate:
  assumes "n \<le> 3" "0 < n" "tc \<le> 255" "m < 2 ^ (8 * n) + tc"
  shows "unat (word_of_nat m :: u32) = m"
proof -
  have "n = 1 \<or> n = 2 \<or> n = 3" using assms(1,2) by linarith
  then have "m < 2 ^ 32" using assms(3,4) by auto
  then show ?thesis by (simp add: unat_of_nat)
qed

lemma bf_step_weight:
  assumes "bf_step ok tc n c c'" "bf_inv ok tc n c" "0 < tc" "tc \<le> 255" "0 < n" "n \<le> 3"
  shows "weight tc n c' < weight tc n c"
  using assms(1)
proof cases
  case (exhausted i b)
  then have i: "i < tc" and h: "thread_inv ok tc n (loclass_found c) i (Head b)"
    using assms(2) unfolding bf_inv_def by metis+
  then obtain m where m: "b = word_of_nat m" "m < 2 ^ (8 * n) + tc" by (auto simp: thread_inv_def)
  then show ?thesis
    using exhausted unat_candidate [OF assms(6,5,4) m(2)] by (simp add: weight_def weight_update thread_weight_def)
next
  case (stopped i b)
  then have i: "i < tc" and h: "thread_inv ok tc n (loclass_found c) i (Head b)"
    using assms(2) unfolding bf_inv_def by metis+
  then obtain m where m: "b = word_of_nat m" "m < 2 ^ (8 * n) + tc" by (auto simp: thread_inv_def)
  then show ?thesis
    using stopped unat_candidate [OF assms(6,5,4) m(2)] by (simp add: weight_def weight_update thread_weight_def)
next
  case (attempt i b)
  then have i: "i < tc" and h: "thread_inv ok tc n (loclass_found c) i (Head b)"
    using assms(2) unfolding bf_inv_def by metis+
  then obtain m where m: "b = word_of_nat m" "m < 2 ^ (8 * n) + tc" by (auto simp: thread_inv_def)
  then show ?thesis
    using attempt unat_candidate [OF assms(6,5,4) m(2)] by (simp add: weight_def weight_update thread_weight_def)
next
  case (found i b)
  then have i: "i < tc" and h: "thread_inv ok tc n (loclass_found c) i (Work b)"
    using assms(2) unfolding bf_inv_def by metis+
  then obtain m where m: "b = word_of_nat m" "m < 2 ^ (8 * n)" by (auto simp: thread_inv_def)
  then show ?thesis
    using found assms(3) unat_candidate [OF assms(6,5,4), of m] by (simp add: weight_def weight_update thread_weight_def)
next
  case (next_brute i b)
  then have i: "i < tc" and h: "thread_inv ok tc n (loclass_found c) i (Work b)"
    using assms(2) unfolding bf_inv_def by metis+
  then obtain m where m: "b = word_of_nat m" "m < 2 ^ (8 * n)" by (auto simp: thread_inv_def)
  have "unat (b + word_of_nat tc) = m + tc" "unat b = m"
    using m(2) unat_candidate [OF assms(6,5,4), of m] unat_candidate [OF assms(6,5,4), of "m + tc"] by (simp_all add: m(1))
  then show ?thesis
    using next_brute assms(3) m(2) by (simp add: weight_def weight_update thread_weight_def)
qed

lemma bf_run:
  assumes "(bf_step ok tc n ^^ k) (bf_init tc) c" "0 < tc" "tc \<le> 255" "0 < n" "n \<le> 3"
  shows "bf_inv ok tc n c \<and> weight tc n c + k \<le> weight tc n (bf_init tc)"
  using assms(1)
proof (induction k arbitrary: c)
  case 0
  then show ?case using bf_inv_init [OF assms(3)] by simp
next
  case (Suc k)
  then obtain d where d: "(bf_step ok tc n ^^ k) (bf_init tc) d" "bf_step ok tc n d c" by auto
  then show ?case
    using Suc.IH [OF d(1)] bf_step_inv [OF d(2) _ assms(3-5)] bf_step_weight [OF d(2) _ assms(2-5)] by force
qed

lemma weight_init: "weight tc n (bf_init tc) \<le> tc * (2 * (2 ^ (8 * n) + tc))"
proof -
  have s: "sum_list (map (thread_weight tc n) ts) \<le> length ts * w" if "\<forall>t\<in>set ts. thread_weight tc n t \<le> w" for ts w
    using that by (induction ts) (auto intro: add_mono)
  have "\<forall>t\<in>set (threads (bf_init tc)). thread_weight tc n t \<le> 2 * (2 ^ (8 * n) + tc)"
    by (auto simp: bf_init_def thread_weight_def intro: diff_le_self)
  then have "weight tc n (bf_init tc) \<le> length (threads (bf_init tc)) * (2 * (2 ^ (8 * n) + tc))"
    unfolding weight_def by (rule s)
  then show ?thesis by (simp add: bf_init_def)
qed

lemma bf_progress:
  assumes "\<not> bf_joined c"
  shows "\<exists>c'. bf_step ok tc n c c'"
proof -
  obtain t where "t \<in> set (threads c)" "\<forall>r. t \<noteq> Returned r"
    using assms by (auto simp: bf_joined_def list_all_iff split: bf_thread.splits)
  then obtain i where i: "i < length (threads c)" "\<forall>r. threads c ! i \<noteq> Returned r"
    by (auto simp: in_set_conv_nth)
  show ?thesis
  proof (cases "threads c ! i")
    case (Head b)
    then show ?thesis using i(1) bf_step.exhausted bf_step.stopped bf_step.attempt by (metis (full_types))
  next
    case (Work b)
    then show ?thesis using i(1) bf_step.found bf_step.next_brute by (metis (full_types))
  qed (use i in auto)
qed

lemma bf_joined_nth: "bf_joined c \<Longrightarrow> i < length (threads c) \<Longrightarrow> \<exists>r. threads c ! i = Returned r"
  by (cases "threads c ! i") (fastforce simp: bf_joined_def list_all_length)+

text \<open>Every value below the end mask is a candidate of one thread.\<close>

lemma candidate_cover: "0 < tc \<Longrightarrow> \<exists>i<tc. \<exists>m. b = candidate tc i m"
  by (metis candidate_def div_mult_mod_eq mod_less_divisor add.commute)

lemma bf_verdict:
  assumes "bf_inv ok tc n c" "bf_joined c" "0 < tc" "0 < n" "n \<le> 3"
  shows "loclass_found c = 0xFF \<longleftrightarrow> \<not> (\<exists>b. unat b < 2 ^ (8 * n) \<and> ok b)"
proof
  assume f: "loclass_found c = 0xFF"
  show "\<not> (\<exists>b. unat b < 2 ^ (8 * n) \<and> ok b)"
  proof (intro notI, elim exE conjE)
    fix b :: u32 assume b: "unat b < 2 ^ (8 * n)" "ok b"
    obtain i m where i: "i < tc" "unat b = candidate tc i m" using candidate_cover [OF assms(3)] by metis
    have "threads c ! i = Returned None \<or> (\<exists>v. threads c ! i = Returned (Some v))"
      using bf_joined_nth [OF assms(2), of i] i(1) assms(1) by (auto simp: bf_inv_def)
    moreover have "thread_inv ok tc n 0xFF i (threads c ! i)" using assms(1) i(1) f by (simp add: bf_inv_def)
    ultimately have "\<not> ok (word_of_nat (candidate tc i m))"
      using b(1) i(2) by (auto simp: thread_inv_def)
    then show False using b(2) by (simp flip: i(2))
  qed
next
  assume none: "\<not> (\<exists>b. unat b < 2 ^ (8 * n) \<and> ok b)"
  show "loclass_found c = 0xFF"
  proof (rule ccontr)
    assume "loclass_found c \<noteq> 0xFF"
    then obtain i v where "i < tc" "threads c ! i = Returned (Some v)"
      using assms(1) by (auto simp: bf_inv_def)
    then have "thread_inv ok tc n (loclass_found c) i (Returned (Some v))" using assms(1) by (metis bf_inv_def)
    then show False using none by (auto simp: thread_inv_def)
  qed
qed

text \<open>The two steps of the only run of one thread that misses one byte and accepts the value 0.\<close>

lemma example_run:
  "bf_step ok 1 1 (bf_init 1) \<lparr>loclass_found = 0xFF, threads = [Work 0]\<rparr>"
  "ok 0 \<Longrightarrow> bf_step ok 1 1 \<lparr>loclass_found = 0xFF, threads = [Work 0]\<rparr>
    \<lparr>loclass_found = 0, threads = [Returned (Some (brute_values 1 0))]\<rparr>"
proof -
  have i: "bf_init 1 = \<lparr>loclass_found = 0xFF, threads = [Head 0]\<rparr>"
    by (simp add: bf_init_def)
  show "bf_step ok 1 1 (bf_init 1) \<lparr>loclass_found = 0xFF, threads = [Work 0]\<rparr>"
    unfolding i using bf_step.attempt [of 0 "\<lparr>loclass_found = 0xFF, threads = [Head 0]\<rparr>" 0 1 ok 1] by simp
  show "ok 0 \<Longrightarrow> bf_step ok 1 1 \<lparr>loclass_found = 0xFF, threads = [Work 0]\<rparr>
      \<lparr>loclass_found = 0, threads = [Returned (Some (brute_values 1 0))]\<rparr>"
    using bf_step.found [of 0 "\<lparr>loclass_found = 0xFF, threads = [Work 0]\<rparr>" 0 ok 1 1] by simp
qed

lemma example_search:
  "ok 0 \<Longrightarrow> (bf_step ok 1 1)\<^sup>*\<^sup>* (bf_init 1) \<lparr>loclass_found = 0, threads = [Returned (Some (brute_values 1 0))]\<rparr>"
  using example_run [of ok] by (meson converse_rtranclp_into_rtranclp rtranclp.rtrancl_refl)

text \<open>C22: 
  The search comes to an end in whatever order its threads are scheduled: no run has more than
  \<open>2 tc (2^(8n) + tc)\<close> steps, and as long as a thread has not returned some thread can make a step,
  so every run that is continued long enough ends with all threads returned.
\<close>

theorem search_terminates:
  assumes "0 < tc" "tc \<le> 255" "0 < n" "n \<le> 3" "(bf_step ok tc n ^^ k) (bf_init tc) c"
  shows "k \<le> tc * (2 * (2 ^ (8 * n) + tc)) \<and> (bf_joined c \<or> (\<exists>c'. bf_step ok tc n c c'))"
  using bf_run [OF assms(5,1-4)] weight_init [of tc n] bf_progress [of c ok tc n] by auto

text \<open>One thread, one missing byte, and the value 0 is accepted: the run takes two steps.\<close>

lemma search_terminates_witness:
  "(2 :: nat) \<le> 1 * (2 * (2 ^ (8 * 1) + 1)) \<and>
   (bf_joined \<lparr>loclass_found = 0, threads = [Returned (Some (brute_values 1 0))]\<rparr> \<or>
    (\<exists>c'. bf_step (\<lambda>b. b = 0) 1 1 \<lparr>loclass_found = 0, threads = [Returned (Some (brute_values 1 0))]\<rparr> c'))"
proof (rule search_terminates)
  show "(bf_step (\<lambda>b. b = 0) 1 1 ^^ 2) (bf_init 1) \<lparr>loclass_found = 0, threads = [Returned (Some (brute_values 1 0))]\<rparr>"
    using example_run [of "\<lambda>b. b = 0"] by (auto simp: numeral_2_eq_2)
qed simp_all

lemma reachable_inv:
  assumes "(bf_step ok tc n)\<^sup>*\<^sup>* (bf_init tc) c" "0 < tc" "tc \<le> 255" "0 < n" "n \<le> 3"
  shows "bf_inv ok tc n c"
  using assms(1) by (induction rule: rtranclp_induct) (use assms bf_inv_init bf_step_inv in blast)+

lemma search_result:
  assumes "0 < tc" "tc \<le> 255" "0 < n" "n \<le> 3" "(bf_step ok tc n)\<^sup>*\<^sup>* (bf_init tc) c" "bf_joined c"
  shows "loclass_found c = 0xFF \<longleftrightarrow> \<not> (\<exists>b. unat b < 2 ^ (8 * n) \<and> ok b)"
    and "loclass_found c \<noteq> 0xFF \<Longrightarrow> \<exists>i<tc. \<exists>b. loclass_found c = int i \<and> unat b < 2 ^ (8 * n) \<and> ok b \<and>
      threads c ! i = Returned (Some (brute_values n b))"
proof -
  have inv: "bf_inv ok tc n c" using reachable_inv [OF assms(5,1-4)] .
  show "loclass_found c = 0xFF \<longleftrightarrow> \<not> (\<exists>b. unat b < 2 ^ (8 * n) \<and> ok b)"
    by (rule bf_verdict [OF inv assms(6,1,3,4)])
  assume "loclass_found c \<noteq> 0xFF"
  then obtain i v where i: "i < tc" "loclass_found c = int i" "threads c ! i = Returned (Some v)"
    using inv by (auto simp: bf_inv_def)
  then have "thread_inv ok tc n (loclass_found c) i (Returned (Some v))" using inv by (metis bf_inv_def)
  then show "\<exists>i<tc. \<exists>b. loclass_found c = int i \<and> unat b < 2 ^ (8 * n) \<and> ok b \<and>
      threads c ! i = Returned (Some (brute_values n b))"
    using i by (auto simp: thread_inv_def)
qed

text \<open>
  Once all threads are joined, \<open>loclass_found\<close> is still \<open>0xFF\<close> exactly when no value below the
  end mask is accepted; otherwise it names a thread that returned the bytes of an accepted value.
\<close>

theorem search_verdict:
  assumes "0 < tc" "tc \<le> 255" "0 < n" "n \<le> 3" "(bf_step ok tc n)\<^sup>*\<^sup>* (bf_init tc) c" "bf_joined c"
  shows "(loclass_found c = 0xFF \<longleftrightarrow> \<not> (\<exists>b. unat b < 2 ^ (8 * n) \<and> ok b)) \<and>
    (loclass_found c \<noteq> 0xFF \<longrightarrow> (\<exists>i<tc. \<exists>b. loclass_found c = int i \<and> unat b < 2 ^ (8 * n) \<and> ok b \<and>
      threads c ! i = Returned (Some (brute_values n b))))"
  using search_result [OF assms] by blast

lemma search_verdict_witness:
  "\<exists>b. unat b < 2 ^ (8 * 1) \<and> b = (0 :: u32)"
  using search_verdict [OF _ _ _ _ example_search [of "\<lambda>b. b = 0"]] by (simp add: bf_joined_def)

end
