(* ===== verification/Iclass_Attack.thy ===== *)
theory Iclass_Attack
  imports Iclass_Search
begin

text \<open>
  The attack on the elite key table: what \<open>bruteforceItem\<close> does to the table on each of its
  paths, and what a successful \<open>bruteforceDump\<close> establishes.
\<close>

subsection \<open>Markers\<close>

definition marked :: "u16 list \<Rightarrow> u16 \<Rightarrow> u8 \<Rightarrow> bool" where
  "marked kt m k \<longleftrightarrow> kt ! unat k AND m \<noteq> 0"

text \<open>A table without a byte that is being cracked, as it is between two calls.\<close>

definition clean_table :: "u16 list \<Rightarrow> bool" where
  "clean_table kt \<longleftrightarrow> length kt = 128 \<and> (\<forall>w\<in>set kt. w AND LOCLASS_BEING_CRACKED = 0)"

lemma marker_bits:
  "w AND LOCLASS_CRACKED \<noteq> 0 \<longleftrightarrow> bit w 8"
  "w AND LOCLASS_BEING_CRACKED \<noteq> 0 \<longleftrightarrow> bit w 9"
  "w AND (LOCLASS_CRACKED OR LOCLASS_BEING_CRACKED) \<noteq> 0 \<longleftrightarrow> bit w 8 \<or> bit w 9"
proof -
  have m: "LOCLASS_CRACKED = 2 ^ 8" "LOCLASS_BEING_CRACKED = 2 ^ 9"
    by (simp_all add: LOCLASS_CRACKED_def LOCLASS_BEING_CRACKED_def)
  show 1: "w AND LOCLASS_CRACKED \<noteq> 0 \<longleftrightarrow> bit w 8" and 2: "w AND LOCLASS_BEING_CRACKED \<noteq> 0 \<longleftrightarrow> bit w 9"
    unfolding m and_exp_eq_0_iff_not_bit by simp_all
  have "w AND (LOCLASS_CRACKED OR LOCLASS_BEING_CRACKED) = (w AND LOCLASS_CRACKED) OR (w AND LOCLASS_BEING_CRACKED)"
    by (rule bit_word_eqI) (auto simp: word_bits)
  then show "w AND (LOCLASS_CRACKED OR LOCLASS_BEING_CRACKED) \<noteq> 0 \<longleftrightarrow> bit w 8 \<or> bit w 9"
    using 1 2 by (simp add: or_eq_0_iff)
qed

lemma bit_markers:
  "bit LOCLASS_CRACKED n \<longleftrightarrow> n = 8" "bit LOCLASS_BEING_CRACKED n \<longleftrightarrow> n = 9" "bit LOCLASS_CRACK_FAILED n \<longleftrightarrow> n = 10"
proof -
  have c: "LOCLASS_CRACKED = 2 ^ 8" "LOCLASS_BEING_CRACKED = 2 ^ 9" "LOCLASS_CRACK_FAILED = 2 ^ 10"
    by (simp_all add: LOCLASS_CRACKED_def LOCLASS_BEING_CRACKED_def LOCLASS_CRACK_FAILED_def)
  show "bit LOCLASS_CRACKED n \<longleftrightarrow> n = 8" "bit LOCLASS_BEING_CRACKED n \<longleftrightarrow> n = 9" "bit LOCLASS_CRACK_FAILED n \<longleftrightarrow> n = 10"
    unfolding c bit_exp_iff by auto
qed

subsection \<open>Collecting the missing bytes\<close>

text \<open>The state of the first loop, relative to the table at entry.\<close>

definition col_inv :: "u16 list \<Rightarrow> bytes \<Rightarrow> nat \<Rightarrow> u16 list \<Rightarrow> bool" where
  "col_inv kt0 btr n kt \<longleftrightarrow> n \<le> 3 \<and> length btr = 3 \<and> length kt = 128 \<and> distinct (take n btr) \<and>
    (\<forall>b\<in>set (take n btr). unat b < 128 \<and> \<not> bit (kt0 ! unat b) 8) \<and>
    (\<forall>k. unat k < 128 \<longrightarrow> kt ! unat k =
      (if k \<in> set (take n btr) then kt0 ! unat k OR LOCLASS_BEING_CRACKED else kt0 ! unat (k :: u8)))"

lemma col_inv_add:
  assumes "col_inv kt0 btr n kt" "unat k < 128" "\<not> bit (kt ! unat k) 8" "\<not> bit (kt ! unat k) 9" "n < 3"
  shows "col_inv kt0 (btr[n := k]) (n + 1) (kt[unat k := kt ! unat k OR LOCLASS_BEING_CRACKED])"
proof -
  have new: "k \<notin> set (take n btr)"
    using assms(1,2,4) by (auto simp: col_inv_def word_bits bit_markers)
  have t: "take (n + 1) (btr[n := k]) = take n btr @ [k]"
    using assms(1,5) by (simp add: col_inv_def take_Suc_conv_app_nth)
  have k: "kt ! unat k = kt0 ! unat k" using assms(1,2) new by (simp add: col_inv_def)
  show ?thesis
    using assms new k unfolding col_inv_def t by (auto simp: nth_list_update simp flip: word_unat_eq_iff)
qed

lemma take_collected: "n < 3 \<Longrightarrow> length btr = 3 \<Longrightarrow> set (take (n + 1) (btr[n := ki])) = set (take n btr) \<union> {ki}"
  by (auto simp: take_Suc_conv_app_nth)

lemma collect_Inr:
  assumes "collect kis btr n kt = Inr (btr', n', kt')" "col_inv kt0 btr n kt" "\<forall>k\<in>set kis. unat k < 128"
  shows "col_inv kt0 btr' n' kt' \<and> (\<forall>k\<in>set kis. bit (kt' ! unat k) 8 \<or> bit (kt' ! unat k) 9) \<and>
    (\<forall>k. unat k < 128 \<longrightarrow> bit (kt ! unat k) 8 \<or> bit (kt ! unat k) 9 \<longrightarrow> kt' ! unat (k :: u8) = kt ! unat k) \<and>
    set (take n' btr') \<subseteq> set (take n btr) \<union> set kis"
  using assms
proof (induction kis btr n kt rule: collect.induct)
  case (2 ki kis btr n kt)
  show ?case
  proof (cases "bit (kt ! unat ki) 8 \<or> bit (kt ! unat ki) 9")
    case True
    then show ?thesis using 2 by (auto simp: marker_bits)
  next
    case False
    then have n: "n < 3" using 2(3) by (auto simp: marker_bits Let_def split: if_splits)
    define kt1 where "kt1 = kt[unat ki := kt ! unat ki OR LOCLASS_BEING_CRACKED]"
    have l: "length kt = 128" "unat ki < 128" using 2(4,5) by (auto simp: col_inv_def)
    have "col_inv kt0 (btr[n := ki]) (n + 1) kt1"
      using col_inv_add [OF 2(4) l(2) _ _ n] False by (simp add: kt1_def)
    moreover have "collect kis (btr[n := ki]) (n + 1) kt1 = Inr (btr', n', kt')"
      using 2(3) False n by (simp add: marker_bits Let_def kt1_def)
    ultimately have r: "col_inv kt0 btr' n' kt'" "\<forall>k\<in>set kis. bit (kt' ! unat k) 8 \<or> bit (kt' ! unat k) 9"
      "\<forall>k. unat k < 128 \<longrightarrow> bit (kt1 ! unat k) 8 \<or> bit (kt1 ! unat k) 9 \<longrightarrow> kt' ! unat (k :: u8) = kt1 ! unat k"
      "set (take n' btr') \<subseteq> set (take (n + 1) (btr[n := ki])) \<union> set kis"
      using 2(2) 2(5) False n by (simp_all add: marker_bits Let_def flip: kt1_def)
    have lb: "length btr = 3" using 2(4) by (simp add: col_inv_def)
    have sub: "set (take n' btr') \<subseteq> set (take n btr) \<union> set (ki # kis)"
      using r(4) unfolding take_collected [OF n lb] by auto
    have "bit (kt1 ! unat ki) 9" using l by (simp add: kt1_def word_bits bit_markers)
    then have "bit (kt' ! unat ki) 9" using r(3) l(2) by metis
    moreover have "kt' ! unat k = kt ! unat k" if "unat k < 128" "bit (kt ! unat k) 8 \<or> bit (kt ! unat k) 9" for k :: u8
    proof -
      have "unat ki \<noteq> unat k" using that(2) False by metis
      then have "kt1 ! unat k = kt ! unat k" by (simp add: kt1_def)
      then show ?thesis using r(3) that by metis
    qed
    ultimately show ?thesis using r(1,2) sub by auto
  qed
qed auto

text \<open>The early return leaves the marker of the fourth byte in the table.\<close>

lemma clear_markers:
  assumes "length bs = 3" "distinct bs" "length kt = 128" "\<forall>b\<in>set bs. unat b < 128" "unat (k :: u8) < 128"
  shows "fold (\<lambda>j kt. kt[unat (bs ! j) := kt ! unat (bs ! j) AND m]) [0..<3] kt ! unat k =
    (if k \<in> set bs then kt ! unat k AND m else kt ! unat k)"
proof -
  obtain a b c where bs: "bs = [a, b, c]" using assms(1) by (auto simp: numeral_3_eq_3 length_Suc_conv)
  have "[0..<3] = [0, 1, 2]" by code_simp
  then show ?thesis
    using assms by (auto simp: bs nth_list_update numeral_2_eq_2 simp flip: word_unat_eq_iff)
qed

lemma collect_Inl:
  assumes "collect kis btr n kt = Inl kt'" "col_inv kt0 btr n kt" "\<forall>k\<in>set kis. unat k < 128" "\<forall>w\<in>set kt0. \<not> bit w 9"
    "length kt0 = 128"
  shows "\<exists>k\<in>set kis. kt' = kt0[unat k := kt0 ! unat k OR LOCLASS_BEING_CRACKED] \<and> \<not> bit (kt0 ! unat k) 8"
  using assms
proof (induction kis btr n kt rule: collect.induct)
  case (2 ki kis btr n kt)
  show ?case
  proof (cases "bit (kt ! unat ki) 8 \<or> bit (kt ! unat ki) 9")
    case True
    then show ?thesis using 2 by (auto simp: marker_bits)
  next
    case False
    define kt1 where "kt1 = kt[unat ki := kt ! unat ki OR LOCLASS_BEING_CRACKED]"
    have l: "length kt = 128" "unat ki < 128" "n \<le> 3" using 2(4,5) by (auto simp: col_inv_def)
    show ?thesis
    proof (cases "n < 3")
      case n: True
      have "col_inv kt0 (btr[n := ki]) (n + 1) kt1"
        using col_inv_add [OF 2(4) l(2) _ _ n] False by (simp add: kt1_def)
      moreover have "collect kis (btr[n := ki]) (n + 1) kt1 = Inl kt'"
        using 2(3) False n by (simp add: marker_bits Let_def kt1_def)
      ultimately show ?thesis
        using 2(2) 2(5-7) False n by (auto simp: marker_bits Let_def kt1_def)
    next
      case n: False
      with l have n3: "n = 3" by simp
      have b: "length btr = 3" "distinct btr" "\<forall>b\<in>set btr. unat b < 128"
        "\<forall>k. unat k < 128 \<longrightarrow> kt ! unat k = (if k \<in> set btr then kt0 ! unat k OR LOCLASS_BEING_CRACKED else kt0 ! unat (k :: u8))"
        using 2(4) n3 by (auto simp: col_inv_def)
      have new: "ki \<notin> set btr" using b(4) l(2) False by (auto simp: word_bits bit_markers)
      then have k: "kt ! unat ki = kt0 ! unat ki" using b(4) l(2) by simp
      have beyond: "btr[3 := ki] = btr" using b(1) by (simp add: list_update_beyond)
      have "kt' = fold (\<lambda>j kt. kt[unat (btr ! j) := kt ! unat (btr ! j) AND NOT LOCLASS_BEING_CRACKED]) [0..<3] kt1"
        using 2(3) False n3 beyond by (simp add: marker_bits Let_def kt1_def)
      moreover have "length (fold (\<lambda>j kt. kt[unat (btr ! j) := kt ! unat (btr ! j) AND NOT LOCLASS_BEING_CRACKED]) xs kt1) = length kt1" for xs
        by (induction xs rule: rev_induct) simp_all
      ultimately have kt': "length kt' = 128"
        "unat k < 128 \<Longrightarrow> kt' ! unat k = (if k \<in> set btr then kt1 ! unat k AND NOT LOCLASS_BEING_CRACKED else kt1 ! unat (k :: u8))" for k
        using clear_markers [OF b(1,2) _ b(3), of kt1 k] l(1) by (simp_all add: kt1_def)
      have "kt' = kt0[unat ki := kt0 ! unat ki OR LOCLASS_BEING_CRACKED]"
      proof (rule nth_equalityI)
        fix i assume "i < length kt'"
        then have i: "i < 128" "unat (word_of_nat i :: u8) = i" using kt'(1) by (simp_all add: unat_of_nat)
        let ?k = "word_of_nat i :: u8"
        have c: "\<not> bit (kt0 ! i) 9" using 2(6,7) i by simp
        have "kt' ! i = (if ?k \<in> set btr then kt1 ! i AND NOT LOCLASS_BEING_CRACKED else kt1 ! i)"
          using kt'(2) [of ?k] i by simp
        also have "kt1 ! i = (if ?k = ki then kt0 ! i OR LOCLASS_BEING_CRACKED else if ?k \<in> set btr then kt0 ! i OR LOCLASS_BEING_CRACKED else kt0 ! i)"
          using b(4) [rule_format, of ?k] i l k by (auto simp: kt1_def nth_list_update)
        finally have "kt' ! i = (if ?k = ki then kt0 ! i OR LOCLASS_BEING_CRACKED else kt0 ! i)"
          using new c by (auto intro!: bit_word_eqI simp: word_bits bit_markers)
        then show "kt' ! i = kt0[unat ki := kt0 ! unat ki OR LOCLASS_BEING_CRACKED] ! i"
          using i 2(7) l(2) by (auto simp: nth_list_update)
      qed (simp add: kt' 2(7))
      then show ?thesis using False k by auto
    qed
  qed
qed auto

lemma collect_Inl_card:
  assumes "collect kis btr n kt = Inl kt'" "col_inv kt0 btr n kt" "\<forall>k\<in>set kis. unat k < 128"
  shows "4 \<le> card {k \<in> set (take n btr) \<union> set kis. \<not> bit (kt0 ! unat k) 8}"
  using assms
proof (induction kis btr n kt rule: collect.induct)
  case (2 ki kis btr n kt)
  let ?M = "\<lambda>A. {k \<in> A \<union> set kis. \<not> bit (kt0 ! unat k) 8}"
  have fin: "finite (?M A)" if "finite A" for A using that by simp
  show ?case
  proof (cases "bit (kt ! unat ki) 8 \<or> bit (kt ! unat ki) 9")
    case True
    then have "4 \<le> card (?M (set (take n btr)))" using 2 by (auto simp: marker_bits)
    also have "\<dots> \<le> card {k \<in> set (take n btr) \<union> set (ki # kis). \<not> bit (kt0 ! unat k) 8}"
      by (rule card_mono) auto
    finally show ?thesis .
  next
    case False
    define kt1 where "kt1 = kt[unat ki := kt ! unat ki OR LOCLASS_BEING_CRACKED]"
    have l: "length btr = 3" "unat ki < 128" "n \<le> 3" using 2(4,5) by (auto simp: col_inv_def)
    show ?thesis
    proof (cases "n < 3")
      case n: True
      have "col_inv kt0 (btr[n := ki]) (n + 1) kt1"
        using col_inv_add [OF 2(4) l(2) _ _ n] False by (simp add: kt1_def)
      moreover have "collect kis (btr[n := ki]) (n + 1) kt1 = Inl kt'"
        using 2(3) False n by (simp add: marker_bits Let_def kt1_def)
      ultimately have "4 \<le> card (?M (set (take (n + 1) (btr[n := ki]))))"
        using 2(2,5) False n by (simp add: marker_bits Let_def flip: kt1_def)
      then show ?thesis using take_collected [OF n l(1)] by simp
    next
      case n: False
      with l have n3: "n = 3" by simp
      have b: "distinct btr" "\<forall>b\<in>set btr. \<not> bit (kt0 ! unat b) 8"
        "kt ! unat ki = (if ki \<in> set btr then kt0 ! unat ki OR LOCLASS_BEING_CRACKED else kt0 ! unat ki)"
        using 2(4) n3 l(1,2) by (auto simp: col_inv_def)
      have new: "ki \<notin> set btr" using b(3) False by (auto simp: word_bits bit_markers)
      then have "card (insert ki (set btr)) = 4" using b(1) l(1) by (simp add: distinct_card)
      moreover have "insert ki (set btr) \<subseteq> {k \<in> set (take n btr) \<union> set (ki # kis). \<not> bit (kt0 ! unat k) 8}"
        using b new False n3 l(1) by auto
      then have "card (insert ki (set btr)) \<le> card {k \<in> set (take n btr) \<union> set (ki # kis). \<not> bit (kt0 ! unat k) 8}"
        by (rule card_mono [rotated]) simp
      ultimately show ?thesis by simp
    qed
  qed
qed simp

subsection \<open>The bytes that the search writes\<close>

lemma col_inv_init: "clean_table kt \<Longrightarrow> col_inv kt [0, 0, 0] 0 kt"
  by (simp add: col_inv_def clean_table_def)

lemma clean_nth: "clean_table kt \<Longrightarrow> i < 128 \<Longrightarrow> \<not> bit (kt ! i) 9"
  unfolding clean_table_def using marker_bits(2) nth_mem by metis

lemma clean_intro: "length kt = 128 \<Longrightarrow> (\<And>k :: u8. unat k < 128 \<Longrightarrow> \<not> bit (kt ! unat k) 9) \<Longrightarrow> clean_table kt"
  unfolding clean_table_def
proof (intro conjI ballI)
  fix w assume a: "\<And>k :: u8. unat k < 128 \<Longrightarrow> \<not> bit (kt ! unat k) 9" "length kt = 128" "w \<in> set kt"
  then obtain i where "i < 128" "w = kt ! i" by (auto simp: in_set_conv_nth)
  then show "w AND LOCLASS_BEING_CRACKED = 0"
    using a(1) [of "word_of_nat i"] marker_bits(2) [of w] by (auto simp: unat_of_nat)
qed

lemma sel_brute_idx_props:
  assumes "length btr = 3" "n \<le> 3" "distinct (take n btr)"
  shows "sel_brute_idx btr n k = None \<longleftrightarrow> k \<notin> set (take n btr)"
    and "sel_brute_idx btr n k = Some j \<longleftrightarrow> j < n \<and> btr ! j = k"
proof -
  show "sel_brute_idx btr n k = None \<longleftrightarrow> k \<notin> set (take n btr)"
    using assms(1,2) by (auto simp: sel_brute_idx_def find_None_iff in_set_conv_nth)
  show "sel_brute_idx btr n k = Some j \<longleftrightarrow> j < n \<and> btr ! j = k"
  proof -
    have "i = j" if "i < n" "j < n" "btr ! i = btr ! j" for i j
      using assms that nth_eq_iff_index_eq [of "take n btr" i j] by simp
    then have "(\<exists>i<n. k = btr ! i \<and> j = i \<and> (\<forall>l<i. k \<noteq> btr ! l)) \<longleftrightarrow> j < n \<and> btr ! j = k"
      by (metis less_trans nat_less_le)
    then show ?thesis by (simp add: sel_brute_idx_def find_Some_iff cong: conj_cong)
  qed
qed

text \<open>The final loops write one entry for each of the missing bytes.\<close>

lemma write_found:
  assumes "length btr = 3" "n \<le> 3" "distinct (take n btr)" "length kt = 128" "\<forall>b\<in>set (take n btr). unat b < 128"
    "\<And>i kt. f i kt = kt[unat (btr ! i) := g i (kt ! unat (btr ! i))]" "unat (k :: u8) < 128"
  shows "fold f [0..<n] kt ! unat k = (case sel_brute_idx btr n k of None \<Rightarrow> kt ! unat k | Some j \<Rightarrow> g j (kt ! unat k))"
    and "length (fold f [0..<n] kt) = 128"
proof -
  have n: "[0..<0] = []" "[0..<1] = [0]" "[0..<2] = [0, 1]" "[0..<3] = [0, 1, 2 :: nat]" by code_simp+
  have c: "n = 0 \<or> n = 1 \<or> n = 2 \<or> n = 3" using assms(2) by linarith
  obtain a b d where b: "btr = [a, b, d]" using assms(1) by (auto simp: numeral_3_eq_3 length_Suc_conv)
  show "fold f [0..<n] kt ! unat k = (case sel_brute_idx btr n k of None \<Rightarrow> kt ! unat k | Some j \<Rightarrow> g j (kt ! unat k))"
    using c assms(3-5,7) unfolding sel_brute_idx_def b
    by (elim disjE) (auto simp: n assms(6) b numeral_2_eq_2 nth_list_update simp flip: word_unat_eq_iff)
  have "length (fold f xs kt) = length kt" for xs by (induction xs rule: rev_induct) (simp_all add: assms(6))
  then show "length (fold f [0..<n] kt) = 128" using assms(4) by simp
qed

subsection \<open>One item\<close>

text \<open>The MAC of an item is the one computed with the table's entries for its card.\<close>

definition explained :: "u16 list \<Rightarrow> dumpdata \<Rightarrow> bool" where
  "explained kt item = key_sel_matches item (map (\<lambda>k. ucast (kt ! unat k AND 0xFF)) (hash1 (d_csn item)))"

text \<open>The key selected by \<open>brute\<close> is the one of any table that agrees with it on the missing bytes.\<close>

lemma brute_key_sel_table:
  assumes "\<And>k. k \<in> set (hash1 csn) \<Longrightarrow> ucast (t ! unat k AND 0xFF) =
      (case sel_brute_idx btr n k of None \<Rightarrow> ucast (kt ! unat k AND 0xFF) | Some j \<Rightarrow> (ucast (shr b (j * 8) AND 0xFF) :: u8))"
  shows "map (\<lambda>k. ucast (t ! unat k AND 0xFF)) (hash1 csn) = brute_key_sel (hash1 csn) btr n kt b"
  unfolding brute_key_sel_def
  by (rule nth_equalityI) (simp_all add: hash1_range assms nth_mem cong: option.case_cong)

lemma searched_item:
  assumes "collect (hash1 csn) [0, 0, 0] 0 kt = Inr (btr, n, kt1)" "clean_table kt"
  shows "length btr = 3" "n \<le> 3" "distinct (take n btr)" "length kt1 = 128" "\<forall>b\<in>set (take n btr). unat b < 128"
    and "\<forall>b\<in>set (take n btr). \<not> bit (kt ! unat b) 8"
    and "\<And>k. k \<in> set (hash1 csn) \<Longrightarrow> sel_brute_idx btr n k = None \<Longrightarrow> bit (kt ! unat k) 8"
    and "\<And>k :: u8. unat k < 128 \<Longrightarrow> sel_brute_idx btr n k = None \<Longrightarrow> kt1 ! unat k = kt ! unat k"
    and "\<And>k j. unat k < 128 \<Longrightarrow> sel_brute_idx btr n k = Some j \<Longrightarrow> kt1 ! unat k = kt ! unat k OR LOCLASS_BEING_CRACKED"
proof -
  have c: "col_inv kt btr n kt1" "\<forall>k\<in>set (hash1 csn). bit (kt1 ! unat k) 8 \<or> bit (kt1 ! unat k) 9"
    using collect_Inr [OF assms(1) col_inv_init [OF assms(2)] hash1_range(2)] by blast+
  show 1: "length btr = 3" "n \<le> 3" "distinct (take n btr)" and "length kt1 = 128" "\<forall>b\<in>set (take n btr). unat b < 128"
    and "\<forall>b\<in>set (take n btr). \<not> bit (kt ! unat b) 8"
    using c(1) by (simp_all add: col_inv_def)
  show e: "kt1 ! unat k = kt ! unat k" if "unat k < 128" "sel_brute_idx btr n k = None" for k :: u8
    using c(1) that sel_brute_idx_props(1) [OF 1] by (simp add: col_inv_def)
  show "kt1 ! unat k = kt ! unat k OR LOCLASS_BEING_CRACKED" if "unat k < 128" "sel_brute_idx btr n k = Some j" for k j
    using c(1) that sel_brute_idx_props(1) [OF 1, of k] by (simp add: col_inv_def)
  show "bit (kt ! unat k) 8" if k: "k \<in> set (hash1 csn)" "sel_brute_idx btr n k = None" for k
    using c(2) k hash1_range(2) e [of k] clean_nth [OF assms(2), of "unat k"] by fastforce
qed

text \<open>The entries for a card that no earlier item has cracked.\<close>

definition missing :: "u16 list \<Rightarrow> bytes \<Rightarrow> u8 set" where
  "missing kt csn = set (filter (\<lambda>k. kt ! unat k AND LOCLASS_CRACKED = 0) (hash1 csn))"

lemma in_missing: "k \<in> missing kt csn \<longleftrightarrow> k \<in> set (hash1 csn) \<and> \<not> bit (kt ! unat k) 8"
  unfolding missing_def using marker_bits(1) by auto

lemma missing_eq: "missing kt csn = {k \<in> set (hash1 csn). \<not> bit (kt ! unat k) 8}"
  by (auto simp: in_missing)

lemma searched_missing:
  assumes "collect (hash1 csn) [0, 0, 0] 0 kt = Inr (btr, n, kt1)" "clean_table kt"
  shows "set (take n btr) = missing kt csn" "card (missing kt csn) = n"
proof -
  note s = searched_item [OF assms]
  have "set (take n btr) \<subseteq> set (hash1 csn)"
    using collect_Inr [OF assms(1) col_inv_init [OF assms(2)] hash1_range(2)] by simp
  then show 1: "set (take n btr) = missing kt csn"
    using s(6,7) sel_brute_idx_props(1) [OF s(1-3)] unfolding set_eq_iff in_missing by blast
  show "card (missing kt csn) = n"
    using distinct_card [OF s(3)] s(1,2) by (simp add: 1)
qed

lemma item_success:
  assumes "bruteforceItem tc item kt PM3_SUCCESS kt'" "clean_table kt" "0 < tc" "tc \<le> 255"
  shows "clean_table kt'" "explained kt' item" "\<forall>k\<in>set (hash1 (d_csn item)). bit (kt' ! unat k) 8"
    and "\<forall>k. unat k < 128 \<longrightarrow> k \<notin> missing kt (d_csn item) \<longrightarrow> kt' ! unat k = kt ! unat k"
proof -
  have ne: "PM3_SUCCESS \<noteq> PM3_ESOFT" by (simp add: PM3_SUCCESS_def PM3_ESOFT_def)
  from assms(1) ne obtain btr n kt1 c where r: "collect (hash1 (d_csn item)) [0, 0, 0] 0 kt = Inr (btr, n, kt1)" "0 < n"
    "(bf_step (\<lambda>b. key_sel_matches item (brute_key_sel (hash1 (d_csn item)) btr n kt1 b)) tc n)\<^sup>*\<^sup>* (bf_init tc) c"
    "bf_joined c" "conclude btr n kt1 c = (PM3_SUCCESS, kt')"
    by (auto elim: bruteforceItem.cases)
  note s = searched_item [OF r(1) assms(2)]
  have "loclass_found c \<noteq> 0xFF" using r(5) ne by (auto simp: conclude_def)
  then obtain i b where b: "loclass_found c = int i" "unat b < 2 ^ (8 * n)"
    "key_sel_matches item (brute_key_sel (hash1 (d_csn item)) btr n kt1 b)" "threads c ! i = Returned (Some (brute_values n b))"
    using search_result(2) [OF assms(3,4) r(2) s(2) r(3,4)] by blast
  let ?f = "\<lambda>i kt. kt[unat (btr ! i) := (ucast (brute_values n b ! i) AND 0xFF) OR LOCLASS_CRACKED]"
  have kt': "kt' = fold ?f [0..<n] kt1"
    using r(5) b(1,4) \<open>loclass_found c \<noteq> 0xFF\<close> by (simp add: conclude_def)
  note w = write_found [OF s(1-5), of ?f "\<lambda>i _. (ucast (brute_values n b ! i) AND 0xFF) OR LOCLASS_CRACKED", OF refl, folded kt']
  have e: "kt' ! unat k = (case sel_brute_idx btr n k of None \<Rightarrow> kt ! unat k
      | Some j \<Rightarrow> (ucast (brute_values n b ! j) AND 0xFF) OR LOCLASS_CRACKED)" if "unat k < 128" for k
    using w(1) [OF that] s(8) [OF that] by (simp split: option.splits)
  show "clean_table kt'"
    by (rule clean_intro) (use w(2) [of 0] clean_nth [OF assms(2)] in \<open>auto simp: e word_bits bit_markers split: option.splits\<close>)
  show "\<forall>k\<in>set (hash1 (d_csn item)). bit (kt' ! unat k) 8"
    using s(7) hash1_range(2) by (auto simp: e word_bits bit_markers split: option.splits)
  show "\<forall>k. unat k < 128 \<longrightarrow> k \<notin> missing kt (d_csn item) \<longrightarrow> kt' ! unat k = kt ! unat k"
  proof (intro allI impI)
    fix k :: u8 assume k: "unat k < 128" "k \<notin> missing kt (d_csn item)"
    then have "sel_brute_idx btr n k = None"
      using searched_missing(1) [OF r(1) assms(2)] sel_brute_idx_props(1) [OF s(1-3)] by simp
    then show "kt' ! unat k = kt ! unat k" using e [OF k(1)] by simp
  qed
  have "map (\<lambda>k. ucast (kt' ! unat k AND 0xFF)) (hash1 (d_csn item)) = brute_key_sel (hash1 (d_csn item)) btr n kt1 b"
  proof (rule brute_key_sel_table)
    fix k assume k: "k \<in> set (hash1 (d_csn item))"
    then have k128: "unat k < 128" using hash1_range(2) by blast
    show "ucast (kt' ! unat k AND 0xFF) =
      (case sel_brute_idx btr n k of None \<Rightarrow> ucast (kt1 ! unat k AND 0xFF) | Some j \<Rightarrow> (ucast (shr b (j * 8) AND 0xFF) :: u8))"
    proof (cases "sel_brute_idx btr n k")
      case None
      then show ?thesis using e [OF k128] s(8) [OF k128] by simp
    next
      case (Some j)
      then have "j < n" using sel_brute_idx_props(2) [OF s(1-3)] by simp
      then have j: "brute_values n b ! j = ucast (shr b (j * 8) AND 0xFF)" using s(2) by (simp add: brute_values_def)
      show ?thesis
        using Some e [OF k128] by (intro u8_eqI) (simp add: j word_bits bit_ucast_iff bit_markers)
    qed
  qed
  then show "explained kt' item" using b(3) by (simp add: explained_def)
qed

subsection \<open>All outcomes of an item\<close>

lemma pack_bytes:
  fixes v :: "nat \<Rightarrow> u8"
  assumes "n \<le> 3"
  shows "\<exists>b :: u32. unat b < 2 ^ (8 * n) \<and> (\<forall>j<n. ucast (shr b (j * 8) AND 0xFF) = v j)"
  using assms
proof (induction n)
  case (Suc n)
  then obtain b :: u32 where b: "unat b < 2 ^ (8 * n)" "\<forall>j<n. ucast (shr b (j * 8) AND 0xFF) = v j" by auto
  have hi: "\<not> bit b i" if "8 * n \<le> i" for i
  proof -
    have "unat b < 2 ^ i" using b(1) that by (meson less_le_trans one_le_numeral power_increasing)
    then have "\<not> bit (unat b) i" by (simp add: bit_iff_odd)
    then show ?thesis by (simp add: bit_unsigned_iff)
  qed
  let ?b = "b OR shl (ucast (v n)) (8 * n)"
  have "unat ?b < 2 ^ (8 * Suc n)"
    by (rule unat_lt_bits) (use hi in \<open>auto simp: word_bits bit_ucast_iff\<close>)
  moreover have "ucast (shr ?b (j * 8) AND 0xFF) = v j" if j: "j < Suc n" for j
  proof (rule u8_eqI)
    fix i :: nat assume i: "i < 8"
    show "bit (ucast (shr ?b (j * 8) AND 0xFF) :: u8) i = bit (v j) i"
    proof (cases "j = n")
      case True
      then show ?thesis using i Suc(2) hi [of "n * 8 + i"] by (simp add: word_bits bit_ucast_iff and_masks)
    next
      case False
      then have "j < n" using j by simp
      then have "bit (ucast (shr b (j * 8) AND 0xFF) :: u8) i = bit (v j) i" using b(2) by simp
      moreover have "j * 8 + i < 8 * n" using \<open>j < n\<close> i by simp
      ultimately show ?thesis using i by (simp add: word_bits bit_ucast_iff)
    qed
  qed
  ultimately show ?case by blast
qed (auto intro: exI [of _ 0])

text \<open>A value of \<open>brute\<close> that is accepted, exactly when some bytes for the missing entries explain the item.\<close>

lemma accepted_value:
  assumes "collect (hash1 (d_csn item)) [0, 0, 0] 0 kt = Inr (btr, n, kt1)" "clean_table kt" "explained t item"
    "\<And>k. k \<in> set (hash1 (d_csn item)) - missing kt (d_csn item) \<Longrightarrow> t ! unat k = kt ! unat k"
  shows "\<exists>b. unat b < 2 ^ (8 * n) \<and> key_sel_matches item (brute_key_sel (hash1 (d_csn item)) btr n kt1 b)"
proof -
  note s = searched_item [OF assms(1,2)]
  obtain b :: u32 where b: "unat b < 2 ^ (8 * n)" "\<forall>j<n. ucast (shr b (j * 8) AND 0xFF) = (ucast (t ! unat (btr ! j) AND 0xFF) :: u8)"
    using pack_bytes [OF s(2), of "\<lambda>j. ucast (t ! unat (btr ! j) AND 0xFF)"] by auto
  have "map (\<lambda>k. ucast (t ! unat k AND 0xFF)) (hash1 (d_csn item)) = brute_key_sel (hash1 (d_csn item)) btr n kt1 b"
  proof (rule brute_key_sel_table)
    fix k assume k: "k \<in> set (hash1 (d_csn item))"
    then have k128: "unat k < 128" using hash1_range(2) by blast
    show "ucast (t ! unat k AND 0xFF) =
      (case sel_brute_idx btr n k of None \<Rightarrow> ucast (kt1 ! unat k AND 0xFF) | Some j \<Rightarrow> (ucast (shr b (j * 8) AND 0xFF) :: u8))"
    proof (cases "sel_brute_idx btr n k")
      case None
      then have "t ! unat k = kt1 ! unat k" using assms(4) k s(7,8) k128 by (simp add: in_missing)
      then show ?thesis using None by simp
    next
      case (Some j)
      then have "j < n" "btr ! j = k" using sel_brute_idx_props(2) [OF s(1-3)] by simp_all
      then show ?thesis using b(2) Some by auto
    qed
  qed
  then show ?thesis using b(1) assms(3) by (auto simp: explained_def)
qed

lemma item_too_many:
  assumes "collect (hash1 csn) [0, 0, 0] 0 kt = Inl kt'" "clean_table kt"
  shows "3 < card (missing kt csn)" "\<exists>k\<in>missing kt csn. kt' = kt[unat k := kt ! unat k OR LOCLASS_BEING_CRACKED]"
proof -
  have c: "\<forall>w\<in>set kt. \<not> bit w 9" "length kt = 128"
    using assms(2) marker_bits(2) by (auto simp: clean_table_def)
  show "3 < card (missing kt csn)"
    using collect_Inl_card [OF assms(1) col_inv_init [OF assms(2)] hash1_range(2)] by (simp add: missing_eq)
  show "\<exists>k\<in>missing kt csn. kt' = kt[unat k := kt ! unat k OR LOCLASS_BEING_CRACKED]"
    using collect_Inl [OF assms(1) col_inv_init [OF assms(2)] hash1_range(2) c] by (auto simp: in_missing)
qed

text \<open>C20: 
  The outcome of \<open>bruteforceItem\<close>, for every schedule of its threads: it depends only on how many
  entries of the card are missing and on whether some values of them explain the recorded MAC.
\<close>

theorem item_outcome:
  assumes "bruteforceItem tc item kt res kt'" "clean_table kt" "0 < tc" "tc \<le> 255"
  shows "if missing kt (d_csn item) = {} then res = PM3_ESOFT \<and> kt' = kt
    else if 3 < card (missing kt (d_csn item)) then
      res = PM3_ESOFT \<and> (\<exists>k\<in>missing kt (d_csn item). kt' = kt[unat k := kt ! unat k OR LOCLASS_BEING_CRACKED])
    else if \<exists>t. explained t item \<and> (\<forall>k\<in>set (hash1 (d_csn item)) - missing kt (d_csn item). t ! unat k = kt ! unat k) then
      res = PM3_SUCCESS \<and> explained kt' item \<and> (\<forall>k\<in>missing kt (d_csn item). kt' ! unat k AND LOCLASS_CRACKED \<noteq> 0) \<and>
      (\<forall>k. unat k < 128 \<and> k \<notin> missing kt (d_csn item) \<longrightarrow> kt' ! unat k = kt ! unat (k :: u8))
    else res = PM3_ESOFT \<and> (\<forall>k. unat k < 128 \<longrightarrow> kt' ! unat k =
      (if k \<in> missing kt (d_csn item) then (kt ! unat k AND 0xFF) OR LOCLASS_CRACK_FAILED else kt ! unat (k :: u8)))"
  using assms(1)
proof cases
  case too_many
  then show ?thesis using item_too_many [OF too_many(2) assms(2)] by auto
next
  case (no_missing btr)
  note s = searched_item [OF no_missing(2) assms(2)] searched_missing [OF no_missing(2) assms(2)]
  have "kt' = kt"
  proof (rule nth_equalityI)
    show "length kt' = length kt" using s(4) assms(2) by (simp add: clean_table_def)
    fix i assume "i < length kt'"
    then show "kt' ! i = kt ! i" using s(4,10) s(8) [of "word_of_nat i"] by (simp add: unat_of_nat sel_brute_idx_def)
  qed
  then show ?thesis using no_missing s(10) by simp
next
  case (searched btr n kt1 c)
  note s = searched_item [OF searched(1) assms(2)] and m = searched_missing [OF searched(1) assms(2)]
  note r = search_result [OF assms(3,4) searched(2) s(2) searched(3,4)]
  have ne: "missing kt (d_csn item) \<noteq> {}" "\<not> 3 < card (missing kt (d_csn item))"
    using m(2) searched(2) s(2) by auto
  show ?thesis
  proof (cases "loclass_found c = 0xFF")
    case True
    let ?f = "\<lambda>i kt. let kt = kt[unat (btr ! i) := kt ! unat (btr ! i) AND 0xFF]
          in kt[unat (btr ! i) := kt ! unat (btr ! i) OR LOCLASS_CRACK_FAILED]"
    have f: "?f i u = u[unat (btr ! i) := (u ! unat (btr ! i) AND 0xFF) OR LOCLASS_CRACK_FAILED]" for i u
      by (cases "unat (btr ! i) < length u") (simp_all add: Let_def list_update_beyond)
    have c: "res = PM3_ESOFT" "kt' = fold ?f [0..<n] kt1" using searched(5) True by (simp_all add: conclude_def)
    have "kt' ! unat k = (if k \<in> missing kt (d_csn item) then (kt ! unat k AND 0xFF) OR LOCLASS_CRACK_FAILED else kt ! unat k)"
      if k: "unat k < 128" for k
    proof -
      have "kt' ! unat k = (case sel_brute_idx btr n k of None \<Rightarrow> kt1 ! unat k
          | Some j \<Rightarrow> (kt1 ! unat k AND 0xFF) OR LOCLASS_CRACK_FAILED)"
        unfolding c(2) by (rule write_found(1) [OF s(1-5) f k])
      moreover have "(w OR LOCLASS_BEING_CRACKED) AND 0xFF = w AND 0xFF" for w :: u16
        unfolding and_masks by (rule bit_word_eqI) (auto simp: word_bits bit_markers)
      ultimately show ?thesis
        using s(8,9) [OF k] sel_brute_idx_props(1) [OF s(1-3), of k] m(1) by (simp split: option.splits)
    qed
    moreover have "\<not> (\<exists>t. explained t item \<and> (\<forall>k\<in>set (hash1 (d_csn item)) - missing kt (d_csn item). t ! unat k = kt ! unat k))"
      using r(1) True accepted_value [OF searched(1) assms(2)] by blast
    ultimately show ?thesis using ne c(1) by (simp only: if_False simp_thms) blast
  next
    case False
    then have "res = PM3_SUCCESS" using r(2) searched(5) by (auto simp: conclude_def)
    then have i: "explained kt' item" "\<forall>k\<in>set (hash1 (d_csn item)). bit (kt' ! unat k) 8"
      "\<forall>k. unat k < 128 \<longrightarrow> k \<notin> missing kt (d_csn item) \<longrightarrow> kt' ! unat k = kt ! unat k"
      using item_success [OF _ assms(2-4)] assms(1) by blast+
    have "\<exists>t. explained t item \<and> (\<forall>k\<in>set (hash1 (d_csn item)) - missing kt (d_csn item). t ! unat k = kt ! unat k)"
      using i(1,3) hash1_range(2) by blast
    moreover have "\<forall>k\<in>missing kt (d_csn item). kt' ! unat k AND LOCLASS_CRACKED \<noteq> 0"
      using i(2) by (simp add: in_missing marker_bits)
    ultimately show ?thesis using ne i(1,3) \<open>res = PM3_SUCCESS\<close> by simp
  qed
qed

text \<open>
  The card of \<open>_testHash1\<close> on an empty table: seven entries are missing, the item is refused, and
  the entry of the fourth key index stays marked as being cracked.
\<close>

definition test_csn :: bytes where
  "test_csn = [0x01, 0x02, 0x03, 0x04, 0xF7, 0xFF, 0x12, 0xE0]"

lemma test_csn_hash1: "hash1 test_csn = [0x7E, 0x72, 0x2F, 0x40, 0x2D, 0x02, 0x51, 0x42]"
  by code_simp

lemma item_outcome_witness:
  "\<exists>k\<in>missing (replicate 128 0) test_csn. (replicate 128 0 :: u16 list)[0x40 := 0x0200] =
    (replicate 128 0)[unat k := replicate 128 0 ! unat k OR LOCLASS_BEING_CRACKED]"
proof -
  have c: "collect (hash1 test_csn) [0, 0, 0] 0 (replicate 128 0) = Inl ((replicate 128 0)[0x40 := 0x0200])"
    by code_simp
  have k: "clean_table (replicate 128 0)" by (simp add: clean_table_def)
  have m: "missing (replicate 128 0) test_csn \<noteq> {}" "3 < card (missing (replicate 128 0) test_csn)"
    by code_simp+
  show ?thesis
    using item_outcome [OF bruteforceItem.too_many [of "\<lparr>d_csn = test_csn, d_cc_nr = replicate 12 0, d_mac = replicate 4 0\<rparr>"] k, of _ 1] c m
    by simp
qed

subsection \<open>A dump\<close>

lemma explained_mono:
  assumes "explained kt item" "\<forall>k\<in>set (hash1 (d_csn item)). kt' ! unat k = kt ! unat k"
  shows "explained kt' item"
proof -
  have "map (\<lambda>k. ucast (kt' ! unat k AND 0xFF) :: u8) (hash1 (d_csn item)) = map (\<lambda>k. ucast (kt ! unat k AND 0xFF)) (hash1 (d_csn item))"
    using assms(2) by simp
  then show ?thesis using assms(1) unfolding explained_def by (simp only:)
qed

lemma items_success:
  assumes "bruteforceItems tc items kt res kt'" "res = PM3_SUCCESS" "clean_table kt" "0 < tc" "tc \<le> 255"
  shows "clean_table kt' \<and> (\<forall>k :: u8. unat k < 128 \<longrightarrow> bit (kt ! unat k) 8 \<longrightarrow> kt' ! unat k = kt ! unat k) \<and>
    (\<forall>item\<in>set items. explained kt' item)"
  using assms
proof (induction rule: bruteforceItems.induct)
  case (item_done item kt kt1 items res kt')
  note i = item_success [OF item_done(1,5,6,7)]
  have r: "clean_table kt'" "\<forall>k :: u8. unat k < 128 \<longrightarrow> bit (kt1 ! unat k) 8 \<longrightarrow> kt' ! unat k = kt1 ! unat k"
    "\<forall>item\<in>set items. explained kt' item"
    using item_done i(1) by blast+
  have "explained kt' item" by (rule explained_mono [OF i(2)]) (use i(3) r(2) hash1_range(2) in blast)
  moreover have "kt' ! unat k = kt ! unat k" if "unat k < 128" "bit (kt ! unat k) 8" for k :: u8
    using i(4) that r(2) by (simp add: in_missing)
  ultimately show ?case using r by simp
qed auto

text \<open>C21: 
  When \<open>bruteforceDump\<close> reports success, the table explains the MAC of every item of the dump
  (later items do not spoil earlier ones), the bytes known before are unchanged, no entry is left
  in the state of being cracked, and the master key check accepts the first sixteen bytes.
\<close>

theorem dump_success:
  assumes "bruteforceDump tc dump kt PM3_SUCCESS kt'" "clean_table kt" "0 < tc" "tc \<le> 255"
  shows "(\<forall>item\<in>set (dump_items dump). explained kt' item) \<and> clean_table kt' \<and>
    (\<forall>k :: u8. unat k < 128 \<longrightarrow> kt ! unat k AND LOCLASS_CRACKED \<noteq> 0 \<longrightarrow> kt' ! unat k = kt ! unat k) \<and>
    (\<forall>i<16. kt' ! i AND LOCLASS_CRACKED \<noteq> 0) \<and>
    fst (calculateMasterKey (map (\<lambda>i. ucast (kt' ! i AND 0xFF)) [0..<16])) = PM3_SUCCESS"
proof -
  have ne: "PM3_SUCCESS \<noteq> PM3_ESOFT" "LOCLASS_CRACKED \<noteq> 0"
    by (simp_all add: PM3_SUCCESS_def PM3_ESOFT_def LOCLASS_CRACKED_def)
  obtain r where r: "bruteforceItems tc (dump_items dump) kt r kt'" "PM3_SUCCESS = finish_dump r kt'"
    using assms(1) by (auto simp: bruteforceDump_def)
  then have f: "r = PM3_SUCCESS" "\<forall>i<16. kt' ! i AND LOCLASS_CRACKED = LOCLASS_CRACKED"
    "fst (calculateMasterKey (map (\<lambda>i. ucast (kt' ! i AND 0xFF)) [0..<16])) = PM3_SUCCESS"
    using ne by (auto simp: finish_dump_def list_ex_iff split: if_splits)
  show ?thesis
    using items_success [OF r(1) f(1) assms(2-4)] f ne(2) by (simp add: marker_bits)
qed

text \<open>
  The table of the key of \<open>hash2\<close>'s comment with one unknown entry, and a card whose MAC was made
  with the value 0 of it.
\<close>

definition test_table :: "u16 list" where
  "test_table = map (\<lambda>i. if i = 0x7E then 0 else
     ucast (hash2 [0x5B, 0x7C, 0x62, 0xC4, 0x91, 0xC1, 0x1B, 0x39] ! i) OR LOCLASS_CRACKED) [0..<128]"

definition test_item :: dumpdata where
  "test_item = \<lparr>d_csn = test_csn, d_cc_nr = replicate 12 0,
     d_mac = doMAC_brute (replicate 12 0) (diversifyKey test_csn (permutekey_rev
       (map (\<lambda>k. ucast (test_table ! unat k AND 0xFF)) (hash1 test_csn)))) [0, 0, 0, 0]\<rparr>"

lemma test_item_run: "bruteforceItem 1 test_item test_table PM3_SUCCESS (test_table[0x7E := LOCLASS_CRACKED])"
proof (rule bruteforceItem.searched)
  let ?kt = "test_table[0x7E := LOCLASS_BEING_CRACKED]"
  have t: "test_table ! 0x7E = 0" "length test_table = 128" by (simp_all add: test_table_def)
  have m: "bit (test_table ! i) 8" if "i \<noteq> 0x7E" "i < 128" for i
    using that by (simp add: test_table_def word_bits bit_markers)
  show "collect (hash1 (d_csn test_item)) [0, 0, 0] 0 test_table = Inr ([0x7E, 0, 0], 1, ?kt)"
    using t m by (simp add: test_item_def test_csn_hash1 marker_bits nth_list_update)
  show "(bf_step (\<lambda>b. key_sel_matches test_item (brute_key_sel (hash1 (d_csn test_item)) [0x7E, 0, 0] 1 ?kt b)) 1 1)\<^sup>*\<^sup>*
      (bf_init 1) \<lparr>loclass_found = 0, threads = [Returned (Some (brute_values 1 0))]\<rparr>"
  proof (rule example_search)
    have "brute_key_sel (hash1 test_csn) [0x7E, 0, 0] 1 ?kt 0 = map (\<lambda>k. ucast (test_table ! unat k AND 0xFF)) (hash1 test_csn)"
      using t by (simp add: brute_key_sel_def test_csn_hash1 sel_brute_idx_def upt_8)
    then show "key_sel_matches test_item (brute_key_sel (hash1 (d_csn test_item)) [0x7E, 0, 0] 1 ?kt 0)"
      by (simp add: key_sel_matches_def test_item_def)
  qed
  show "conclude [0x7E, 0, 0] 1 ?kt \<lparr>loclass_found = 0, threads = [Returned (Some (brute_values 1 0))]\<rparr> =
      (PM3_SUCCESS, test_table[0x7E := LOCLASS_CRACKED])"
    by (simp add: conclude_def brute_values_def)
qed (simp_all add: bf_joined_def)

lemma length_output_bytes: "length (fst (output_bytes k s out n)) = length out"
  by (induction n) (auto simp: output_bytes_def split_beta)

lemma test_item_length: "length (d_mac test_item) = 4"
  by (simp add: test_item_def doMAC_brute_def Let_def length_output_bytes)

lemma test_items: "dump_items (test_csn @ replicate 12 0 @ d_mac test_item) = [test_item]"
  using test_item_length by (simp add: dump_items_def test_csn_def) (simp add: test_item_def test_csn_def)

lemma test_dump_run:
  "bruteforceDump 1 (test_csn @ replicate 12 0 @ d_mac test_item) test_table PM3_SUCCESS (test_table[0x7E := LOCLASS_CRACKED])"
proof -
  let ?K = "[0x5B, 0x7C, 0x62, 0xC4, 0x91, 0xC1, 0x1B, 0x39] :: bytes" and ?kt = "test_table[0x7E := LOCLASS_CRACKED]"
  have "length (take 16 (hash2 ?K)) = 16"
    unfolding hash2_first by (simp add: desdecrypt_iclass_def desencrypt_iclass_def)
  then have h: "16 \<le> length (hash2 ?K)" by simp
  have "bruteforceItems 1 [test_item] test_table PM3_SUCCESS ?kt"
    by (rule bruteforceItems.item_done [OF test_item_run bruteforceItems.no_item])
  moreover have "finish_dump PM3_SUCCESS ?kt = PM3_SUCCESS"
  proof -
    have w: "test_table ! i = ucast (hash2 ?K ! i) OR LOCLASS_CRACKED" if "i < 16" for i
      using that by (simp add: test_table_def)
    have "map (\<lambda>i. ucast (?kt ! i AND 0xFF)) [0..<16] = take 16 (hash2 ?K)"
    proof (rule nth_equalityI)
      fix i assume "i < length (map (\<lambda>i. ucast (?kt ! i AND 0xFF) :: u8) [0..<16])"
      then show "map (\<lambda>i. ucast (?kt ! i AND 0xFF)) [0..<16] ! i = take 16 (hash2 ?K) ! i"
        by (intro u8_eqI) (simp add: w word_bits bit_ucast_iff bit_markers and_masks)
    qed (use h in simp)
    moreover have "(w OR LOCLASS_CRACKED) AND LOCLASS_CRACKED = LOCLASS_CRACKED" for w :: u16
      by (rule bit_word_eqI) (auto simp: word_bits)
    ultimately show ?thesis
      by (simp add: finish_dump_def list_ex_iff w master_key_of_table)
  qed
  ultimately show ?thesis unfolding bruteforceDump_def test_items by metis
qed

lemma dump_success_witness:
  "explained (test_table[0x7E := LOCLASS_CRACKED]) test_item"
proof -
  have "clean_table test_table"
    by (rule clean_intro) (simp_all add: test_table_def word_bits bit_ucast_iff bit_markers)
  then show ?thesis using dump_success [OF test_dump_run] by (simp add: test_items)
qed

end
