(* ===== verification/Big_Buf.thy ===== *)
theory Big_Buf
  imports Common_Util Pm3_Codes
begin

text \<open>
  The working memory of the firmware, \<open>armsrc/BigBuf.c\<close>: one block of RAM whose low end holds the
  trace (or samples) and whose high end is handed out from the top by \<open>BigBuf_malloc\<close>. The state
  is the block and the static variables of the file; a pointer into the block is its offset. The
  trace entries are read back by the client, \<open>printHexLine\<close> in \<open>client/src/cmdtrace.c\<close>. A
  missing emulator memory, whose address \<open>BigBuf_Clear_EM\<close> passes to \<open>memset\<close> without a test, is left
  as it is. Left out: the debug output.
\<close>

subsection \<open>State\<close>

definition CARD_MEMORY_SIZE :: u16 where "CARD_MEMORY_SIZE = 4096"
definition DMA_BUFFER_SIZE :: u16 where "DMA_BUFFER_SIZE = 512"
definition MAX_FRAME_SIZE :: nat where "MAX_FRAME_SIZE = 256"
definition TOSEND_BUFFER_SIZE :: u16 where "TOSEND_BUFFER_SIZE = 9 * word_of_nat MAX_FRAME_SIZE + 1 + 1 + 2"
definition BIGBUF_ALIGN_BYTES :: u32 where "BIGBUF_ALIGN_BYTES = 4"
definition BIGBUF_ALIGN_MASK :: u32 where "BIGBUF_ALIGN_MASK = 0xFFFF + 1 - BIGBUF_ALIGN_BYTES"

record tosend =
  ts_max :: int
  ts_bit :: int
  ts_buf :: "u32 option"

record bigbuf =
  BigBuf :: bytes
  s_bigbuf_size :: u32
  s_bigbuf_hi :: u32
  s_emulator_memory :: "u32 option"
  s_toSend :: tosend
  s_dma_16 :: "u32 option"
  s_dma_8 :: "u32 option"
  s_trace_len :: u32
  s_tracing :: bool

text \<open>\<open>memcpy\<close> and \<open>memset\<close> into the block.\<close>

definition mem_write :: "nat \<Rightarrow> bytes \<Rightarrow> bigbuf \<Rightarrow> bigbuf" where
  "mem_write i bs s = s\<lparr>BigBuf := write_at i bs (BigBuf s)\<rparr>"

definition mem_read :: "nat \<Rightarrow> nat \<Rightarrow> bigbuf \<Rightarrow> bytes" where
  "mem_read i n s = take n (drop i (BigBuf s))"

text \<open>The static initialisers and \<open>BigBuf_initialize\<close>, on a block \<open>ram\<close>.\<close>

definition BigBuf_initialize :: "bytes \<Rightarrow> bigbuf" where
  "BigBuf_initialize ram =
    \<lparr>BigBuf = ram, s_bigbuf_size = word_of_nat (length ram), s_bigbuf_hi = word_of_nat (length ram),
     s_emulator_memory = None, s_toSend = \<lparr>ts_max = -1, ts_bit = 8, ts_buf = None\<rparr>, s_dma_16 = None,
     s_dma_8 = None, s_trace_len = 0, s_tracing = True\<rparr>"

subsection \<open>Allocation\<close>

definition align_chunk :: "u16 \<Rightarrow> u16" where
  "align_chunk chunksize = ucast ((ucast chunksize + BIGBUF_ALIGN_BYTES - 1) AND BIGBUF_ALIGN_MASK)"

definition BigBuf_malloc :: "u16 \<Rightarrow> bigbuf \<Rightarrow> u32 option \<times> bigbuf" where
  "BigBuf_malloc chunksize s =
    (let chunksize = align_chunk chunksize
     in if s_bigbuf_hi s - s_trace_len s < ucast chunksize \<or> chunksize = 0 then (None, s)
        else let s = s\<lparr>s_bigbuf_hi := s_bigbuf_hi s - ucast chunksize\<rparr> in (Some (s_bigbuf_hi s), s))"

definition BigBuf_calloc :: "u16 \<Rightarrow> bigbuf \<Rightarrow> u32 option \<times> bigbuf" where
  "BigBuf_calloc chunksize s =
    (case BigBuf_malloc chunksize s of
       (None, s) \<Rightarrow> (None, s)
     | (Some mem, s) \<Rightarrow> (Some mem, mem_write (unat mem)
         (replicate (unat ((ucast chunksize + BIGBUF_ALIGN_BYTES - 1) AND BIGBUF_ALIGN_MASK)) 0) s))"

definition BigBuf_get_EM_addr :: "bigbuf \<Rightarrow> u32 option \<times> bigbuf" where
  "BigBuf_get_EM_addr s =
    (case s_emulator_memory s of
       Some mem \<Rightarrow> (Some mem, s)
     | None \<Rightarrow> case BigBuf_calloc CARD_MEMORY_SIZE s of (mem, s) \<Rightarrow> (mem, s\<lparr>s_emulator_memory := mem\<rparr>))"

definition clear_trace :: "bigbuf \<Rightarrow> bigbuf" where
  "clear_trace s = s\<lparr>s_trace_len := 0\<rparr>"

definition set_tracelen :: "u32 \<Rightarrow> bigbuf \<Rightarrow> bigbuf" where
  "set_tracelen value s = s\<lparr>s_trace_len := value\<rparr>"

definition set_tracing :: "bool \<Rightarrow> bigbuf \<Rightarrow> bigbuf" where
  "set_tracing enable s = s\<lparr>s_tracing := enable\<rparr>"

definition BigBuf_Clear_ext :: "bigbuf \<Rightarrow> bigbuf" where
  "BigBuf_Clear_ext s = clear_trace (mem_write 0 (replicate (unat (s_bigbuf_size s)) 0) s)"

definition BigBuf_Clear_EM :: "bigbuf \<Rightarrow> bigbuf" where
  "BigBuf_Clear_EM s =
    (case BigBuf_get_EM_addr s of
       (Some mem, s) \<Rightarrow> mem_write (unat mem) (replicate (unat CARD_MEMORY_SIZE) 0) s
     | (None, s) \<Rightarrow> s)"

definition BigBuf_Clear_keep_EM :: "bigbuf \<Rightarrow> bigbuf" where
  "BigBuf_Clear_keep_EM s = mem_write 0 (replicate (unat (s_bigbuf_hi s)) 0) s"

definition forget_buffers :: "bigbuf \<Rightarrow> bigbuf" where
  "forget_buffers s = s\<lparr>s_toSend := (s_toSend s)\<lparr>ts_buf := None\<rparr>, s_dma_16 := None, s_dma_8 := None\<rparr>"

definition BigBuf_free :: "bigbuf \<Rightarrow> bigbuf" where
  "BigBuf_free s = forget_buffers (s\<lparr>s_bigbuf_hi := s_bigbuf_size s, s_emulator_memory := None\<rparr>)"

definition BigBuf_free_keep_EM :: "bigbuf \<Rightarrow> bigbuf" where
  "BigBuf_free_keep_EM s =
    forget_buffers (s\<lparr>s_bigbuf_hi := (case s_emulator_memory s of Some mem \<Rightarrow> mem | None \<Rightarrow> s_bigbuf_size s)\<rparr>)"

definition get_tosend :: "bigbuf \<Rightarrow> bigbuf" where
  "get_tosend s =
    (case ts_buf (s_toSend s) of
       Some _ \<Rightarrow> s
     | None \<Rightarrow> case BigBuf_malloc TOSEND_BUFFER_SIZE s of (mem, s) \<Rightarrow> s\<lparr>s_toSend := (s_toSend s)\<lparr>ts_buf := mem\<rparr>\<rparr>)"

definition get_dma16 :: "bigbuf \<Rightarrow> bigbuf" where
  "get_dma16 s =
    (case s_dma_16 s of
       Some _ \<Rightarrow> s
     | None \<Rightarrow> case BigBuf_malloc (DMA_BUFFER_SIZE * 2) s of (mem, s) \<Rightarrow> s\<lparr>s_dma_16 := mem\<rparr>)"

definition get_dma8 :: "bigbuf \<Rightarrow> bigbuf" where
  "get_dma8 s =
    (case s_dma_8 s of
       Some _ \<Rightarrow> s
     | None \<Rightarrow> case BigBuf_malloc DMA_BUFFER_SIZE s of (mem, s) \<Rightarrow> s\<lparr>s_dma_8 := mem\<rparr>)"

subsection \<open>The trace\<close>

definition BigBuf_max_traceLen :: "bigbuf \<Rightarrow> u16" where
  "BigBuf_max_traceLen s = ucast (s_bigbuf_hi s AND BIGBUF_ALIGN_MASK)"

definition TRACELOG_HDR_LEN :: nat where "TRACELOG_HDR_LEN = 8"

text \<open>The packed header \<open>tracelog_hdr_t\<close> (little endian, \<open>isResponse\<close> above the 15 bits of \<open>data_len\<close>).\<close>

definition tracelog_hdr :: "u32 \<Rightarrow> u16 \<Rightarrow> u16 \<Rightarrow> bool \<Rightarrow> bytes" where
  "tracelog_hdr timestamp duration data_len isResponse =
    (let len = take_bit 15 data_len OR shl (of_bool isResponse) 15
     in [ucast timestamp, ucast (shr timestamp 8), ucast (shr timestamp 16), ucast (shr timestamp 24),
         ucast duration, ucast (shr duration 8), ucast len, ucast (shr len 8)])"

text \<open>\<open>(x - 1) / 8 + 1\<close> is the number of parity bytes.\<close>

definition LogTrace :: "bytes option \<Rightarrow> u16 \<Rightarrow> u32 \<Rightarrow> u32 \<Rightarrow> bytes option \<Rightarrow> bool \<Rightarrow> bigbuf \<Rightarrow> bool \<times> bigbuf" where
  "LogTrace btBytes iLen timestamp_start timestamp_end parity reader2tag s =
    (case btBytes of
       None \<Rightarrow> (False, s)
     | Some btBytes \<Rightarrow>
         if \<not> s_tracing s then (False, s)
         else if iLen = 0 \<or> 0x8000 \<le> iLen then (False, s)
         else
           let num_paritybytes = (iLen - 1) div 8 + 1;
               max_trace_len = (ucast (BigBuf_max_traceLen s) :: u32);
               trace_entry_len = (word_of_nat TRACELOG_HDR_LEN + ucast iLen + ucast num_paritybytes :: u32)
           in if s_trace_len s \<ge> max_trace_len \<or> trace_entry_len \<ge> max_trace_len - s_trace_len s
              then (False, set_tracing False s)
              else
                let duration = (if timestamp_end > timestamp_start then timestamp_end - timestamp_start
                                else (0xFFFFFFFF - timestamp_start) + timestamp_end);
                    duration = (if duration > 0xFFFF then 0xFFFF else duration);
                    hdr = unat (s_trace_len s);
                    s = mem_write hdr (tracelog_hdr timestamp_start (ucast (duration AND 0xFFFF)) iLen (\<not> reader2tag)) s;
                    s = mem_write (hdr + TRACELOG_HDR_LEN) (take (unat iLen) btBytes) s;
                    s = mem_write (hdr + TRACELOG_HDR_LEN + unat iLen)
                          (case parity of Some parity \<Rightarrow> take (unat num_paritybytes) parity
                                        | None \<Rightarrow> replicate (unat num_paritybytes) 0) s
                in (True, s\<lparr>s_trace_len := s_trace_len s + trace_entry_len\<rparr>))"

definition LogTrace_ISO15693 :: "bytes option \<Rightarrow> u16 \<Rightarrow> u32 \<Rightarrow> u32 \<Rightarrow> bytes option \<Rightarrow> bool \<Rightarrow> bigbuf \<Rightarrow> bool \<times> bigbuf" where
  "LogTrace_ISO15693 bs len ts_start ts_end parity reader2tag s =
    (let duration = (ts_end - ts_start) div 32; ts_end = ts_start + duration
     in LogTrace bs len ts_start ts_end parity reader2tag s)"

text \<open>\<open>nbytes\<close> of \<open>armsrc/util.c\<close>.\<close>

definition nbytes :: "nat \<Rightarrow> nat" where
  "nbytes nbits = nbits div 8 + of_bool (nbits mod 8 > 0)"

definition LogTraceBits :: "bytes option \<Rightarrow> u16 \<Rightarrow> u32 \<Rightarrow> u32 \<Rightarrow> bool \<Rightarrow> bigbuf \<Rightarrow> bool \<times> bigbuf" where
  "LogTraceBits btBytes bitLen timestamp_start timestamp_end reader2tag s =
    (if bitLen = 0 then (False, s)
     else
       let parity = replicate ((nbytes (unat bitLen) - 1) div 8 + 1) 0;
           parity = parity[0 := ucast (bitLen mod 8)]
       in LogTrace btBytes (word_of_nat (nbytes (unat bitLen))) timestamp_start timestamp_end (Some parity) reader2tag s)"

subsection \<open>The client's view of a trace\<close>

definition is_last_record :: "u16 \<Rightarrow> u16 \<Rightarrow> bool" where
  "is_last_record tracepos traceLen \<longleftrightarrow> unat tracepos + TRACELOG_HDR_LEN \<ge> unat traceLen"

text \<open>The fields of the header at a position of the trace.\<close>

definition hdr_data_len :: "bytes \<Rightarrow> nat \<Rightarrow> u16" where
  "hdr_data_len trace p = take_bit 15 (ucast (trace ! (p + 6)) OR shl (ucast (trace ! (p + 7))) 8)"

definition hdr_isResponse :: "bytes \<Rightarrow> nat \<Rightarrow> bool" where
  "hdr_isResponse trace p = bit (trace ! (p + 7)) 7"

definition hdr_timestamp :: "bytes \<Rightarrow> nat \<Rightarrow> u32" where
  "hdr_timestamp trace p =
    ucast (trace ! p) OR shl (ucast (trace ! (p + 1))) 8 OR shl (ucast (trace ! (p + 2))) 16 OR shl (ucast (trace ! (p + 3))) 24"

text \<open>\<open>TRACELOG_PARITY_LEN\<close>; the division is the one of \<open>int\<close>, so an empty frame has one parity byte.\<close>

definition TRACELOG_PARITY_LEN :: "u16 \<Rightarrow> nat" where
  "TRACELOG_PARITY_LEN data_len = (if data_len = 0 then 1 else (unat data_len - 1) div 8 + 1)"

text \<open>
  What \<open>printHexLine\<close> prints of an entry in its two lines: the time stamp, the direction (\<open>ff\<close> or
  \<open>fe\<close>), the length in four hexadecimal digits, and the bytes of the frame. The record holds these
  values, not the text; duration and parity are not printed.
\<close>

record hex_line =
  hl_timestamp :: u32
  hl_isResponse :: bool
  hl_len :: u16
  hl_frame :: bytes

text \<open>One call for ISO 14443-A: the next position, and what is printed (for an empty entry a warning, here \<open>None\<close>).\<close>

definition printHexLine :: "u16 \<Rightarrow> u16 \<Rightarrow> bytes \<Rightarrow> u16 \<times> hex_line option" where
  "printHexLine tracepos traceLen trace =
    (if is_last_record tracepos traceLen then (traceLen, None)
     else
       let p = unat tracepos; len = hdr_data_len trace p
       in if TRACELOG_HDR_LEN + unat len + TRACELOG_PARITY_LEN len > unat traceLen then (traceLen, None)
          else
            let tracepos = tracepos + word_of_nat (TRACELOG_HDR_LEN + unat len + TRACELOG_PARITY_LEN len)
            in if len = 0 then (tracepos, None)
               else (tracepos, Some
                 \<lparr>hl_timestamp = hdr_timestamp trace p, hl_isResponse = hdr_isResponse trace p, hl_len = len,
                  hl_frame = take (unat len) (drop (p + TRACELOG_HDR_LEN) trace)\<rparr>))"

text \<open>The loop of \<open>CmdTraceList\<close> over the trace, with what it prints. It may not end (a position can wrap around).\<close>

partial_function (option) trace_list :: "u16 \<Rightarrow> u16 \<Rightarrow> bytes \<Rightarrow> hex_line list option" where
  "trace_list tracepos traceLen trace =
    (if tracepos < traceLen then
       case printHexLine tracepos traceLen trace of
         (tracepos, r) \<Rightarrow> Option.bind (trace_list tracepos traceLen trace) (\<lambda>ls. Some (case r of Some l \<Rightarrow> l # ls | None \<Rightarrow> ls))
     else Some [])"

subsection \<open>The emulator memory\<close>

definition eml_in_bounds :: "u32 \<Rightarrow> u32 \<Rightarrow> bool" where
  "eml_in_bounds offset len \<longleftrightarrow> offset + len \<le> ucast CARD_MEMORY_SIZE"

definition emlSet :: "bytes \<Rightarrow> u32 \<Rightarrow> u32 \<Rightarrow> bigbuf \<Rightarrow> int \<times> bigbuf" where
  "emlSet data offset len s =
    (case BigBuf_get_EM_addr s of
       (None, s) \<Rightarrow> (PM3_EMALLOC, s)
     | (Some mem, s) \<Rightarrow>
         if eml_in_bounds offset len then (PM3_SUCCESS, mem_write (unat mem + unat offset) (take (unat len) data) s)
         else (PM3_EOUTOFBOUND, s))"

definition emlGet :: "u32 \<Rightarrow> u32 \<Rightarrow> bigbuf \<Rightarrow> (int \<times> bytes option) \<times> bigbuf" where
  "emlGet offset len s =
    (case BigBuf_get_EM_addr s of
       (None, s) \<Rightarrow> ((PM3_EMALLOC, None), s)
     | (Some mem, s) \<Rightarrow>
         if eml_in_bounds offset len then ((PM3_SUCCESS, Some (mem_read (unat mem + unat offset) (unat len) s)), s)
         else ((PM3_EOUTOFBOUND, None), s))"

subsection \<open>The ToSend buffer\<close>

definition tosend_reset :: "bigbuf \<Rightarrow> bigbuf" where
  "tosend_reset s = s\<lparr>s_toSend := (s_toSend s)\<lparr>ts_max := -1, ts_bit := 8\<rparr>\<rparr>"

text \<open>\<open>None\<close> is a store through the null pointer.\<close>

definition tosend_stuffbit :: "bool \<Rightarrow> bigbuf \<Rightarrow> bigbuf option" where
  "tosend_stuffbit b s =
    (let ts = s_toSend s; size = int (unat TOSEND_BUFFER_SIZE)
     in if ts_max ts \<ge> size - 1 then Some s
        else case ts_buf ts of
            None \<Rightarrow> if ts_bit ts \<ge> 8 \<or> b then None else Some (s\<lparr>s_toSend := ts\<lparr>ts_bit := ts_bit ts + 1\<rparr>\<rparr>)
          | Some buf \<Rightarrow>
              let (ts, s) = (if ts_bit ts \<ge> 8
                    then (ts\<lparr>ts_max := ts_max ts + 1, ts_bit := 0\<rparr>, mem_write (unat buf + nat (ts_max ts + 1)) [0] s)
                    else (ts, s));
                  p = unat buf + nat (ts_max ts);
                  s = (if b then mem_write p [(BigBuf s ! p) OR shl 1 (nat (7 - ts_bit ts))] s else s);
                  ts = ts\<lparr>ts_bit := ts_bit ts + 1\<rparr>;
                  ts = (if ts_max ts \<ge> size then ts\<lparr>ts_bit := 0\<rparr> else ts)
              in Some (s\<lparr>s_toSend := ts\<rparr>))"

end
