(* ===== verification/Big_Buf_Laws.thy ===== *)
theory Big_Buf_Laws
  imports Big_Buf
begin

text \<open>
  The working memory: an invariant of all states that the operations reach (everything handed
  out lies above the trace, inside the block, and apart from each other).
\<close>

subsection \<open>Sizes\<close>

lemma buffer_sizes:
  "unat CARD_MEMORY_SIZE = 4096" "unat DMA_BUFFER_SIZE = 512" "unat (DMA_BUFFER_SIZE * 2) = 1024" "unat TOSEND_BUFFER_SIZE = 2308"
  by code_simp+

lemma align_mask: "BIGBUF_ALIGN_MASK = 0xFFFC" "w + BIGBUF_ALIGN_BYTES - 1 = w + 3"
  by (simp_all add: BIGBUF_ALIGN_MASK_def BIGBUF_ALIGN_BYTES_def)

lemma and_FFFC: "unat (w AND 0xFFFC :: u32) = unat w mod 65536 div 4 * 4"
proof -
  have "w AND 0xFFFC = shl (shr (take_bit 16 w) 2) 2"
  proof (rule bit_word_eqI)
    fix n assume "n < LENGTH(32)"
    have m: "(0xFFFC :: u32) = shl (mask 14) 2" by (simp add: mask_eq_exp_minus_1)
    show "bit (w AND 0xFFFC) n = bit (shl (shr (take_bit 16 w) 2) 2) n"
      unfolding m using \<open>n < LENGTH(32)\<close> by (cases n; cases "n - 1") (auto simp: word_bits)
  qed
  moreover have "unat (shl (shr (take_bit 16 w) 2) 2) = unat w mod 65536 div 4 * 4"
  proof -
    have "unat w mod 65536 div 4 * 4 \<le> unat w mod 65536" by (rule div_times_less_eq_dividend)
    also have "\<dots> < 65536" by simp
    finally show ?thesis
      by (simp add: push_bit_eq_mult drop_bit_eq_div take_bit_eq_mod unat_word_ariths unat_div unat_mod)
  qed
  ultimately show ?thesis by simp
qed

text \<open>A request is rounded up to a multiple of four; one above 0xFFFC rounds to nothing.\<close>

lemma unat_align32: "unat ((ucast (n :: u16) + BIGBUF_ALIGN_BYTES - 1) AND BIGBUF_ALIGN_MASK) = (unat n + 3) mod 65536 div 4 * 4"
proof -
  have "unat (ucast n + 3 :: u32) = unat n + 3"
    using unsigned_less [of n, where 'a = nat] by (simp add: unat_word_ariths unsigned_ucast_eq take_bit_eq_mod)
  then show ?thesis by (simp add: align_mask and_FFFC)
qed

lemma unat_align_chunk: "unat (align_chunk n) = (unat n + 3) div 4 * 4 mod 65536"
proof -
  have "m mod 65536 div 4 * 4 = m div 4 * 4 mod 65536" for m :: nat
    using mod_mult2_eq [of m 4 16384] mult_mod_left [of "m div 4" 16384 4] by simp
  then show ?thesis
    unfolding align_chunk_def by (simp add: unsigned_ucast_eq take_bit_eq_mod unat_align32)
qed

subsection \<open>The invariant\<close>

text \<open>The blocks that are in use, as offset and length.\<close>

definition chunk_of :: "u32 option \<Rightarrow> nat \<Rightarrow> (nat \<times> nat) list" where
  "chunk_of p n = (case p of None \<Rightarrow> [] | Some p \<Rightarrow> [(unat p, n)])"

definition chunks :: "bigbuf \<Rightarrow> (nat \<times> nat) list" where
  "chunks s = chunk_of (s_emulator_memory s) 4096 @ chunk_of (ts_buf (s_toSend s)) 2308 @
    chunk_of (s_dma_16 s) 1024 @ chunk_of (s_dma_8 s) 512"

definition apart :: "nat \<times> nat \<Rightarrow> nat \<times> nat \<Rightarrow> bool" where
  "apart c d \<longleftrightarrow> fst c + snd c \<le> fst d \<or> fst d + snd d \<le> fst c"

definition tosend_inv :: "tosend \<Rightarrow> bool" where
  "tosend_inv ts \<longleftrightarrow> -1 \<le> ts_max ts \<and> ts_max ts \<le> 2307 \<and> 0 \<le> ts_bit ts \<and> ts_bit ts \<le> 8 \<and> (ts_max ts = -1 \<longrightarrow> ts_bit ts = 8)"

definition bb_inv :: "bigbuf \<Rightarrow> bool" where
  "bb_inv s \<longleftrightarrow> unat (s_bigbuf_size s) = length (BigBuf s) \<and>
    unat (s_trace_len s) \<le> unat (s_bigbuf_hi s) \<and> unat (s_bigbuf_hi s) \<le> length (BigBuf s) \<and>
    4 dvd length (BigBuf s) - unat (s_bigbuf_hi s) \<and>
    (\<forall>c\<in>set (chunks s). unat (s_bigbuf_hi s) \<le> fst c \<and> fst c + snd c \<le> length (BigBuf s) \<and> 4 dvd length (BigBuf s) - fst c) \<and>
    sorted_wrt apart (chunks s) \<and> tosend_inv (s_toSend s)"

lemma apart_sym: "apart c d = apart d c"
  by (auto simp: apart_def)

lemma chunks_simps [simp]:
  "chunks (s\<lparr>BigBuf := m\<rparr>) = chunks s" "chunks (s\<lparr>s_trace_len := t\<rparr>) = chunks s"
  "chunks (s\<lparr>s_tracing := b\<rparr>) = chunks s" "chunks (s\<lparr>s_bigbuf_hi := h\<rparr>) = chunks s"
  by (simp_all add: chunks_def)

lemma bb_inv_mem [inv_intros]: "bb_inv s \<Longrightarrow> i + length bs \<le> length (BigBuf s) \<Longrightarrow> bb_inv (mem_write i bs s)"
  by (simp add: bb_inv_def mem_write_def)

lemma bb_inv_trace [inv_intros]: "bb_inv s \<Longrightarrow> unat t \<le> unat (s_bigbuf_hi s) \<Longrightarrow> bb_inv (s\<lparr>s_trace_len := t\<rparr>)"
  by (simp add: bb_inv_def)

lemma bb_inv_tracing [inv_intros]: "bb_inv s \<Longrightarrow> bb_inv (set_tracing b s)"
  by (simp add: bb_inv_def set_tracing_def)

text \<open>An allocation lowers the high mark, and what it returns is free.\<close>

lemma malloc_cases:
  assumes "BigBuf_malloc n s = (r, s')" "bb_inv s"
  obtains "r = None" "s' = s"
  | p where "r = Some p" "s' = s\<lparr>s_bigbuf_hi := p\<rparr>" "unat p + (unat n + 3) div 4 * 4 = unat (s_bigbuf_hi s)"
    "unat (s_trace_len s) \<le> unat p" "0 < n" "unat n \<le> 65532"
proof -
  consider "r = None" "s' = s" | "s_bigbuf_hi s - s_trace_len s \<ge> ucast (align_chunk n)" "align_chunk n \<noteq> 0"
    "r = Some (s_bigbuf_hi s - ucast (align_chunk n))" "s' = s\<lparr>s_bigbuf_hi := s_bigbuf_hi s - ucast (align_chunk n)\<rparr>"
  proof (cases "s_bigbuf_hi s - s_trace_len s < ucast (align_chunk n) \<or> align_chunk n = 0")
    case True
    then show ?thesis using assms(1) that(1) by (simp only: BigBuf_malloc_def Let_def if_True prod.inject)
  next
    case False
    then have "BigBuf_malloc n s = (Some (s_bigbuf_hi (s\<lparr>s_bigbuf_hi := s_bigbuf_hi s - ucast (align_chunk n)\<rparr>)),
        s\<lparr>s_bigbuf_hi := s_bigbuf_hi s - ucast (align_chunk n)\<rparr>)"
      by (simp only: BigBuf_malloc_def Let_def if_False)
    then have "r = Some (s_bigbuf_hi s - ucast (align_chunk n))" "s' = s\<lparr>s_bigbuf_hi := s_bigbuf_hi s - ucast (align_chunk n)\<rparr>"
      using assms(1) by simp_all
    then show ?thesis using False that(2) by (simp only: de_Morgan_disj not_less not_False_eq_True)
  qed
  then show ?thesis
  proof cases
    case 2
    let ?a = "ucast (align_chunk n) :: u32"
    have t: "s_trace_len s \<le> s_bigbuf_hi s" using assms(2) by (simp add: bb_inv_def word_le_nat_alt)
    then have d: "unat (s_bigbuf_hi s - s_trace_len s) = unat (s_bigbuf_hi s) - unat (s_trace_len s)"
      by (rule unat_sub)
    have a: "unat ?a = (unat n + 3) div 4 * 4" "unat n \<le> 65532"
    proof -
      have ne: "(unat n + 3) div 4 * 4 \<noteq> 65536"
        using 2(2) unat_align_chunk [of n] by (auto simp: unat_eq_zero)
      have le: "(unat n + 3) div 4 \<le> 16384"
        using div_le_mono [of "unat n + 3" 65538 4] unsigned_less [of n, where 'a = nat] by simp
      with ne show "unat ?a = (unat n + 3) div 4 * 4" using unat_align_chunk [of n] by (simp add: unat_ucast_up)
      from ne le have "(unat n + 3) div 4 < 16384" by linarith
      then show "unat n \<le> 65532" by (simp add: div_less_iff_less_mult)
    qed
    have le: "unat ?a \<le> unat (s_bigbuf_hi s) - unat (s_trace_len s)" using 2(1) d by (simp add: word_le_nat_alt)
    then have "?a \<le> s_bigbuf_hi s" by (simp add: word_le_nat_alt)
    then have p: "unat (s_bigbuf_hi s - ?a) = unat (s_bigbuf_hi s) - unat ?a" by (rule unat_sub)
    have "align_chunk 0 = 0" by (simp add: unat_align_chunk flip: unat_eq_zero)
    then have "0 < n" using 2(2) by (metis word_gt_0)
    show ?thesis by (rule that(2) [OF 2(3,4)]) (use p le a t \<open>0 < n\<close> in \<open>simp_all add: word_le_nat_alt\<close>)
  qed (use that in simp)
qed

text \<open>Lowering the high mark keeps the invariant, and so does handing out what lies above it.\<close>

lemma bb_inv_lower:
  assumes "bb_inv s" "unat p + k = unat (s_bigbuf_hi s)" "unat (s_trace_len s) \<le> unat p" "4 dvd k"
  shows "bb_inv (s\<lparr>s_bigbuf_hi := p\<rparr>)"
proof -
  have "length (BigBuf s) - unat p = (length (BigBuf s) - unat (s_bigbuf_hi s)) + k"
    using assms(1,2) by (simp add: bb_inv_def)
  moreover have "4 dvd (length (BigBuf s) - unat (s_bigbuf_hi s)) + k"
    by (rule dvd_add) (use assms(1,4) in \<open>simp_all add: bb_inv_def\<close>)
  ultimately have "4 dvd length (BigBuf s) - unat p" by (simp only:)
  then show ?thesis using assms by (fastforce simp: bb_inv_def)
qed

lemma bb_inv_malloc:
  assumes "BigBuf_malloc n s = (r, s')" "bb_inv s"
  shows "bb_inv s'" "chunks s' = chunks s" "BigBuf s' = BigBuf s" "s_trace_len s' = s_trace_len s" "s_tracing s' = s_tracing s"
    and "s_toSend s' = s_toSend s" "s_emulator_memory s' = s_emulator_memory s" "s_dma_16 s' = s_dma_16 s" "s_dma_8 s' = s_dma_8 s"
    and "\<And>p. r = Some p \<Longrightarrow> unat (s_bigbuf_hi s') = unat p \<and> unat p + unat n \<le> unat (s_bigbuf_hi s)"
  by (rule malloc_cases [OF assms]; use assms(2) in \<open>simp add: bb_inv_lower\<close>)+

lemma length_mem_write [simp]: "i + length bs \<le> length (BigBuf s) \<Longrightarrow> length (BigBuf (mem_write i bs s)) = length (BigBuf s)"
  by (simp add: mem_write_def)

lemma mem_write_simps [simp]:
  "chunks (mem_write i bs s) = chunks s" "s_bigbuf_hi (mem_write i bs s) = s_bigbuf_hi s"
  "s_bigbuf_size (mem_write i bs s) = s_bigbuf_size s" "s_emulator_memory (mem_write i bs s) = s_emulator_memory s"
  "s_toSend (mem_write i bs s) = s_toSend s" "s_dma_16 (mem_write i bs s) = s_dma_16 s" "s_dma_8 (mem_write i bs s) = s_dma_8 s"
  "s_trace_len (mem_write i bs s) = s_trace_len s" "s_tracing (mem_write i bs s) = s_tracing s"
  by (simp_all add: mem_write_def)

lemma bb_inv_calloc:
  assumes "BigBuf_calloc n s = (r, s')" "bb_inv s"
  shows "bb_inv s'" "chunks s' = chunks s" "s_trace_len s' = s_trace_len s" "s_tracing s' = s_tracing s"
    and "s_toSend s' = s_toSend s" "s_emulator_memory s' = s_emulator_memory s" "s_dma_16 s' = s_dma_16 s" "s_dma_8 s' = s_dma_8 s"
    and "length (BigBuf s') = length (BigBuf s)" "take (unat (s_trace_len s)) (BigBuf s') = take (unat (s_trace_len s)) (BigBuf s)"
    and "\<And>p. r = Some p \<Longrightarrow> s_bigbuf_hi s' = p \<and> unat p + unat n \<le> unat (s_bigbuf_hi s) \<and>
      mem_read (unat p) (unat n) s' = replicate (unat n) 0"
proof -
  obtain r1 s1 where m: "BigBuf_malloc n s = (r1, s1)" by (cases "BigBuf_malloc n s")
  note i = bb_inv_malloc [OF m assms(2)]
  have "bb_inv s' \<and> chunks s' = chunks s \<and> s_trace_len s' = s_trace_len s \<and> s_tracing s' = s_tracing s \<and>
    s_toSend s' = s_toSend s \<and> s_emulator_memory s' = s_emulator_memory s \<and> s_dma_16 s' = s_dma_16 s \<and> s_dma_8 s' = s_dma_8 s \<and>
    length (BigBuf s') = length (BigBuf s) \<and> take (unat (s_trace_len s)) (BigBuf s') = take (unat (s_trace_len s)) (BigBuf s) \<and>
    (\<forall>p. r = Some p \<longrightarrow> s_bigbuf_hi s' = p \<and> unat p + unat n \<le> unat (s_bigbuf_hi s) \<and>
      mem_read (unat p) (unat n) s' = replicate (unat n) 0)"
  proof (rule malloc_cases [OF m assms(2)])
    assume "r1 = None" "s1 = s"
    then show ?thesis using assms m by (simp add: BigBuf_calloc_def)
  next
    fix p assume p: "r1 = Some p" "s1 = s\<lparr>s_bigbuf_hi := p\<rparr>" "unat p + (unat n + 3) div 4 * 4 = unat (s_bigbuf_hi s)"
      "unat (s_trace_len s) \<le> unat p" "0 < n" "unat n \<le> 65532"
    let ?k = "unat ((ucast n + BIGBUF_ALIGN_BYTES - 1) AND BIGBUF_ALIGN_MASK :: u32)"
    have le: "unat n \<le> (unat n + 3) div 4 * 4" by presburger
    have k: "?k \<le> (unat n + 3) div 4 * 4" "unat n \<le> ?k" using p(6) le by (simp_all add: unat_align32)
    have s': "s' = mem_write (unat p) (replicate ?k 0) s1" "r = Some p"
      using assms(1) m p(1) by (simp_all add: BigBuf_calloc_def)
    have len: "unat p + ?k \<le> length (BigBuf s1)" using p(2,3) k assms(2) by (simp add: bb_inv_def)
    have "bb_inv s'" unfolding s' using i(1) len by (simp add: bb_inv_mem)
    moreover have "take (unat (s_trace_len s)) (BigBuf s') = take (unat (s_trace_len s)) (BigBuf s)"
      using read_write_at_other [of "unat p" "replicate ?k 0" "BigBuf s1" 0 "unat (s_trace_len s)"] len p(2,4)
      by (simp add: s' mem_write_def)
    moreover have "mem_read (unat p) (unat n) s' = replicate (unat n) 0"
      using read_write_at_inside [of "unat p" "replicate ?k 0" "BigBuf s1" "unat p" "unat n"] len k
      by (simp add: s' mem_write_def mem_read_def)
    ultimately show ?thesis using s' len p i le by simp
  qed
  then show "bb_inv s'" "chunks s' = chunks s" "s_trace_len s' = s_trace_len s" "s_tracing s' = s_tracing s"
    "s_toSend s' = s_toSend s" "s_emulator_memory s' = s_emulator_memory s" "s_dma_16 s' = s_dma_16 s" "s_dma_8 s' = s_dma_8 s"
    "length (BigBuf s') = length (BigBuf s)" "take (unat (s_trace_len s)) (BigBuf s') = take (unat (s_trace_len s)) (BigBuf s)"
    "\<And>p. r = Some p \<Longrightarrow> s_bigbuf_hi s' = p \<and> unat p + unat n \<le> unat (s_bigbuf_hi s) \<and>
      mem_read (unat p) (unat n) s' = replicate (unat n) 0"
    by blast+
qed

text \<open>Handing out the block that an allocation has just reserved.\<close>

lemma bb_inv_new:
  assumes "bb_inv s" "bb_inv s1" "s_bigbuf_hi s1 = p" "unat p + k \<le> unat (s_bigbuf_hi s)" "length (BigBuf s1) = length (BigBuf s)"
    and "chunks s = xs @ ys" "chunks s' = xs @ (unat p, k) # ys"
    and "BigBuf s' = BigBuf s1" "s_bigbuf_hi s' = s_bigbuf_hi s1" "s_bigbuf_size s' = s_bigbuf_size s1"
      "s_trace_len s' = s_trace_len s1" "tosend_inv (s_toSend s')"
  shows "bb_inv s'"
proof -
  have c: "apart (unat p, k) c" "unat p \<le> fst c" if "c \<in> set xs \<union> set ys" for c
  proof -
    have "unat (s_bigbuf_hi s) \<le> fst c" using assms(1,6) that by (auto simp: bb_inv_def)
    then show "apart (unat p, k) c" "unat p \<le> fst c" using assms(4) by (auto simp: apart_def)
  qed
  have "sorted_wrt apart (xs @ (unat p, k) # ys)"
    using assms(1,6) c by (auto simp: bb_inv_def sorted_wrt_append apart_sym [of _ "(unat p, k)"])
  moreover have "\<forall>c\<in>set (xs @ (unat p, k) # ys). unat p \<le> fst c \<and> fst c + snd c \<le> length (BigBuf s) \<and> 4 dvd length (BigBuf s) - fst c"
    using assms c by (auto simp: bb_inv_def)
  ultimately show ?thesis
    using assms unfolding bb_inv_def by simp
qed

lemma EM_addr_cases:
  assumes "BigBuf_get_EM_addr s = (r, s')" "bb_inv s"
  shows "bb_inv s'" "r = s_emulator_memory s'" "length (BigBuf s') = length (BigBuf s)" "s_trace_len s' = s_trace_len s"
    and "s_tracing s' = s_tracing s" "s_toSend s' = s_toSend s" "s_dma_16 s' = s_dma_16 s" "s_dma_8 s' = s_dma_8 s"
    and "take (unat (s_trace_len s)) (BigBuf s') = take (unat (s_trace_len s)) (BigBuf s)"
proof -
  have "bb_inv s' \<and> r = s_emulator_memory s' \<and> length (BigBuf s') = length (BigBuf s) \<and> s_trace_len s' = s_trace_len s \<and>
    s_tracing s' = s_tracing s \<and> s_toSend s' = s_toSend s \<and> s_dma_16 s' = s_dma_16 s \<and> s_dma_8 s' = s_dma_8 s \<and>
    take (unat (s_trace_len s)) (BigBuf s') = take (unat (s_trace_len s)) (BigBuf s)"
  proof (cases "s_emulator_memory s")
    case None
    obtain r1 s1 where m: "BigBuf_calloc CARD_MEMORY_SIZE s = (r1, s1)" by (cases "BigBuf_calloc CARD_MEMORY_SIZE s")
    then have s': "s' = s1\<lparr>s_emulator_memory := r1\<rparr>" "r = r1" using assms(1) None by (auto simp: BigBuf_get_EM_addr_def)
    note i = bb_inv_calloc [OF m assms(2)]
    have "bb_inv s'"
    proof (cases r1)
      case None
      then show ?thesis using i(1,6) s' \<open>s_emulator_memory s = None\<close> by (simp add: bb_inv_def chunks_def)
    next
      case (Some p)
      show ?thesis
        by (rule bb_inv_new [where k = 4096 and p = p and xs = "[]", OF assms(2) i(1)])
          (use Some i None assms(2) in \<open>simp_all add: s' chunks_def chunk_of_def buffer_sizes bb_inv_def\<close>)
    qed
    then show ?thesis using i s' by simp
  qed (use assms in \<open>simp add: BigBuf_get_EM_addr_def\<close>)
  then show "bb_inv s'" "r = s_emulator_memory s'" "length (BigBuf s') = length (BigBuf s)" "s_trace_len s' = s_trace_len s"
    "s_tracing s' = s_tracing s" "s_toSend s' = s_toSend s" "s_dma_16 s' = s_dma_16 s" "s_dma_8 s' = s_dma_8 s"
    "take (unat (s_trace_len s)) (BigBuf s') = take (unat (s_trace_len s)) (BigBuf s)"
    by blast+
qed

lemma bb_inv_get_tosend [inv_intros]: "bb_inv s \<Longrightarrow> bb_inv (get_tosend s)"
proof (cases "ts_buf (s_toSend s)")
  case None
  assume inv: "bb_inv s"
  obtain r1 s1 where m: "BigBuf_malloc TOSEND_BUFFER_SIZE s = (r1, s1)" by (cases "BigBuf_malloc TOSEND_BUFFER_SIZE s")
  note i = bb_inv_malloc [OF m inv]
  have g: "get_tosend s = s1\<lparr>s_toSend := (s_toSend s1)\<lparr>ts_buf := r1\<rparr>\<rparr>" using m None by (simp add: get_tosend_def)
  have t: "tosend_inv (s_toSend (get_tosend s))" using inv i(6) by (simp add: g bb_inv_def tosend_inv_def)
  show ?thesis
  proof (cases r1)
    case n: None
    then show ?thesis using i(1,6) None t by (simp add: g bb_inv_def chunks_def)
  next
    case (Some p)
    show ?thesis
      by (rule bb_inv_new [where k = 2308 and p = p and xs = "chunk_of (s_emulator_memory s) 4096", OF inv i(1)])
        (use Some i None t in \<open>simp_all add: g chunks_def chunk_of_def buffer_sizes flip: word_unat_eq_iff\<close>)
  qed
qed (simp add: get_tosend_def)

lemma bb_inv_get_dma16 [inv_intros]: "bb_inv s \<Longrightarrow> bb_inv (get_dma16 s)"
proof (cases "s_dma_16 s")
  case None
  assume inv: "bb_inv s"
  obtain r1 s1 where m: "BigBuf_malloc (DMA_BUFFER_SIZE * 2) s = (r1, s1)" by (cases "BigBuf_malloc (DMA_BUFFER_SIZE * 2) s")
  note i = bb_inv_malloc [OF m inv]
  have g: "get_dma16 s = s1\<lparr>s_dma_16 := r1\<rparr>" using m None by (simp add: get_dma16_def)
  show ?thesis
  proof (cases r1)
    case n: None
    then show ?thesis using i(1,8) None by (simp add: g bb_inv_def chunks_def)
  next
    case (Some p)
    show ?thesis
      by (rule bb_inv_new [where k = 1024 and p = p and xs = "chunk_of (s_emulator_memory s) 4096 @ chunk_of (ts_buf (s_toSend s)) 2308",
            OF inv i(1)])
        (use Some i None inv in \<open>simp_all add: g chunks_def chunk_of_def buffer_sizes bb_inv_def flip: word_unat_eq_iff\<close>)
  qed
qed (simp add: get_dma16_def)

lemma bb_inv_get_dma8 [inv_intros]: "bb_inv s \<Longrightarrow> bb_inv (get_dma8 s)"
proof (cases "s_dma_8 s")
  case None
  assume inv: "bb_inv s"
  obtain r1 s1 where m: "BigBuf_malloc DMA_BUFFER_SIZE s = (r1, s1)" by (cases "BigBuf_malloc DMA_BUFFER_SIZE s")
  note i = bb_inv_malloc [OF m inv]
  have g: "get_dma8 s = s1\<lparr>s_dma_8 := r1\<rparr>" using m None by (simp add: get_dma8_def)
  show ?thesis
  proof (cases r1)
    case n: None
    then show ?thesis using i(1,9) None by (simp add: g bb_inv_def chunks_def)
  next
    case (Some p)
    show ?thesis
      by (rule bb_inv_new [where k = 512 and p = p and xs = "chunk_of (s_emulator_memory s) 4096 @ chunk_of (ts_buf (s_toSend s)) 2308 @
            chunk_of (s_dma_16 s) 1024" and ys = "[]", OF inv i(1)])
        (use Some i None inv in \<open>simp_all add: g chunks_def chunk_of_def buffer_sizes bb_inv_def flip: word_unat_eq_iff\<close>)
  qed
qed (simp add: get_dma8_def)

text \<open>Freeing: only the emulator memory may stay, and then it is the lowest block.\<close>

lemma bb_inv_free [inv_intros]: "bb_inv s \<Longrightarrow> bb_inv (BigBuf_free s)"
  by (simp add: bb_inv_def BigBuf_free_def forget_buffers_def chunks_def chunk_of_def tosend_inv_def)

lemma bb_inv_free_keep_EM [inv_intros]: "bb_inv s \<Longrightarrow> bb_inv (BigBuf_free_keep_EM s)"
  by (cases "s_emulator_memory s")
    (auto simp: bb_inv_def BigBuf_free_keep_EM_def forget_buffers_def chunks_def chunk_of_def tosend_inv_def)

lemma bb_inv_clear [inv_intros]:
  "bb_inv s \<Longrightarrow> bb_inv (clear_trace s)"
  "bb_inv s \<Longrightarrow> bb_inv (BigBuf_Clear_ext s)"
  "bb_inv s \<Longrightarrow> bb_inv (BigBuf_Clear_keep_EM s)"
  "bb_inv s \<Longrightarrow> bb_inv (tosend_reset s)"
proof -
  show c: "bb_inv (clear_trace s)" if "bb_inv s" for s
    using that by (simp add: clear_trace_def bb_inv_def)
  show "bb_inv s \<Longrightarrow> bb_inv (BigBuf_Clear_ext s)"
    unfolding BigBuf_Clear_ext_def by (intro c bb_inv_mem) (simp_all add: bb_inv_def)
  show "bb_inv s \<Longrightarrow> bb_inv (BigBuf_Clear_keep_EM s)"
    unfolding BigBuf_Clear_keep_EM_def by (intro bb_inv_mem) (simp_all add: bb_inv_def)
  show "bb_inv s \<Longrightarrow> bb_inv (tosend_reset s)"
    by (simp add: tosend_reset_def bb_inv_def chunks_def tosend_inv_def)
qed

lemma EM_in_block: "bb_inv s \<Longrightarrow> s_emulator_memory s = Some p \<Longrightarrow> unat p + 4096 \<le> length (BigBuf s) \<and> unat (s_trace_len s) \<le> unat p"
  by (auto simp: bb_inv_def chunks_def chunk_of_def)

lemma bb_inv_Clear_EM [inv_intros]: "bb_inv s \<Longrightarrow> bb_inv (BigBuf_Clear_EM s)"
proof -
  assume inv: "bb_inv s"
  obtain r s' where g: "BigBuf_get_EM_addr s = (r, s')" by (cases "BigBuf_get_EM_addr s")
  note e = EM_addr_cases [OF g inv]
  show ?thesis
  proof (cases r)
    case (Some p)
    then have "unat p + 4096 \<le> length (BigBuf s')" using e(1,2) EM_in_block by simp
    then show ?thesis using Some e(1) by (simp add: BigBuf_Clear_EM_def g buffer_sizes bb_inv_mem)
  qed (use e(1) g in \<open>simp add: BigBuf_Clear_EM_def\<close>)
qed

subsection \<open>Logging\<close>

text \<open>An entry of the trace with all its fields, the one that a call of \<open>LogTrace\<close> is about, and its bytes.\<close>

record trace_record =
  r_timestamp :: u32
  r_duration :: u16
  r_isResponse :: bool
  r_frame :: bytes
  r_parity :: bytes

definition log_duration :: "u32 \<Rightarrow> u32 \<Rightarrow> u32" where
  "log_duration timestamp_start timestamp_end =
    (if timestamp_end > timestamp_start then timestamp_end - timestamp_start else (0xFFFFFFFF - timestamp_start) + timestamp_end)"

definition logged :: "bytes \<Rightarrow> u16 \<Rightarrow> u32 \<Rightarrow> u32 \<Rightarrow> bytes option \<Rightarrow> bool \<Rightarrow> trace_record" where
  "logged bs iLen timestamp_start timestamp_end parity reader2tag =
    \<lparr>r_timestamp = timestamp_start, r_duration = ucast (min (log_duration timestamp_start timestamp_end) 0xFFFF),
     r_isResponse = (\<not> reader2tag), r_frame = take (unat iLen) bs,
     r_parity = (case parity of Some parity \<Rightarrow> take ((unat iLen - 1) div 8 + 1) parity
                              | None \<Rightarrow> replicate ((unat iLen - 1) div 8 + 1) 0)\<rparr>"

definition encode_record :: "trace_record \<Rightarrow> bytes" where
  "encode_record r = tracelog_hdr (r_timestamp r) (r_duration r) (word_of_nat (length (r_frame r))) (r_isResponse r) @ r_frame r @ r_parity r"

definition good_record :: "trace_record \<Rightarrow> bool" where
  "good_record r \<longleftrightarrow> r_frame r \<noteq> [] \<and> length (r_frame r) < 0x8000 \<and> length (r_parity r) = (length (r_frame r) - 1) div 8 + 1"

lemma length_tracelog_hdr [simp]: "length (tracelog_hdr t d n b) = TRACELOG_HDR_LEN"
  by (simp add: tracelog_hdr_def Let_def TRACELOG_HDR_LEN_def)

lemma length_encode_record: "length (encode_record r) = TRACELOG_HDR_LEN + length (r_frame r) + length (r_parity r)"
  by (simp add: encode_record_def)

lemma mem_write_append:
  assumes "i + length xs + length ys \<le> length (BigBuf s)"
  shows "mem_write (i + length xs) ys (mem_write i xs s) = mem_write i (xs @ ys) s"
  using assms by (simp add: mem_write_def write_at_def ac_simps)

lemma max_traceLen: "unat (BigBuf_max_traceLen s) = unat (s_bigbuf_hi s) mod 65536 div 4 * 4"
  "unat (BigBuf_max_traceLen s) \<le> unat (s_bigbuf_hi s)"
proof -
  have "unat (s_bigbuf_hi s) mod 65536 div 4 * 4 \<le> unat (s_bigbuf_hi s) mod 65536" by (rule div_times_less_eq_dividend)
  also have "\<dots> < 65536" by simp
  finally show 1: "unat (BigBuf_max_traceLen s) = unat (s_bigbuf_hi s) mod 65536 div 4 * 4"
    by (simp add: BigBuf_max_traceLen_def align_mask and_FFFC unsigned_ucast_eq take_bit_eq_mod)
  show "unat (BigBuf_max_traceLen s) \<le> unat (s_bigbuf_hi s)"
    unfolding 1 using div_times_less_eq_dividend mod_less_eq_dividend le_trans by metis
qed

lemma parity_count:
  assumes "n \<noteq> 0"
  shows "unat ((n - 1) div 8 + 1 :: u16) = (unat n - 1) div 8 + 1"
proof -
  have m: "unat (n - 1) = unat n - 1" using assms by (simp add: unat_sub word_le_nat_alt unat_gt_0 Suc_leI)
  have "(unat n - 1) div 8 + 1 < 65536" using unsigned_less [of n, where 'a = nat] by simp
  then show ?thesis by (simp add: unat_word_ariths unat_div m)
qed

lemma LogTrace_cases:
  assumes "LogTrace (Some bs) n st en par rd s = (ok, s')" "bb_inv s" "unat n \<le> length bs"
    and "\<And>p. par = Some p \<Longrightarrow> (unat n - 1) div 8 + 1 \<le> length p"
  obtains "\<not> ok" "s' = s" "\<not> s_tracing s \<or> n = 0 \<or> 0x8000 \<le> n"
  | "\<not> ok" "s' = set_tracing False s"
  | "ok" "s_tracing s" "good_record (logged bs n st en par rd)"
    "s' = (mem_write (unat (s_trace_len s)) (encode_record (logged bs n st en par rd)) s)
      \<lparr>s_trace_len := s_trace_len s + word_of_nat (length (encode_record (logged bs n st en par rd)))\<rparr>"
    "unat (s_trace_len s) + length (encode_record (logged bs n st en par rd)) < unat (BigBuf_max_traceLen s)"
proof -
  let ?e = "word_of_nat TRACELOG_HDR_LEN + ucast n + ucast ((n - 1) div 8 + 1) :: u32"
  let ?m = "ucast (BigBuf_max_traceLen s) :: u32"
  let ?r = "logged bs n st en par rd"
  consider "\<not> s_tracing s \<or> n = 0 \<or> 0x8000 \<le> n" | "s_tracing s" "n \<noteq> 0" "n < 0x8000" "s_trace_len s \<ge> ?m \<or> ?e \<ge> ?m - s_trace_len s"
    | "s_tracing s" "n \<noteq> 0" "n < 0x8000" "s_trace_len s < ?m" "?e < ?m - s_trace_len s"
    by (meson not_le)
  then show ?thesis
  proof cases
    case 1
    then have "LogTrace (Some bs) n st en par rd s = (False, s)" by (elim disjE) (simp_all add: LogTrace_def)
    then show ?thesis using assms(1) that(1) 1 by simp
  next
    case 2
    then have c: "(\<not> s_tracing s) = False" "(n = 0 \<or> 0x8000 \<le> n) = False" "(s_trace_len s \<ge> ?m \<or> ?e \<ge> ?m - s_trace_len s) = True"
      by (auto simp: not_le)
    have "LogTrace (Some bs) n st en par rd s = (False, set_tracing False s)"
      unfolding LogTrace_def option.case Let_def c if_True if_False by (rule refl)
    then show ?thesis using assms(1) that(2) by simp
  next
    case 3
    have n: "0 < unat n" "unat n < 0x8000" using 3(2,3) by (simp_all add: word_less_nat_alt unat_gt_0)
    let ?pc = "(unat n - 1) div 8 + 1"
    have pc: "unat ((n - 1) div 8 + 1) = ?pc" "?pc \<le> 4096" using parity_count [OF 3(2)] n by simp_all
    have good: "good_record ?r" "length (encode_record ?r) = 8 + unat n + ?pc"
      using n assms(3,4) by (auto simp: good_record_def logged_def length_encode_record TRACELOG_HDR_LEN_def split: option.splits)
    have e: "unat ?e = length (encode_record ?r)"
      using n pc by (simp add: good(2) TRACELOG_HDR_LEN_def unat_word_ariths unat_ucast_up)
    have m: "unat ?m = unat (BigBuf_max_traceLen s)" by (simp add: unat_ucast_up)
    have "unat (?m - s_trace_len s) = unat ?m - unat (s_trace_len s)"
      using 3(4) by (intro unat_sub) simp
    then have fits: "unat (s_trace_len s) + length (encode_record ?r) < unat (BigBuf_max_traceLen s)"
      using 3(5) by (simp add: word_less_nat_alt e m)
    then have room: "unat (s_trace_len s) + length (encode_record ?r) \<le> length (BigBuf s)"
      using max_traceLen(2) [of s] assms(2) by (simp add: bb_inv_def)
    have f: "take (unat n) bs = r_frame ?r" "(case par of Some parity \<Rightarrow> take ?pc parity | None \<Rightarrow> replicate ?pc 0) = r_parity ?r"
      by (simp_all add: logged_def)
    have h: "tracelog_hdr st (ucast ((if log_duration st en > 0xFFFF then 0xFFFF else log_duration st en) AND 0xFFFF)) n (\<not> rd) =
        tracelog_hdr (r_timestamp ?r) (r_duration ?r) (word_of_nat (length (r_frame ?r))) (r_isResponse ?r)"
    proof -
      have "(if d > 0xFFFF then 0xFFFF else d) = min d 0xFFFF" for d :: u32 by (auto simp: min_def)
      moreover have "(ucast (d AND 0xFFFF) :: u16) = ucast d" for d :: u32
        by (rule bit_word_eqI) (simp add: word_bits and_masks)
      ultimately show ?thesis using assms(3) by (simp add: logged_def)
    qed
    let ?i = "unat (s_trace_len s)"
    have w: "mem_write (?i + TRACELOG_HDR_LEN + unat n) (r_parity ?r) (mem_write (?i + TRACELOG_HDR_LEN) (r_frame ?r)
        (mem_write ?i (tracelog_hdr (r_timestamp ?r) (r_duration ?r) (word_of_nat (length (r_frame ?r))) (r_isResponse ?r)) s)) =
        mem_write ?i (encode_record ?r) s"
    proof -
      have l: "length (r_frame ?r) = unat n" using assms(3) by (simp add: logged_def)
      show ?thesis
        using room unfolding encode_record_def
        by (simp add: mem_write_append [of ?i "tracelog_hdr _ _ _ _", simplified] l
            mem_write_append [of ?i "tracelog_hdr _ _ _ _ @ r_frame ?r", simplified, unfolded l add.assoc] add.assoc)
    qed
    have c: "(\<not> s_tracing s) = False" "(n = 0 \<or> 0x8000 \<le> n) = False" "(s_trace_len s \<ge> ?m \<or> ?e \<ge> ?m - s_trace_len s) = False"
      using 3 by (auto simp: not_le)
    have "LogTrace (Some bs) n st en par rd s = (True, (mem_write ?i (encode_record ?r) s)\<lparr>s_trace_len := s_trace_len s + ?e\<rparr>)"
      unfolding LogTrace_def option.case Let_def c if_True if_False log_duration_def [symmetric] pc(1) f h w by simp
    moreover have "?e = word_of_nat (length (encode_record ?r))" unfolding e [symmetric] by simp
    ultimately show ?thesis using assms(1) that(3) 3(1) good(1) fits by simp
  qed
qed

subsection \<open>Reading the trace back\<close>

lemma bytes_of_u32: "ucast (ucast w :: u8) OR shl (ucast (ucast (shr w 8) :: u8)) 8 OR shl (ucast (ucast (shr w 16) :: u8)) 16 OR
    shl (ucast (ucast (shr w 24) :: u8)) 24 = (w :: u32)"
proof (rule bit_word_eqI)
  fix n assume "n < LENGTH(32)"
  then consider "n < 8" | "8 \<le> n" "n < 16" | "16 \<le> n" "n < 24" | "24 \<le> n" "n < 32" by fastforce
  then show "bit (ucast (ucast w :: u8) OR shl (ucast (ucast (shr w 8) :: u8)) 8 OR shl (ucast (ucast (shr w 16) :: u8)) 16 OR
    shl (ucast (ucast (shr w 24) :: u8)) 24 :: u32) n = bit w n"
    by cases (auto simp: word_bits bit_ucast_iff)
qed

lemma bytes_of_u16: "ucast (ucast w :: u8) OR shl (ucast (ucast (shr w 8) :: u8)) 8 = (w :: u16)"
  by (rule bit_word_eqI) (auto simp: word_bits bit_ucast_iff)

lemma decode_header:
  fixes t d n b
  defines "h \<equiv> tracelog_hdr t d n b"
  shows "hdr_timestamp (pre @ h @ post) (length pre) = t"
    "hdr_data_len (pre @ h @ post) (length pre) = take_bit 15 n" "hdr_isResponse (pre @ h @ post) (length pre) = b"
proof -
  let ?l = "take_bit 15 n OR shl (of_bool b) 15 :: u16"
  have nth: "(pre @ h @ post) ! (length pre + k) = h ! k" if "k < 8" for k
    using that by (simp add: nth_append h_def TRACELOG_HDR_LEN_def)
  have h: "h ! 0 = ucast t" "h ! 1 = ucast (shr t 8)" "h ! 2 = ucast (shr t 16)" "h ! 3 = ucast (shr t 24)"
    "h ! 4 = ucast d" "h ! 5 = ucast (shr d 8)" "h ! 6 = ucast ?l" "h ! 7 = ucast (shr ?l 8)"
    by (simp_all add: h_def tracelog_hdr_def Let_def)
  show "hdr_timestamp (pre @ h @ post) (length pre) = t"
  proof -
    have "(pre @ h @ post) ! length pre = ucast t" using nth [of 0] h(1) by simp
    moreover have "(pre @ h @ post) ! (length pre + 1) = ucast (shr t 8)" "(pre @ h @ post) ! (length pre + 2) = ucast (shr t 16)"
      "(pre @ h @ post) ! (length pre + 3) = ucast (shr t 24)"
      by (subst nth; simp only: h; simp)+
    ultimately show ?thesis unfolding hdr_timestamp_def by (simp only: bytes_of_u32)
  qed
  have "take_bit 15 ?l = take_bit 15 n" by (rule bit_word_eqI) (auto simp: word_bits)
  moreover have "(pre @ h @ post) ! (length pre + 6) = ucast ?l" "(pre @ h @ post) ! (length pre + 7) = ucast (shr ?l 8)"
    by (subst nth; simp only: h; simp)+
  ultimately show "hdr_data_len (pre @ h @ post) (length pre) = take_bit 15 n"
    unfolding hdr_data_len_def by (simp only: bytes_of_u16)
  show "hdr_isResponse (pre @ h @ post) (length pre) = b"
    unfolding hdr_isResponse_def using nth [of 7] by (simp add: h word_bits bit_ucast_iff)
qed

text \<open>What is to be printed of an entry.\<close>

definition line_of :: "trace_record \<Rightarrow> hex_line" where
  "line_of r = \<lparr>hl_timestamp = r_timestamp r, hl_isResponse = r_isResponse r, hl_len = word_of_nat (length (r_frame r)),
     hl_frame = r_frame r\<rparr>"

lemma printHexLine_record:
  assumes "good_record r" "length pre + length (encode_record r) \<le> N" "N < 65536"
  shows "printHexLine (word_of_nat (length pre)) (word_of_nat N) (pre @ encode_record r @ post) =
    (word_of_nat (length pre + length (encode_record r)), Some (line_of r))"
proof -
  let ?n = "length (r_frame r)" and ?p = "length pre" and ?t = "pre @ encode_record r @ post"
  have n: "?n < 0x8000" "0 < ?n" "length (r_parity r) = (?n - 1) div 8 + 1" using assms(1) by (simp_all add: good_record_def)
  have u: "unat (word_of_nat ?p :: u16) = ?p" "unat (word_of_nat N :: u16) = N" "unat (word_of_nat ?n :: u16) = ?n"
    using assms(2,3) n(1) by (simp_all add: unat_of_nat)
  have l: "length (encode_record r) = TRACELOG_HDR_LEN + ?n + length (r_parity r)" by (simp add: length_encode_record)
  have t: "?t = pre @ tracelog_hdr (r_timestamp r) (r_duration r) (word_of_nat ?n) (r_isResponse r) @ (r_frame r @ r_parity r @ post)"
    by (simp add: encode_record_def)
  have len: "hdr_data_len ?t ?p = word_of_nat ?n"
  proof -
    have "take_bit 15 (word_of_nat ?n :: u16) = word_of_nat ?n"
      using n(1) by (intro word_unat_eq_iff [THEN iffD2]) (simp add: unsigned_take_bit_eq u take_bit_nat_eq_self)
    then show ?thesis unfolding t decode_header .
  qed
  have pl: "TRACELOG_PARITY_LEN (word_of_nat ?n) = length (r_parity r)"
    using n u(3) by (simp add: TRACELOG_PARITY_LEN_def flip: unat_eq_zero)
  have f: "take ?n (drop (?p + TRACELOG_HDR_LEN) ?t) = r_frame r"
    unfolding t by simp
  have g: "\<not> is_last_record (word_of_nat ?p) (word_of_nat N)"
    using assms(2) n(2) unfolding is_last_record_def u l by linarith
  have nz: "word_of_nat ?n \<noteq> (0 :: u16)" using n u(3) by (auto simp flip: unat_eq_zero)
  have c: "\<not> TRACELOG_HDR_LEN + ?n + length (r_parity r) > N" using assms(2) by (simp add: l)
  show ?thesis
    using g c nz unfolding printHexLine_def Let_def u len pl f
    by (simp add: l t decode_header del: of_nat_add) (simp flip: of_nat_add add: l line_of_def)
qed

text \<open>The client prints exactly the records of a well-formed trace, and comes to its end.\<close>

lemma trace_list_records:
  assumes "list_all good_record rs" "length pre + length (concat (map encode_record rs)) < 65536"
  shows "trace_list (word_of_nat (length pre)) (word_of_nat (length pre + length (concat (map encode_record rs))))
    (pre @ concat (map encode_record rs)) = Some (map line_of rs)"
  using assms
proof (induction rs arbitrary: pre)
  case Nil
  then show ?case by (simp add: trace_list.simps)
next
  case (Cons r rs)
  let ?N = "length pre + length (concat (map encode_record (r # rs)))"
  have "0 < length (encode_record r)" by (simp add: length_encode_record TRACELOG_HDR_LEN_def)
  moreover have "unat (word_of_nat (length pre) :: u16) = length pre" "unat (word_of_nat ?N :: u16) = ?N"
    using Cons.prems(2) by (simp_all only: unat_of_nat len_of_numeral_defs) simp_all
  ultimately have lt: "(word_of_nat (length pre) :: u16) < word_of_nat ?N"
    unfolding word_less_nat_alt by simp
  have p: "printHexLine (word_of_nat (length pre)) (word_of_nat ?N) (pre @ concat (map encode_record (r # rs))) =
      (word_of_nat (length (pre @ encode_record r)), Some (line_of r))"
    using printHexLine_record [of r pre ?N "concat (map encode_record rs)"] Cons.prems by simp
  have i: "trace_list (word_of_nat (length (pre @ encode_record r))) (word_of_nat ?N) (pre @ concat (map encode_record (r # rs))) = Some (map line_of rs)"
    using Cons.IH [of "pre @ encode_record r"] Cons.prems by (simp add: add.assoc)
  show ?case
    unfolding trace_list.simps [of "word_of_nat (length pre)"] p prod.case i using lt by simp
qed

end
