(* ===== verification/Big_Buf_Claims.thy ===== *)
theory Big_Buf_Claims
  imports Big_Buf_Laws "HOL-Library.Sublist"
begin

text \<open>
  What the working memory guarantees to its users: the invariant of every reachable state, the
  trace as the client reads it back, the emulator memory, and the queue of bits to send.
\<close>

subsection \<open>Runs\<close>

lemma length_set_tracing [simp]: "BigBuf (set_tracing b s) = BigBuf s"
  by (simp add: set_tracing_def)

lemma bb_inv_LogTrace:
  assumes "bb_inv s" "unat n \<le> length bs" "\<And>p. par = Some p \<Longrightarrow> (unat n - 1) div 8 + 1 \<le> length p"
  shows "bb_inv (snd (LogTrace (Some bs) n st en par rd s)) \<and>
    length (BigBuf (snd (LogTrace (Some bs) n st en par rd s))) = length (BigBuf s) \<and>
    s_bigbuf_hi (snd (LogTrace (Some bs) n st en par rd s)) = s_bigbuf_hi s \<and>
    chunks (snd (LogTrace (Some bs) n st en par rd s)) = chunks s"
proof -
  obtain ok s' where l: "LogTrace (Some bs) n st en par rd s = (ok, s')" by (cases "LogTrace (Some bs) n st en par rd s")
  show ?thesis
  proof (rule LogTrace_cases [OF l assms])
    let ?e = "encode_record (logged bs n st en par rd)"
    assume s': "s' = (mem_write (unat (s_trace_len s)) ?e s)\<lparr>s_trace_len := s_trace_len s + word_of_nat (length ?e)\<rparr>"
      and fits: "unat (s_trace_len s) + length ?e < unat (BigBuf_max_traceLen s)"
    then have le: "unat (s_trace_len s) + length ?e \<le> unat (s_bigbuf_hi s)" using max_traceLen(2) [of s] by simp
    then have room: "unat (s_trace_len s) + length ?e \<le> length (BigBuf s)" using assms(1) by (simp add: bb_inv_def)
    have "unat (s_trace_len s + word_of_nat (length ?e)) \<le> unat (s_trace_len s) + length ?e"
      by (simp add: unat_word_ariths unat_of_nat)
    then have "bb_inv s'" unfolding s' using assms(1) le room by (intro bb_inv_trace bb_inv_mem) simp_all
    then show ?thesis using room by (simp add: l s')
  qed (use assms(1) in \<open>simp_all add: l bb_inv_tracing\<close>, simp add: set_tracing_def)
qed

text \<open>
  The steps of the firmware on the working memory, with the blocks that are in use: each one that
  \<open>BigBuf_malloc\<close> or \<open>BigBuf_calloc\<close> returned, to whatever caller and with the length asked for, since
  it was last freed. The premises are the obligations of the callers: source buffers are as long as
  announced, offsets into the emulator memory do not wrap around, a trace length set by hand stays
  below the allocated blocks, and a driver writes only into a block that is in use.
\<close>

definition fresh :: "u32 option \<Rightarrow> u32 option \<Rightarrow> nat \<Rightarrow> (nat \<times> nat) list" where
  "fresh before after n = (if before = None then chunk_of after n else [])"

inductive bb_step :: "bigbuf \<times> (nat \<times> nat) list \<Rightarrow> bigbuf \<times> (nat \<times> nat) list \<Rightarrow> bool" where
  malloc: "BigBuf_malloc n s = (p, s') \<Longrightarrow> bb_step (s, bl) (s', chunk_of p (unat n) @ bl)"
| calloc: "BigBuf_calloc n s = (p, s') \<Longrightarrow> bb_step (s, bl) (s', chunk_of p (unat n) @ bl)"
| get_EM_addr: "BigBuf_get_EM_addr s = (p, s') \<Longrightarrow> bb_step (s, bl) (s', fresh (s_emulator_memory s) p 4096 @ bl)"
| clear_trace: "bb_step (s, bl) (clear_trace s, bl)"
| set_tracelen: "unat v \<le> unat (s_bigbuf_hi s) \<Longrightarrow> bb_step (s, bl) (set_tracelen v s, bl)"
| set_tracing: "bb_step (s, bl) (set_tracing b s, bl)"
| Clear_ext: "bb_step (s, bl) (BigBuf_Clear_ext s, bl)"
| Clear_EM: "s' = BigBuf_Clear_EM s \<Longrightarrow> bb_step (s, bl) (s', fresh (s_emulator_memory s) (s_emulator_memory s') 4096 @ bl)"
| Clear_keep_EM: "bb_step (s, bl) (BigBuf_Clear_keep_EM s, bl)"
| free: "bb_step (s, bl) (BigBuf_free s, [])"
| free_keep_EM: "bb_step (s, bl) (BigBuf_free_keep_EM s, chunk_of (s_emulator_memory s) 4096)"
| get_tosend: "s' = get_tosend s \<Longrightarrow> bb_step (s, bl) (s', fresh (ts_buf (s_toSend s)) (ts_buf (s_toSend s')) 2308 @ bl)"
| get_dma16: "s' = get_dma16 s \<Longrightarrow> bb_step (s, bl) (s', fresh (s_dma_16 s) (s_dma_16 s') 1024 @ bl)"
| get_dma8: "s' = get_dma8 s \<Longrightarrow> bb_step (s, bl) (s', fresh (s_dma_8 s) (s_dma_8 s') 512 @ bl)"
| tosend_reset: "bb_step (s, bl) (tosend_reset s, bl)"
| stuffbit: "tosend_stuffbit b s = Some s' \<Longrightarrow> bb_step (s, bl) (s', bl)"
| log_null: "bb_step (s, bl) (snd (LogTrace None n st en par rd s), bl)"
| log: "\<lbrakk>unat n \<le> length bs; \<And>p. par = Some p \<Longrightarrow> (unat n - 1) div 8 + 1 \<le> length p\<rbrakk> \<Longrightarrow>
    bb_step (s, bl) (snd (LogTrace (Some bs) n st en par rd s), bl)"
| log_ISO15693: "\<lbrakk>unat n \<le> length bs; \<And>p. par = Some p \<Longrightarrow> (unat n - 1) div 8 + 1 \<le> length p\<rbrakk> \<Longrightarrow>
    bb_step (s, bl) (snd (LogTrace_ISO15693 (Some bs) n st en par rd s), bl)"
| log_bits: "nbytes (unat n) \<le> length bs \<Longrightarrow> bb_step (s, bl) (snd (LogTraceBits (Some bs) n st en rd s), bl)"
| emlSet: "\<lbrakk>unat offset + unat len < 2 ^ 32; unat len \<le> length data; emlSet data offset len s = (r, s')\<rbrakk> \<Longrightarrow>
    bb_step (s, bl) (s', fresh (s_emulator_memory s) (s_emulator_memory s') 4096 @ bl)"
| emlGet: "emlGet offset len s = (r, s') \<Longrightarrow> bb_step (s, bl) (s', fresh (s_emulator_memory s) (s_emulator_memory s') 4096 @ bl)"
| driver: "\<lbrakk>(p, n) \<in> set bl; p \<le> i; i + length bs \<le> p + n\<rbrakk> \<Longrightarrow> bb_step (s, bl) (mem_write i bs s, bl)"

text \<open>The blocks in use lie above the high mark, inside the memory and apart, and the four named buffers are among them.\<close>

definition own_inv :: "bigbuf \<times> (nat \<times> nat) list \<Rightarrow> bool" where
  "own_inv = (\<lambda>(s, bl). bb_inv s \<and>
    (\<forall>c\<in>set bl. unat (s_bigbuf_hi s) \<le> fst c \<and> fst c + snd c \<le> length (BigBuf s) \<and> 4 dvd length (BigBuf s) - fst c) \<and>
    sorted_wrt apart bl \<and> set (chunks s) \<subseteq> set bl)"

lemma own_keep:
  assumes "own_inv (s, bl)" "bb_inv s'" "length (BigBuf s') = length (BigBuf s)" "s_bigbuf_hi s' = s_bigbuf_hi s"
    "set (chunks s') \<subseteq> set (chunks s)"
  shows "own_inv (s', bl) \<and> length (BigBuf s') = length (BigBuf s)"
  using assms by (auto simp: own_inv_def)

lemma own_new:
  assumes "own_inv (s, bl)" "bb_inv s'" "length (BigBuf s') = length (BigBuf s)" "unat (s_bigbuf_hi s') = unat p"
    "unat p + k \<le> unat (s_bigbuf_hi s)" "set (chunks s') \<subseteq> insert (unat p, k) (set (chunks s))"
  shows "own_inv (s', (unat p, k) # bl) \<and> length (BigBuf s') = length (BigBuf s)"
proof -
  have "apart (unat p, k) c" "unat p \<le> fst c" if "c \<in> set bl" for c
    using assms(1,5) that by (fastforce simp: own_inv_def apart_def)+
  then show ?thesis
    using assms unfolding own_inv_def bb_inv_def by auto
qed

lemma own_malloc:
  assumes "BigBuf_malloc n s = (r, s')" "own_inv (s, bl)"
  shows "own_inv (s', chunk_of r (unat n) @ bl) \<and> length (BigBuf s') = length (BigBuf s)"
proof -
  have inv: "bb_inv s" using assms(2) by (simp add: own_inv_def)
  note i = bb_inv_malloc [OF assms(1) inv]
  show ?thesis
  proof (cases r)
    case None
    have "s' = s" by (rule malloc_cases [OF assms(1) inv]) (use None in simp_all)
    then show ?thesis using assms(2) None by (simp add: chunk_of_def)
  next
    case (Some p)
    then show ?thesis
      using own_new [OF assms(2) i(1), of p "unat n"] i(2,3,10) by (auto simp: chunk_of_def)
  qed
qed

lemma own_calloc:
  assumes "BigBuf_calloc n s = (r, s')" "own_inv (s, bl)"
  shows "own_inv (s', chunk_of r (unat n) @ bl) \<and> length (BigBuf s') = length (BigBuf s)"
proof -
  have inv: "bb_inv s" using assms(2) by (simp add: own_inv_def)
  note i = bb_inv_calloc [OF assms(1) inv]
  show ?thesis
  proof (cases r)
    case None
    have "s' = s"
      using assms(1) None by (auto simp: BigBuf_calloc_def BigBuf_malloc_def Let_def split: if_splits)
    then show ?thesis using assms(2) None by (simp add: chunk_of_def)
  next
    case (Some p)
    then show ?thesis
      using own_new [OF assms(2) i(1,9), of p "unat n"] i(2,11) by (auto simp: chunk_of_def)
  qed
qed

text \<open>The chunks of a state that has one of the named buffers more than another one.\<close>

lemma chunks_new: "c \<in> set (chunks s') \<Longrightarrow>
    s_emulator_memory s' = s_emulator_memory s \<or> chunk_of (s_emulator_memory s') 4096 = [d] \<Longrightarrow>
    ts_buf (s_toSend s') = ts_buf (s_toSend s) \<or> chunk_of (ts_buf (s_toSend s')) 2308 = [d] \<Longrightarrow>
    s_dma_16 s' = s_dma_16 s \<or> chunk_of (s_dma_16 s') 1024 = [d] \<Longrightarrow> s_dma_8 s' = s_dma_8 s \<or> chunk_of (s_dma_8 s') 512 = [d] \<Longrightarrow>
    c = d \<or> c \<in> set (chunks s)"
  by (auto simp: chunks_def)

lemma own_EM:
  assumes "BigBuf_get_EM_addr s = (r, s')" "own_inv (s, bl)"
  shows "own_inv (s', fresh (s_emulator_memory s) (s_emulator_memory s') 4096 @ bl) \<and> length (BigBuf s') = length (BigBuf s)"
proof (cases "s_emulator_memory s")
  case None
  have inv: "bb_inv s" using assms(2) by (simp add: own_inv_def)
  obtain r1 s1 where m: "BigBuf_calloc CARD_MEMORY_SIZE s = (r1, s1)" by (cases "BigBuf_calloc CARD_MEMORY_SIZE s")
  then have s': "s' = s1\<lparr>s_emulator_memory := r1\<rparr>" using assms(1) None by (auto simp: BigBuf_get_EM_addr_def)
  note i = bb_inv_calloc [OF m inv] and e = EM_addr_cases [OF assms(1) inv]
  show ?thesis
  proof (cases r1)
    case n: None
    then have "s1 = s" using m by (auto simp: BigBuf_calloc_def BigBuf_malloc_def Let_def split: if_splits)
    then have "s' = s" using None n s' by simp
    then show ?thesis using assms(2) None n by (simp add: fresh_def chunk_of_def)
  next
    case (Some p)
    have c: "set (chunks s') \<subseteq> insert (unat p, 4096) (set (chunks s))"
      using chunks_new [of _ s' s "(unat p, 4096)"] i(5,7,8) Some by (auto simp: s' chunk_of_def)
    have h: "s_bigbuf_hi s' = p" "unat p + 4096 \<le> unat (s_bigbuf_hi s)"
      using i(11) [OF Some] by (simp_all add: s' buffer_sizes)
    show ?thesis
      using own_new [OF assms(2) e(1,3) _ h(2) c] h(1) None Some by (simp add: s' fresh_def chunk_of_def)
  qed
qed (use assms in \<open>auto simp: BigBuf_get_EM_addr_def fresh_def\<close>)

lemma own_write:
  assumes "own_inv (s, bl)" "i + length bs \<le> length (BigBuf s)"
  shows "own_inv (mem_write i bs s, bl) \<and> length (BigBuf (mem_write i bs s)) = length (BigBuf s)"
  using assms by (intro own_keep) (auto simp: own_inv_def bb_inv_mem)

lemma own_get_tosend: "own_inv (s, bl) \<Longrightarrow>
    own_inv (get_tosend s, fresh (ts_buf (s_toSend s)) (ts_buf (s_toSend (get_tosend s))) 2308 @ bl) \<and>
    length (BigBuf (get_tosend s)) = length (BigBuf s)"
proof (cases "ts_buf (s_toSend s)")
  case None
  assume own: "own_inv (s, bl)"
  then have inv: "bb_inv s" by (simp add: own_inv_def)
  obtain r1 s1 where m: "BigBuf_malloc TOSEND_BUFFER_SIZE s = (r1, s1)" by (cases "BigBuf_malloc TOSEND_BUFFER_SIZE s")
  note i = bb_inv_malloc [OF m inv]
  have g: "get_tosend s = s1\<lparr>s_toSend := (s_toSend s1)\<lparr>ts_buf := r1\<rparr>\<rparr>" using m None by (simp add: get_tosend_def)
  show ?thesis
  proof (cases r1)
    case n: None
    have "s1 = s" by (rule malloc_cases [OF m inv]) (use n in simp_all)
    then show ?thesis using own_keep [OF own bb_inv_get_tosend [OF inv]] None n by (simp add: g fresh_def chunk_of_def chunks_def)
  next
    case (Some p)
    have "set (chunks (get_tosend s)) \<subseteq> insert (unat p, 2308) (set (chunks s))"
      using chunks_new [of _ "get_tosend s" s "(unat p, 2308)"] i(7-9) Some by (auto simp: g chunk_of_def)
    then show ?thesis
      using own_new [OF own bb_inv_get_tosend [OF inv], of p 2308] i(3,10) Some None by (simp add: g fresh_def chunk_of_def buffer_sizes)
  qed
qed (simp add: get_tosend_def fresh_def)

lemma own_get_dma16: "own_inv (s, bl) \<Longrightarrow>
    own_inv (get_dma16 s, fresh (s_dma_16 s) (s_dma_16 (get_dma16 s)) 1024 @ bl) \<and> length (BigBuf (get_dma16 s)) = length (BigBuf s)"
proof (cases "s_dma_16 s")
  case None
  assume own: "own_inv (s, bl)"
  then have inv: "bb_inv s" by (simp add: own_inv_def)
  obtain r1 s1 where m: "BigBuf_malloc (DMA_BUFFER_SIZE * 2) s = (r1, s1)" by (cases "BigBuf_malloc (DMA_BUFFER_SIZE * 2) s")
  note i = bb_inv_malloc [OF m inv]
  have g: "get_dma16 s = s1\<lparr>s_dma_16 := r1\<rparr>" using m None by (simp add: get_dma16_def)
  show ?thesis
  proof (cases r1)
    case n: None
    have "s1 = s" by (rule malloc_cases [OF m inv]) (use n in simp_all)
    then show ?thesis using own_keep [OF own bb_inv_get_dma16 [OF inv]] None n by (simp add: g fresh_def chunk_of_def chunks_def)
  next
    case (Some p)
    have "set (chunks (get_dma16 s)) \<subseteq> insert (unat p, 1024) (set (chunks s))"
      using chunks_new [of _ "get_dma16 s" s "(unat p, 1024)"] i(6,7,9) Some by (auto simp: g chunk_of_def)
    then show ?thesis
      using own_new [OF own bb_inv_get_dma16 [OF inv], of p 1024] i(3,10) Some None by (simp add: g fresh_def chunk_of_def buffer_sizes)
  qed
qed (simp add: get_dma16_def fresh_def)

lemma own_get_dma8: "own_inv (s, bl) \<Longrightarrow>
    own_inv (get_dma8 s, fresh (s_dma_8 s) (s_dma_8 (get_dma8 s)) 512 @ bl) \<and> length (BigBuf (get_dma8 s)) = length (BigBuf s)"
proof (cases "s_dma_8 s")
  case None
  assume own: "own_inv (s, bl)"
  then have inv: "bb_inv s" by (simp add: own_inv_def)
  obtain r1 s1 where m: "BigBuf_malloc DMA_BUFFER_SIZE s = (r1, s1)" by (cases "BigBuf_malloc DMA_BUFFER_SIZE s")
  note i = bb_inv_malloc [OF m inv]
  have g: "get_dma8 s = s1\<lparr>s_dma_8 := r1\<rparr>" using m None by (simp add: get_dma8_def)
  show ?thesis
  proof (cases r1)
    case n: None
    have "s1 = s" by (rule malloc_cases [OF m inv]) (use n in simp_all)
    then show ?thesis using own_keep [OF own bb_inv_get_dma8 [OF inv]] None n by (simp add: g fresh_def chunk_of_def chunks_def)
  next
    case (Some p)
    have "set (chunks (get_dma8 s)) \<subseteq> insert (unat p, 512) (set (chunks s))"
      using chunks_new [of _ "get_dma8 s" s "(unat p, 512)"] i(6-8) Some by (auto simp: g chunk_of_def)
    then show ?thesis
      using own_new [OF own bb_inv_get_dma8 [OF inv], of p 512] i(3,10) Some None by (simp add: g fresh_def chunk_of_def buffer_sizes)
  qed
qed (simp add: get_dma8_def fresh_def)

subsection \<open>The emulator memory\<close>

lemma eml_in_bounds_iff: "eml_in_bounds offset len \<longleftrightarrow> (unat offset + unat len) mod 2 ^ 32 \<le> 4096"
  by (simp add: eml_in_bounds_def word_le_nat_alt unat_word_ariths unat_ucast_up buffer_sizes)

lemma emlSet_cases:
  assumes "emlSet data offset len s = (r, s')" "bb_inv s" "unat offset + unat len < 2 ^ 32" "unat len \<le> length data"
  obtains "r = PM3_EMALLOC" "s' = snd (BigBuf_get_EM_addr s)" "s_emulator_memory s' = None"
  | p where "r = PM3_EOUTOFBOUND" "s' = snd (BigBuf_get_EM_addr s)" "s_emulator_memory s' = Some p" "4096 < unat offset + unat len"
  | p where "r = PM3_SUCCESS" "s' = mem_write (unat p + unat offset) (take (unat len) data) (snd (BigBuf_get_EM_addr s))"
    "s_emulator_memory s' = Some p" "unat offset + unat len \<le> 4096"
proof -
  obtain q s1 where g: "BigBuf_get_EM_addr s = (q, s1)" by (cases "BigBuf_get_EM_addr s")
  note e = EM_addr_cases [OF g assms(2)]
  have b: "eml_in_bounds offset len \<longleftrightarrow> unat offset + unat len \<le> 4096"
    using assms(3) by (simp add: eml_in_bounds_iff)
  show ?thesis
  proof (cases q)
    case None
    then show ?thesis using assms(1) e(2) g that(1) by (simp add: emlSet_def)
  next
    case (Some p)
    then show ?thesis
    proof (cases "unat offset + unat len \<le> 4096")
      case True
      then have "r = PM3_SUCCESS" "s' = mem_write (unat p + unat offset) (take (unat len) data) s1"
        using assms(1) g Some b by (auto simp: emlSet_def)
      then show ?thesis using that(3) [of p] e(2) Some g True by simp
    next
      case False
      then have "r = PM3_EOUTOFBOUND" "s' = s1" using assms(1) g Some b by (auto simp: emlSet_def)
      then show ?thesis using that(2) [of p] e(2) Some g False by simp
    qed
  qed
qed

lemma bb_inv_emlSet:
  assumes "bb_inv s" "unat offset + unat len < 2 ^ 32" "unat len \<le> length data"
  shows "bb_inv (snd (emlSet data offset len s)) \<and> length (BigBuf (snd (emlSet data offset len s))) = length (BigBuf s)"
proof -
  obtain r s' where r: "emlSet data offset len s = (r, s')" by (cases "emlSet data offset len s")
  obtain q s1 where g: "BigBuf_get_EM_addr s = (q, s1)" by (cases "BigBuf_get_EM_addr s")
  note e = EM_addr_cases [OF g assms(1)]
  show ?thesis
  proof (rule emlSet_cases [OF r assms])
    fix p assume s': "s' = mem_write (unat p + unat offset) (take (unat len) data) (snd (BigBuf_get_EM_addr s))"
      and p: "s_emulator_memory s' = Some p" and b: "unat offset + unat len \<le> 4096"
    have "unat p + 4096 \<le> length (BigBuf s1)" using EM_in_block [OF e(1)] p s' g by simp
    then have w: "unat p + unat offset + length (take (unat len) data) \<le> length (BigBuf s1)" using b assms(3) by simp
    show ?thesis using bb_inv_mem [OF e(1) w] w e(3) by (simp add: r s' g)
  qed (use e r g in simp_all)
qed

subsection \<open>The queue of bits to send\<close>

lemma stuffbit_cases:
  assumes "tosend_stuffbit b s = Some s'" "bb_inv s"
  obtains "2307 \<le> ts_max (s_toSend s)" "s' = s"
  | buf where "ts_max (s_toSend s) < 2307" "ts_buf (s_toSend s) = Some buf" "ts_bit (s_toSend s) = 8"
    "s' = (mem_write (unat buf + nat (ts_max (s_toSend s) + 1)) [if b then 0x80 else 0] s)
      \<lparr>s_toSend := (s_toSend s)\<lparr>ts_max := ts_max (s_toSend s) + 1, ts_bit := 1\<rparr>\<rparr>"
  | buf where "ts_max (s_toSend s) < 2307" "ts_buf (s_toSend s) = Some buf" "ts_bit (s_toSend s) < 8"
    "s' = (if b then mem_write (unat buf + nat (ts_max (s_toSend s)))
         [BigBuf s ! (unat buf + nat (ts_max (s_toSend s))) OR shl 1 (nat (7 - ts_bit (s_toSend s)))] s else s)
      \<lparr>s_toSend := (s_toSend s)\<lparr>ts_bit := ts_bit (s_toSend s) + 1\<rparr>\<rparr>"
  | "ts_max (s_toSend s) < 2307" "ts_buf (s_toSend s) = None" "ts_bit (s_toSend s) < 8" "\<not> b"
    "s' = s\<lparr>s_toSend := (s_toSend s)\<lparr>ts_bit := ts_bit (s_toSend s) + 1\<rparr>\<rparr>"
proof -
  let ?ts = "s_toSend s"
  have t: "tosend_inv ?ts" using assms(2) by (simp add: bb_inv_def)
  have size: "int (unat TOSEND_BUFFER_SIZE) = 2308" by (simp add: buffer_sizes)
  consider "2307 \<le> ts_max ?ts" | "ts_max ?ts < 2307" "ts_buf ?ts = None"
    | buf where "ts_max ?ts < 2307" "ts_buf ?ts = Some buf" "ts_bit ?ts = 8"
    | buf where "ts_max ?ts < 2307" "ts_buf ?ts = Some buf" "ts_bit ?ts < 8"
    using t by (cases "ts_buf ?ts") (force simp: tosend_inv_def)+
  then show ?thesis
  proof cases
    case 1
    then have "tosend_stuffbit b s = Some s" unfolding tosend_stuffbit_def size Let_def by simp
    then show ?thesis using assms(1) 1 that(1) by simp
  next
    case 2
    then have c: "\<not> ts_max ?ts \<ge> 2308 - 1" by simp
    from 2 assms(1) have "ts_bit ?ts < 8" "\<not> b" "s' = s\<lparr>s_toSend := ?ts\<lparr>ts_bit := ts_bit ?ts + 1\<rparr>\<rparr>"
      unfolding tosend_stuffbit_def size Let_def using c by (auto split: if_splits)
    then show ?thesis using that(4) 2 by blast
  next
    case (3 buf)
    let ?p = "unat buf + nat (ts_max ?ts + 1)"
    have "ts_max ?ts + 1 \<le> 2307" "0 \<le> ts_max ?ts + 1" using 3(1) t by (auto simp: tosend_inv_def)
    have "unat buf + 2308 \<le> length (BigBuf s)" using assms(2) 3(2) by (auto simp: bb_inv_def chunks_def chunk_of_def)
    then have p: "?p < length (BigBuf s)" using 3(1) by linarith
    then have w: "mem_write ?p [x] (mem_write ?p [y] s) = mem_write ?p [x] s" "BigBuf (mem_write ?p [y] s) ! ?p = y" for x y
      by (simp_all add: mem_write_def write_at_def nth_append)
    have "s' = (mem_write ?p [if b then 0x80 else 0] s)\<lparr>s_toSend := ?ts\<lparr>ts_max := ts_max ?ts + 1, ts_bit := 1\<rparr>\<rparr>"
      using assms(1) 3 unfolding tosend_stuffbit_def size Let_def
      by (auto simp: w)
    then show ?thesis using that(2) 3 by blast
  next
    case (4 buf)
    have "s' = (if b then mem_write (unat buf + nat (ts_max ?ts)) [BigBuf s ! (unat buf + nat (ts_max ?ts)) OR shl 1 (nat (7 - ts_bit ?ts))] s else s)
        \<lparr>s_toSend := ?ts\<lparr>ts_bit := ts_bit ?ts + 1\<rparr>\<rparr>"
      using assms(1) 4 unfolding tosend_stuffbit_def size Let_def by auto
    then show ?thesis using that(3) 4 by blast
  qed
qed

lemma tosend_block: "bb_inv s \<Longrightarrow> ts_buf (s_toSend s) = Some buf \<Longrightarrow>
    unat buf + 2308 \<le> length (BigBuf s) \<and> unat (s_bigbuf_hi s) \<le> unat buf"
  by (auto simp: bb_inv_def chunks_def chunk_of_def)

lemma bb_inv_tosend:
  "bb_inv s \<Longrightarrow> tosend_inv ts \<Longrightarrow> ts_buf ts = ts_buf (s_toSend s) \<Longrightarrow> bb_inv (s\<lparr>s_toSend := ts\<rparr>)"
  by (simp add: bb_inv_def chunks_def)

lemma bb_inv_stuffbit:
  assumes "tosend_stuffbit b s = Some s'" "bb_inv s"
  shows "bb_inv s' \<and> length (BigBuf s') = length (BigBuf s) \<and> s_bigbuf_hi s' = s_bigbuf_hi s \<and> chunks s' = chunks s"
proof -
  have t: "tosend_inv (s_toSend s)" using assms(2) by (simp add: bb_inv_def)
  have c: "chunks (x\<lparr>s_toSend := ts\<rparr>) = chunks s" if "chunks x = chunks s" "ts_buf ts = ts_buf (s_toSend x)" for x ts
    using that by (simp add: chunks_def)
  show ?thesis
  proof (rule stuffbit_cases [OF assms])
    fix buf assume a: "ts_max (s_toSend s) < 2307" "ts_buf (s_toSend s) = Some buf"
      "s' = (mem_write (unat buf + nat (ts_max (s_toSend s) + 1)) [if b then 0x80 else 0] s)
        \<lparr>s_toSend := (s_toSend s)\<lparr>ts_max := ts_max (s_toSend s) + 1, ts_bit := 1\<rparr>\<rparr>"
    have "unat buf + nat (ts_max (s_toSend s) + 1) + 1 \<le> length (BigBuf s)" using tosend_block [OF assms(2) a(2)] a(1) by linarith
    then have w: "unat buf + nat (ts_max (s_toSend s) + 1) + length [if b then 0x80 else 0 :: u8] \<le> length (BigBuf s)" by simp
    show ?thesis using w t a(1) unfolding a(3) by (auto intro!: bb_inv_tosend bb_inv_mem [OF assms(2)] simp: tosend_inv_def c)
  next
    fix buf assume a: "ts_max (s_toSend s) < 2307" "ts_buf (s_toSend s) = Some buf" "ts_bit (s_toSend s) < 8"
      "s' = (if b then mem_write (unat buf + nat (ts_max (s_toSend s)))
         [BigBuf s ! (unat buf + nat (ts_max (s_toSend s))) OR shl 1 (nat (7 - ts_bit (s_toSend s)))] s else s)
        \<lparr>s_toSend := (s_toSend s)\<lparr>ts_bit := ts_bit (s_toSend s) + 1\<rparr>\<rparr>"
    have "unat buf + nat (ts_max (s_toSend s)) + 1 \<le> length (BigBuf s)" using tosend_block [OF assms(2) a(2)] a(1) by linarith
    then have w: "unat buf + nat (ts_max (s_toSend s)) + length [x] \<le> length (BigBuf s)" for x :: u8 by simp
    show ?thesis using w t a(3) assms(2) unfolding a(4)
      by (cases b) (auto intro!: bb_inv_tosend bb_inv_mem [OF assms(2)] simp: tosend_inv_def c)
  next
    assume a: "ts_bit (s_toSend s) < 8" "s' = s\<lparr>s_toSend := (s_toSend s)\<lparr>ts_bit := ts_bit (s_toSend s) + 1\<rparr>\<rparr>"
    then show ?thesis using t assms(2) by (auto intro!: bb_inv_tosend simp: tosend_inv_def c)
  qed (use assms(2) in simp)
qed

subsection \<open>Every reachable state\<close>

lemma same_block [simp]:
  "BigBuf (clear_trace s) = BigBuf s" "BigBuf (BigBuf_free s) = BigBuf s" "BigBuf (BigBuf_free_keep_EM s) = BigBuf s"
  "BigBuf (tosend_reset s) = BigBuf s" "LogTrace None n st en par rd s = (False, s)"
  by (simp_all add: clear_trace_def BigBuf_free_def BigBuf_free_keep_EM_def forget_buffers_def tosend_reset_def LogTrace_def)

lemma own_log:
  assumes "own_inv (s, bl)" "unat n \<le> length bs" "\<And>p. par = Some p \<Longrightarrow> (unat n - 1) div 8 + 1 \<le> length p"
  shows "own_inv (snd (LogTrace (Some bs) n st en par rd s), bl) \<and>
    length (BigBuf (snd (LogTrace (Some bs) n st en par rd s))) = length (BigBuf s)"
  by (rule own_keep [OF assms(1)])
    (use bb_inv_LogTrace [of s n bs par st en rd] assms in \<open>auto simp: own_inv_def\<close>)

lemma own_EM_write:
  assumes "own_inv (s, bl)" "BigBuf_get_EM_addr s = (r, s1)"
    "s' = s1 \<or> (\<exists>p i bs. r = Some p \<and> s' = mem_write (unat p + i) bs s1 \<and> i + length bs \<le> 4096)"
  shows "own_inv (s', fresh (s_emulator_memory s) (s_emulator_memory s') 4096 @ bl) \<and> length (BigBuf s') = length (BigBuf s)"
proof -
  have inv: "bb_inv s" using assms(1) by (simp add: own_inv_def)
  note o = own_EM [OF assms(2,1)] and e = EM_addr_cases [OF assms(2) inv]
  from assms(3) show ?thesis
  proof
    assume "\<exists>p i bs. r = Some p \<and> s' = mem_write (unat p + i) bs s1 \<and> i + length bs \<le> 4096"
    then obtain p i bs where w: "r = Some p" "s' = mem_write (unat p + i) bs s1" "i + length bs \<le> 4096" by blast
    have "s_emulator_memory s1 = Some p" using e(2) w(1) by simp
    then have "unat p + i + length bs \<le> length (BigBuf s1)" using EM_in_block [OF e(1)] w(3) by force
    then show ?thesis using own_write [of s1 _ "unat p + i" bs] o w(2) by auto
  qed (use o in simp)
qed

lemma own_step: "bb_step x y \<Longrightarrow> own_inv x \<Longrightarrow> own_inv y \<and> length (BigBuf (fst y)) = length (BigBuf (fst x))"
proof (induction rule: bb_step.induct)
  case (set_tracelen v s bl)
  then show ?case
    using own_keep [OF set_tracelen(2), of "Big_Buf.set_tracelen v s"] by (auto simp: own_inv_def bb_inv_trace set_tracelen_def)
next
  case (clear_trace s bl)
  then show ?case
    using own_keep [of s bl "Big_Buf.clear_trace s"] bb_inv_clear(1) [of s] by (simp add: own_inv_def) (simp add: Big_Buf.clear_trace_def)
next
  case (set_tracing s bl b)
  then show ?case
    using own_keep [of s bl "Big_Buf.set_tracing b s"] bb_inv_tracing [of s b] by (simp add: own_inv_def) (simp add: Big_Buf.set_tracing_def)
next
  case (Clear_ext s bl)
  then have "bb_inv s" by (simp add: own_inv_def)
  then show ?case
    using own_keep [OF Clear_ext, of "BigBuf_Clear_ext s"] bb_inv_clear(2) [of s]
    by (simp add: BigBuf_Clear_ext_def Big_Buf.clear_trace_def bb_inv_def)
next
  case (Clear_EM s' s bl)
  obtain r s1 where g: "BigBuf_get_EM_addr s = (r, s1)" by (cases "BigBuf_get_EM_addr s")
  have "s' = s1 \<or> (\<exists>p i bs. r = Some p \<and> s' = mem_write (unat p + i) bs s1 \<and> i + length bs \<le> 4096)"
  proof (cases r)
    case (Some p)
    then show ?thesis using Clear_EM(1) g
      by (intro disjI2 exI [of _ p] exI [of _ 0] exI [of _ "replicate (unat CARD_MEMORY_SIZE) 0"]) (simp add: BigBuf_Clear_EM_def buffer_sizes)
  qed (use Clear_EM(1) g in \<open>simp add: BigBuf_Clear_EM_def\<close>)
  then show ?case using own_EM_write [OF Clear_EM(2) g] by simp
next
  case (Clear_keep_EM s bl)
  then have "bb_inv s" by (simp add: own_inv_def)
  then show ?case
    using own_keep [OF Clear_keep_EM, of "BigBuf_Clear_keep_EM s"] bb_inv_clear(3) [of s]
    by (simp add: BigBuf_Clear_keep_EM_def bb_inv_def)
next
  case (free s bl)
  then have "bb_inv (BigBuf_free s)" by (auto simp: own_inv_def bb_inv_free)
  then show ?case by (simp add: own_inv_def BigBuf_free_def forget_buffers_def chunks_def chunk_of_def)
next
  case (free_keep_EM s bl)
  then have inv: "bb_inv (BigBuf_free_keep_EM s)" by (auto simp: own_inv_def bb_inv_free_keep_EM)
  moreover have "chunks (BigBuf_free_keep_EM s) = chunk_of (s_emulator_memory s) 4096"
    by (simp add: BigBuf_free_keep_EM_def forget_buffers_def chunks_def chunk_of_def split: option.splits)
  ultimately show ?case by (auto simp: own_inv_def bb_inv_def)
next
  case (tosend_reset s bl)
  then show ?case
    using own_keep [of s bl "Big_Buf.tosend_reset s"] bb_inv_clear(4) [of s] by (auto simp: own_inv_def tosend_reset_def chunks_def)
next
  case (stuffbit b s s' bl)
  then show ?case using own_keep [OF stuffbit(2), of s'] bb_inv_stuffbit [OF stuffbit(1)] by (auto simp: own_inv_def)
next
  case (log_ISO15693 n bs par s bl st en rd)
  then show ?case unfolding LogTrace_ISO15693_def Let_def fst_conv by (intro own_log) auto
next
  case (log_bits n bs s bl st en rd)
  show ?case
  proof (cases "n = 0")
    case False
    have "nbytes (unat n) < 65536"
      using div_le_mono [of "unat n" 65535 8] unsigned_less [of n, where 'a = nat] by (simp add: nbytes_def)
    then have u: "unat (word_of_nat (nbytes (unat n)) :: u16) = nbytes (unat n)" by (simp add: unat_of_nat)
    show ?thesis
      unfolding LogTraceBits_def Let_def if_not_P [OF False] fst_conv by (rule own_log) (use log_bits in \<open>auto simp: u\<close>)
  qed (use log_bits in \<open>simp add: LogTraceBits_def\<close>)
next
  case (emlSet offset len data s r s' bl)
  have inv: "bb_inv s" using emlSet(4) by (simp add: own_inv_def)
  obtain q s1 where g: "BigBuf_get_EM_addr s = (q, s1)" by (cases "BigBuf_get_EM_addr s")
  note e = EM_addr_cases [OF g inv]
  have "s' = s1 \<or> (\<exists>p i bs. q = Some p \<and> s' = mem_write (unat p + i) bs s1 \<and> i + length bs \<le> 4096)"
  proof (rule emlSet_cases [OF emlSet(3) inv emlSet(1,2)])
    fix p assume a: "s' = mem_write (unat p + unat offset) (take (unat len) data) (snd (BigBuf_get_EM_addr s))"
      "s_emulator_memory s' = Some p" "unat offset + unat len \<le> 4096"
    then have "q = Some p" using e(2) g by simp
    then show ?thesis using a g emlSet(2)
      by (intro disjI2 exI [of _ p] exI [of _ "unat offset"] exI [of _ "take (unat len) data"]) simp
  qed (use g in simp_all)
  then show ?case using own_EM_write [OF emlSet(4) g] by simp
next
  case (emlGet offset len s r s' bl)
  obtain q s1 where g: "BigBuf_get_EM_addr s = (q, s1)" by (cases "BigBuf_get_EM_addr s")
  have "s' = s1" using emlGet(1) g by (auto simp: emlGet_def split: option.splits if_splits)
  then show ?case using own_EM_write [OF emlGet(2) g, of s'] by simp
next
  case (get_EM_addr s p s' bl)
  then have "p = s_emulator_memory s'" using EM_addr_cases(2) by (auto simp: own_inv_def)
  then show ?case using own_EM [OF get_EM_addr] by simp
next
  case (driver p n bl i bs s)
  then have "p + n \<le> length (BigBuf s)" by (fastforce simp: own_inv_def)
  then show ?case using driver own_write [OF driver(4), of i bs] by simp
qed (simp_all add: own_malloc own_calloc own_get_tosend own_get_dma16 own_get_dma8 own_log)

lemma bb_inv_init: "length ram < 2 ^ 32 \<Longrightarrow> bb_inv (BigBuf_initialize ram)"
  by (simp add: bb_inv_def BigBuf_initialize_def chunks_def chunk_of_def tosend_inv_def unat_of_nat)

lemma length_init [simp]: "length (BigBuf (BigBuf_initialize ram)) = length ram"
  by (simp add: BigBuf_initialize_def)

lemma own_reachable:
  assumes "bb_step\<^sup>*\<^sup>* (BigBuf_initialize ram, []) x" "length ram < 2 ^ 32"
  shows "own_inv x \<and> length (BigBuf (fst x)) = length ram"
  using assms
proof (induction rule: rtranclp_induct)
  case base
  have "chunks (BigBuf_initialize ram) = []" by (simp add: BigBuf_initialize_def chunks_def chunk_of_def)
  then show ?case using bb_inv_init [OF base] by (simp add: own_inv_def)
qed (auto dest: own_step)

lemma bb_reachable: "bb_step\<^sup>*\<^sup>* (BigBuf_initialize ram, []) (s, blocks) \<Longrightarrow> length ram < 2 ^ 32 \<Longrightarrow> bb_inv s \<and> length (BigBuf s) = length ram"
  using own_reachable [of ram "(s, blocks)"] by (simp add: own_inv_def)

text \<open>C24: In every state that the firmware reaches from \<open>BigBuf_initialize\<close>, whatever the order of its
  calls: every block that \<open>BigBuf_malloc\<close> or \<open>BigBuf_calloc\<close> handed out to any caller and that is not yet freed
  lies between the high mark and the end of the memory, aligned to four bytes when the memory is, and no
  two of these blocks overlap. The trace ends below the high mark. The emulator memory, the send buffer
  and the two DMA buffers, where allocated, are four different ones of these blocks with their full sizes, and the
  write index of the send buffer stays inside it.\<close>

theorem bigbuf_invariant:
  assumes "bb_step\<^sup>*\<^sup>* (BigBuf_initialize ram, []) (s, blocks)" "length ram < 2 ^ 32"
  shows "length (BigBuf s) = length ram \<and> unat (s_trace_len s) \<le> unat (s_bigbuf_hi s) \<and>
    list_all (\<lambda>(p, n). unat (s_bigbuf_hi s) \<le> p \<and> p + n \<le> length ram \<and> 4 dvd length ram - p) blocks \<and>
    sorted_wrt (\<lambda>(p, n) (q, m). p + n \<le> q \<or> q + m \<le> p) blocks \<and>
    set (chunks s) \<subseteq> set blocks \<and> sorted_wrt (\<lambda>(p, n) (q, m). p + n \<le> q \<or> q + m \<le> p) (chunks s) \<and>
    -1 \<le> ts_max (s_toSend s) \<and> ts_max (s_toSend s) < int (unat TOSEND_BUFFER_SIZE)"
proof -
  have "apart = (\<lambda>(p, n) (q, m). p + n \<le> q \<or> q + m \<le> p)"
    by (auto simp: apart_def fun_eq_iff)
  moreover have "int (unat TOSEND_BUFFER_SIZE) = 2308" by (simp only: buffer_sizes)
  moreover have "own_inv (s, blocks)" "length (BigBuf s) = length ram" using own_reachable [OF assms] by simp_all
  ultimately show ?thesis
    unfolding own_inv_def bb_inv_def by (auto simp: list_all_iff tosend_inv_def)
qed

text \<open>A block for some caller, and then the emulator memory.\<close>

lemma bigbuf_invariant_witness:
  "sorted_wrt (\<lambda>(p, n) (q, m). p + n \<le> q \<or> q + m \<le> p) [(3996 :: nat, 4096 :: nat), (8092, 100)] \<and>
    set (chunks (snd (BigBuf_get_EM_addr (snd (BigBuf_malloc 100 (BigBuf_initialize (replicate 8192 0))))))) \<subseteq> {(3996, 4096), (8092, 100)}"
proof -
  let ?s0 = "BigBuf_initialize (replicate 8192 0)"
  obtain s1 where s1: "BigBuf_malloc 100 ?s0 = (Some 8092, s1)"
    by (simp add: BigBuf_malloc_def BigBuf_initialize_def align_chunk_def align_mask Let_def)
  then have e: "s1 = ?s0\<lparr>s_bigbuf_hi := 8092\<rparr>"
    by (simp add: BigBuf_malloc_def BigBuf_initialize_def align_chunk_def align_mask Let_def)
  obtain s2 where s2: "BigBuf_get_EM_addr s1 = (Some 3996, s2)" "s_emulator_memory s1 = None"
    by (simp add: e BigBuf_get_EM_addr_def BigBuf_calloc_def BigBuf_malloc_def BigBuf_initialize_def align_chunk_def
        CARD_MEMORY_SIZE_def align_mask Let_def)
  have "bb_step\<^sup>*\<^sup>* (?s0, []) (s2, [(3996, 4096), (8092, 100)])"
    using bb_step.malloc [OF s1, of "[]"] bb_step.get_EM_addr [OF s2(1), of "[(8092, 100)]"] s2(2)
    by (auto simp: fresh_def chunk_of_def dest: converse_rtranclp_into_rtranclp [rotated])
  from bigbuf_invariant [OF this] show ?thesis unfolding s1 s2 snd_conv by simp
qed

subsection \<open>Traces\<close>

record log_call =
  lc_bytes :: bytes
  lc_len :: u16
  lc_start :: u32
  lc_end :: u32
  lc_parity :: "bytes option"
  lc_reader :: bool

definition call_ok :: "log_call \<Rightarrow> bool" where
  "call_ok c \<longleftrightarrow> unat (lc_len c) \<le> length (lc_bytes c) \<and>
    (case lc_parity c of None \<Rightarrow> True | Some p \<Rightarrow> (unat (lc_len c) - 1) div 8 + 1 \<le> length p)"

definition call_record :: "log_call \<Rightarrow> trace_record" where
  "call_record c = logged (lc_bytes c) (lc_len c) (lc_start c) (lc_end c) (lc_parity c) (lc_reader c)"

text \<open>A sequence of calls, with those that \<open>LogTrace\<close> accepts.\<close>

fun log_all :: "log_call list \<Rightarrow> bigbuf \<Rightarrow> log_call list \<times> bigbuf" where
  "log_all [] s = ([], s)"
| "log_all (c # cs) s =
    (case LogTrace (Some (lc_bytes c)) (lc_len c) (lc_start c) (lc_end c) (lc_parity c) (lc_reader c) s of
       (ok, s) \<Rightarrow> case log_all cs s of (acc, s) \<Rightarrow> (if ok then c # acc else acc, s))"

text \<open>The trace holds the records \<open>rs\<close>.\<close>

definition trace_holds :: "trace_record list \<Rightarrow> bigbuf \<Rightarrow> bool" where
  "trace_holds rs s \<longleftrightarrow> list_all good_record rs \<and> unat (s_trace_len s) = length (concat (map encode_record rs)) \<and>
    take (unat (s_trace_len s)) (BigBuf s) = concat (map encode_record rs) \<and> unat (s_trace_len s) < 65536"

definition loggable :: "log_call \<Rightarrow> bool" where
  "loggable c \<longleftrightarrow> lc_len c \<noteq> 0 \<and> lc_len c < 0x8000"

lemma trace_holds_tracing [simp]: "trace_holds rs (set_tracing b s) = trace_holds rs s"
  by (simp add: trace_holds_def set_tracing_def)

lemma log_holds:
  assumes "LogTrace (Some (lc_bytes c)) (lc_len c) (lc_start c) (lc_end c) (lc_parity c) (lc_reader c) s = (ok, s')"
    "bb_inv s" "call_ok c" "trace_holds rs s"
  shows "bb_inv s' \<and> trace_holds (if ok then rs @ [call_record c] else rs) s' \<and> s_bigbuf_hi s' = s_bigbuf_hi s \<and>
    drop (unat (s_bigbuf_hi s)) (BigBuf s') = drop (unat (s_bigbuf_hi s)) (BigBuf s) \<and>
    (s_tracing s' \<longrightarrow> s_tracing s \<and> (ok \<longleftrightarrow> loggable c))"
proof -
  have par: "\<And>p. lc_parity c = Some p \<Longrightarrow> (unat (lc_len c) - 1) div 8 + 1 \<le> length p" "unat (lc_len c) \<le> length (lc_bytes c)"
    using assms(3) by (auto simp: call_ok_def)
  show ?thesis
  proof (rule LogTrace_cases [OF assms(1,2) par(2,1)])
    assume "\<not> ok" "s' = s" "\<not> s_tracing s \<or> lc_len c = 0 \<or> 0x8000 \<le> lc_len c"
    then show ?thesis using assms(2,4) by (auto simp: loggable_def)
  next
    assume "\<not> ok" "s' = set_tracing False s"
    then show ?thesis using assms(2,4) by (simp add: bb_inv_tracing) (simp add: set_tracing_def)
  next
    let ?r = "call_record c"
    assume a: "ok" "s_tracing s" "good_record (logged (lc_bytes c) (lc_len c) (lc_start c) (lc_end c) (lc_parity c) (lc_reader c))"
      "s' = (mem_write (unat (s_trace_len s)) (encode_record (logged (lc_bytes c) (lc_len c) (lc_start c) (lc_end c) (lc_parity c) (lc_reader c))) s)
        \<lparr>s_trace_len := s_trace_len s + word_of_nat (length (encode_record (logged (lc_bytes c) (lc_len c) (lc_start c) (lc_end c) (lc_parity c) (lc_reader c))))\<rparr>"
      "unat (s_trace_len s) + length (encode_record (logged (lc_bytes c) (lc_len c) (lc_start c) (lc_end c) (lc_parity c) (lc_reader c))) < unat (BigBuf_max_traceLen s)"
    note a = a(1,2) a(3-5) [folded call_record_def]
    let ?n = "unat (s_trace_len s)" and ?e = "encode_record ?r"
    have hi: "?n + length ?e \<le> unat (s_bigbuf_hi s)" using a(5) max_traceLen(2) [of s] by simp
    then have room: "?n + length ?e \<le> length (BigBuf s)" using assms(2) by (simp add: bb_inv_def)
    have small: "?n + length ?e < 65536" using a(5) unsigned_less [of "BigBuf_max_traceLen s", where 'a = nat] by simp
    have n: "unat (s_trace_len s + word_of_nat (length ?e)) = ?n + length ?e"
      using small by (simp add: unat_word_ariths unat_of_nat)
    have "bb_inv s'" unfolding a(4) using assms(2) room hi n by (intro bb_inv_trace bb_inv_mem) simp_all
    moreover have "trace_holds (rs @ [?r]) s'"
    proof -
      have t: "list_all good_record rs" "?n = length (concat (map encode_record rs))" "take ?n (BigBuf s) = concat (map encode_record rs)"
        using assms(4) unfolding trace_holds_def by blast+
      show ?thesis using t a(3) n room small by (simp add: trace_holds_def a(4) mem_write_def write_at_def)
    qed
    moreover have "drop (unat (s_bigbuf_hi s)) (BigBuf s') = drop (unat (s_bigbuf_hi s)) (BigBuf s)"
      using hi room by (simp add: a(4) mem_write_def write_at_def)
    moreover have "loggable c"
      using a(3) par(2) by (auto simp: good_record_def call_record_def logged_def loggable_def word_less_nat_alt)
    ultimately show ?thesis using a(1,2,4) by simp
  qed
qed

lemma log_all_holds:
  assumes "log_all cs s = (acc, s')" "bb_inv s" "list_all call_ok cs" "trace_holds rs s"
  shows "bb_inv s' \<and> trace_holds (rs @ map call_record acc) s' \<and> s_bigbuf_hi s' = s_bigbuf_hi s \<and>
    drop (unat (s_bigbuf_hi s)) (BigBuf s') = drop (unat (s_bigbuf_hi s)) (BigBuf s) \<and>
    (\<not> s_tracing s \<longrightarrow> acc = [] \<and> \<not> s_tracing s') \<and>
    prefix acc (filter loggable cs) \<and> (s_tracing s' \<longrightarrow> acc = filter loggable cs)"
  using assms
proof (induction cs arbitrary: s rs acc s')
  case (Cons c cs)
  obtain ok s1 where l: "LogTrace (Some (lc_bytes c)) (lc_len c) (lc_start c) (lc_end c) (lc_parity c) (lc_reader c) s = (ok, s1)"
    by fastforce
  obtain acc1 s2 where a: "log_all cs s1 = (acc1, s2)" by fastforce
  have r: "acc = (if ok then c # acc1 else acc1)" "s' = s2" using Cons.prems(1) l a by auto
  have c: "call_ok c" "list_all call_ok cs" using Cons.prems(3) by simp_all
  note h = log_holds [OF l Cons.prems(2) c(1) Cons.prems(4)]
  have i: "bb_inv s2 \<and> trace_holds ((if ok then rs @ [call_record c] else rs) @ map call_record acc1) s2 \<and> s_bigbuf_hi s2 = s_bigbuf_hi s1 \<and>
    drop (unat (s_bigbuf_hi s1)) (BigBuf s2) = drop (unat (s_bigbuf_hi s1)) (BigBuf s1) \<and>
    (\<not> s_tracing s1 \<longrightarrow> acc1 = [] \<and> \<not> s_tracing s2) \<and>
    prefix acc1 (filter loggable cs) \<and> (s_tracing s2 \<longrightarrow> acc1 = filter loggable cs)"
    using Cons.IH [OF a _ c(2)] h by blast
  have off: "\<not> ok \<and> \<not> s_tracing s1" if "\<not> s_tracing s" using l that by (simp add: LogTrace_def)
  have ok: "loggable c" if ok
    using l that by (auto simp: LogTrace_def loggable_def not_le split: if_splits)
  show ?case
    using h i off ok unfolding r by (cases ok; cases "s_tracing s1") auto
qed simp_all

text \<open>The entries of accepted calls: the length field is the length of the frame, so the line shows the call.\<close>

lemma line_of_call: "call_ok c \<Longrightarrow> line_of (call_record c) =
    \<lparr>hl_timestamp = lc_start c, hl_isResponse = (\<not> lc_reader c), hl_len = lc_len c, hl_frame = take (unat (lc_len c)) (lc_bytes c)\<rparr>"
  by (auto simp: line_of_def call_record_def logged_def call_ok_def)

lemma prefix_all: "prefix xs (filter P ys) \<Longrightarrow> list_all Q ys \<Longrightarrow> list_all Q xs"
  by (auto simp: list_all_iff dest!: set_mono_prefix)

text \<open>C25: What \<open>LogTrace\<close> accepts, the client lists: after any sequence of calls on a cleared trace, the
  raw listing of \<open>printHexLine\<close> ends and shows exactly the accepted calls, in order, each with its start time,
  its direction, its length and its bytes. The accepted calls are a prefix of those with a valid length, all of
  them as long as tracing is on; tracing switches itself off when the trace is full, and the calls never
  write into the blocks above the high mark.\<close>

theorem trace_roundtrip:
  assumes "bb_step\<^sup>*\<^sup>* (BigBuf_initialize ram, []) (s, blocks)" "length ram < 2 ^ 32" "s_trace_len s = 0" "list_all call_ok cs"
    and "log_all cs s = (accepted, s')"
  shows "trace_list 0 (ucast (s_trace_len s')) (take (unat (s_trace_len s')) (BigBuf s')) =
      Some (map (\<lambda>c. \<lparr>hl_timestamp = lc_start c, hl_isResponse = (\<not> lc_reader c), hl_len = lc_len c,
        hl_frame = take (unat (lc_len c)) (lc_bytes c)\<rparr>) accepted) \<and>
    prefix accepted (filter loggable cs) \<and> (s_tracing s' \<longrightarrow> accepted = filter loggable cs) \<and>
    drop (unat (s_bigbuf_hi s)) (BigBuf s') = drop (unat (s_bigbuf_hi s)) (BigBuf s)"
proof -
  have inv: "bb_inv s" using bb_reachable [OF assms(1,2)] by simp
  have "trace_holds [] s" using assms(3) by (simp add: trace_holds_def)
  note h = log_all_holds [OF assms(5) inv assms(4) this]
  let ?rs = "map call_record accepted"
  from h have "trace_holds ?rs s'" by simp
  then have t: "list_all good_record ?rs" "unat (s_trace_len s') = length (concat (map encode_record ?rs))"
    "take (unat (s_trace_len s')) (BigBuf s') = concat (map encode_record ?rs)" "unat (s_trace_len s') < 65536"
    unfolding trace_holds_def by blast+
  have "(ucast (s_trace_len s') :: u16) = word_of_nat (length (concat (map encode_record ?rs)))"
    unfolding t(2) [symmetric] by simp
  then have l: "trace_list 0 (ucast (s_trace_len s')) (take (unat (s_trace_len s')) (BigBuf s')) = Some (map line_of ?rs)"
    using trace_list_records [OF t(1), of "[]"] t(2,4) unfolding t(3) by simp
  have "list_all call_ok accepted" using h prefix_all assms(4) by blast
  then have "map line_of ?rs = map (\<lambda>c. \<lparr>hl_timestamp = lc_start c, hl_isResponse = (\<not> lc_reader c), hl_len = lc_len c,
        hl_frame = take (unat (lc_len c)) (lc_bytes c)\<rparr>) accepted"
    by (auto simp: list_all_iff line_of_call)
  then show ?thesis using h l by simp
qed

text \<open>A request of the reader and a refused empty frame on a fresh memory of 64 bytes.\<close>

lemma trace_roundtrip_witness:
  "let c = \<lparr>lc_bytes = [0x26], lc_len = 1, lc_start = 100, lc_end = 200, lc_parity = None, lc_reader = True\<rparr>;
       s' = snd (log_all [c, c\<lparr>lc_len := 0\<rparr>] (BigBuf_initialize (replicate 64 0)))
   in trace_list 0 (ucast (s_trace_len s')) (take (unat (s_trace_len s')) (BigBuf s')) =
      Some [\<lparr>hl_timestamp = 100, hl_isResponse = False, hl_len = 1, hl_frame = [0x26]\<rparr>]"
proof -
  let ?c = "\<lparr>lc_bytes = [0x26], lc_len = 1, lc_start = 100, lc_end = 200, lc_parity = None, lc_reader = True\<rparr> :: log_call"
  have f: "fst (log_all [?c, ?c\<lparr>lc_len := 0\<rparr>] (BigBuf_initialize (replicate 64 0))) = [?c]"
    by code_simp
  show ?thesis
    using trace_roundtrip [of "replicate 64 0" "BigBuf_initialize (replicate 64 0)" "[]" "[?c, ?c\<lparr>lc_len := 0\<rparr>]" _
        "snd (log_all [?c, ?c\<lparr>lc_len := 0\<rparr>] (BigBuf_initialize (replicate 64 0)))", OF _ _ _ _ prod.collapse [symmetric]]
    unfolding f Let_def by (simp add: call_ok_def) (simp add: BigBuf_initialize_def)
qed

subsection \<open>Reading and writing the emulator memory\<close>

lemma EM_addr_allocated: "s_emulator_memory s = Some p \<Longrightarrow> BigBuf_get_EM_addr s = (Some p, s)"
  by (simp add: BigBuf_get_EM_addr_def)

lemma emlGet_allocated:
  assumes "s_emulator_memory s = Some p" "unat offset + unat len \<le> 4096"
  shows "emlGet offset len s = ((PM3_SUCCESS, Some (take (unat len) (drop (unat p + unat offset) (BigBuf s)))), s)"
  using assms by (simp add: emlGet_def EM_addr_allocated eml_in_bounds_iff mem_read_def)

lemma emlGet_first: "fst (emlGet offset len s) = fst (emlGet offset len (snd (BigBuf_get_EM_addr s)))"
proof (cases "s_emulator_memory s")
  case None
  obtain r s' where c: "BigBuf_calloc CARD_MEMORY_SIZE s = (r, s')" by fastforce
  then have g: "BigBuf_get_EM_addr s = (r, s'\<lparr>s_emulator_memory := r\<rparr>)" using None by (simp add: BigBuf_get_EM_addr_def)
  show ?thesis
  proof (cases r)
    case n: None
    have "BigBuf_malloc CARD_MEMORY_SIZE s = (None, s)"
      using c n by (auto simp: BigBuf_calloc_def BigBuf_malloc_def Let_def split: if_splits)
    then have "s' = s" using c by (simp add: BigBuf_calloc_def)
    then have "snd (BigBuf_get_EM_addr s) = s" using g n None by simp
    then show ?thesis by simp
  next
    case (Some p)
    then show ?thesis by (simp add: g emlGet_def EM_addr_allocated)
  qed
qed (simp add: EM_addr_allocated)

text \<open>
  The emulator memory behaves as an array of 4096 bytes: \<open>emlSet\<close> either reports that there is no
  room for it, or that the range leaves it, or stores the data, so that \<open>emlGet\<close> reads it back
  and every range apart from it is unchanged; the trace is unchanged in all three cases.
\<close>

lemma emlSet_stores:
  assumes "bb_inv s" "unat offset + unat len < 2 ^ 32" "unat len \<le> length data" "emlSet data offset len s = (r, s')"
  shows "(if s_emulator_memory s' = None then r = PM3_EMALLOC
      else if 4096 < unat offset + unat len then r = PM3_EOUTOFBOUND \<and> s' = snd (BigBuf_get_EM_addr s)
      else r = PM3_SUCCESS \<and> fst (emlGet offset len s') = (PM3_SUCCESS, Some (take (unat len) data)) \<and>
        (\<forall>offset' len'. unat offset' + unat len' \<le> 4096 \<longrightarrow>
          unat offset' + unat len' \<le> unat offset \<or> unat offset + unat len \<le> unat offset' \<longrightarrow>
          fst (emlGet offset' len' s') = fst (emlGet offset' len' s))) \<and>
    take (unat (s_trace_len s)) (BigBuf s') = take (unat (s_trace_len s)) (BigBuf s)"
proof -
  obtain q s1 where g: "BigBuf_get_EM_addr s = (q, s1)" by (cases "BigBuf_get_EM_addr s")
  note e = EM_addr_cases [OF g assms(1)]
  show ?thesis
  proof (rule emlSet_cases [OF assms(4,1-3)])
    fix p assume a: "r = PM3_SUCCESS" "s' = mem_write (unat p + unat offset) (take (unat len) data) (snd (BigBuf_get_EM_addr s))"
      "s_emulator_memory s' = Some p" "unat offset + unat len \<le> 4096"
    have s1: "s_emulator_memory s1 = Some p" using a(2,3) g by simp
    note b = EM_in_block [OF e(1) s1]
    have w: "unat p + unat offset + length (take (unat len) data) \<le> length (BigBuf s1)" using a(4) b assms(3) by simp
    have m: "BigBuf s' = write_at (unat p + unat offset) (take (unat len) data) (BigBuf s1)"
      by (simp add: a(2) g mem_write_def)
    have other: "fst (emlGet offset' len' s') = fst (emlGet offset' len' s)"
      if "unat offset' + unat len' \<le> 4096" "unat offset' + unat len' \<le> unat offset \<or> unat offset + unat len \<le> unat offset'" for offset' len'
    proof -
      have "fst (emlGet offset' len' s) = fst (emlGet offset' len' s1)" using emlGet_first [of offset' len' s] g by simp
      also have "\<dots> = fst (emlGet offset' len' s')"
        using that read_write_at_other [OF w, of "unat p + unat offset'" "unat len'"] assms(3)
        by (simp add: emlGet_allocated [OF s1] emlGet_allocated [OF a(3)] m)
      finally show ?thesis ..
    qed
    have "fst (emlGet offset len s') = (PM3_SUCCESS, Some (take (unat len) data))"
      using read_write_at [OF w, of "unat len"] assms(3) by (simp add: emlGet_allocated [OF a(3,4)] m)
    moreover have "take (unat (s_trace_len s)) (BigBuf s') = take (unat (s_trace_len s)) (BigBuf s)"
      using read_write_at_other [OF w, of 0 "unat (s_trace_len s)"] b e(4,9) by (simp add: m)
    ultimately show ?thesis using a other by simp
  qed (use e g in \<open>auto\<close>)
qed

text \<open>The content of the emulator memory, as the firmware reads it block by block.\<close>

definition em_content :: "bigbuf \<Rightarrow> bytes" where
  "em_content s = (case fst (emlGet 0 4096 s) of (_, Some bs) \<Rightarrow> bs | _ \<Rightarrow> [])"

lemma emlGet_array:
  assumes "bb_inv s" "unat offset + unat len < 2 ^ 32"
  shows "fst (emlGet offset len s) = (if s_emulator_memory (snd (BigBuf_get_EM_addr s)) = None then (PM3_EMALLOC, None)
    else if 4096 < unat offset + unat len then (PM3_EOUTOFBOUND, None)
    else (PM3_SUCCESS, Some (take (unat len) (drop (unat offset) (em_content s)))))"
proof -
  obtain q s1 where g: "BigBuf_get_EM_addr s = (q, s1)" by (cases "BigBuf_get_EM_addr s")
  note e = EM_addr_cases [OF g assms(1)]
  have b: "eml_in_bounds offset len \<longleftrightarrow> unat offset + unat len \<le> 4096"
    using assms(2) by (simp add: eml_in_bounds_iff)
  show ?thesis
  proof (cases q)
    case (Some p)
    have "unat p + 4096 \<le> length (BigBuf s1)" using EM_in_block [OF e(1)] e(2) Some by simp
    moreover have "em_content s = take 4096 (drop (unat p) (BigBuf s1))"
      using g Some by (simp add: em_content_def emlGet_def eml_in_bounds_iff mem_read_def)
    ultimately show ?thesis using g Some e(2) b
      by (auto simp: emlGet_def mem_read_def drop_take add.commute min_def)
  qed (use g e(2) in \<open>simp add: emlGet_def\<close>)
qed

lemma take_write_at:
  assumes "p + n \<le> length B" "i + length xs \<le> n"
  shows "take n (drop p (write_at (p + i) xs B)) = write_at i xs (take n (drop p B))"
proof (rule nth_equalityI)
  fix k assume "k < length (take n (drop p (write_at (p + i) xs B)))"
  then have "k < n" using assms by simp
  then show "take n (drop p (write_at (p + i) xs B)) ! k = write_at i xs (take n (drop p B)) ! k"
    using assms by (auto simp: write_at_nth)
qed (use assms in simp)

lemma em_content_write:
  assumes "bb_inv s" "unat offset + unat len < 2 ^ 32" "unat len \<le> length data" "emlSet data offset len s = (PM3_SUCCESS, s')"
  shows "em_content s' = write_at (unat offset) (take (unat len) data) (em_content s) \<and> bb_inv s' \<and>
    snd (BigBuf_get_EM_addr s') = s'"
proof -
  obtain q s1 where g: "BigBuf_get_EM_addr s = (q, s1)" by (cases "BigBuf_get_EM_addr s")
  note e = EM_addr_cases [OF g assms(1)]
  show ?thesis
  proof (rule emlSet_cases [OF assms(4,1-3)])
    fix p assume a: "s' = mem_write (unat p + unat offset) (take (unat len) data) (snd (BigBuf_get_EM_addr s))"
      "s_emulator_memory s' = Some p" "unat offset + unat len \<le> 4096"
    have s1: "s_emulator_memory s1 = Some p" using a g by simp
    note b = EM_in_block [OF e(1) s1]
    have c: "em_content s = take 4096 (drop (unat p) (BigBuf s1))" "em_content s' = take 4096 (drop (unat p) (BigBuf s'))"
      using g s1 e(2) a(2) by (simp_all add: em_content_def emlGet_def eml_in_bounds_iff mem_read_def EM_addr_allocated)
    have "em_content s' = write_at (unat offset) (take (unat len) data) (em_content s)"
      unfolding c using a(1,3) g b assms(3) take_write_at [of "unat p" 4096 "BigBuf s1" "unat offset" "take (unat len) data"]
      by (simp add: mem_write_def)
    then show ?thesis using bb_inv_emlSet [OF assms(1-3)] assms(4) a(2) by (simp add: EM_addr_allocated)
  qed (simp_all add: PM3_EMALLOC_def PM3_EOUTOFBOUND_def PM3_SUCCESS_def)
qed

text \<open>C26: The emulator memory is an array of 4096 bytes for its users, in every reachable state and for ranges
  whose end is below \<open>2 ^ 32\<close> (the code adds offset and length in 32 bits, and a range that wraps around passes its test).
  Both \<open>emlSet\<close> and \<open>emlGet\<close> report \<open>PM3_EMALLOC\<close> when there is no room to allocate it, \<open>PM3_EOUTOFBOUND\<close> for
  exactly the ranges that leave it, and \<open>PM3_SUCCESS\<close> otherwise. A write that succeeds changes exactly its range,
  one that fails changes nothing, and no write touches the trace.\<close>

theorem emulator_memory:
  assumes "bb_step\<^sup>*\<^sup>* (BigBuf_initialize ram, []) (s, blocks)" "length ram < 2 ^ 32" "unat offset + unat len < 2 ^ 32" "unat len \<le> length data"
    and "unat offset' + unat len' < 2 ^ 32" "emlSet data offset len s = (r, s')"
  shows "r = (if s_emulator_memory s' = None then PM3_EMALLOC else if 4096 < unat offset + unat len then PM3_EOUTOFBOUND else PM3_SUCCESS) \<and>
    fst (emlGet offset' len' s) = (if s_emulator_memory s' = None then (PM3_EMALLOC, None)
      else if 4096 < unat offset' + unat len' then (PM3_EOUTOFBOUND, None)
      else (PM3_SUCCESS, Some (take (unat len') (drop (unat offset') (em_content s))))) \<and>
    em_content s' = (if r = PM3_SUCCESS then take (unat offset) (em_content s) @ take (unat len) data @ drop (unat offset + unat len) (em_content s)
      else em_content s) \<and>
    take (unat (s_trace_len s)) (BigBuf s') = take (unat (s_trace_len s)) (BigBuf s)"
proof -
  have inv: "bb_inv s" using bb_reachable [OF assms(1,2)] by simp
  have same: "em_content (snd (BigBuf_get_EM_addr s)) = em_content s"
    using emlGet_first [of 0 4096 s] by (simp add: em_content_def)
  have em: "s_emulator_memory (snd (BigBuf_get_EM_addr s)) = s_emulator_memory s'"
    by (rule emlSet_cases [OF assms(6) inv assms(3,4)]) simp_all
  have r: "r = (if s_emulator_memory s' = None then PM3_EMALLOC else if 4096 < unat offset + unat len then PM3_EOUTOFBOUND else PM3_SUCCESS)"
    by (rule emlSet_cases [OF assms(6) inv assms(3,4)]) simp_all
  have ne: "PM3_EMALLOC \<noteq> PM3_SUCCESS" "PM3_EOUTOFBOUND \<noteq> PM3_SUCCESS"
    by (simp_all add: PM3_EMALLOC_def PM3_EOUTOFBOUND_def PM3_SUCCESS_def)
  have w: "em_content s' = (if r = PM3_SUCCESS then take (unat offset) (em_content s) @ take (unat len) data @ drop (unat offset + unat len) (em_content s)
      else em_content s)"
  proof (cases "r = PM3_SUCCESS")
    case True
    then have "em_content s' = write_at (unat offset) (take (unat len) data) (em_content s)"
      using em_content_write [OF inv assms(3,4)] assms(6) by simp
    then show ?thesis using True assms(4) by (simp add: write_at_def min_absorb2)
  next
    case False
    have "s' = snd (BigBuf_get_EM_addr s)"
      by (rule emlSet_cases [OF assms(6) inv assms(3,4)]) (use False in simp_all)
    then show ?thesis using False same by simp
  qed
  show ?thesis
    using r w emlGet_array [OF inv assms(5)] emlSet_stores [OF inv assms(3,4,6)] unfolding em by blast
qed

text \<open>The first write to a fresh memory, and what is read there before: zeros.\<close>

lemma emulator_memory_witness:
  "fst (emlSet [1, 2] 16 2 (BigBuf_initialize (replicate 4200 0))) = PM3_SUCCESS \<and>
    fst (emlGet 4095 2 (BigBuf_initialize (replicate 4200 0))) = (PM3_EOUTOFBOUND, None)"
proof -
  let ?s = "BigBuf_initialize (replicate 4200 0)"
  have "s_emulator_memory (snd (emlSet [1, 2] 16 2 ?s)) = Some 104"
    by (simp add: emlSet_def BigBuf_get_EM_addr_def BigBuf_calloc_def BigBuf_malloc_def BigBuf_initialize_def align_chunk_def
        CARD_MEMORY_SIZE_def align_mask eml_in_bounds_def Let_def)
  then show ?thesis
    using emulator_memory [of "replicate 4200 0" ?s "[]" 16 2 "[1, 2]" 4095 2, OF _ _ _ _ _ prod.collapse [symmetric]] by simp
qed

subsection \<open>Stuffing bits\<close>

fun stuff_all :: "bool list \<Rightarrow> bigbuf \<Rightarrow> bigbuf option" where
  "stuff_all [] s = Some s"
| "stuff_all (b # bs) s = Option.bind (tosend_stuffbit b s) (stuff_all bs)"

text \<open>The send buffer at \<open>p\<close> holds the bits \<open>bs\<close>, most significant first, padded with zeros.\<close>

definition tosend_holds :: "u32 \<Rightarrow> bool list \<Rightarrow> bigbuf \<Rightarrow> bool" where
  "tosend_holds p bs s \<longleftrightarrow> ts_buf (s_toSend s) = Some p \<and> length bs \<le> 18457 \<and>
    int (length bs) = 8 * ts_max (s_toSend s) + ts_bit (s_toSend s) \<and> 0 < ts_bit (s_toSend s) \<and>
    (\<forall>i. int i < 8 * (ts_max (s_toSend s) + 1) \<longrightarrow> bit (BigBuf s ! (unat p + i div 8)) (7 - i mod 8) = (i < length bs \<and> bs ! i))"

lemma mem_write_single: "q < length (BigBuf s) \<Longrightarrow> BigBuf (mem_write q [x] s) = (BigBuf s)[q := x]"
  by (simp add: mem_write_def write_at_def upd_conv_take_nth_drop)

lemma stuffbit_holds:
  assumes "bb_inv s" "tosend_holds p bs s"
  shows "\<exists>s'. tosend_stuffbit b s = Some s' \<and> tosend_holds p (if length bs < 18457 then bs @ [b] else bs) s' \<and>
    length (BigBuf s') = length (BigBuf s) \<and>
    (\<forall>i. i < unat p \<or> unat p + 2308 \<le> i \<longrightarrow> i < length (BigBuf s) \<longrightarrow> BigBuf s' ! i = BigBuf s ! i)"
proof -
  let ?ts = "s_toSend s"
  have h: "ts_buf ?ts = Some p" "length bs \<le> 18457" "int (length bs) = 8 * ts_max ?ts + ts_bit ?ts" "0 < ts_bit ?ts"
    "\<And>i. int i < 8 * (ts_max ?ts + 1) \<Longrightarrow> bit (BigBuf s ! (unat p + i div 8)) (7 - i mod 8) = (i < length bs \<and> bs ! i)"
    using assms(2) unfolding tosend_holds_def by blast+
  have t: "-1 \<le> ts_max ?ts" "ts_max ?ts \<le> 2307" "0 \<le> ts_bit ?ts" "ts_bit ?ts \<le> 8" "ts_max ?ts = -1 \<Longrightarrow> ts_bit ?ts = 8"
    using assms(1) by (auto simp: bb_inv_def tosend_inv_def)
  note room = tosend_block [OF assms(1) h(1)]
  have "tosend_stuffbit b s \<noteq> None"
    unfolding tosend_stuffbit_def Let_def h(1) by (simp split: prod.splits)
  then obtain s' where s': "tosend_stuffbit b s = Some s'" by blast
  show ?thesis
  proof (rule stuffbit_cases [OF s' assms(1)])
    assume a: "2307 \<le> ts_max ?ts" "s' = s"
    have "\<not> length bs < 18457" using h(3,4) a(1) by linarith
    then show ?thesis using s' a(2) assms(2) by simp
  next
    fix buf assume a: "ts_max ?ts < 2307" "ts_buf ?ts = Some buf" "ts_bit ?ts = 8"
      "s' = (mem_write (unat buf + nat (ts_max ?ts + 1)) [if b then 0x80 else 0] s)
        \<lparr>s_toSend := ?ts\<lparr>ts_max := ts_max ?ts + 1, ts_bit := 1\<rparr>\<rparr>"
    define q where "q = nat (ts_max ?ts + 1)"
    have q: "int q = ts_max ?ts + 1" "q \<le> 2307" "length bs = 8 * q" using a(1,3) t(1) h(3) by (simp_all add: q_def)
    have m: "BigBuf s' = (BigBuf s)[unat p + q := if b then 0x80 else 0]"
      using a(2,4) h(1) q(2) room by (simp add: mem_write_single flip: q_def)
    have "bit (BigBuf s' ! (unat p + i div 8)) (7 - i mod 8) = (i < length (bs @ [b]) \<and> (bs @ [b]) ! i)" if "i < 8 * (q + 1)" for i
    proof (cases "i < 8 * q")
      case True
      then have "i div 8 \<noteq> q" by auto
      then show ?thesis using True h(5) [of i] q(1,3) by (simp add: m nth_append)
    next
      case False
      note lt = \<open>i < 8 * (q + 1)\<close>
      from False obtain r where "i = 8 * q + r" "r < 8" using lt by (auto simp: not_less le_iff_add)
      then have i: "i div 8 = q" "i < length (bs @ [b]) \<longleftrightarrow> i mod 8 = 0" "i mod 8 = 0 \<Longrightarrow> i = length bs"
        using q(3) by auto
      have "bit (0x80 :: u8) (7 - j) \<longleftrightarrow> j = 0" if "j < 8" for j :: nat
        using that by (elim less_8_cases) simp_all
      then show ?thesis using i room q(2) by (auto simp: m)
    qed
    then have "tosend_holds p (bs @ [b]) s'"
      using q a(2,4) h(1) by (simp add: tosend_holds_def)
    moreover have "length (BigBuf s') = length (BigBuf s)" "\<forall>i. i < unat p \<or> unat p + 2308 \<le> i \<longrightarrow> BigBuf s' ! i = BigBuf s ! i"
      using q(2) by (auto simp: m)
    ultimately show ?thesis using s' q by auto
  next
    fix buf assume a: "ts_max ?ts < 2307" "ts_buf ?ts = Some buf" "ts_bit ?ts < 8"
      "s' = (if b then mem_write (unat buf + nat (ts_max ?ts)) [BigBuf s ! (unat buf + nat (ts_max ?ts)) OR shl 1 (nat (7 - ts_bit ?ts))] s else s)
        \<lparr>s_toSend := ?ts\<lparr>ts_bit := ts_bit ?ts + 1\<rparr>\<rparr>"
    define q where "q = nat (ts_max ?ts)"
    define k where "k = nat (ts_bit ?ts)"
    have q: "int q = ts_max ?ts" "q < 2307" "int k = ts_bit ?ts" "k < 8" "length bs = 8 * q + k"
      using a(1,3) t(1,3,5) h(3) by (auto simp: q_def k_def)
    have k: "nat (7 - ts_bit ?ts) = 7 - k" using q(3,4) by linarith
    have m: "BigBuf s' = (if b then (BigBuf s)[unat p + q := BigBuf s ! (unat p + q) OR shl 1 (7 - k)] else BigBuf s)"
      using a(2,4) h(1) q(2) room unfolding k q_def [symmetric] by (simp add: mem_write_single)
    have "bit (BigBuf s' ! (unat p + i div 8)) (7 - i mod 8) = (i < length (bs @ [b]) \<and> (bs @ [b]) ! i)" if "i < 8 * (q + 1)" for i
    proof (cases "i < 8 * q")
      case True
      then have "i div 8 \<noteq> q" by auto
      then show ?thesis using True h(5) [of i] q(1,5) by (simp add: m nth_append)
    next
      case False
      note lt = \<open>i < 8 * (q + 1)\<close>
      from False obtain r where "i = 8 * q + r" "r < 8" using lt by (auto simp: not_less le_iff_add)
      then have i: "i div 8 = q" "i < length bs \<longleftrightarrow> i mod 8 < k" "i = length bs \<longleftrightarrow> i mod 8 = k" "i < length (bs @ [b]) \<longleftrightarrow> i mod 8 \<le> k"
        using q(5) by auto
      have "bit (shl 1 (7 - k) :: u8) (7 - i mod 8) \<longleftrightarrow> i mod 8 = k"
        using q(4) by (auto simp: bit_exp_iff)
      then show ?thesis using i h(5) [of i] that q(1) room q(2) by (auto simp: m bit_or_iff nth_append)
    qed
    then have "tosend_holds p (bs @ [b]) s'"
      using q a(2,4) h(1) by (simp add: tosend_holds_def)
    moreover have "length (BigBuf s') = length (BigBuf s)" "\<forall>i. i < unat p \<or> unat p + 2308 \<le> i \<longrightarrow> BigBuf s' ! i = BigBuf s ! i"
      using q(2) by (auto simp: m)
    ultimately show ?thesis using s' q by auto
  qed (use h(1) in simp)
qed

lemma stuff_all_holds:
  assumes "bb_inv s" "tosend_holds p bs s"
  shows "\<exists>s'. stuff_all cs s = Some s' \<and> bb_inv s' \<and> tosend_holds p (take 18457 (bs @ cs)) s' \<and> length (BigBuf s') = length (BigBuf s) \<and>
    (\<forall>i. i < unat p \<or> unat p + 2308 \<le> i \<longrightarrow> i < length (BigBuf s) \<longrightarrow> BigBuf s' ! i = BigBuf s ! i)"
  using assms
proof (induction cs arbitrary: s bs)
  case Nil
  then have "length bs \<le> 18457" by (simp add: tosend_holds_def)
  then show ?case using Nil by simp
next
  case (Cons c cs)
  obtain s1 where s1: "tosend_stuffbit c s = Some s1" "tosend_holds p (if length bs < 18457 then bs @ [c] else bs) s1"
    "length (BigBuf s1) = length (BigBuf s)"
    "\<And>i. i < unat p \<or> unat p + 2308 \<le> i \<Longrightarrow> i < length (BigBuf s) \<Longrightarrow> BigBuf s1 ! i = BigBuf s ! i"
    using stuffbit_holds [OF Cons.prems, of c] by blast
  obtain s2 where s2: "stuff_all cs s1 = Some s2" "bb_inv s2" "tosend_holds p (take 18457 ((if length bs < 18457 then bs @ [c] else bs) @ cs)) s2"
    "length (BigBuf s2) = length (BigBuf s1)"
    "\<And>i. i < unat p \<or> unat p + 2308 \<le> i \<Longrightarrow> i < length (BigBuf s1) \<Longrightarrow> BigBuf s2 ! i = BigBuf s1 ! i"
    using Cons.IH [OF _ s1(2)] bb_inv_stuffbit [OF s1(1) Cons.prems(1)] by blast
  have "length bs \<le> 18457" using Cons.prems(2) by (simp add: tosend_holds_def)
  then have "take 18457 ((if length bs < 18457 then bs @ [c] else bs) @ cs) = take 18457 (bs @ c # cs)"
    by (cases "length bs < 18457") (auto simp: take_Cons')
  then show ?case using s1 s2 by auto
qed

text \<open>
  The queue of bits: from \<open>tosend_reset\<close> on, with a buffer allocated, the bits that are stuffed
  stand in the buffer most significant first, padded with zeros, up to the first bit of its last
  byte; every further bit is dropped, and nothing outside of the buffer is written.
\<close>

theorem tosend_queue:
  assumes "bb_step\<^sup>*\<^sup>* (BigBuf_initialize ram, []) (s, blocks)" "length ram < 2 ^ 32" "ts_buf (s_toSend s) = Some p"
  shows "\<exists>s'. stuff_all bs (tosend_reset s) = Some s' \<and>
    (let n = min (length bs) 18457; m = nat (ts_max (s_toSend s') + 1) in
      m = (n + 7) div 8 \<and>
      (\<forall>i<8 * m. bit (BigBuf s' ! (unat p + i div 8)) (7 - i mod 8) = (i < n \<and> bs ! i)) \<and>
      (\<forall>i. i < unat p \<or> unat p + unat TOSEND_BUFFER_SIZE \<le> i \<longrightarrow> i < length ram \<longrightarrow> BigBuf s' ! i = BigBuf s ! i))"
proof -
  have inv: "bb_inv s" "length (BigBuf s) = length ram" using bb_reachable [OF assms(1,2)] by simp_all
  have "tosend_holds p [] (tosend_reset s)" using assms(3) by (simp add: tosend_holds_def tosend_reset_def)
  then obtain s' where s': "stuff_all bs (tosend_reset s) = Some s'" "bb_inv s'" "tosend_holds p (take 18457 bs) s'"
    "\<And>i. i < unat p \<or> unat p + 2308 \<le> i \<Longrightarrow> i < length ram \<Longrightarrow> BigBuf s' ! i = BigBuf s ! i"
    using stuff_all_holds [OF bb_inv_clear(4) [OF inv(1)], of p "[]" bs] inv(2) by auto
  define n where "n = min (length bs) 18457"
  define M where "M = ts_max (s_toSend s')"
  have h: "int n = 8 * M + ts_bit (s_toSend s')" "0 < ts_bit (s_toSend s')" "ts_bit (s_toSend s') \<le> 8" "-1 \<le> M"
    "\<And>i. int i < 8 * (M + 1) \<Longrightarrow> bit (BigBuf s' ! (unat p + i div 8)) (7 - i mod 8) = (i < n \<and> take 18457 bs ! i)"
    using s'(2,3) unfolding tosend_holds_def bb_inv_def tosend_inv_def by (auto simp: n_def M_def)
  have m: "nat (M + 1) = (n + 7) div 8"
  proof -
    define K B where "K = nat (M + 1)" and "B = nat (ts_bit (s_toSend s') - 1)"
    have "n + 7 = 8 * K + B" "B < 8" using h(1-4) by (auto simp: K_def B_def)
    then show ?thesis by (simp flip: K_def)
  qed
  have b: "bit (BigBuf s' ! (unat p + i div 8)) (7 - i mod 8) = (i < n \<and> bs ! i)" if "i < 8 * nat (M + 1)" for i
    using h(4) h(5) [of i] that by (auto simp: n_def)
  show ?thesis
    using s'(1,4) b m by (intro exI [of _ s']) (simp add: Let_def buffer_sizes flip: n_def M_def)
qed

text \<open>Three bits in a buffer allocated at offset 1788.\<close>

lemma tosend_queue_witness:
  "map (\<lambda>i. bit (BigBuf (the (stuff_all [True, False, True] (tosend_reset (get_tosend (BigBuf_initialize (replicate 4096 0)))))) ! 1788) (7 - i))
    [0, 1, 2, 3] = [True, False, True, False]"
proof -
  let ?s = "get_tosend (BigBuf_initialize (replicate 4096 0))"
  have "bb_step\<^sup>*\<^sup>* (BigBuf_initialize (replicate 4096 0), []) (?s, fresh None (ts_buf (s_toSend ?s)) 2308 @ [])"
    using bb_step.get_tosend [OF refl, of "BigBuf_initialize (replicate 4096 0)" "[]"] by (intro r_into_rtranclp) (simp add: BigBuf_initialize_def)
  moreover have p: "ts_buf (s_toSend ?s) = Some 1788"
    by (simp add: get_tosend_def BigBuf_malloc_def BigBuf_initialize_def align_chunk_def TOSEND_BUFFER_SIZE_def MAX_FRAME_SIZE_def align_mask Let_def)
  ultimately obtain s' where e: "stuff_all [True, False, True] (tosend_reset ?s) = Some s'"
    and l: "let n = min (length [True, False, True]) 18457; m = nat (ts_max (s_toSend s') + 1) in
      m = (n + 7) div 8 \<and>
      (\<forall>i<8 * m. bit (BigBuf s' ! (unat (1788 :: u32) + i div 8)) (7 - i mod 8) = (i < n \<and> [True, False, True] ! i)) \<and>
      (\<forall>i. i < unat (1788 :: u32) \<or> unat (1788 :: u32) + unat TOSEND_BUFFER_SIZE \<le> i \<longrightarrow> i < length (replicate 4096 0 :: bytes) \<longrightarrow>
        BigBuf s' ! i = BigBuf ?s ! i)"
    using tosend_queue [of "replicate 4096 0" ?s _ 1788 "[True, False, True]"] by fastforce
  from l have m: "nat (ts_max (s_toSend s') + 1) = 1" by (simp add: Let_def)
  from l have "\<forall>i<8 * nat (ts_max (s_toSend s') + 1). bit (BigBuf s' ! (unat (1788 :: u32) + i div 8)) (7 - i mod 8) =
      (i < min (length [True, False, True]) 18457 \<and> [True, False, True] ! i)"
    unfolding Let_def by blast
  then have "bit (BigBuf s' ! (1788 + i div 8)) (7 - i mod 8) = (i < 3 \<and> [True, False, True] ! i)" if "i < 8" for i
    using that unfolding m by (simp add: numeral_3_eq_3)
  from this [of 0] this [of 1] this [of 2] this [of 3] show ?thesis unfolding e by simp
qed

end
