(* ===== verification/Mifare_Emul.thy ===== *)
theory Mifare_Emul
  imports Big_Buf
begin

text \<open>
  The memory of an emulated MIFARE Classic card: the block and sector numbers in the firmware
  (\<open>armsrc/mifareutil.c\<close>) and in the client (\<open>client/src/mifare/mifare4.c\<close>), the blocks, value
  blocks and keys in the emulator memory, and the access conditions as the emulator decides them
  (\<open>armsrc/mifaresim.c\<close>) and as the client describes them.
\<close>

subsection \<open>Blocks and sectors\<close>

definition MIFARE_2K_MAXBLOCK :: nat where "MIFARE_2K_MAXBLOCK = 128"
definition MIFARE_4K_MAXBLOCK :: nat where "MIFARE_4K_MAXBLOCK = 256"
definition MIFARE_BLOCK_SIZE :: u8 where "MIFARE_BLOCK_SIZE = 16"

definition NumBlocksPerSector :: "u8 \<Rightarrow> u8" where
  "NumBlocksPerSector sectorNo = (if sectorNo < 32 then 4 else 16)"

definition FirstBlockOfSector :: "u8 \<Rightarrow> u8" where
  "FirstBlockOfSector sectorNo = (if sectorNo < 32 then sectorNo * 4 else 32 * 4 + (sectorNo - 32) * 16)"

definition SectorTrailer :: "u8 \<Rightarrow> u8" where
  "SectorTrailer blockNo = (if unat blockNo \<le> MIFARE_2K_MAXBLOCK then blockNo OR 0x03 else blockNo OR 0x0F)"

definition IsSectorTrailer :: "u8 \<Rightarrow> bool" where
  "IsSectorTrailer blockNo \<longleftrightarrow> blockNo = SectorTrailer blockNo"

definition mfNumBlocksPerSector :: "u8 \<Rightarrow> u8" where
  "mfNumBlocksPerSector sectorNo = (if sectorNo < 32 then 4 else 16)"

definition mfFirstBlockOfSector :: "u8 \<Rightarrow> u8" where
  "mfFirstBlockOfSector sectorNo = (if sectorNo < 32 then sectorNo * 4 else 32 * 4 + (sectorNo - 32) * 16)"

definition mfSectorTrailerOfSector :: "u8 \<Rightarrow> u8" where
  "mfSectorTrailerOfSector sectorNo = (if sectorNo < 32 then (sectorNo * 4) OR 0x03 else (32 * 4 + (sectorNo - 32) * 16) OR 0x0f)"

definition mfSectorTrailer :: "u16 \<Rightarrow> u8" where
  "mfSectorTrailer blockNo = (if blockNo < 32 * 4 then ucast (blockNo OR 0x03) else ucast (blockNo OR 0x0F))"

definition mfIsSectorTrailer :: "u16 \<Rightarrow> bool" where
  "mfIsSectorTrailer blockNo \<longleftrightarrow> blockNo = ucast (mfSectorTrailer blockNo)"

definition mfSectorNum :: "u16 \<Rightarrow> u8" where
  "mfSectorNum blockNo = (if blockNo < 32 * 4 then ucast (blockNo div 4) else ucast (32 + (blockNo - 32 * 4) div 16))"

definition mfIsSectorTrailerBasedOnBlocks :: "u8 \<Rightarrow> u16 \<Rightarrow> bool" where
  "mfIsSectorTrailerBasedOnBlocks sectorno blockno \<longleftrightarrow>
    (if sectorno < 32 then blockno OR 0x03 = blockno else blockno OR 0x0F = blockno)"

subsection \<open>Emulator memory by blocks\<close>

text \<open>The arguments are promoted to \<open>int\<close>, so the products do not wrap around.\<close>

definition emlSetMem_xt :: "bytes \<Rightarrow> u16 \<Rightarrow> u8 \<Rightarrow> u8 \<Rightarrow> bigbuf \<Rightarrow> bigbuf" where
  "emlSetMem_xt data blockNum blocksCount block_width s =
    (let offset = ucast blockNum * ucast block_width; len = ucast blocksCount * ucast block_width
     in snd (emlSet data offset len s))"

text \<open>\<open>data\<close> is the content of the caller's buffer, which stays when nothing is read.\<close>

definition emlGetMem_xt :: "bytes \<Rightarrow> u16 \<Rightarrow> u8 \<Rightarrow> u8 \<Rightarrow> bigbuf \<Rightarrow> bytes \<times> bigbuf" where
  "emlGetMem_xt data blockNum blocksCount block_width s =
    (let offset = ucast blockNum * ucast block_width; len = ucast blocksCount * ucast block_width
     in case emlGet offset len s of
          ((_, Some bs), s) \<Rightarrow> (bs @ drop (length bs) data, s)
        | ((_, None), s) \<Rightarrow> (data, s))"

text \<open>These functions use the address without testing it; \<open>None\<close> stands for the null pointer.\<close>

definition emlCheckValBl :: "nat \<Rightarrow> bigbuf \<Rightarrow> (bool \<times> bigbuf) option" where
  "emlCheckValBl blockNum s =
    (case BigBuf_get_EM_addr s of
       (None, s) \<Rightarrow> None
     | (Some mem, s) \<Rightarrow>
         let d = mem_read (unat mem + blockNum * 16) 16 s
         in Some (\<not> ((d ! 0 \<noteq> d ! 4 XOR 0xff) \<or> (d ! 0 \<noteq> d ! 8) \<or>
            (d ! 1 \<noteq> d ! 5 XOR 0xff) \<or> (d ! 1 \<noteq> d ! 9) \<or>
            (d ! 2 \<noteq> d ! 6 XOR 0xff) \<or> (d ! 2 \<noteq> d ! 10) \<or>
            (d ! 3 \<noteq> d ! 7 XOR 0xff) \<or> (d ! 3 \<noteq> d ! 11) \<or>
            (d ! 12 \<noteq> d ! 13 XOR 0xff) \<or> (d ! 12 \<noteq> d ! 14) \<or>
            (d ! 12 \<noteq> d ! 15 XOR 0xff)), s))"

definition emlGetValBl :: "nat \<Rightarrow> bigbuf \<Rightarrow> ((u32 \<times> u8) option \<times> bigbuf) option" where
  "emlGetValBl blockNum s =
    (case emlCheckValBl blockNum s of
       None \<Rightarrow> None
     | Some (False, s) \<Rightarrow> Some (None, s)
     | Some (True, s) \<Rightarrow> case BigBuf_get_EM_addr s of
         (None, s) \<Rightarrow> None
       | (Some mem, s) \<Rightarrow>
           let d = mem_read (unat mem + blockNum * 16) 16 s
           in Some (Some (MemLeToUint4byte d, d ! 12), s))"

definition value_block :: "u32 \<Rightarrow> u8 \<Rightarrow> bytes" where
  "value_block blReg blBlock =
    Uint4byteToMemLe [0, 0, 0, 0] blReg @ Uint4byteToMemLe [0, 0, 0, 0] (blReg XOR 0xFFFFFFFF) @
    Uint4byteToMemLe [0, 0, 0, 0] blReg @ [blBlock, blBlock XOR 0xFF, blBlock, blBlock XOR 0xFF]"

definition emlSetValBl :: "u32 \<Rightarrow> u8 \<Rightarrow> nat \<Rightarrow> bigbuf \<Rightarrow> bigbuf option" where
  "emlSetValBl blReg blBlock blockNum s =
    (case BigBuf_get_EM_addr s of
       (None, s) \<Rightarrow> None
     | (Some mem, s) \<Rightarrow> Some (mem_write (unat mem + blockNum * 16) (value_block blReg blBlock) s))"

definition emlGetKey :: "u8 \<Rightarrow> nat \<Rightarrow> bigbuf \<Rightarrow> (u64 \<times> bigbuf) option" where
  "emlGetKey sectorNum keyType s =
    (case BigBuf_get_EM_addr s of
       (None, s) \<Rightarrow> None
     | (Some mem, s) \<Rightarrow>
         let key = mem_read (unat mem + 16 * (unat (FirstBlockOfSector sectorNum) + unat (NumBlocksPerSector sectorNum) - 1) + keyType * 10) 6 s
         in Some (bytes_to_num key 6, s))"

definition default_trailer :: bytes where
  "default_trailer = [0xff, 0xff, 0xff, 0xff, 0xff, 0xff, 0xff, 0x07, 0x80, 0x69, 0xff, 0xff, 0xff, 0xff, 0xff, 0xff]"

definition default_uid :: bytes where
  "default_uid = [0xe6, 0x84, 0x87, 0xf3, 0x16, 0x88, 0x04, 0x00, 0x46, 0x8e, 0x45, 0x55, 0x4d, 0x70, 0x41, 0x04]"

function clear_trailers :: "nat \<Rightarrow> bigbuf \<Rightarrow> bigbuf" where
  "clear_trailers b s =
    (if b < MIFARE_4K_MAXBLOCK then
       clear_trailers (if b < MIFARE_2K_MAXBLOCK - 4 then b + 4 else b + 16) (emlSetMem_xt default_trailer (word_of_nat b) 1 16 s)
     else s)"
  by pat_completeness auto
termination by (relation "measure (\<lambda>(b, s). MIFARE_4K_MAXBLOCK - b)") (auto simp: MIFARE_4K_MAXBLOCK_def)

declare clear_trailers.simps [simp del]

definition emlClearMem :: "bigbuf \<Rightarrow> bigbuf" where
  "emlClearMem s = emlSetMem_xt default_uid 0 1 16 (clear_trailers 3 (BigBuf_Clear_EM s))"

subsection \<open>Access conditions in the emulator\<close>

definition AC_DATA_READ :: u8 where "AC_DATA_READ = 0"
definition AC_DATA_WRITE :: u8 where "AC_DATA_WRITE = 1"
definition AC_DATA_INC :: u8 where "AC_DATA_INC = 2"
definition AC_DATA_DEC_TRANS_REST :: u8 where "AC_DATA_DEC_TRANS_REST = 3"
definition AC_KEYA_READ :: u8 where "AC_KEYA_READ = 0"
definition AC_KEYA_WRITE :: u8 where "AC_KEYA_WRITE = 1"
definition AC_KEYB_READ :: u8 where "AC_KEYB_READ = 2"
definition AC_KEYB_WRITE :: u8 where "AC_KEYB_WRITE = 3"
definition AC_AC_READ :: u8 where "AC_AC_READ = 4"
definition AC_AC_WRITE :: u8 where "AC_AC_WRITE = 5"
definition AUTHKEYA :: u8 where "AUTHKEYA = 0"
definition AUTHKEYB :: u8 where "AUTHKEYB = 1"

definition zero_block :: bytes where "zero_block = replicate 16 0"

definition trailer_AC :: "bytes \<Rightarrow> u8" where
  "trailer_AC sector_trailer =
    (shr (sector_trailer ! 7) 5 AND 0x04) OR (shr (sector_trailer ! 8) 2 AND 0x02) OR (shr (sector_trailer ! 8) 7 AND 0x01)"

definition IsKeyBReadable :: "u8 \<Rightarrow> bigbuf \<Rightarrow> bool \<times> bigbuf" where
  "IsKeyBReadable blockNo s =
    (case emlGetMem_xt zero_block (ucast (SectorTrailer blockNo)) 1 MIFARE_BLOCK_SIZE s of
       (sector_trailer, s) \<Rightarrow> let AC = trailer_AC sector_trailer in (AC = 0x00 \<or> AC = 0x01 \<or> AC = 0x02, s))"

definition IsTrailerAccessAllowed :: "u8 \<Rightarrow> u8 \<Rightarrow> u8 \<Rightarrow> bigbuf \<Rightarrow> bool \<times> bigbuf" where
  "IsTrailerAccessAllowed blockNo keytype action s =
    (case emlGetMem_xt zero_block (ucast blockNo) 1 MIFARE_BLOCK_SIZE s of
       (sector_trailer, s) \<Rightarrow>
         let AC = trailer_AC sector_trailer
         in (if action = AC_KEYA_READ then False
             else if action = AC_KEYA_WRITE then
               (keytype = AUTHKEYA \<and> (AC = 0x00 \<or> AC = 0x01)) \<or> (keytype = AUTHKEYB \<and> (AC = 0x04 \<or> AC = 0x03))
             else if action = AC_KEYB_READ then keytype = AUTHKEYA \<and> (AC = 0x00 \<or> AC = 0x02 \<or> AC = 0x01)
             else if action = AC_KEYB_WRITE then
               (keytype = AUTHKEYA \<and> (AC = 0x00 \<or> AC = 0x01)) \<or> (keytype = AUTHKEYB \<and> (AC = 0x04 \<or> AC = 0x03))
             else if action = AC_AC_READ then
               keytype = AUTHKEYA \<or> (keytype = AUTHKEYB \<and> \<not> (AC = 0x00 \<or> AC = 0x02 \<or> AC = 0x01))
             else if action = AC_AC_WRITE then
               (keytype = AUTHKEYA \<and> AC = 0x01) \<or> (keytype = AUTHKEYB \<and> (AC = 0x03 \<or> AC = 0x05))
             else False, s))"

definition sector_block :: "u8 \<Rightarrow> u8" where
  "sector_block blockNo = (if unat blockNo \<le> MIFARE_2K_MAXBLOCK then blockNo AND 0x03 else (blockNo AND 0x0f) div 5)"

text \<open>\<open>None\<close> is the \<open>default\<close> branch of the switch.\<close>

definition data_AC :: "u8 \<Rightarrow> bytes \<Rightarrow> u8 option" where
  "data_AC sb sector_trailer =
    (if sb = 0x00 then Some ((shr (sector_trailer ! 7) 2 AND 0x04) OR (shl (sector_trailer ! 8) 1 AND 0x02) OR (shr (sector_trailer ! 8) 4 AND 0x01))
     else if sb = 0x01 then Some ((shr (sector_trailer ! 7) 3 AND 0x04) OR (shr (sector_trailer ! 8) 0 AND 0x02) OR (shr (sector_trailer ! 8) 5 AND 0x01))
     else if sb = 0x02 then Some ((shr (sector_trailer ! 7) 4 AND 0x04) OR (shr (sector_trailer ! 8) 1 AND 0x02) OR (shr (sector_trailer ! 8) 6 AND 0x01))
     else None)"

definition IsDataAccessAllowed :: "u8 \<Rightarrow> u8 \<Rightarrow> u8 \<Rightarrow> bigbuf \<Rightarrow> bool \<times> bigbuf" where
  "IsDataAccessAllowed blockNo keytype action s =
    (case emlGetMem_xt zero_block (ucast (SectorTrailer blockNo)) 1 MIFARE_BLOCK_SIZE s of
       (sector_trailer, s) \<Rightarrow>
         (case data_AC (sector_block blockNo) sector_trailer of
            None \<Rightarrow> False
          | Some AC \<Rightarrow>
              if action = AC_DATA_READ then
                (keytype = AUTHKEYA \<and> \<not> (AC = 0x03 \<or> AC = 0x05 \<or> AC = 0x07)) \<or> (keytype = AUTHKEYB \<and> \<not> AC = 0x07)
              else if action = AC_DATA_WRITE then
                (keytype = AUTHKEYA \<and> AC = 0x00) \<or> (keytype = AUTHKEYB \<and> (AC = 0x00 \<or> AC = 0x04 \<or> AC = 0x06 \<or> AC = 0x03))
              else if action = AC_DATA_INC then
                (keytype = AUTHKEYA \<and> AC = 0x00) \<or> (keytype = AUTHKEYB \<and> (AC = 0x00 \<or> AC = 0x06))
              else if action = AC_DATA_DEC_TRANS_REST then
                (keytype = AUTHKEYA \<and> (AC = 0x00 \<or> AC = 0x06 \<or> AC = 0x01)) \<or> (keytype = AUTHKEYB \<and> (AC = 0x00 \<or> AC = 0x06 \<or> AC = 0x01))
              else False, s))"

definition IsAccessAllowed :: "u8 \<Rightarrow> u8 \<Rightarrow> u8 \<Rightarrow> bigbuf \<Rightarrow> bool \<times> bigbuf" where
  "IsAccessAllowed blockNo keytype action s =
    (if IsSectorTrailer blockNo then IsTrailerAccessAllowed blockNo keytype action s
     else IsDataAccessAllowed blockNo keytype action s)"

subsection \<open>Access conditions in the client\<close>

definition NIBBLE_HIGH :: "u8 \<Rightarrow> u8" where "NIBBLE_HIGH b = shr (b AND 0xF0) 4"
definition NIBBLE_LOW :: "u8 \<Rightarrow> u8" where "NIBBLE_LOW b = b AND 0x0F"

definition mfValidateAccessConditions :: "bytes \<Rightarrow> bool" where
  "mfValidateAccessConditions data =
    (let nd1 = NIBBLE_LOW (data ! 0); nd2 = NIBBLE_HIGH (data ! 0); nd3 = NIBBLE_LOW (data ! 1);
         d1 = NIBBLE_HIGH (data ! 1); d2 = NIBBLE_LOW (data ! 2); d3 = NIBBLE_HIGH (data ! 2)
     in nd1 = (d1 XOR 0xF) \<and> nd2 = (d2 XOR 0xF) \<and> nd3 = (d3 XOR 0xF))"

definition mf_get_accesscondition :: "nat \<Rightarrow> bytes \<Rightarrow> u8" where
  "mf_get_accesscondition blockn data =
    (let d1 = shr (NIBBLE_HIGH (data ! 1)) blockn; d2 = shr (NIBBLE_LOW (data ! 2)) blockn; d3 = shr (NIBBLE_HIGH (data ! 2)) blockn
     in shl (d1 AND 0x01) 2 OR shl (d2 AND 0x01) 1 OR (d3 AND 0x01))"

definition mfReadOnlyAccessConditions :: "nat \<Rightarrow> bytes \<Rightarrow> bool" where
  "mfReadOnlyAccessConditions blockn data =
    (let cond = mf_get_accesscondition blockn data
     in if blockn = 3 then cond = 0x02 \<or> cond = 0x06 \<or> cond = 0x07 else cond = 0x02 \<or> cond = 0x05)"

text \<open>The word for \<open>none\<close> in the table is one Chinese character, three bytes of UTF-8.\<close>

definition none_description :: string where "none_description = [CHR 0xE6, CHR 0x97, CHR 0xA0]"

definition MFAccessConditions :: "(u8 \<times> string) list" where
  "MFAccessConditions =
    [(0x00, ''read AB; write AB; increment AB; decrement transfer restore AB''),
     (0x01, ''read AB; decrement transfer restore AB''),
     (0x02, ''read AB''),
     (0x03, ''read B; write B''),
     (0x04, ''read AB; write B''),
     (0x05, ''read B''),
     (0x06, ''read AB; write B; increment B; decrement transfer restore AB''),
     (0x07, none_description)]"

definition MFAccessConditionsTrailer :: "(u8 \<times> string) list" where
  "MFAccessConditionsTrailer =
    [(0x00, ''read A by A; read ACCESS by A; read/write B by A''),
     (0x01, ''write A by A; read/write ACCESS by A; read/write B by A''),
     (0x02, ''read ACCESS by A; read B by A''),
     (0x03, ''write A by B; read ACCESS by AB; write ACCESS by B; write B by B''),
     (0x04, ''write A by B; read ACCESS by AB; write B by B''),
     (0x05, ''read ACCESS by AB; write ACCESS by B''),
     (0x06, ''read ACCESS by AB''),
     (0x07, ''read ACCESS by AB'')]"

definition mfGetAccessConditionsDesc :: "nat \<Rightarrow> bytes \<Rightarrow> string" where
  "mfGetAccessConditionsDesc blockn data =
    (let cond = mf_get_accesscondition blockn data
     in case map_of (if blockn = 3 then MFAccessConditionsTrailer else MFAccessConditions) cond of
          Some description \<Rightarrow> description | None \<Rightarrow> none_description)"

end
