(* ===== verification/Mifare_Emul_Laws.thy ===== *)
theory Mifare_Emul_Laws
  imports Mifare_Emul Big_Buf_Claims
begin

text \<open>
  The emulated card: the numbering of blocks and sectors, the emulator memory as a store of
  blocks, an interface that the working memory provides.
\<close>

subsection \<open>Sectors\<close>

lemma nat_or_mask: "n OR mask k = n div 2 ^ k * 2 ^ k + (2 ^ k - 1 :: nat)"
proof -
  have "n OR mask k = push_bit k (drop_bit k n) OR mask k"
    by (rule bit_eqI) (auto simp: bit_or_iff bit_mask_iff bit_push_bit_iff bit_drop_bit_eq)
  also have "\<dots> = push_bit k (drop_bit k n) + mask k"
    by (rule disjunctive_add [symmetric]) (auto simp: bit_mask_iff bit_push_bit_iff)
  finally show ?thesis by (simp add: push_bit_eq_mult drop_bit_eq_div mask_eq_exp_minus_1)
qed

lemma unat_or_masks:
  "unat (w OR 0x03) = unat w div 4 * 4 + 3" "unat (w OR 0x0F) = unat w div 16 * 16 + 15"
  "unat (v OR 0x03) = unat v div 4 * 4 + 3" "unat (v OR 0x0F) = unat v div 16 * 16 + 15" for w :: u8 and v :: u16
proof -
  have "(3 :: nat) = mask 2" "(15 :: nat) = mask 4" by (simp_all add: mask_eq_exp_minus_1)
  then have "n OR 3 = n div 4 * 4 + 3" "n OR 15 = n div 16 * 16 + 15" for n :: nat
    using nat_or_mask [of n 2] nat_or_mask [of n 4] by simp_all
  then show "unat (w OR 0x03) = unat w div 4 * 4 + 3" "unat (w OR 0x0F) = unat w div 16 * 16 + 15"
    "unat (v OR 0x03) = unat v div 4 * 4 + 3" "unat (v OR 0x0F) = unat v div 16 * 16 + 15"
    by (simp_all add: unsigned_or_eq)
qed

text \<open>The numbers of a block's sector, in the two halves of the card.\<close>

lemma small_sector:
  assumes "unat (b :: u8) < 128"
  shows "unat (mfSectorNum (ucast b)) = unat b div 4" "unat (mfSectorTrailer (ucast b)) = unat b div 4 * 4 + 3"
    "unat (SectorTrailer b) = unat b div 4 * 4 + 3"
  using assms by (simp_all add: mfSectorNum_def mfSectorTrailer_def SectorTrailer_def MIFARE_2K_MAXBLOCK_def word_less_nat_alt
    unat_ucast_up unsigned_ucast_eq take_bit_eq_mod unat_div unat_or_masks)

lemma large_sector:
  assumes "128 \<le> unat (b :: u8)"
  shows "unat (mfSectorNum (ucast b)) = 32 + (unat b - 128) div 16" "unat (mfSectorTrailer (ucast b)) = unat b div 16 * 16 + 15"
    "unat (SectorTrailer b) = (if unat b = 128 then 131 else unat b div 16 * 16 + 15)"
proof -
  have u: "unat (ucast b :: u16) = unat b" "unat b < 256" using unsigned_less [of b, where 'a = nat] by (simp_all add: unat_ucast_up)
  have s: "unat (ucast b - 128 :: u16) = unat b - 128" using assms u by (subst unat_sub) (simp_all add: word_le_nat_alt)
  have d: "(unat b - 128) div 16 \<le> 7" using u by simp
  have c: "\<not> ucast b < (32 * 4 :: u16)" using assms u by (simp add: word_less_nat_alt)
  have "unat ((ucast b - 128) div 16 :: u16) = (unat b - 128) div 16" by (simp add: unat_div s)
  then have "unat (32 + (ucast b - 128) div 16 :: u16) = 32 + (unat b - 128) div 16"
    using d by (simp add: unat_word_ariths)
  then show "unat (mfSectorNum (ucast b)) = 32 + (unat b - 128) div 16"
    using c d by (simp add: mfSectorNum_def unsigned_ucast_eq take_bit_eq_mod)
  have "unat b div 16 * 16 + 15 < 256" using u(2) by presburger
  then show "unat (mfSectorTrailer (ucast b)) = unat b div 16 * 16 + 15"
    using c by (simp add: mfSectorTrailer_def unsigned_ucast_eq take_bit_eq_mod unat_or_masks u(1))
  show "unat (SectorTrailer b) = (if unat b = 128 then 131 else unat b div 16 * 16 + 15)"
    using assms by (simp add: SectorTrailer_def MIFARE_2K_MAXBLOCK_def unat_or_masks)
qed

lemma sector_start:
  "unat n < 32 \<Longrightarrow> unat (FirstBlockOfSector n) = unat n * 4 \<and> unat (NumBlocksPerSector n) = 4 \<and>
    unat (mfSectorTrailerOfSector n) = unat n * 4 + 3"
  "32 \<le> unat n \<Longrightarrow> unat n < 40 \<Longrightarrow> unat (FirstBlockOfSector n) = 128 + (unat n - 32) * 16 \<and> unat (NumBlocksPerSector n) = 16 \<and>
    unat (mfSectorTrailerOfSector n) = 128 + (unat n - 32) * 16 + 15"
proof -
  show "unat (FirstBlockOfSector n) = unat n * 4 \<and> unat (NumBlocksPerSector n) = 4 \<and> unat (mfSectorTrailerOfSector n) = unat n * 4 + 3"
    if "unat n < 32"
    using that by (simp add: FirstBlockOfSector_def NumBlocksPerSector_def mfSectorTrailerOfSector_def word_less_nat_alt unat_or_masks
      unat_word_ariths)
  assume n: "32 \<le> unat n" "unat n < 40"
  define m where "m = n - 32"
  have m: "unat m = unat n - 32" unfolding m_def using n(1) by (subst unat_sub) (simp_all add: word_le_nat_alt)
  then have f: "unat (32 * 4 + m * 16) = 128 + (unat n - 32) * 16" using n by (simp add: unat_word_ariths)
  have t: "unat ((32 * 4 + m * 16) OR 0x0F) = 128 + (unat n - 32) * 16 + 15"
    unfolding unat_or_masks f by simp
  have c: "\<not> n < 32" using n(1) by (simp add: word_less_nat_alt)
  show "unat (FirstBlockOfSector n) = 128 + (unat n - 32) * 16 \<and> unat (NumBlocksPerSector n) = 16 \<and>
    unat (mfSectorTrailerOfSector n) = 128 + (unat n - 32) * 16 + 15"
    unfolding FirstBlockOfSector_def NumBlocksPerSector_def mfSectorTrailerOfSector_def if_not_P [OF c] m_def [symmetric] t f by simp
qed

text \<open>C27: 
  The sectors partition the 256 blocks, their last blocks are the trailers, and firmware and
  client agree on all of this, except that the firmware takes block 128, the first one of a
  sector of sixteen, for a block of a sector of four.
\<close>

theorem sector_geometry:
  fixes b :: u8
  defines "n \<equiv> mfSectorNum (ucast b)"
  shows "n < 40 \<and> FirstBlockOfSector n \<le> b \<and> unat b < unat (FirstBlockOfSector n) + unat (NumBlocksPerSector n) \<and>
    FirstBlockOfSector n = mfFirstBlockOfSector n \<and> NumBlocksPerSector n = mfNumBlocksPerSector n \<and>
    mfSectorTrailer (ucast b) = mfSectorTrailerOfSector n \<and>
    unat (mfSectorTrailerOfSector n) + 1 = unat (FirstBlockOfSector n) + unat (NumBlocksPerSector n) \<and>
    mfIsSectorTrailer (ucast b) = mfIsSectorTrailerBasedOnBlocks n (ucast b) \<and>
    SectorTrailer b = (if b = 128 then 131 else mfSectorTrailer (ucast b)) \<and>
    IsSectorTrailer b = mfIsSectorTrailer (ucast b)"
proof -
  have x: "unat b < 256" "unat (ucast b :: u16) = unat b" using unsigned_less [of b, where 'a = nat] by (simp_all add: unat_ucast_up)
  have "?thesis \<longleftrightarrow> unat n < 40 \<and> unat (FirstBlockOfSector n) \<le> unat b \<and> unat b < unat (FirstBlockOfSector n) + unat (NumBlocksPerSector n) \<and>
      unat (mfSectorTrailer (ucast b)) = unat (mfSectorTrailerOfSector n) \<and>
      unat (mfSectorTrailerOfSector n) + 1 = unat (FirstBlockOfSector n) + unat (NumBlocksPerSector n) \<and>
      (unat b = unat (mfSectorTrailer (ucast b))) = (if unat n < 32 then unat b div 4 * 4 + 3 = unat b else unat b div 16 * 16 + 15 = unat b) \<and>
      unat (SectorTrailer b) = (if unat b = 128 then 131 else unat (mfSectorTrailer (ucast b))) \<and>
      (unat b = unat (SectorTrailer b)) = (unat b = unat (mfSectorTrailer (ucast b)))"
    by (simp add: word_less_nat_alt word_le_nat_alt word_unat_eq_iff FirstBlockOfSector_def mfFirstBlockOfSector_def NumBlocksPerSector_def
      mfNumBlocksPerSector_def mfIsSectorTrailer_def mfIsSectorTrailerBasedOnBlocks_def IsSectorTrailer_def unat_or_masks unat_ucast_up x(2))
  moreover have "\<dots>"
  proof (cases "unat b < 128")
    case True
    note s = small_sector [OF True]
    have n: "unat n = unat b div 4" "unat n < 32" using s(1) True by (auto simp: n_def)
    have f: "unat (FirstBlockOfSector n) = unat b div 4 * 4" "unat (NumBlocksPerSector n) = 4"
      "unat (mfSectorTrailerOfSector n) = unat b div 4 * 4 + 3"
      using sector_start(1) [OF n(2)] n(1) by simp_all
    have "unat b div 4 * 4 \<le> unat b" "unat b < unat b div 4 * 4 + 4"
      using div_mult_mod_eq [of "unat b" 4] mod_less_divisor [of 4 "unat b"] by linarith+
    then show ?thesis using n f s True by auto
  next
    case False
    then have s: "unat (mfSectorNum (ucast b)) = 32 + (unat b - 128) div 16" "unat (mfSectorTrailer (ucast b)) = unat b div 16 * 16 + 15"
      "unat (SectorTrailer b) = (if unat b = 128 then 131 else unat b div 16 * 16 + 15)"
      using large_sector [of b] by simp_all
    define y where "y = unat b - 128"
    have y: "unat b = y + 8 * 16" using False by (simp add: y_def)
    have "y div 16 < 8" using y x(1) by (simp add: less_mult_imp_div_less)
    then have n: "unat n = 32 + (unat b - 128) div 16" "32 \<le> unat n" "unat n < 40" using s(1) y by (simp_all add: n_def)
    have "unat b div 16 = y div 16 + 8" unfolding y by (simp only: div_mult_self1)
    then have d: "(unat b - 128) div 16 * 16 = unat b div 16 * 16 - 128" using y by simp
    have f: "unat (FirstBlockOfSector n) = unat b div 16 * 16" "unat (NumBlocksPerSector n) = 16"
      "unat (mfSectorTrailerOfSector n) = unat b div 16 * 16 + 15"
      using sector_start(2) [OF n(2,3)] n(1) d False by simp_all
    have "unat b div 16 * 16 \<le> unat b" "unat b < unat b div 16 * 16 + 16"
      using div_mult_mod_eq [of "unat b" 16] mod_less_divisor [of 16 "unat b"] by linarith+
    then show ?thesis using n f s False by auto
  qed
  ultimately show ?thesis by blast
qed

subsection \<open>A store of bytes\<close>

text \<open>The interface between the emulation of a card and the memory that holds its content.\<close>

locale byte_store =
  fixes ok :: "'s \<Rightarrow> bool" and put :: "nat \<Rightarrow> bytes \<Rightarrow> 's \<Rightarrow> 's" and get :: "nat \<Rightarrow> nat \<Rightarrow> 's \<Rightarrow> bytes" and size :: nat
  assumes put_ok: "ok s \<Longrightarrow> i + length bs \<le> size \<Longrightarrow> ok (put i bs s)"
    and get_put: "ok s \<Longrightarrow> i + length bs \<le> size \<Longrightarrow> get i (length bs) (put i bs s) = bs"
    and get_put_other: "ok s \<Longrightarrow> i + length bs \<le> size \<Longrightarrow> j + n \<le> size \<Longrightarrow> j + n \<le> i \<or> i + length bs \<le> j \<Longrightarrow>
      get j n (put i bs s) = get j n s"
    and get_part: "ok s \<Longrightarrow> i + n \<le> size \<Longrightarrow> j + m \<le> n \<Longrightarrow> take m (drop j (get i n s)) = get (i + j) m s"
begin

definition put_block :: "nat \<Rightarrow> bytes \<Rightarrow> 's \<Rightarrow> 's" where
  "put_block b d = put (16 * b) d"

definition block :: "nat \<Rightarrow> 's \<Rightarrow> bytes" where
  "block b = get (16 * b) 16"

lemma block_put:
  assumes "ok s" "length d = 16" "16 * b + 16 \<le> size" "16 * c + 16 \<le> size"
  shows "ok (put_block b d s)" "block c (put_block b d s) = (if c = b then d else block c s)"
proof -
  show "ok (put_block b d s)" using put_ok [OF assms(1), of "16 * b" d] assms(2,3) by (simp add: put_block_def)
  show "block c (put_block b d s) = (if c = b then d else block c s)"
  proof (cases "c = b")
    case True
    then show ?thesis using get_put [OF assms(1), of "16 * b" d] assms(2,3) by (simp add: put_block_def block_def)
  next
    case False
    then have "16 * c + 16 \<le> 16 * b \<or> 16 * b + 16 \<le> 16 * c" by linarith
    then show ?thesis
      using get_put_other [OF assms(1), of "16 * b" d "16 * c" 16] assms(2-4) False by (simp add: put_block_def block_def)
  qed
qed

text \<open>The same block written to a list of places.\<close>

lemma block_put_list:
  assumes "ok s" "length d = 16" "\<forall>b\<in>set bs. 16 * b + 16 \<le> size"
  shows "ok (fold (\<lambda>b. put_block b d) bs s) \<and>
    (\<forall>c. 16 * c + 16 \<le> size \<longrightarrow> block c (fold (\<lambda>b. put_block b d) bs s) = (if c \<in> set bs then d else block c s))"
  using assms
proof (induction bs arbitrary: s)
  case (Cons b bs)
  then have b: "16 * b + 16 \<le> size" by simp
  have 1: "ok (put_block b d s)" using block_put(1) [OF Cons.prems(1,2) b b] .
  have 2: "block c (put_block b d s) = (if c = b then d else block c s)" if "16 * c + 16 \<le> size" for c
    using block_put(2) [OF Cons.prems(1,2) b that] .
  show ?case using Cons.IH [OF 1 Cons.prems(2)] Cons.prems(3) 2 by auto
qed simp

lemma part_of_block:
  assumes "ok s" "16 * b + 16 \<le> size" "j + m \<le> 16"
  shows "get (16 * b + j) m s = take m (drop j (block b s))"
  using get_part [OF assms(1,2,3)] by (simp add: block_def)

end

subsection \<open>The emulator memory provides it\<close>

definition em_ok :: "bigbuf \<Rightarrow> bool" where
  "em_ok s \<longleftrightarrow> bb_inv s \<and> s_emulator_memory s \<noteq> None"

definition em_put :: "nat \<Rightarrow> bytes \<Rightarrow> bigbuf \<Rightarrow> bigbuf" where
  "em_put i bs s = mem_write (unat (the (s_emulator_memory s)) + i) bs s"

definition em_get :: "nat \<Rightarrow> nat \<Rightarrow> bigbuf \<Rightarrow> bytes" where
  "em_get i n s = mem_read (unat (the (s_emulator_memory s)) + i) n s"

lemma em_room: "em_ok s \<Longrightarrow> i \<le> 4096 \<Longrightarrow> unat (the (s_emulator_memory s)) + i \<le> length (BigBuf s)"
  using EM_in_block by (fastforce simp: em_ok_def)

interpretation em: byte_store em_ok em_put em_get 4096
proof
  fix s i and bs :: bytes assume a: "em_ok s" "i + length bs \<le> 4096"
  note r = em_room [OF a, unfolded add.assoc [symmetric]]
  show "em_ok (em_put i bs s)"
    using a(1) r by (simp add: em_ok_def em_put_def bb_inv_mem)
  show "em_get i (length bs) (em_put i bs s) = bs"
    using read_write_at [OF r] by (simp add: em_get_def em_put_def mem_read_def) (simp add: mem_write_def)
next
  fix s i and bs :: bytes and j n assume a: "em_ok s" "i + length bs \<le> 4096" "j + n \<le> 4096" "j + n \<le> i \<or> i + length bs \<le> j"
  note r = em_room [OF a(1,2), unfolded add.assoc [symmetric]]
  show "em_get j n (em_put i bs s) = em_get j n s"
    using read_write_at_other [OF r, of "unat (the (s_emulator_memory s)) + j" n] a(4)
    by (simp add: em_get_def em_put_def mem_read_def) (simp add: mem_write_def)
next
  fix s i n j m assume "j + m \<le> (n :: nat)"
  then show "take m (drop j (em_get i n s)) = em_get (i + j) m s"
    by (simp add: em_get_def mem_read_def drop_take min_def ac_simps)
qed

lemma em_addr: "em_ok s \<Longrightarrow> BigBuf_get_EM_addr s = (Some (the (s_emulator_memory s)), s)"
  by (auto simp: em_ok_def EM_addr_allocated)

lemma emlSetMem_block:
  assumes "em_ok s" "b < 256" "length d = 16"
  shows "emlSetMem_xt d (word_of_nat b) 1 16 s = em.put_block b d s"
proof -
  have u: "unat (ucast (word_of_nat b :: u16) * 16 :: u32) = b * 16"
    using assms(2) by (simp add: unat_word_ariths unat_ucast_up unat_of_nat)
  obtain p where p: "s_emulator_memory s = Some p" using assms(1) by (auto simp: em_ok_def)
  obtain r s' where e: "emlSet d (ucast (word_of_nat b :: u16) * 16) 16 s = (r, s')" by fastforce
  have "s' = mem_write (unat p + b * 16) d s"
  proof (rule emlSet_cases [OF e])
    show "bb_inv s" using assms(1) by (simp add: em_ok_def)
  qed (use assms u p EM_addr_allocated [OF p] in \<open>auto simp: mult.commute\<close>)
  then show ?thesis
    by (simp add: emlSetMem_xt_def Let_def e em.put_block_def em_put_def p mult.commute)
qed

lemma emlGetMem_block:
  assumes "em_ok s" "length data = 16"
  shows "emlGetMem_xt data (ucast (b :: u8)) 1 16 s = (em.block (unat b) s, s)"
proof -
  have u: "unat (ucast (ucast b :: u16) * 16 :: u32) = unat b * 16"
    using unsigned_less [of b, where 'a = nat] by (simp add: unat_word_ariths unat_ucast_up)
  obtain p where p: "s_emulator_memory s = Some p" using assms(1) by (auto simp: em_ok_def)
  have b: "unat b * 16 + 16 \<le> 4096" using unsigned_less [of b, where 'a = nat] by simp
  have "emlGet (ucast (ucast b :: u16) * 16) 16 s = ((PM3_SUCCESS, Some (em.block (unat b) s)), s)"
    using b by (subst emlGet_allocated [OF p]) (simp_all add: u em.block_def em_get_def mem_read_def p mult.commute)
  moreover have "length (em.block (unat b) s) = 16"
    using em_room [OF assms(1) b] by (simp add: em.block_def em_get_def mem_read_def mult.commute add.assoc)
  ultimately show ?thesis using assms(2) by (simp add: emlGetMem_xt_def)
qed

lemma length_block: "em_ok s \<Longrightarrow> b < 256 \<Longrightarrow> length (em.block b s) = 16"
  using em_room [of s "b * 16 + 16"] by (simp add: em.block_def em_get_def mem_read_def mult.commute add.assoc)

end
