(* ===== verification/Mifare_Emul_Claims.thy ===== *)
theory Mifare_Emul_Claims
  imports Mifare_Emul_Laws Common_Util_Laws
begin

text \<open>
  The emulated card through the interface of its memory: value blocks, the state after
  \<open>emlClearMem\<close>, and the agreement of the emulator's access decisions with the client's table.
\<close>

subsection \<open>Value blocks\<close>

lemma length_value_block: "length (value_block v a) = 16"
  by (simp add: value_block_def Uint4byteToMemLe_def)

lemma mem_value: "MemLeToUint4byte (Uint4byteToMemLe [0, 0, 0, 0] v @ xs) = v"
proof -
  have "MemLeToUint4byte (Uint4byteToMemLe [0, 0, 0, 0] v @ xs) = MemLeToUint4byte (Uint4byteToMemLe [0, 0, 0, 0] v)"
    by (simp add: MemLeToUint4byte_def Uint4byteToMemLe_def nth_append)
  also have "\<dots> = v" by (simp add: mem_codec take_bit_word_eq_self)
  finally show ?thesis .
qed

lemma mem_value_inverse: "xs = [a, b, c, d] \<Longrightarrow> Uint4byteToMemLe [0, 0, 0, 0] (MemLeToUint4byte (xs @ ys)) = xs"
proof -
  assume xs: "xs = [a, b, c, d]"
  have "MemLeToUint4byte (xs @ ys) = MemLeToUint4byte xs"
    by (simp add: MemLeToUint4byte_def xs)
  moreover have "Uint4byteToMemLe [0, 0, 0, 0] (MemLeToUint4byte xs) = xs" by (simp add: mem_codec xs)
  ultimately show ?thesis by simp
qed

lemma mem_value_not: "Uint4byteToMemLe [0, 0, 0, 0] (v XOR 0xFFFFFFFF) = map (\<lambda>b. b XOR 0xFF) (Uint4byteToMemLe [0, 0, 0, 0] v)"
proof -
  have ff: "(0xFF :: u8) = - 1" "(0xFFFFFFFF :: u32) = - 1" by simp_all
  have b: "bit (0xFF :: u32) n \<longleftrightarrow> n < 8" for n
    using bit_mask_iff [of 8 n, where 'a = u32] by (auto simp: mask_eq_exp_minus_1)
  have "ucast (shr (NOT v) k AND 0xff) = (NOT (ucast (shr v k AND 0xff)) :: u8)" if "k \<le> 24" for k
    by (rule bit_word_eqI) (use that b in \<open>auto simp: word_bits bit_ucast_iff bit_not_iff\<close>)
  note x = this
  show ?thesis using x [of 0] x [of 8] x [of 16] x [of 24] unfolding ff bit.xor_one_right Uint4byteToMemLe_def by simp
qed

text \<open>The test of \<open>emlCheckValBl\<close> accepts exactly the blocks that \<open>emlSetValBl\<close> writes.\<close>

definition value_test :: "bytes \<Rightarrow> bool" where
  "value_test d \<longleftrightarrow> \<not> ((d ! 0 \<noteq> d ! 4 XOR 0xff) \<or> (d ! 0 \<noteq> d ! 8) \<or>
    (d ! 1 \<noteq> d ! 5 XOR 0xff) \<or> (d ! 1 \<noteq> d ! 9) \<or>
    (d ! 2 \<noteq> d ! 6 XOR 0xff) \<or> (d ! 2 \<noteq> d ! 10) \<or>
    (d ! 3 \<noteq> d ! 7 XOR 0xff) \<or> (d ! 3 \<noteq> d ! 11) \<or>
    (d ! 12 \<noteq> d ! 13 XOR 0xff) \<or> (d ! 12 \<noteq> d ! 14) \<or>
    (d ! 12 \<noteq> d ! 15 XOR 0xff))"

lemma xor_FF: "(x = y XOR 0xFF) \<longleftrightarrow> (y = x XOR 0xFF)" for x y :: u8
  by (auto simp: xor.assoc)

lemma list16:
  assumes "length d = 16"
  obtains d0 d1 d2 d3 d4 d5 d6 d7 d8 d9 da db dc dd de df where
    "d = [d0, d1, d2, d3] @ [d4, d5, d6, d7, d8, d9, da, db, dc, dd, de, df]"
proof -
  have "length d = Suc (Suc (Suc (Suc (Suc (Suc (Suc (Suc (Suc (Suc (Suc (Suc (Suc (Suc (Suc (Suc 0)))))))))))))))"
    using assms by simp
  then show thesis unfolding length_Suc_conv length_0_conv by (elim exE conjE) (simp add: that)
qed

lemma value_test_iff:
  assumes "length d = 16"
  shows "value_test d \<longleftrightarrow> d = value_block (MemLeToUint4byte d) (d ! 12)"
proof -
  obtain d0 d1 d2 d3 d4 d5 d6 d7 d8 d9 da db dc dd de df where
    d: "d = [d0, d1, d2, d3] @ [d4, d5, d6, d7, d8, d9, da, db, dc, dd, de, df]"
    using list16 [OF assms] .
  have u: "Uint4byteToMemLe [0, 0, 0, 0] (MemLeToUint4byte d) = [d0, d1, d2, d3]"
    unfolding d by (rule mem_value_inverse) simp
  show ?thesis
    unfolding value_block_def mem_value_not u value_test_def
    unfolding d by (simp add: xor_FF [of d0] xor_FF [of d1] xor_FF [of d2] xor_FF [of d3] xor_FF [of dc]) blast
qed

lemma value_block_parts: "MemLeToUint4byte (value_block v a) = v" "value_block v a ! 12 = a"
  by (simp_all add: value_block_def mem_value) (simp add: Uint4byteToMemLe_def)

text \<open>The three operations on an allocated emulator memory.\<close>

lemma emlSetValBl_block: "em_ok s \<Longrightarrow> emlSetValBl v a b s = Some (em.put_block b (value_block v a) s)"
  by (simp add: emlSetValBl_def em_addr em.put_block_def em_put_def mult.commute)

lemma emlCheckValBl_block: "em_ok s \<Longrightarrow> emlCheckValBl b s = Some (value_test (em.block b s), s)"
  by (simp only: emlCheckValBl_def em_addr prod.case option.case Let_def value_test_def em.block_def em_get_def mult.commute)

lemma emlGetValBl_block: "em_ok s \<Longrightarrow> emlGetValBl b s =
    Some (if value_test (em.block b s) then Some (MemLeToUint4byte (em.block b s), em.block b s ! 12) else None, s)"
  by (simp add: emlGetValBl_def emlCheckValBl_block em_addr Let_def em.block_def em_get_def mult.commute)

text \<open>value blocks in the emulator memory: the block that \<open>emlSetValBl\<close> writes passes
  \<open>emlCheckValBl\<close> and \<open>emlGetValBl\<close> reads the value and the address back from it, all other blocks
  of the card stay as they were, and \<open>emlGetValBl\<close> accepts no other block: it returns a value
  only for the one bit pattern that \<open>emlSetValBl\<close> writes for that value and address.\<close>

theorem value_blocks:
  assumes "em_ok s" "b < 256"
  shows "\<exists>s'. emlSetValBl v a b s = Some s' \<and> em_ok s' \<and> emlCheckValBl b s' = Some (True, s') \<and>
    emlGetValBl b s' = Some (Some (v, a), s') \<and>
    (\<forall>c < 256. em.block c s' = (if c = b then value_block v a else em.block c s)) \<and>
    (emlGetValBl b s = Some (Some (v, a), s) \<longleftrightarrow> em.block b s = value_block v a)"
proof (intro exI conjI allI impI)
  let ?s = "em.put_block b (value_block v a) s"
  show "emlSetValBl v a b s = Some ?s" using assms by (simp add: emlSetValBl_block)
  have r: "16 * c + 16 \<le> (4096 :: nat)" if "c < 256" for c using that by simp
  note p = em.block_put [OF assms(1) length_value_block r [OF assms(2)]]
  show ok: "em_ok ?s" by (rule p(1) [OF r [OF assms(2)]])
  show bl: "em.block c ?s = (if c = b then value_block v a else em.block c s)" if "c < 256" for c
    by (rule p(2) [OF r [OF that]])
  have b: "em.block b ?s = value_block v a" using bl [OF assms(2)] by simp
  have t: "value_test (value_block v a)" by (simp add: value_test_iff length_value_block value_block_parts)
  show "emlCheckValBl b ?s = Some (True, ?s)" by (simp add: emlCheckValBl_block [OF ok] b t)
  show "emlGetValBl b ?s = Some (Some (v, a), ?s)" by (simp add: emlGetValBl_block [OF ok] b t value_block_parts)
  show "emlGetValBl b s = Some (Some (v, a), s) \<longleftrightarrow> em.block b s = value_block v a"
    using value_test_iff [OF length_block [OF assms]] by (auto simp: emlGetValBl_block [OF assms(1)] t value_block_parts)
qed

definition first_card :: bigbuf where
  "first_card = snd (BigBuf_get_EM_addr (BigBuf_initialize (replicate 4200 0)))"

lemma first_card: "bb_inv (BigBuf_initialize (replicate 4200 0))"
  "fst (BigBuf_get_EM_addr (BigBuf_initialize (replicate 4200 0))) \<noteq> None" "em_ok first_card"
proof -
  let ?s = "BigBuf_initialize (replicate 4200 0)"
  show i: "bb_inv ?s" by (rule bb_inv_init) simp
  show a: "fst (BigBuf_get_EM_addr ?s) \<noteq> None"
    by (simp add: BigBuf_get_EM_addr_def BigBuf_calloc_def BigBuf_malloc_def BigBuf_initialize_def align_chunk_def
        CARD_MEMORY_SIZE_def align_mask Let_def)
  show "em_ok first_card"
    using EM_addr_cases(1,2) [OF prod.collapse [symmetric] i] a by (simp add: em_ok_def first_card_def)
qed

theorem value_blocks_witness:
  "\<exists>s'. emlSetValBl 0x12345678 5 255 first_card = Some s' \<and> emlGetValBl 255 s' = Some (Some (0x12345678, 5), s')"
  using value_blocks [OF first_card(3), of 255 "0x12345678" 5] by auto

subsection \<open>The cleared card\<close>

definition trailer_blocks :: "nat list" where
  "trailer_blocks = map (\<lambda>k. 4 * k + 3) [0..<32] @ map (\<lambda>k. 16 * k + 143) [0..<8]"

lemma clear_trailers_loop:
  "(\<And>b. b \<in> set bs \<Longrightarrow> b < 256) \<Longrightarrow> em_ok s \<Longrightarrow>
    (case bs of [] \<Rightarrow> True | b # _ \<Rightarrow> b = n) \<Longrightarrow> successively (\<lambda>b c. c = (if b < 124 then b + 4 else b + 16)) bs \<Longrightarrow> bs = [] \<longrightarrow> 256 \<le> n \<Longrightarrow>
    bs \<noteq> [] \<longrightarrow> 256 \<le> (if last bs < 124 then last bs + 4 else last bs + 16) \<Longrightarrow>
    clear_trailers n s = fold (\<lambda>b. em.put_block b default_trailer) bs s"
proof (induction bs arbitrary: n s)
  case Nil
  then show ?case by (simp add: clear_trailers.simps [of n s] MIFARE_4K_MAXBLOCK_def)
next
  case (Cons b bs)
  have b: "b < 256" "n = b" using Cons.prems(1,3) by auto
  have l: "length default_trailer = 16" by (simp add: default_trailer_def)
  let ?m = "if b < 124 then b + 4 else b + 16"
  have "clear_trailers n s = clear_trailers ?m (emlSetMem_xt default_trailer (word_of_nat b) 1 16 s)"
    using clear_trailers.simps [of b s] b by (simp add: MIFARE_4K_MAXBLOCK_def MIFARE_2K_MAXBLOCK_def)
  also have "emlSetMem_xt default_trailer (word_of_nat b) 1 16 s = em.put_block b default_trailer s"
    by (rule emlSetMem_block [OF Cons.prems(2) b(1) l])
  also have "clear_trailers ?m (em.put_block b default_trailer s) = fold (\<lambda>b. em.put_block b default_trailer) bs (em.put_block b default_trailer s)"
  proof (rule Cons.IH)
    show "em_ok (em.put_block b default_trailer s)" using em.block_put(1) [OF Cons.prems(2) l, of b b] b(1) by simp
  qed (use Cons.prems in \<open>auto split: list.splits if_splits simp: successively_Cons\<close>)
  finally show ?case by simp
qed

lemma trailer_blocks_iff: "b \<in> set trailer_blocks \<longleftrightarrow> b < 128 \<and> b mod 4 = 3 \<or> 128 \<le> b \<and> b < 256 \<and> b mod 16 = 15"
proof
  assume "b \<in> set trailer_blocks"
  then show "b < 128 \<and> b mod 4 = 3 \<or> 128 \<le> b \<and> b < 256 \<and> b mod 16 = 15"
    by (auto simp: trailer_blocks_def)
next
  assume "b < 128 \<and> b mod 4 = 3 \<or> 128 \<le> b \<and> b < 256 \<and> b mod 16 = 15"
  then show "b \<in> set trailer_blocks"
  proof
    assume "b < 128 \<and> b mod 4 = 3"
    then have "b = 4 * (b div 4) + 3" "b div 4 < 32" using div_mult_mod_eq [of b 4] by linarith+
    then show ?thesis by (auto simp: trailer_blocks_def image_iff)
  next
    assume "128 \<le> b \<and> b < 256 \<and> b mod 16 = 15"
    then have "b = 16 * (b div 16 - 8) + 143" "b div 16 - 8 < 8" using div_mult_mod_eq [of b 16] by linarith+
    then show ?thesis by (auto simp: trailer_blocks_def image_iff)
  qed
qed

lemma mfIsSectorTrailer_iff:
  assumes "b < 256"
  shows "mfIsSectorTrailer (word_of_nat b) \<longleftrightarrow> (if b < 128 then b mod 4 = 3 else b mod 16 = 15)"
proof -
  have u: "unat (word_of_nat b :: u16) = b" "unat (word_of_nat b :: u8) = b" "ucast (word_of_nat b :: u8) = (word_of_nat b :: u16)"
    using assms by (simp_all add: unat_of_nat word_unat_eq_iff unat_ucast_up)
  have "mfIsSectorTrailer (word_of_nat b) \<longleftrightarrow> b = unat (mfSectorTrailer (word_of_nat b))"
    by (simp add: mfIsSectorTrailer_def word_unat_eq_iff u unat_ucast_up)
  also have "\<dots> \<longleftrightarrow> (if b < 128 then b = b div 4 * 4 + 3 else b = b div 16 * 16 + 15)"
    using small_sector(2) [of "word_of_nat b"] large_sector(2) [of "word_of_nat b"] unfolding u by simp
  also have "b = b div 4 * 4 + 3 \<longleftrightarrow> b mod 4 = 3"
    using div_mult_mod_eq [of b 4] by (intro iffI) linarith+
  also have "b = b div 16 * 16 + 15 \<longleftrightarrow> b mod 16 = 15"
    using div_mult_mod_eq [of b 16] by (intro iffI) linarith+
  finally show ?thesis .
qed

lemma trailer_blocks_are_trailers: "b < 256 \<Longrightarrow> mfIsSectorTrailer (word_of_nat b) \<longleftrightarrow> b \<in> set trailer_blocks"
  by (simp add: mfIsSectorTrailer_iff trailer_blocks_iff)

lemma trailer_of_sector:
  assumes "n < 40"
  shows "unat (FirstBlockOfSector (word_of_nat n)) + unat (NumBlocksPerSector (word_of_nat n)) - 1 \<in> set trailer_blocks \<and>
    unat (FirstBlockOfSector (word_of_nat n)) + unat (NumBlocksPerSector (word_of_nat n)) - 1 < 256"
proof -
  have u: "unat (word_of_nat n :: u8) = n" using assms by (simp add: unat_of_nat)
  show ?thesis
  proof (cases "n < 32")
    case True
    then show ?thesis using sector_start(1) [of "word_of_nat n"] u by (auto simp: trailer_blocks_def image_iff)
  next
    case False
    then have "128 + (n - 32) * 16 + 15 = 16 * (n - 32) + 143" "n - 32 < 8" using assms by simp_all
    then show ?thesis using sector_start(2) [of "word_of_nat n"] u assms False by (auto simp: trailer_blocks_def image_iff)
  qed
qed

lemma emlGetKey_block:
  assumes "em_ok s" "n < 40" "k < 2"
  defines "t \<equiv> unat (FirstBlockOfSector (word_of_nat n)) + unat (NumBlocksPerSector (word_of_nat n)) - 1"
  shows "emlGetKey (word_of_nat n) k s = Some (bytes_to_num (take 6 (drop (k * 10) (em.block t s))) 6, s)"
proof -
  have "em_get (16 * t + k * 10) 6 s = take 6 (drop (k * 10) (em.block t s))"
    by (rule em.part_of_block) (use assms trailer_of_sector [OF assms(2)] in \<open>auto simp: t_def\<close>)
  then show ?thesis
    by (simp add: emlGetKey_def em_addr [OF assms(1)] Let_def em_get_def t_def add.assoc)
qed

lemma Clear_EM_blocks:
  assumes "bb_inv s" "fst (BigBuf_get_EM_addr s) \<noteq> None"
  shows "em_ok (BigBuf_Clear_EM s)" "b < 256 \<Longrightarrow> em.block b (BigBuf_Clear_EM s) = zero_block"
proof -
  obtain p s1 where g: "BigBuf_get_EM_addr s = (Some p, s1)" using assms(2) by (cases "BigBuf_get_EM_addr s") auto
  note e = EM_addr_cases [OF g assms(1)]
  have ok: "em_ok s1" and p: "s_emulator_memory s1 = Some p" using e(1) e(2) [symmetric] by (simp_all add: em_ok_def)
  have c: "BigBuf_Clear_EM s = em_put 0 (replicate 4096 0) s1"
    by (simp add: BigBuf_Clear_EM_def g buffer_sizes em_put_def p)
  have r: "0 + length (replicate 4096 (0 :: u8)) \<le> 4096" by simp
  show k: "em_ok (BigBuf_Clear_EM s)" unfolding c by (rule em.put_ok [OF ok r])
  assume b: "b < 256"
  have "em_get 0 4096 (BigBuf_Clear_EM s) = replicate 4096 0"
    using em.get_put [OF ok r] unfolding c by simp
  moreover have "16 \<le> 4096 - 16 * b" using b by simp
  ultimately show "em.block b (BigBuf_Clear_EM s) = zero_block"
    using em.get_part [OF k, of 0 4096 "16 * b" 16] b by (simp add: em.block_def zero_block_def min_def)
qed

text \<open>C29: whatever the card held before, \<open>emlClearMem\<close> leaves the emulator with a blank 4K card:
  block 0 is the default manufacturer block, every sector trailer is the transport trailer (valid
  access bits), every other block is zero, and both keys of all 40 sectors are \<open>FFFFFFFFFFFF\<close>.
  The emulator memory need not be allocated before; it must be obtainable.\<close>

theorem card_cleared:
  assumes "bb_inv s" "fst (BigBuf_get_EM_addr s) \<noteq> None"
  shows "em_ok (emlClearMem s) \<and>
    (\<forall>b < 256. em.block b (emlClearMem s) =
      (if b = 0 then default_uid else if mfIsSectorTrailer (word_of_nat b) then default_trailer else zero_block)) \<and>
    (\<forall>n < 40. \<forall>k < 2. emlGetKey (word_of_nat n) k (emlClearMem s) = Some (0xFFFFFFFFFFFF, emlClearMem s)) \<and>
    mfValidateAccessConditions (drop 6 default_trailer)"
proof -
  let ?t = "fold (\<lambda>b. em.put_block b default_trailer) trailer_blocks (BigBuf_Clear_EM s)"
  note c = Clear_EM_blocks [OF assms]
  have l: "length default_trailer = 16" "length default_uid = 16" by (simp_all add: default_trailer_def default_uid_def)
  have small: "b < 256" if "b \<in> set trailer_blocks" for b using that by (auto simp: trailer_blocks_def)
  have "clear_trailers 3 (BigBuf_Clear_EM s) = ?t"
    by (rule clear_trailers_loop [OF small c(1)]) (simp_all add: trailer_blocks_def upt_rec)
  moreover have t: "em_ok ?t \<and> (\<forall>c. 16 * c + 16 \<le> 4096 \<longrightarrow> em.block c ?t =
      (if c \<in> set trailer_blocks then default_trailer else em.block c (BigBuf_Clear_EM s)))"
    by (rule em.block_put_list [OF c(1) l(1)]) (use small in fastforce)
  moreover have "emlSetMem_xt default_uid 0 1 16 ?t = em.put_block 0 default_uid ?t"
    using emlSetMem_block [of ?t 0 default_uid] t l(2) by simp
  ultimately have e: "emlClearMem s = em.put_block 0 default_uid ?t" by (simp add: emlClearMem_def)
  have ok: "em_ok (emlClearMem s)" unfolding e by (rule em.block_put(1) [where c = 0]) (use t l in simp_all)
  have bl: "em.block b (emlClearMem s) = (if b = 0 then default_uid else if b \<in> set trailer_blocks then default_trailer else zero_block)"
    if "b < 256" for b
    unfolding e using em.block_put(2) [of ?t default_uid 0 b] t l(2) that c(2) [OF that] by simp
  have tr: "mfIsSectorTrailer (word_of_nat b) \<longleftrightarrow> b \<in> set trailer_blocks" if "b < 256" for b
    using that by (rule trailer_blocks_are_trailers)
  have key: "emlGetKey (word_of_nat n) k (emlClearMem s) = Some (0xFFFFFFFFFFFF, emlClearMem s)" if "n < 40" "k < 2" for n k
  proof -
    let ?b = "unat (FirstBlockOfSector (word_of_nat n)) + unat (NumBlocksPerSector (word_of_nat n)) - 1"
    have "em.block ?b (emlClearMem s) = default_trailer"
      using bl [of ?b] trailer_of_sector [OF that(1)] by (auto simp: trailer_blocks_def)
    moreover have "k = 0 \<or> k = 1" using that(2) by linarith
    moreover have "bytes_to_num (take 6 (drop (0 * 10) default_trailer)) 6 = 0xFFFFFFFFFFFF"
      "bytes_to_num (take 6 (drop (1 * 10) default_trailer)) 6 = 0xFFFFFFFFFFFF" by code_simp+
    ultimately show ?thesis using emlGetKey_block [OF ok that] by auto
  qed
  have "mfValidateAccessConditions (drop 6 default_trailer)" by code_simp
  then show ?thesis using ok bl tr key by simp
qed

theorem card_cleared_witness:
  "em.block 255 (emlClearMem (BigBuf_initialize (replicate 4200 0))) = default_trailer"
proof -
  have "mfIsSectorTrailer (word_of_nat 255)" by code_simp
  then show ?thesis using card_cleared [OF first_card(1,2)] by simp
qed

subsection \<open>Access conditions\<close>

text \<open>
  What a description promises. A clause is a list of words; its last word names the keys, the
  others the operations. For a trailer the clause also names the part of the trailer.
\<close>

fun words_of :: "char list \<Rightarrow> string \<Rightarrow> string list" where
  "words_of seps [] = [[]]"
| "words_of seps (c # cs) =
    (if c \<in> set seps then [] # words_of seps cs
     else case words_of seps cs of w # ws \<Rightarrow> (c # w) # ws | [] \<Rightarrow> [[c]])"

definition promises :: "string list \<Rightarrow> char \<Rightarrow> string \<Rightarrow> bool" where
  "promises needed key desc \<longleftrightarrow>
    list_ex (\<lambda>clause. let ws = words_of '' /'' clause in list_all (\<lambda>w. w \<in> set (butlast ws)) needed \<and> key \<in> set (last ws))
      (words_of '';'' desc)"

definition needed_words :: "nat \<Rightarrow> u8 \<Rightarrow> string list" where
  "needed_words k action =
    (if k = 3 then
       if action = AC_KEYA_READ then [''read'', ''A'', ''by'']
       else if action = AC_KEYA_WRITE then [''write'', ''A'', ''by'']
       else if action = AC_KEYB_READ then [''read'', ''B'', ''by'']
       else if action = AC_KEYB_WRITE then [''write'', ''B'', ''by'']
       else if action = AC_AC_READ then [''read'', ''ACCESS'', ''by'']
       else [''write'', ''ACCESS'', ''by'']
     else
       if action = AC_DATA_READ then [''read'']
       else if action = AC_DATA_WRITE then [''write'']
       else if action = AC_DATA_INC then [''increment'']
       else [''decrement'', ''transfer'', ''restore''])"

definition described :: "nat \<Rightarrow> string \<Rightarrow> u8 \<Rightarrow> u8 \<Rightarrow> bool" where
  "described k desc keytype action = promises (needed_words k action) (if keytype = AUTHKEYA then CHR ''A'' else CHR ''B'') desc"

text \<open>The decisions of the emulator as functions of the condition bits.\<close>

definition trailer_rule :: "u8 \<Rightarrow> u8 \<Rightarrow> u8 \<Rightarrow> bool" where
  "trailer_rule AC keytype action =
    (if action = AC_KEYA_READ then False
     else if action = AC_KEYA_WRITE then
       (keytype = AUTHKEYA \<and> (AC = 0x00 \<or> AC = 0x01)) \<or> (keytype = AUTHKEYB \<and> (AC = 0x04 \<or> AC = 0x03))
     else if action = AC_KEYB_READ then keytype = AUTHKEYA \<and> (AC = 0x00 \<or> AC = 0x02 \<or> AC = 0x01)
     else if action = AC_KEYB_WRITE then
       (keytype = AUTHKEYA \<and> (AC = 0x00 \<or> AC = 0x01)) \<or> (keytype = AUTHKEYB \<and> (AC = 0x04 \<or> AC = 0x03))
     else if action = AC_AC_READ then
       keytype = AUTHKEYA \<or> (keytype = AUTHKEYB \<and> \<not> (AC = 0x00 \<or> AC = 0x02 \<or> AC = 0x01))
     else if action = AC_AC_WRITE then
       (keytype = AUTHKEYA \<and> AC = 0x01) \<or> (keytype = AUTHKEYB \<and> (AC = 0x03 \<or> AC = 0x05))
     else False)"

definition data_rule :: "u8 \<Rightarrow> u8 \<Rightarrow> u8 \<Rightarrow> bool" where
  "data_rule AC keytype action =
    (if action = AC_DATA_READ then
       (keytype = AUTHKEYA \<and> \<not> (AC = 0x03 \<or> AC = 0x05 \<or> AC = 0x07)) \<or> (keytype = AUTHKEYB \<and> \<not> AC = 0x07)
     else if action = AC_DATA_WRITE then
       (keytype = AUTHKEYA \<and> AC = 0x00) \<or> (keytype = AUTHKEYB \<and> (AC = 0x00 \<or> AC = 0x04 \<or> AC = 0x06 \<or> AC = 0x03))
     else if action = AC_DATA_INC then
       (keytype = AUTHKEYA \<and> AC = 0x00) \<or> (keytype = AUTHKEYB \<and> (AC = 0x00 \<or> AC = 0x06))
     else if action = AC_DATA_DEC_TRANS_REST then
       (keytype = AUTHKEYA \<and> (AC = 0x00 \<or> AC = 0x06 \<or> AC = 0x01)) \<or> (keytype = AUTHKEYB \<and> (AC = 0x00 \<or> AC = 0x06 \<or> AC = 0x01))
     else False)"

lemma data_table: "list_all (\<lambda>(AC, desc). list_all (\<lambda>key. list_all (\<lambda>action.
    data_rule AC key action = described 0 desc key action) [0, 1, 2, 3]) [AUTHKEYA, AUTHKEYB]) MFAccessConditions"
  by code_simp

lemma trailer_table: "list_all (\<lambda>(AC, desc). list_all (\<lambda>key. list_all (\<lambda>action.
    trailer_rule AC key action = (action \<noteq> AC_KEYA_READ \<and>
      (described 3 desc key action \<or> (AC = 0 \<and> key = AUTHKEYA \<and> action = AC_KEYA_WRITE)))) [0, 1, 2, 3, 4, 5]) [AUTHKEYA, AUTHKEYB])
    MFAccessConditionsTrailer"
  by code_simp

text \<open>The emulator and the client read the same condition bits.\<close>

lemma bits_8: "bit (1 :: u8) n \<longleftrightarrow> n = 0" "bit (2 :: u8) n \<longleftrightarrow> n = 1" "bit (4 :: u8) n \<longleftrightarrow> n = 2"
  "bit (0xF :: u8) n \<longleftrightarrow> n < 4" "bit (0xF0 :: u8) n \<longleftrightarrow> 4 \<le> n \<and> n < 8"
proof -
  have "bit (2 ^ k :: u8) n \<longleftrightarrow> n = k" if "k < 8" for k
    using that by (auto simp: bit_exp_iff)
  from this [of 0] this [of 1] this [of 2]
  show "bit (1 :: u8) n \<longleftrightarrow> n = 0" "bit (2 :: u8) n \<longleftrightarrow> n = 1" "bit (4 :: u8) n \<longleftrightarrow> n = 2"
    by simp_all
  have f: "bit (0xF :: u8) n \<longleftrightarrow> n < 4" for n
    using bit_mask_iff [of 4 n, where 'a = u8] by (auto simp: mask_eq_exp_minus_1)
  then show "bit (0xF :: u8) n \<longleftrightarrow> n < 4" .
  have "bit (push_bit 4 (0xF :: u8)) n \<longleftrightarrow> 4 \<le> n \<and> n < 8"
    using f [of "n - 4"] by (subst bit_push_bit_iff) auto
  then show "bit (0xF0 :: u8) n \<longleftrightarrow> 4 \<le> n \<and> n < 8" by simp
qed

lemma client_bits:
  assumes "length t = 16" "k < 4"
  shows "bit (mf_get_accesscondition k (drop 6 t)) n \<longleftrightarrow>
    (n = 2 \<and> bit (t ! 7) (4 + k)) \<or> (n = 1 \<and> bit (t ! 8) k) \<or> (n = 0 \<and> bit (t ! 8) (4 + k))"
  unfolding mf_get_accesscondition_def Let_def NIBBLE_HIGH_def NIBBLE_LOW_def word_bits bits_8 o_apply
  using assms by (auto simp: add.commute)

lemma same_AC:
  assumes "length t = 16"
  shows "trailer_AC t = mf_get_accesscondition 3 (drop 6 t)"
    and "k < 3 \<Longrightarrow> data_AC (word_of_nat k) t = Some (mf_get_accesscondition k (drop 6 t))"
proof -
  have "bit (trailer_AC t) n \<longleftrightarrow> bit (mf_get_accesscondition 3 (drop 6 t)) n" for n
    using client_bits [OF assms, of 3 n] unfolding trailer_AC_def word_bits bits_8 o_apply by auto
  then show "trailer_AC t = mf_get_accesscondition 3 (drop 6 t)" by (auto intro!: bit_word_eqI)
  have "bit (the (data_AC (word_of_nat k) t)) n \<longleftrightarrow> bit (mf_get_accesscondition k (drop 6 t)) n" if k: "k \<in> {0, 1, 2}" for k n
  proof -
    consider "k = 0" | "k = 1" | "k = 2" using k by blast
    then show ?thesis
    proof cases
      case 1
      have "data_AC (word_of_nat 0) t = Some ((shr (t ! 7) 2 AND 0x04) OR (shl (t ! 8) 1 AND 0x02) OR (shr (t ! 8) 4 AND 0x01))"
        by (simp add: data_AC_def)
      then show ?thesis
        using client_bits [OF assms, of 0 n] unfolding 1 by (simp only: option.sel word_bits bits_8 o_apply) auto
    next
      case 2
      then show ?thesis using client_bits [OF assms, of 1 n]
        by (simp only: data_AC_def option.sel word_bits bits_8 o_apply) (auto simp: word_bits bits_8 simp del: bit_numeral_word_iff)
    next
      case 3
      then show ?thesis using client_bits [OF assms, of 2 n]
        by (simp only: data_AC_def option.sel word_bits bits_8 o_apply) (auto simp: word_bits bits_8 simp del: bit_numeral_word_iff)
    qed
  qed
  then have "the (data_AC (word_of_nat k) t) = mf_get_accesscondition k (drop 6 t)" if "k \<in> {0, 1, 2}" for k
    using that by (intro bit_word_eqI) blast
  moreover assume "k < 3"
  then have "k \<in> {0, 1, 2}" by auto
  moreover from this have "data_AC (word_of_nat k) t \<noteq> None" by (auto simp: data_AC_def)
  ultimately show "data_AC (word_of_nat k) t = Some (mf_get_accesscondition k (drop 6 t))"
    using option.collapse by metis
qed

lemma condition_known:
  assumes "length t = 16" "k < 4"
  defines "c \<equiv> mf_get_accesscondition k (drop 6 t)"
  shows "\<exists>a. map_of MFAccessConditions c = Some a" "\<exists>a. map_of MFAccessConditionsTrailer c = Some a"
proof -
  have "take_bit 3 c = c"
    by (rule bit_word_eqI) (auto simp: bit_take_bit_iff c_def client_bits [OF assms(1,2)])
  then have "take_bit 3 (unat c) = unat c" by (metis unsigned_take_bit_eq)
  then have "unat c < 8" using take_bit_nat_less_exp [of 3 "unat c"] by simp
  then have "c = 0 \<or> c = 1 \<or> c = 2 \<or> c = 3 \<or> c = 4 \<or> c = 5 \<or> c = 6 \<or> c = 7"
    unfolding word_unat_eq_iff by simp linarith
  then show "\<exists>a. map_of MFAccessConditions c = Some a" "\<exists>a. map_of MFAccessConditionsTrailer c = Some a"
    by (auto simp: MFAccessConditions_def MFAccessConditionsTrailer_def)
qed

text \<open>The number of the access condition of a block.\<close>

definition access_group :: "u8 \<Rightarrow> nat" where
  "access_group b = (if mfIsSectorTrailer (ucast b) then 3 else if unat b < 128 then unat b mod 4 else unat b mod 16 div 5)"

definition readable_part :: "nat \<Rightarrow> u8" where
  "readable_part k = (if k = 3 then AC_AC_READ else AC_DATA_READ)"

definition modifying :: "nat \<Rightarrow> u8 list" where
  "modifying k = (if k = 3 then [AC_KEYA_WRITE, AC_KEYB_WRITE, AC_AC_WRITE] else [AC_DATA_WRITE, AC_DATA_INC, AC_DATA_DEC_TRANS_REST])"

definition rule_of :: "nat \<Rightarrow> u8 \<Rightarrow> u8 \<Rightarrow> u8 \<Rightarrow> bool" where
  "rule_of k = (if k = 3 then trailer_rule else data_rule)"

lemma read_only_table: "list_all (\<lambda>AC. list_all (\<lambda>k.
    (if k = 3 then AC = 0x02 \<or> AC = 0x06 \<or> AC = 0x07 else AC = 0x02 \<or> AC = 0x05) =
    (list_ex (\<lambda>key. rule_of k AC key (readable_part k)) [AUTHKEYA, AUTHKEYB] \<and>
     list_all (\<lambda>key. list_all (\<lambda>action. \<not> rule_of k AC key action) (modifying k)) [AUTHKEYA, AUTHKEYB])) [0, 1, 2, 3])
    (map fst MFAccessConditions)"
  by code_simp

text \<open>The decision of the emulator, away from block 128, is the rule at the client's condition bits.\<close>

lemma same_sectors:
  assumes "b \<noteq> 128"
  shows "SectorTrailer b = mfSectorTrailer (ucast b)" "IsSectorTrailer b = mfIsSectorTrailer (ucast b)"
proof -
  have b: "unat b \<noteq> 128" using assms by (simp add: word_unat_eq_iff)
  show "SectorTrailer b = mfSectorTrailer (ucast b)"
    using small_sector(2,3) [of b] large_sector(2,3) [of b] b by (cases "unat b < 128") (simp_all add: word_unat_eq_iff)
  then show "IsSectorTrailer b = mfIsSectorTrailer (ucast b)"
    by (simp add: IsSectorTrailer_def mfIsSectorTrailer_def word_unat_eq_iff unat_ucast_up)
qed

lemma data_group:
  assumes "b \<noteq> 128" "\<not> mfIsSectorTrailer (ucast b)"
  shows "access_group b < 3" "sector_block b = word_of_nat (access_group b)"
proof -
  have u: "unat b < 256" "unat b \<noteq> 128" "word_of_nat (unat b) = (ucast b :: u16)"
    using unsigned_less [of b, where 'a = nat] assms(1) by (simp_all add: word_unat_eq_iff unat_of_nat unat_ucast_up)
  have n: "(if unat b < 128 then unat b mod 4 \<noteq> 3 else unat b mod 16 \<noteq> 15)"
    using mfIsSectorTrailer_iff [OF u(1)] assms(2) unfolding u(3) by (auto split: if_splits)
  have m: "unat b mod 4 < 4" "unat b mod 16 < 16" by simp_all
  have d: "unat b mod 16 div 5 < 3" if "unat b mod 16 \<noteq> 15" using that m by (simp add: less_mult_imp_div_less)
  show k: "access_group b < 3" using n m d assms(2) by (auto simp: access_group_def)
  have f: "(3 :: u8) = mask 2" "(0xF :: u8) = mask 4" by (simp_all add: mask_eq_exp_minus_1)
  have "unat (b AND 3) = unat b mod 4" "unat ((b AND 0xF) div 5) = unat b mod 16 div 5"
    unfolding f by (simp_all add: take_bit_eq_mask [symmetric] unat_div unat_mod unsigned_take_bit_eq take_bit_eq_mod)
  then have "unat (sector_block b) = access_group b"
    using u(2) assms(2) by (auto simp: sector_block_def access_group_def MIFARE_2K_MAXBLOCK_def)
  then show "sector_block b = word_of_nat (access_group b)"
    by (metis of_nat_unat ucast_id)
qed

lemma access_by_rule:
  assumes "em_ok s" "b \<noteq> 128"
  defines "data \<equiv> drop 6 (em.block (unat (mfSectorTrailer (ucast b))) s)" and "k \<equiv> access_group b"
  shows "IsAccessAllowed b keytype action s = (rule_of k (mf_get_accesscondition k data) keytype action, s)"
proof -
  note st = same_sectors [OF assms(2)]
  let ?t = "em.block (unat (mfSectorTrailer (ucast b))) s"
  have l: "length ?t = 16" using unsigned_less [of "mfSectorTrailer (ucast b)", where 'a = nat] by (intro length_block [OF assms(1)]) simp
  have m: "emlGetMem_xt zero_block (ucast (mfSectorTrailer (ucast b))) 1 MIFARE_BLOCK_SIZE s = (?t, s)"
    using emlGetMem_block [OF assms(1), of zero_block "mfSectorTrailer (ucast b)"] by (simp add: zero_block_def MIFARE_BLOCK_SIZE_def)
  show ?thesis
  proof (cases "mfIsSectorTrailer (ucast b)")
    case True
    then have "mfSectorTrailer (ucast b) = b" by (auto simp: mfIsSectorTrailer_def word_unat_eq_iff unat_ucast_up)
    then have "emlGetMem_xt zero_block (ucast b) 1 MIFARE_BLOCK_SIZE s = (?t, s)" using m by simp
    moreover have "k = 3" using True by (simp add: k_def access_group_def)
    ultimately show ?thesis using True
      by (simp add: IsAccessAllowed_def st IsTrailerAccessAllowed_def Let_def same_AC(1) [OF l] rule_of_def trailer_rule_def data_def)
  next
    case False
    note k = data_group [OF assms(2) False, folded k_def]
    then show ?thesis using False
      by (simp add: IsAccessAllowed_def st IsDataAccessAllowed_def m same_AC(2) [OF l] rule_of_def data_rule_def data_def)
  qed
qed

lemma less_cases: "x < 4 \<longleftrightarrow> x = 0 \<or> x = 1 \<or> x = 2 \<or> x = 3" "x < 6 \<longleftrightarrow> x = 0 \<or> x = 1 \<or> x = 2 \<or> x = 3 \<or> x = 4 \<or> x = 5" for x :: u8
  unfolding word_less_nat_alt word_unat_eq_iff by (simp_all, linarith+)

text \<open>C28: the access conditions of an emulated card: for every block except 128 and both keys, the
  firmware allows an action exactly if the description that the client prints for the condition
  bits of the block promises it, with two differences: key A can never be read (the client's
  description of condition 0 has \<open>read A by A\<close>), and under condition 0 key A may be written with
  key A (the description does not say so). The client calls a block read only exactly if
  the emulator allows some key to read it and no key to change it.\<close>

theorem access_conditions:
  assumes "em_ok s" "b \<noteq> 128"
  defines "data \<equiv> drop 6 (em.block (unat (mfSectorTrailer (ucast b))) s)" and "k \<equiv> access_group b"
  shows "(\<forall>keytype \<in> {AUTHKEYA, AUTHKEYB}. \<forall>action < (if k = 3 then 6 else 4).
      IsAccessAllowed b keytype action s =
        (if k = 3 \<and> action = AC_KEYA_READ then False
         else described k (mfGetAccessConditionsDesc k data) keytype action \<or>
           k = 3 \<and> mf_get_accesscondition 3 data = 0 \<and> keytype = AUTHKEYA \<and> action = AC_KEYA_WRITE, s)) \<and>
    (mfReadOnlyAccessConditions k data \<longleftrightarrow>
      list_ex (\<lambda>keytype. fst (IsAccessAllowed b keytype (readable_part k) s)) [AUTHKEYA, AUTHKEYB] \<and>
      list_all (\<lambda>keytype. list_all (\<lambda>action. \<not> fst (IsAccessAllowed b keytype action s)) (modifying k)) [AUTHKEYA, AUTHKEYB])"
proof (intro conjI ballI allI impI)
  let ?c = "mf_get_accesscondition k data"
  note r = access_by_rule [OF assms(1,2), folded k_def data_def]
  have l: "length (em.block (unat (mfSectorTrailer (ucast b))) s) = 16"
    using unsigned_less [of "mfSectorTrailer (ucast b)", where 'a = nat] by (intro length_block [OF assms(1)]) simp
  have k: "k < 4" using data_group(1) [OF assms(2)] by (cases "mfIsSectorTrailer (ucast b)") (force simp: k_def access_group_def)+
  obtain dd dt where d: "map_of MFAccessConditions ?c = Some dd" "map_of MFAccessConditionsTrailer ?c = Some dt"
    using condition_known [OF l k] unfolding data_def by blast
  note m = map_of_SomeD [OF d(1)] map_of_SomeD [OF d(2)]
  note tables = bspec [OF iffD1 [OF list_all_iff data_table] m(1), unfolded prod.case]
    bspec [OF iffD1 [OF list_all_iff trailer_table] m(2), unfolded prod.case]
  show "IsAccessAllowed b keytype action s =
      (if k = 3 \<and> action = AC_KEYA_READ then False
       else described k (mfGetAccessConditionsDesc k data) keytype action \<or>
         k = 3 \<and> mf_get_accesscondition 3 data = 0 \<and> keytype = AUTHKEYA \<and> action = AC_KEYA_WRITE, s)"
    if "keytype \<in> {AUTHKEYA, AUTHKEYB}" and "action < (if k = 3 then 6 else 4)" for keytype action
  proof (cases "k = 3")
    case True
    have key: "keytype \<in> set [AUTHKEYA, AUTHKEYB]" using that(1) by simp
    have "action \<in> set [0, 1, 2, 3, 4, 5]" using that(2) True by (simp add: less_cases)
    then have "trailer_rule ?c keytype action = (action \<noteq> AC_KEYA_READ \<and>
        (described 3 dt keytype action \<or> (?c = 0 \<and> keytype = AUTHKEYA \<and> action = AC_KEYA_WRITE)))"
      by (rule bspec [OF iffD1 [OF list_all_iff bspec [OF iffD1 [OF list_all_iff tables(2)] key]]])
    then show ?thesis using True d(2) by (simp add: r rule_of_def mfGetAccessConditionsDesc_def Let_def)
  next
    case False
    have key: "keytype \<in> set [AUTHKEYA, AUTHKEYB]" using that(1) by simp
    have "action \<in> set [0, 1, 2, 3]" using that(2) False by (simp add: less_cases)
    then have "data_rule ?c keytype action = described 0 dd keytype action"
      by (rule bspec [OF iffD1 [OF list_all_iff bspec [OF iffD1 [OF list_all_iff tables(1)] key]]])
    moreover have "described k = described 0" using False by (simp add: described_def needed_words_def fun_eq_iff)
    ultimately show ?thesis using False d(1) by (simp add: r rule_of_def mfGetAccessConditionsDesc_def Let_def)
  qed
  have k: "k \<in> set [0, 1, 2, 3]" using k by auto
  have c: "?c \<in> set (map fst MFAccessConditions)" using m(1) by force
  show "mfReadOnlyAccessConditions k data \<longleftrightarrow>
      list_ex (\<lambda>keytype. fst (IsAccessAllowed b keytype (readable_part k) s)) [AUTHKEYA, AUTHKEYB] \<and>
      list_all (\<lambda>keytype. list_all (\<lambda>action. \<not> fst (IsAccessAllowed b keytype action s)) (modifying k)) [AUTHKEYA, AUTHKEYB]"
    unfolding r fst_conv mfReadOnlyAccessConditions_def Let_def
    by (rule bspec [OF iffD1 [OF list_all_iff bspec [OF iffD1 [OF list_all_iff read_only_table] c]] k])
qed

theorem access_conditions_witness:
  "mfReadOnlyAccessConditions 3 (drop 6 (em.block 7 first_card)) \<longleftrightarrow>
    list_ex (\<lambda>keytype. fst (IsAccessAllowed 7 keytype (readable_part 3) first_card)) [AUTHKEYA, AUTHKEYB] \<and>
    list_all (\<lambda>keytype. list_all (\<lambda>action. \<not> fst (IsAccessAllowed 7 keytype action first_card)) (modifying 3)) [AUTHKEYA, AUTHKEYB]"
proof -
  have "access_group 7 = 3" "unat (mfSectorTrailer (ucast (7 :: u8))) = 7" by code_simp+
  then show ?thesis using access_conditions [OF first_card(3), of 7] by simp
qed

end
