(* ===== verification/Packet_Frames.thy ===== *)
theory Packet_Frames
  imports Crc16 Pm3_Codes
begin

text \<open>
  The frames between client and device: the packed structures of \<open>include/pm3_cmd.h\<close> as bytes, the
  device's side in \<open>armsrc/cmd.c\<close> over the USB reader of \<open>common_arm/usb_cdc.c\<close>. A structure is
  the list of its bytes, little endian; a read of a field that the code makes through the structure
  is a read at its offset.
\<close>

subsection \<open>Layout\<close>

definition bytes_le :: "nat \<Rightarrow> 'a::len word \<Rightarrow> bytes" where
  "bytes_le n w = map (\<lambda>i. ucast (shr w (8 * i))) [0..<n]"

definition word_le :: "bytes \<Rightarrow> 'a::len word" where
  "word_le bs = foldr (\<lambda>b w. shl w 8 OR ucast b) bs 0"

definition PM3_CMD_DATA_SIZE :: nat where "PM3_CMD_DATA_SIZE = 512"
definition COMMANDNG_PREAMBLE_MAGIC :: u32 where "COMMANDNG_PREAMBLE_MAGIC = 0x61334d50"
definition COMMANDNG_POSTAMBLE_MAGIC :: u16 where "COMMANDNG_POSTAMBLE_MAGIC = 0x3361"
definition RESPONSENG_PREAMBLE_MAGIC :: u32 where "RESPONSENG_PREAMBLE_MAGIC = 0x62334d50"
definition RESPONSENG_POSTAMBLE_MAGIC :: u16 where "RESPONSENG_POSTAMBLE_MAGIC = 0x3362"
definition PM3_ENODATA :: int where "PM3_ENODATA = -98"
definition PM3_EIO :: int where "PM3_EIO = -8"
definition PM3_REASON_UNKNOWN :: u8 where "PM3_REASON_UNKNOWN = -1"

text \<open>\<open>sizeof\<close> of the packed structures.\<close>

definition sizeof_CommandPreamble :: nat where "sizeof_CommandPreamble = 8"
definition sizeof_ResponsePreamble :: nat where "sizeof_ResponsePreamble = 10"
definition sizeof_Postamble :: nat where "sizeof_Postamble = 2"
definition sizeof_PacketOLD :: nat where "sizeof_PacketOLD = 544"

text \<open>The bit fields \<open>length : 15\<close> and \<open>ng : 1\<close>.\<close>

definition length_ng :: "nat \<Rightarrow> bool \<Rightarrow> u16" where
  "length_ng len ng = take_bit 15 (word_of_nat len) OR shl (of_bool ng) 15"

definition CommandPreamble :: "nat \<Rightarrow> bool \<Rightarrow> u16 \<Rightarrow> bytes" where
  "CommandPreamble len ng cmd = bytes_le 4 COMMANDNG_PREAMBLE_MAGIC @ bytes_le 2 (length_ng len ng) @ bytes_le 2 cmd"

definition ResponsePreamble :: "nat \<Rightarrow> bool \<Rightarrow> u8 \<Rightarrow> u8 \<Rightarrow> u16 \<Rightarrow> bytes" where
  "ResponsePreamble len ng status reason cmd =
    bytes_le 4 RESPONSENG_PREAMBLE_MAGIC @ bytes_le 2 (length_ng len ng) @ [status, reason] @ bytes_le 2 cmd"

text \<open>The fields that both preambles start with.\<close>

definition pre_magic :: "bytes \<Rightarrow> u32" where "pre_magic pre = word_le (take 4 pre)"
definition pre_length :: "bytes \<Rightarrow> nat" where "pre_length pre = unat (take_bit 15 (word_le (take 2 (drop 4 pre)) :: u16))"
definition pre_ng :: "bytes \<Rightarrow> bool" where "pre_ng pre = bit (word_le (take 2 (drop 4 pre)) :: u16) 15"

subsection \<open>Reading from USB\<close>

text \<open>
  What one pass of the polling loop of \<open>usb_read_ng\<close> finds: the device is not configured any more,
  no packet is there, or a packet of the OUT endpoint (at most 64 bytes). The two banks of the
  endpoint are one queue. After the list ends nothing arrives.
\<close>

datatype usb_poll = Unplugged | Idle | Packet bytes

record usb_rx =
  usb_read_ng_buffer :: bytes
  usb_read_ng_bufoffset :: nat
  usb_read_ng_buflen :: nat
  usb_polls :: "usb_poll list"

text \<open>The loop; the first argument counts the passes left until \<open>time_out\<close> is \<open>0x1FFF\<close>.\<close>

fun usb_read_loop :: "nat \<Rightarrow> nat \<Rightarrow> usb_rx \<Rightarrow> bytes \<times> usb_rx" where
  "usb_read_loop 0 len s = ([], s)"
| "usb_read_loop (Suc passes) len s =
    (if len = 0 then ([], s)
     else case usb_polls s of
       [] \<Rightarrow> ([], s)
     | Unplugged # ps \<Rightarrow> ([], s\<lparr>usb_polls := ps\<rparr>)
     | Idle # ps \<Rightarrow> usb_read_loop passes len (s\<lparr>usb_polls := ps\<rparr>)
     | Packet bs # ps \<Rightarrow>
         let packetSize = min (length bs) len;
             s = s\<lparr>usb_read_ng_buffer := write_at 0 (drop packetSize bs) (usb_read_ng_buffer s),
               usb_read_ng_buflen := length bs - packetSize, usb_polls := ps\<rparr>
         in case usb_read_loop passes (len - packetSize) s of (rest, s) \<Rightarrow> (take packetSize bs @ rest, s))"

definition usb_read_ng :: "nat \<Rightarrow> usb_rx \<Rightarrow> bytes \<times> usb_rx" where
  "usb_read_ng len s =
    (if len = 0 then ([], s)
     else if len \<le> usb_read_ng_buflen s then
       let data = take len (drop (usb_read_ng_bufoffset s) (usb_read_ng_buffer s));
           s = s\<lparr>usb_read_ng_buflen := usb_read_ng_buflen s - len\<rparr>
       in (data, if usb_read_ng_buflen s = 0 then s\<lparr>usb_read_ng_bufoffset := 0\<rparr>
                 else s\<lparr>usb_read_ng_bufoffset := usb_read_ng_bufoffset s + len\<rparr>)
     else
       let data = take (usb_read_ng_buflen s) (drop (usb_read_ng_bufoffset s) (usb_read_ng_buffer s));
           len = len - usb_read_ng_buflen s;
           s = s\<lparr>usb_read_ng_buflen := 0, usb_read_ng_bufoffset := 0\<rparr>
       in case usb_read_loop (0x1FFF + 1) len s of (rest, s) \<Rightarrow> (data @ rest, s))"

subsection \<open>The device\<close>

record PacketCommandNG =
  pc_cmd :: u16
  pc_length :: nat
  pc_magic :: u32
  pc_crc :: u16
  pc_oldarg :: "u64 list"
  pc_data :: bytes
  pc_ng :: bool

record device =
  g_reply_with_crc_on_usb :: bool
  g_reply_with_crc_on_fpc :: bool
  g_reply_via_fpc :: bool
  g_reply_via_usb :: bool
  dev_crc :: crc_state

text \<open>
  The frame that \<open>reply_ng_internal\<close> composes on its stack; \<open>stack\<close> is what the data area of
  \<open>txBufferNG\<close> holds before (it is sent when \<open>data\<close> is NULL and \<open>len\<close> is not 0).
\<close>

definition reply_frame :: "bytes \<Rightarrow> u16 \<Rightarrow> u8 \<Rightarrow> u8 \<Rightarrow> bytes option \<Rightarrow> nat \<Rightarrow> bool \<Rightarrow> device \<Rightarrow> bytes \<times> device" where
  "reply_frame stack cmd status reason data len ng d =
    (let (len, status) = (if len > PM3_CMD_DATA_SIZE then (PM3_CMD_DATA_SIZE, word_of_int PM3_EOVFLOW) else (len, status));
         pre = ResponsePreamble len ng status reason cmd;
         payload = (case data of Some data \<Rightarrow> take len data | None \<Rightarrow> take len stack);
         frame = pre @ payload
     in if (g_reply_via_fpc d \<and> g_reply_with_crc_on_fpc d) \<or> (g_reply_via_usb d \<and> g_reply_with_crc_on_usb d)
        then case compute_crc CRC_14443_A frame (sizeof_ResponsePreamble + len) (dev_crc d) of
            (Some (first, second), st) \<Rightarrow>
              (frame @ bytes_le 2 ((shl (ucast first) 8 OR ucast second) :: u16), d\<lparr>dev_crc := st\<rparr>)
          | (None, st) \<Rightarrow> (frame, d\<lparr>dev_crc := st\<rparr>)
        else (frame @ bytes_le 2 RESPONSENG_POSTAMBLE_MAGIC, d))"

text \<open>The two interfaces are parameters; both may be in use. \<open>PM3_SUCCESS\<close> stands for an interface not in use.\<close>

definition reply_ng_internal ::
  "(bytes \<Rightarrow> 'o \<Rightarrow> int \<times> 'o) \<Rightarrow> (bytes \<Rightarrow> 'o \<Rightarrow> int \<times> 'o) \<Rightarrow> bytes \<Rightarrow> u16 \<Rightarrow> u8 \<Rightarrow> u8 \<Rightarrow> bytes option \<Rightarrow> nat \<Rightarrow> bool \<Rightarrow>
    device \<Rightarrow> 'o \<Rightarrow> int \<times> device \<times> 'o" where
  "reply_ng_internal usb_write usart_write stack cmd status reason data len ng d out =
    (let (frame, d) = reply_frame stack cmd status reason data len ng d;
         (resultusb, out) = (if g_reply_via_usb d then usb_write frame out else (PM3_SUCCESS, out));
         (resultfpc, out) = (if g_reply_via_fpc d then usart_write frame out else (PM3_SUCCESS, out))
     in (if resultusb \<noteq> PM3_SUCCESS then resultusb else if resultfpc \<noteq> PM3_SUCCESS then resultfpc else PM3_SUCCESS, d, out))"

definition reply_ng where
  "reply_ng usb_write usart_write stack cmd status data len =
    reply_ng_internal usb_write usart_write stack cmd status PM3_REASON_UNKNOWN data len True"

definition reply_mix where
  "reply_mix usb_write usart_write stack (cmd :: u64) (arg0 :: u64) (arg1 :: u64) (arg2 :: u64) data len =
    (let (len, status) = (if len > PM3_CMD_DATA_SIZE - 24 then (PM3_CMD_DATA_SIZE - 24, word_of_int PM3_EOVFLOW)
                          else (len, word_of_int PM3_SUCCESS));
         cmddata = bytes_le 8 arg0 @ bytes_le 8 arg1 @ bytes_le 8 arg2 @
           (case data of Some data \<Rightarrow> take len data | None \<Rightarrow> take len stack)
     in reply_ng_internal usb_write usart_write stack (ucast (cmd AND 0xFFFF)) status PM3_REASON_UNKNOWN (Some cmddata) (len + 24) False)"

definition reply_reason where
  "reply_reason usb_write usart_write stack cmd status reason data len =
    reply_ng_internal usb_write usart_write stack cmd status reason data len True"

text \<open>A reply of the old style: a structure of fixed size, cleared first. Without data nothing is copied.\<close>

definition reply_old ::
  "(bytes \<Rightarrow> 'o \<Rightarrow> int \<times> 'o) \<Rightarrow> (bytes \<Rightarrow> 'o \<Rightarrow> int \<times> 'o) \<Rightarrow> u64 \<Rightarrow> u64 \<Rightarrow> u64 \<Rightarrow> u64 \<Rightarrow> bytes option \<Rightarrow> nat \<Rightarrow>
    device \<Rightarrow> 'o \<Rightarrow> int \<times> device \<times> 'o" where
  "reply_old usb_write usart_write cmd arg0 arg1 arg2 data len d out =
    (let asBytes = replicate PM3_CMD_DATA_SIZE 0;
         asBytes = (case data of Some data \<Rightarrow> write_at 0 (take (min len PM3_CMD_DATA_SIZE) data) asBytes | None \<Rightarrow> asBytes);
         txcmd = bytes_le 8 cmd @ bytes_le 8 arg0 @ bytes_le 8 arg1 @ bytes_le 8 arg2 @ asBytes;
         (resultusb, out) = (if g_reply_via_usb d then usb_write txcmd out else (PM3_SUCCESS, out));
         (resultfpc, out) = (if g_reply_via_fpc d then usart_write txcmd out else (PM3_SUCCESS, out))
     in (if resultusb \<noteq> PM3_SUCCESS then resultusb else if resultfpc \<noteq> PM3_SUCCESS then resultfpc else PM3_SUCCESS, d, out))"

text \<open>
  The receiver, over any reader \<open>read_ng\<close>. \<open>rx\<close> is the caller's packet, which failing calls leave
  partly written.
\<close>

definition receive_old ::
  "(nat \<Rightarrow> 's \<Rightarrow> bytes \<times> 's) \<Rightarrow> bool \<Rightarrow> bool \<Rightarrow> bytes \<Rightarrow> PacketCommandNG \<Rightarrow> device \<Rightarrow> 's \<Rightarrow> int \<times> PacketCommandNG \<times> device \<times> 's" where
  "receive_old read_ng usb fpc pre rx d s =
    (case read_ng (sizeof_PacketOLD - sizeof_CommandPreamble) s of (bs, s) \<Rightarrow>
       if length bs \<noteq> sizeof_PacketOLD - sizeof_CommandPreamble then (PM3_EIO, rx, d, s)
       else
         let old = pre @ bs
         in (PM3_SUCCESS,
             rx\<lparr>pc_ng := False, pc_magic := 0, pc_crc := 0, pc_cmd := ucast (word_le (take 8 old) AND (0xFFFF :: u64)),
               pc_oldarg := [word_le (take 8 (drop 8 old)), word_le (take 8 (drop 16 old)), word_le (take 8 (drop 24 old))],
               pc_length := PM3_CMD_DATA_SIZE, pc_data := write_at 0 (take PM3_CMD_DATA_SIZE (drop 32 old)) (pc_data rx)\<rparr>,
             d\<lparr>g_reply_via_usb := usb, g_reply_via_fpc := fpc\<rparr>, s))"

text \<open>The payload of a frame of the new style: \<open>None\<close> is the return for a MIX frame too short for its arguments.\<close>

definition store_payload :: "bytes \<Rightarrow> nat \<Rightarrow> PacketCommandNG \<Rightarrow> PacketCommandNG option" where
  "store_payload data len rx =
    (if pc_ng rx then Some (rx\<lparr>pc_data := write_at 0 data (pc_data rx), pc_length := len\<rparr>)
     else if len < 24 then None
     else Some (rx\<lparr>pc_oldarg := [word_le (take 8 data), word_le (take 8 (drop 8 data)), word_le (take 8 (drop 16 data))],
       pc_data := write_at 0 (drop 24 data) (pc_data rx), pc_length := len - 24\<rparr>))"

definition receive_ng_internal ::
  "(nat \<Rightarrow> 's \<Rightarrow> bytes \<times> 's) \<Rightarrow> bool \<Rightarrow> bool \<Rightarrow> PacketCommandNG \<Rightarrow> device \<Rightarrow> 's \<Rightarrow> int \<times> PacketCommandNG \<times> device \<times> 's" where
  "receive_ng_internal read_ng usb fpc rx d s =
    (case read_ng sizeof_CommandPreamble s of (pre, s) \<Rightarrow>
       if length pre = 0 then (PM3_ENODATA, rx, d, s)
       else if length pre \<noteq> sizeof_CommandPreamble then (PM3_EIO, rx, d, s)
       else
         let rx = rx\<lparr>pc_magic := pre_magic pre, pc_ng := pre_ng pre, pc_cmd := word_le (take 2 (drop 6 pre))\<rparr>;
             len = pre_length pre
         in if pc_magic rx \<noteq> COMMANDNG_PREAMBLE_MAGIC then receive_old read_ng usb fpc pre rx d s
            else if len > PM3_CMD_DATA_SIZE then (PM3_EOVFLOW, rx, d, s)
            else case read_ng len s of (data, s) \<Rightarrow>
              if length data \<noteq> len then (PM3_EIO, rx, d, s)
              else case store_payload data len rx of
                None \<Rightarrow> (PM3_EIO, rx, d, s)
              | Some rx \<Rightarrow>
                  case read_ng sizeof_Postamble s of (post, s) \<Rightarrow>
                    if length post \<noteq> sizeof_Postamble then (PM3_EIO, rx, d, s)
                    else
                      let rx = rx\<lparr>pc_crc := word_le post\<rparr>;
                          reply_to = (\<lambda>d. d\<lparr>g_reply_via_usb := usb, g_reply_via_fpc := fpc\<rparr>)
                      in if pc_crc rx = COMMANDNG_POSTAMBLE_MAGIC then (PM3_SUCCESS, rx, reply_to d, s)
                         else case compute_crc CRC_14443_A (pre @ data) (sizeof_CommandPreamble + len) (dev_crc d) of
                             (None, st) \<Rightarrow> (PM3_EIO, rx, d\<lparr>dev_crc := st\<rparr>, s)
                           | (Some (first, second), st) \<Rightarrow>
                               if shl (ucast first) 8 + ucast second \<noteq> pc_crc rx then (PM3_EIO, rx, d\<lparr>dev_crc := st\<rparr>, s)
                               else (PM3_SUCCESS, rx, reply_to (d\<lparr>dev_crc := st\<rparr>), s))"

text \<open>
  \<open>receive_ng\<close> with USB and the serial port of the add-on: it looks for a packet at the endpoint
  (not in the local buffer), then at the serial port.
\<close>

definition usb_poll_validate_length :: "usb_rx \<Rightarrow> bool \<times> usb_rx" where
  "usb_poll_validate_length s =
    (case usb_polls s of
       [] \<Rightarrow> (False, s)
     | Unplugged # ps \<Rightarrow> (False, s\<lparr>usb_polls := ps\<rparr>)
     | Idle # ps \<Rightarrow> (False, s\<lparr>usb_polls := ps\<rparr>)
     | Packet bs # ps \<Rightarrow> (length bs > 0, s))"

definition receive_ng ::
  "(nat \<Rightarrow> 'f \<Rightarrow> bytes \<times> 'f) \<Rightarrow> ('f \<Rightarrow> nat) \<Rightarrow> PacketCommandNG \<Rightarrow> device \<Rightarrow> usb_rx \<Rightarrow> 'f \<Rightarrow>
    int \<times> PacketCommandNG \<times> device \<times> usb_rx \<times> 'f" where
  "receive_ng usart_read_ng usart_rxdata_available rx d u f =
    (case usb_poll_validate_length u of
       (True, u) \<Rightarrow> (case receive_ng_internal usb_read_ng True False rx d u of (r, rx, d, u) \<Rightarrow> (r, rx, d, u, f))
     | (False, u) \<Rightarrow>
         if usart_rxdata_available f > 0
         then case receive_ng_internal usart_read_ng False True rx d f of (r, rx, d, f) \<Rightarrow> (r, rx, d, u, f)
         else (PM3_ENODATA, rx, d, u, f))"

end
