(* ===== verification/Packet_Client.thy ===== *)
theory Packet_Client
  imports Packet_Frames
begin

text \<open>
  The client's side of the link, \<open>client/src/comms.c\<close>: sending of commands, the receiving and the
  transmitting half of one pass of the communication thread (\<open>uart_communication\<close>, frames only, not
  the raw mode), the ring buffer of replies, and the serial reader \<open>uart_receive\<close> of
  \<open>client/src/uart/uart_posix.c\<close> (without its UDP buffer). The static variables of the file and the
  thread's packet \<open>rx\<close>, which lives across passes, are the record \<open>comms\<close>.
\<close>

subsection \<open>Reading from the serial port\<close>

text \<open>
  One pass of the loop of \<open>uart_receive\<close>: \<open>select\<close> fails; bytes arrive while it waits (none at all: it
  times out, if nothing is left in the kernel's queue); \<open>ioctl\<close> fails; the peer has closed
  (ready, but no bytes); \<open>read\<close> fails. After the list ends nothing arrives.
\<close>

datatype uart_event = Select_error | Arrived bytes | Ioctl_error | Closed | Read_error

record uart =
  uart_queue :: bytes
  uart_events :: "uart_event list"
  rx_empty_counter :: u8

definition PM3_ENOTTY :: int where "PM3_ENOTTY = -14"

primrec uart_loop :: "uart_event list \<Rightarrow> nat \<Rightarrow> bytes \<Rightarrow> uart \<Rightarrow> int \<times> bytes \<times> uart" where
  "uart_loop [] n got u =
    (let q = uart_queue u; bs = take (n - length got) q; u = u\<lparr>uart_events := []\<rparr>
     in if q = [] then (if got = [] then PM3_ENODATA else PM3_SUCCESS, got, u)
        else let got' = got @ bs; u = u\<lparr>uart_queue := drop (n - length got) q, rx_empty_counter := 0\<rparr>
             in (PM3_SUCCESS, got', u))"
| "uart_loop (e # es) n got u =
    (case e of
       Select_error \<Rightarrow> (PM3_EIO, got, u\<lparr>uart_events := es\<rparr>)
     | Ioctl_error \<Rightarrow> (PM3_ENOTTY, got, u\<lparr>uart_events := es\<rparr>)
     | Closed \<Rightarrow> let u = u\<lparr>rx_empty_counter := rx_empty_counter u + 1, uart_events := es\<rparr>
                in (if rx_empty_counter u > 3 then PM3_ENOTTY else PM3_EIO, got, u)
     | Read_error \<Rightarrow> (PM3_EIO, got, u\<lparr>uart_events := es, rx_empty_counter := 0\<rparr>)
     | Arrived bs \<Rightarrow>
         let q = uart_queue u @ bs
         in if q = [] then (if got = [] then PM3_ENODATA else PM3_SUCCESS, got, u\<lparr>uart_events := es\<rparr>)
            else let byteCount = min (length q) (n - length got); got = got @ take byteCount q;
                     u = u\<lparr>uart_queue := drop byteCount q, rx_empty_counter := 0\<rparr>
                 in if length got = n then (PM3_SUCCESS, got, u\<lparr>uart_events := es\<rparr>) else uart_loop es n got u)"

definition uart_receive :: "nat \<Rightarrow> uart \<Rightarrow> int \<times> bytes \<times> uart" where
  "uart_receive n u = uart_loop (uart_events u) n [] u"

subsection \<open>State\<close>

definition CMD_BUFFER_SIZE :: nat where "CMD_BUFFER_SIZE = 100"
definition PM3_CMD_DATA_SIZE_MIX :: nat where "PM3_CMD_DATA_SIZE_MIX = PM3_CMD_DATA_SIZE - 3 * 8"
definition CMD_ACK :: u16 where "CMD_ACK = 0x00ff"
definition CMD_UNKNOWN :: u32 where "CMD_UNKNOWN = 0xFFFF"
definition CMD_DEBUG_PRINT_STRING :: u16 where "CMD_DEBUG_PRINT_STRING = 0x0100"
definition CMD_DEBUG_PRINT_INTEGERS :: u16 where "CMD_DEBUG_PRINT_INTEGERS = 0x0101"

record PacketResponseNG =
  pr_cmd :: u16
  pr_length :: nat
  pr_magic :: u32
  pr_status :: u8
  pr_reason :: u8
  pr_crc :: u16
  pr_oldarg :: "u64 list"
  pr_data :: bytes
  pr_ng :: bool

record comms =
  pm3_present :: bool
  send_via_fpc_usart :: bool
  send_with_crc_on_fpc :: bool
  send_with_crc_on_usb :: bool
  last_command :: u16
  txBuffer :: bytes
  txBufferNG :: bytes
  txBufferNGLen :: nat
  txBuffer_pending :: bool
  rxBuffer :: "PacketResponseNG list"
  cmd_head :: nat
  cmd_tail :: nat
  comms_crc :: crc_state
  thread_rx :: PacketResponseNG

subsection \<open>Sending\<close>

text \<open>\<open>None\<close>: the call waits until the communication thread has sent the previous command.\<close>

definition SendCommandOLD :: "u64 \<Rightarrow> u64 \<Rightarrow> u64 \<Rightarrow> u64 \<Rightarrow> bytes option \<Rightarrow> nat \<Rightarrow> comms \<Rightarrow> comms option" where
  "SendCommandOLD cmd arg0 arg1 arg2 data len s =
    (if len > PM3_CMD_DATA_SIZE then Some s
     else if \<not> pm3_present s then Some s
     else if txBuffer_pending s then None
     else
       let d = (case data of Some data \<Rightarrow> write_at 0 (take len data) (replicate PM3_CMD_DATA_SIZE 0) | None \<Rightarrow> replicate PM3_CMD_DATA_SIZE 0)
       in Some (s\<lparr>txBuffer := bytes_le 8 cmd @ bytes_le 8 arg0 @ bytes_le 8 arg1 @ bytes_le 8 arg2 @ d, txBuffer_pending := True\<rparr>))"

definition SendCommandNG_internal :: "u16 \<Rightarrow> bytes option \<Rightarrow> nat \<Rightarrow> bool \<Rightarrow> comms \<Rightarrow> comms option" where
  "SendCommandNG_internal cmd data len ng s =
    (if \<not> pm3_present s then Some s
     else if len > PM3_CMD_DATA_SIZE then Some s
     else if txBuffer_pending s then None
     else
       let tx = write_at 0 (CommandPreamble len ng cmd) (txBufferNG s);
           tx = (case data of Some data \<Rightarrow> write_at sizeof_CommandPreamble (take len data) tx | None \<Rightarrow> tx);
           (crc, st) =
             (if (send_via_fpc_usart s \<and> send_with_crc_on_fpc s) \<or> (\<not> send_via_fpc_usart s \<and> send_with_crc_on_usb s)
              then case compute_crc CRC_14443_A tx (sizeof_CommandPreamble + len) (comms_crc s) of
                  (Some (first, second), st) \<Rightarrow> (shl (ucast first) 8 + ucast second, st)
                | (None, st) \<Rightarrow> (0, st)
              else (COMMANDNG_POSTAMBLE_MAGIC, comms_crc s));
           tx = write_at (sizeof_CommandPreamble + len) (bytes_le 2 crc) tx
       in Some (s\<lparr>txBufferNG := tx, comms_crc := st, txBufferNGLen := sizeof_CommandPreamble + len + sizeof_Postamble,
         txBuffer_pending := True\<rparr>))"

definition SendCommandNG :: "u16 \<Rightarrow> bytes option \<Rightarrow> nat \<Rightarrow> comms \<Rightarrow> comms option" where
  "SendCommandNG cmd data len s = SendCommandNG_internal cmd data len True s"

text \<open>\<open>stack\<close> is the content of the local array behind the arguments, sent when \<open>data\<close> is NULL.\<close>

definition SendCommandMIX :: "bytes \<Rightarrow> u64 \<Rightarrow> u64 \<Rightarrow> u64 \<Rightarrow> u64 \<Rightarrow> bytes option \<Rightarrow> nat \<Rightarrow> comms \<Rightarrow> comms option" where
  "SendCommandMIX stack cmd arg0 arg1 arg2 data len s =
    (if len > PM3_CMD_DATA_SIZE_MIX then Some s
     else
       let cmddata = bytes_le 8 arg0 @ bytes_le 8 arg1 @ bytes_le 8 arg2 @
             (case data of Some data \<Rightarrow> take len data | None \<Rightarrow> take len stack)
       in SendCommandNG_internal (ucast cmd) (Some cmddata) (len + 24) False s)"

text \<open>The transmitting half of a pass: whether the connection failed.\<close>

definition transmit :: "(bytes \<Rightarrow> 'o \<Rightarrow> int \<times> 'o) \<Rightarrow> comms \<Rightarrow> 'o \<Rightarrow> bool \<times> comms \<times> 'o" where
  "transmit uart_send s out =
    (if \<not> txBuffer_pending s then (False, s, out)
     else if txBufferNGLen s \<noteq> 0 then
       (case uart_send (take (txBufferNGLen s) (txBufferNG s)) out of (res, out) \<Rightarrow>
         (res = PM3_EIO, s\<lparr>last_command := word_le (take 2 (drop 6 (txBufferNG s))), txBufferNGLen := 0, txBuffer_pending := False\<rparr>, out))
     else
       (case uart_send (txBuffer s) out of (res, out) \<Rightarrow>
         (res = PM3_EIO, s\<lparr>last_command := word_le (take 2 (txBuffer s)), txBuffer_pending := False\<rparr>, out)))"

subsection \<open>Replies\<close>

definition clearCommandBuffer :: "comms \<Rightarrow> comms" where
  "clearCommandBuffer s = s\<lparr>cmd_tail := cmd_head s\<rparr>"

definition storeReply :: "PacketResponseNG \<Rightarrow> comms \<Rightarrow> comms" where
  "storeReply packet s =
    s\<lparr>rxBuffer := (rxBuffer s)[cmd_head s := packet], cmd_head := (cmd_head s + 1) mod CMD_BUFFER_SIZE\<rparr>"

definition getReply :: "comms \<Rightarrow> PacketResponseNG option \<times> comms" where
  "getReply s =
    (if cmd_head s = cmd_tail s then (None, s)
     else (Some (rxBuffer s ! cmd_tail s), s\<lparr>cmd_tail := (cmd_tail s + 1) mod CMD_BUFFER_SIZE\<rparr>))"

text \<open>Debug messages are printed, everything else is stored.\<close>

definition PacketResponseReceived :: "PacketResponseNG \<Rightarrow> comms \<Rightarrow> comms" where
  "PacketResponseReceived packet s =
    (if pr_cmd packet = CMD_DEBUG_PRINT_STRING \<or> pr_cmd packet = CMD_DEBUG_PRINT_INTEGERS then s else storeReply packet s)"

text \<open>
  The inner loop of \<open>WaitForResponseTimeoutW\<close>: replies to other commands are dropped. The first
  argument bounds the passes; \<open>CMD_BUFFER_SIZE\<close> is enough, each pass moves the tail.
\<close>

fun take_reply :: "nat \<Rightarrow> u32 \<Rightarrow> comms \<Rightarrow> PacketResponseNG option \<times> comms" where
  "take_reply 0 cmd s = (None, s)"
| "take_reply (Suc n) cmd s =
    (case getReply s of
       (None, s) \<Rightarrow> (None, s)
     | (Some response, s) \<Rightarrow>
         if cmd = CMD_UNKNOWN \<or> ucast (pr_cmd response) = cmd then (Some response, s) else take_reply n cmd s)"

subsection \<open>Receiving\<close>

text \<open>The flags that a pass computes.\<close>

record pass =
  ACK_received :: bool
  rx_error :: bool
  commfailed :: bool

definition quiet_pass :: pass where
  "quiet_pass = \<lparr>ACK_received = False, rx_error = False, commfailed = False\<rparr>"

definition failed_pass :: pass where
  "failed_pass = quiet_pass\<lparr>rx_error := True\<rparr>"

text \<open>The payload: the packet, or \<open>None\<close> for an error, and whether it acknowledges the last command.\<close>

definition receive_payload :: "bytes \<Rightarrow> nat \<Rightarrow> u16 \<Rightarrow> PacketResponseNG \<Rightarrow> (PacketResponseNG \<times> bool) option" where
  "receive_payload data len last_cmd rx =
    (if len > 0 then
       if pr_ng rx then
         Some (rx\<lparr>pr_data := write_at 0 data (pr_data rx), pr_length := len\<rparr>, pr_cmd rx = last_cmd \<and> pr_status rx = word_of_int PM3_SUCCESS)
       else if len < 24 then None
       else Some (rx\<lparr>pr_oldarg := [word_le (take 8 data), word_le (take 8 (drop 8 data)), word_le (take 8 (drop 16 data))],
              pr_data := write_at 0 (drop 24 data) (pr_data rx), pr_length := len - 24\<rparr>, pr_cmd rx = CMD_ACK)
     else if pr_ng rx then Some (rx\<lparr>pr_length := 0\<rparr>, False)
     else None)"

definition receive_old_reply ::
  "(nat \<Rightarrow> 's \<Rightarrow> int \<times> bytes \<times> 's) \<Rightarrow> bytes \<Rightarrow> comms \<Rightarrow> 's \<Rightarrow> pass \<times> comms \<times> 's" where
  "receive_old_reply recv pre s io =
    (case recv (sizeof_PacketOLD - sizeof_ResponsePreamble) io of (res, bs, io) \<Rightarrow>
       if res \<noteq> PM3_SUCCESS \<or> length bs \<noteq> sizeof_PacketOLD - sizeof_ResponsePreamble then (failed_pass, s, io)
       else
         let old = pre @ bs; rx = thread_rx s;
             rx = rx\<lparr>pr_ng := False, pr_magic := 0, pr_status := 0, pr_crc := 0, pr_cmd := ucast (word_le (take 8 old) :: u64),
               pr_oldarg := [word_le (take 8 (drop 8 old)), word_le (take 8 (drop 16 old)), word_le (take 8 (drop 24 old))],
               pr_length := PM3_CMD_DATA_SIZE, pr_data := write_at 0 (take PM3_CMD_DATA_SIZE (drop 32 old)) (pr_data rx)\<rparr>
         in (quiet_pass\<lparr>ACK_received := (pr_cmd rx = CMD_ACK)\<rparr>, PacketResponseReceived rx (s\<lparr>thread_rx := rx\<rparr>), io))"

definition receive_postamble ::
  "(nat \<Rightarrow> 's \<Rightarrow> int \<times> bytes \<times> 's) \<Rightarrow> bytes \<Rightarrow> nat \<Rightarrow> bool \<Rightarrow> comms \<Rightarrow> 's \<Rightarrow> pass \<times> comms \<times> 's" where
  "receive_postamble recv raw len ack s io =
    (case recv sizeof_Postamble io of (res, post, io) \<Rightarrow>
       if res \<noteq> PM3_SUCCESS \<or> length post \<noteq> sizeof_Postamble then (failed_pass\<lparr>ACK_received := ack\<rparr>, s, io)
       else
         let rx = (thread_rx s)\<lparr>pr_crc := word_le post\<rparr>; s = s\<lparr>thread_rx := rx\<rparr>
         in if pr_crc rx = RESPONSENG_POSTAMBLE_MAGIC then (quiet_pass\<lparr>ACK_received := ack\<rparr>, PacketResponseReceived rx s, io)
            else case compute_crc CRC_14443_A raw (sizeof_ResponsePreamble + len) (comms_crc s) of
                (None, st) \<Rightarrow> (failed_pass\<lparr>ACK_received := ack\<rparr>, s\<lparr>comms_crc := st\<rparr>, io)
              | (Some (first, second), st) \<Rightarrow>
                  if shl (ucast first) 8 + ucast second \<noteq> pr_crc rx
                  then (failed_pass\<lparr>ACK_received := ack\<rparr>, s\<lparr>comms_crc := st\<rparr>, io)
                  else (quiet_pass\<lparr>ACK_received := ack\<rparr>, PacketResponseReceived rx (s\<lparr>comms_crc := st\<rparr>), io))"

definition receive_response :: "(nat \<Rightarrow> 's \<Rightarrow> int \<times> bytes \<times> 's) \<Rightarrow> comms \<Rightarrow> 's \<Rightarrow> pass \<times> comms \<times> 's" where
  "receive_response recv s io =
    (case recv sizeof_ResponsePreamble io of (res, pre, io) \<Rightarrow>
       if \<not> (res = PM3_SUCCESS \<and> length pre = sizeof_ResponsePreamble)
       then (quiet_pass\<lparr>rx_error := (length pre > 0), commfailed := (res = PM3_ENOTTY)\<rparr>, s, io)
       else
         let rx = (thread_rx s)\<lparr>pr_magic := pre_magic pre, pr_ng := pre_ng pre, pr_status := pre ! 6, pr_reason := pre ! 7,
               pr_cmd := word_le (take 2 (drop 8 pre))\<rparr>;
             s = s\<lparr>thread_rx := rx\<rparr>; len = pre_length pre
         in if pr_magic rx \<noteq> RESPONSENG_PREAMBLE_MAGIC then receive_old_reply recv pre s io
            else if len > PM3_CMD_DATA_SIZE then (failed_pass, s, io)
            else case (if len > 0 then recv len io else (PM3_SUCCESS, [], io)) of (res, data, io) \<Rightarrow>
              if res \<noteq> PM3_SUCCESS \<or> length data \<noteq> len then (failed_pass, s, io)
              else case receive_payload data len (last_command s) rx of
                None \<Rightarrow> (failed_pass, s, io)
              | Some (rx, ack) \<Rightarrow> receive_postamble recv (pre @ data) len ack (s\<lparr>thread_rx := rx\<rparr>) io)"

end
