(* ===== verification/Packet_Laws.thy ===== *)
theory Packet_Laws
  imports Packet_Client Crc16_Laws
begin

text \<open>
  Frames as values: reading the fields of what was composed, the readers of both sides as
  sources of the bytes that arrive (two interfaces with the providers \<open>usb_read_ng\<close> and
  \<open>uart_receive\<close>), and what a receiver makes of a composed frame.
\<close>

subsection \<open>Layout\<close>

lemma length_bytes_le [simp]: "length (bytes_le n w) = n"
  by (simp add: bytes_le_def)

lemma word_le_bit:
  "8 * length bs \<le> LENGTH('a) \<Longrightarrow> bit (word_le bs :: 'a::len word) i \<longleftrightarrow> i < 8 * length bs \<and> bit (bs ! (i div 8)) (i mod 8)"
proof (induction bs arbitrary: i)
  case (Cons b bs)
  have e: "word_le (b # bs) = (shl (word_le bs) 8 OR ucast b :: 'a word)" by (simp add: word_le_def)
  show ?case
  proof (cases "i < 8")
    case True
    then show ?thesis using Cons.prems unfolding e by (simp add: word_bits bit_ucast_iff)
  next
    case False
    then have "i div 8 = Suc ((i - 8) div 8)" "i mod 8 = (i - 8) mod 8" by (simp_all add: le_div_geq le_mod_geq)
    then show ?thesis using Cons.IH [of "i - 8"] Cons.prems False unfolding e
      by (auto simp: word_bits bit_ucast_iff bit_imp_le_length dest: bit_imp_le_length)
  qed
qed (simp add: word_le_def)

lemma word_le_bytes_le [simp]: "LENGTH('a) = 8 * n \<Longrightarrow> word_le (bytes_le n (w :: 'a::len word)) = w"
proof (rule bit_word_eqI)
  fix i assume l: "LENGTH('a) = 8 * n" and i: "i < LENGTH('a)"
  have "8 * (i div 8) + i mod 8 = i" by simp
  moreover have "i div 8 < n" using i l by (simp add: less_mult_imp_div_less mult.commute)
  moreover have "i mod 8 < 8 * n" using i l mod_less_eq_dividend [of i 8] by linarith
  ultimately show "bit (word_le (bytes_le n w) :: 'a word) i = bit w i"
    using i l by (simp add: word_le_bit) (simp add: bytes_le_def word_bits bit_ucast_iff)
qed

lemmas sizeofs = sizeof_CommandPreamble_def sizeof_ResponsePreamble_def sizeof_Postamble_def sizeof_PacketOLD_def

lemma length_ng_fields: "len < 32768 \<Longrightarrow> unat (take_bit 15 (length_ng len ng)) = len" "bit (length_ng len ng) 15 = ng"
proof -
  have t: "take_bit 15 (length_ng len ng) = take_bit 15 (word_of_nat len)"
    by (rule bit_word_eqI) (auto simp: length_ng_def word_bits bit_of_bool_iff)
  show "unat (take_bit 15 (length_ng len ng)) = len" if "len < 32768"
    unfolding t unsigned_take_bit_eq using that by (simp add: unat_of_nat take_bit_eq_mod)
  show "bit (length_ng len ng) 15 = ng"
    by (simp add: length_ng_def word_bits bit_of_bool_iff)
qed

lemma command_fields:
  assumes "len < 32768"
  shows "length (CommandPreamble len ng cmd) = 8" "pre_magic (CommandPreamble len ng cmd) = COMMANDNG_PREAMBLE_MAGIC"
    "pre_length (CommandPreamble len ng cmd) = len" "pre_ng (CommandPreamble len ng cmd) = ng"
    "word_le (take 2 (drop 6 (CommandPreamble len ng cmd))) = cmd"
  using assms by (simp_all add: CommandPreamble_def pre_magic_def pre_length_def pre_ng_def length_ng_fields)

lemma response_fields:
  assumes "len < 32768"
  shows "length (ResponsePreamble len ng st re cmd) = 10" "pre_magic (ResponsePreamble len ng st re cmd) = RESPONSENG_PREAMBLE_MAGIC"
    "pre_length (ResponsePreamble len ng st re cmd) = len" "pre_ng (ResponsePreamble len ng st re cmd) = ng"
    "ResponsePreamble len ng st re cmd ! 6 = st" "ResponsePreamble len ng st re cmd ! 7 = re"
    "word_le (take 2 (drop 8 (ResponsePreamble len ng st re cmd))) = cmd"
  using assms by (simp_all add: ResponsePreamble_def pre_magic_def pre_length_def pre_ng_def length_ng_fields nth_append)

subsection \<open>The device's source of bytes\<close>

text \<open>A reader delivers the bytes that arrive, as many as asked for, and keeps the rest.\<close>

locale byte_source =
  fixes read_ng :: "nat \<Rightarrow> 's \<Rightarrow> bytes \<times> 's" and src_ok :: "'s \<Rightarrow> bool" and pending :: "'s \<Rightarrow> bytes"
  assumes read_enough: "src_ok s \<Longrightarrow> n \<le> length (pending s) \<Longrightarrow>
      \<exists>s'. read_ng n s = (take n (pending s), s') \<and> src_ok s' \<and> pending s' = drop n (pending s)"
begin

lemma read_prefix:
  assumes "src_ok s" "pending s = xs @ ys" "length xs = n"
  obtains s' where "read_ng n s = (xs, s')" "src_ok s'" "pending s' = ys"
  using read_enough [OF assms(1), of n] assms(2,3) by auto

end

text \<open>What USB delivers: the local buffer, then the packets, as long as none of the polls is in vain for too long.\<close>

fun poll_bytes :: "usb_poll \<Rightarrow> bytes" where
  "poll_bytes (Packet bs) = bs"
| "poll_bytes _ = []"

definition usb_pending :: "usb_rx \<Rightarrow> bytes" where
  "usb_pending s = take (usb_read_ng_buflen s) (drop (usb_read_ng_bufoffset s) (usb_read_ng_buffer s)) @ concat (map poll_bytes (usb_polls s))"

definition usb_buffer_ok :: "usb_rx \<Rightarrow> bool" where
  "usb_buffer_ok s \<longleftrightarrow> length (usb_read_ng_buffer s) = 64 \<and> usb_read_ng_bufoffset s + usb_read_ng_buflen s \<le> 64"

definition usb_ok :: "usb_rx \<Rightarrow> bool" where
  "usb_ok s \<longleftrightarrow> usb_buffer_ok s \<and> length (usb_polls s) \<le> 0x2000 \<and>
    list_all (\<lambda>p. p \<noteq> Unplugged \<and> length (poll_bytes p) \<le> 64) (usb_polls s)"

lemma usb_loop_reads:
  assumes "length (usb_polls s) \<le> k" "list_all (\<lambda>p. p \<noteq> Unplugged \<and> length (poll_bytes p) \<le> 64) (usb_polls s)"
    "length (usb_read_ng_buffer s) = 64" "usb_read_ng_bufoffset s = 0" "usb_read_ng_buflen s = 0"
    "len \<le> length (concat (map poll_bytes (usb_polls s)))"
  shows "\<exists>s'. usb_read_loop k len s = (take len (usb_pending s), s') \<and> usb_pending s' = drop len (usb_pending s) \<and>
    usb_buffer_ok s' \<and> length (usb_polls s') \<le> length (usb_polls s) \<and>
    list_all (\<lambda>p. p \<noteq> Unplugged \<and> length (poll_bytes p) \<le> 64) (usb_polls s')"
  using assms
proof (induction k len s rule: usb_read_loop.induct)
  case (1 len s)
  then show ?case by (auto simp: usb_buffer_ok_def)
next
  case (2 k len s)
  show ?case
  proof (cases "len = 0 \<or> usb_polls s = []")
    case True
    then show ?thesis using 2(3-) by (auto simp: usb_buffer_ok_def)
  next
    case False
    then obtain p ps where ps: "usb_polls s = p # ps" by (meson neq_Nil_conv)
    show ?thesis
    proof (cases p)
      case Unplugged
      then show ?thesis using 2(4) ps by simp
    next
      case Idle
      have "\<exists>s'. usb_read_loop k len (s\<lparr>usb_polls := ps\<rparr>) = (take len (usb_pending (s\<lparr>usb_polls := ps\<rparr>)), s') \<and>
          usb_pending s' = drop len (usb_pending (s\<lparr>usb_polls := ps\<rparr>)) \<and> usb_buffer_ok s' \<and>
          length (usb_polls s') \<le> length (usb_polls (s\<lparr>usb_polls := ps\<rparr>)) \<and>
          list_all (\<lambda>p. p \<noteq> Unplugged \<and> length (poll_bytes p) \<le> 64) (usb_polls s')"
        by (rule 2(1)) (use 2(3-) ps Idle False in simp_all)
      then show ?thesis using 2(3-) ps Idle False by (auto simp: usb_pending_def)
    next
      case (Packet bs)
      let ?s = "s\<lparr>usb_read_ng_buffer := write_at 0 (drop (min (length bs) len) bs) (usb_read_ng_buffer s),
        usb_read_ng_buflen := length bs - min (length bs) len, usb_polls := ps\<rparr>"
      have bs: "length bs \<le> 64" using 2(4) ps Packet by simp
      show ?thesis
      proof (cases "len \<le> length bs")
        case True
        have "usb_read_loop k 0 ?s = ([], ?s)" by (cases k) simp_all
        moreover have "take (length bs - len) (write_at 0 (drop len bs) (usb_read_ng_buffer s)) = drop len bs"
          using bs 2(5) by (simp add: write_at_def)
        ultimately show ?thesis using 2(3-) ps Packet False True bs
          by (auto simp: usb_pending_def min_def usb_buffer_ok_def length_write_at)
      next
        case l: False
        then have d: "drop (min (length bs) len) bs = []" by simp
        have "\<exists>s'. usb_read_loop k (len - min (length bs) len) ?s = (take (len - min (length bs) len) (usb_pending ?s), s') \<and>
          usb_pending s' = drop (len - min (length bs) len) (usb_pending ?s) \<and> usb_buffer_ok s' \<and>
          length (usb_polls s') \<le> length (usb_polls ?s) \<and>
          list_all (\<lambda>p. p \<noteq> Unplugged \<and> length (poll_bytes p) \<le> 64) (usb_polls s')"
          by (rule 2(2) [of "Packet bs" ps bs _ ?s]) (use 2(3-) ps Packet False l bs in \<open>simp_all add: d write_at_def min_def\<close>)
        then show ?thesis using 2(3-) ps Packet False l by (auto simp: usb_pending_def min_def write_at_def)
      qed
    qed
  qed
qed

lemma usb_read_ng_enough:
  assumes "usb_ok s" "n \<le> length (usb_pending s)"
  shows "\<exists>s'. usb_read_ng n s = (take n (usb_pending s), s') \<and> usb_ok s' \<and> usb_pending s' = drop n (usb_pending s)"
proof -
  let ?b = "usb_read_ng_buffer s" and ?o = "usb_read_ng_bufoffset s" and ?l = "usb_read_ng_buflen s"
  have ok: "length ?b = 64" "?o + ?l \<le> 64" "length (usb_polls s) \<le> 0x2000"
      "list_all (\<lambda>p. p \<noteq> Unplugged \<and> length (poll_bytes p) \<le> 64) (usb_polls s)"
    using assms(1) by (simp_all add: usb_ok_def usb_buffer_ok_def)
  have local: "length (take ?l (drop ?o ?b)) = ?l" using ok by simp
  show ?thesis
  proof (cases "n \<le> ?l")
    case True
    then show ?thesis using ok local
      by (auto simp: usb_read_ng_def Let_def usb_pending_def usb_ok_def usb_buffer_ok_def drop_take add.commute)
  next
    case False
    let ?s = "s\<lparr>usb_read_ng_buflen := 0, usb_read_ng_bufoffset := 0\<rparr>"
    have p: "usb_pending ?s = concat (map poll_bytes (usb_polls s))" by (simp add: usb_pending_def)
    have enough: "n - ?l \<le> length (concat (map poll_bytes (usb_polls s)))"
      using assms(2) local unfolding usb_pending_def length_append by linarith
    obtain s' where s': "usb_read_loop (0x1FFF + 1) (n - ?l) ?s = (take (n - ?l) (usb_pending ?s), s')"
        "usb_pending s' = drop (n - ?l) (usb_pending ?s)" "usb_buffer_ok s'" "length (usb_polls s') \<le> length (usb_polls ?s)"
        "list_all (\<lambda>p. p \<noteq> Unplugged \<and> length (poll_bytes p) \<le> 64) (usb_polls s')"
      using usb_loop_reads [of ?s "0x1FFF + 1" "n - ?l"] ok enough by auto
    have "usb_pending s = take ?l (drop ?o ?b) @ usb_pending ?s" by (simp add: usb_pending_def)
    then show ?thesis using s' ok local False unfolding usb_read_ng_def Let_def
      by (auto simp: usb_ok_def)
  qed
qed

interpretation usb: byte_source usb_read_ng usb_ok usb_pending
  by unfold_locales (rule usb_read_ng_enough)

subsection \<open>The client's source of bytes\<close>

locale serial_port =
  fixes recv :: "nat \<Rightarrow> 's \<Rightarrow> int \<times> bytes \<times> 's" and src_ok :: "'s \<Rightarrow> bool" and pending :: "'s \<Rightarrow> bytes"
  assumes recv_enough: "src_ok s \<Longrightarrow> 0 < n \<Longrightarrow> n \<le> length (pending s) \<Longrightarrow>
      \<exists>s'. recv n s = (PM3_SUCCESS, take n (pending s), s') \<and> src_ok s' \<and> pending s' = drop n (pending s)"
begin

lemma recv_prefix:
  assumes "src_ok s" "pending s = xs @ ys" "length xs = n" "0 < n"
  obtains s' where "recv n s = (PM3_SUCCESS, xs, s')" "src_ok s'" "pending s' = ys"
  using recv_enough [OF assms(1,4)] assms(2,3) by auto

end

fun event_bytes :: "uart_event \<Rightarrow> bytes" where
  "event_bytes (Arrived bs) = bs"
| "event_bytes _ = []"

definition uart_pending :: "uart \<Rightarrow> bytes" where
  "uart_pending u = uart_queue u @ concat (map event_bytes (uart_events u))"

text \<open>No errors, and bytes arrive in every wait.\<close>

definition uart_ok :: "uart \<Rightarrow> bool" where
  "uart_ok u \<longleftrightarrow> list_all (\<lambda>e. event_bytes e \<noteq> []) (uart_events u)"

lemma uart_loop_reads:
  assumes "list_all (\<lambda>e. event_bytes e \<noteq> []) es" "length got < n" "n - length got \<le> length (uart_queue u @ concat (map event_bytes es))"
  shows "\<exists>u'. uart_loop es n got u = (PM3_SUCCESS, got @ take (n - length got) (uart_queue u @ concat (map event_bytes es)), u') \<and>
    uart_ok u' \<and> uart_pending u' = drop (n - length got) (uart_queue u @ concat (map event_bytes es))"
  using assms
proof (induction es arbitrary: got u)
  case Nil
  then have "uart_queue u \<noteq> []" by auto
  then show ?case by (auto simp: Let_def uart_ok_def uart_pending_def)
next
  case (Cons e es)
  obtain bs where e: "e = Arrived bs" and bs: "bs \<noteq> []" using Cons.prems(1) by (cases e) auto
  let ?q = "uart_queue u @ bs" and ?k = "n - length got"
  show ?case
  proof (cases "?k \<le> length ?q")
    case True
    then show ?thesis using Cons.prems bs
      by (auto simp: e Let_def min_def uart_ok_def uart_pending_def)
  next
    case False
    let ?u = "u\<lparr>uart_queue := [], rx_empty_counter := 0\<rparr>"
    have "\<exists>u'. uart_loop es n (got @ ?q) ?u = (PM3_SUCCESS, (got @ ?q) @ take (n - length (got @ ?q)) (uart_queue ?u @ concat (map event_bytes es)), u') \<and>
        uart_ok u' \<and> uart_pending u' = drop (n - length (got @ ?q)) (uart_queue ?u @ concat (map event_bytes es))"
      by (rule Cons.IH) (use Cons.prems False e in auto)
    then show ?thesis using False bs by (auto simp: e Let_def min_def add.assoc)
  qed
qed

interpretation uart: serial_port uart_receive uart_ok uart_pending
proof
  fix s n assume "uart_ok s" "0 < n" "n \<le> length (uart_pending s)"
  then show "\<exists>s'. uart_receive n s = (PM3_SUCCESS, take n (uart_pending s), s') \<and> uart_ok s' \<and> uart_pending s' = drop n (uart_pending s)"
    using uart_loop_reads [of "uart_events s" "[]" n s] by (simp add: uart_receive_def uart_ok_def uart_pending_def)
qed

end
