(* ===== verification/Packet_Claims.thy ===== *)
theory Packet_Claims
  imports Packet_Laws
begin

text \<open>
  The link between client and device: commands and replies arrive as they were sent, corrupted
  payloads are refused, and the client's ring buffer is a queue until it is full.
\<close>

subsection \<open>Checksums\<close>

definition frame_crc :: "bytes \<Rightarrow> u16" where
  "frame_crc bs = (let (first, second) = write_crc (type_out CRC_14443_A (type_register CRC_14443_A bs)) in shl (ucast first) 8 OR ucast second)"

lemma shl_plus_or: "shl (ucast (a :: u8)) 8 + ucast (b :: u8) = (shl (ucast a) 8 OR ucast b :: u16)"
  by (rule disjunctive_add) (auto simp: word_bits bit_ucast_iff dest: bit_imp_le_length)

lemma crc_of_frame:
  assumes "crc_inv st" "take n bs = frame" "0 < n"
  obtains first second where "compute_crc CRC_14443_A bs n st = (Some (first, second), init_table CRC_14443_A st)"
    "shl (ucast first) 8 OR ucast second = frame_crc frame" "shl (ucast first) 8 + ucast second = frame_crc frame"
proof -
  obtain f s where w: "write_crc (type_out CRC_14443_A (type_register CRC_14443_A frame)) = (f, s)" by fastforce
  have "compute_crc CRC_14443_A bs n st = (Some (f, s), init_table CRC_14443_A st)"
    using compute_crc_type [OF assms(1) _ assms(3), of CRC_14443_A bs] assms(2) w by (simp add: supported_def)
  then show thesis by (rule that) (simp_all add: frame_crc_def w shl_plus_or)
qed

lemma write_crc_inj:
  assumes "(let (f, s) = write_crc x in shl (ucast f) 8 OR ucast s :: u16) = (let (f, s) = write_crc y in shl (ucast f) 8 OR ucast s)"
  shows "x = y"
proof -
  have b: "bit (let (f, s) = write_crc x in shl (ucast f) 8 OR ucast s :: u16) n \<longleftrightarrow> n < 16 \<and> bit x (if n < 8 then n + 8 else n - 8)" for x n
  proof -
    have ff: "(0xFF :: u16) = mask 8" by (simp add: mask_eq_exp_minus_1)
    show ?thesis unfolding write_crc_def prod.case Let_def ff by (auto simp: word_bits bit_ucast_iff add.commute)
  qed
  show ?thesis
  proof (rule bit_word_eqI)
    fix n assume n: "n < LENGTH(16)"
    show "bit x n = bit y n"
    proof (cases "n < 8")
      case True
      then show ?thesis using b [of x "n + 8"] b [of y "n + 8"] assms by simp
    next
      case False
      then show ?thesis using b [of x "n - 8"] b [of y "n - 8"] n assms by (simp split: if_splits)
    qed
  qed
qed

lemma frame_crc_byte: "b \<noteq> c \<Longrightarrow> frame_crc (xs @ b # ys) \<noteq> frame_crc (xs @ c # ys)"
proof
  assume a: "b \<noteq> c" "frame_crc (xs @ b # ys) = frame_crc (xs @ c # ys)"
  from a(2) have "type_out CRC_14443_A (type_register CRC_14443_A (xs @ b # ys)) = type_out CRC_14443_A (type_register CRC_14443_A (xs @ c # ys))"
    unfolding frame_crc_def by (rule write_crc_inj)
  then have "reflect16 (type_register CRC_14443_A (xs @ b # ys)) = reflect16 (type_register CRC_14443_A (xs @ c # ys))"
    by (simp only: type_out_def type_params) simp
  then have "type_register CRC_14443_A (xs @ b # ys) = type_register CRC_14443_A (xs @ c # ys)"
    by (metis reflect16_reflect16)
  then show False unfolding type_register_def using crc16_type.single_byte_detected [OF a(1)] by blast
qed

subsection \<open>The device receives\<close>

text \<open>What a received packet says of a frame with the payload \<open>data\<close>.\<close>

definition command_of :: "u16 \<Rightarrow> bytes \<Rightarrow> bool \<Rightarrow> PacketCommandNG \<Rightarrow> bool" where
  "command_of cmd data ng rx \<longleftrightarrow> pc_cmd rx = cmd \<and> pc_ng rx = ng \<and>
    (if ng then pc_length rx = length data \<and> take (length data) (pc_data rx) = data
     else pc_oldarg rx = [word_le (take 8 data), word_le (take 8 (drop 8 data)), word_le (take 8 (drop 16 data))] \<and>
       pc_length rx = length data - 24 \<and> take (length data - 24) (pc_data rx) = drop 24 data)"

lemma store_payload_command:
  "ng \<or> 24 \<le> length data \<Longrightarrow> \<exists>rx2. store_payload data (length data) (rx\<lparr>pc_magic := m, pc_ng := ng, pc_cmd := cmd\<rparr>) = Some rx2 \<and>
    command_of cmd data ng (rx2\<lparr>pc_crc := crc\<rparr>)"
  by (cases ng) (simp_all add: store_payload_def command_of_def write_at_def)

text \<open>The command of an old frame: its first bytes are no magic number, and it is read back.\<close>

lemma old_magic: "bit m 16 \<Longrightarrow> pre_magic (bytes_le 8 (ucast (cmd :: u16) :: u64)) \<noteq> m"
proof
  assume "bit m 16" "pre_magic (bytes_le 8 (ucast cmd :: u64)) = m"
  then have "bit (word_le (take 4 (bytes_le 8 (ucast cmd :: u64))) :: u32) 16" by (simp add: pre_magic_def)
  then have "bit (take 4 (bytes_le 8 (ucast cmd :: u64)) ! 2) 0" by (simp add: word_le_bit)
  then show False by (simp add: bytes_le_def bit_ucast_iff bit_drop_bit_eq del: bit_0)
qed

lemma cmd_of_old: "ucast (ucast (cmd :: u16) AND 0xFFFF :: u64) = cmd" "ucast (ucast cmd :: u64) = cmd"
proof -
  have ff: "(0xFFFF :: u64) = mask 16" by (simp add: mask_eq_exp_minus_1)
  show "ucast (ucast cmd AND 0xFFFF :: u64) = cmd" "ucast (ucast cmd :: u64) = cmd"
    unfolding ff by (rule bit_word_eqI; simp add: word_bits bit_ucast_iff)+
qed

lemma ucast_bytes_of: "(ucast (shr (ucast (cmd :: u16) :: u64) n) :: u8) = ucast (shr cmd n)"
  by (rule bit_word_eqI) (auto simp: word_bits bit_ucast_iff dest: bit_imp_le_length)

context byte_source
begin

lemma receive_frame:
  assumes "src_ok s" "pending s = CommandPreamble (length data) ng cmd @ data @ bytes_le 2 crc @ rest" "length data \<le> 512"
    "ng \<or> 24 \<le> length data" "crc_inv (dev_crc d)"
  shows "\<exists>rx' d' s'. receive_ng_internal read_ng usb fpc rx d s =
      (if crc = COMMANDNG_POSTAMBLE_MAGIC \<or> crc = frame_crc (CommandPreamble (length data) ng cmd @ data) then PM3_SUCCESS else PM3_EIO,
       rx', d', s') \<and> src_ok s' \<and> pending s' = rest \<and> command_of cmd data ng rx' \<and>
      (crc = COMMANDNG_POSTAMBLE_MAGIC \<or> crc = frame_crc (CommandPreamble (length data) ng cmd @ data) \<longrightarrow>
        g_reply_via_usb d' = usb \<and> g_reply_via_fpc d' = fpc)"
proof -
  let ?pre = "CommandPreamble (length data) ng cmd"
  note f = command_fields [of "length data" ng cmd]
  have l: "length data < 32768" using assms(3) by simp
  obtain s1 where s1: "read_ng sizeof_CommandPreamble s = (?pre, s1)" "src_ok s1" "pending s1 = data @ bytes_le 2 crc @ rest"
    using read_prefix [OF assms(1,2)] f(1) [OF l] by (auto simp: sizeofs)
  obtain s2 where s2: "read_ng (length data) s1 = (data, s2)" "src_ok s2" "pending s2 = bytes_le 2 crc @ rest"
    using read_prefix [OF s1(2,3) refl] .
  obtain s3 where s3: "read_ng sizeof_Postamble s2 = (bytes_le 2 crc, s3)" "src_ok s3" "pending s3 = rest"
    using read_prefix [OF s2(2,3)] by (auto simp: sizeofs)
  let ?rx = "rx\<lparr>pc_magic := COMMANDNG_PREAMBLE_MAGIC, pc_ng := ng, pc_cmd := cmd\<rparr>"
  obtain rx2 where rx2: "store_payload data (length data) ?rx = Some rx2" "command_of cmd data ng (rx2\<lparr>pc_crc := crc\<rparr>)"
    using assms(4) store_payload_command [of ng data cmd] by blast
  obtain a b where c: "compute_crc CRC_14443_A (?pre @ data) (sizeof_CommandPreamble + length data) (dev_crc d) =
      (Some (a, b), init_table CRC_14443_A (dev_crc d))" "shl (ucast a) 8 + ucast b = frame_crc (?pre @ data)"
    by (rule crc_of_frame [OF assms(5), of "sizeof_CommandPreamble + length data" "?pre @ data" "?pre @ data"])
      (use f(1) [OF l] that in \<open>simp_all add: sizeofs\<close>)
  have le: "length data \<le> PM3_CMD_DATA_SIZE" using assms(3) by (simp add: PM3_CMD_DATA_SIZE_def)
  have p: "length ?pre \<noteq> 0" "length ?pre = sizeof_CommandPreamble" using f(1) [OF l] by (simp_all add: sizeofs)
  have post: "length (bytes_le 2 crc) = sizeof_Postamble" "word_le (bytes_le 2 crc) = crc" by (simp_all add: sizeofs)
  have e: "receive_ng_internal read_ng usb fpc rx d s =
      (if crc = COMMANDNG_POSTAMBLE_MAGIC then (PM3_SUCCESS, rx2\<lparr>pc_crc := crc\<rparr>, d\<lparr>g_reply_via_usb := usb, g_reply_via_fpc := fpc\<rparr>, s3)
       else if frame_crc (?pre @ data) \<noteq> crc then (PM3_EIO, rx2\<lparr>pc_crc := crc\<rparr>, d\<lparr>dev_crc := init_table CRC_14443_A (dev_crc d)\<rparr>, s3)
       else (PM3_SUCCESS, rx2\<lparr>pc_crc := crc\<rparr>,
         d\<lparr>dev_crc := init_table CRC_14443_A (dev_crc d), g_reply_via_usb := usb, g_reply_via_fpc := fpc\<rparr>, s3))"
    using p le rx2(1)
    by (simp add: receive_ng_internal_def s1(1) s2(1) s3(1) [unfolded sizeof_Postamble_def] sizeof_Postamble_def Let_def c f(2-5) [OF l] del: length_0_conv)
  show ?thesis
  proof (cases "crc = COMMANDNG_POSTAMBLE_MAGIC")
    case True
    then show ?thesis using e rx2(2) s3(2,3) by simp
  next
    case False
    then show ?thesis using e rx2(2) s3(2,3) by (cases "frame_crc (?pre @ data) = crc") simp_all
  qed
qed

lemma receive_old_frame:
  assumes "src_ok s" "length asBytes = 512"
    "pending s = bytes_le 8 (ucast cmd :: u64) @ bytes_le 8 a0 @ bytes_le 8 a1 @ bytes_le 8 a2 @ asBytes @ rest"
  shows "\<exists>rx' d' s'. receive_ng_internal read_ng usb fpc rx d s = (PM3_SUCCESS, rx', d', s') \<and> src_ok s' \<and> pending s' = rest \<and>
    pc_cmd rx' = cmd \<and> \<not> pc_ng rx' \<and> pc_oldarg rx' = [a0, a1, a2] \<and> pc_length rx' = 512 \<and> take 512 (pc_data rx') = asBytes \<and>
    g_reply_via_usb d' = usb \<and> g_reply_via_fpc d' = fpc"
proof -
  let ?pre = "bytes_le 8 (ucast cmd :: u64)" and ?tail = "bytes_le 8 a0 @ bytes_le 8 a1 @ bytes_le 8 a2 @ asBytes"
  obtain s1 where s1: "read_ng sizeof_CommandPreamble s = (?pre, s1)" "src_ok s1" "pending s1 = ?tail @ rest"
    using read_prefix [OF assms(1,3)] by (auto simp: sizeofs)
  obtain s2 where s2: "read_ng (sizeof_PacketOLD - sizeof_CommandPreamble) s1 = (?tail, s2)" "src_ok s2" "pending s2 = rest"
    using read_prefix [OF s1(2,3)] assms(2) by (auto simp: sizeofs)
  have m: "pre_magic ?pre \<noteq> COMMANDNG_PREAMBLE_MAGIC"
    using old_magic by (simp add: COMMANDNG_PREAMBLE_MAGIC_def)
  have f: "take 8 (?pre @ ?tail) = ?pre" "take 8 (drop 8 (?pre @ ?tail)) = bytes_le 8 a0"
    "take 8 (drop 16 (?pre @ ?tail)) = bytes_le 8 a1" "take 8 (drop 24 (?pre @ ?tail)) = bytes_le 8 a2"
    "drop 32 (?pre @ ?tail) = asBytes" "length ?tail = sizeof_PacketOLD - sizeof_CommandPreamble" "length ?pre = sizeof_CommandPreamble"
    using assms(2) by (simp_all add: sizeofs)
  have w: "take 512 (write_at 0 (take 512 asBytes) xs) = asBytes" for xs
    using assms(2) by (simp add: write_at_def)
  show ?thesis
    unfolding receive_ng_internal_def s1(1) prod.case Let_def receive_old_def s2(1) f
    using m s2(2,3) w by (simp add: sizeofs PM3_CMD_DATA_SIZE_def cmd_of_old)
qed

end

subsection \<open>The client sends\<close>

definition client_checksums :: "comms \<Rightarrow> bool" where
  "client_checksums s \<longleftrightarrow> (send_via_fpc_usart s \<and> send_with_crc_on_fpc s) \<or> (\<not> send_via_fpc_usart s \<and> send_with_crc_on_usb s)"

lemma SendCommandNG_frame:
  assumes "SendCommandNG_internal cmd (Some data) len ng s = Some s1" "pm3_present s" "\<not> txBuffer_pending s"
    "length (txBufferNG s) = 522" "crc_inv (comms_crc s)" "len \<le> 512" "len \<le> length data"
  defines "pre \<equiv> CommandPreamble len ng cmd"
  shows "take (txBufferNGLen s1) (txBufferNG s1) =
      pre @ take len data @ bytes_le 2 (if client_checksums s then frame_crc (pre @ take len data) else COMMANDNG_POSTAMBLE_MAGIC)"
    and "txBuffer_pending s1" "txBufferNGLen s1 \<noteq> 0" "word_le (take 2 (drop 6 (txBufferNG s1))) = cmd"
proof -
  have l: "len < 32768" using assms(6) by simp
  note f = command_fields [OF l, of ng cmd, folded pre_def]
  have sz: "sizeof_CommandPreamble = 8" "sizeof_Postamble = 2" by (simp_all add: sizeofs)
  let ?tx = "pre @ take len data @ drop (8 + len) (txBufferNG s)"
  have tx: "write_at 8 (take len data) (write_at 0 pre (txBufferNG s)) = ?tx"
    using f(1) assms(4,6,7) by (simp add: write_at_def min_def add.commute)
  have fr: "take (8 + len) ?tx = pre @ take len data" using f(1) assms(7) by simp
  obtain a b where c: "compute_crc CRC_14443_A ?tx (8 + len) (comms_crc s) = (Some (a, b), init_table CRC_14443_A (comms_crc s))"
      "shl (ucast a) 8 + ucast b = frame_crc (pre @ take len data)"
    by (rule crc_of_frame [OF assms(5) fr]) (use that in simp_all)
  have le: "len \<le> PM3_CMD_DATA_SIZE" using assms(6) by (simp add: PM3_CMD_DATA_SIZE_def)
  let ?crc = "if client_checksums s then frame_crc (pre @ take len data) else COMMANDNG_POSTAMBLE_MAGIC"
  have w: "write_at (8 + len) (bytes_le 2 crc) ?tx = pre @ take len data @ bytes_le 2 crc @ drop (10 + len) (txBufferNG s)" for crc :: u16
    using f(1) assms(4,6,7) by (simp add: write_at_def min_def add.commute)
  have e: "SendCommandNG_internal cmd (Some data) len ng s =
      (case (if client_checksums s then (frame_crc (pre @ take len data), init_table CRC_14443_A (comms_crc s))
             else (COMMANDNG_POSTAMBLE_MAGIC, comms_crc s)) of
        (crc, st) \<Rightarrow> Some (s\<lparr>txBufferNG := write_at (8 + len) (bytes_le 2 crc) ?tx, comms_crc := st, txBufferNGLen := 8 + len + 2,
          txBuffer_pending := True\<rparr>))"
    using assms(2,3) le unfolding SendCommandNG_internal_def client_checksums_def Let_def sz pre_def [symmetric] option.case tx c prod.case
    by simp
  have s1: "txBufferNG s1 = pre @ take len data @ bytes_le 2 ?crc @ drop (10 + len) (txBufferNG s)" "txBufferNGLen s1 = 8 + len + 2"
      "txBuffer_pending s1"
    using assms(1) unfolding e w [symmetric] by (cases "client_checksums s"; auto)+
  show "take (txBufferNGLen s1) (txBufferNG s1) = pre @ take len data @ bytes_le 2 ?crc"
    unfolding s1(1,2) using f(1) assms(7) by simp
  show "txBuffer_pending s1" "txBufferNGLen s1 \<noteq> 0" by (simp_all add: s1)
  have "take 2 (drop 6 (txBufferNG s1)) = take 2 (drop 6 pre)" unfolding s1(1) using f(1) by simp
  then show "word_le (take 2 (drop 6 (txBufferNG s1))) = cmd" using f(5) by simp
qed

text \<open>A wire that takes all that is sent.\<close>

definition to_wire :: "bytes \<Rightarrow> bytes \<Rightarrow> int \<times> bytes" where
  "to_wire bs out = (PM3_SUCCESS, out @ bs)"

lemma transmit_frame:
  assumes "SendCommandNG_internal cmd (Some data) len ng s = Some s1" "pm3_present s" "\<not> txBuffer_pending s"
    "length (txBufferNG s) = 522" "crc_inv (comms_crc s)" "len \<le> 512" "len \<le> length data" "transmit to_wire s1 [] = (failed, s2, frame)"
  shows "\<not> failed \<and> \<not> txBuffer_pending s2 \<and> last_command s2 = cmd \<and>
    frame = CommandPreamble len ng cmd @ take len data @
      bytes_le 2 (if client_checksums s then frame_crc (CommandPreamble len ng cmd @ take len data) else COMMANDNG_POSTAMBLE_MAGIC)"
  using assms(8) SendCommandNG_frame [OF assms(1-7)] unfolding transmit_def to_wire_def
  by (auto simp: PM3_SUCCESS_def PM3_EIO_def)

lemma command_arrives:
  assumes "SendCommandNG_internal cmd (Some data) len ng s = Some s1" "pm3_present s" "\<not> txBuffer_pending s"
    "length (txBufferNG s) = 522" "crc_inv (comms_crc s)" "len \<le> 512" "len \<le> length data" "transmit to_wire s1 [] = (failed, s2, frame)"
    and "ng \<or> 24 \<le> len" "usb_ok u" "usb_pending u = frame @ rest" "crc_inv (dev_crc d)"
  shows "\<exists>rx' d' u'. receive_ng_internal usb_read_ng True False rx d u = (PM3_SUCCESS, rx', d', u') \<and>
      command_of cmd (take len data) ng rx' \<and> g_reply_via_usb d' \<and> \<not> g_reply_via_fpc d' \<and> usb_ok u' \<and> usb_pending u' = rest"
proof -
  have l: "length (take len data) = len" using assms(7) by simp
  let ?crc = "if client_checksums s then frame_crc (CommandPreamble len ng cmd @ take len data) else COMMANDNG_POSTAMBLE_MAGIC"
  have p: "usb_pending u = CommandPreamble (length (take len data)) ng cmd @ take len data @ bytes_le 2 ?crc @ rest"
    "length (take len data) \<le> 512" "ng \<or> 24 \<le> length (take len data)"
    using transmit_frame [OF assms(1-8)] assms(6,9,11) unfolding l by simp_all
  show ?thesis
    using usb.receive_frame [OF assms(10) p assms(12), of True False rx] unfolding l by (cases "client_checksums s") auto
qed

text \<open>The three kinds of frames, those with arguments with their arguments, and what the client calls for each.\<close>

datatype frame_kind = NG | MIX u64 u64 u64 | OLD u64 u64 u64

definition send_command :: "frame_kind \<Rightarrow> bytes \<Rightarrow> u16 \<Rightarrow> bytes option \<Rightarrow> nat \<Rightarrow> comms \<Rightarrow> comms option" where
  "send_command kind stack cmd data len s =
    (case kind of
       NG \<Rightarrow> SendCommandNG cmd data len s
     | MIX a0 a1 a2 \<Rightarrow> SendCommandMIX stack (ucast cmd) a0 a1 a2 data len s
     | OLD a0 a1 a2 \<Rightarrow> SendCommandOLD (ucast cmd) a0 a1 a2 data len s)"

text \<open>
  The largest payload of each kind, and what is sent as payload: the data, or without data
  what the buffer for it holds (zeros in an old frame, whose buffer is cleared).
\<close>

definition payload_max :: "frame_kind \<Rightarrow> nat" where
  "payload_max kind = (case kind of MIX _ _ _ \<Rightarrow> 488 | _ \<Rightarrow> 512)"

definition payload_from :: "frame_kind \<Rightarrow> bytes \<Rightarrow> bytes \<Rightarrow> bytes option \<Rightarrow> nat \<Rightarrow> bytes" where
  "payload_from kind ng_buffer mix_buffer data len =
    (let src = (case data of Some data \<Rightarrow> data
                | None \<Rightarrow> (case kind of NG \<Rightarrow> ng_buffer | MIX _ _ _ \<Rightarrow> mix_buffer | OLD _ _ _ \<Rightarrow> replicate len 0))
     in case kind of OLD _ _ _ \<Rightarrow> take len src @ replicate (512 - len) 0 | _ \<Rightarrow> take len src)"

lemma SendCommandNG_NULL:
  assumes "length (txBufferNG s) = 522" "len \<le> 512"
  shows "SendCommandNG_internal cmd None len ng s = SendCommandNG_internal cmd (Some (drop 8 (txBufferNG s))) len ng s"
proof -
  have "length (CommandPreamble len ng cmd) = 8" using assms(2) command_fields(1) [of len ng cmd] by simp
  then have h: "write_at sizeof_CommandPreamble (take len (drop 8 (txBufferNG s))) (write_at 0 (CommandPreamble len ng cmd) (txBufferNG s)) =
      write_at 0 (CommandPreamble len ng cmd) (txBufferNG s)"
    using assms by (simp add: write_at_def sizeofs min_def) (metis append_take_drop_id drop_drop)
  show ?thesis unfolding SendCommandNG_internal_def Let_def option.case h ..
qed

lemma SendCommandMIX_NULL: "SendCommandMIX stack cmd a0 a1 a2 None len s = SendCommandMIX stack cmd a0 a1 a2 (Some stack) len s"
  by (simp add: SendCommandMIX_def)

lemma old_command_arrives:
  assumes "SendCommandOLD (ucast cmd) a0 a1 a2 data len s = Some s1" "pm3_present s" "\<not> txBuffer_pending s" "txBufferNGLen s = 0"
    "len \<le> 512" "\<And>bs. data = Some bs \<Longrightarrow> len \<le> length bs" "transmit to_wire s1 [] = (failed, s2, frame)"
    "usb_ok u" "usb_pending u = frame @ rest"
  shows "\<not> failed \<and> \<not> txBuffer_pending s2 \<and> last_command s2 = cmd \<and>
    (\<exists>rx' d' u'. receive_ng_internal usb_read_ng True False rx d u = (PM3_SUCCESS, rx', d', u') \<and>
      pc_cmd rx' = cmd \<and> \<not> pc_ng rx' \<and> pc_oldarg rx' = [a0, a1, a2] \<and> pc_length rx' = 512 \<and>
      take 512 (pc_data rx') = (case data of Some bs \<Rightarrow> take len bs @ replicate (512 - len) 0 | None \<Rightarrow> replicate 512 0) \<and>
      g_reply_via_usb d' \<and> \<not> g_reply_via_fpc d' \<and> usb_ok u' \<and> usb_pending u' = rest)"
proof -
  let ?d = "case data of Some bs \<Rightarrow> take len bs @ replicate (512 - len) 0 | None \<Rightarrow> replicate 512 0"
  have l: "length ?d = 512" using assms(5,6) by (cases data) auto
  have d: "(case data of Some bs \<Rightarrow> write_at 0 (take len bs) (replicate 512 0) | None \<Rightarrow> replicate 512 0) = ?d"
    using assms(5,6) by (cases data) (auto simp: write_at_def min_def)
  have "SendCommandOLD (ucast cmd) a0 a1 a2 data len s =
      Some (s\<lparr>txBuffer := bytes_le 8 (ucast cmd :: u64) @ bytes_le 8 a0 @ bytes_le 8 a1 @ bytes_le 8 a2 @ ?d, txBuffer_pending := True\<rparr>)"
    using assms(2,3,5) unfolding SendCommandOLD_def PM3_CMD_DATA_SIZE_def Let_def d by simp
  then have s1: "txBuffer s1 = bytes_le 8 (ucast cmd :: u64) @ bytes_le 8 a0 @ bytes_le 8 a1 @ bytes_le 8 a2 @ ?d"
    "txBuffer_pending s1" "txBufferNGLen s1 = 0"
    using assms(1,4) by auto
  have "take 2 (txBuffer s1) = bytes_le 2 cmd"
    unfolding s1(1) by (simp add: bytes_le_def ucast_bytes_of upt_rec)
  then have t: "frame = txBuffer s1" "\<not> failed" "\<not> txBuffer_pending s2" "last_command s2 = cmd"
    using assms(7) s1(2,3) by (auto simp: transmit_def to_wire_def PM3_SUCCESS_def PM3_EIO_def)
  have "usb_pending u = bytes_le 8 (ucast cmd :: u64) @ bytes_le 8 a0 @ bytes_le 8 a1 @ bytes_le 8 a2 @ ?d @ rest"
    using assms(9) unfolding t(1) s1(1) by simp
  from usb.receive_old_frame [OF assms(8) l this, of True False rx d] show ?thesis using t(2-4) by auto
qed

text \<open>C30: a command that the client sends arrives: for a frame of each of the three kinds, with a payload
  of at most 512 bytes (488 with arguments in a MIX frame) or none, the frame that the communication thread of a
  client with nothing else to send writes, cut into USB packets in any way and followed by anything, makes
  \<open>receive_ng_internal\<close> on the device return the same command, payload and arguments, with or without
  checksums; an old frame always carries 512 bytes, padded with zeros. Without data (\<open>NULL\<close>) and a length that is not 0
  the device gets what the client's buffer held. The device selects USB for the reply and leaves exactly the bytes behind the frame.\<close>

theorem command_delivered:
  assumes "send_command kind stack cmd data len s = Some s1"
    and "pm3_present s" "\<not> txBuffer_pending s" "txBufferNGLen s = 0" "length (txBufferNG s) = 522" "crc_reachable (comms_crc s)"
    and "len \<le> payload_max kind" "case data of Some bs \<Rightarrow> len \<le> length bs | None \<Rightarrow> len \<le> length stack"
    and "transmit to_wire s1 [] = (failed, s2, frame)"
    and "usb_ok u" "usb_pending u = frame @ rest" "crc_reachable (dev_crc d)"
  shows "\<not> failed \<and> \<not> txBuffer_pending s2 \<and> last_command s2 = cmd \<and>
    (\<exists>rx' d' u'. receive_ng_internal usb_read_ng True False rx d u = (PM3_SUCCESS, rx', d', u') \<and>
      pc_cmd rx' = cmd \<and> pc_ng rx' = (kind = NG) \<and> pc_length rx' = (case kind of OLD _ _ _ \<Rightarrow> 512 | _ \<Rightarrow> len) \<and>
      take (pc_length rx') (pc_data rx') = payload_from kind (drop 8 (txBufferNG s)) stack data len \<and>
      (case kind of NG \<Rightarrow> True | MIX a0 a1 a2 \<Rightarrow> pc_oldarg rx' = [a0, a1, a2] | OLD a0 a1 a2 \<Rightarrow> pc_oldarg rx' = [a0, a1, a2]) \<and>
      g_reply_via_usb d' \<and> \<not> g_reply_via_fpc d' \<and> usb_ok u' \<and> usb_pending u' = rest)"
proof (cases kind)
  case NG
  let ?data = "case data of Some bs \<Rightarrow> bs | None \<Rightarrow> drop 8 (txBufferNG s)"
  have l: "len \<le> 512" "len \<le> length ?data" using assms(5,7,8) NG by (auto simp: payload_max_def split: option.splits)
  have p: "SendCommandNG_internal cmd (Some ?data) len True s = Some s1"
    using assms(1) NG SendCommandNG_NULL [OF assms(5) l(1), of cmd True] by (auto simp: send_command_def SendCommandNG_def split: option.splits)
  note i = p(1) assms(2,3,5) crc_reachable_inv [OF assms(6)] l assms(9)
  show ?thesis
    using transmit_frame [OF i] command_arrives [OF i _ assms(10,11) crc_reachable_inv [OF assms(12)], of rx] NG l(2)
    by (fastforce simp: command_of_def payload_from_def split: option.splits)
next
  case (MIX a0 a1 a2)
  let ?data = "case data of Some bs \<Rightarrow> bs | None \<Rightarrow> stack"
  let ?d = "bytes_le 8 a0 @ bytes_le 8 a1 @ bytes_le 8 a2 @ take len ?data"
  have l: "len \<le> 488" "len \<le> length ?data" using assms(7,8) MIX by (auto simp: payload_max_def split: option.splits)
  have p: "SendCommandNG_internal cmd (Some ?d) (len + 24) False s = Some s1" "len + 24 \<le> 512" "len + 24 \<le> length ?d"
    using assms(1) l MIX by (auto simp: cmd_of_old send_command_def SendCommandMIX_def PM3_CMD_DATA_SIZE_MIX_def PM3_CMD_DATA_SIZE_def
        split: option.splits)
  note i = p(1) assms(2,3,5) crc_reachable_inv [OF assms(6)] p(2,3) assms(9)
  show ?thesis
    using transmit_frame [OF i] command_arrives [OF i _ assms(10,11) crc_reachable_inv [OF assms(12)], of rx] MIX l(2)
    by (fastforce simp: command_of_def payload_from_def split: option.splits)
next
  case (OLD a0 a1 a2)
  have p: "SendCommandOLD (ucast cmd) a0 a1 a2 data len s = Some s1" "len \<le> 512" "\<And>bs. data = Some bs \<Longrightarrow> len \<le> length bs"
    using assms(1,7,8) OLD by (simp_all add: send_command_def payload_max_def)
  have z: "replicate len 0 @ replicate (512 - len) 0 = (replicate 512 0 :: bytes)"
    using p(2) by (simp flip: replicate_add)
  show ?thesis
    using old_command_arrives [OF p(1) assms(2-4) p(2) p(3) assms(9-11), where rx = rx and d = d] OLD z
    by (cases data) (auto simp: payload_from_def)
qed

text \<open>A client that starts, and a device that finds two packets on USB.\<close>

definition first_comms :: comms where
  "first_comms = \<lparr>pm3_present = True, send_via_fpc_usart = False, send_with_crc_on_fpc = False, send_with_crc_on_usb = True, last_command = 0,
    txBuffer = [], txBufferNG = replicate 522 0, txBufferNGLen = 0, txBuffer_pending = False,
    rxBuffer = replicate 100 \<lparr>pr_cmd = 0, pr_length = 0, pr_magic = 0, pr_status = 0, pr_reason = 0, pr_crc = 0, pr_oldarg = [0, 0, 0],
      pr_data = replicate 512 0, pr_ng = False\<rparr>, cmd_head = 0, cmd_tail = 0, comms_crc = crc_state0,
    thread_rx = \<lparr>pr_cmd = 0, pr_length = 0, pr_magic = 0, pr_status = 0, pr_reason = 0, pr_crc = 0, pr_oldarg = [0, 0, 0],
      pr_data = replicate 512 0, pr_ng = False\<rparr>\<rparr>"

definition first_device :: device where
  "first_device = \<lparr>g_reply_with_crc_on_usb = False, g_reply_with_crc_on_fpc = True, g_reply_via_fpc = False, g_reply_via_usb = False,
    dev_crc = crc_state0\<rparr>"

definition first_command :: PacketCommandNG where
  "first_command = \<lparr>pc_cmd = 0, pc_length = 0, pc_magic = 0, pc_crc = 0, pc_oldarg = [0, 0, 0], pc_data = replicate 512 0, pc_ng = False\<rparr>"

definition usb_of :: "bytes \<Rightarrow> usb_rx" where
  "usb_of bs = \<lparr>usb_read_ng_buffer = replicate 64 0, usb_read_ng_bufoffset = 0, usb_read_ng_buflen = 0,
    usb_polls = [Idle, Packet (take 5 bs), Packet (drop 5 bs)]\<rparr>"

lemma usb_of: "length bs \<le> 64 \<Longrightarrow> usb_ok (usb_of bs)" "usb_pending (usb_of bs) = bs"
  by (auto simp: usb_of_def usb_ok_def usb_buffer_ok_def usb_pending_def)

lemma sending_first: "\<exists>s1. SendCommandNG_internal cmd (Some data) len ng first_comms = Some s1" if "len \<le> 512"
  using that by (auto simp: SendCommandNG_internal_def first_comms_def PM3_CMD_DATA_SIZE_def Let_def split: prod.splits)

lemma command_delivered_witness:
  "\<exists>s1 frame rx' d' u'. SendCommandNG 0x0109 (Some [1, 2, 3]) 3 first_comms = Some s1 \<and> snd (snd (transmit to_wire s1 [])) = frame \<and>
    receive_ng_internal usb_read_ng True False first_command first_device (usb_of frame) = (PM3_SUCCESS, rx', d', u') \<and>
    pc_cmd rx' = 0x0109 \<and> take (pc_length rx') (pc_data rx') = [1, 2, 3]"
proof -
  obtain s1 where s1: "SendCommandNG 0x0109 (Some [1, 2, 3]) 3 first_comms = Some s1"
    using sending_first [of 3 "0x0109" "[1, 2, 3]" True] unfolding SendCommandNG_def by auto
  then have k: "send_command NG [] 0x0109 (Some [1, 2, 3]) 3 first_comms = Some s1" by (simp add: send_command_def)
  obtain failed s2 frame where t: "transmit to_wire s1 [] = (failed, s2, frame)" by (cases "transmit to_wire s1 []") auto
  have c: "pm3_present first_comms" "\<not> txBuffer_pending first_comms" "txBufferNGLen first_comms = 0" "length (txBufferNG first_comms) = 522"
    "crc_reachable (comms_crc first_comms)" "crc_reachable (dev_crc first_device)"
    by (simp_all add: first_comms_def first_device_def crc_reachable.start)
  have "length frame = 13"
    using transmit_frame [OF s1 [unfolded SendCommandNG_def] c(1,2,4) crc_reachable_inv [OF c(5)] _ _ t] by (simp add: command_fields)
  then show ?thesis
    using command_delivered [OF k c(1-5) _ _ t _ _ c(6), of "usb_of frame" "[]" first_command] s1 t usb_of [of frame]
    by (fastforce simp: payload_max_def payload_from_def)
qed

text \<open>C32: with checksums in use, a command frame with any one byte of its payload changed on the way
  is refused with \<open>PM3_EIO\<close> and leaves the reply interfaces alone; the exception are frames whose
  checksum happens to be the placeholder \<open>COMMANDNG_POSTAMBLE_MAGIC\<close>, which are accepted.\<close>

theorem corrupted_payload_refused:
  assumes "SendCommandNG cmd (Some data) len s = Some s1" "pm3_present s" "\<not> txBuffer_pending s" "length (txBufferNG s) = 522"
    "crc_reachable (comms_crc s)" "len \<le> 512" "len \<le> length data" "client_checksums s"
    and "transmit to_wire s1 [] = (failed, s2, frame)" "i < len" "b \<noteq> data ! i"
    and "usb_ok u" "usb_pending u = frame[sizeof_CommandPreamble + i := b] @ rest" "crc_reachable (dev_crc d)"
  shows "fst (receive_ng_internal usb_read_ng usb fpc rx d u) =
    (if word_le (drop (sizeof_CommandPreamble + len) frame) = COMMANDNG_POSTAMBLE_MAGIC then PM3_SUCCESS else PM3_EIO)"
proof -
  let ?pre = "CommandPreamble len True cmd" and ?xs = "take i data" and ?ys = "take (len - Suc i) (drop (Suc i) data)"
  have d: "take len data = ?xs @ data ! i # ?ys"
    using id_take_nth_drop [of i "take len data"] assms(7,10) by (simp add: drop_take min_def)
  have f: "frame = ?pre @ take len data @ bytes_le 2 (frame_crc (?pre @ take len data))"
    using transmit_frame [OF assms(1) [unfolded SendCommandNG_def] assms(2-4) crc_reachable_inv [OF assms(5)] assms(6,7,9)] assms(8) by simp
  have pre: "length ?pre = 8" using assms(6) by (simp add: command_fields)
  have w: "word_le (drop (sizeof_CommandPreamble + len) frame) = frame_crc (?pre @ take len data)"
    unfolding f using pre assms(7) by (simp add: sizeofs)
  let ?new = "?xs @ b # ?ys"
  have l: "length ?new = len" using assms(7,10) by simp
  have "frame[sizeof_CommandPreamble + i := b] = ?pre @ ?new @ bytes_le 2 (frame_crc (?pre @ take len data))"
    unfolding f d using pre assms(7,10) by (simp add: sizeofs list_update_append)
  then have p: "usb_pending u = CommandPreamble (length ?new) True cmd @ ?new @ bytes_le 2 (frame_crc (?pre @ take len data)) @ rest"
    "length ?new \<le> 512" "True \<or> 24 \<le> length ?new"
    using assms(6,13) unfolding l by simp_all
  have "frame_crc ((?pre @ ?xs) @ data ! i # ?ys) \<noteq> frame_crc ((?pre @ ?xs) @ b # ?ys)"
    using assms(11) by (intro frame_crc_byte) simp
  then have "frame_crc (?pre @ take len data) \<noteq> frame_crc (?pre @ ?new)" unfolding d by simp
  then show ?thesis
    using usb.receive_frame [OF assms(12) p crc_reachable_inv [OF assms(14)], of usb fpc rx] unfolding w l by force
qed

lemma corrupted_payload_refused_witness:
  "\<exists>s1. SendCommandNG 0x0109 (Some [1, 2, 3]) 3 first_comms = Some s1 \<and>
    fst (receive_ng_internal usb_read_ng True False first_command first_device
      (usb_of ((snd (snd (transmit to_wire s1 [])))[9 := 0xFF]))) = PM3_EIO"
proof -
  obtain s1 where s1: "SendCommandNG 0x0109 (Some [1, 2, 3]) 3 first_comms = Some s1"
    using sending_first [of 3 "0x0109" "[1, 2, 3]" True] unfolding SendCommandNG_def by auto
  obtain failed s2 frame where t: "transmit to_wire s1 [] = (failed, s2, frame)" by (cases "transmit to_wire s1 []") auto
  have c: "pm3_present first_comms" "\<not> txBuffer_pending first_comms" "length (txBufferNG first_comms) = 522"
    "crc_reachable (comms_crc first_comms)" "crc_reachable (dev_crc first_device)" "client_checksums first_comms"
    by (simp_all add: first_comms_def first_device_def crc_reachable.start client_checksums_def)
  have f: "frame = CommandPreamble 3 True 0x0109 @ [1, 2, 3] @ bytes_le 2 (frame_crc (CommandPreamble 3 True 0x0109 @ [1, 2, 3]))"
    using transmit_frame [OF s1 [unfolded SendCommandNG_def] c(1-3) crc_reachable_inv [OF c(4)] _ _ t] c(6) by simp
  then have "word_le (drop (sizeof_CommandPreamble + 3) frame) = frame_crc (CommandPreamble 3 True 0x0109 @ [1, 2, 3])"
    by (simp add: sizeofs command_fields)
  also have "\<dots> \<noteq> COMMANDNG_POSTAMBLE_MAGIC" by code_simp
  finally show ?thesis
    using corrupted_payload_refused [where i = 1 and b = "0xFF" and u = "usb_of (frame[9 := 0xFF])" and rest = "[]" and usb = True
        and fpc = False and rx = first_command, OF s1 c(1-4) _ _ c(6) t _ _ _ _ c(5)] s1 t f usb_of [of "frame[9 := 0xFF]"]
    by (simp add: sizeofs command_fields)
qed

subsection \<open>The device replies\<close>

definition reply_of :: "u16 \<Rightarrow> u8 \<Rightarrow> u8 \<Rightarrow> bytes \<Rightarrow> bool \<Rightarrow> PacketResponseNG \<Rightarrow> bool" where
  "reply_of cmd status reason data ng rx \<longleftrightarrow> pr_cmd rx = cmd \<and> pr_status rx = status \<and> pr_reason rx = reason \<and> pr_ng rx = ng \<and>
    (if ng then pr_length rx = length data \<and> take (length data) (pr_data rx) = data
     else pr_oldarg rx = [word_le (take 8 data), word_le (take 8 (drop 8 data)), word_le (take 8 (drop 16 data))] \<and>
       pr_length rx = length data - 24 \<and> take (length data - 24) (pr_data rx) = drop 24 data)"

text \<open>Whether a reply counts as the acknowledgement of the last command.\<close>

definition acknowledges :: "u16 \<Rightarrow> u8 \<Rightarrow> bytes \<Rightarrow> bool \<Rightarrow> u16 \<Rightarrow> bool" where
  "acknowledges cmd status data ng last_cmd \<longleftrightarrow>
    data \<noteq> [] \<and> (if ng then cmd = last_cmd \<and> status = word_of_int PM3_SUCCESS else cmd = CMD_ACK)"

lemma receive_payload_reply:
  assumes "ng \<or> 24 \<le> length data" "pr_cmd rx = cmd" "pr_status rx = status" "pr_reason rx = reason" "pr_ng rx = ng"
  shows "\<exists>rx2. receive_payload data (length data) last_cmd rx = Some (rx2, acknowledges cmd status data ng last_cmd) \<and>
    reply_of cmd status reason data ng (rx2\<lparr>pr_crc := crc\<rparr>)"
  using assms by (cases ng) (auto simp: receive_payload_def reply_of_def acknowledges_def write_at_def)

context serial_port
begin

lemma receive_reply:
  assumes "src_ok io" "pending io = ResponsePreamble (length data) ng status reason cmd @ data @ bytes_le 2 crc @ rest" "length data \<le> 512"
    "ng \<or> 24 \<le> length data" "crc_inv (comms_crc s)"
    "crc = RESPONSENG_POSTAMBLE_MAGIC \<or> crc = frame_crc (ResponsePreamble (length data) ng status reason cmd @ data)"
  shows "\<exists>rx' st io'. receive_response recv s io =
      (quiet_pass\<lparr>ACK_received := acknowledges cmd status data ng (last_command s)\<rparr>,
       PacketResponseReceived rx' (s\<lparr>thread_rx := rx', comms_crc := st\<rparr>), io') \<and>
    reply_of cmd status reason data ng rx' \<and> src_ok io' \<and> pending io' = rest"
proof -
  let ?pre = "ResponsePreamble (length data) ng status reason cmd"
  have l: "length data < 32768" using assms(3) by simp
  note f = response_fields [OF l, of ng status reason cmd]
  obtain s1 where s1: "recv sizeof_ResponsePreamble io = (PM3_SUCCESS, ?pre, s1)" "src_ok s1" "pending s1 = data @ bytes_le 2 crc @ rest"
    using recv_prefix [OF assms(1,2)] f(1) by (auto simp: sizeofs)
  obtain s2 where s2: "(if length data > 0 then recv (length data) s1 else (PM3_SUCCESS, [], s1)) = (PM3_SUCCESS, data, s2)"
    "src_ok s2" "pending s2 = bytes_le 2 crc @ rest"
  proof (cases "length data > 0")
    case True
    then show thesis using recv_prefix [OF s1(2,3) refl True] that by auto
  next
    case False
    then show thesis using s1(2,3) that [of s1] by simp
  qed
  obtain s3 where s3: "recv 2 s2 = (PM3_SUCCESS, bytes_le 2 crc, s3)" "src_ok s3" "pending s3 = rest"
    using recv_prefix [OF s2(2,3), of 2] by auto
  let ?rx = "(thread_rx s)\<lparr>pr_magic := RESPONSENG_PREAMBLE_MAGIC, pr_ng := ng, pr_status := status, pr_reason := reason, pr_cmd := cmd\<rparr>"
  obtain rx2 where rx2: "receive_payload data (length data) (last_command s) ?rx = Some (rx2, acknowledges cmd status data ng (last_command s))"
      "reply_of cmd status reason data ng (rx2\<lparr>pr_crc := crc\<rparr>)"
    using receive_payload_reply [OF assms(4), of ?rx cmd status reason "last_command s" crc] by auto
  obtain a b where c: "compute_crc CRC_14443_A (?pre @ data) (10 + length data) (comms_crc s) =
      (Some (a, b), init_table CRC_14443_A (comms_crc s))" "shl (ucast a) 8 + ucast b = frame_crc (?pre @ data)"
    by (rule crc_of_frame [OF assms(5), of "10 + length data" "?pre @ data" "?pre @ data"]) (use f(1) that in simp_all)
  have le: "length data \<le> PM3_CMD_DATA_SIZE" using assms(3) by (simp add: PM3_CMD_DATA_SIZE_def)
  let ?st = "if crc = RESPONSENG_POSTAMBLE_MAGIC then comms_crc s else init_table CRC_14443_A (comms_crc s)"
  have "receive_postamble recv (?pre @ data) (length data) ack (s\<lparr>thread_rx := rx2\<rparr>) s2 =
      (quiet_pass\<lparr>ACK_received := ack\<rparr>, PacketResponseReceived (rx2\<lparr>pr_crc := crc\<rparr>) (s\<lparr>thread_rx := rx2\<lparr>pr_crc := crc\<rparr>, comms_crc := ?st\<rparr>), s3)" for ack
    using assms(6) by (auto simp: receive_postamble_def sizeofs s3(1) c Let_def)
  moreover have "receive_response recv s io =
      receive_postamble recv (?pre @ data) (length data) (acknowledges cmd status data ng (last_command s)) (s\<lparr>thread_rx := rx2\<rparr>) s2"
    using f(1) le rx2(1) unfolding receive_response_def s1(1) prod.case Let_def f(2-7)
    by (simp add: sizeofs s2(1) [simplified])
  ultimately have "receive_response recv s io = (quiet_pass\<lparr>ACK_received := acknowledges cmd status data ng (last_command s)\<rparr>,
      PacketResponseReceived (rx2\<lparr>pr_crc := crc\<rparr>) (s\<lparr>thread_rx := rx2\<lparr>pr_crc := crc\<rparr>, comms_crc := ?st\<rparr>), s3)" by (rule trans [rotated])
  then show ?thesis using rx2(2) s3(2,3) by blast
qed

end





context serial_port
begin

lemma receive_old_response:
  assumes "src_ok io" "length asBytes = 512"
    "pending io = bytes_le 8 (ucast cmd :: u64) @ bytes_le 8 a0 @ bytes_le 8 a1 @ bytes_le 8 a2 @ asBytes @ rest"
  shows "\<exists>rx' io'. receive_response recv s io =
      (quiet_pass\<lparr>ACK_received := (cmd = CMD_ACK)\<rparr>, PacketResponseReceived rx' (s\<lparr>thread_rx := rx'\<rparr>), io') \<and>
    pr_cmd rx' = cmd \<and> \<not> pr_ng rx' \<and> pr_status rx' = 0 \<and> pr_oldarg rx' = [a0, a1, a2] \<and> pr_length rx' = 512 \<and>
    take 512 (pr_data rx') = asBytes \<and> src_ok io' \<and> pending io' = rest"
proof -
  let ?pre = "bytes_le 8 (ucast cmd :: u64) @ take 2 (bytes_le 8 a0)"
  let ?tail = "drop 2 (bytes_le 8 a0) @ bytes_le 8 a1 @ bytes_le 8 a2 @ asBytes"
  have e: "?pre @ ?tail = bytes_le 8 (ucast cmd :: u64) @ bytes_le 8 a0 @ bytes_le 8 a1 @ bytes_le 8 a2 @ asBytes" by simp
  have "pending io = ?pre @ ?tail @ rest" using assms(3) by simp
  then obtain s1 where s1: "recv sizeof_ResponsePreamble io = (PM3_SUCCESS, ?pre, s1)" "src_ok s1" "pending s1 = ?tail @ rest"
    using recv_prefix [OF assms(1), of ?pre "?tail @ rest" 10] by (auto simp: sizeofs)
  obtain s2 where s2: "recv (sizeof_PacketOLD - sizeof_ResponsePreamble) s1 = (PM3_SUCCESS, ?tail, s2)" "src_ok s2" "pending s2 = rest"
    using recv_prefix [OF s1(2,3)] assms(2) by (auto simp: sizeofs)
  have m: "pre_magic ?pre \<noteq> RESPONSENG_PREAMBLE_MAGIC"
    using old_magic [of RESPONSENG_PREAMBLE_MAGIC cmd] by (simp add: RESPONSENG_PREAMBLE_MAGIC_def pre_magic_def)
  have f: "take 8 (?pre @ ?tail) = bytes_le 8 (ucast cmd :: u64)" "take 8 (drop 8 (?pre @ ?tail)) = bytes_le 8 a0"
    "take 8 (drop 16 (?pre @ ?tail)) = bytes_le 8 a1" "take 8 (drop 24 (?pre @ ?tail)) = bytes_le 8 a2"
    "drop 32 (?pre @ ?tail) = asBytes"
    unfolding e using assms(2) by simp_all
  have l: "length ?tail = sizeof_PacketOLD - sizeof_ResponsePreamble" "length ?pre = sizeof_ResponsePreamble"
    using assms(2) by (simp_all add: sizeofs)
  have w: "take 512 (write_at 0 (take 512 asBytes) xs) = asBytes" for xs
    using assms(2) by (simp add: write_at_def)
  show ?thesis
    unfolding receive_response_def s1(1) prod.case Let_def receive_old_reply_def s2(1) f l
    using m s2(2,3) w
    by (simp add: sizeofs PM3_CMD_DATA_SIZE_def cmd_of_old) (rule exI, rule conjI, rule refl, simp)
qed

end





subsection \<open>The queue of replies\<close>

definition ring_ok :: "comms \<Rightarrow> bool" where
  "ring_ok s \<longleftrightarrow> length (rxBuffer s) = 100 \<and> cmd_head s < 100 \<and> cmd_tail s < 100"

definition reply_queue :: "comms \<Rightarrow> PacketResponseNG list" where
  "reply_queue s = map (\<lambda>i. rxBuffer s ! ((cmd_tail s + i) mod 100)) [0..<(cmd_head s + 100 - cmd_tail s) mod 100]"

lemma queue_store:
  assumes "ring_ok s"
  shows "ring_ok (storeReply p s)"
    and "reply_queue (storeReply p s) = (if length (reply_queue s) = 99 then [] else reply_queue s @ [p])"
proof -
  let ?h = "cmd_head s" and ?t = "cmd_tail s"
  have b: "?h < 100" "?t < 100" "length (rxBuffer s) = 100" using assms by (simp_all add: ring_ok_def)
  let ?n = "(?h + 100 - ?t) mod 100"
  show "ring_ok (storeReply p s)" using b by (simp add: ring_ok_def storeReply_def CMD_BUFFER_SIZE_def)
  have n: "?n = (if ?t \<le> ?h then ?h - ?t else ?h + 100 - ?t)" using b by (simp add: mod_if)
  have h: "(?h + 1) mod 100 = (if ?h = 99 then 0 else ?h + 1)" using b by (simp add: mod_if)
  show "reply_queue (storeReply p s) = (if length (reply_queue s) = 99 then [] else reply_queue s @ [p])"
  proof (cases "?n = 99")
    case True
    then have "(?h + 1) mod 100 = ?t" using b n h by (auto split: if_splits)
    then show ?thesis using True b by (simp add: reply_queue_def storeReply_def CMD_BUFFER_SIZE_def)
  next
    case False
    then have n': "((?h + 1) mod 100 + 100 - ?t) mod 100 = Suc ?n" using b unfolding n h by (auto simp: mod_if)
    have m: "(?t + i) mod 100 = (if ?t + i < 100 then ?t + i else ?t + i - 100)" if "i < 101" for i
      using that b by (simp add: mod_if)
    have i: "(?t + i) mod 100 \<noteq> ?h" if "i < ?n" for i
    proof -
      have "?n < 100" by simp
      then have "i < 101" using that by linarith
      then show ?thesis using m that b unfolding n by (auto split: if_splits)
    qed
    have l: "(?t + ?n) mod 100 = ?h" using m [of ?n] b unfolding n by (auto split: if_splits)
    have sel: "cmd_head (storeReply p s) = (?h + 1) mod 100" "cmd_tail (storeReply p s) = ?t"
      "rxBuffer (storeReply p s) = (rxBuffer s)[?h := p]"
      by (simp_all add: storeReply_def CMD_BUFFER_SIZE_def)
    have f: "map (\<lambda>i. (rxBuffer s)[?h := p] ! ((?t + i) mod 100)) [0..<?n] = map (\<lambda>i. rxBuffer s ! ((?t + i) mod 100)) [0..<?n]"
      by (rule map_cong [OF refl], rule nth_list_update_neq, rule not_sym, rule i) simp
    have g: "length (reply_queue s) \<noteq> 99" using False by (simp add: reply_queue_def)
    show ?thesis
      unfolding if_not_P [OF g] reply_queue_def [of "storeReply p s"] sel n' upt_Suc_append [OF le0] map_append f
      using b l by (simp add: reply_queue_def)
  qed
qed

lemma queue_get:
  assumes "ring_ok s"
  shows "case getReply s of (None, s') \<Rightarrow> reply_queue s = [] \<and> s' = s
    | (Some p, s') \<Rightarrow> ring_ok s' \<and> reply_queue s = p # reply_queue s' \<and> rxBuffer s' = rxBuffer s \<and> cmd_head s' = cmd_head s"
proof -
  let ?h = "cmd_head s" and ?t = "cmd_tail s"
  have b: "?h < 100" "?t < 100" "length (rxBuffer s) = 100" using assms by (simp_all add: ring_ok_def)
  show ?thesis
  proof (cases "?h = ?t")
    case True
    then show ?thesis by (simp add: getReply_def reply_queue_def)
  next
    case False
    let ?n = "(?h + 100 - ?t) mod 100" and ?m = "(?h + 100 - (?t + 1) mod 100) mod 100"
    have n: "?n = Suc ?m" using b False by (auto simp: mod_if)
    have "map f [0..<?n] = f 0 # map (\<lambda>i. f (Suc i)) [0..<?m]" for f :: "nat \<Rightarrow> PacketResponseNG"
      unfolding n by (simp add: upt_conv_Cons map_Suc_upt [symmetric] comp_def del: upt_Suc)
    moreover have "(?t + Suc i) mod 100 = ((?t + 1) mod 100 + i) mod 100" for i
      by (simp add: mod_add_left_eq)
    ultimately have "reply_queue s = rxBuffer s ! ?t # map (\<lambda>i. rxBuffer s ! (((?t + 1) mod 100 + i) mod 100)) [0..<?m]"
      using b by (simp add: reply_queue_def)
    then show ?thesis using False b
      by (simp add: getReply_def reply_queue_def CMD_BUFFER_SIZE_def ring_ok_def)
  qed
qed

lemma queue_take:
  assumes "ring_ok s" "length (reply_queue s) < n"
  shows "case dropWhile (\<lambda>p. \<not> (cmd = CMD_UNKNOWN \<or> ucast (pr_cmd p) = cmd)) (reply_queue s) of
      [] \<Rightarrow> fst (take_reply n cmd s) = None \<and> reply_queue (snd (take_reply n cmd s)) = []
    | p # ps \<Rightarrow> fst (take_reply n cmd s) = Some p \<and> reply_queue (snd (take_reply n cmd s)) = ps"
  using assms
proof (induction n arbitrary: s)
  case (Suc n)
  obtain r s' where g: "getReply s = (r, s')" by (cases "getReply s")
  show ?case
  proof (cases r)
    case None
    then show ?thesis using queue_get [OF Suc.prems(1)] g by simp
  next
    case (Some p)
    then have q: "ring_ok s'" "reply_queue s = p # reply_queue s'" using queue_get [OF Suc.prems(1)] g by simp_all
    have "length (reply_queue s') < n" using Suc.prems(2) q(2) by simp
    note IH = Suc.IH [OF q(1) this]
    have t: "take_reply (Suc n) cmd s = (if cmd = CMD_UNKNOWN \<or> ucast (pr_cmd p) = cmd then (Some p, s') else take_reply n cmd s')"
      by (simp add: g Some)
    show ?thesis
    proof (cases "cmd = CMD_UNKNOWN \<or> ucast (pr_cmd p) = cmd")
      case True
      have w: "(cmd = CMD_UNKNOWN \<or> ucast (pr_cmd p) = cmd) = True" using True by blast
      show ?thesis unfolding t q(2) dropWhile.simps w by simp
    next
      case False
      have w: "(cmd = CMD_UNKNOWN \<or> ucast (pr_cmd p) = cmd) = False" using False by blast
      show ?thesis unfolding t q(2) dropWhile.simps w using IH by simp
    qed
  qed
qed simp

text \<open>C33: the ring buffer of the client is a queue of replies: \<open>getReply\<close> takes the oldest one,
  \<open>clearCommandBuffer\<close> drops all, and waiting for a command drops the replies up to the first one to it
  and returns that. \<open>storeReply\<close> appends while fewer than 99 replies are waiting; the hundredth
  one makes the head meet the tail, and all hundred are lost (the warning only says \<open>about to overwrite\<close>).\<close>

theorem reply_queue_refines:
  assumes "ring_ok s"
  shows "(ring_ok (storeReply p s) \<and> reply_queue (storeReply p s) = (if length (reply_queue s) = 99 then [] else reply_queue s @ [p])) \<and>
    (case getReply s of (None, s') \<Rightarrow> reply_queue s = [] \<and> s' = s
      | (Some p, s') \<Rightarrow> ring_ok s' \<and> reply_queue s = p # reply_queue s') \<and>
    (ring_ok (clearCommandBuffer s) \<and> reply_queue (clearCommandBuffer s) = []) \<and>
    (case dropWhile (\<lambda>p. \<not> (cmd = CMD_UNKNOWN \<or> ucast (pr_cmd p) = cmd)) (reply_queue s) of
      [] \<Rightarrow> fst (take_reply CMD_BUFFER_SIZE cmd s) = None \<and> reply_queue (snd (take_reply CMD_BUFFER_SIZE cmd s)) = []
    | p # ps \<Rightarrow> fst (take_reply CMD_BUFFER_SIZE cmd s) = Some p \<and> reply_queue (snd (take_reply CMD_BUFFER_SIZE cmd s)) = ps)"
proof -
  have "length (reply_queue s) < CMD_BUFFER_SIZE" by (simp add: reply_queue_def CMD_BUFFER_SIZE_def)
  moreover have "reply_queue (clearCommandBuffer s) = []" "ring_ok (clearCommandBuffer s)"
    using assms by (simp_all add: reply_queue_def clearCommandBuffer_def ring_ok_def)
  ultimately show ?thesis
    using queue_store [OF assms] queue_get [OF assms] queue_take [OF assms] by (auto split: prod.splits option.splits)
qed

lemma reply_queue_refines_witness:
  "reply_queue (storeReply (thread_rx first_comms) first_comms) = [thread_rx first_comms]"
proof -
  have "ring_ok first_comms" "reply_queue first_comms = []" by (simp_all add: ring_ok_def first_comms_def reply_queue_def)
  then show ?thesis using reply_queue_refines [of first_comms "thread_rx first_comms" 0] by simp
qed

end
