(* ===== verification/Emv_Tlv.thy ===== *)
theory Emv_Tlv
  imports Prelude
begin

text \<open>
  The TLV library of the EMV code, \<open>client/src/emv/tlv.c\<close>. A buffer with its length is the list of
  the bytes that are left. \<open>size_t\<close> has 64 bits; a length has at most five bytes, so it is a natural
  number. Allocation succeeds. A list of nodes linked by \<open>next\<close> is a list, and a pointer to a node is the
  list that starts there, the empty one for \<open>NULL\<close>; where the code follows \<open>parent\<close>, a pointer
  is a \<open>cursor\<close>.
\<close>

subsection \<open>Tags and lengths\<close>

definition TLV_TAG_COMPLEX :: u32 where "TLV_TAG_COMPLEX = 0x20"
definition TLV_TAG_VALUE_MASK :: u32 where "TLV_TAG_VALUE_MASK = 0x1F"
definition TLV_TAG_VALUE_CONT :: u32 where "TLV_TAG_VALUE_CONT = 0x1F"
definition TLV_TAG_INVALID :: u32 where "TLV_TAG_INVALID = 0"
definition TLV_LEN_LONG :: u8 where "TLV_LEN_LONG = 0x80"

record tlv =
  tlv_tag :: u32
  tlv_len :: nat
  tlv_value :: bytes

definition tlv_parse_tag :: "bytes \<Rightarrow> u32 \<times> bytes" where
  "tlv_parse_tag buf =
    (case buf of
       [] \<Rightarrow> (TLV_TAG_INVALID, [])
     | b # buf \<Rightarrow>
         if ucast b AND TLV_TAG_VALUE_MASK \<noteq> TLV_TAG_VALUE_CONT then (ucast b, buf)
         else case buf of
           [] \<Rightarrow> (TLV_TAG_INVALID, [])
         | c # buf \<Rightarrow> (shl (ucast b) 8 OR ucast c, buf))"

text \<open>\<open>None\<close> is \<open>TLV_LEN_INVALID\<close>.\<close>

definition tlv_parse_len :: "bytes \<Rightarrow> nat option \<times> bytes" where
  "tlv_parse_len buf =
    (case buf of
       [] \<Rightarrow> (None, [])
     | b # buf \<Rightarrow>
         if b AND TLV_LEN_LONG = 0 then (Some (unat b), buf)
         else
           let ll = unat (b AND NOT TLV_LEN_LONG)
           in if ll > 5 then (None, buf)
              else if length buf < ll then (None, buf)
              else (Some (foldl (\<lambda>l b. 256 * l + unat b) 0 (take ll buf)), drop ll buf))"

definition tlv_parse_tl :: "bytes \<Rightarrow> tlv option \<times> bytes" where
  "tlv_parse_tl buf =
    (case tlv_parse_tag buf of (tag, buf) \<Rightarrow>
       if tag = TLV_TAG_INVALID then (None, buf)
       else case tlv_parse_len buf of
           (None, buf) \<Rightarrow> (None, buf)
         | (Some len, buf) \<Rightarrow> (Some \<lparr>tlv_tag = tag, tlv_len = len, tlv_value = []\<rparr>, buf))"

definition tlv_is_constructed :: "tlv \<Rightarrow> bool" where
  "tlv_is_constructed tlv \<longleftrightarrow>
    (if tlv_tag tlv < 0x100 then tlv_tag tlv else shr (tlv_tag tlv) 8) AND TLV_TAG_COMPLEX = TLV_TAG_COMPLEX"

definition tlv_encode :: "tlv \<Rightarrow> bytes" where
  "tlv_encode tlv =
    (if tlv_tag tlv > 0x100 then [ucast (shr (tlv_tag tlv) 8), ucast (tlv_tag tlv AND 0xFF)] else [ucast (tlv_tag tlv)]) @
    (if tlv_len tlv > 0x7F then [0x81, word_of_nat (tlv_len tlv)] else [word_of_nat (tlv_len tlv)]) @
    take (tlv_len tlv) (tlv_value tlv)"

definition tlv_equal :: "tlv option \<Rightarrow> tlv option \<Rightarrow> bool" where
  "tlv_equal a b =
    (case (a, b) of
       (None, None) \<Rightarrow> True
     | (Some a, Some b) \<Rightarrow> tlv_tag a = tlv_tag b \<and> tlv_len a = tlv_len b \<and> take (tlv_len a) (tlv_value a) = take (tlv_len a) (tlv_value b)
     | _ \<Rightarrow> False)"

text \<open>The numbers that elements hold; \<open>int\<close> has 32 bits.\<close>

definition tlv_get_uint8 :: "tlv option \<Rightarrow> bool \<times> u8" where
  "tlv_get_uint8 etlv =
    (case etlv of
       None \<Rightarrow> (False, 0)
     | Some e \<Rightarrow> if tlv_len e = 0 then (True, 0) else if tlv_len e = 1 then (True, tlv_value e ! 0) else (False, 0))"

definition tlv_get_int :: "tlv option \<Rightarrow> bool \<times> u32" where
  "tlv_get_int etlv =
    (case etlv of
       None \<Rightarrow> (False, 0)
     | Some e \<Rightarrow>
         if tlv_len e = 0 then (True, 0)
         else if tlv_len e \<le> 4 then (True, fold (\<lambda>i v. v + ucast (tlv_value e ! i) * shl 1 (i * 8)) [0..<tlv_len e] 0)
         else (False, 0))"

subsection \<open>Parsing into trees\<close>

datatype tlvdb = Tlvdb (node_tlv: tlv) (node_children: "tlvdb list")

text \<open>\<open>tlvdb_parse_one\<close>, over the function that parses the children.\<close>

definition tlvdb_parse_one :: "(bytes \<Rightarrow> tlvdb list option) \<Rightarrow> bytes \<Rightarrow> (tlvdb \<times> bytes) option" where
  "tlvdb_parse_one parse_children tmp =
    (case tlv_parse_tag tmp of (tag, tmp) \<Rightarrow>
       if tag = TLV_TAG_INVALID then None
       else case tlv_parse_len tmp of
           (None, tmp) \<Rightarrow> None
         | (Some len, tmp) \<Rightarrow>
             if len > length tmp then None
             else
               let e = \<lparr>tlv_tag = tag, tlv_len = len, tlv_value = take len tmp\<rparr>; tmp = drop len tmp
               in if tlv_is_constructed e \<and> len \<noteq> 0
                  then map_option (\<lambda>children. (Tlvdb e children, tmp)) (parse_children (tlv_value e))
                  else Some (Tlvdb e [], tmp))"

lemma parse_tag_length: "length (snd (tlv_parse_tag buf)) \<le> length buf - 1"
  by (auto simp: tlv_parse_tag_def split: list.splits)

lemma parse_tag_shorter: "tlv_parse_tag buf = (tag, rest) \<Longrightarrow> tag \<noteq> TLV_TAG_INVALID \<Longrightarrow> length rest < length buf"
  by (auto simp: tlv_parse_tag_def split: list.splits if_splits)

lemma parse_len_shorter: "tlv_parse_len buf = (Some l, rest) \<Longrightarrow> length rest < length buf"
  by (auto simp: tlv_parse_len_def Let_def split: list.splits if_splits)

lemma parse_one_shorter:
  assumes "tlvdb_parse_one f buf = Some (x, rest)"
  shows "length rest < length buf"
  using assms
  by (auto simp: tlvdb_parse_one_def Let_def split: prod.splits option.splits if_splits
      dest!: parse_tag_shorter parse_len_shorter)

lemma parse_one_cong [fundef_cong]:
  assumes "buf = buf'" "\<And>v. length v < length buf' \<Longrightarrow> f v = g v"
  shows "tlvdb_parse_one f buf = tlvdb_parse_one g buf'"
  unfolding tlvdb_parse_one_def assms(1)
  by (auto simp: Let_def assms(2) split: prod.split option.split dest!: parse_tag_shorter parse_len_shorter)

function tlvdb_parse_children :: "bytes \<Rightarrow> tlvdb list option" where
  "tlvdb_parse_children buf =
    (if buf = [] then Some []
     else case tlvdb_parse_one tlvdb_parse_children buf of
         None \<Rightarrow> None
       | Some (node, rest) \<Rightarrow> map_option (\<lambda>nodes. node # nodes) (tlvdb_parse_children rest))"
  by pat_completeness auto
termination by (relation "measure length") (auto dest: parse_one_shorter)

declare tlvdb_parse_children.simps [simp del]

definition tlvdb_parse :: "bytes \<Rightarrow> tlvdb option" where
  "tlvdb_parse buf =
    (if buf = [] then None
     else case tlvdb_parse_one tlvdb_parse_children buf of
         Some (node, []) \<Rightarrow> Some node
       | _ \<Rightarrow> None)"

definition tlvdb_add :: "tlvdb list \<Rightarrow> tlvdb list \<Rightarrow> tlvdb list" where
  "tlvdb_add db other = db @ other"

text \<open>The loop of \<open>tlvdb_parse_multi\<close>.\<close>

function tlvdb_parse_more :: "tlvdb list \<Rightarrow> bytes \<Rightarrow> tlvdb list option" where
  "tlvdb_parse_more root buf =
    (if buf = [] then Some root
     else case tlvdb_parse_one tlvdb_parse_children buf of
         None \<Rightarrow> None
       | Some (db, rest) \<Rightarrow> tlvdb_parse_more (tlvdb_add root [db]) rest)"
  by pat_completeness auto
termination by (relation "measure (length \<circ> snd)") (auto dest: parse_one_shorter)

declare tlvdb_parse_more.simps [simp del]

definition tlvdb_parse_multi :: "bytes \<Rightarrow> tlvdb list option" where
  "tlvdb_parse_multi buf =
    (if buf = [] then None
     else case tlvdb_parse_one tlvdb_parse_children buf of
         None \<Rightarrow> None
       | Some (node, rest) \<Rightarrow> tlvdb_parse_more [node] rest)"

text \<open>The variants that parse into a given root: \<open>None\<close> is \<open>false\<close>.\<close>

definition tlvdb_parse_root :: "bytes \<Rightarrow> tlvdb option" where
  "tlvdb_parse_root buf =
    (if buf = [] then None
     else case tlvdb_parse_one tlvdb_parse_children buf of
         None \<Rightarrow> None
       | Some (node, rest) \<Rightarrow> if rest = [] then Some node else None)"

definition tlvdb_parse_root_multi :: "bytes \<Rightarrow> tlvdb list option" where
  "tlvdb_parse_root_multi buf =
    (if buf = [] then None
     else case tlvdb_parse_one tlvdb_parse_children buf of
         None \<Rightarrow> None
       | Some (node, rest) \<Rightarrow> tlvdb_parse_more [node] rest)"

subsection \<open>Searching\<close>

definition tlvdb_find :: "tlvdb list \<Rightarrow> u32 \<Rightarrow> tlvdb list" where
  "tlvdb_find db tag = dropWhile (\<lambda>x. tlv_tag (node_tlv x) \<noteq> tag) db"

definition tlvdb_find_next :: "tlvdb list \<Rightarrow> u32 \<Rightarrow> tlvdb list" where
  "tlvdb_find_next db tag = tlvdb_find (tl db) tag"

fun tlvdb_find_full :: "tlvdb list \<Rightarrow> u32 \<Rightarrow> tlvdb list" where
  "tlvdb_find_full [] tag = []"
| "tlvdb_find_full (Tlvdb e children # next) tag =
    (if tlv_tag e = tag then Tlvdb e children # next
     else case tlvdb_find_full children tag of
         [] \<Rightarrow> tlvdb_find_full next tag
       | ch \<Rightarrow> ch)"

text \<open>The path is given without the 0 that ends it.\<close>

fun tlvdb_find_path :: "tlvdb list \<Rightarrow> u32 list \<Rightarrow> tlvdb list" where
  "tlvdb_find_path db [] = db"
| "tlvdb_find_path db (tag # path) =
    (case tlvdb_find db tag of
       [] \<Rightarrow> []
     | x # next \<Rightarrow> if path = [] then x # next else tlvdb_find_path (node_children x) path)"

text \<open>The calls of the callback: element, level, whether it has no children.\<close>

fun tlvdb_visit :: "tlvdb list \<Rightarrow> nat \<Rightarrow> (tlv \<times> nat \<times> bool) list" where
  "tlvdb_visit [] level = []"
| "tlvdb_visit (Tlvdb e children # next) level =
    (e, level, children = []) # tlvdb_visit children (level + 1) @ tlvdb_visit next level"

text \<open>
  A pointer with its parents: the list from the node on, the list from its parent on, and so on. The
  empty cursor is \<open>NULL\<close>.
\<close>

type_synonym cursor = "tlvdb list list"

fun climb :: "cursor \<Rightarrow> cursor" where
  "climb [] = []"
| "climb (level # parents) = (if tl level \<noteq> [] then tl level # parents else climb parents)"

fun children_of :: "cursor \<Rightarrow> cursor" where
  "children_of ((x # xs) # parents) = (if node_children x \<noteq> [] then node_children x # (x # xs) # parents else [])"
| "children_of _ = []"

definition tlvdb_next :: "cursor \<Rightarrow> cursor" where
  "tlvdb_next p = (if children_of p \<noteq> [] then children_of p else climb p)"

primrec size_tlvdb' :: "tlvdb \<Rightarrow> nat" where
  "size_tlvdb' (Tlvdb e children) = Suc (sum_list (map size_tlvdb' children))"

definition forest_size :: "tlvdb list \<Rightarrow> nat" where
  "forest_size db = sum_list (map size_tlvdb' db)"

definition cursor_left :: "cursor \<Rightarrow> nat" where
  "cursor_left p = (case p of [] \<Rightarrow> 0 | level # parents \<Rightarrow> forest_size level + sum_list (map (forest_size \<circ> tl) parents))"


lemma size_tlvdb'_pos: "0 < size_tlvdb' x"
  by (cases x) simp

lemma forest_size_simps [simp]:
  "forest_size [] = 0" "forest_size (x # xs) = size_tlvdb' x + forest_size xs"
  "size_tlvdb' (Tlvdb e children) = Suc (forest_size children)"
  by (simp_all add: forest_size_def)

declare size_tlvdb'.simps [simp del]

lemma cursor_left_climb: "cursor_left (climb p) = sum_list (map (forest_size \<circ> tl) p)"
  by (induction p rule: climb.induct) (auto simp: cursor_left_def comp_def)

lemma tlvdb_next_left: "cursor_left (tlvdb_next ((x # xs) # parents)) < cursor_left ((x # xs) # parents)"
proof (cases x)
  case (Tlvdb e children)
  show ?thesis
  proof (cases "children = []")
    case True
    have "cursor_left (climb ((x # xs) # parents)) = forest_size xs + sum_list (map (forest_size \<circ> tl) parents)"
      by (simp only: cursor_left_climb) simp
    then show ?thesis using True Tlvdb by (simp add: tlvdb_next_def cursor_left_def)
  next
    case False
    then show ?thesis using Tlvdb by (simp add: tlvdb_next_def cursor_left_def)
  qed
qed

function tlvdb_get_loop :: "cursor \<Rightarrow> u32 \<Rightarrow> cursor" where
  "tlvdb_get_loop ((x # xs) # parents) tag =
    (if tlv_tag (node_tlv x) = tag then (x # xs) # parents else tlvdb_get_loop (tlvdb_next ((x # xs) # parents)) tag)"
| "tlvdb_get_loop ([] # parents) tag = []"
| "tlvdb_get_loop [] tag = []"
  by pat_completeness auto
termination by (relation "measure (cursor_left \<circ> fst)") (auto simp: tlvdb_next_left)

definition tlvdb_get :: "cursor \<Rightarrow> u32 \<Rightarrow> cursor option \<Rightarrow> cursor" where
  "tlvdb_get p tag prev = tlvdb_get_loop (case prev of None \<Rightarrow> p | Some prev \<Rightarrow> tlvdb_next prev) tag"

definition tlvdb_get_inchild :: "cursor \<Rightarrow> u32 \<Rightarrow> cursor option \<Rightarrow> cursor" where
  "tlvdb_get_inchild p tag prev = tlvdb_get (children_of p) tag prev"

text \<open>The element under a cursor.\<close>

definition cursor_tlv :: "cursor \<Rightarrow> tlv option" where
  "cursor_tlv p = (case p of (x # xs) # parents \<Rightarrow> Some (node_tlv x) | _ \<Rightarrow> None)"

definition tlvdb_get_tlv :: "tlvdb list \<Rightarrow> tlv option" where
  "tlvdb_get_tlv db = (case db of [] \<Rightarrow> None | x # next \<Rightarrow> Some (node_tlv x))"

definition tlvdb_get_uint8 :: "cursor \<Rightarrow> u32 \<Rightarrow> bool \<times> u8" where
  "tlvdb_get_uint8 root tag = tlv_get_uint8 (cursor_tlv (tlvdb_get root tag None))"

subsection \<open>Building and changing\<close>

definition tlvdb_fixed :: "u32 \<Rightarrow> nat \<Rightarrow> bytes \<Rightarrow> tlvdb" where
  "tlvdb_fixed tag len value = Tlvdb \<lparr>tlv_tag = tag, tlv_len = len, tlv_value = take len value\<rparr> []"

text \<open>The relinking that puts a new node in the place of the one that \<open>tlvdb_find_full\<close> finds.\<close>

fun replace_node :: "tlvdb list \<Rightarrow> u32 \<Rightarrow> tlvdb \<Rightarrow> tlvdb list" where
  "replace_node [] tag new = []"
| "replace_node (Tlvdb e children # next) tag new =
    (if tlv_tag e = tag then new # next
     else if tlvdb_find_full children tag \<noteq> [] then Tlvdb e (replace_node children tag new) # next
     else Tlvdb e children # replace_node next tag new)"

text \<open>
  \<open>tlvdb_change_or_add_node_ex\<close> for a list of nodes without parent: the list that the caller's pointer
  leads to afterwards, and what is stored through \<open>tlvdb_elm\<close>, if it is given, as the node and those
  that follow it. \<open>None\<close> as the list: the node to be replaced is the first of the list, which nothing
  points to but the caller; it is freed and the caller's pointer dangles. The new node, linked to the
  rest of the list, is then kept only for a caller who asked for it.
\<close>

definition tlvdb_change_or_add_node_ex :: "bool \<Rightarrow> tlvdb list \<Rightarrow> u32 \<Rightarrow> nat \<Rightarrow> bytes \<Rightarrow> tlvdb list option \<times> tlvdb list option" where
  "tlvdb_change_or_add_node_ex tlvdb_elm db tag len value =
    (case tlvdb_find_full db tag of
       [] \<Rightarrow> (Some (tlvdb_add db [tlvdb_fixed tag len value]), if tlvdb_elm then Some [tlvdb_fixed tag len value] else None)
     | telm # next \<Rightarrow>
         if tlv_tag (node_tlv telm) = tag \<and> tlv_len (node_tlv telm) = len \<and> take len (tlv_value (node_tlv telm)) = take len value
         then (Some db, None)
         else (if tlv_tag (node_tlv (hd db)) = tag then None else Some (replace_node db tag (tlvdb_fixed tag len value)),
               if tlvdb_elm then Some (tlvdb_fixed tag len value # next) else None))"

definition tlvdb_change_or_add_node :: "tlvdb list \<Rightarrow> u32 \<Rightarrow> nat \<Rightarrow> bytes \<Rightarrow> tlvdb list option" where
  "tlvdb_change_or_add_node db tag len value = fst (tlvdb_change_or_add_node_ex False db tag len value)"

subsection \<open>Data object lists\<close>

text \<open>\<open>client/src/emv/dol.c\<close>: a list of tags and lengths without values, and the data it asks for.\<close>

lemma parse_tl_shorter: "tlv_parse_tl buf = (Some e, rest) \<Longrightarrow> length rest < length buf"
  by (auto simp: tlv_parse_tl_def split: prod.splits option.splits if_splits dest!: parse_tag_shorter parse_len_shorter)

function dol_len_loop :: "nat \<Rightarrow> bytes \<Rightarrow> nat \<Rightarrow> nat" where
  "dol_len_loop data_len buf n =
    (if buf = [] then n
     else case tlv_parse_tl buf of
         (None, rest) \<Rightarrow> 0
       | (Some cur, rest) \<Rightarrow>
           dol_len_loop data_len rest (if tlv_len cur = 0 \<and> rest = [] then data_len else n + tlv_len cur))"
  by pat_completeness auto
termination by (relation "measure (\<lambda>(_, buf, _). length buf)") (auto dest: parse_tl_shorter parse_tl_shorter [OF sym])

declare dol_len_loop.simps [simp del]

definition dol_calculate_len :: "tlv option \<Rightarrow> nat \<Rightarrow> nat" where
  "dol_calculate_len tlv data_len =
    (case tlv of None \<Rightarrow> 0 | Some tlv \<Rightarrow> dol_len_loop data_len (take (tlv_len tlv) (tlv_value tlv)) 0)"

text \<open>What one entry contributes: the element cut or padded with zeros.\<close>

definition dol_entry :: "cursor \<Rightarrow> tlv \<Rightarrow> bytes" where
  "dol_entry db cur =
    (case cursor_tlv (tlvdb_get db (tlv_tag cur) None) of
       None \<Rightarrow> replicate (tlv_len cur) 0
     | Some e \<Rightarrow>
         if tlv_len e > tlv_len cur then take (tlv_len cur) (tlv_value e)
         else take (tlv_len e) (tlv_value e) @ replicate (tlv_len cur - tlv_len e) 0)"

text \<open>The loop of \<open>dol_process\<close>: the bytes written to \<open>res\<close>, in order.\<close>

function dol_process_loop :: "cursor \<Rightarrow> nat \<Rightarrow> bytes \<Rightarrow> bytes \<Rightarrow> bytes option" where
  "dol_process_loop db res_len buf res =
    (if buf = [] then Some res
     else case tlv_parse_tl buf of
         (None, rest) \<Rightarrow> None
       | (Some cur, rest) \<Rightarrow>
           if length res + tlv_len cur > res_len then None
           else dol_process_loop db res_len rest (res @ dol_entry db cur))"
  by pat_completeness auto
termination by (relation "measure (\<lambda>(_, _, buf, _). length buf)") (auto dest: parse_tl_shorter parse_tl_shorter [OF sym])

declare dol_process_loop.simps [simp del]

definition dol_process :: "tlv option \<Rightarrow> cursor \<Rightarrow> u32 \<Rightarrow> tlv option" where
  "dol_process tlv db tag =
    (case tlv of
       None \<Rightarrow> Some \<lparr>tlv_tag = tag, tlv_len = 0, tlv_value = []\<rparr>
     | Some dol \<Rightarrow>
         let res_len = dol_calculate_len tlv 0
         in if res_len = 0 then Some \<lparr>tlv_tag = tag, tlv_len = 0, tlv_value = []\<rparr>
            else case dol_process_loop db res_len (take (tlv_len dol) (tlv_value dol)) [] of
                None \<Rightarrow> None
              | Some res \<Rightarrow> Some \<lparr>tlv_tag = tag, tlv_len = res_len, tlv_value = write_at 0 res (replicate res_len 0)\<rparr>)"

text \<open>The loop of \<open>dol_parse\<close> over the list, the data from \<open>pos\<close> on and the nodes so far.\<close>

function dol_parse_loop :: "bytes \<Rightarrow> nat \<Rightarrow> bytes \<Rightarrow> nat \<Rightarrow> tlvdb list \<Rightarrow> tlvdb list" where
  "dol_parse_loop data res_len buf pos db =
    (if buf = [] then db
     else case tlv_parse_tl buf of
         (None, rest) \<Rightarrow> []
       | (Some cur, rest) \<Rightarrow>
           if pos + tlv_len cur > res_len then []
           else
             let len = (if tlv_len cur = 0 \<and> rest = [] then res_len - pos else tlv_len cur)
             in dol_parse_loop data res_len rest (pos + len) (tlvdb_add db [tlvdb_fixed (tlv_tag cur) len (drop pos data)]))"
  by pat_completeness auto
termination by (relation "measure (\<lambda>(_, _, buf, _, _). length buf)") (auto dest: parse_tl_shorter parse_tl_shorter [OF sym])

declare dol_parse_loop.simps [simp del]

text \<open>\<open>data\<close> has \<open>data_len\<close> bytes; the empty list is \<open>NULL\<close>.\<close>

definition dol_parse :: "tlv option \<Rightarrow> bytes \<Rightarrow> tlvdb list" where
  "dol_parse tlv data =
    (case tlv of
       None \<Rightarrow> []
     | Some dol \<Rightarrow>
         let res_len = dol_calculate_len tlv (length data)
         in if res_len \<noteq> length data then []
            else dol_parse_loop data res_len (take (tlv_len dol) (tlv_value dol)) 0 [])"

end
