(* ===== verification/Emv_Tlv_Laws.thy ===== *)
theory Emv_Tlv_Laws
  imports Emv_Tlv
begin

text \<open>
  The TLV library against the grammar of its format: the parsers accept exactly the encodings and
  build their trees.
\<close>

subsection \<open>The format\<close>

text \<open>The encodings of a tag and of a length.\<close>

definition tag_code :: "u32 \<Rightarrow> bytes \<Rightarrow> bool" where
  "tag_code tag bs \<longleftrightarrow>
    (\<exists>b. bs = [b] \<and> tag = ucast b \<and> b \<noteq> 0 \<and> ucast b AND TLV_TAG_VALUE_MASK \<noteq> TLV_TAG_VALUE_CONT) \<or>
    (\<exists>b c. bs = [b, c] \<and> tag = shl (ucast b) 8 OR ucast c \<and> ucast b AND TLV_TAG_VALUE_MASK = TLV_TAG_VALUE_CONT)"

definition big_endian :: "bytes \<Rightarrow> nat" where
  "big_endian bs = foldl (\<lambda>l b. 256 * l + unat b) 0 bs"

definition len_code :: "nat \<Rightarrow> bytes \<Rightarrow> bool" where
  "len_code l bs \<longleftrightarrow>
    (\<exists>b. bs = [b] \<and> b < 0x80 \<and> l = unat b) \<or>
    (\<exists>ks. bs = word_of_nat (128 + length ks) # ks \<and> length ks \<le> 5 \<and> l = big_endian ks)"

text \<open>A list of trees and its encoding.\<close>

inductive encodes :: "tlvdb list \<Rightarrow> bytes \<Rightarrow> bool" where
  encodes_Nil: "encodes [] []"
| encodes_leaf: "encodes (Tlvdb e [] # xs) (tb @ lb @ tlv_value e @ bs)"
  if "tag_code (tlv_tag e) tb" "len_code (tlv_len e) lb" "tlv_len e = length (tlv_value e)"
    "\<not> tlv_is_constructed e \<or> tlv_value e = []" "encodes xs bs"
| encodes_node: "encodes (Tlvdb e children # xs) (tb @ lb @ tlv_value e @ bs)"
  if "tag_code (tlv_tag e) tb" "len_code (tlv_len e) lb" "tlv_len e = length (tlv_value e)"
    "tlv_is_constructed e" "tlv_value e \<noteq> []" "encodes children (tlv_value e)" "encodes xs bs"

lemma two_byte_tag: "ucast b AND TLV_TAG_VALUE_MASK = TLV_TAG_VALUE_CONT \<Longrightarrow> shl (ucast (b :: u8)) 8 OR ucast (c :: u8) \<noteq> (0 :: u32)"
proof
  assume a: "ucast b AND TLV_TAG_VALUE_MASK = TLV_TAG_VALUE_CONT" and z: "shl (ucast b) 8 OR ucast c = (0 :: u32)"
  from a have "bit (ucast b AND 0x1F :: u32) 0" by (simp add: TLV_TAG_VALUE_MASK_def TLV_TAG_VALUE_CONT_def)
  then have "bit b 0" by (simp add: bit_and_iff bit_ucast_iff)
  then have "bit (shl (ucast b) 8 OR ucast c :: u32) 8" by (simp add: bit_or_iff bit_push_bit_iff bit_ucast_iff)
  with z show False by simp
qed

lemma len8_32: "LENGTH(8) \<le> LENGTH(32)"
  by simp

lemma ucast_u8_eq_0: "(ucast (b :: u8) :: u32) = 0 \<longleftrightarrow> b = 0"
  by (metis unat_ucast_up unat_eq_zero unsigned_0 len8_32)

lemma parse_tag_code: "tag_code tag tb \<Longrightarrow> tlv_parse_tag (tb @ rest) = (tag, rest) \<and> tag \<noteq> TLV_TAG_INVALID"
  by (auto simp: tag_code_def tlv_parse_tag_def TLV_TAG_INVALID_def two_byte_tag ucast_u8_eq_0)

lemma parse_tag_sound:
  assumes "tlv_parse_tag buf = (tag, rest)" "tag \<noteq> TLV_TAG_INVALID"
  obtains tb where "buf = tb @ rest" "tag_code tag tb"
proof (cases buf)
  case Nil
  then show ?thesis using assms by (simp add: tlv_parse_tag_def)
next
  case (Cons b bs)
  show ?thesis
  proof (cases "ucast b AND TLV_TAG_VALUE_MASK \<noteq> TLV_TAG_VALUE_CONT")
    case True
    then show ?thesis using that [of "[b]"] assms Cons by (auto simp: tlv_parse_tag_def tag_code_def TLV_TAG_INVALID_def ucast_u8_eq_0)
  next
    case False
    then show ?thesis using that assms Cons by (cases bs) (auto simp: tlv_parse_tag_def tag_code_def)
  qed
qed

lemma short_len: "b AND TLV_LEN_LONG = 0 \<longleftrightarrow> b < 0x80" for b :: u8
proof -
  have "list_all (\<lambda>b :: u8. (b AND 0x80 = 0) = (b < 0x80)) (map word_of_nat [0..<256])" by code_simp
  then show ?thesis unfolding TLV_LEN_LONG_def by (rule all_u8_exhaust)
qed

lemma long_len: "unat (b AND NOT TLV_LEN_LONG) = unat b - 128" if "\<not> b < 0x80" for b :: u8
proof -
  have "list_all (\<lambda>b :: u8. \<not> b < 0x80 \<longrightarrow> unat (b AND NOT 0x80) = unat b - 128) (map word_of_nat [0..<256])" by code_simp
  then have "\<not> b < 0x80 \<longrightarrow> unat (b AND NOT 0x80) = unat b - 128" by (rule all_u8_exhaust)
  then show ?thesis using that by (simp add: TLV_LEN_LONG_def)
qed

lemma parse_len_code: "len_code l lb \<Longrightarrow> tlv_parse_len (lb @ rest) = (Some l, rest)"
proof -
  assume "len_code l lb"
  then consider b where "lb = [b]" "b < 0x80" "l = unat b"
    | ks where "lb = word_of_nat (128 + length ks) # ks" "length ks \<le> 5" "l = big_endian ks"
    by (auto simp: len_code_def)
  then show ?thesis
  proof cases
    case (2 ks)
    have u: "unat (word_of_nat (128 + length ks) :: u8) = 128 + length ks" using 2(2) by (simp only: unat_of_nat) simp
    then have n: "\<not> (word_of_nat (128 + length ks) :: u8) < 0x80" by (simp add: word_less_nat_alt)
    show ?thesis using 2(2,3) long_len [OF n] u n unfolding 2(1) tlv_parse_len_def
      by (simp add: short_len big_endian_def Let_def)
  qed (simp add: tlv_parse_len_def short_len)
qed

lemma parse_len_sound:
  assumes "tlv_parse_len buf = (Some l, rest)"
  obtains lb where "buf = lb @ rest" "len_code l lb"
proof (cases buf)
  case Nil
  then show ?thesis using assms by (simp add: tlv_parse_len_def)
next
  case (Cons b bs)
  show ?thesis
  proof (cases "b < 0x80")
    case True
    then show ?thesis using that [of "[b]"] assms Cons by (auto simp: tlv_parse_len_def short_len len_code_def)
  next
    case False
    let ?k = "unat b - 128"
    have k: "?k \<le> 5" "?k \<le> length bs" "l = big_endian (take ?k bs)" "rest = drop ?k bs"
      using assms False Cons by (auto simp: tlv_parse_len_def short_len long_len Let_def big_endian_def split: if_splits)
    have "128 \<le> unat b" using False by (simp add: word_less_nat_alt)
    then have "b = word_of_nat (128 + ?k)" by simp
    then have "len_code l (b # take ?k bs)" using k unfolding len_code_def by (intro disjI2 exI [of _ "take ?k bs"]) simp
    then show ?thesis using that [of "b # take ?k bs"] Cons k by simp
  qed
qed

subsection \<open>The parsers\<close>

lemma parse_one_code:
  assumes "tag_code (tlv_tag e) tb" "len_code (tlv_len e) lb" "tlv_len e = length (tlv_value e)"
  shows "tlvdb_parse_one f (tb @ lb @ tlv_value e @ bs) =
    (if tlv_is_constructed e \<and> tlv_value e \<noteq> [] then map_option (\<lambda>children. (Tlvdb e children, bs)) (f (tlv_value e))
     else Some (Tlvdb e [], bs))"
proof -
  have e: "\<lparr>tlv_tag = tlv_tag e, tlv_len = length (tlv_value e), tlv_value = tlv_value e\<rparr> = e" using assms(3) by simp
  show ?thesis
    using parse_tag_code [OF assms(1)] parse_len_code [OF assms(2)] assms(3)
    by (simp add: tlvdb_parse_one_def Let_def e)
qed

lemma parse_one_sound:
  assumes "tlvdb_parse_one f buf = Some (x, rest)"
  obtains e tb lb where "node_tlv x = e" "buf = tb @ lb @ tlv_value e @ rest" "tag_code (tlv_tag e) tb" "len_code (tlv_len e) lb"
    "tlv_len e = length (tlv_value e)"
    "if tlv_is_constructed e \<and> tlv_value e \<noteq> [] then f (tlv_value e) = Some (node_children x) else node_children x = []"
proof -
  obtain tag b1 where t: "tlv_parse_tag buf = (tag, b1)" by (cases "tlv_parse_tag buf")
  then have t0: "tag \<noteq> TLV_TAG_INVALID" using assms by (auto simp: tlvdb_parse_one_def)
  obtain len b2 where l: "tlv_parse_len b1 = (Some len, b2)"
    using assms t t0 by (auto simp: tlvdb_parse_one_def split: prod.splits option.splits)
  have ll: "len \<le> length b2" using assms t t0 l by (auto simp: tlvdb_parse_one_def split: if_splits)
  let ?e = "\<lparr>tlv_tag = tag, tlv_len = len, tlv_value = take len b2\<rparr>"
  obtain tb where tb: "buf = tb @ b1" "tag_code tag tb" using parse_tag_sound [OF t t0] .
  obtain lb where lb: "b1 = lb @ b2" "len_code len lb" using parse_len_sound [OF l] .
  have c: "node_tlv x = ?e \<and> rest = drop len b2 \<and>
      (if tlv_is_constructed ?e \<and> take len b2 \<noteq> [] then f (take len b2) = Some (node_children x) else node_children x = [])"
    using assms t t0 l ll by (auto simp: tlvdb_parse_one_def Let_def split: if_splits)
  show ?thesis by (rule that [of ?e tb lb]) (use tb lb ll c in auto)
qed

lemma encodes_parse: "encodes xs bs \<Longrightarrow> tlvdb_parse_children bs = Some xs"
proof (induction rule: encodes.induct)
  case encodes_Nil
  show ?case by (simp add: tlvdb_parse_children.simps)
next
  case (encodes_leaf e tb lb xs bs)
  have "tb @ lb @ tlv_value e @ bs \<noteq> []" using encodes_leaf(1) by (auto simp: tag_code_def)
  then show ?case using parse_one_code [OF encodes_leaf(1-3)] encodes_leaf(4-6) by (subst tlvdb_parse_children.simps) auto
next
  case (encodes_node e tb lb children xs bs)
  have "tb @ lb @ tlv_value e @ bs \<noteq> []" using encodes_node(1) by (auto simp: tag_code_def)
  then show ?case using parse_one_code [OF encodes_node(1-3)] encodes_node(4-9) by (subst tlvdb_parse_children.simps) auto
qed

lemma parse_encodes: "tlvdb_parse_children bs = Some xs \<Longrightarrow> encodes xs bs"
proof (induction "length bs" arbitrary: bs xs rule: less_induct)
  case less
  show ?case
  proof (cases "bs = []")
    case True
    then show ?thesis using less(2) by (simp add: tlvdb_parse_children.simps encodes_Nil)
  next
    case False
    obtain x rest ys where p: "tlvdb_parse_one tlvdb_parse_children bs = Some (x, rest)" "tlvdb_parse_children rest = Some ys" "xs = x # ys"
      using less(2) False by (subst (asm) tlvdb_parse_children.simps) (auto split: option.splits)
    obtain e tb lb where s: "node_tlv x = e" "bs = tb @ lb @ tlv_value e @ rest" "tag_code (tlv_tag e) tb" "len_code (tlv_len e) lb"
      "tlv_len e = length (tlv_value e)"
      "if tlv_is_constructed e \<and> tlv_value e \<noteq> [] then tlvdb_parse_children (tlv_value e) = Some (node_children x) else node_children x = []"
      using parse_one_sound [OF p(1)] .
    have r: "encodes ys rest" using less(1) [OF parse_one_shorter [OF p(1)] p(2)] .
    have x: "x = Tlvdb e (node_children x)" using s(1) by (cases x) simp
    have v: "length (tlv_value e) < length bs" using s(2,3) by (auto simp: tag_code_def)
    show ?thesis
    proof (cases "tlv_is_constructed e \<and> tlv_value e \<noteq> []")
      case True
      then have "encodes (node_children x) (tlv_value e)" using s(6) less(1) [OF v] by simp
      then show ?thesis unfolding p(3) s(2) by (subst x) (rule encodes_node, use s True r in auto)
    next
      case False
      then have "node_children x = []" using s(6) by simp
      then show ?thesis unfolding p(3) s(2) by (subst x, simp) (rule encodes_leaf, use s False r in auto)
    qed
  qed
qed

lemma parse_children_iff: "tlvdb_parse_children bs = Some xs \<longleftrightarrow> encodes xs bs"
  using parse_encodes encodes_parse by blast

lemma parse_more: "tlvdb_parse_more root bs = map_option (\<lambda>xs. root @ xs) (tlvdb_parse_children bs)"
proof (induction root bs rule: tlvdb_parse_more.induct)
  case (1 root buf)
  have IH: "tlvdb_parse_more (root @ [x]) rest = map_option (\<lambda>xs. (root @ [x]) @ xs) (tlvdb_parse_children rest)"
    if "buf \<noteq> []" "tlvdb_parse_one tlvdb_parse_children buf = Some (x, rest)" for x rest
    using 1 [OF that(1) that(2) refl] by (simp add: tlvdb_add_def)
  show ?case
    by (subst tlvdb_parse_more.simps, subst tlvdb_parse_children.simps)
      (auto simp: tlvdb_add_def IH option.map_comp comp_def split: option.split)
qed

lemma parse_children_Cons:
  "bs \<noteq> [] \<Longrightarrow> tlvdb_parse_children bs = (case tlvdb_parse_one tlvdb_parse_children bs of
     None \<Rightarrow> None | Some (x, rest) \<Rightarrow> map_option (\<lambda>xs. x # xs) (tlvdb_parse_children rest))"
  by (subst tlvdb_parse_children.simps) simp

lemma parse_Nil [simp]: "tlvdb_parse_children [] = Some []"
  by (simp add: tlvdb_parse_children.simps)

lemma parse_Nil_iff: "tlvdb_parse_children bs = Some [] \<longleftrightarrow> bs = []"
  by (subst tlvdb_parse_children.simps) (auto split: option.splits)

lemma parse_multi_eq: "tlvdb_parse_multi bs = Some xs \<longleftrightarrow> tlvdb_parse_children bs = Some xs \<and> xs \<noteq> []"
proof (cases "bs = []")
  case False
  then show ?thesis using parse_Nil_iff [of bs]
    by (auto simp: tlvdb_parse_multi_def parse_children_Cons parse_more split: option.splits)
qed (simp add: tlvdb_parse_multi_def)

lemma parse_root_multi_eq: "tlvdb_parse_root_multi bs = tlvdb_parse_multi bs"
  by (simp add: tlvdb_parse_root_multi_def tlvdb_parse_multi_def)

lemma parse_eq: "tlvdb_parse bs = Some x \<longleftrightarrow> tlvdb_parse_children bs = Some [x]"
proof (cases "bs = []")
  case False
  then show ?thesis using parse_Nil_iff
    by (auto simp: tlvdb_parse_def parse_children_Cons split: option.splits list.splits)
qed (simp add: tlvdb_parse_def)

lemma parse_root_eq: "tlvdb_parse_root bs = tlvdb_parse bs"
  by (auto simp: tlvdb_parse_root_def tlvdb_parse_def split: option.splits list.splits)

text \<open>C34: the parsers accept exactly the encodings of the format, and return the trees that these
  are encodings of: one tree for \<open>tlvdb_parse\<close> and \<open>tlvdb_parse_root\<close>, one or more for the \<open>multi\<close> variants.
  Everything else (a truncated or zero tag, a length of more than five bytes or beyond the end, a
  constructed value that is not itself a list of encodings) is refused.\<close>

theorem tlv_parse_exact:
  "(tlvdb_parse bs = Some x \<longleftrightarrow> encodes [x] bs) \<and> tlvdb_parse_root bs = tlvdb_parse bs \<and>
   (tlvdb_parse_multi bs = Some xs \<longleftrightarrow> encodes xs bs \<and> xs \<noteq> []) \<and> tlvdb_parse_root_multi bs = tlvdb_parse_multi bs"
  by (simp add: parse_eq parse_root_eq parse_multi_eq parse_root_multi_eq parse_children_iff)

end
