(* ===== verification/Emv_Tlv_Claims.thy ===== *)
theory Emv_Tlv_Claims
  imports Emv_Tlv_Laws
begin

text \<open>
  The claims about the trees of the TLV library: their type invariant, encoding and parsing, and
  the searches in document order.
\<close>

subsection \<open>Well-formed elements and trees\<close>

definition tag_ok :: "u32 \<Rightarrow> bool" where
  "tag_ok tag \<longleftrightarrow>
    (0 < tag \<and> tag < 0x100 \<and> tag AND TLV_TAG_VALUE_MASK \<noteq> TLV_TAG_VALUE_CONT) \<or>
    (0x100 \<le> tag \<and> tag < 0x10000 \<and> shr tag 8 AND TLV_TAG_VALUE_MASK = TLV_TAG_VALUE_CONT)"

definition tlv_ok :: "tlv \<Rightarrow> bool" where
  "tlv_ok e \<longleftrightarrow> tag_ok (tlv_tag e) \<and> tlv_len e = length (tlv_value e) \<and> tlv_len e < 2 ^ 40"

primrec node_ok :: "tlvdb \<Rightarrow> bool" where
  "node_ok (Tlvdb e children) \<longleftrightarrow> tlv_ok e \<and> (children \<noteq> [] \<longrightarrow> tlv_is_constructed e) \<and> list_all id (map node_ok children)"

lemma node_ok_simps [simp]:
  "node_ok (Tlvdb e children) \<longleftrightarrow> tlv_ok e \<and> (children \<noteq> [] \<longrightarrow> tlv_is_constructed e) \<and> list_all node_ok children"
  by (simp add: list.pred_map comp_def)

declare node_ok.simps [simp del]

lemma u8_unat: "unat (b :: u8) < 256" "unat (b :: u8) \<le> 255"
  using unsigned_less [of b, where 'a = nat] by simp_all

lemma unat_ucast_u8: "unat (ucast (b :: u8) :: u32) = unat b"
  by (rule unat_ucast_up) simp

lemma ucast_less_256: "ucast (b :: u8) < (0x100 :: u32)"
  using u8_unat(1) [of b] by (simp add: word_less_nat_alt unat_ucast_u8)

lemma two_bytes_shr: "shr (shl (ucast (b :: u8)) 8 OR ucast (c :: u8)) 8 = (ucast b :: u32)"
  by (rule bit_word_eqI) (auto simp: bit_drop_bit_eq bit_or_iff bit_push_bit_iff bit_ucast_iff dest: bit_imp_le_length)

lemma two_bytes_low: "ucast (shl (ucast (b :: u8)) 8 OR ucast (c :: u8) :: u32) = c"
  by (rule bit_word_eqI) (auto simp: bit_or_iff bit_push_bit_iff bit_ucast_iff)

lemma two_bytes_unat: "unat (shl (ucast (b :: u8)) 8 OR ucast (c :: u8) :: u32) = 256 * unat b + unat c"
proof -
  have d: "shl (ucast b) 8 OR ucast c = (shl (ucast b) 8 + ucast c :: u32)"
    by (rule disjunctive_add [symmetric]) (auto simp: bit_push_bit_iff bit_ucast_iff dest: bit_imp_le_length)
  have "256 * unat b + unat c < 2 ^ 32" using u8_unat [of b] u8_unat [of c] by simp
  then show ?thesis unfolding d
    by (simp add: unat_word_ariths push_bit_eq_mult unat_ucast_u8 mod_add_left_eq mod_mult_right_eq mult.commute)
qed

lemma tag_code_ok: "tag_code tag tb \<Longrightarrow> tag_ok tag"
proof -
  assume "tag_code tag tb"
  then consider b :: u8 where "tag = ucast b" "b \<noteq> 0" "ucast b AND TLV_TAG_VALUE_MASK \<noteq> TLV_TAG_VALUE_CONT"
    | b c :: u8 where "tag = shl (ucast b) 8 OR ucast c" "ucast b AND TLV_TAG_VALUE_MASK = TLV_TAG_VALUE_CONT"
    unfolding tag_code_def by blast
  then show ?thesis
  proof cases
    case 1
    then show ?thesis by (simp add: tag_ok_def ucast_less_256 word_neq_0_conv [symmetric] ucast_u8_eq_0)
  next
    case (2 b c)
    have n: "b \<noteq> 0" using 2(2) by (auto simp: TLV_TAG_VALUE_CONT_def)
    then have "1 \<le> unat b" using unat_eq_zero [of b] by linarith
    moreover have "unat b < 256" "unat c < 256" using u8_unat by simp_all
    ultimately have "256 \<le> unat tag" "unat tag < 65536" unfolding 2(1) two_bytes_unat by simp_all
    moreover have "shr tag 8 = ucast b" unfolding 2(1) by (rule two_bytes_shr)
    ultimately show ?thesis using 2(2) by (simp add: tag_ok_def word_le_nat_alt word_less_nat_alt)
  qed
qed

text \<open>The bytes that \<open>tlv_encode\<close> writes for a tag.\<close>

lemma tag_ok_code:
  assumes "tag_ok tag"
  shows "tag_code tag (if tag > 0x100 then [ucast (shr tag 8), ucast (tag AND 0xFF)] else [ucast tag])"
proof (cases "tag < 0x100")
  case True
  then have m: "0 < tag" "tag AND TLV_TAG_VALUE_MASK \<noteq> TLV_TAG_VALUE_CONT" using assms by (auto simp: tag_ok_def)
  have u: "ucast (ucast tag :: u8) = tag"
  proof (rule bit_word_eqI)
    fix n
    have "\<not> bit tag n" if "8 \<le> n"
      by (rule bit_lt_mask [OF _ that]) (use True in \<open>simp add: word_less_nat_alt\<close>)
    then have "bit tag n \<Longrightarrow> n < 8" by (meson not_le)
    then show "bit (ucast (ucast tag :: u8) :: u32) n = bit tag n" if "n < LENGTH(32)"
      using that by (auto simp: bit_ucast_iff)
  qed
  have "(ucast tag :: u8) \<noteq> 0" using u m(1) by (metis ucast_0 word_neq_0_conv)
  then show ?thesis using True m u by (auto simp: tag_code_def)
next
  case False
  then have m: "0x100 \<le> tag" "tag < 0x10000" "shr tag 8 AND TLV_TAG_VALUE_MASK = TLV_TAG_VALUE_CONT"
    using assms by (auto simp: tag_ok_def)
  have "tag \<noteq> 0x100" using m(3) by (auto simp: TLV_TAG_VALUE_MASK_def TLV_TAG_VALUE_CONT_def)
  then have g: "tag > 0x100" using m(1) by simp
  have hi: "\<not> bit tag n" if "16 \<le> n" for n
    by (rule bit_lt_mask [OF _ that]) (use m(2) in \<open>simp add: word_less_nat_alt\<close>)
  have t: "tag = shl (ucast (ucast (shr tag 8) :: u8)) 8 OR ucast (ucast (tag AND 0xFF) :: u8)"
  proof (rule bit_word_eqI)
    fix n :: nat
    have ff: "(0xFF :: u32) = mask 8" by (simp add: mask_eq_exp_minus_1)
    consider "n < 8" | "8 \<le> n" "n < 16" | "16 \<le> n" by linarith
    then show "bit tag n = bit (shl (ucast (ucast (shr tag 8) :: u8)) 8 OR ucast (ucast (tag AND 0xFF) :: u8) :: u32) n"
      unfolding ff by cases (auto simp: hi bit_or_iff bit_push_bit_iff bit_ucast_iff bit_drop_bit_eq bit_and_iff bit_mask_iff)
  qed
  have "bit tag (8 + n) \<Longrightarrow> n < 8" for n using hi [of "8 + n"] by linarith
  then have "ucast (ucast (shr tag 8) :: u8) = shr tag 8"
    by (intro bit_word_eqI) (auto simp: bit_ucast_iff bit_drop_bit_eq)
  then show ?thesis using g m(3) t unfolding tag_code_def by (intro disjI2 exI conjI) auto
qed

lemma foldl_base: "length bs \<le> n \<Longrightarrow> foldl (\<lambda>l b. 256 * l + unat (b :: u8)) a bs < (a + 1) * 256 ^ length bs"
proof (induction bs arbitrary: a)
  case (Cons b bs)
  have "foldl (\<lambda>l b. 256 * l + unat b) (256 * a + unat b) bs < (256 * a + unat b + 1) * 256 ^ length bs"
    using Cons by simp
  also have "\<dots> \<le> ((a + 1) * 256) * 256 ^ length bs"
    using u8_unat(2) [of b] by (intro mult_right_mono) simp_all
  finally show ?case by (simp add: algebra_simps)
qed simp

lemma big_endian_less: "big_endian bs < 256 ^ length bs"
  using foldl_base [OF order_refl, of 0 bs] by (simp add: big_endian_def)

lemma len_code_less: "len_code l lb \<Longrightarrow> l < 2 ^ 40"
proof -
  assume "len_code l lb"
  then consider b :: u8 where "l = unat b" | ks where "length ks \<le> 5" "l = big_endian ks"
    unfolding len_code_def by blast
  then show ?thesis
  proof cases
    case (1 b)
    then show ?thesis using u8_unat(1) [of b] by simp
  next
    case (2 ks)
    have "big_endian ks < 256 ^ length ks" by (rule big_endian_less)
    also have "\<dots> \<le> 256 ^ 5" using 2(1) by (intro power_increasing) simp_all
    finally show ?thesis using 2(2) by simp
  qed
qed

lemma encodes_ok: "encodes xs bs \<Longrightarrow> list_all node_ok xs"
  by (induction rule: encodes.induct) (auto simp: tlv_ok_def dest: tag_code_ok len_code_less)

lemma find_full_suffix:
  "list_all node_ok db \<Longrightarrow> list_all node_ok (tlvdb_find_full db tag)"
  by (induction db tag rule: tlvdb_find_full.induct) (auto split: list.splits)

lemma replace_ok: "list_all node_ok db \<Longrightarrow> node_ok new \<Longrightarrow> list_all node_ok (replace_node db tag new)"
proof (induction db tag new rule: replace_node.induct)
  case (2 e children nxt tag new)
  then show ?case by (cases children) auto
qed simp


subsection \<open>The type of what the library builds\<close>

lemma fixed_ok: "tag_ok tag \<Longrightarrow> len \<le> length value \<Longrightarrow> len < 2 ^ 40 \<Longrightarrow> node_ok (tlvdb_fixed tag len value)"
  by (simp add: tlvdb_fixed_def tlv_ok_def)

lemma change_ok:
  assumes "list_all node_ok db" "node_ok (tlvdb_fixed tag len value)" "tlvdb_change_or_add_node db tag len value = Some db'"
  shows "list_all node_ok db'"
  using assms replace_ok [OF assms(1,2), of tag]
  by (auto simp: tlvdb_change_or_add_node_def tlvdb_change_or_add_node_ex_def tlvdb_add_def split: list.splits if_splits)

lemma find_path_ok: "list_all node_ok db \<Longrightarrow> list_all node_ok (tlvdb_find_path db path)"
proof (induction db path rule: tlvdb_find_path.induct)
  case (2 db tag path)
  have f: "list_all node_ok (tlvdb_find db tag)" using 2(2) by (auto simp: tlvdb_find_def list_all_iff dest: set_dropWhileD)
  show ?case
  proof (cases "tlvdb_find db tag")
    case (Cons x xs)
    then have "node_ok x" using f by simp
    then have "list_all node_ok (node_children x)" by (cases x) simp
    then show ?thesis using 2(1) [OF Cons] Cons f by simp
  qed simp
qed simp

text \<open>C35: every node of a parsed tree is well formed: its tag is one of those that the format can
  write, its length is that of its value and below \<open>2^40\<close>, and only constructed elements have children.
  Changing or adding an element keeps this for all trees, and the searches only return such nodes.\<close>

theorem trees_well_formed:
  "(\<forall>xs. tlvdb_parse_multi bs = Some xs \<longrightarrow> list_all node_ok xs) \<and>
   (list_all node_ok db \<longrightarrow>
      list_all node_ok (tlvdb_find_full db tag) \<and> list_all node_ok (tlvdb_find_path db path) \<and>
      (tag_ok tag \<and> len \<le> length value \<and> len < 2 ^ 40 \<longrightarrow>
        (\<forall>db'. tlvdb_change_or_add_node db tag len value = Some db' \<longrightarrow> list_all node_ok db')))"
proof (intro conjI allI impI)
  show "list_all node_ok xs" if "tlvdb_parse_multi bs = Some xs" for xs
    using that by (auto simp: parse_multi_eq parse_children_iff intro: encodes_ok)
  show "list_all node_ok db'" if "list_all node_ok db" "tag_ok tag \<and> len \<le> length value \<and> len < 2 ^ 40"
    "tlvdb_change_or_add_node db tag len value = Some db'" for db'
    by (rule change_ok [OF that(1) fixed_ok that(3)]) (use that(2) in blast)+
qed (auto intro: find_full_suffix find_path_ok)

lemma trees_well_formed_witness:
  "list_all node_ok [Tlvdb \<lparr>tlv_tag = 0x84, tlv_len = 2, tlv_value = [0xA0, 0]\<rparr> []]"
proof -
  have "tlvdb_parse_multi [0x84, 2, 0xA0, 0] = Some [Tlvdb \<lparr>tlv_tag = 0x84, tlv_len = 2, tlv_value = [0xA0, 0]\<rparr> []]"
    by code_simp
  then show ?thesis using trees_well_formed [of "[0x84, 2, 0xA0, 0]" "[]" 0 "[]" 0 "[]"] by blast
qed

subsection \<open>Encoding\<close>

lemma encode_code:
  assumes "tlv_ok e" "tlv_len e < 256"
  obtains tb lb where "tlv_encode e = tb @ lb @ tlv_value e" "tag_code (tlv_tag e) tb" "len_code (tlv_len e) lb"
proof -
  let ?lb = "if tlv_len e > 0x7F then [0x81, word_of_nat (tlv_len e)] else [word_of_nat (tlv_len e)] :: bytes"
  have v: "take (tlv_len e) (tlv_value e) = tlv_value e" using assms(1) by (simp add: tlv_ok_def)
  have u: "unat (word_of_nat (tlv_len e) :: u8) = tlv_len e" using assms(2) by (simp only: unat_of_nat) simp
  have "len_code (tlv_len e) ?lb"
  proof (cases "tlv_len e > 0x7F")
    case True
    then show ?thesis using u unfolding len_code_def by (intro disjI2 exI [of _ "[word_of_nat (tlv_len e)]"]) (simp add: big_endian_def)
  next
    case False
    then show ?thesis using u unfolding len_code_def by (intro disjI1 exI [of _ "word_of_nat (tlv_len e)"]) (simp add: word_less_nat_alt)
  qed
  then show ?thesis
    using that [OF _ tag_ok_code] assms(1) v by (simp add: tlv_encode_def tlv_ok_def)
qed

lemma parse_tl_code: "tag_code tag tb \<Longrightarrow> len_code len lb \<Longrightarrow>
    tlv_parse_tl (tb @ lb @ rest) = (Some \<lparr>tlv_tag = tag, tlv_len = len, tlv_value = []\<rparr>, rest)"
  using parse_tag_code [of tag tb "lb @ rest"] by (simp add: tlv_parse_tl_def parse_len_code)

lemma encode_parts:
  assumes "tlv_ok e"
  shows encode_header: "tlv_parse_tl (tlv_encode e @ rest) =
      (Some \<lparr>tlv_tag = tlv_tag e, tlv_len = (if tlv_len e < 256 then tlv_len e else tlv_len e mod 256), tlv_value = []\<rparr>, tlv_value e @ rest)"
    and encode_leaf: "tlv_len e < 256 \<Longrightarrow> \<not> tlv_is_constructed e \<or> tlv_value e = [] \<Longrightarrow> tlvdb_parse (tlv_encode e) = Some (Tlvdb e [])"
    and encode_node: "tlv_len e < 256 \<Longrightarrow> tlv_is_constructed e \<Longrightarrow> tlvdb_parse_multi (tlv_value e) = Some children \<Longrightarrow>
      tlvdb_parse (tlv_encode e) = Some (Tlvdb e children)"
proof -
  have l: "tlv_len e = length (tlv_value e)" using assms by (simp add: tlv_ok_def)
  show "tlv_parse_tl (tlv_encode e @ rest) =
      (Some \<lparr>tlv_tag = tlv_tag e, tlv_len = (if tlv_len e < 256 then tlv_len e else tlv_len e mod 256), tlv_value = []\<rparr>, tlv_value e @ rest)"
  proof (cases "tlv_len e < 256")
    case True
    obtain tb lb where "tlv_encode e = tb @ lb @ tlv_value e" "tag_code (tlv_tag e) tb" "len_code (tlv_len e) lb"
      using encode_code [OF assms True] .
    then show ?thesis using True parse_tl_code by simp
  next
    case False
    let ?b = "word_of_nat (tlv_len e) :: u8"
    have "len_code (tlv_len e mod 256) [0x81, ?b]"
      unfolding len_code_def by (intro disjI2 exI [of _ "[?b]"]) (simp add: big_endian_def unat_of_nat)
    note p = parse_tl_code [OF tag_ok_code this, of "tlv_tag e" "tlv_value e @ rest"]
    have "tlv_encode e @ rest = (if tlv_tag e > 0x100 then [ucast (shr (tlv_tag e) 8), ucast (tlv_tag e AND 0xFF)] else [ucast (tlv_tag e)]) @
        [0x81, ?b] @ tlv_value e @ rest"
      using False l by (simp add: tlv_encode_def)
    then show ?thesis using p assms False by (simp only: tlv_ok_def if_False)
  qed
  show "tlvdb_parse (tlv_encode e) = Some (Tlvdb e [])" if q: "tlv_len e < 256" "\<not> tlv_is_constructed e \<or> tlv_value e = []"
  proof -
    obtain tb lb where "tlv_encode e = tb @ lb @ tlv_value e" "tag_code (tlv_tag e) tb" "len_code (tlv_len e) lb"
      using encode_code [OF assms q(1)] .
    then show ?thesis using encodes_leaf [OF _ _ l q(2) encodes_Nil, of tb lb] by (simp add: parse_eq parse_children_iff)
  qed
  show "tlvdb_parse (tlv_encode e) = Some (Tlvdb e children)"
    if q: "tlv_len e < 256" "tlv_is_constructed e" "tlvdb_parse_multi (tlv_value e) = Some children"
  proof -
    obtain tb lb where "tlv_encode e = tb @ lb @ tlv_value e" "tag_code (tlv_tag e) tb" "len_code (tlv_len e) lb"
      using encode_code [OF assms q(1)] .
    moreover have "tlv_value e \<noteq> []" using q(3) by (auto simp: tlvdb_parse_multi_def)
    moreover have "encodes children (tlv_value e)" using q(3) by (simp add: parse_multi_eq parse_children_iff)
    ultimately show ?thesis
      using encodes_node [OF _ _ l q(2) _ _ encodes_Nil, of tb lb children] by (simp add: parse_eq parse_children_iff)
  qed
qed

text \<open>C36: the encoding of a well-formed element is read back: its header by \<open>tlv_parse_tl\<close>, which
  leaves the value and what follows it, and as a whole, with the children that its value encodes, by
  \<open>tlvdb_parse\<close>. This holds up to 255 bytes. The encoder writes the length of a longer value in one byte: the
  header then reads back with the length modulo 256.\<close>

theorem tlv_encode_roundtrip:
  assumes "tlv_ok e"
  shows "tlv_parse_tl (tlv_encode e @ rest) =
      (Some \<lparr>tlv_tag = tlv_tag e, tlv_len = (if tlv_len e < 256 then tlv_len e else tlv_len e mod 256), tlv_value = []\<rparr>, tlv_value e @ rest) \<and>
    (tlv_len e < 256 \<longrightarrow>
      (\<not> tlv_is_constructed e \<or> tlv_value e = [] \<longrightarrow> tlvdb_parse (tlv_encode e) = Some (Tlvdb e [])) \<and>
      (tlv_is_constructed e \<and> tlvdb_parse_multi (tlv_value e) = Some children \<longrightarrow> tlvdb_parse (tlv_encode e) = Some (Tlvdb e children)))"
  using encode_header [OF assms] encode_leaf [OF assms] encode_node [OF assms] by blast

lemma tlv_encode_roundtrip_witness:
  "tlvdb_parse (tlv_encode \<lparr>tlv_tag = 0x9F02, tlv_len = 2, tlv_value = [1, 2]\<rparr>) =
    Some (Tlvdb \<lparr>tlv_tag = 0x9F02, tlv_len = 2, tlv_value = [1, 2]\<rparr> [])"
proof -
  let ?e = "\<lparr>tlv_tag = 0x9F02, tlv_len = 2, tlv_value = [1, 2]\<rparr> :: tlv"
  have "tlv_ok ?e" by (simp add: tlv_ok_def tag_ok_def TLV_TAG_VALUE_MASK_def TLV_TAG_VALUE_CONT_def)
  moreover have "tlv_len ?e < 256" by simp
  moreover have "\<not> tlv_is_constructed ?e \<or> tlv_value ?e = []" by code_simp
  ultimately
  show ?thesis using tlv_encode_roundtrip [of ?e "[]" "[]"] by blast
qed


subsection \<open>Searching in document order\<close>

fun preorder :: "tlvdb list \<Rightarrow> tlv list" where
  "preorder [] = []"
| "preorder (Tlvdb e children # next) = e # preorder children @ preorder next"

text \<open>The elements from a cursor on.\<close>

definition elements :: "cursor \<Rightarrow> tlv list" where
  "elements p = (case p of [] \<Rightarrow> [] | level # parents \<Rightarrow> preorder level @ concat (map (preorder \<circ> tl) parents))"

definition cursor_ok :: "cursor \<Rightarrow> bool" where
  "cursor_ok p \<longleftrightarrow> [] \<notin> set p"

lemma visit_preorder: "map fst (tlvdb_visit db n) = preorder db"
  by (induction db n rule: tlvdb_visit.induct) auto

lemma preorder_append [simp]: "preorder (xs @ ys) = preorder xs @ preorder ys"
  by (induction xs rule: preorder.induct) auto

lemma preorder_Nil_iff [simp]: "preorder db = [] \<longleftrightarrow> db = []"
  by (cases db rule: preorder.cases) auto

lemma elements_climb: "elements (climb p) = concat (map (preorder \<circ> tl) p)"
  by (induction p rule: climb.induct) (auto simp: elements_def comp_def)

lemma climb_ok: "cursor_ok p \<Longrightarrow> cursor_ok (climb p)"
  by (induction p rule: climb.induct) (auto simp: cursor_ok_def)

lemma next_elements:
  assumes "cursor_ok p"
  shows "elements (tlvdb_next p) = tl (elements p)" "cursor_ok (tlvdb_next p)"
proof -
  have "elements (tlvdb_next p) = tl (elements p) \<and> cursor_ok (tlvdb_next p)"
  proof (cases p rule: children_of.cases)
    case (1 x xs parents)
    obtain e children where x: "x = Tlvdb e children" by (cases x)
    show ?thesis
    proof (cases "children = []")
      case True
      then show ?thesis
        using elements_climb [of p] climb_ok [OF assms] by (simp add: tlvdb_next_def 1 x elements_def)
    next
      case False
      then show ?thesis using assms by (simp add: tlvdb_next_def 1 x elements_def cursor_ok_def)
    qed
  qed (use assms in \<open>auto simp: cursor_ok_def tlvdb_next_def elements_def\<close>)
  then show "elements (tlvdb_next p) = tl (elements p)" "cursor_ok (tlvdb_next p)" by simp_all
qed

lemma get_loop_elements:
  "cursor_ok p \<Longrightarrow> elements (tlvdb_get_loop p tag) = dropWhile (\<lambda>e. tlv_tag e \<noteq> tag) (elements p) \<and> cursor_ok (tlvdb_get_loop p tag)"
proof (induction p tag rule: tlvdb_get_loop.induct)
  case (1 x xs parents tag)
  obtain e children where x: "x = Tlvdb e children" by (cases x)
  have e: "elements ((x # xs) # parents) = e # tl (elements ((x # xs) # parents))" by (simp add: elements_def x)
  show ?case
  proof (cases "tlv_tag e = tag")
    case True
    then show ?thesis using 1(2) by (simp add: x elements_def)
  next
    case False
    then have g: "tlvdb_get_loop ((x # xs) # parents) tag = tlvdb_get_loop (tlvdb_next ((x # xs) # parents)) tag" by (simp add: x)
    have IH: "elements (tlvdb_get_loop (tlvdb_next ((x # xs) # parents)) tag) =
        dropWhile (\<lambda>e. tlv_tag e \<noteq> tag) (tl (elements ((x # xs) # parents))) \<and> cursor_ok (tlvdb_get_loop (tlvdb_next ((x # xs) # parents)) tag)"
      using 1(1) [OF _ next_elements(2) [OF 1(2)]] next_elements(1) [OF 1(2)] False x by simp
    have d: "dropWhile (\<lambda>e. tlv_tag e \<noteq> tag) (e # ys) = dropWhile (\<lambda>e. tlv_tag e \<noteq> tag) ys" for ys using False by simp
    show ?thesis unfolding g by (subst e, subst d) (rule IH)
  qed
qed (auto simp: cursor_ok_def elements_def)

lemma cursor_tlv_elements: "cursor_ok p \<Longrightarrow> cursor_tlv p = (case elements p of [] \<Rightarrow> None | e # _ \<Rightarrow> Some e)"
proof (cases p rule: children_of.cases)
  case (1 x xs parents)
  then show ?thesis by (cases x) (simp add: cursor_tlv_def elements_def)
qed (auto simp: cursor_tlv_def elements_def cursor_ok_def)

lemma find_full_first: "tlvdb_get_tlv (tlvdb_find_full db tag) =
    (case dropWhile (\<lambda>e. tlv_tag e \<noteq> tag) (preorder db) of [] \<Rightarrow> None | e # _ \<Rightarrow> Some e)"
proof (induction db tag rule: tlvdb_find_full.induct)
  case (2 e children nxt tag)
  show ?case
  proof (cases "tlv_tag e = tag")
    case False
    show ?thesis
    proof (cases "\<exists>e \<in> set (preorder children). tlv_tag e = tag")
      case True
      then obtain e' where "e' \<in> set (preorder children)" "\<not> tlv_tag e' \<noteq> tag" by blast
      then have d: "dropWhile (\<lambda>e. tlv_tag e \<noteq> tag) (preorder children @ preorder nxt) =
          dropWhile (\<lambda>e. tlv_tag e \<noteq> tag) (preorder children) @ preorder nxt"
        "dropWhile (\<lambda>e. tlv_tag e \<noteq> tag) (preorder children) \<noteq> []"
        by (rule dropWhile_append1) (use True in auto)
      then obtain y ys where y: "dropWhile (\<lambda>e. tlv_tag e \<noteq> tag) (preorder children) = y # ys" by (meson neq_Nil_conv)
      then have "tlvdb_find_full children tag \<noteq> []" using 2(1) [OF False] by (auto simp: tlvdb_get_tlv_def)
      then show ?thesis using False 2(1) [OF False] d(1) y by (cases "tlvdb_find_full children tag") (simp_all add: tlvdb_get_tlv_def)
    next
      case none: False
      then have d: "dropWhile (\<lambda>e. tlv_tag e \<noteq> tag) (preorder children) = []" by simp
      have "tlvdb_find_full children tag = []"
        using 2(1) [OF False, unfolded d] by (cases "tlvdb_find_full children tag") (simp_all add: tlvdb_get_tlv_def)
      then show ?thesis using False 2(2) [OF False] none by (simp add: dropWhile_append2)
    qed
  qed (simp add: tlvdb_get_tlv_def)
qed (simp add: tlvdb_get_tlv_def)

lemma search_parts:
  assumes "cursor_ok p"
  shows "map fst (tlvdb_visit db level) = preorder db"
    and "elements (tlvdb_get p tag None) = dropWhile (\<lambda>e. tlv_tag e \<noteq> tag) (elements p)"
    and "elements (tlvdb_get root tag (Some p)) = dropWhile (\<lambda>e. tlv_tag e \<noteq> tag) (tl (elements p))"
    and "tlvdb_get_tlv (tlvdb_find_full db tag) = cursor_tlv (tlvdb_get [db] tag None)"
    and "elements (tlvdb_get_inchild p tag None) = (if children_of p = [] then [] else dropWhile (\<lambda>e. tlv_tag e \<noteq> tag) (tl (elements p)))"
proof -
  show "map fst (tlvdb_visit db level) = preorder db" by (rule visit_preorder)
  show "elements (tlvdb_get p tag None) = dropWhile (\<lambda>e. tlv_tag e \<noteq> tag) (elements p)"
    using get_loop_elements [OF assms] by (simp add: tlvdb_get_def)
  show "elements (tlvdb_get root tag (Some p)) = dropWhile (\<lambda>e. tlv_tag e \<noteq> tag) (tl (elements p))"
    using get_loop_elements [OF next_elements(2) [OF assms]] next_elements(1) [OF assms] by (simp add: tlvdb_get_def)
  show "elements (tlvdb_get_inchild p tag None) = (if children_of p = [] then [] else dropWhile (\<lambda>e. tlv_tag e \<noteq> tag) (tl (elements p)))"
  proof (cases "children_of p = []")
    case False
    then have "tlvdb_next p = children_of p" by (simp add: tlvdb_next_def)
    then show ?thesis using False get_loop_elements [OF next_elements(2) [OF assms]] next_elements(1) [OF assms]
      by (simp add: tlvdb_get_inchild_def tlvdb_get_def)
  qed (simp add: tlvdb_get_inchild_def tlvdb_get_def elements_def)
  show "tlvdb_get_tlv (tlvdb_find_full db tag) = cursor_tlv (tlvdb_get [db] tag None)"
  proof (cases "db = []")
    case False
    then have "cursor_ok [db]" by (simp add: cursor_ok_def)
    then show ?thesis using get_loop_elements [of "[db]" tag] by (simp add: tlvdb_get_def cursor_tlv_elements find_full_first elements_def [of "[db]"])
  qed (simp add: tlvdb_get_tlv_def tlvdb_get_def cursor_tlv_def)
qed

text \<open>C37: the searches go through a tree in document order, the order of \<open>tlvdb_visit\<close>.
  \<open>tlvdb_get\<close> finds the first element with the tag from its starting point on or, given the previous
  result, behind that, so that repeated calls return all of them in order; without a previous result it
  finds the same element as \<open>tlvdb_find_full\<close>. \<open>tlvdb_get_inchild\<close> starts at the first child but does not
  stop at the last: it searches everything behind the element too.\<close>

theorem search_in_document_order:
  assumes "cursor_ok p"
  shows "map fst (tlvdb_visit db level) = preorder db \<and>
    elements (tlvdb_get p tag None) = dropWhile (\<lambda>e. tlv_tag e \<noteq> tag) (elements p) \<and>
    elements (tlvdb_get root tag (Some p)) = dropWhile (\<lambda>e. tlv_tag e \<noteq> tag) (tl (elements p)) \<and>
    tlvdb_get_tlv (tlvdb_find_full db tag) = cursor_tlv (tlvdb_get [db] tag None) \<and>
    elements (tlvdb_get_inchild p tag None) = (if children_of p = [] then [] else dropWhile (\<lambda>e. tlv_tag e \<noteq> tag) (tl (elements p)))"
  using search_parts [OF assms] by blast

text \<open>A template with one child, followed by another element.\<close>

definition sample_tree :: "tlvdb list" where
  "sample_tree = [Tlvdb \<lparr>tlv_tag = 0x6F, tlv_len = 3, tlv_value = [0x84, 1, 7]\<rparr> [Tlvdb \<lparr>tlv_tag = 0x84, tlv_len = 1, tlv_value = [7]\<rparr> []],
    Tlvdb \<lparr>tlv_tag = 0x50, tlv_len = 1, tlv_value = [9]\<rparr> []]"

lemma search_in_document_order_witness:
  "elements (tlvdb_get_inchild [sample_tree] 0x50 None) = [\<lparr>tlv_tag = 0x50, tlv_len = 1, tlv_value = [9]\<rparr>]"
proof -
  have "cursor_ok [sample_tree]" by (simp add: cursor_ok_def sample_tree_def)
  then have "elements (tlvdb_get_inchild [sample_tree] 0x50 None) = (if children_of [sample_tree] = [] then []
      else dropWhile (\<lambda>e. tlv_tag e \<noteq> 0x50) (tl (elements [sample_tree])))"
    using search_in_document_order [where p = "[sample_tree]" and tag = "0x50"] by blast
  then show ?thesis by (simp add: sample_tree_def elements_def)
qed

end
