(* ===== verification/Emv_Dol_Claims.thy ===== *)
theory Emv_Dol_Claims
  imports Emv_Tlv_Claims
begin

text \<open>
  The claims about changing a tree of the TLV library and about data object lists: the value that a
  terminal builds from a list of tags and lengths, and the split of such a value.
\<close>

subsection \<open>Changing an element\<close>

lemma replace_preorder:
  "tlvdb_find_full db tag = telm # rest \<Longrightarrow>
    \<exists>pre post. preorder db = pre @ preorder [telm] @ post \<and> preorder (replace_node db tag new) = pre @ preorder [new] @ post \<and>
      (\<forall>e \<in> set pre. tlv_tag e \<noteq> tag)"
proof (induction db tag new rule: replace_node.induct)
  case (2 e children nxt tag new)
  show ?case
  proof (cases "tlv_tag e = tag")
    case True
    then have "telm = Tlvdb e children" using 2(3) by simp
    then show ?thesis using True preorder_append [of "[new]" nxt] by (intro exI [of _ "[]"] exI [of _ "preorder nxt"]) simp
  next
    case False
    show ?thesis
    proof (cases "tlvdb_find_full children tag")
      case Nil
      then have "tlvdb_find_full nxt tag = telm # rest" using 2(3) False by simp
      then obtain pre post where p: "preorder nxt = pre @ preorder [telm] @ post"
        "preorder (replace_node nxt tag new) = pre @ preorder [new] @ post" "\<forall>e \<in> set pre. tlv_tag e \<noteq> tag"
        using 2(2) [OF False] Nil by blast
      have "\<forall>e \<in> set (preorder children). tlv_tag e \<noteq> tag"
        using find_full_first [of children tag] Nil by (auto simp: tlvdb_get_tlv_def split: list.splits)
      then show ?thesis using p False Nil by (intro exI [of _ "e # preorder children @ pre"] exI [of _ post]) auto
    next
      case (Cons y ys)
      then have f: "tlvdb_find_full children tag = telm # rest" "tlvdb_find_full children tag \<noteq> []" using 2(3) False by simp_all
      obtain pre post where p: "preorder children = pre @ preorder [telm] @ post"
        "preorder (replace_node children tag new) = pre @ preorder [new] @ post" "\<forall>e \<in> set pre. tlv_tag e \<noteq> tag"
        using 2(1) [OF False f(2) f(1)] by blast
      then show ?thesis using False Cons by (intro exI [of _ "e # pre"] exI [of _ "post @ preorder nxt"]) simp
    qed
  qed
qed simp

lemma find_full_split: "preorder db = pre @ e # post \<Longrightarrow> \<forall>x \<in> set pre. tlv_tag x \<noteq> tlv_tag e \<Longrightarrow>
    tlvdb_get_tlv (tlvdb_find_full db (tlv_tag e)) = Some e"
  by (simp add: find_full_first dropWhile_append2)

lemma find_full_tag: "tlvdb_find_full db tag = telm # rest \<Longrightarrow> tlv_tag (node_tlv telm) = tag"
  by (induction db tag rule: tlvdb_find_full.induct) (auto split: if_splits list.splits)

lemma not_found: "tlvdb_find_full db tag = [] \<Longrightarrow> \<forall>x \<in> set (preorder db). tlv_tag x \<noteq> tag"
  using find_full_first [of db tag] by (auto simp: tlvdb_get_tlv_def split: list.splits)

lemma change_parts:
  fixes db tag len val
  defines "e \<equiv> \<lparr>tlv_tag = tag, tlv_len = len, tlv_value = take len val\<rparr>"
    and "result \<equiv> tlvdb_change_or_add_node db tag len val"
  shows "case tlvdb_find_full db tag of
      [] \<Rightarrow> \<exists>db'. result = Some db' \<and> preorder db' = preorder db @ [e]
    | telm # rest \<Rightarrow>
        if tlv_equal (Some (node_tlv telm)) (Some e) then result = Some db
        else if tlv_tag (node_tlv (hd db)) = tag then result = None
        else \<exists>db' pre post. result = Some db' \<and> preorder db = pre @ preorder [telm] @ post \<and> preorder db' = pre @ [e] @ post \<and>
          (\<forall>x \<in> set pre. tlv_tag x \<noteq> tag)"
    and "result = Some db' \<Longrightarrow> tlv_equal (tlvdb_get_tlv (tlvdb_find_full db' tag)) (Some e)"
proof -
  have f: "preorder [tlvdb_fixed tag len val] = [e]" by (simp add: tlvdb_fixed_def e_def)
  have first: "case tlvdb_find_full db tag of
      [] \<Rightarrow> \<exists>db'. result = Some db' \<and> preorder db' = preorder db @ [e]
    | telm # rest \<Rightarrow>
        if tlv_equal (Some (node_tlv telm)) (Some e) then result = Some db
        else if tlv_tag (node_tlv (hd db)) = tag then result = None
        else \<exists>db' pre post. result = Some db' \<and> preorder db = pre @ preorder [telm] @ post \<and> preorder db' = pre @ [e] @ post \<and>
          (\<forall>x \<in> set pre. tlv_tag x \<noteq> tag)"
  proof (cases "tlvdb_find_full db tag")
    case Nil
    then show ?thesis
      by (simp add: result_def tlvdb_change_or_add_node_def tlvdb_change_or_add_node_ex_def tlvdb_add_def f)
  next
    case (Cons telm rest)
    then show ?thesis
      using replace_preorder [OF Cons, of "tlvdb_fixed tag len val"] find_full_tag [OF Cons]
      by (auto simp: result_def tlvdb_change_or_add_node_def tlvdb_change_or_add_node_ex_def f tlv_equal_def e_def)
  qed
  then show "case tlvdb_find_full db tag of
      [] \<Rightarrow> \<exists>db'. result = Some db' \<and> preorder db' = preorder db @ [e]
    | telm # rest \<Rightarrow>
        if tlv_equal (Some (node_tlv telm)) (Some e) then result = Some db
        else if tlv_tag (node_tlv (hd db)) = tag then result = None
        else \<exists>db' pre post. result = Some db' \<and> preorder db = pre @ preorder [telm] @ post \<and> preorder db' = pre @ [e] @ post \<and>
          (\<forall>x \<in> set pre. tlv_tag x \<noteq> tag)" .
  have t: "tlv_tag e = tag" "tlv_equal (Some e) (Some e)" by (simp_all add: e_def tlv_equal_def)
  show "tlv_equal (tlvdb_get_tlv (tlvdb_find_full db' tag)) (Some e)" if r: "result = Some db'"
  proof (cases "tlvdb_find_full db tag")
    case Nil
    then have "preorder db' = preorder db @ [e]" using first r by auto
    then show ?thesis using find_full_split [of db' "preorder db" e "[]"] not_found [OF Nil] t by simp
  next
    case (Cons telm rest)
    show ?thesis
    proof (cases "tlv_equal (Some (node_tlv telm)) (Some e)")
      case True
      then have "db' = db" using first r Cons by simp
      then show ?thesis using Cons True by (simp add: tlvdb_get_tlv_def)
    next
      case False
      then obtain pre post where "preorder db' = pre @ e # post" "\<forall>x \<in> set pre. tlv_tag x \<noteq> tag"
        using first r Cons by (auto split: if_splits)
      then show ?thesis using find_full_split [of db' pre e post] t by simp
    qed
  qed
qed

text \<open>C38: \<open>tlvdb_change_or_add_node\<close> appends a new element behind all others when no element has its tag,
  leaves a tree alone whose first element with the tag is equal, and otherwise puts the new element in
  the place of that element and its children, with all others kept in their order. Afterwards a search
  finds the new element. The exception is the first element of the list: if that is to be replaced it
  is freed, and the caller is left with a pointer to it.\<close>

theorem change_or_add_node:
  fixes db tag len val
  defines "e \<equiv> \<lparr>tlv_tag = tag, tlv_len = len, tlv_value = take len val\<rparr>"
    and "result \<equiv> tlvdb_change_or_add_node db tag len val"
  shows "(case tlvdb_find_full db tag of
      [] \<Rightarrow> \<exists>db'. result = Some db' \<and> preorder db' = preorder db @ [e]
    | telm # rest \<Rightarrow>
        if tlv_equal (Some (node_tlv telm)) (Some e) then result = Some db
        else if tlv_tag (node_tlv (hd db)) = tag then result = None
        else \<exists>db' pre post. result = Some db' \<and> preorder db = pre @ preorder [telm] @ post \<and> preorder db' = pre @ [e] @ post \<and>
          (\<forall>x \<in> set pre. tlv_tag x \<noteq> tag)) \<and>
    (\<forall>db'. result = Some db' \<longrightarrow> tlv_equal (tlvdb_get_tlv (tlvdb_find_full db' tag)) (Some e))"
  unfolding e_def result_def using change_parts [of db tag len val] by blast

lemma change_or_add_node_witness:
  "\<exists>db'. tlvdb_change_or_add_node sample_tree 0x84 1 [5] = Some db' \<and>
    tlv_equal (tlvdb_get_tlv (tlvdb_find_full db' 0x84)) (Some \<lparr>tlv_tag = 0x84, tlv_len = 1, tlv_value = [5]\<rparr>)"
proof -
  obtain db' where "tlvdb_change_or_add_node sample_tree 0x84 1 [5] = Some db'"
    by (simp add: sample_tree_def tlvdb_change_or_add_node_def tlvdb_change_or_add_node_ex_def)
  then show ?thesis using change_or_add_node [where db = sample_tree and tag = "0x84" and len = 1 and val = "[5]"] by auto
qed

subsection \<open>Data object lists\<close>

primrec dol_code :: "(u32 \<times> nat) list \<Rightarrow> bytes \<Rightarrow> bool" where
  "dol_code [] bs \<longleftrightarrow> bs = []"
| "dol_code (x # xs) bs \<longleftrightarrow>
    (\<exists>tb lb rest. bs = tb @ lb @ rest \<and> tag_code (fst x) tb \<and> len_code (snd x) lb \<and> dol_code xs rest)"

abbreviation dol_sum :: "(u32 \<times> nat) list \<Rightarrow> nat" where
  "dol_sum xs \<equiv> sum_list (map snd xs)"

text \<open>The value cut along the list; an open length at the end takes the rest.\<close>

fun dol_split :: "(u32 \<times> nat) list \<Rightarrow> bytes \<Rightarrow> tlvdb list" where
  "dol_split [] data = []"
| "dol_split [(tag, len)] data =
    [if len = 0 then Tlvdb \<lparr>tlv_tag = tag, tlv_len = length data, tlv_value = data\<rparr> []
     else Tlvdb \<lparr>tlv_tag = tag, tlv_len = len, tlv_value = take len data\<rparr> []]"
| "dol_split ((tag, len) # xs) data = Tlvdb \<lparr>tlv_tag = tag, tlv_len = len, tlv_value = take len data\<rparr> [] # dol_split xs (drop len data)"

definition dol_open :: "(u32 \<times> nat) list \<Rightarrow> bool" where
  "dol_open xs \<longleftrightarrow> xs \<noteq> [] \<and> snd (last xs) = 0"

lemma dol_open_simps [simp]:
  "\<not> dol_open []" "dol_open [x] \<longleftrightarrow> snd x = 0" "dol_open (x # y # ys) \<longleftrightarrow> dol_open (y # ys)"
  by (simp_all add: dol_open_def)

lemma dol_code_Cons:
  assumes "dol_code (x # xs) bs"
  obtains rest where "bs \<noteq> []" "tlv_parse_tl bs = (Some \<lparr>tlv_tag = fst x, tlv_len = snd x, tlv_value = []\<rparr>, rest)"
    "dol_code xs rest" "rest = [] \<longleftrightarrow> xs = []"
proof -
  obtain tb lb rest where b: "bs = tb @ lb @ rest" "tag_code (fst x) tb" "len_code (snd x) lb" "dol_code xs rest"
    using assms by auto
  have "rest = [] \<longleftrightarrow> xs = []" using b(4) by (cases xs) (auto simp: tag_code_def)
  moreover have "bs \<noteq> []" using b(1,2) by (auto simp: tag_code_def)
  ultimately show ?thesis using that b parse_tl_code by simp
qed

lemma dol_len: "dol_code xs bs \<Longrightarrow> dol_len_loop data_len bs n = (if dol_open xs then data_len else n + dol_sum xs)"
proof (induction xs arbitrary: bs n)
  case Nil
  then show ?case by (simp add: dol_len_loop.simps)
next
  case (Cons x xs)
  obtain rest where r: "bs \<noteq> []" "tlv_parse_tl bs = (Some \<lparr>tlv_tag = fst x, tlv_len = snd x, tlv_value = []\<rparr>, rest)"
    "dol_code xs rest" "rest = [] \<longleftrightarrow> xs = []" using dol_code_Cons [OF Cons(2)] .
  show ?case
    by (subst dol_len_loop.simps) (use r Cons(1) [OF r(3)] in \<open>cases xs; simp\<close>)
qed

lemma dol_process_all:
  assumes "\<And>x. x \<in> set xs \<Longrightarrow> length (dol_entry db \<lparr>tlv_tag = fst x, tlv_len = snd x, tlv_value = []\<rparr>) = snd x"
  shows "dol_code xs bs \<Longrightarrow> length res + dol_sum xs \<le> res_len \<Longrightarrow> dol_process_loop db res_len bs res =
    Some (res @ concat (map (\<lambda>x. dol_entry db \<lparr>tlv_tag = fst x, tlv_len = snd x, tlv_value = []\<rparr>) xs))"
  using assms
proof (induction xs arbitrary: bs res)
  case Nil
  then show ?case by (simp add: dol_process_loop.simps)
next
  case (Cons x xs)
  obtain rest where r: "bs \<noteq> []" "tlv_parse_tl bs = (Some \<lparr>tlv_tag = fst x, tlv_len = snd x, tlv_value = []\<rparr>, rest)"
    "dol_code xs rest" using dol_code_Cons [OF Cons(2)] .
  show ?case
    by (subst dol_process_loop.simps) (use r Cons(1) [OF r(3)] Cons(3,4) in simp)
qed

lemma dol_parse_all:
  "dol_code xs bs \<Longrightarrow> pos \<le> length data \<Longrightarrow>
    (if dol_open xs then pos + dol_sum xs \<le> length data else pos + dol_sum xs = length data) \<Longrightarrow>
    dol_parse_loop data (length data) bs pos db = db @ dol_split xs (drop pos data)"
proof (induction xs arbitrary: bs pos db)
  case Nil
  then show ?case by (simp add: dol_parse_loop.simps)
next
  case (Cons x xs)
  obtain rest where r: "bs \<noteq> []" "tlv_parse_tl bs = (Some \<lparr>tlv_tag = fst x, tlv_len = snd x, tlv_value = []\<rparr>, rest)"
    "dol_code xs rest" "rest = [] \<longleftrightarrow> xs = []" using dol_code_Cons [OF Cons(2)] .
  obtain tag len where x: "x = (tag, len)" by (cases x)
  show ?case
  proof (cases xs)
    case Nil
    then show ?thesis using r Cons(3,4) x
      by (subst dol_parse_loop.simps) (auto simp: tlvdb_add_def tlvdb_fixed_def dol_parse_loop.simps [of _ _ "[]"])
  next
    case (Cons y ys)
    have "(if dol_open xs then pos + len + dol_sum xs \<le> length data else pos + len + dol_sum xs = length data)"
      using Cons.prems(3) Cons x by (auto simp: add.assoc split: if_splits)
    then show ?thesis using r Cons.IH [OF r(3), of "pos + len"] Cons.prems(2,3) x Cons
      by (subst dol_parse_loop.simps) (auto simp: tlvdb_add_def tlvdb_fixed_def add.commute split: if_splits)
  qed
qed

lemma dol_parse_short:
  "dol_code xs bs \<Longrightarrow> dol_open xs \<Longrightarrow> length data < pos + dol_sum xs \<Longrightarrow> dol_parse_loop data (length data) bs pos db = []"
proof (induction xs arbitrary: bs pos db)
  case (Cons x xs)
  obtain rest where r: "bs \<noteq> []" "tlv_parse_tl bs = (Some \<lparr>tlv_tag = fst x, tlv_len = snd x, tlv_value = []\<rparr>, rest)"
    "dol_code xs rest" "rest = [] \<longleftrightarrow> xs = []" using dol_code_Cons [OF Cons(2)] .
  show ?case
  proof (cases xs)
    case Nil
    then show ?thesis using r Cons(3,4) by (subst dol_parse_loop.simps) simp
  next
    case (Cons y ys)
    then show ?thesis using r Cons.IH [OF r(3), of "pos + snd x"] Cons.prems(2,3)
      by (subst dol_parse_loop.simps) (auto simp: add.assoc)
  qed
qed simp

lemma entry_length:
  assumes "cursor_ok db" "\<forall>e \<in> set (elements db). tlv_len e \<le> length (tlv_value e)"
  shows "length (dol_entry db cur) = tlv_len cur"
proof (cases "cursor_tlv (tlvdb_get db (tlv_tag cur) None)")
  case (Some e)
  have g: "elements (tlvdb_get db (tlv_tag cur) None) = dropWhile (\<lambda>e. tlv_tag e \<noteq> tlv_tag cur) (elements db) \<and>
      cursor_ok (tlvdb_get db (tlv_tag cur) None)"
    using get_loop_elements [OF assms(1)] by (simp add: tlvdb_get_def)
  then have "e \<in> set (dropWhile (\<lambda>e. tlv_tag e \<noteq> tlv_tag cur) (elements db))"
    using Some by (auto simp: cursor_tlv_elements split: list.splits)
  then have "tlv_len e \<le> length (tlv_value e)" using assms(2) set_dropWhileD by fast
  then show ?thesis using Some by (simp add: dol_entry_def)
qed (simp add: dol_entry_def)

lemma split_entries:
  assumes "\<And>x. x \<in> set xs \<Longrightarrow> length (f x) = snd x" "\<not> dol_open xs"
  shows "dol_split xs (concat (map f xs)) = map (\<lambda>x. Tlvdb \<lparr>tlv_tag = fst x, tlv_len = snd x, tlv_value = f x\<rparr> []) xs"
  using assms
proof (induction xs)
  case (Cons x xs)
  obtain tag len where x: "x = (tag, len)" by (cases x)
  show ?case
  proof (cases xs)
    case Nil
    then show ?thesis using Cons(2,3) x by simp
  next
    case (Cons y ys)
    then show ?thesis using Cons.IH Cons.prems x by simp
  qed
qed simp

text \<open>
  What an entry stands for, said without the cursor: the value of the first element of the tree with
  that tag, or nothing, followed by as many zeros as needed, cut to the length asked for.
\<close>

definition dol_part :: "tlv list \<Rightarrow> u32 \<times> nat \<Rightarrow> bytes" where
  "dol_part es x =
    take (snd x) ((case find (\<lambda>e. tlv_tag e = fst x) es of None \<Rightarrow> [] | Some e \<Rightarrow> take (tlv_len e) (tlv_value e)) @ replicate (snd x) 0)"

lemma find_dropWhile: "find P xs = (case dropWhile (\<lambda>x. \<not> P x) xs of [] \<Rightarrow> None | x # _ \<Rightarrow> Some x)"
  by (induction xs) simp_all

lemma entry_part:
  assumes "cursor_ok db" "\<forall>e \<in> set (elements db). tlv_len e \<le> length (tlv_value e)"
  shows "dol_entry db \<lparr>tlv_tag = fst x, tlv_len = snd x, tlv_value = []\<rparr> = dol_part (elements db) x"
proof -
  let ?p = "tlvdb_get db (fst x) None"
  have g: "elements ?p = dropWhile (\<lambda>e. tlv_tag e \<noteq> fst x) (elements db) \<and> cursor_ok ?p"
    using get_loop_elements [OF assms(1)] by (simp add: tlvdb_get_def)
  then have f: "cursor_tlv ?p = find (\<lambda>e. tlv_tag e = fst x) (elements db)"
    using cursor_tlv_elements [of ?p] by (simp add: find_dropWhile)
  show ?thesis
  proof (cases "find (\<lambda>e. tlv_tag e = fst x) (elements db)")
    case None
    then show ?thesis using f by (simp add: dol_entry_def dol_part_def)
  next
    case (Some e)
    then have "tlv_len e \<le> length (tlv_value e)" using assms(2) by (auto simp: find_Some_iff)
    then show ?thesis using f Some by (auto simp: dol_entry_def dol_part_def min_def)
  qed
qed

lemma dol_parts:
  fixes dol :: tlv
  assumes "dol_code xs (take (tlv_len dol) (tlv_value dol))" "cursor_ok db" "\<forall>e \<in> set (elements db). tlv_len e \<le> length (tlv_value e)"
  defines "entry \<equiv> dol_part (elements db)"
  shows "dol_process (Some dol) db tag = Some (if dol_open xs then \<lparr>tlv_tag = tag, tlv_len = 0, tlv_value = []\<rparr>
      else \<lparr>tlv_tag = tag, tlv_len = dol_sum xs, tlv_value = concat (map entry xs)\<rparr>)"
    and "dol_parse (Some dol) data =
      (if (if dol_open xs then dol_sum xs \<le> length data else dol_sum xs = length data) then dol_split xs data else [])"
    and "\<not> dol_open xs \<Longrightarrow> dol_parse (Some dol) (concat (map entry xs)) =
      map (\<lambda>x. Tlvdb \<lparr>tlv_tag = fst x, tlv_len = snd x, tlv_value = entry x\<rparr> []) xs"
proof -
  let ?bs = "take (tlv_len dol) (tlv_value dol)"
  have len: "dol_calculate_len (Some dol) n = (if dol_open xs then n else dol_sum xs)" for n
    using dol_len [OF assms(1), of n 0] by (simp add: dol_calculate_len_def)
  have part: "dol_entry db \<lparr>tlv_tag = fst x, tlv_len = snd x, tlv_value = []\<rparr> = entry x" for x
    using entry_part [OF assms(2,3)] by (simp add: entry_def)
  have el: "length (entry x) = snd x" for x using entry_length [OF assms(2,3)] part [symmetric] by simp
  then have "map length (map entry xs) = map snd xs" by (simp only: map_map comp_def)
  then have cl: "length (concat (map entry xs)) = dol_sum xs" by (simp only: length_concat)
  have pr: "dol_process_loop db (dol_sum xs) ?bs [] = Some (concat (map entry xs))"
    using dol_process_all [of xs db ?bs "[]"] el assms(1) by (simp add: part)
  have z: "concat (map entry xs) = []" if "dol_sum xs = 0" using cl that by simp
  have w: "write_at 0 (concat (map entry xs)) (replicate (dol_sum xs) 0) = concat (map entry xs)"
    using cl by (simp add: write_at_def)
  show "dol_process (Some dol) db tag = Some (if dol_open xs then \<lparr>tlv_tag = tag, tlv_len = 0, tlv_value = []\<rparr>
      else \<lparr>tlv_tag = tag, tlv_len = dol_sum xs, tlv_value = concat (map entry xs)\<rparr>)"
    using pr w z by (simp add: dol_process_def len Let_def)
  show p: "dol_parse (Some dol) data =
      (if (if dol_open xs then dol_sum xs \<le> length data else dol_sum xs = length data) then dol_split xs data else [])" for data
    using dol_parse_all [OF assms(1), of 0 data "[]"] dol_parse_short [OF assms(1), of data 0 "[]"] by (simp add: dol_parse_def len Let_def not_le)
  show "dol_parse (Some dol) (concat (map entry xs)) = map (\<lambda>x. Tlvdb \<lparr>tlv_tag = fst x, tlv_len = snd x, tlv_value = entry x\<rparr> []) xs"
    if "\<not> dol_open xs"
    using p [of "concat (map entry xs)"] split_entries [of xs entry] el that cl by simp
qed

text \<open>C39: for a list of tags and lengths, \<open>dol_process\<close> builds the concatenation of one part for each entry:
  the value of the first element of the tree with that tag, cut to the length of the entry or filled up with zeros
  behind it, or zeros alone where the tree has no such element; \<open>dol_parse\<close> splits that value back into these parts.
  A value is accepted by \<open>dol_parse\<close> exactly when its length fits, where a last length of 0 takes the rest. With
  such an open list \<open>dol_process\<close> returns an empty value, whatever the other entries are. Compressed numeric data are
  filled with zeros like all others, although a comment of the code asks for 0xFF there.\<close>

theorem dol_roundtrip:
  fixes dol :: tlv
  assumes "dol_code xs (take (tlv_len dol) (tlv_value dol))" "cursor_ok db" "\<forall>e \<in> set (elements db). tlv_len e \<le> length (tlv_value e)"
  defines "entry \<equiv> dol_part (elements db)"
  shows "dol_process (Some dol) db tag = Some (if dol_open xs then \<lparr>tlv_tag = tag, tlv_len = 0, tlv_value = []\<rparr>
      else \<lparr>tlv_tag = tag, tlv_len = dol_sum xs, tlv_value = concat (map entry xs)\<rparr>) \<and>
    dol_parse (Some dol) data =
      (if (if dol_open xs then dol_sum xs \<le> length data else dol_sum xs = length data) then dol_split xs data else []) \<and>
    (\<not> dol_open xs \<longrightarrow> dol_parse (Some dol) (concat (map entry xs)) =
      map (\<lambda>x. Tlvdb \<lparr>tlv_tag = fst x, tlv_len = snd x, tlv_value = entry x\<rparr> []) xs)"
  unfolding entry_def using dol_parts [OF assms(1-3)] by blast

lemma dol_roundtrip_witness:
  "dol_process (Some \<lparr>tlv_tag = 0x8C, tlv_len = 4, tlv_value = [0x84, 2, 0x50, 1]\<rparr>) [sample_tree] 0x83 =
    Some \<lparr>tlv_tag = 0x83, tlv_len = 3, tlv_value = [7, 0, 9]\<rparr>"
proof -
  let ?xs = "[(0x84, 2), (0x50, 1)] :: (u32 \<times> nat) list" and ?dol = "\<lparr>tlv_tag = 0x8C, tlv_len = 4, tlv_value = [0x84, 2, 0x50, 1]\<rparr> :: tlv"
  have t: "tag_code 0x84 [0x84]" "tag_code 0x50 [0x50]" by (simp_all add: tag_code_def TLV_TAG_VALUE_MASK_def TLV_TAG_VALUE_CONT_def)
  have l: "len_code 2 [2]" "len_code 1 [1]" by (simp_all add: len_code_def)
  have "dol_code [(0x50, 1)] [0x50, 1]" unfolding dol_code.simps
    by (rule exI [of _ "[0x50]"], rule exI [of _ "[1]"], rule exI [of _ "[]"]) (use t l in simp)
  then have "dol_code ?xs [0x84, 2, 0x50, 1]"
    by (subst dol_code.simps, intro exI [of _ "[0x84]"] exI [of _ "[2]"] exI [of _ "[0x50, 1]"]) (use t l in simp)
  then have c: "dol_code ?xs (take (tlv_len ?dol) (tlv_value ?dol))" by simp
  have "cursor_ok [sample_tree]" "\<forall>e \<in> set (elements [sample_tree]). tlv_len e \<le> length (tlv_value e)"
    by (simp_all add: cursor_ok_def sample_tree_def elements_def)
  note r = dol_roundtrip [OF c this, where tag = "0x83", THEN conjunct1]
  have e: "dol_part (elements [sample_tree]) (0x84, 2) = [7, 0]" "dol_part (elements [sample_tree]) (0x50, 1) = [9]" by code_simp+
  show ?thesis using r e by simp
qed

end
