(* ===== verification/Bruteforce.thy ===== *)
theory Bruteforce
  imports Prelude
begin

text \<open>
  The generator of keys for brute force attacks, \<open>common/bruteforce.c\<close>. Each call of \<open>bf_generate\<close>
  puts the next key of the chosen mode into the context.
\<close>

definition BF_GENERATOR_END :: int where "BF_GENERATOR_END = 0"
definition BF_GENERATOR_NEXT :: int where "BF_GENERATOR_NEXT = 1"
definition BF_GENERATOR_ERROR :: int where "BF_GENERATOR_ERROR = 2"
definition BF_MODE_RANGE :: u8 where "BF_MODE_RANGE = 1"
definition BF_MODE_CHARSET :: u8 where "BF_MODE_CHARSET = 2"
definition BF_MODE_SMART :: u8 where "BF_MODE_SMART = 3"
definition BF_CHARSET_DIGITS :: u8 where "BF_CHARSET_DIGITS = 1"
definition BF_CHARSET_UPPERCASE :: u8 where "BF_CHARSET_UPPERCASE = 2"
definition BF_KEY_SIZE_32 :: nat where "BF_KEY_SIZE_32 = 4"
definition BF_KEY_SIZE_48 :: nat where "BF_KEY_SIZE_48 = 6"

definition charset_digits :: bytes where
  "charset_digits = map (word_of_nat \<circ> of_char) ''0123456789''"

definition charset_uppercase :: bytes where
  "charset_uppercase = map (word_of_nat \<circ> of_char) ''ABCDEFGHIJKLMNOPQRSTUWXYZ''"

record generator_context =
  bf_pos :: "u8 list"
  bf_key_length :: nat
  current_key :: u64
  bf_mode :: u8
  bf_charset :: bytes
  charset_length :: nat
  range_low :: u32
  range_high :: u32
  smart_mode_stage :: nat
  flag1 :: bool
  flag2 :: bool
  flag3 :: bool
  counter1 :: u32
  counter2 :: u32

definition bf_generator_init :: "u8 \<Rightarrow> nat \<Rightarrow> generator_context" where
  "bf_generator_init mode key_length =
    \<lparr>bf_pos = replicate 6 0, bf_key_length = key_length, current_key = 0, bf_mode = mode, bf_charset = replicate 35 0,
     charset_length = 0, range_low = 0, range_high = 0, smart_mode_stage = 0, flag1 = False, flag2 = False, flag3 = False,
     counter1 = 0, counter2 = 0\<rparr>"

definition add_charset :: "bytes \<Rightarrow> generator_context \<Rightarrow> generator_context" where
  "add_charset cs ctx =
    ctx\<lparr>bf_charset := write_at (charset_length ctx) cs (bf_charset ctx), charset_length := charset_length ctx + length cs\<rparr>"

text \<open>The digits are copied to the front whatever the length is, as in the code.\<close>

definition bf_generator_set_charset :: "u8 \<Rightarrow> generator_context \<Rightarrow> int \<times> generator_context" where
  "bf_generator_set_charset charsets ctx =
    (if bf_mode ctx \<noteq> BF_MODE_CHARSET then (-1, ctx)
     else
       let ctx = (if charsets AND BF_CHARSET_DIGITS \<noteq> 0
                  then ctx\<lparr>bf_charset := write_at 0 charset_digits (bf_charset ctx), charset_length := charset_length ctx + length charset_digits\<rparr>
                  else ctx);
           ctx = (if charsets AND BF_CHARSET_UPPERCASE \<noteq> 0 then add_charset charset_uppercase ctx else ctx)
       in (0, ctx))"

text \<open>The carry loop of \<open>bf_array_increment\<close> from a position downwards.\<close>

primrec increment_from :: "nat \<Rightarrow> u8 \<Rightarrow> u8 list \<Rightarrow> int \<times> u8 list" where
  "increment_from 0 limit data =
    (let prev_value = data ! 0 + 1; data = data[0 := prev_value mod limit]
     in if prev_value = data ! 0 then (0, data) else (-1, data))"
| "increment_from (Suc pos) limit data =
    (let prev_value = data ! Suc pos + 1; data = data[Suc pos := prev_value mod limit]
     in if prev_value = data ! Suc pos then (0, data) else increment_from pos limit data)"

definition bf_array_increment :: "u8 list \<Rightarrow> nat \<Rightarrow> u8 \<Rightarrow> int \<times> u8 list" where
  "bf_array_increment data data_len limit =
    (if list_all (\<lambda>i. \<not> int (unat (data ! i)) < int (unat limit) - 1) [0..<data_len] then (-1, data)
     else increment_from (data_len - 1) limit data)"

definition bf_get_key32 :: "generator_context \<Rightarrow> u32" where
  "bf_get_key32 ctx = ucast (current_key ctx AND 0xFFFFFFFF)"

definition bf_get_key48 :: "generator_context \<Rightarrow> u64" where
  "bf_get_key48 ctx = current_key ctx AND 0xFFFFFFFFFFFF"

definition bf_generator_clear :: "generator_context \<Rightarrow> generator_context" where
  "bf_generator_clear ctx = ctx\<lparr>flag1 := False, flag2 := False, flag3 := False, counter1 := 0, counter2 := 0\<rparr>"

definition bf_generate_mode_range :: "generator_context \<Rightarrow> int \<times> generator_context" where
  "bf_generate_mode_range ctx =
    (if bf_key_length ctx \<noteq> BF_KEY_SIZE_32 \<and> bf_key_length ctx \<noteq> BF_KEY_SIZE_48 then (BF_GENERATOR_ERROR, ctx)
     else if current_key ctx \<ge> ucast (range_high ctx) then (BF_GENERATOR_END, ctx)
     else if current_key ctx \<le> ucast (range_low ctx) \<and> \<not> flag1 ctx
     then (BF_GENERATOR_NEXT, ctx\<lparr>current_key := ucast (range_low ctx), flag1 := True\<rparr>)
     else (BF_GENERATOR_NEXT, ctx\<lparr>current_key := current_key ctx + 1\<rparr>))"

text \<open>A key of \<open>n\<close> bytes, the first one most significant.\<close>

definition key_bytes :: "nat \<Rightarrow> (nat \<Rightarrow> u8) \<Rightarrow> u64" where
  "key_bytes n f = fold (\<lambda>key_byte key. key OR shl (ucast (f key_byte)) ((n - key_byte - 1) * 8)) [0..<n] 0"

definition bf_generate_mode_charset :: "generator_context \<Rightarrow> int \<times> generator_context" where
  "bf_generate_mode_charset ctx =
    (if bf_key_length ctx \<noteq> BF_KEY_SIZE_32 \<and> bf_key_length ctx \<noteq> BF_KEY_SIZE_48 then (BF_GENERATOR_ERROR, ctx)
     else if flag1 ctx then (BF_GENERATOR_END, ctx)
     else
       let ctx = ctx\<lparr>current_key := key_bytes (bf_key_length ctx) (\<lambda>i. bf_charset ctx ! unat (bf_pos ctx ! i))\<rparr>
       in case bf_array_increment (bf_pos ctx) (bf_key_length ctx) (word_of_nat (charset_length ctx)) of (r, pos) \<Rightarrow>
         let ctx = ctx\<lparr>bf_pos := pos\<rparr>
         in (BF_GENERATOR_NEXT, if r = -1 then ctx\<lparr>flag1 := True\<rparr> else ctx))"

definition smart_generator_byte_repeat :: "generator_context \<Rightarrow> int \<times> generator_context" where
  "smart_generator_byte_repeat ctx =
    (let current_byte = counter1 ctx
     in if current_byte > 0xFF then (BF_GENERATOR_END, ctx)
        else (BF_GENERATOR_NEXT, ctx\<lparr>current_key := key_bytes (bf_key_length ctx) (\<lambda>i. ucast current_byte), counter1 := counter1 ctx + 1\<rparr>))"

definition smart_generator_msb_byte_only :: "generator_context \<Rightarrow> int \<times> generator_context" where
  "smart_generator_msb_byte_only ctx =
    (let current_byte = counter1 ctx
     in if current_byte > 0xFF then (BF_GENERATOR_END, ctx)
        else (BF_GENERATOR_NEXT, ctx\<lparr>current_key := shl (ucast current_byte) ((bf_key_length ctx - 1) * 8), counter1 := counter1 ctx + 1\<rparr>))"

definition max_offset :: "nat \<Rightarrow> nat" where
  "max_offset key_length = 10 - key_length div 2 - (key_length div 2) mod 2"

definition nibble_key :: "nat \<Rightarrow> u32 \<Rightarrow> u32 \<Rightarrow> u64" where
  "nibble_key n c1 c2 =
    fold (\<lambda>key_byte key. (key OR shl (ucast c1) ((n - key_byte - 1) * 8 + 4)) OR
      shl (ucast (word_of_nat key_byte + c2) mod 10) ((n - key_byte - 1) * 8)) [0..<n] 0"

definition smart_generator_nibble_sequence :: "generator_context \<Rightarrow> int \<times> generator_context" where
  "smart_generator_nibble_sequence ctx =
    (let ctx = (if counter1 ctx = 0 then ctx\<lparr>counter1 := 0x0A\<rparr> else ctx)
     in if counter1 ctx = 0x10 then (BF_GENERATOR_END, ctx)
        else
          let ctx = ctx\<lparr>current_key := nibble_key (bf_key_length ctx) (counter1 ctx) (counter2 ctx), counter2 := counter2 ctx + 1\<rparr>
          in (BF_GENERATOR_NEXT,
              if counter2 ctx = word_of_nat (max_offset (bf_key_length ctx)) then ctx\<lparr>counter2 := 0, counter1 := counter1 ctx + 1\<rparr> else ctx))"

definition smart_generators :: "(generator_context \<Rightarrow> int \<times> generator_context) list" where
  "smart_generators = [smart_generator_byte_repeat, smart_generator_msb_byte_only, smart_generator_nibble_sequence]"

text \<open>The first argument bounds the passes: one for each generator and one for the \<open>NULL\<close> that ends the table.\<close>

primrec smart_loop :: "nat \<Rightarrow> generator_context \<Rightarrow> int \<times> generator_context" where
  "smart_loop 0 ctx = (BF_GENERATOR_END, ctx)"
| "smart_loop (Suc passes) ctx =
    (if smart_mode_stage ctx \<ge> length smart_generators then (BF_GENERATOR_END, ctx)
     else case (smart_generators ! smart_mode_stage ctx) ctx of (ret, ctx) \<Rightarrow>
       if ret = BF_GENERATOR_END then smart_loop passes (bf_generator_clear (ctx\<lparr>smart_mode_stage := smart_mode_stage ctx + 1\<rparr>))
       else (ret, ctx))"

definition bf_generate_mode_smart :: "generator_context \<Rightarrow> int \<times> generator_context" where
  "bf_generate_mode_smart ctx = smart_loop 4 ctx"

definition bf_generate :: "generator_context \<Rightarrow> int \<times> generator_context" where
  "bf_generate ctx =
    (if bf_mode ctx = BF_MODE_RANGE then bf_generate_mode_range ctx
     else if bf_mode ctx = BF_MODE_CHARSET then bf_generate_mode_charset ctx
     else if bf_mode ctx = BF_MODE_SMART then bf_generate_mode_smart ctx
     else (BF_GENERATOR_ERROR, ctx))"

end
