(* ===== verification/Bruteforce_Laws.thy ===== *)
theory Bruteforce_Laws
  imports Bruteforce
begin

text \<open>
  What the key generator emits: the exact sequence of keys of each mode, that every key of the search
  space comes after finitely many calls, and that the generator then ends for good.
\<close>

subsection \<open>Sequences of calls\<close>

definition calls :: "nat \<Rightarrow> generator_context \<Rightarrow> generator_context" where
  "calls k ctx = ((snd \<circ> bf_generate) ^^ k) ctx"

definition emits :: "generator_context \<Rightarrow> u64 list \<Rightarrow> bool" where
  "emits ctx ks \<longleftrightarrow> (\<forall>k. if k < length ks
     then fst (bf_generate (calls k ctx)) = BF_GENERATOR_NEXT \<and> current_key (snd (bf_generate (calls k ctx))) = ks ! k
     else fst (bf_generate (calls k ctx)) = BF_GENERATOR_END)"

definition emitted :: "generator_context \<Rightarrow> u64 \<Rightarrow> bool" where
  "emitted ctx key \<longleftrightarrow> (\<exists>k. fst (bf_generate (calls k ctx)) = BF_GENERATOR_NEXT \<and> current_key (snd (bf_generate (calls k ctx))) = key)"

definition ends :: "generator_context \<Rightarrow> bool" where
  "ends ctx \<longleftrightarrow> (\<exists>n. \<forall>k \<ge> n. fst (bf_generate (calls k ctx)) = BF_GENERATOR_END)"

lemma generator_codes [simp]:
  "BF_GENERATOR_END \<noteq> BF_GENERATOR_NEXT" "BF_GENERATOR_NEXT \<noteq> BF_GENERATOR_END" "BF_GENERATOR_ERROR \<noteq> BF_GENERATOR_END"
  by (simp_all add: BF_GENERATOR_END_def BF_GENERATOR_NEXT_def BF_GENERATOR_ERROR_def)

lemma calls_simps [simp]: "calls 0 ctx = ctx" "calls (Suc k) ctx = calls k (snd (bf_generate ctx))"
  by (simp_all add: calls_def funpow_swap1)

lemma emits_set: "emits ctx ks \<Longrightarrow> emitted ctx key \<longleftrightarrow> key \<in> set ks"
  unfolding emits_def emitted_def in_set_conv_nth by (metis generator_codes(1))

lemma emits_ends: "emits ctx ks \<Longrightarrow> ends ctx"
  unfolding emits_def ends_def by (meson not_le)

lemma emits_Nil:
  assumes "bf_generate ctx = (BF_GENERATOR_END, ctx)"
  shows "emits ctx []"
proof -
  have "calls k ctx = ctx" for k using assms by (induction k) simp_all
  then show ?thesis using assms by (simp add: emits_def)
qed

lemma emits_Cons:
  assumes "bf_generate ctx = (BF_GENERATOR_NEXT, ctx')" "emits ctx' ks"
  shows "emits ctx (current_key ctx' # ks)"
  unfolding emits_def
proof
  fix k
  show "if k < length (current_key ctx' # ks)
     then fst (bf_generate (calls k ctx)) = BF_GENERATOR_NEXT \<and> current_key (snd (bf_generate (calls k ctx))) = (current_key ctx' # ks) ! k
     else fst (bf_generate (calls k ctx)) = BF_GENERATOR_END"
    using assms unfolding emits_def by (cases k) simp_all
qed

lemma emits_same:
  assumes "bf_generate ctx = bf_generate ctx'" "emits ctx' ks"
  shows "emits ctx ks"
proof -
  have "bf_generate (calls k ctx) = bf_generate (calls k ctx')" for k using assms(1) by (cases k) simp_all
  then show ?thesis using assms(2) by (simp add: emits_def)
qed

subsection \<open>Ranges\<close>

lemma len_32_64: "LENGTH(32) \<le> LENGTH(64)"
  by simp

lemma u32_u64: "ucast (w :: u32) = (word_of_nat (unat w) :: u64)"
  by simp

definition key_size :: "nat \<Rightarrow> bool" where
  "key_size n \<longleftrightarrow> n = BF_KEY_SIZE_32 \<or> n = BF_KEY_SIZE_48"

lemma key_size_test: "key_size n \<Longrightarrow> (n \<noteq> BF_KEY_SIZE_32 \<and> n \<noteq> BF_KEY_SIZE_48) = False"
  by (auto simp: key_size_def)

lemma range_next:
  assumes "bf_mode ctx = BF_MODE_RANGE" "key_size (bf_key_length ctx)" "flag1 ctx" "current_key ctx = word_of_nat c" "c \<le> 2 ^ 32"
  shows "emits ctx (map word_of_nat [Suc c..<Suc (unat (range_high ctx))])"
  using assms
proof (induction "unat (range_high ctx) - c" arbitrary: ctx c)
  case 0
  have r: "unat (range_high ctx) < 2 ^ 32" using unsigned_less [of "range_high ctx", where 'a = nat] by simp
  have "unat (word_of_nat c :: u64) = c" using 0(6) by (simp add: unat_of_nat take_bit_nat_eq_self)
  then have "bf_generate ctx = (BF_GENERATOR_END, ctx)"
    using 0 r by (simp add: bf_generate_def bf_generate_mode_range_def key_size_test word_le_nat_alt unat_ucast_up)
  then show ?case using emits_Nil 0(1) by simp
next
  case (Suc d)
  let ?h = "unat (range_high ctx)"
  have r: "?h < 2 ^ 32" using unsigned_less [of "range_high ctx", where 'a = nat] by simp
  then have c: "c < ?h" using Suc(2) by linarith
  have "unat (word_of_nat c :: u64) = c" using Suc(7) by (simp add: unat_of_nat take_bit_nat_eq_self)
  then have g: "bf_generate ctx = (BF_GENERATOR_NEXT, ctx\<lparr>current_key := word_of_nat (Suc c)\<rparr>)"
    using Suc(3-6) c by (simp add: bf_generate_def bf_generate_mode_range_def key_size_test word_le_nat_alt unat_ucast_up add.commute)
  have "emits (ctx\<lparr>current_key := word_of_nat (Suc c)\<rparr>) (map word_of_nat [Suc (Suc c)..<Suc ?h])"
    using Suc(1) [of "ctx\<lparr>current_key := word_of_nat (Suc c)\<rparr>" "Suc c"] Suc(2-7) c r by simp
  moreover have "[Suc c..<Suc ?h] = Suc c # [Suc (Suc c)..<Suc ?h]" using c by (simp add: upt_conv_Cons del: upt_Suc)
  ultimately show ?case using emits_Cons [OF g] by (simp del: upt_Suc)
qed

lemma range_emits:
  assumes "key_size n"
  shows "emits ((bf_generator_init BF_MODE_RANGE n)\<lparr>range_low := lo, range_high := hi\<rparr>)
    (if hi = 0 then [] else map word_of_nat (unat lo # [Suc (unat lo)..<Suc (unat hi)]))"
proof -
  let ?ctx = "(bf_generator_init BF_MODE_RANGE n)\<lparr>range_low := lo, range_high := hi\<rparr>"
  show ?thesis
  proof (cases "hi = 0")
    case True
    then have "bf_generate ?ctx = (BF_GENERATOR_END, ?ctx)"
      using assms by (simp add: bf_generate_def bf_generate_mode_range_def bf_generator_init_def key_size_test)
    then show ?thesis using True emits_Nil by simp
  next
    case False
    have "(ucast hi :: u64) \<noteq> 0" using False by (metis unat_eq_zero unat_ucast_up unsigned_0 len_32_64)
    then have g: "bf_generate ?ctx = (BF_GENERATOR_NEXT, ?ctx\<lparr>current_key := ucast lo, flag1 := True\<rparr>)"
      using assms by (simp add: bf_generate_def bf_generate_mode_range_def bf_generator_init_def key_size_test)
    let ?c = "?ctx\<lparr>current_key := ucast lo, flag1 := True\<rparr>"
    have lo: "unat lo \<le> 2 ^ 32" using unsigned_less [of lo, where 'a = nat] by simp
    have "emits ?c (map word_of_nat [Suc (unat lo)..<Suc (unat (range_high ?c))])"
      by (rule range_next [OF _ _ _ _ lo]) (use assms in \<open>simp_all add: bf_generator_init_def\<close>)
    from emits_Cons [OF g this] show ?thesis using False by simp
  qed
qed


subsection \<open>Words over a character set\<close>

text \<open>A word as a number, the first digit most significant, and back.\<close>

definition digits_val :: "nat \<Rightarrow> u8 list \<Rightarrow> nat" where
  "digits_val n ds = foldl (\<lambda>v d. v * n + unat d) 0 ds"

fun val_digits :: "nat \<Rightarrow> nat \<Rightarrow> nat \<Rightarrow> u8 list" where
  "val_digits n 0 v = []"
| "val_digits n (Suc m) v = val_digits n m (v div n) @ [word_of_nat (v mod n)]"

lemma digits_val_snoc [simp]: "digits_val n (ds @ [d]) = digits_val n ds * n + unat d" "digits_val n [] = 0" "digits_val n [d] = unat d"
  by (simp_all add: digits_val_def)

lemma length_val_digits [simp]: "length (val_digits n m v) = m"
  by (induction n m v rule: val_digits.induct) simp_all

lemma unat_small: "k < 256 \<Longrightarrow> unat (word_of_nat k :: u8) = k"
  by (simp only: unat_of_nat) simp

lemma val_digits_less: "0 < n \<Longrightarrow> n \<le> 256 \<Longrightarrow> d \<in> set (val_digits n m v) \<Longrightarrow> unat d < n"
proof (induction n m v rule: val_digits.induct)
  case (2 n m v)
  have "v mod n < n" using 2(2) by simp
  then have "unat (word_of_nat (v mod n) :: u8) = v mod n"
    using 2(3) by (intro unat_small) simp
  then show ?case using 2 by auto
qed simp

lemma val_digits_val: "0 < n \<Longrightarrow> \<forall>d \<in> set ds. unat d < n \<Longrightarrow> val_digits n (length ds) (digits_val n ds) = ds"
  by (induction ds rule: rev_induct) simp_all

lemma digits_val_digits: "0 < n \<Longrightarrow> n \<le> 256 \<Longrightarrow> v < n ^ m \<Longrightarrow> digits_val n (val_digits n m v) = v"
proof (induction n m v rule: val_digits.induct)
  case (2 n m v)
  have "v mod n < n" using 2(2) by simp
  then have u: "unat (word_of_nat (v mod n) :: u8) = v mod n"
    using 2(3) by (intro unat_small) simp
  have "v div n < n ^ m" using 2(4) by (simp add: less_mult_imp_div_less mult.commute)
  then show ?case using 2(1) [OF 2(2,3)] u by simp
qed simp

lemma digits_val_less: "0 < n \<Longrightarrow> \<forall>d \<in> set ds. unat d < n \<Longrightarrow> digits_val n ds < n ^ length ds"
proof (induction ds rule: rev_induct)
  case (snoc d ds)
  then have "digits_val n ds + 1 \<le> n ^ length ds" by simp
  then have "(digits_val n ds + 1) * n \<le> n ^ length ds * n" by (rule mult_right_mono) simp
  then show ?case using snoc(3) by (simp add: mult.commute)
qed simp

text \<open>The increment: the carry loop adds one to the digits up to its position.\<close>

lemma increment_from_prefix:
  assumes "0 < n" "n < 128" "p < length data" "\<forall>i \<le> p. unat (data ! i) < n" "\<exists>i \<le> p. unat (data ! i) < n - 1"
  shows "\<exists>data'. increment_from p (word_of_nat n) data = (0, data') \<and> length data' = length data \<and>
    digits_val n (take (Suc p) data') = digits_val n (take (Suc p) data) + 1 \<and> drop (Suc p) data' = drop (Suc p) data \<and>
    (\<forall>i \<le> p. unat (data' ! i) < n)"
  using assms(3-5)
proof (induction p arbitrary: data)
  have nn: "unat (word_of_nat n :: u8) = n" using assms(2) by (intro unat_small) simp
  have step: "unat (d + 1) = unat d + 1" "unat ((d + 1) mod word_of_nat n) = (unat d + 1) mod n" if "unat d < n" for d :: u8
  proof -
    show u: "unat (d + 1) = unat d + 1" using that assms(2) by (simp add: unat_word_ariths)
    show "unat ((d + 1) mod word_of_nat n) = (unat d + 1) mod n" by (simp add: unat_mod_distrib u nn)
  qed
  have same: "d + 1 = (d + 1) mod word_of_nat n \<longleftrightarrow> unat d + 1 < n" if "unat d < n" for d :: u8
    using step [OF that] that by (auto simp: word_unat_eq_iff mod_if)
  {
    case 0
    then have d: "unat (data ! 0) + 1 < n" "unat (data ! 0) < n" by auto
    obtain x xs where x: "data = x # xs" using 0(1) by (cases data) simp_all
    show ?case using same [OF d(2)] step(2) [OF d(2)] d(1) by (simp add: x)
  next
    case (Suc p)
    let ?d = "data ! Suc p" and ?data = "data[Suc p := (data ! Suc p + 1) mod word_of_nat n]"
    have d: "unat ?d < n" using Suc(3) by simp
    have t: "take (Suc (Suc p)) xs = take (Suc p) xs @ [xs ! Suc p]" if "length xs = length data" for xs :: "u8 list"
      using Suc(2) that by (simp add: take_Suc_conv_app_nth)
    show ?case
    proof (cases "unat ?d + 1 < n")
      case True
      have "increment_from (Suc p) (word_of_nat n) data = (0, ?data)"
        using same [OF d] True Suc(2) by (simp add: Let_def)
      moreover have "digits_val n (take (Suc (Suc p)) ?data) = digits_val n (take (Suc (Suc p)) data) + 1"
        using step(2) [OF d] True Suc(2) by (simp only: t length_list_update digits_val_snoc) simp
      moreover have "\<forall>i \<le> Suc p. unat (?data ! i) < n" using step(2) [OF d] True Suc(2,3) by (auto simp: nth_list_update)
      ultimately show ?thesis by simp
    next
      case False
      then have m: "unat ?d = n - 1" using d by linarith
      have z: "unat ((?d + 1) mod word_of_nat n) = 0" using step(2) [OF d] m assms(1) by simp
      have i: "increment_from (Suc p) (word_of_nat n) data = increment_from p (word_of_nat n) ?data"
        using same [OF d] False Suc(2) by (simp add: Let_def)
      have e: "\<exists>i \<le> p. unat (?data ! i) < n - 1"
        using Suc(4) m by (auto simp: le_Suc_eq)
      obtain data' where r: "increment_from p (word_of_nat n) ?data = (0, data')" "length data' = length ?data"
        "digits_val n (take (Suc p) data') = digits_val n (take (Suc p) ?data) + 1" "drop (Suc p) data' = drop (Suc p) ?data"
        "\<forall>i \<le> p. unat (data' ! i) < n"
        using Suc.IH [OF _ _ e] Suc(2,3) by auto
      have ds: "data' ! Suc p = ?data ! Suc p"
        using arg_cong [OF r(4), of "\<lambda>xs. xs ! 0"] r(2) Suc(2) by simp
      have "digits_val n (take (Suc (Suc p)) data') = digits_val n (take (Suc (Suc p)) data) + 1"
        using r(2,3) Suc(2) ds z m assms(1) by (simp only: t length_list_update digits_val_snoc) (simp add: algebra_simps)
      moreover have "drop (Suc (Suc p)) data' = drop (Suc (Suc p)) data"
        using arg_cong [OF r(4), of "drop 1"] by simp
      moreover have "\<forall>i \<le> Suc p. unat (data' ! i) < n" using r(5) ds z Suc(2) assms(1) by (auto simp: le_Suc_eq)
      ultimately show ?thesis using i r(1,2) by simp
    qed
  }
qed


lemma digits_val_top: "0 < n \<Longrightarrow> \<forall>d \<in> set ds. unat d = n - 1 \<Longrightarrow> digits_val n ds + 1 = n ^ length ds"
proof (induction ds rule: rev_induct)
  case (snoc d ds)
  then have "digits_val n ds + 1 = n ^ length ds" by simp
  then have "n ^ length (ds @ [d]) = (digits_val n ds + 1) * n" by simp
  also have "\<dots> = digits_val n ds * n + (n - 1) + 1" using snoc(2) by (simp add: algebra_simps)
  finally show ?case using snoc(3) by simp
qed simp

lemma key_bytes_cong: "(\<And>i. i < n \<Longrightarrow> f i = g i) \<Longrightarrow> key_bytes n f = key_bytes n g"
  unfolding key_bytes_def by (rule fold_cong) auto

definition charset_key :: "bytes \<Rightarrow> nat \<Rightarrow> nat \<Rightarrow> nat \<Rightarrow> u64" where
  "charset_key cs n m v = key_bytes m (\<lambda>i. cs ! unat (val_digits n m v ! i))"

lemma charset_next:
  assumes "bf_mode ctx = BF_MODE_CHARSET" "key_size (bf_key_length ctx)" "\<not> flag1 ctx" "charset_length ctx = n" "0 < n" "n < 128"
    "length (bf_pos ctx) = 6" "\<forall>i < bf_key_length ctx. unat (bf_pos ctx ! i) < n" "v = digits_val n (take (bf_key_length ctx) (bf_pos ctx))"
  shows "emits ctx (map (charset_key (bf_charset ctx) n (bf_key_length ctx)) [v..<n ^ bf_key_length ctx])"
  using assms
proof (induction "n ^ bf_key_length ctx - v" arbitrary: ctx v)
  case 0
  have "\<forall>d \<in> set (take (bf_key_length ctx) (bf_pos ctx)). unat d < n" using 0(9) by (auto simp: set_conv_nth)
  then have "v < n ^ length (take (bf_key_length ctx) (bf_pos ctx))" unfolding 0(10) using 0(6) by (intro digits_val_less)
  moreover have "bf_key_length ctx \<le> 6" using 0(3) by (auto simp: key_size_def BF_KEY_SIZE_32_def BF_KEY_SIZE_48_def)
  ultimately show ?case using 0(1,8) by simp
next
  case (Suc k)
  let ?m = "bf_key_length ctx" and ?pos = "bf_pos ctx"
  let ?key = "key_bytes ?m (\<lambda>i. bf_charset ctx ! unat (?pos ! i))"
  have m: "?m \<le> 6" "0 < ?m" using Suc(4) by (auto simp: key_size_def BF_KEY_SIZE_32_def BF_KEY_SIZE_48_def)
  have l: "length (take ?m ?pos) = ?m" using m Suc(9) by simp
  have ds: "\<forall>d \<in> set (take ?m ?pos). unat d < n" using Suc(10) by (auto simp: set_conv_nth)
  have "v < n ^ ?m" unfolding Suc(11) using digits_val_less [OF Suc(7) ds] l by simp
  then have u: "[v..<n ^ ?m] = v # [Suc v..<n ^ ?m]" by (simp add: upt_conv_Cons)
  have vd: "val_digits n ?m v = take ?m ?pos" unfolding Suc(11) using val_digits_val [OF Suc(7) ds] l by simp
  have key: "?key = charset_key (bf_charset ctx) n ?m v"
    unfolding charset_key_def by (rule key_bytes_cong) (simp add: vd)
  have nn: "unat (word_of_nat n :: u8) = n" using Suc(8) by (intro unat_small) simp
  have test: "list_all (\<lambda>i. \<not> int (unat (?pos ! i)) < int (unat (word_of_nat n :: u8)) - 1) [0..<?m] \<longleftrightarrow> (\<forall>i < ?m. unat (?pos ! i) = n - 1)"
  proof -
    have "(\<not> int x < int n - 1) = (x = n - 1)" if "x < n" for x using that by linarith
    then have "\<forall>i < ?m. (\<not> int (unat (?pos ! i)) < int n - 1) = (unat (?pos ! i) = n - 1)" using Suc(10) by blast
    then show ?thesis unfolding nn list_all_iff by auto
  qed
  show ?case
  proof (cases "\<forall>i < ?m. unat (?pos ! i) = n - 1")
    case True
    let ?c = "ctx\<lparr>current_key := ?key, flag1 := True\<rparr>"
    have "bf_array_increment ?pos ?m (word_of_nat n) = (-1, ?pos)" using True test by (simp add: bf_array_increment_def)
    then have g: "bf_generate ctx = (BF_GENERATOR_NEXT, ?c)"
      using Suc(3-6)
      by (simp add: key_size_test bf_generate_def bf_generate_mode_charset_def BF_MODE_RANGE_def BF_MODE_CHARSET_def Let_def)
    have e: "emits ?c []"
      by (rule emits_Nil) (use Suc(3,4) in
        \<open>simp add: key_size_test bf_generate_def bf_generate_mode_charset_def BF_MODE_RANGE_def BF_MODE_CHARSET_def\<close>)
    have "\<forall>d \<in> set (take ?m ?pos). unat d = n - 1" using True by (auto simp: set_conv_nth)
    then have "v + 1 = n ^ ?m" unfolding Suc(11) using digits_val_top [OF Suc(7)] l by metis
    then show ?thesis using emits_Cons [OF g e] u by (simp add: key)
  next
    case False
    then obtain j where j: "j < ?m" "unat (?pos ! j) \<noteq> n - 1" by blast
    have x: "\<exists>i \<le> ?m - 1. unat (?pos ! i) < n - 1"
    proof (intro exI conjI)
      show "j \<le> ?m - 1" using j(1) by linarith
      have "unat (?pos ! j) < n" using Suc(10) j(1) by blast
      then show "unat (?pos ! j) < n - 1" using j(2) by linarith
    qed
    have pl: "?m - 1 < length ?pos" "\<forall>i \<le> ?m - 1. unat (?pos ! i) < n" "Suc (?m - 1) = ?m" using m Suc(9,10) by auto
    obtain pos' where p: "increment_from (?m - 1) (word_of_nat n) ?pos = (0, pos')" "length pos' = length ?pos"
      "digits_val n (take ?m pos') = digits_val n (take ?m ?pos) + 1" "\<forall>i \<le> ?m - 1. unat (pos' ! i) < n"
      using increment_from_prefix [OF Suc(7,8) pl(1,2) x] unfolding pl(3) by blast
    let ?c = "ctx\<lparr>current_key := ?key, bf_pos := pos'\<rparr>"
    have "bf_array_increment ?pos ?m (word_of_nat n) = (0, pos')" using False test p(1) by (simp add: bf_array_increment_def)
    then have g: "bf_generate ctx = (BF_GENERATOR_NEXT, ?c)"
      using Suc(3-6)
      by (simp add: key_size_test bf_generate_def bf_generate_mode_charset_def BF_MODE_RANGE_def BF_MODE_CHARSET_def Let_def)
    have "emits ?c (map (charset_key (bf_charset ?c) n (bf_key_length ?c)) [Suc v..<n ^ bf_key_length ?c])"
    proof (rule Suc(1))
      show "k = n ^ bf_key_length ?c - Suc v" using Suc(2) by simp
      show "\<forall>i < bf_key_length ?c. unat (bf_pos ?c ! i) < n" using p(4) m(2) by auto
      show "Suc v = digits_val n (take (bf_key_length ?c) (bf_pos ?c))" using p(3) Suc(11) by simp
    qed (use Suc(3-9) p(2) in simp_all)
    then show ?thesis using emits_Cons [OF g] u by (simp add: key)
  qed
qed


subsection \<open>Smart mode\<close>

lemma stage_kept:
  assumes "s < length smart_generators"
  shows "smart_mode_stage (snd ((smart_generators ! s) ctx)) = smart_mode_stage ctx"
proof -
  consider "s = 0" | "s = 1" | "s = 2" using assms by (force simp: smart_generators_def)
  then show ?thesis
    by cases (simp_all add: smart_generators_def smart_generator_byte_repeat_def smart_generator_msb_byte_only_def
        smart_generator_nibble_sequence_def Let_def)
qed

lemma smart_enough: "length smart_generators < n + smart_mode_stage ctx \<Longrightarrow> smart_loop (Suc n) ctx = smart_loop n ctx"
proof (induction n arbitrary: ctx)
  case (Suc n)
  show ?case
  proof (cases "smart_mode_stage ctx < length smart_generators")
    case True
    obtain ret ctx' where g: "(smart_generators ! smart_mode_stage ctx) ctx = (ret, ctx')" by (cases "(smart_generators ! smart_mode_stage ctx) ctx")
    have "smart_mode_stage ctx' = smart_mode_stage ctx" using stage_kept [OF True, of ctx] g by simp
    then have IH: "smart_loop (Suc n) (bf_generator_clear (ctx'\<lparr>smart_mode_stage := smart_mode_stage ctx' + 1\<rparr>)) =
        smart_loop n (bf_generator_clear (ctx'\<lparr>smart_mode_stage := smart_mode_stage ctx' + 1\<rparr>))"
      using Suc(2) by (intro Suc(1)) (simp add: bf_generator_clear_def)
    have u: "smart_loop (Suc m) ctx =
        (if ret = BF_GENERATOR_END then smart_loop m (bf_generator_clear (ctx'\<lparr>smart_mode_stage := smart_mode_stage ctx' + 1\<rparr>)) else (ret, ctx'))" for m
      using True g by simp
    show ?thesis unfolding u [of "Suc n"] u [of n] IH ..
  next
    case False
    then show ?thesis by simp
  qed
qed simp

definition smart_ctx :: "generator_context \<Rightarrow> nat \<Rightarrow> nat \<Rightarrow> bool" where
  "smart_ctx ctx m s \<longleftrightarrow> bf_mode ctx = BF_MODE_SMART \<and> bf_key_length ctx = m \<and> smart_mode_stage ctx = s"

lemma smart_generate:
  assumes "smart_ctx ctx m s" "s < length smart_generators" "(smart_generators ! s) ctx = (ret, ctx')"
  shows "bf_generate ctx = (if ret = BF_GENERATOR_END then bf_generate (bf_generator_clear (ctx'\<lparr>smart_mode_stage := s + 1\<rparr>)) else (ret, ctx'))"
proof -
  let ?c = "bf_generator_clear (ctx'\<lparr>smart_mode_stage := s + 1\<rparr>)"
  have k: "smart_mode_stage ctx' = s" using stage_kept [OF assms(2), of ctx] assms(1,3) by (simp add: smart_ctx_def)
  have m: "bf_mode ctx' = BF_MODE_SMART"
  proof -
    consider "s = 0" | "s = 1" | "s = 2" using assms(2) by (force simp: smart_generators_def)
    then have "bf_mode (snd ((smart_generators ! s) ctx)) = bf_mode ctx"
      by cases (simp_all add: smart_generators_def smart_generator_byte_repeat_def smart_generator_msb_byte_only_def
          smart_generator_nibble_sequence_def Let_def)
    then show ?thesis using assms(1,3) by (simp add: smart_ctx_def)
  qed
  have g: "bf_generate c = smart_loop 4 c" if "bf_mode c = BF_MODE_SMART" for c
    using that by (simp add: bf_generate_def bf_generate_mode_smart_def BF_MODE_SMART_def BF_MODE_RANGE_def BF_MODE_CHARSET_def)
  have c: "bf_generate ?c = smart_loop 4 ?c" using m by (intro g) (simp add: bf_generator_clear_def)
  have e: "smart_loop 4 ?c = smart_loop 3 ?c"
    using smart_enough [of 3 ?c] by (simp add: bf_generator_clear_def smart_generators_def eval_nat_numeral)
  have "bf_generate ctx = smart_loop (Suc 3) ctx" using g [of ctx] assms(1) by (simp add: smart_ctx_def eval_nat_numeral)
  also have "\<dots> = (if ret = BF_GENERATOR_END then smart_loop 3 ?c else (ret, ctx'))"
    unfolding smart_loop.simps using assms k by (simp add: smart_ctx_def)
  finally show ?thesis unfolding c e .
qed

lemma smart_end:
  assumes "smart_ctx ctx m 3"
  shows "emits ctx []"
  by (rule emits_Nil) (use assms in \<open>simp add: bf_generate_def bf_generate_mode_smart_def BF_MODE_SMART_def BF_MODE_RANGE_def BF_MODE_CHARSET_def
    smart_ctx_def smart_generators_def eval_nat_numeral\<close>)

lemma unat_small32: "k < 2 ^ 32 \<Longrightarrow> unat (word_of_nat k :: u32) = k"
  by (simp only: unat_of_nat) (simp add: take_bit_nat_eq_self)

text \<open>The generators over one byte: stage and key differ, the counter runs from 0 to 255.\<close>

lemma byte_generator:
  assumes "s < length smart_generators"
    and g: "\<And>ctx. bf_key_length ctx = m \<Longrightarrow> (smart_generators ! s) ctx = (if counter1 ctx > 0xFF then (BF_GENERATOR_END, ctx)
      else (BF_GENERATOR_NEXT, ctx\<lparr>current_key := f (counter1 ctx), counter1 := counter1 ctx + 1\<rparr>))"
    and rest: "\<And>ctx. smart_ctx ctx m (s + 1) \<Longrightarrow> counter1 ctx = 0 \<Longrightarrow> counter2 ctx = 0 \<Longrightarrow> emits ctx ks"
    and "smart_ctx ctx m s" "counter1 ctx = word_of_nat c" "c \<le> 256"
  shows "emits ctx (map (\<lambda>c. f (word_of_nat c)) [c..<256] @ ks)"
  using assms(4-6)
proof (induction "256 - c" arbitrary: ctx c)
  case 0
  then have c: "c = 256" by simp
  have l: "bf_key_length ctx = m" using 0(2) by (simp add: smart_ctx_def)
  have "(smart_generators ! s) ctx = (BF_GENERATOR_END, ctx)" using g [OF l] 0(3) c by simp
  from smart_generate [OF 0(2) assms(1) this]
  have "bf_generate ctx = bf_generate (bf_generator_clear (ctx\<lparr>smart_mode_stage := s + 1\<rparr>))" by simp
  moreover have "emits (bf_generator_clear (ctx\<lparr>smart_mode_stage := s + 1\<rparr>)) ks"
    by (rule rest) (use 0(2) in \<open>simp_all add: smart_ctx_def bf_generator_clear_def\<close>)
  ultimately show ?case using c by (simp add: emits_same)
next
  case (Suc d)
  then have c: "c < 256" by simp
  have l: "bf_key_length ctx = m" using Suc(3) by (simp add: smart_ctx_def)
  have u: "unat (word_of_nat c :: u32) = c" using c by (intro unat_small32) simp
  have n: "\<not> (word_of_nat c :: u32) > 0xFF" using c by (simp add: word_less_nat_alt u)
  have "(smart_generators ! s) ctx = (BF_GENERATOR_NEXT, ctx\<lparr>current_key := f (word_of_nat c), counter1 := word_of_nat (Suc c)\<rparr>)"
    using g [OF l] Suc(4) n by (simp add: add.commute)
  from smart_generate [OF Suc(3) assms(1) this]
  have gen: "bf_generate ctx = (BF_GENERATOR_NEXT, ctx\<lparr>current_key := f (word_of_nat c), counter1 := word_of_nat (Suc c)\<rparr>)" by simp
  have "emits (ctx\<lparr>current_key := f (word_of_nat c), counter1 := word_of_nat (Suc c)\<rparr>) (map (\<lambda>c. f (word_of_nat c)) [Suc c..<256] @ ks)"
    by (rule Suc(1)) (use Suc(2,3) c in \<open>auto simp: smart_ctx_def\<close>)
  from emits_Cons [OF gen this] show ?case using c by (simp add: upt_conv_Cons [of c])
qed

lemma nibble_generator:
  assumes "smart_ctx ctx m 2" "key_size m" "counter1 ctx = word_of_nat (10 + k div max_offset m)" "counter2 ctx = word_of_nat (k mod max_offset m)"
    "k \<le> 6 * max_offset m"
  shows "emits ctx (map (\<lambda>k. nibble_key m (word_of_nat (10 + k div max_offset m)) (word_of_nat (k mod max_offset m))) [k..<6 * max_offset m])"
  using assms
proof (induction "6 * max_offset m - k" arbitrary: ctx k)
  case 0
  let ?mo = "max_offset m"
  have mo: "0 < ?mo" "?mo \<le> 8" using 0(3) by (auto simp: key_size_def BF_KEY_SIZE_32_def BF_KEY_SIZE_48_def max_offset_def)
  have k: "k = 6 * ?mo" using 0(1,6) by simp
  have l: "2 < length smart_generators" by (simp add: smart_generators_def)
  have "counter1 ctx = 0x10" using 0(4) mo by (simp add: k)
  then have "(smart_generators ! 2) ctx = (BF_GENERATOR_END, ctx)" by (simp add: smart_generators_def smart_generator_nibble_sequence_def)
  from smart_generate [OF 0(2) l this]
  have "bf_generate ctx = bf_generate (bf_generator_clear (ctx\<lparr>smart_mode_stage := 3\<rparr>))" by simp
  moreover have "emits (bf_generator_clear (ctx\<lparr>smart_mode_stage := 3\<rparr>)) []"
    by (rule smart_end [of _ m]) (use 0(2) in \<open>simp add: smart_ctx_def bf_generator_clear_def\<close>)
  ultimately show ?case by (simp add: emits_same k)
next
  case (Suc d)
  let ?mo = "max_offset m" and ?c1 = "10 + k div max_offset m" and ?c2 = "k mod max_offset m"
  let ?key = "nibble_key m (word_of_nat ?c1) (word_of_nat ?c2)"
  have mo: "0 < ?mo" "?mo \<le> 8" using Suc(4) by (auto simp: key_size_def BF_KEY_SIZE_32_def BF_KEY_SIZE_48_def max_offset_def)
  have k: "k < 6 * ?mo" using Suc(2) by simp
  then have q: "k div ?mo < 6" by (simp add: less_mult_imp_div_less)
  have r: "?c2 < ?mo" using mo by simp
  have l: "2 < length smart_generators" by (simp add: smart_generators_def)
  have u1: "unat (word_of_nat ?c1 :: u32) = ?c1" using q by (intro unat_small32) simp
  have "?c2 + 1 < 2 ^ 32" "?mo < 2 ^ 32" using r mo(2) by simp_all
  then have u2: "(word_of_nat (?c2 + 1) :: u32) = word_of_nat ?mo \<longleftrightarrow> ?c2 + 1 = ?mo" using unat_small32 by metis
  have "unat (counter1 ctx) = ?c1" by (simp only: Suc(5) u1)
  then have c1: "counter1 ctx \<noteq> 0" "counter1 ctx \<noteq> 0x10" using q by auto
  have len: "bf_key_length ctx = m" using Suc(3) by (simp add: smart_ctx_def)
  let ?c = "ctx\<lparr>current_key := ?key, counter1 := word_of_nat (10 + Suc k div ?mo), counter2 := word_of_nat (Suc k mod ?mo)\<rparr>"
  have w: "counter2 ctx + 1 = word_of_nat ?mo \<longleftrightarrow> ?c2 + 1 = ?mo" unfolding Suc(6) using u2 by (simp only: of_nat_add of_nat_1)
  have gen: "(smart_generators ! 2) ctx = (BF_GENERATOR_NEXT,
      if ?c2 + 1 = ?mo then ctx\<lparr>current_key := ?key, counter2 := 0, counter1 := word_of_nat ?c1 + 1\<rparr>
      else ctx\<lparr>current_key := ?key, counter2 := word_of_nat ?c2 + 1\<rparr>)"
    using c1 w len Suc(5,6) by (simp add: smart_generators_def smart_generator_nibble_sequence_def Let_def del: of_nat_add)
  have "(smart_generators ! 2) ctx = (BF_GENERATOR_NEXT, ?c)"
  proof (cases "?c2 + 1 = ?mo")
    case True
    then have "Suc k mod ?mo = 0" by (simp add: mod_Suc)
    moreover from this have "Suc k div ?mo = Suc (k div ?mo)" by (simp add: div_Suc)
    ultimately show ?thesis unfolding gen if_P [OF True] by (simp add: add.commute)
  next
    case False
    then have m: "Suc k mod ?mo = ?c2 + 1" by (simp add: mod_Suc)
    then have "Suc k div ?mo = k div ?mo" by (simp add: div_Suc)
    then show ?thesis unfolding gen if_not_P [OF False] m using Suc(5) by (simp add: add.commute)
  qed
  from smart_generate [OF Suc(3) l this] have g: "bf_generate ctx = (BF_GENERATOR_NEXT, ?c)" by simp
  have "emits ?c (map (\<lambda>k. nibble_key m (word_of_nat (10 + k div max_offset m)) (word_of_nat (k mod max_offset m))) [Suc k..<6 * ?mo])"
    by (rule Suc(1)) (use Suc(2-4) k in \<open>simp_all add: smart_ctx_def\<close>)
  from emits_Cons [OF g this] show ?case using k by (simp add: upt_conv_Cons [of k])
qed


subsection \<open>All keys, and then no more\<close>

definition nibble_keys :: "nat \<Rightarrow> u64 list" where
  "nibble_keys m = map (\<lambda>k. nibble_key m (word_of_nat (10 + k div max_offset m)) (word_of_nat (k mod max_offset m))) [0..<6 * max_offset m]"

lemma nibble_emits:
  assumes "smart_ctx ctx m 2" "key_size m" "counter1 ctx = 0" "counter2 ctx = 0"
  shows "emits ctx (nibble_keys m)"
proof -
  let ?c = "ctx\<lparr>counter1 := 0x0A\<rparr>"
  have l: "2 < length smart_generators" by (simp add: smart_generators_def)
  obtain ret c' where r: "(smart_generators ! 2) ctx = (ret, c')" by (cases "(smart_generators ! 2) ctx")
  moreover have "(smart_generators ! 2) ?c = (smart_generators ! 2) ctx"
    using assms(3) by (simp add: smart_generators_def smart_generator_nibble_sequence_def)
  ultimately have "bf_generate ctx = bf_generate ?c"
    using smart_generate [OF assms(1) l] smart_generate [of ?c m 2] assms(1) l by (simp add: smart_ctx_def)
  moreover have "emits ?c (nibble_keys m)"
    unfolding nibble_keys_def by (rule nibble_generator) (use assms in \<open>simp_all add: smart_ctx_def\<close>)
  ultimately show ?thesis by (rule emits_same)
qed

lemma smart_emits:
  assumes "key_size m"
  shows "emits (bf_generator_init BF_MODE_SMART m)
    (map (\<lambda>c. key_bytes m (\<lambda>_. ucast (word_of_nat c :: u32))) [0..<256] @
     map (\<lambda>c. shl (ucast (word_of_nat c :: u32)) ((m - 1) * 8)) [0..<256] @ nibble_keys m)"
proof (rule byte_generator)
  show "0 < length smart_generators" by (simp add: smart_generators_def)
  show "(smart_generators ! 0) ctx = (if counter1 ctx > 0xFF then (BF_GENERATOR_END, ctx)
      else (BF_GENERATOR_NEXT, ctx\<lparr>current_key := key_bytes m (\<lambda>_. ucast (counter1 ctx)), counter1 := counter1 ctx + 1\<rparr>))"
    if "bf_key_length ctx = m" for ctx
    using that by (simp add: smart_generators_def smart_generator_byte_repeat_def Let_def)
  show "smart_ctx (bf_generator_init BF_MODE_SMART m) m 0" "counter1 (bf_generator_init BF_MODE_SMART m) = word_of_nat 0"
    by (simp_all add: smart_ctx_def bf_generator_init_def)
  show "emits ctx (map (\<lambda>c. shl (ucast (word_of_nat c :: u32)) ((m - 1) * 8)) [0..<256] @ nibble_keys m)"
    if "smart_ctx ctx m (0 + 1)" "counter1 ctx = 0" "counter2 ctx = 0" for ctx
  proof (rule byte_generator)
    show "1 < length smart_generators" by (simp add: smart_generators_def)
    show "(smart_generators ! 1) ctx = (if counter1 ctx > 0xFF then (BF_GENERATOR_END, ctx)
        else (BF_GENERATOR_NEXT, ctx\<lparr>current_key := shl (ucast (counter1 ctx)) ((m - 1) * 8), counter1 := counter1 ctx + 1\<rparr>))"
      if "bf_key_length ctx = m" for ctx
      using that by (simp add: smart_generators_def smart_generator_msb_byte_only_def Let_def)
    show "smart_ctx ctx m 1" "counter1 ctx = word_of_nat 0" using that by simp_all
    show "emits ctx (nibble_keys m)" if "smart_ctx ctx m (1 + 1)" "counter1 ctx = 0" "counter2 ctx = 0" for ctx
      by (rule nibble_emits) (use that assms in \<open>simp_all add: numeral_2_eq_2\<close>)
  qed simp
qed simp

definition chosen_charset :: "u8 \<Rightarrow> bytes" where
  "chosen_charset charsets = (if charsets AND BF_CHARSET_DIGITS \<noteq> 0 then charset_digits else []) @
    (if charsets AND BF_CHARSET_UPPERCASE \<noteq> 0 then charset_uppercase else [])"

definition charset_start :: "u8 \<Rightarrow> nat \<Rightarrow> generator_context" where
  "charset_start charsets m = snd (bf_generator_set_charset charsets (bf_generator_init BF_MODE_CHARSET m))"

lemma charset_sizes [simp]: "length charset_digits = 10" "length charset_uppercase = 25"
  by (simp_all add: charset_digits_def charset_uppercase_def)

lemma charset_start:
  "bf_mode (charset_start charsets m) = BF_MODE_CHARSET" "bf_key_length (charset_start charsets m) = m"
  "\<not> flag1 (charset_start charsets m)" "bf_pos (charset_start charsets m) = replicate 6 0"
  "charset_length (charset_start charsets m) = length (chosen_charset charsets)"
  "take (length (chosen_charset charsets)) (bf_charset (charset_start charsets m)) = chosen_charset charsets"
  by (simp_all add: charset_start_def bf_generator_set_charset_def bf_generator_init_def add_charset_def chosen_charset_def
      write_at_def Let_def)

lemma digits_val_zero: "0 < n \<Longrightarrow> digits_val n (replicate k 0) = 0"
  by (induction k) (simp_all add: replicate_append_same [symmetric])

lemma charset_emits:
  assumes "key_size m" "chosen_charset charsets \<noteq> []"
  shows "emits (charset_start charsets m) (map (charset_key (bf_charset (charset_start charsets m)) (length (chosen_charset charsets)) m)
    [0..<length (chosen_charset charsets) ^ m])"
proof -
  let ?n = "length (chosen_charset charsets)" and ?s = "charset_start charsets m"
  have n: "0 < ?n" "?n < 128" using assms(2) by (simp_all add: chosen_charset_def)
  have m: "m \<le> 6" using assms(1) by (auto simp: key_size_def BF_KEY_SIZE_32_def BF_KEY_SIZE_48_def)
  have "emits ?s (map (charset_key (bf_charset ?s) ?n (bf_key_length ?s)) [0..<?n ^ bf_key_length ?s])"
    by (rule charset_next) (use assms n m in \<open>simp_all add: charset_start digits_val_zero\<close>)
  then show ?thesis by (simp add: charset_start)
qed

lemma charset_key_words:
  assumes "0 < n" "n \<le> 256" "take n cs = w" "length w = n"
  shows "charset_key cs n m ` {0..<n ^ m} = {key_bytes m (\<lambda>i. ds ! i) |ds. length ds = m \<and> set ds \<subseteq> set w}"
proof (intro equalityI subsetI)
  fix x assume "x \<in> charset_key cs n m ` {0..<n ^ m}"
  then obtain v where v: "x = charset_key cs n m v" by blast
  let ?ds = "map (\<lambda>d. cs ! unat d) (val_digits n m v)"
  have "x = key_bytes m (\<lambda>i. ?ds ! i)" unfolding v charset_key_def by (rule key_bytes_cong) simp
  moreover have "set ?ds \<subseteq> set w"
  proof
    fix b assume "b \<in> set ?ds"
    then obtain d where d: "d \<in> set (val_digits n m v)" "b = cs ! unat d" by auto
    then have "unat d < n" using val_digits_less [OF assms(1,2)] by blast
    then have "b = w ! unat d" using d(2) assms(3) by auto
    then show "b \<in> set w" using \<open>unat d < n\<close> assms(4) by simp
  qed
  ultimately show "x \<in> {key_bytes m (\<lambda>i. ds ! i) |ds. length ds = m \<and> set ds \<subseteq> set w}" by fastforce
next
  fix x assume "x \<in> {key_bytes m (\<lambda>i. ds ! i) |ds. length ds = m \<and> set ds \<subseteq> set w}"
  then obtain ds where ds: "x = key_bytes m (\<lambda>i. ds ! i)" "length ds = m" "set ds \<subseteq> set w" by blast
  have "\<forall>d \<in> set ds. \<exists>i < n. w ! i = d" using ds(3) assms(4) by (metis in_set_conv_nth subsetD)
  then obtain idx where idx: "\<And>d. d \<in> set ds \<Longrightarrow> idx d < n \<and> w ! idx d = d" by metis
  let ?us = "map (\<lambda>d. word_of_nat (idx d)) ds :: u8 list"
  have u: "unat (word_of_nat (idx d) :: u8) = idx d" if "d \<in> set ds" for d
    using idx [OF that] assms(2) by (intro unat_small) simp
  have us: "\<forall>d \<in> set ?us. unat d < n" using u idx by auto
  have "charset_key cs n m (digits_val n ?us) = x"
    unfolding ds(1) charset_key_def
  proof (rule key_bytes_cong)
    fix i assume i: "i < m"
    have "val_digits n m (digits_val n ?us) = ?us" using val_digits_val [OF assms(1) us] ds(2) by simp
    then have "cs ! unat (val_digits n m (digits_val n ?us) ! i) = cs ! idx (ds ! i)" using i ds(2) u by simp
    also have "\<dots> = w ! idx (ds ! i)" using idx [of "ds ! i"] i ds(2) assms(3) by auto
    also have "\<dots> = ds ! i" using idx [of "ds ! i"] i ds(2) by simp
    finally show "cs ! unat (val_digits n m (digits_val n ?us) ! i) = ds ! i" .
  qed
  moreover have "digits_val n ?us < n ^ m" using digits_val_less [OF assms(1) us] ds(2) by simp
  ultimately show "x \<in> charset_key cs n m ` {0..<n ^ m}" by (metis atLeastLessThan_iff image_eqI le0)
qed

lemma range_members: "key \<in> set (map word_of_nat (unat (lo :: u32) # [Suc (unat lo)..<Suc (unat (hi :: u32))])) \<longleftrightarrow>
    key = (ucast lo :: u64) \<or> ucast lo \<le> key \<and> key \<le> ucast hi"
proof -
  have b: "unat (ucast lo :: u64) = unat lo" "unat (ucast hi :: u64) = unat hi" by (simp_all add: unat_ucast_up)
  have "key \<in> word_of_nat ` {Suc (unat lo)..<Suc (unat hi)} \<longleftrightarrow> ucast lo < key \<and> key \<le> ucast hi"
  proof
    assume "key \<in> word_of_nat ` {Suc (unat lo)..<Suc (unat hi)}"
    then obtain c where c: "key = word_of_nat c" "unat lo < c" "c \<le> unat hi" by auto
    have "c < 2 ^ 64" using c(3) unsigned_less [of hi, where 'a = nat] by simp
    then have "unat key = c" using c(1) by (simp add: unat_of_nat take_bit_nat_eq_self)
    then show "ucast lo < key \<and> key \<le> ucast hi" using c b by (simp add: word_less_nat_alt word_le_nat_alt)
  next
    assume "ucast lo < key \<and> key \<le> ucast hi"
    then have "unat key \<in> {Suc (unat lo)..<Suc (unat hi)}" using b by (simp add: word_less_nat_alt word_le_nat_alt)
    then show "key \<in> word_of_nat ` {Suc (unat lo)..<Suc (unat hi)}" by (intro image_eqI [of _ _ "unat key"]) simp_all
  qed
  moreover have "set (map word_of_nat (unat lo # [Suc (unat lo)..<Suc (unat hi)])) =
      insert (ucast lo) (word_of_nat ` {Suc (unat lo)..<Suc (unat hi)})"
    unfolding list.map list.set set_map set_upt by simp
  ultimately show ?thesis unfolding insert_iff by (auto simp: order_le_less)
qed

lemma unat_ucast_u8_u32: "unat (ucast (b :: u8) :: u32) = unat b"
  by (rule unat_ucast_up) simp

lemma byte_members: "key \<in> (\<lambda>c. g (word_of_nat c :: u32)) ` {0..<256} \<longleftrightarrow> (\<exists>b :: u8. key = g (ucast b))"
proof
  assume "\<exists>b :: u8. key = g (ucast b)"
  then obtain b :: u8 where b: "key = g (ucast b)" by blast
  have "(ucast b :: u32) = word_of_nat (unat b)" by simp
  moreover have "unat b < 256" using unsigned_less [of b, where 'a = nat] by simp
  ultimately show "key \<in> (\<lambda>c. g (word_of_nat c :: u32)) ` {0..<256}" using b by (intro image_eqI [of _ _ "unat b"]) simp_all
next
  assume "key \<in> (\<lambda>c. g (word_of_nat c :: u32)) ` {0..<256}"
  then obtain c where c: "key = g (word_of_nat c)" "c < 256" by auto
  have "(word_of_nat c :: u32) = ucast (word_of_nat c :: u8)"
    using unat_small [OF c(2)] c(2) by (simp only: word_unat_eq_iff) (simp add: unat_ucast_u8_u32 unat_small32 del: of_nat_unat)
  then show "\<exists>b :: u8. key = g (ucast b)" using c(1) by metis
qed

lemma ucast_bytes: "(ucast (ucast (b :: u8) :: u32) :: u8) = b" "(ucast (ucast (b :: u8) :: u32) :: u64) = ucast b"
  by (rule bit_word_eqI, auto simp: bit_ucast_iff dest: bit_imp_le_length)+

subsection \<open>The search spaces\<close>

text \<open>
  The keys, said of byte sequences and numbers only: a key is the number its bytes are in big endian
  order, and each mode has the sequences it is meant to try.
\<close>

definition key_number :: "u8 list \<Rightarrow> nat" where
  "key_number bs = foldl (\<lambda>v b. 256 * v + unat b) 0 bs"

text \<open>The characters from 0 to 9 and from A to Z, without the V, which the table of the code lacks.\<close>

definition charset_allows :: "u8 \<Rightarrow> u8 \<Rightarrow> bool" where
  "charset_allows charsets b \<longleftrightarrow> bit charsets 0 \<and> 0x30 \<le> b \<and> b \<le> 0x39 \<or> bit charsets 1 \<and> 0x41 \<le> b \<and> b \<le> 0x5A \<and> b \<noteq> 0x56"

text \<open>
  A repeated byte, a first byte before zeros, or the same high digit from A to F in every byte above
  low digits that count up by one, from 9 to 0, and start with at most 7 in a key of four bytes and
  at most 5 in a key of six.
\<close>

definition smart_guess :: "nat \<Rightarrow> u8 list \<Rightarrow> bool" where
  "smart_guess n bs \<longleftrightarrow> (\<exists>b. bs = replicate n b) \<or> (\<exists>b. bs = b # replicate (n - 1) 0) \<or>
    (\<exists>hi \<in> {10..15}. \<exists>first \<le> (if n = 4 then 7 else 5). bs = map (\<lambda>i. word_of_nat (16 * hi + (first + i) mod 10)) [0..<n])"

lemma key_byte_step: "shl (word_of_nat v :: u64) 8 OR ucast (b :: u8) = word_of_nat (256 * v + unat b)"
proof -
  have "shl (word_of_nat v :: u64) 8 AND ucast b = 0"
    by (rule bit_word_eqI) (auto simp: bit_and_iff bit_push_bit_iff bit_ucast_iff dest: bit_imp_le_length)
  then have "shl (word_of_nat v :: u64) 8 OR ucast b = shl (word_of_nat v) 8 + ucast b"
    by (rule disjunctive_add_eq_or [symmetric])
  also have "\<dots> = word_of_nat (256 * v + unat b)" by (simp add: push_bit_eq_mult)
  finally show ?thesis .
qed

lemma key_number_snoc [simp]: "key_number (bs @ [b]) = 256 * key_number bs + unat b" "key_number [] = 0"
  by (simp_all add: key_number_def)

lemma key_number_less: "key_number bs < 256 ^ length bs"
proof (induction bs rule: rev_induct)
  case (snoc b bs)
  have "unat b < 256" using unsigned_less [of b, where 'a = nat] by simp
  then show ?case using snoc by simp
qed simp

lemma key_bytes_number:
  assumes "key_size n"
  shows "unat (key_bytes n f) = key_number (map f [0..<n])"
proof -
  let ?f = "\<lambda>key_byte key. key OR shl (ucast (f key_byte)) ((n - key_byte - 1) * 8) :: u64"
  have "j \<le> n \<Longrightarrow> fold ?f [0..<j] 0 = shl (word_of_nat (key_number (map f [0..<j]))) ((n - j) * 8)" for j
  proof (induction j)
    case (Suc j)
    have m: "(n - j) * 8 = 8 + (n - Suc j) * 8" "(n - j - 1) * 8 = (n - Suc j) * 8" using Suc(2) by simp_all
    have "fold ?f [0..<Suc j] 0 = shl (word_of_nat (key_number (map f [0..<j]))) ((n - j) * 8) OR shl (ucast (f j)) ((n - j - 1) * 8)"
      using Suc by simp
    also have "\<dots> = shl (shl (word_of_nat (key_number (map f [0..<j]))) 8 OR ucast (f j)) ((n - Suc j) * 8)"
      unfolding m push_bit_or push_bit_push_bit by (simp only: add.commute)
    also have "\<dots> = shl (word_of_nat (key_number (map f [0..<Suc j]))) ((n - Suc j) * 8)"
      unfolding key_byte_step by simp
    finally show ?case .
  qed simp
  from this [of n] have k: "key_bytes n f = word_of_nat (key_number (map f [0..<n]))" by (simp add: key_bytes_def)
  have "(256 :: nat) ^ n \<le> 256 ^ 6" using assms by (auto simp: key_size_def BF_KEY_SIZE_32_def BF_KEY_SIZE_48_def)
  then have "key_number (map f [0..<n]) < 2 ^ 64" using key_number_less [of "map f [0..<n]"] by simp
  then show ?thesis unfolding k by (simp add: unat_of_nat take_bit_nat_eq_self)
qed

lemma key_is:
  assumes "key_size n" "map f [0..<n] = bs"
  shows "key = key_bytes n f \<longleftrightarrow> unat key = key_number bs"
  unfolding assms(2) [symmetric] key_bytes_number [OF assms(1), symmetric] by (rule word_unat_eq_iff)

lemma byte_in_image: "S \<subseteq> {..<256} \<Longrightarrow> b \<in> (word_of_nat :: nat \<Rightarrow> u8) ` S \<longleftrightarrow> unat b \<in> S"
proof
  assume "S \<subseteq> {..<256}" "b \<in> (word_of_nat :: nat \<Rightarrow> u8) ` S"
  then show "unat b \<in> S" using unat_small by fastforce
next
  assume "unat b \<in> S"
  then show "b \<in> (word_of_nat :: nat \<Rightarrow> u8) ` S" by (intro image_eqI [of _ _ "unat b"]) simp_all
qed

lemma charset_members: "b \<in> set (chosen_charset charsets) \<longleftrightarrow> charset_allows charsets b"
proof -
  have c: "charset_digits = map word_of_nat [0x30..<0x3A]" by code_simp
  have "b \<in> set charset_digits \<longleftrightarrow> b \<in> word_of_nat ` {0x30..<0x3A}" unfolding c set_map set_upt ..
  also have "\<dots> \<longleftrightarrow> unat b \<in> {0x30..<0x3A}" by (rule byte_in_image) auto
  also have "\<dots> \<longleftrightarrow> 0x30 \<le> b \<and> b \<le> 0x39" by (auto simp: word_le_nat_alt)
  finally have d: "b \<in> set charset_digits \<longleftrightarrow> 0x30 \<le> b \<and> b \<le> 0x39" .
  have u: "charset_uppercase = map word_of_nat (filter (\<lambda>c. c \<noteq> 0x56) [0x41..<0x5B])" by code_simp
  have "b \<in> set charset_uppercase \<longleftrightarrow> b \<in> word_of_nat ` {c \<in> {0x41..<0x5B}. c \<noteq> 0x56}" unfolding u set_map set_filter set_upt ..
  also have "\<dots> \<longleftrightarrow> unat b \<in> {c \<in> {0x41..<0x5B}. c \<noteq> 0x56}" by (rule byte_in_image) auto
  also have "\<dots> \<longleftrightarrow> 0x41 \<le> b \<and> b \<le> 0x5A \<and> b \<noteq> 0x56" by (auto simp: word_le_nat_alt word_unat_eq_iff)
  finally have u: "b \<in> set charset_uppercase \<longleftrightarrow> 0x41 \<le> b \<and> b \<le> 0x5A \<and> b \<noteq> 0x56" .
  have "charsets AND BF_CHARSET_DIGITS \<noteq> 0 \<longleftrightarrow> bit charsets 0" "charsets AND BF_CHARSET_UPPERCASE \<noteq> 0 \<longleftrightarrow> bit charsets 1"
    by (simp_all add: BF_CHARSET_DIGITS_def BF_CHARSET_UPPERCASE_def bit_iff_and_push_bit_not_eq_0)
  then show ?thesis using d u by (auto simp: chosen_charset_def charset_allows_def)
qed

lemma nibble_key_bytes:
  assumes "key_size n" "hi \<in> {10..15}" "first < 10"
  shows "nibble_key n (word_of_nat hi) (word_of_nat first) = key_bytes n (\<lambda>i. word_of_nat (16 * hi + (first + i) mod 10))"
proof -
  have a: "\<forall>hi \<in> set [10..<16]. \<forall>d \<in> set [0..<10]. shl (ucast (word_of_nat hi :: u32) :: u64) 4 OR word_of_nat d = ucast (word_of_nat (16 * hi + d) :: u8)"
    by code_simp
  have b: "\<forall>i \<in> set [0..<6]. \<forall>first \<in> set [0..<10]. ucast (word_of_nat i + word_of_nat first :: u32) mod 10 = (word_of_nat ((first + i) mod 10) :: u64)"
    by code_simp
  have n: "n \<le> 6" using assms(1) by (auto simp: key_size_def BF_KEY_SIZE_32_def BF_KEY_SIZE_48_def)
  have s: "(key OR shl (ucast (word_of_nat hi :: u32)) (m + 4)) OR shl (ucast (word_of_nat i + word_of_nat first :: u32) mod 10) m =
      key OR shl (ucast (word_of_nat (16 * hi + (first + i) mod 10) :: u8)) m" if "i < n" for i m and key :: u64
  proof -
    have "ucast (word_of_nat i + word_of_nat first :: u32) mod 10 = (word_of_nat ((first + i) mod 10) :: u64)"
      by (rule bspec [OF bspec [OF b]]) (use n that assms(3) in simp_all)
    moreover have "shl (ucast (word_of_nat hi :: u32) :: u64) 4 OR word_of_nat ((first + i) mod 10) = ucast (word_of_nat (16 * hi + (first + i) mod 10) :: u8)"
      by (rule bspec [OF bspec [OF a]]) (use assms(2) in auto)
    ultimately show ?thesis
      by (metis (no_types) or.assoc push_bit_or push_bit_push_bit)
  qed
  show ?thesis unfolding nibble_key_def key_bytes_def by (rule fold_cong) (simp_all add: s)
qed

lemma nibble_members:
  assumes "key_size n"
  shows "key \<in> set (nibble_keys n) \<longleftrightarrow> (\<exists>hi \<in> {10..15}. \<exists>first \<le> (if n = 4 then 7 else 5).
    unat key = key_number (map (\<lambda>i. word_of_nat (16 * hi + (first + i) mod 10)) [0..<n]))"
proof -
  let ?mo = "max_offset n" and ?k = "\<lambda>hi first. nibble_key n (word_of_nat hi) (word_of_nat first)"
  have mo: "?mo = Suc (if n = 4 then 7 else 5)" "?mo \<le> 10"
    using assms by (auto simp: key_size_def BF_KEY_SIZE_32_def BF_KEY_SIZE_48_def max_offset_def)
  have "key \<in> set (nibble_keys n) \<longleftrightarrow> (\<exists>hi \<in> {10..15}. \<exists>first < ?mo. key = ?k hi first)"
  proof
    assume "key \<in> set (nibble_keys n)"
    then obtain k where k: "key = ?k (10 + k div ?mo) (k mod ?mo)" "k < 6 * ?mo" by (auto simp: nibble_keys_def)
    have "k div ?mo < 6" using k(2) by (simp add: less_mult_imp_div_less)
    moreover have "k mod ?mo < ?mo" using mo by simp
    ultimately show "\<exists>hi \<in> {10..15}. \<exists>first < ?mo. key = ?k hi first" using k(1) by (intro bexI [of _ "10 + k div ?mo"] exI [of _ "k mod ?mo"]) simp_all
  next
    assume "\<exists>hi \<in> {10..15}. \<exists>first < ?mo. key = ?k hi first"
    then obtain hi first where h: "hi \<in> {10..15}" "first < ?mo" "key = ?k hi first" by blast
    let ?i = "(hi - 10) * ?mo + first"
    have "?i div ?mo = hi - 10" "?i mod ?mo = first" using h(2) by simp_all
    moreover have "?i < 6 * ?mo"
    proof -
      have "?i < Suc (hi - 10) * ?mo" using h(2) by simp
      also have "\<dots> \<le> 6 * ?mo" using h(1) by (intro mult_right_mono) auto
      finally show ?thesis .
    qed
    ultimately show "key \<in> set (nibble_keys n)" using h(1,3) unfolding nibble_keys_def set_map set_upt by (intro image_eqI [of _ _ ?i]) simp_all
  qed
  also have "\<dots> \<longleftrightarrow> (\<exists>hi \<in> {10..15}. \<exists>first \<le> (if n = 4 then 7 else 5).
    unat key = key_number (map (\<lambda>i. word_of_nat (16 * hi + (first + i) mod 10)) [0..<n]))"
  proof -
    have "key = ?k hi first \<longleftrightarrow> unat key = key_number (map (\<lambda>i. word_of_nat (16 * hi + (first + i) mod 10)) [0..<n])"
      if "hi \<in> {10..15}" "first < ?mo" for hi first
    proof -
      have "first < 10" using that(2) mo(2) by simp
      show ?thesis unfolding nibble_key_bytes [OF assms that(1) \<open>first < 10\<close>] by (rule key_is [OF assms refl])
    qed
    then show ?thesis unfolding mo(1) less_Suc_eq_le by blast
  qed
  finally show ?thesis .
qed

lemma first_byte_key:
  assumes "key_size n"
  shows "shl (ucast (b :: u8)) ((n - 1) * 8) = key_bytes n (\<lambda>i. if i = 0 then b else 0)"
proof -
  have "[0..<4] = [0, 1, 2, 3]" "[0..<6] = [0, 1, 2, 3, 4, 5]" by code_simp+
  then show ?thesis using assms by (auto simp: key_size_def BF_KEY_SIZE_32_def BF_KEY_SIZE_48_def key_bytes_def)
qed

lemma smart_members:
  assumes "key_size n"
  shows "(\<exists>b. key = key_bytes n (\<lambda>_. b)) \<or> (\<exists>b :: u8. key = shl (ucast b) ((n - 1) * 8)) \<or> key \<in> set (nibble_keys n) \<longleftrightarrow>
    (\<exists>bs. smart_guess n bs \<and> unat key = key_number bs)"
proof -
  have n: "0 < n" using assms by (auto simp: key_size_def BF_KEY_SIZE_32_def BF_KEY_SIZE_48_def)
  have r: "map (\<lambda>_. b) [0..<n] = replicate n b" for b :: u8 by (simp add: map_replicate_const)
  have f: "map (\<lambda>i. if i = 0 then b else 0) [0..<n] = b # replicate (n - 1) 0" for b :: u8
    using n by (intro nth_equalityI) (auto simp: nth_Cons')
  show ?thesis
    unfolding key_is [OF assms r] first_byte_key [OF assms] key_is [OF assms f] nibble_members [OF assms] smart_guess_def by blast
qed

text \<open>C40: for keys of four and six bytes every mode ends after finitely many calls, and until then emits
  exactly the keys of its search space. In range mode that is the lower bound and all up to the upper bound;
  but nothing at all if the upper bound is 0, so that the range from 0 to 0 is empty, and the lower bound alone if it
  is above the upper one. In charset mode it is every word over the digits and over the capital letters
  but V; in smart mode every repeated byte, every first byte before zeros, and the sequences of counting low
  digits under a high digit from A to F.\<close>

theorem bf_generate_covers:
  assumes "n = 4 \<or> n = 6" "bit charsets 0 \<or> bit charsets 1"
  shows "(let ctx = (bf_generator_init BF_MODE_RANGE n)\<lparr>range_low := lo, range_high := hi\<rparr>
      in ends ctx \<and> (emitted ctx key \<longleftrightarrow> hi \<noteq> 0 \<and> (key = ucast lo \<or> ucast lo \<le> key \<and> key \<le> ucast hi))) \<and>
    (let ctx = charset_start charsets n
      in ends ctx \<and> (emitted ctx key \<longleftrightarrow> (\<exists>bs. length bs = n \<and> list_all (charset_allows charsets) bs \<and> unat key = key_number bs))) \<and>
    (let ctx = bf_generator_init BF_MODE_SMART n
      in ends ctx \<and> (emitted ctx key \<longleftrightarrow> (\<exists>bs. smart_guess n bs \<and> unat key = key_number bs)))"
proof -
  have k: "key_size n" using assms(1) by (simp add: key_size_def BF_KEY_SIZE_32_def BF_KEY_SIZE_48_def)
  have c: "chosen_charset charsets \<noteq> []"
    using assms(2) charset_members [of "0x30" charsets] charset_members [of "0x41" charsets] by (auto simp: charset_allows_def)
  let ?r = "(bf_generator_init BF_MODE_RANGE n)\<lparr>range_low := lo, range_high := hi\<rparr>" and ?s = "charset_start charsets n"
    and ?m = "bf_generator_init BF_MODE_SMART n" and ?cs = "chosen_charset charsets"
  have r: "ends ?r \<and> (emitted ?r key \<longleftrightarrow> hi \<noteq> 0 \<and> (key = ucast lo \<or> ucast lo \<le> key \<and> key \<le> ucast hi))"
    using emits_ends [OF range_emits [OF k]] emits_set [OF range_emits [OF k]] range_members by auto
  have l: "0 < length ?cs" "length ?cs \<le> 256" using c by (simp_all add: chosen_charset_def)
  have "emitted ?s key \<longleftrightarrow> (\<exists>w. length w = n \<and> set w \<subseteq> set ?cs \<and> key = key_bytes n (\<lambda>i. w ! i))"
    using emits_set [OF charset_emits [OF k c]] charset_key_words [OF l charset_start(6) refl, of n n] by auto
  moreover have "key = key_bytes n (\<lambda>i. w ! i) \<longleftrightarrow> unat key = key_number w" if "length w = n" for w
    using key_is [OF k, of "(!) w" w key] that map_nth [of w] by simp
  ultimately have s: "ends ?s \<and> (emitted ?s key \<longleftrightarrow> (\<exists>bs. length bs = n \<and> list_all (charset_allows charsets) bs \<and> unat key = key_number bs))"
    using emits_ends [OF charset_emits [OF k c]] by (auto simp: list_all_iff subset_iff charset_members)
  have "emitted ?m key \<longleftrightarrow> (\<exists>b. key = key_bytes n (\<lambda>_. b)) \<or> (\<exists>b :: u8. key = shl (ucast b) ((n - 1) * 8)) \<or> key \<in> set (nibble_keys n)"
    using emits_set [OF smart_emits [OF k]] byte_members [of key "\<lambda>w. key_bytes n (\<lambda>_. ucast w)"]
      byte_members [of key "\<lambda>w. shl (ucast w) ((n - 1) * 8)"] by (simp add: ucast_bytes image_image)
  then have m: "ends ?m \<and> (emitted ?m key \<longleftrightarrow> (\<exists>bs. smart_guess n bs \<and> unat key = key_number bs))"
    using emits_ends [OF smart_emits [OF k]] smart_members [OF k] by simp
  show ?thesis unfolding Let_def using r s m by blast
qed

lemma bf_generate_covers_witness:
  "emitted ((bf_generator_init BF_MODE_RANGE 4)\<lparr>range_low := 3, range_high := 5\<rparr>) 4 \<and>
    emitted (charset_start 1 4) 0x30313233 \<and> \<not> emitted (charset_start 1 4) 0x41414141 \<and> emitted (bf_generator_init BF_MODE_SMART 4) 0xB7B8B9B0"
proof -
  have b: "bit (1 :: u8) 0 \<or> bit (1 :: u8) 1" by simp
  note t = bf_generate_covers [OF _ b, of 4 5 3, unfolded Let_def]
  have "list_all (charset_allows 1) [0x30, 0x31, 0x32, 0x33]" "unat (0x30313233 :: u64) = key_number [0x30, 0x31, 0x32, 0x33]"
    by (simp_all add: charset_allows_def key_number_def)
  then have w: "\<exists>bs. length bs = 4 \<and> list_all (charset_allows 1) bs \<and> unat (0x30313233 :: u64) = key_number bs"
    by (intro exI [of _ "[0x30, 0x31, 0x32, 0x33]"]) simp
  have v: "\<not> (\<exists>bs. length bs = 4 \<and> list_all (charset_allows 1) bs \<and> unat (0x41414141 :: u64) = key_number bs)"
  proof
    assume "\<exists>bs. length bs = 4 \<and> list_all (charset_allows 1) bs \<and> unat (0x41414141 :: u64) = key_number bs"
    then obtain bs where bs: "length bs = 4" "list_all (charset_allows 1) bs" "unat (0x41414141 :: u64) = key_number bs" by blast
    have "length bs = Suc (Suc (Suc (Suc 0)))" using bs(1) by simp
    then obtain a b c d where "bs = [a, b, c, d]" unfolding length_Suc_conv by blast
    then have x: "list_all (charset_allows 1) [a, b, c, d]" "unat (0x41414141 :: u64) = key_number [a, b, c, d]" using bs by simp_all
    then have "unat a \<le> 0x39" "unat b < 256" "unat c < 256" "unat d < 256"
      using unsigned_less [of b, where 'a = nat] unsigned_less [of c, where 'a = nat] unsigned_less [of d, where 'a = nat]
      by (simp_all add: charset_allows_def word_le_nat_alt)
    then show False using x(2) by (simp add: key_number_def)
  qed
  have i: "[0..<4] = [0, 1, 2, 3]" by code_simp
  have "unat (0xB7B8B9B0 :: u64) = key_number (map (\<lambda>i. word_of_nat (16 * 11 + (7 + i) mod 10)) [0..<4])"
    unfolding i by (simp add: key_number_def)
  then have g: "\<exists>bs. smart_guess 4 bs \<and> unat (0xB7B8B9B0 :: u64) = key_number bs"
    unfolding smart_guess_def by (intro exI conjI [rotated], assumption) (intro disjI2 bexI [of _ 11] exI [of _ 7], simp_all)
  have r: "emitted ((bf_generator_init BF_MODE_RANGE 4)\<lparr>range_low := 3, range_high := 5\<rparr>) 4" using t [of 4] by simp
  show ?thesis using r t [of "0x30313233"] t [of "0x41414141"] t [of "0xB7B8B9B0"] w v g by blast
qed

end
