(* ===== verification/Hitag2.thy ===== *)
theory Hitag2
  imports Common_Util_Laws Pm3_Codes
begin

text \<open>
  The Hitag2 cipher, \<open>common/hitag2/hitag2_crypto.c\<close>, which the tag emulation of the firmware, the
  client and the attack tools share: the optimised cipher with a second register for the feedback, the
  plain cipher, rollback and key recovery. Printing is left out.
\<close>

subsection \<open>The filter\<close>

definition i4 :: "u64 \<Rightarrow> nat \<Rightarrow> nat \<Rightarrow> nat \<Rightarrow> nat \<Rightarrow> u32" where
  "i4 x a b c d = bit01 x a + bit01 x b * 2 + bit01 x c * 4 + bit01 x d * 8"

definition ht2_f4a :: u32 where "ht2_f4a = 0x2C79"
definition ht2_f4b :: u32 where "ht2_f4b = 0x6671"
definition ht2_f5c :: u32 where "ht2_f5c = 0x7907287B"

definition ht2_f20 :: "u64 \<Rightarrow> u32" where
  "ht2_f20 state =
    (let i5 = (shr ht2_f4a (unat (i4 state 1 2 4 5)) AND 1) * 1
            + (shr ht2_f4b (unat (i4 state 7 11 13 14)) AND 1) * 2
            + (shr ht2_f4b (unat (i4 state 16 20 22 25)) AND 1) * 4
            + (shr ht2_f4b (unat (i4 state 27 28 30 32)) AND 1) * 8
            + (shr ht2_f4a (unat (i4 state 33 42 43 45)) AND 1) * 16
     in shr ht2_f5c (unat i5) AND 1)"

definition ht2_bitn :: "u64 \<Rightarrow> nat \<Rightarrow> u32" where
  "ht2_bitn x n = (if x AND shl 1 n \<noteq> 0 then 1 else 0)"

definition ht2_fnR :: "u64 \<Rightarrow> u32" where
  "ht2_fnR state =
    ht2_bitn state 1 XOR ht2_bitn state 2 XOR ht2_bitn state 5 XOR
    ht2_bitn state 6 XOR ht2_bitn state 7 XOR ht2_bitn state 15 XOR
    ht2_bitn state 21 XOR ht2_bitn state 22 XOR ht2_bitn state 25 XOR
    ht2_bitn state 29 XOR ht2_bitn state 40 XOR ht2_bitn state 41 XOR
    ht2_bitn state 42 XOR ht2_bitn state 45 XOR ht2_bitn state 46 XOR
    ht2_bitn state 47"

definition ht2_fa :: "u32 \<Rightarrow> u32" where "ht2_fa x = ht2_bitn 0x2C79 (unat x)"
definition ht2_fb :: "u32 \<Rightarrow> u32" where "ht2_fb x = ht2_bitn 0x6671 (unat x)"
definition ht2_fc :: "u32 \<Rightarrow> u32" where "ht2_fc x = ht2_bitn 0x7907287B (unat x)"

definition ht2_fnf :: "u64 \<Rightarrow> u32" where
  "ht2_fnf state =
    (let x1 = shl (ht2_bitn state 2) 0 OR shl (ht2_bitn state 3) 1 OR shl (ht2_bitn state 5) 2 OR shl (ht2_bitn state 6) 3;
         x2 = shl (ht2_bitn state 8) 0 OR shl (ht2_bitn state 12) 1 OR shl (ht2_bitn state 14) 2 OR shl (ht2_bitn state 15) 3;
         x3 = shl (ht2_bitn state 17) 0 OR shl (ht2_bitn state 21) 1 OR shl (ht2_bitn state 23) 2 OR shl (ht2_bitn state 26) 3;
         x4 = shl (ht2_bitn state 28) 0 OR shl (ht2_bitn state 29) 1 OR shl (ht2_bitn state 31) 2 OR shl (ht2_bitn state 33) 3;
         x5 = shl (ht2_bitn state 34) 0 OR shl (ht2_bitn state 43) 1 OR shl (ht2_bitn state 44) 2 OR shl (ht2_bitn state 46) 3;
         x6 = shl (ht2_fa x1) 0 OR shl (ht2_fb x2) 1 OR shl (ht2_fb x3) 2 OR shl (ht2_fb x4) 3 OR shl (ht2_fa x5) 4
     in ht2_fc x6)"

subsection \<open>The optimised cipher\<close>

record hitag_state =
  shiftreg :: u64
  lfsr :: u64

definition LFSR_INV :: "u64 \<Rightarrow> u64" where
  "LFSR_INV state = shl state 1 OR of_bool (wparity (state AND (shr 0xce0044c101cd 1 OR shl 1 47)))"

definition ht2_rollback_step :: "hitag_state \<Rightarrow> hitag_state" where
  "ht2_rollback_step hstate =
    hstate\<lparr>shiftreg := (shl (shiftreg hstate) 1 AND 0xffffffffffff) OR ucast (ht2_fnR (shiftreg hstate)), lfsr := LFSR_INV (lfsr hstate)\<rparr>"

definition ht2_rollback :: "hitag_state \<Rightarrow> nat \<Rightarrow> hitag_state" where
  "ht2_rollback hstate steps = (ht2_rollback_step ^^ steps) hstate"

text \<open>The unrolled step of \<open>ht2_hitag2_init_ex\<close>.\<close>

definition init_ex_step :: "u64 \<Rightarrow> u64" where
  "init_ex_step state = shr state 1 XOR shl (ucast (ht2_f20 state)) 46"

definition ht2_hitag2_init_ex :: "u64 \<Rightarrow> u32 \<Rightarrow> u32 \<Rightarrow> hitag_state" where
  "ht2_hitag2_init_ex sharedkey serialnum iv =
    (let state = shl (sharedkey AND 0xFFFF) 32 OR ucast serialnum;
         iv = iv XOR ucast (shr sharedkey 16);
         state = state OR shl (ucast iv) 48;
         iv = shr iv 16;
         state = shr state 1;
         state = (init_ex_step ^^ 16) state;
         state = state OR shl (ucast iv) 47;
         state = (init_ex_step ^^ 15) state;
         state = state XOR shl (ucast (ht2_f20 state)) 47;
         temp = state XOR shr state 1
     in \<lparr>shiftreg = state,
         lfsr = state XOR shr state 6 XOR shr state 16 XOR shr state 26 XOR shr state 30 XOR shr state 41
           XOR shr temp 2 XOR shr temp 7 XOR shr temp 22 XOR shr temp 42 XOR shr temp 46\<rparr>)"

primrec nstep_loop :: "nat \<Rightarrow> u64 \<Rightarrow> u64 \<Rightarrow> u32 \<Rightarrow> u64 \<times> u64 \<times> u32" where
  "nstep_loop 0 state l result = (state, l, result)"
| "nstep_loop (Suc steps) state l result =
    (if l AND 1 \<noteq> 0 then
       let state = shr state 1 OR 0x800000000000
       in nstep_loop steps state (shr l 1 XOR 0xB38083220073) (shl result 1 OR ht2_f20 state)
     else
       let state = shr state 1
       in nstep_loop steps state (shr l 1) (shl result 1 OR ht2_f20 state))"

definition ht2_hitag2_nstep :: "hitag_state \<Rightarrow> nat \<Rightarrow> u32 \<times> hitag_state" where
  "ht2_hitag2_nstep hstate steps =
    (if steps = 0 then (0, hstate)
     else case nstep_loop steps (shiftreg hstate) (lfsr hstate) 0 of (state, l, result) \<Rightarrow>
       (result, hstate\<lparr>shiftreg := state, lfsr := l\<rparr>))"

subsection \<open>The plain cipher\<close>

definition init_step :: "u64 \<Rightarrow> u32 \<Rightarrow> nat \<Rightarrow> u64 \<Rightarrow> u64" where
  "init_step key iv i x =
    (let x = shr x 1 in x + shl (ucast (ht2_f20 x) XOR ((ucast (shr iv i) XOR shr key (i + 16)) AND 1)) 47)"

definition ht2_hitag2_init :: "u64 \<Rightarrow> u32 \<Rightarrow> u32 \<Rightarrow> u64" where
  "ht2_hitag2_init key serial iv = fold (init_step key iv) [0..<32] (shl (key AND 0xFFFF) 32 + ucast serial)"

definition ht2_hitag2_bit :: "u64 \<Rightarrow> u64 \<times> u64" where
  "ht2_hitag2_bit state =
    (let x = state;
         x = shr x 1 + shl ((shr x 0 XOR shr x 2 XOR shr x 3 XOR shr x 6
               XOR shr x 7 XOR shr x 8 XOR shr x 16 XOR shr x 22
               XOR shr x 23 XOR shr x 26 XOR shr x 30 XOR shr x 41
               XOR shr x 42 XOR shr x 43 XOR shr x 46 XOR shr x 47) AND 1) 47
     in (ucast (ht2_f20 x), x))"

text \<open>The bits of \<open>ht2_hitag2_word\<close>, the first one at position \<open>steps - 1\<close>.\<close>

primrec word_loop :: "nat \<Rightarrow> u64 \<Rightarrow> u32 \<Rightarrow> u32 \<times> u64" where
  "word_loop 0 state c = (c, state)"
| "word_loop (Suc steps) state c = (case ht2_hitag2_bit state of (b, state) \<Rightarrow> word_loop steps state (c + shl (ucast b) steps))"

text \<open>A word of no bits, or of more than 32, shifts by more than the width, which C leaves undefined: \<open>None\<close>.\<close>

definition ht2_hitag2_word :: "u64 \<Rightarrow> nat \<Rightarrow> (u32 \<times> u64) option" where
  "ht2_hitag2_word state steps = (if steps = 0 \<or> 32 < steps then None else Some (word_loop steps state 0))"

definition ht2_hitag2_byte :: "u64 \<Rightarrow> u32 \<times> u64" where
  "ht2_hitag2_byte state =
    (let c = 0;
         (b, state) = ht2_hitag2_bit state; c = c + shl (ucast b) 7;
         (b, state) = ht2_hitag2_bit state; c = c + shl (ucast b) 6;
         (b, state) = ht2_hitag2_bit state; c = c + shl (ucast b) 5;
         (b, state) = ht2_hitag2_bit state; c = c + shl (ucast b) 4;
         (b, state) = ht2_hitag2_bit state; c = c + shl (ucast b) 3;
         (b, state) = ht2_hitag2_bit state; c = c + shl (ucast b) 2;
         (b, state) = ht2_hitag2_bit state; c = c + shl (ucast b) 1;
         (b, state) = ht2_hitag2_bit state; c = c + shl (ucast b) 0
     in (c, state))"

subsection \<open>Recovering keys\<close>

text \<open>The loop that goes back through the initialisation and collects the filter bits.\<close>

definition recover_step :: "u32 \<Rightarrow> nat \<Rightarrow> u64 \<times> u32 \<Rightarrow> u64 \<times> u32" where
  "recover_step uid i = (\<lambda>(reg, b).
    let reg = shl reg 1 OR ucast (shr uid (31 - i) AND 1) in (reg, shl b 1 OR ht2_fnf reg))"

definition ht2_recoverkey :: "hitag_state \<Rightarrow> u32 \<Rightarrow> u32 \<Rightarrow> u64 \<times> hitag_state" where
  "ht2_recoverkey hstate uid nRenc =
    (let key = shiftreg hstate AND 0xffff;
         nRxork = ucast (shr (shiftreg hstate) 16 AND 0xffffffff) :: u32;
         (reg, b) = fold (recover_step uid) [0..<32] (shiftreg hstate, 0);
         nR = nRenc XOR b;
         keyupper = ucast (nRxork XOR nR) :: u64
     in (key OR shl keyupper 16, hstate\<lparr>shiftreg := reg\<rparr>))"

text \<open>\<open>REV8\<close> to \<open>REV64\<close> of \<open>commonutil.h\<close>: they reverse the bits of each byte.\<close>

definition REV8 :: "u64 \<Rightarrow> u64" where
  "REV8 x = bit01 x 7 + shl (bit01 x 6) 1 + shl (bit01 x 5) 2 + shl (bit01 x 4) 3 + shl (bit01 x 3) 4 + shl (bit01 x 2) 5 +
    shl (bit01 x 1) 6 + shl (bit01 x 0) 7"

definition REV16 :: "u64 \<Rightarrow> u64" where "REV16 x = REV8 x + shl (REV8 (shr x 8)) 8"
definition REV32 :: "u64 \<Rightarrow> u64" where "REV32 x = REV16 x + shl (REV16 (shr x 16)) 16"
definition REV64 :: "u64 \<Rightarrow> u64" where "REV64 x = REV32 x + shl (REV32 (shr x 32)) 32"

definition fnR_back :: "u64 \<Rightarrow> u64" where
  "fnR_back reg = (shl reg 1 AND 0xffffffffffff) OR ucast (ht2_fnR reg)"

definition ht2_try_state :: "u64 \<Rightarrow> u32 \<Rightarrow> u32 \<Rightarrow> u32 \<Rightarrow> u32 \<Rightarrow> int \<times> u64 option" where
  "ht2_try_state s uid aR2 nR1 nR2 =
    (let reg = fnR_back (fnR_back s);
         keyrev = reg AND 0xffff;
         nR1xk = shr reg 16 AND 0xffffffff;
         (reg, b) = fold (recover_step uid) [0..<32] (reg, 0);
         keyrev = keyrev OR shl (nR1xk XOR ucast nR1 XOR ucast b) 16;
         hstate = ht2_hitag2_init_ex keyrev uid nR2
     in if aR2 XOR fst (ht2_hitag2_nstep hstate 32) = 0xFFFFFFFF then (PM3_SUCCESS, Some (REV64 keyrev)) else (PM3_ESOFT, None))"

subsection \<open>The tag\<close>

record hitag2 =
  ht2_uid :: u32
  ht2_state :: int
  ht2_active_sector :: u16
  ht2_crypto_active :: u8
  ht2_cs :: u64
  ht2_sectors :: "bytes list"

definition ht2_hitag2_cipher_reset :: "hitag2 \<Rightarrow> bytes \<Rightarrow> hitag2" where
  "ht2_hitag2_cipher_reset tag iv =
    (let s = ht2_sectors tag;
         key = ucast (s ! 2 ! 2) OR shl (ucast (s ! 2 ! 3)) 8 OR shl (ucast (s ! 1 ! 0)) 16 OR
           shl (ucast (s ! 1 ! 1)) 24 OR shl (ucast (s ! 1 ! 2)) 32 OR shl (ucast (s ! 1 ! 3)) 40;
         uid = MemLeToUint4byte (s ! 0);
         riv = MemLeToUint4byte iv
     in tag\<lparr>ht2_cs := ht2_hitag2_init (REV64 key) (ucast (REV32 (ucast uid))) (ucast (REV32 (ucast riv)))\<rparr>)"

definition ht2_hitag2_cipher_authenticate :: "u64 \<Rightarrow> bytes \<Rightarrow> bool \<times> u64" where
  "ht2_hitag2_cipher_authenticate state authenticator_is =
    (let (b0, state) = ht2_hitag2_byte state;
         (b1, state) = ht2_hitag2_byte state;
         (b2, state) = ht2_hitag2_byte state;
         (b3, state) = ht2_hitag2_byte state;
         authenticator_should = map ucast [NOT b0, NOT b1, NOT b2, NOT b3]
     in (authenticator_should = take 4 authenticator_is, state))"

primrec transcrypt_bytes :: "nat \<Rightarrow> nat \<Rightarrow> u64 \<Rightarrow> bytes \<Rightarrow> bytes \<times> u64" where
  "transcrypt_bytes i 0 state data = (data, state)"
| "transcrypt_bytes i (Suc n) state data =
    (case ht2_hitag2_byte state of (b, state) \<Rightarrow> transcrypt_bytes (i + 1) n state (data[i := data ! i XOR ucast b]))"

primrec transcrypt_bits :: "nat \<Rightarrow> nat \<Rightarrow> nat \<Rightarrow> u64 \<Rightarrow> bytes \<Rightarrow> bytes \<times> u64" where
  "transcrypt_bits at i 0 state data = (data, state)"
| "transcrypt_bits at i (Suc n) state data =
    (case ht2_hitag2_bit state of (b, state) \<Rightarrow> transcrypt_bits at (i + 1) n state (data[at := data ! at XOR ucast (shl b (7 - i))]))"

text \<open>\<open>None\<close> where C leaves the result open: a position behind the data, or more than eight bits of a byte.\<close>

definition ht2_hitag2_cipher_transcrypt :: "u64 \<Rightarrow> bytes \<Rightarrow> nat \<Rightarrow> nat \<Rightarrow> (bytes \<times> u64) option" where
  "ht2_hitag2_cipher_transcrypt state data n bits =
    (if 8 < bits \<or> length data < n + (if 0 < bits then 1 else 0) then None
     else case transcrypt_bytes 0 n state data of (data, state) \<Rightarrow> Some (transcrypt_bits n 0 bits state data))"

end
