(* ===== verification/Hitag2_Laws.thy ===== *)
theory Hitag2_Laws
  imports Hitag2
begin

text \<open>
  The laws of the Hitag2 cipher. All registers are read bit by bit as windows of 48 bits that take in one bit at
  the top (\<open>shift_in\<close>); the fast cipher is the plain one because its second register is the linear image \<open>taps\<close>
  of the first. Rollback and key recovery follow from the same view.
\<close>

subsection \<open>The filter\<close>

lemma i4_cong:
  assumes "bit s a = bit t a" "bit s b = bit t b" "bit s c = bit t c" "bit s d = bit t d"
  shows "i4 s a b c d = i4 t a b c d"
  by (simp only: i4_def assms)

lemma f20_cong:
  assumes "\<And>n. n < 46 \<Longrightarrow> bit s n = bit t n"
  shows "ht2_f20 s = ht2_f20 t"
proof -
  have "i4 s 1 2 4 5 = i4 t 1 2 4 5" "i4 s 7 11 13 14 = i4 t 7 11 13 14" "i4 s 16 20 22 25 = i4 t 16 20 22 25"
    "i4 s 27 28 30 32 = i4 t 27 28 30 32" "i4 s 33 42 43 45 = i4 t 33 42 43 45"
    by (rule i4_cong; rule assms; simp)+
  then show ?thesis by (simp only: ht2_f20_def)
qed

lemma f20_01: "ht2_f20 s = of_bool (odd (ht2_f20 s))"
  unfolding ht2_f20_def Let_def shr_and_1 by simp

lemma bitn_of_bool: "ht2_bitn x n = of_bool (bit x n)"
proof (cases "bit x n")
  case True
  then have "n < 64" using bit_imp_le_length [OF True] by simp
  then have "bit (x AND shl 1 n) n" using True by (simp add: word_bits bit_exp_iff)
  then have "x AND shl 1 n \<noteq> 0" by (metis bit_0_eq bot_apply bot_bool_def)
  then show ?thesis using True by (simp add: ht2_bitn_def)
next
  case False
  then have "x AND shl 1 n = 0"
    by (intro bit_word_eqI) (auto simp: word_bits push_bit_eq_mult bit_exp_iff)
  then show ?thesis using False by (simp add: ht2_bitn_def)
qed

lemma f4_table: "n < 32 \<Longrightarrow> ht2_bitn (ucast (c :: u32)) n = shr c n AND 1"
  by (simp add: bitn_of_bool shr_and_1 word_bits)

lemma nibble_i4:
  assumes "a' = Suc a" "b' = Suc b" "c' = Suc c" "d' = Suc d"
  shows "shl (ht2_bitn s a') 0 OR shl (ht2_bitn s b') 1 OR shl (ht2_bitn s c') 2 OR shl (ht2_bitn s d') 3
    = i4 (shr s 1) a b c d"
  unfolding assms
  by (cases "bit s (Suc a)"; cases "bit s (Suc b)"; cases "bit s (Suc c)"; cases "bit s (Suc d)")
    (simp_all add: bitn_of_bool i4_def bit_drop_bit_eq)

lemma i4_less: "unat (i4 s a b c d) < 16"
  by (cases "bit s a"; cases "bit s b"; cases "bit s c"; cases "bit s d") (simp_all add: i4_def)

lemma fnf_f20: "ht2_fnf s = ht2_f20 (shr s 1)"
proof -
  let ?x = "shr s 1"
  have x: "shl (ht2_bitn s 2) 0 OR shl (ht2_bitn s 3) 1 OR shl (ht2_bitn s 5) 2 OR shl (ht2_bitn s 6) 3 = i4 ?x 1 2 4 5"
    "shl (ht2_bitn s 8) 0 OR shl (ht2_bitn s 12) 1 OR shl (ht2_bitn s 14) 2 OR shl (ht2_bitn s 15) 3 = i4 ?x 7 11 13 14"
    "shl (ht2_bitn s 17) 0 OR shl (ht2_bitn s 21) 1 OR shl (ht2_bitn s 23) 2 OR shl (ht2_bitn s 26) 3 = i4 ?x 16 20 22 25"
    "shl (ht2_bitn s 28) 0 OR shl (ht2_bitn s 29) 1 OR shl (ht2_bitn s 31) 2 OR shl (ht2_bitn s 33) 3 = i4 ?x 27 28 30 32"
    "shl (ht2_bitn s 34) 0 OR shl (ht2_bitn s 43) 1 OR shl (ht2_bitn s 44) 2 OR shl (ht2_bitn s 46) 3 = i4 ?x 33 42 43 45"
    by (rule nibble_i4; simp)+
  have fa: "ht2_fa (i4 t a b c d) = shr ht2_f4a (unat (i4 t a b c d)) AND 1"
    and fb: "ht2_fb (i4 t a b c d) = shr ht2_f4b (unat (i4 t a b c d)) AND 1" for t a b c d
    using i4_less [where s = t and a = a and b = b and c = c and d = d]
      f4_table [where n = "unat (i4 t a b c d)" and c = "0x2C79"] f4_table [where n = "unat (i4 t a b c d)" and c = "0x6671"]
    by (simp_all add: ht2_fa_def ht2_fb_def ht2_f4a_def ht2_f4b_def)
  have fc: "ht2_fc (shl (of_bool p) 0 OR shl (of_bool q) 1 OR shl (of_bool r) 2 OR shl (of_bool u) 3 OR shl (of_bool v) 4)
      = shr ht2_f5c (unat (of_bool p * 1 + of_bool q * 2 + of_bool r * 4 + of_bool u * 8 + of_bool v * 16 :: u32)) AND 1" for p q r u v
    by (cases p; cases q; cases r; cases u; cases v) (simp_all add: ht2_fc_def ht2_bitn_def ht2_f5c_def)
  show ?thesis
    unfolding ht2_fnf_def ht2_f20_def Let_def x fa fb shr_and_1 fc ..
qed

subsection \<open>One step\<close>

definition taps :: "u64 \<Rightarrow> u64" where
  "taps x = shr x 0 XOR shr x 2 XOR shr x 3 XOR shr x 6 XOR shr x 7 XOR shr x 8 XOR shr x 16 XOR shr x 22
    XOR shr x 23 XOR shr x 26 XOR shr x 30 XOR shr x 41 XOR shr x 42 XOR shr x 43 XOR shr x 46 XOR shr x 47"

lemmas xor_ac = xor.assoc xor.commute xor.left_commute

lemma taps_xor: "taps (x XOR y) = taps x XOR taps y"
  unfolding taps_def drop_bit_xor by (simp only: xor_ac)

lemma taps_shr: "taps (shr x 1) = shr (taps x) 1"
  unfolding taps_def drop_bit_xor drop_bit_drop_bit by (simp only: add.commute)

text \<open>A register of 48 bits.\<close>

definition reg_48 :: "u64 \<Rightarrow> bool" where
  "reg_48 x = (x AND 0xffffffffffff = x)"

lemma mask48: "x AND 0xffffffffffff = take_bit 48 (x :: u64)"
  by (simp add: take_bit_eq_mask mask_eq_exp_minus_1)

lemma reg_48_bit: "reg_48 x \<Longrightarrow> 48 \<le> n \<Longrightarrow> \<not> bit x n"
  unfolding reg_48_def mask48 by (metis bit_take_bit_iff leD)

lemma reg_48I: "(\<And>n. 48 \<le> n \<Longrightarrow> \<not> bit x n) \<Longrightarrow> reg_48 x"
  unfolding reg_48_def mask48 by (rule bit_word_eqI) (auto simp: bit_take_bit_iff intro: leI simp flip: not_le)

text \<open>The register that takes in one bit at the top.\<close>

definition shift_in :: "bool \<Rightarrow> u64 \<Rightarrow> u64" where
  "shift_in b x = shr x 1 XOR shl (of_bool b) 47"

lemma bit_top: "bit (shl (of_bool b :: u64) 47) n \<longleftrightarrow> n = 47 \<and> b"
  by (auto simp: word_bits)

lemma bit_shift_in: "reg_48 x \<Longrightarrow> bit (shift_in b x) n = (if n = 47 then b else bit x (Suc n))"
  using reg_48_bit [of x 48] by (auto simp: shift_in_def bit_xor_iff bit_top bit_drop_bit_eq)

lemma reg_48_shift_in [simp]: "reg_48 x \<Longrightarrow> reg_48 (shift_in b x)"
  by (rule reg_48I) (auto simp: bit_shift_in reg_48_bit)

lemma shift_in_or: "reg_48 x \<Longrightarrow> shr x 1 OR shl (of_bool b) 47 = shift_in b x"
  using reg_48_bit [of x 48] by (intro bit_word_eqI) (auto simp: bit_shift_in bit_or_iff bit_top bit_drop_bit_eq)

lemma shift_in_add:
  assumes "reg_48 x"
  shows "shr x 1 + shl (of_bool b) 47 = shift_in b x"
proof -
  have "\<not> bit (shr x 1) 47" using reg_48_bit [OF assms, of 48] by (simp add: bit_drop_bit_eq)
  then have "shr x 1 + shl (of_bool b) 47 = shr x 1 OR shl (of_bool b) 47"
    by (intro disjunctive_add) (metis bit_top)
  then show ?thesis using shift_in_or [OF assms] by simp
qed

lemma hitag2_bit: "reg_48 x \<Longrightarrow> ht2_hitag2_bit x = (let x' = shift_in (odd (taps x)) x in (ucast (ht2_f20 x'), x'))"
  unfolding ht2_hitag2_bit_def Let_def taps_def [symmetric] and_one_eq mod_2_eq_odd
  by (simp only: shift_in_add)

subsection \<open>The fast cipher is the plain one\<close>

lemma taps_top: "taps (shl (of_bool b) 47) = (if b then 0xB38083220073 else 0)"
  by (cases b) (simp_all add: taps_def)

lemma taps_shift_in: "taps (shift_in b x) = (if b then shr (taps x) 1 XOR 0xB38083220073 else shr (taps x) 1)"
  unfolding shift_in_def taps_xor taps_shr taps_top by simp

lemma f20_acc: "shl r 1 OR ht2_f20 x = r * 2 + ht2_f20 x" for r :: u32
proof -
  have "shl r 1 OR of_bool p = r * 2 + of_bool p" for p
    by (subst disjunctive_add [symmetric]) (auto simp: word_bits push_bit_eq_mult bit_0)
  then show ?thesis by (metis f20_01)
qed

text \<open>The step of both ciphers; the fast one reads its feedback off the second register.\<close>

lemma nstep_loop_Suc:
  assumes "reg_48 x"
  shows "nstep_loop (Suc n) x (taps x) r =
    (let x' = shift_in (odd (taps x)) x in nstep_loop n x' (taps x') (r * 2 + ht2_f20 x'))"
proof -
  have "shr x 1 OR 0x800000000000 = shift_in True x" "shr x 1 = shift_in False x"
    using shift_in_or [OF assms, of True] shift_in_or [OF assms, of False] by simp_all
  then show ?thesis
    by (cases "odd (taps x)") (simp_all add: Let_def and_one_eq mod_2_eq_odd f20_acc taps_shift_in del: One_nat_def)
qed

lemma word_loop_acc: "word_loop n x c = (c + fst (word_loop n x 0), snd (word_loop n x 0))"
proof (induction n arbitrary: x c)
  case (Suc n)
  obtain b x' where b: "ht2_hitag2_bit x = (b, x')" by fastforce
  show ?case
    using Suc [of x' "c + shl (ucast b) n"] Suc [of x' "shl (ucast b) n"] by (simp add: b add.assoc)
qed simp

lemma nstep_loop_word:
  "reg_48 x \<Longrightarrow> nstep_loop n x (taps x) r =
    (case word_loop n x 0 of (c, x') \<Rightarrow> (x', taps x', shl r n + c)) \<and> reg_48 (snd (word_loop n x 0))"
proof (induction n arbitrary: x r)
  case (Suc n)
  let ?x = "shift_in (odd (taps x)) x"
  have b: "ht2_hitag2_bit x = (ucast (ht2_f20 ?x), ?x)"
    by (simp only: hitag2_bit [OF Suc.prems] Let_def)
  have u: "ucast (ucast (ht2_f20 ?x) :: u64) = ht2_f20 ?x"
    by (metis f20_01 ucast_of_bool)
  show ?case
    using Suc.IH [of ?x "r * 2 + ht2_f20 ?x"] Suc.prems word_loop_acc [of n ?x "shl (ht2_f20 ?x) n"]
    by (simp add: nstep_loop_Suc Let_def b u case_prod_beta push_bit_eq_mult algebra_simps del: nstep_loop.simps)
qed simp

lemma init_ex_lfsr: "lfsr (ht2_hitag2_init_ex k u i) = taps (shiftreg (ht2_hitag2_init_ex k u i))"
proof -
  have "s XOR shr s 6 XOR shr s 16 XOR shr s 26 XOR shr s 30 XOR shr s 41 XOR shr (s XOR shr s 1) 2 XOR
      shr (s XOR shr s 1) 7 XOR shr (s XOR shr s 1) 22 XOR shr (s XOR shr s 1) 42 XOR shr (s XOR shr s 1) 46 = taps s" for s :: u64
    unfolding taps_def drop_bit_xor drop_bit_drop_bit by (simp add: xor_ac)
  then show ?thesis by (simp add: ht2_hitag2_init_ex_def Let_def)
qed

subsection \<open>The two initialisations\<close>

text \<open>The number the initialisation feeds in: the random of the reader and the upper part of the key.\<close>

definition feed :: "u64 \<Rightarrow> u32 \<Rightarrow> u32" where
  "feed key iv = iv XOR ucast (shr key 16)"

definition init_start :: "u64 \<Rightarrow> u32 \<Rightarrow> u64" where
  "init_start key serial = shl (key AND 0xFFFF) 32 + ucast serial"

definition init_reg :: "u64 \<Rightarrow> u32 \<Rightarrow> u32 \<Rightarrow> nat \<Rightarrow> u64" where
  "init_reg key serial iv n = fold (init_step key iv) [0..<n] (init_start key serial)"

lemma bit_feed: "i < 32 \<Longrightarrow> bit (feed key iv) i = (bit iv i \<noteq> bit key (i + 16))"
  by (simp add: feed_def word_bits add.commute)

lemma init_step_shift:
  assumes "reg_48 x" and "i < 32"
  shows "init_step key iv i x = shift_in (odd (ht2_f20 (shr x 1)) \<noteq> bit (feed key iv) i) x"
proof -
  have "(ucast (shr iv i) XOR shr key (i + 16)) AND 1 = (of_bool (bit (feed key iv) i) :: u64)"
    by (rule bit_word_eqI) (use assms in \<open>auto simp: word_bits bit_feed bit_1_iff add.commute\<close>)
  moreover have "ucast (ht2_f20 (shr x 1)) = (of_bool (odd (ht2_f20 (shr x 1))) :: u64)"
    by (metis f20_01 ucast_of_bool)
  moreover have "of_bool p XOR of_bool q = (of_bool (p \<noteq> q) :: u64)" for p q
    by (cases p; cases q) simp_all
  ultimately show ?thesis
    unfolding init_step_def Let_def by (simp only: shift_in_add assms)
qed

lemma init_start_or: "init_start key serial = shl (key AND 0xFFFF) 32 OR ucast serial"
  unfolding init_start_def by (rule disjunctive_add) (auto simp: word_bits)

lemma bit_init_start:
  "bit (init_start key serial) n = (if n < 32 then bit serial n else n < 48 \<and> bit key (n - 32))"
  by (auto simp: init_start_or word_bits and_masks)

lemma reg_48_init_start [simp]: "reg_48 (init_start key serial)"
  by (rule reg_48I) (simp add: bit_init_start)

lemma reg_48_init_reg [simp]: "n \<le> 32 \<Longrightarrow> reg_48 (init_reg key serial iv n)"
proof (induction n)
  case (Suc n)
  then show ?case by (simp add: init_reg_def init_step_shift)
qed (simp add: init_reg_def)

lemma init_reg_Suc:
  "n < 32 \<Longrightarrow> init_reg key serial iv (Suc n) =
    (let x = init_reg key serial iv n in shift_in (odd (ht2_f20 (shr x 1)) \<noteq> bit (feed key iv) n) x)"
  using reg_48_init_reg [of n key serial iv] by (simp add: init_reg_def init_step_shift Let_def)

lemma ht2_hitag2_init_reg: "ht2_hitag2_init key serial iv = init_reg key serial iv 32"
  by (simp add: ht2_hitag2_init_def init_reg_def init_start_def)

text \<open>
  The unrolled initialisation runs one position lower, with sixteen bits of the feed waiting above
  the register: \<open>delayed x y\<close> holds the register \<open>x\<close> and the bits \<open>y\<close> still to be fed.
\<close>

definition delayed :: "u64 \<Rightarrow> u32 \<Rightarrow> u64" where
  "delayed x y = shr x 1 OR shl (ucast y) 47"

lemma bit_delayed:
  assumes "reg_48 x"
  shows "bit (delayed x y) n = (if n < 47 then bit x (Suc n) else n < 64 \<and> bit y (n - 47))"
  using reg_48_bit [OF assms, of "Suc n"] by (auto simp: delayed_def word_bits)

lemma init_ex_step_delayed:
  assumes x: "reg_48 x" and y: "\<And>n. 17 \<le> n \<Longrightarrow> \<not> bit y n"
  shows "init_ex_step (delayed x y) = delayed (shift_in (odd (ht2_f20 (shr x 1)) \<noteq> odd y) x) (shr y 1)"
proof -
  let ?f = "odd (ht2_f20 (shr x 1))"
  have "ht2_f20 (delayed x y) = ht2_f20 (shr x 1)"
    by (rule f20_cong) (simp add: bit_delayed [OF x] bit_drop_bit_eq)
  then have f: "ucast (ht2_f20 (delayed x y)) = (of_bool ?f :: u64)"
    by (metis f20_01 ucast_of_bool)
  show ?thesis
    unfolding init_ex_step_def f
  proof (rule bit_word_eqI)
    fix n assume "n < LENGTH(64)"
    then show "bit (shr (delayed x y) 1 XOR shl (of_bool ?f) 46) n =
        bit (delayed (shift_in (?f \<noteq> odd y) x) (shr y 1)) n"
      using reg_48_bit [OF x, of "Suc (Suc n)"] y [of "n - 46"]
      by (cases "n < 46"; cases "n = 46"; cases "n = 63")
        (auto simp: bit_delayed x bit_shift_in word_bits bit_0 Suc_diff_le [symmetric])
  qed
qed

lemma init_ex_steps:
  assumes "m + i \<le> 32" and "m \<le> 16"
  shows "(init_ex_step ^^ m) (delayed (init_reg key u iv i) (take_bit 16 (shr (feed key iv) i))) =
    delayed (init_reg key u iv (i + m)) (shr (take_bit 16 (shr (feed key iv) i)) m)"
  using assms
proof (induction m)
  case (Suc m)
  let ?y = "shr (take_bit 16 (shr (feed key iv) i)) m"
  have "odd ?y = bit (feed key iv) (i + m)"
    using Suc.prems by (simp add: word_bits add.commute flip: bit_0)
  then show ?case
    using Suc init_ex_step_delayed [of "init_reg key u iv (i + m)" ?y]
    by (simp add: init_reg_Suc Let_def word_bits)
qed simp

lemma init_ex_shiftreg: "shiftreg (ht2_hitag2_init_ex key u iv) = ht2_hitag2_init key u iv"
proof -
  let ?y = "feed key iv" and ?r = "init_reg key u iv"
  have s0: "shr ((shl (key AND 0xFFFF) 32 OR ucast u) OR shl (ucast ?y) 48) 1 = delayed (?r 0) (take_bit 16 (shr ?y 0))"
    by (rule bit_word_eqI)
      (auto simp: init_reg_def bit_delayed bit_init_start word_bits and_masks Suc_diff_le)
  have a: "(init_ex_step ^^ 16) (delayed (?r 0) (take_bit 16 (shr ?y 0))) = delayed (?r 16) (shr (take_bit 16 (shr ?y 0)) 16)"
    using init_ex_steps [of 16 0 key u iv] by simp
  have "shr (take_bit 16 (shr ?y 0)) 16 = 0" "take_bit 16 (shr ?y 16) = shr ?y 16"
    by (rule bit_word_eqI; auto simp: word_bits dest: bit_imp_le_length)+
  then have b: "delayed (?r 16) (shr (take_bit 16 (shr ?y 0)) 16) OR shl (ucast (shr ?y 16)) 47 = delayed (?r 16) (take_bit 16 (shr ?y 16))"
    by (simp add: delayed_def)
  have c: "(init_ex_step ^^ 15) (delayed (?r 16) (take_bit 16 (shr ?y 16))) = delayed (?r 31) (shr (take_bit 16 (shr ?y 16)) 15)"
    using init_ex_steps [of 15 16 key u iv] by simp
  have d: "delayed (?r 31) (shr (take_bit 16 (shr ?y 16)) 15) XOR
      shl (ucast (ht2_f20 (delayed (?r 31) (shr (take_bit 16 (shr ?y 16)) 15)))) 47 = ?r 32"
  proof -
    let ?d = "delayed (?r 31) (shr (take_bit 16 (shr ?y 16)) 15)"
    have "ht2_f20 ?d = ht2_f20 (shr (?r 31) 1)"
      by (rule f20_cong) (simp add: bit_delayed bit_drop_bit_eq)
    then have f: "ucast (ht2_f20 ?d) = (of_bool (odd (ht2_f20 (shr (?r 31) 1))) :: u64)"
      by (metis f20_01 ucast_of_bool)
    have r: "?r 32 = shift_in (odd (ht2_f20 (shr (?r 31) 1)) \<noteq> bit ?y 31) (?r 31)"
      using init_reg_Suc [of 31 key u iv] by (simp add: Let_def)
    show ?thesis
      unfolding f r
      by (rule bit_word_eqI) (auto simp: bit_shift_in bit_delayed word_bits not_less reg_48_bit)
  qed
  show ?thesis
    unfolding ht2_hitag2_init_reg ht2_hitag2_init_ex_def Let_def feed_def [symmetric] s0 a b c d hitag_state.select_convs ..
qed

lemma nstep_word:
  assumes "n \<le> 32" "0 < n"
  shows "ht2_hitag2_word (ht2_hitag2_init key u iv) n =
    Some (map_prod id shiftreg (ht2_hitag2_nstep (ht2_hitag2_init_ex key u iv) n))"
  using assms nstep_loop_word [of "ht2_hitag2_init key u iv" n 0]
  by (simp add: ht2_hitag2_word_def ht2_hitag2_nstep_def init_ex_lfsr init_ex_shiftreg ht2_hitag2_init_reg case_prod_beta)

subsection \<open>Rollback\<close>

definition reg_step :: "u64 \<Rightarrow> u64" where
  "reg_step x = shift_in (odd (taps x)) x"

lemma reg_48_reg_step [simp]: "reg_48 x \<Longrightarrow> reg_48 (reg_step x)"
  by (simp add: reg_step_def)

lemma reg_48_steps [simp]: "reg_48 x \<Longrightarrow> reg_48 ((reg_step ^^ n) x)"
  by (induction n) simp_all

lemma word_loop_steps: "reg_48 x \<Longrightarrow> snd (word_loop n x c) = (reg_step ^^ n) x"
proof (induction n arbitrary: x c)
  case (Suc n)
  then have "ht2_hitag2_bit x = (ucast (ht2_f20 (reg_step x)), reg_step x)"
    by (simp add: hitag2_bit Let_def reg_step_def)
  then show ?case using Suc by (simp add: funpow_swap1)
qed simp

lemma xor_of_bool: "(of_bool p :: u32) XOR of_bool q = of_bool (p \<noteq> q)"
  by (cases p; cases q) simp_all

lemma fnR_reg_step:
  assumes "reg_48 x"
  shows "ht2_fnR (reg_step x) = of_bool (odd x)"
proof -
  let ?b = "\<lambda>n. of_bool (bit x n) :: u32"
  have t: "(of_bool (odd (taps x)) :: u32) = ?b 0 XOR ?b 2 XOR ?b 3 XOR ?b 6 XOR ?b 7 XOR ?b 8 XOR ?b 16 XOR ?b 22
      XOR ?b 23 XOR ?b 26 XOR ?b 30 XOR ?b 41 XOR ?b 42 XOR ?b 43 XOR ?b 46 XOR ?b 47"
    unfolding taps_def bit_0 [symmetric] bit_xor_iff bit_drop_bit_eq xor_of_bool comp_apply add_0_right ..
  have s: "ht2_bitn (reg_step x) n = ?b (Suc n)" if "n < 47" for n
    using that by (simp add: bitn_of_bool reg_step_def bit_shift_in [OF assms])
  have top: "ht2_bitn (reg_step x) 47 = of_bool (odd (taps x))"
    by (simp add: bitn_of_bool reg_step_def bit_shift_in [OF assms])
  have "ht2_fnR (reg_step x) = ?b 2 XOR ?b 3 XOR ?b 6 XOR ?b 7 XOR ?b 8 XOR ?b 16 XOR ?b 22
      XOR ?b 23 XOR ?b 26 XOR ?b 30 XOR ?b 41 XOR ?b 42 XOR ?b 43 XOR ?b 46 XOR ?b 47 XOR of_bool (odd (taps x))"
    unfolding ht2_fnR_def by (simp add: s top)
  also have "\<dots> = ?b 0"
    unfolding t by (simp only: xor_ac xor_cancel xor_self_eq xor.right_neutral xor.left_neutral)
  finally show ?thesis by (simp add: bit_0)
qed

lemma fnR_back_step:
  assumes "reg_48 x"
  shows "fnR_back (reg_step x) = x"
proof -
  have "fnR_back (reg_step x) = take_bit 48 (shl (reg_step x) 1) OR of_bool (odd x)"
    by (simp only: fnR_back_def mask48 fnR_reg_step [OF assms] ucast_of_bool)
  also have "\<dots> = x"
  proof (rule bit_word_eqI)
    fix n
    show "bit (take_bit 48 (shl (reg_step x) 1) OR of_bool (odd x)) n = bit x n"
      unfolding bit_or_iff bit_take_bit_iff bit_push_bit_iff bit_of_bool_iff reg_step_def bit_shift_in [OF assms]
      using reg_48_bit [OF assms, of n] by (cases "n < 48"; cases n) (auto simp: bit_0 not_less)
  qed
  finally show ?thesis .
qed


lemma fnR_back_steps: "reg_48 x \<Longrightarrow> (fnR_back ^^ n) ((reg_step ^^ n) x) = x"
  by (induction n) (simp_all add: funpow_swap1 [of fnR_back] fnR_back_step)

lemma nstep_steps:
  "shiftreg (snd (ht2_hitag2_nstep (ht2_hitag2_init_ex key u iv) n)) = (reg_step ^^ n) (ht2_hitag2_init key u iv)"
  using nstep_loop_word [of "ht2_hitag2_init key u iv" n 0] word_loop_steps [of "ht2_hitag2_init key u iv" n 0]
  by (cases n) (simp_all add: ht2_hitag2_nstep_def init_ex_lfsr init_ex_shiftreg ht2_hitag2_init_reg case_prod_beta del: nstep_loop.simps)

subsection \<open>Key recovery\<close>

lemma init_reg_low:
  "i + n < 48 \<Longrightarrow> i \<le> 32 \<Longrightarrow> bit (init_reg key u iv i) n = bit (init_start key u) (i + n)"
proof (induction i arbitrary: n)
  case (Suc i)
  then show ?case by (simp add: init_reg_Suc Let_def bit_shift_in)
qed (simp add: init_reg_def)

lemma init_reg_high:
  "m + k < 32 \<Longrightarrow> bit (init_reg key u iv (Suc m + k)) (47 - k) =
    (odd (ht2_f20 (shr (init_reg key u iv m) 1)) \<noteq> bit (feed key iv) m)"
proof (induction k)
  case 0
  then show ?case by (simp add: init_reg_Suc Let_def bit_shift_in)
next
  case (Suc k)
  then have "Suc (47 - Suc k) = 47 - k" by simp
  with Suc show ?case by (simp add: init_reg_Suc [of "Suc (m + k)"] Let_def bit_shift_in)
qed

lemma recover_loop:
  assumes "j \<le> 32"
  shows "take_bit 48 (fst (fold (recover_step u) [0..<j] (init_reg key u iv 32, 0))) = init_reg key u iv (32 - j) \<and>
    snd (fold (recover_step u) [0..<j] (init_reg key u iv 32, 0)) =
      fold (\<lambda>i acc. shl acc 1 OR of_bool (odd (ht2_f20 (shr (init_reg key u iv (31 - i)) 1)))) [0..<j] 0"
  using assms
proof (induction j)
  case 0
  have "reg_48 (init_reg key u iv 32)" by simp
  then show ?case by (simp add: reg_48_def mask48)
next
  case (Suc j)
  obtain reg b where f: "fold (recover_step u) [0..<j] (init_reg key u iv 32, 0) = (reg, b)" by fastforce
  let ?r = "init_reg key u iv (31 - j)" and ?reg = "shl reg 1 OR ucast (shr u (31 - j) AND 1)"
  have s: "32 - j = Suc (31 - j)" and r: "reg_48 ?r" using Suc.prems by simp_all
  have "bit reg n = bit ?r (Suc n)" if "n < 47" for n
  proof -
    have "bit (take_bit 48 reg) n = bit (init_reg key u iv (32 - j)) n" using Suc f by simp
    with that show ?thesis
      using Suc.prems by (simp add: bit_take_bit_iff s init_reg_Suc Let_def bit_shift_in)
  qed
  moreover have "bit ?r 0 = bit u (31 - j)"
    using Suc.prems by (simp only: init_reg_low bit_init_start) simp
  ultimately have t: "bit ?reg n = bit ?r n" if "n < 48" for n
    unfolding shr_and_1 ucast_of_bool bit_or_iff bit_push_bit_iff bit_of_bool_iff using that by (cases n) auto
  have "take_bit 48 ?reg = ?r"
  proof (rule bit_word_eqI)
    fix n
    show "bit (take_bit 48 ?reg) n = bit ?r n"
      using t [of n] reg_48_bit [OF r, of n] unfolding bit_take_bit_iff by (cases "n < 48") auto
  qed
  moreover have "ht2_fnf ?reg = of_bool (odd (ht2_f20 (shr ?r 1)))"
    unfolding fnf_f20 f20_01 [symmetric] by (rule f20_cong) (use t in \<open>simp only: bit_drop_bit_eq comp_apply; simp\<close>)
  moreover have "fold (recover_step u) [0..<Suc j] (init_reg key u iv 32, 0) = (?reg, shl b 1 OR ht2_fnf ?reg)"
    by (simp only: upt_Suc_append le0 fold_append comp_apply f fold_simps recover_step_def Let_def prod.case)
  moreover have "b = fold (\<lambda>i acc. shl acc 1 OR of_bool (odd (ht2_f20 (shr (init_reg key u iv (31 - i)) 1)))) [0..<j] 0"
    using Suc f by (simp only: snd_conv fst_conv Suc_leD)
  moreover have "32 - Suc j = 31 - j" by simp
  ultimately show ?case
    by (simp only: fst_conv snd_conv upt_Suc_append le0 fold_append comp_apply fold_simps)
qed

text \<open>The bits that the way back collects are the filter bits of the way forth.\<close>

lemma recover_bits:
  assumes "n < 32"
  shows "bit (snd (fold (recover_step u) [0..<32] (init_reg key u iv 32, 0))) n = odd (ht2_f20 (shr (init_reg key u iv n) 1))"
  using recover_loop [of 32 u key iv] bit_fold_shl [where 'a = 32, of "\<lambda>i. odd (ht2_f20 (shr (init_reg key u iv (31 - i)) 1))" "[0..<32]" n] assms
  by (simp add: rev_nth)

lemma init_high_bits:
  assumes "n < 32"
  shows "bit (init_reg key u iv 32) (16 + n) = (odd (ht2_f20 (shr (init_reg key u iv n) 1)) \<noteq> bit (feed key iv) n)"
proof -
  have "n + (31 - n) < 32" "Suc n + (31 - n) = 32" "47 - (31 - n) = 16 + n" using assms by simp_all
  then show ?thesis using init_reg_high [of n "31 - n" key u iv] by simp
qed

lemma recoverkey_init:
  assumes "reg_48 key"
  shows "fst (ht2_recoverkey \<lparr>shiftreg = ht2_hitag2_init key u iv, lfsr = l\<rparr> u iv) = key"
proof -
  obtain reg b where f: "fold (recover_step u) [0..<32] (init_reg key u iv 32, 0) = (reg, b)" by fastforce
  have b: "bit b n = odd (ht2_f20 (shr (init_reg key u iv n) 1))" if "n < 32" for n
    using recover_bits [OF that, of u key iv] f by simp
  let ?s = "init_reg key u iv 32"
  have low: "bit ?s n = bit key n" if "n < 16" for n
    using that init_reg_low [of 32 n key u iv] by (simp add: bit_init_start)
  have "?s AND 0xffff OR shl (ucast ((ucast (shr ?s 16 AND 0xffffffff) :: u32) XOR (iv XOR b))) 16 = key"
  proof (rule bit_word_eqI)
    fix n assume "n < LENGTH(64)"
    show "bit (?s AND 0xffff OR shl (ucast ((ucast (shr ?s 16 AND 0xffffffff) :: u32) XOR (iv XOR b))) 16) n = bit key n"
    proof (cases "n < 16")
      case True
      then show ?thesis using low [OF True] by (simp add: word_bits and_masks)
    next
      case False
      then obtain m where n: "n = 16 + m" by (metis le_Suc_ex not_less)
      show ?thesis
      proof (cases "m < 32")
        case True
        then have "bit ?s n = (bit b m \<noteq> (bit iv m \<noteq> bit key n))"
          unfolding n init_high_bits [OF True] bit_feed [OF True] b [OF True] by (simp add: add.commute)
        then show ?thesis using True n by (auto simp: word_bits and_masks)
      next
        case False
        then show ?thesis using reg_48_bit [OF assms, of n] n by (auto simp: word_bits and_masks dest: bit_imp_le_length)
      qed
    qed
  qed
  then show ?thesis
    by (simp only: ht2_recoverkey_def ht2_hitag2_init_reg hitag_state.select_convs f prod.case Let_def fst_conv)
qed

subsection \<open>Every register has one key\<close>

lemma finite_reg48: "finite {x. reg_48 x}"
  by simp

lemma init_inj: "inj_on (\<lambda>key. ht2_hitag2_init key u iv) {key. reg_48 key}"
  by (rule inj_on_inverseI [where g = "\<lambda>s. fst (ht2_recoverkey \<lparr>shiftreg = s, lfsr = 0\<rparr> u iv)"]) (simp add: recoverkey_init)

lemma reg_48_init: "reg_48 (ht2_hitag2_init key u iv)"
  by (simp add: ht2_hitag2_init_reg)

lemma init_surj:
  assumes "reg_48 s"
  obtains key where "reg_48 key" "ht2_hitag2_init key u iv = s"
proof -
  have "(\<lambda>key. ht2_hitag2_init key u iv) ` {key. reg_48 key} = {key. reg_48 key}"
    by (rule endo_inj_surj [OF finite_reg48 _ init_inj]) (use reg_48_init in blast)
  then show thesis using that assms by (metis (mono_tags, lifting) image_iff mem_Collect_eq)
qed

lemma recoverkey_lfsr: "fst (ht2_recoverkey \<lparr>shiftreg = s, lfsr = l\<rparr> u iv) = fst (ht2_recoverkey \<lparr>shiftreg = s, lfsr = l'\<rparr> u iv)"
  by (simp add: ht2_recoverkey_def Let_def case_prod_beta)

lemma recoverkey_iff:
  assumes "reg_48 s"
  shows "reg_48 key \<and> ht2_hitag2_init key u iv = s \<longleftrightarrow> key = fst (ht2_recoverkey \<lparr>shiftreg = s, lfsr = l\<rparr> u iv)"
  using recoverkey_init init_surj [OF assms, of u iv] by metis

lemma steps_surj:
  assumes "reg_48 s"
  obtains x where "reg_48 x" "(reg_step ^^ n) x = s"
proof -
  have "inj_on (reg_step ^^ n) {x. reg_48 x}"
    by (rule inj_on_inverseI [where g = "fnR_back ^^ n"]) (simp add: fnR_back_steps)
  then have "(reg_step ^^ n) ` {x. reg_48 x} = {x. reg_48 x}"
    by (intro endo_inj_surj [OF finite_reg48]) auto
  then show thesis using that assms by (metis (mono_tags, lifting) image_iff mem_Collect_eq)
qed

lemma try_state_key:
  assumes "reg_48 key" "s = (reg_step ^^ 2) (ht2_hitag2_init key u nR1)"
  shows "ht2_try_state s u aR2 nR1 nR2 =
    (if aR2 = NOT (fst (ht2_hitag2_nstep (ht2_hitag2_init_ex key u nR2) 32)) then (PM3_SUCCESS, Some (REV64 key)) else (PM3_ESOFT, None))"
proof -
  let ?x = "ht2_hitag2_init key u nR1"
  obtain reg b where f: "fold (recover_step u) [0..<32] (?x, 0) = (reg, b)" by fastforce
  have x: "fnR_back (fnR_back s) = ?x"
    using fnR_back_steps [OF reg_48_init, of 2 key u nR1] assms(2) by (simp add: numeral_2_eq_2)
  have c: "shl (shr ?x 16 AND 0xffffffff XOR ucast nR1 XOR ucast b) 16 =
      shl (ucast ((ucast (shr ?x 16 AND 0xffffffff) :: u32) XOR (nR1 XOR b)) :: u64) 16"
    by (rule bit_word_eqI) (auto simp: word_bits and_masks dest: bit_imp_le_length)
  have "fst (ht2_recoverkey \<lparr>shiftreg = ?x, lfsr = 0\<rparr> u nR1) = key" by (rule recoverkey_init [OF assms(1)])
  then have k: "?x AND 0xffff OR shl (shr ?x 16 AND 0xffffffff XOR ucast nR1 XOR ucast b) 16 = key"
    by (simp only: ht2_recoverkey_def hitag_state.select_convs f prod.case Let_def fst_conv c)
  have n: "a XOR w = 0xFFFFFFFF \<longleftrightarrow> a = NOT w" for a w :: u32
  proof -
    have "(0xFFFFFFFF :: u32) = - 1" by simp
    then show ?thesis by (auto simp: bit_eq_iff bit_xor_iff bit_not_iff)
  qed
  show ?thesis
    unfolding ht2_try_state_def x f prod.case Let_def k n ..
qed

subsection \<open>Sequences of calls\<close>











subsection \<open>Encrypting and decrypting\<close>

text \<open>What is added to the data, and the register afterwards, depend on the register alone.\<close>

definition padded :: "(nat \<Rightarrow> u8) \<Rightarrow> bytes \<Rightarrow> bytes" where
  "padded ks data = map (\<lambda>j. data ! j XOR ks j) [0..<length data]"

lemma padded_update: "i < length data \<Longrightarrow> padded ks (data[i := data ! i XOR b]) = padded (ks(i := ks i XOR b)) data"
  by (rule nth_equalityI) (auto simp: padded_def nth_list_update xor_ac)

lemma padded_twice: "padded ks (padded ks data) = data"
  by (rule nth_equalityI) (auto simp: padded_def xor.assoc)

lemma length_padded [simp]: "length (padded ks data) = length data"
  by (simp add: padded_def)

lemma padded_padded: "padded ks' (padded ks data) = padded (\<lambda>j. ks j XOR ks' j) data"
  by (rule nth_equalityI) (auto simp: padded_def xor.assoc)

lemma padded_0: "padded (\<lambda>j. 0) data = data"
  by (rule nth_equalityI) (auto simp: padded_def)

lemma transcrypt_bytes_padded: "\<exists>ks st'. \<forall>data. i + n \<le> length data \<longrightarrow> transcrypt_bytes i n st data = (padded ks data, st')"
proof (induction n arbitrary: i st)
  case 0
  then show ?case by (intro exI [of _ "\<lambda>j. 0"] exI [of _ st]) (simp add: padded_0)
next
  case (Suc n)
  obtain b s where b: "ht2_hitag2_byte st = (b, s)" by fastforce
  obtain ks st' where k: "\<forall>data. Suc i + n \<le> length data \<longrightarrow> transcrypt_bytes (Suc i) n s data = (padded ks data, st')" using Suc by blast
  have "\<forall>data. i + Suc n \<le> length data \<longrightarrow> transcrypt_bytes i (Suc n) st data = (padded (ks(i := ks i XOR ucast b)) data, st')"
    using k b padded_update [of i] by simp
  then show ?case by blast
qed

lemma transcrypt_bits_padded: "\<exists>ks st'. \<forall>data. at < length data \<longrightarrow> transcrypt_bits at i n st data = (padded ks data, st')"
proof (induction n arbitrary: i st)
  case 0
  then show ?case by (intro exI [of _ "\<lambda>j. 0"] exI [of _ st]) (simp add: padded_0)
next
  case (Suc n)
  obtain b s where b: "ht2_hitag2_bit st = (b, s)" by fastforce
  obtain ks st' where k: "\<forall>data. at < length data \<longrightarrow> transcrypt_bits at (Suc i) n s data = (padded ks data, st')" using Suc by blast
  have "\<forall>data. at < length data \<longrightarrow> transcrypt_bits at i (Suc n) st data = (padded (ks(at := ks at XOR ucast (shl b (7 - i)))) data, st')"
    using k b padded_update [of at] by simp
  then show ?case by blast
qed

lemma ht2_transcrypt_inverse:
  assumes "ht2_hitag2_cipher_transcrypt st data n bits = Some (data', st')"
  shows "ht2_hitag2_cipher_transcrypt st data' n bits = Some (data, st') \<and> length data' = length data"
proof -
  have l: "bits \<le> 8" "n + (if 0 < bits then 1 else 0) \<le> length data"
    using assms by (auto simp: ht2_hitag2_cipher_transcrypt_def split: if_splits)
  obtain ks s where k: "\<forall>data. 0 + n \<le> length data \<longrightarrow> transcrypt_bytes 0 n st data = (padded ks data, s)"
    using transcrypt_bytes_padded by blast
  obtain js s' where j: "\<forall>data. n < length data \<longrightarrow> transcrypt_bits n 0 bits s data = (padded js data, s')"
    using transcrypt_bits_padded by blast
  show ?thesis
  proof (cases "bits = 0")
    case True
    then show ?thesis using assms k l by (auto simp: ht2_hitag2_cipher_transcrypt_def padded_twice)
  next
    case False
    let ?p = "padded (\<lambda>j. ks j XOR js j)"
    have "ht2_hitag2_cipher_transcrypt st d n bits = Some (?p d, s')" if "length d = length data" for d
      using k j l that False by (simp add: ht2_hitag2_cipher_transcrypt_def padded_padded)
    then show ?thesis using assms padded_twice [of "\<lambda>j. ks j XOR js j" data] by auto
  qed
qed

subsection \<open>Mirrored bytes\<close>

text \<open>The same bytes, each with its bits in the opposite order.\<close>

definition mirrored :: "u64 \<Rightarrow> u64 \<Rightarrow> bool" where
  "mirrored x y \<longleftrightarrow> list_all (\<lambda>n. bit y n = bit x (8 * (n div 8) + (7 - n mod 8))) [0..<64]"

lemma REV8_bits: "REV8 x = fold (\<lambda>i acc. shl acc 1 OR of_bool (bit x i)) [0..<8] 0"
  by (cases "bit x 0"; cases "bit x 1"; cases "bit x 2"; cases "bit x 3"; cases "bit x 4"; cases "bit x 5"; cases "bit x 6"; cases "bit x 7")
    (simp_all add: REV8_def upt_8)

lemma bit_REV8: "bit (REV8 x) n = (n < 8 \<and> bit x (7 - n))"
  unfolding REV8_bits bit_fold_shl by auto

lemma bit_half_sum:
  assumes "\<And>n. m \<le> n \<Longrightarrow> \<not> bit x n"
  shows "bit (x + shl y m) n = (if n < m then bit x n else n < 64 \<and> bit (y :: u64) (n - m))"
proof -
  have "x + shl y m = x OR shl y m"
    by (rule disjunctive_add) (use assms in \<open>auto simp: bit_push_bit_iff not_le\<close>)
  then show ?thesis using assms [of n] by (auto simp: bit_or_iff bit_push_bit_iff)
qed

lemma bit_REV16: "bit (REV16 x) n = (n < 16 \<and> bit x (8 * (n div 8) + (7 - n mod 8)))"
proof -
  have "n - 8 < 8 \<Longrightarrow> 8 \<le> n \<Longrightarrow> n div 8 = 1 \<and> n mod 8 = n - 8" by (simp add: div_nat_eqI mod_nat_eqI)
  then show ?thesis unfolding REV16_def by (subst bit_half_sum) (auto simp: bit_REV8 bit_drop_bit_eq)
qed

lemma mirrored_index:
  fixes n k :: nat
  assumes "8 * k \<le> n"
  shows "8 * ((n - 8 * k) div 8) + (7 - (n - 8 * k) mod 8) + 8 * k = 8 * (n div 8) + (7 - n mod 8)"
proof -
  have "n = (n - 8 * k) + 8 * k" using assms by simp
  then obtain m where n: "n = m + 8 * k" by blast
  have "n div 8 = m div 8 + k" "n mod 8 = m mod 8" unfolding n by simp_all
  then show ?thesis using n by simp
qed

lemma bit_REV32: "bit (REV32 x) n = (n < 32 \<and> bit x (8 * (n div 8) + (7 - n mod 8)))"
  using mirrored_index [of 2 n] unfolding REV32_def
  by (subst bit_half_sum) (auto simp: bit_REV16 bit_drop_bit_eq add.commute [of 16])

lemma bit_REV64: "bit (REV64 x) n = (n < 64 \<and> bit x (8 * (n div 8) + (7 - n mod 8)))"
  using mirrored_index [of 4 n] unfolding REV64_def
  by (subst bit_half_sum) (auto simp: bit_REV32 bit_drop_bit_eq add.commute [of 32])

lemma REV64_mirrored: "mirrored x (REV64 x)"
  by (simp add: mirrored_def list_all_iff bit_REV64)

subsection \<open>The claims\<close>

text \<open>C17: the initialisation of the cipher is invertible, and the key recovery is its inverse: for
  every register of 48 bits, serial number and random number, the key that \<open>ht2_recoverkey\<close> computes is a key of 48
  bits which initialises the cipher to that register, and the only one. From the register two steps
  behind the initialisation, which every register is for some key, \<open>ht2_try_state\<close> computes that key, and accepts it, with its bytes
  mirrored, exactly if the answer \<open>aR2\<close> is the complement of the first 32 keystream bits
  for the second random number.\<close>

theorem ht2_key_recovery:
  assumes "take_bit 48 s = s"
  shows "(take_bit 48 key = key \<and> ht2_hitag2_init key uid nR1 = s \<longleftrightarrow> key = fst (ht2_recoverkey \<lparr>shiftreg = s, lfsr = l\<rparr> uid nR1)) \<and>
    (\<exists>!key. take_bit 48 key = key \<and> shiftreg (snd (ht2_hitag2_nstep (ht2_hitag2_init_ex key uid nR1) 2)) = s \<and>
      ht2_try_state s uid aR2 nR1 nR2 =
        (if map_option fst (ht2_hitag2_word (ht2_hitag2_init key uid nR2) 32) = Some (NOT aR2) then (PM3_SUCCESS, Some (REV64 key)) else (PM3_ESOFT, None)) \<and>
      mirrored key (REV64 key))"
proof -
  have s: "reg_48 s" using assms by (simp add: reg_48_def mask48)
  obtain x where x: "reg_48 x" "(reg_step ^^ 2) x = s" using steps_surj [OF s] by blast
  obtain k where k: "reg_48 k" "ht2_hitag2_init k uid nR1 = x" using init_surj [OF x(1)] by blast
  have u: "key = k" if "reg_48 key" "(reg_step ^^ 2) (ht2_hitag2_init key uid nR1) = s" for key
  proof -
    have "ht2_hitag2_init key uid nR1 = x"
      using fnR_back_steps [OF reg_48_init, of 2 key uid nR1] fnR_back_steps [OF x(1), of 2] that(2) x(2) by simp
    then show ?thesis using init_inj [of uid nR1] k that(1) by (auto simp: inj_on_def)
  qed
  have w: "map_option fst (ht2_hitag2_word (ht2_hitag2_init k uid nR2) 32) = Some (NOT aR2) \<longleftrightarrow>
      aR2 = NOT (fst (ht2_hitag2_nstep (ht2_hitag2_init_ex k uid nR2) 32))"
    using nstep_word [of 32 k uid nR2] by auto
  have t: "ht2_try_state s uid aR2 nR1 nR2 =
      (if map_option fst (ht2_hitag2_word (ht2_hitag2_init k uid nR2) 32) = Some (NOT aR2) then (PM3_SUCCESS, Some (REV64 k)) else (PM3_ESOFT, None))"
    unfolding w by (rule try_state_key [OF k(1)]) (simp add: k(2) x(2))
  show ?thesis
    using recoverkey_iff [OF s] u k x(2) t REV64_mirrored unfolding nstep_steps reg_48_def mask48 by blast
qed

lemma ht2_key_recovery_witness:
  "fst (ht2_recoverkey \<lparr>shiftreg = ht2_hitag2_init 0x123456789ABC 0x11223344 0xDEADBEEF, lfsr = 0\<rparr> 0x11223344 0xDEADBEEF) = 0x123456789ABC"
proof -
  have "take_bit 48 (ht2_hitag2_init 0x123456789ABC 0x11223344 0xDEADBEEF) = ht2_hitag2_init 0x123456789ABC 0x11223344 0xDEADBEEF"
    using reg_48_init by (simp add: reg_48_def mask48)
  from ht2_key_recovery [OF this, of "0x123456789ABC" "0x11223344" "0xDEADBEEF" 0, THEN conjunct1] show ?thesis by simp
qed

end
