(* ===== verification/Spec2Isabelle.thy ===== *)
theory Spec2Isabelle
  imports Crc16_Laws Common_Util_Laws Wiegand_Claims Cipher_Utils Crypto1_Laws Crypto1_Nonces Crapto1_Laws Iclass_Cipher_Laws Des_Laws Iclass_Keys_Laws Iclass_Attack Big_Buf_Claims Mifare_Emul_Claims Packet_Claims Emv_Dol_Claims Bruteforce_Laws Hitag2_Laws
begin

text \<open>
  Verification of the computational core of the proxmark3 firmware and client.

  \<^bold>\<open>The program.\<close> A proxmark3 is a device that reads, emulates and records RFID cards. The firmware
  (\<open>armsrc/\<close>) drives the radio, keeps a trace of all frames in its working memory and executes the
  commands that the client (\<open>client/src/\<close>) on a computer sends over USB or a serial port. Code that both
  use is in \<open>common/\<close>, \<open>common_arm/\<close> and \<open>include/\<close>. A client command sends frames to the device,
  waits for the reply in a ring buffer, and interprets it with the libraries for checksums, card formats
  and ciphers; the attacks on keys run in the client or in tools over the same libraries. This
  development models these libraries, the link, and the memory of the device; radio timing and the user
  interface are left out.

  \<^bold>\<open>Conventions\<close> (theory \<open>Prelude\<close>). An unsigned C integer of \<open>w\<close> bits is a \<open>w word\<close>, an index or a size that
  cannot wrap is a \<open>nat\<close>; arithmetic that the code does in \<open>int\<close> before it stores the result in an
  unsigned type is arithmetic of that type. A byte array is a list, a pointer into a block an offset. Static
  variables and structures are records; a function that changes them returns the changed record.
  Status codes are the integers of \<open>include/pm3_cmd.h\<close> (\<open>Pm3_Codes\<close>); a \<open>NULL\<close> result is \<open>None\<close> or the empty
  list. Definitions keep the names of the code.

  \<^bold>\<open>Parts, in the order of their theories.\<close>

  \<^item> Checksums. \<open>Crc_Core\<close> has the algebra of a CRC register and the locale \<open>byte_register\<close>; \<open>Crc16\<close>
    models \<open>common/crc16.c\<close> with its lookup table, which is regenerated when the protocol changes;
    \<open>Crc16_Laws\<close> proves that the table is never stale, that checksums are accepted and that a changed byte
    is detected. The link and all protocol code rest on it.

  \<^item> Utilities. \<open>Common_Util\<close> (\<open>common/commonutil.c\<close>), \<open>Parity_Bits\<close> (\<open>common/parity.h\<close>) and
    \<open>Cipher_Utils\<close> (\<open>client/src/loclass/cipherutils.c\<close>, the locale \<open>bit_source\<close> for reading from either
    end), with their laws.

  \<^item> Wiegand formats. \<open>Wiegand_Utils\<close> (\<open>client/src/wiegand_formatutils.c\<close>: a message of up to 96 bits,
    fields, HID header), \<open>Wiegand_Formats\<close> (\<open>wiegand_formats.c\<close>: 43 formats as pairs of a packing and
    an unpacking function); \<open>Wiegand_Rows\<close> and \<open>Wiegand_Words\<close> prove the contract of each row,
    \<open>Wiegand_Table\<close> states it as the locales \<open>unpack_table\<close> and \<open>format_table\<close>, interpreted on the table,
    and \<open>Wiegand_Claims\<close> has the properties of packing, searching and decoding.

  \<^item> MIFARE Classic. \<open>Crypto1\<close> (\<open>common/crapto1/crypto1.c\<close> and the rollback of \<open>crapto1.c\<close>) refines the
    48-bit register of the cipher's description (\<open>Crypto1_Laws\<close>); \<open>Crypto1_Nonces\<close> treats the weak
    nonce generator; \<open>Crapto1\<close> models the key recovery with \<open>bucketsort.c\<close>, and \<open>Crapto1_Laws\<close> shows what
    the table extensions and the bucket sort compute.

  \<^item> iCLASS. \<open>Iclass_Cipher\<close> (client and firmware), \<open>Des\<close> (\<open>common/mbedtls/des.c\<close>, locale \<open>block_cipher\<close>),
    \<open>Iclass_Keys\<close> (key diversification) and \<open>Iclass_Elite\<close> (elite keys and the attack on them).
    Their laws compare each with the published definitions and with each other. The threads of the attack are
    a step relation; \<open>Iclass_Search\<close> has its invariant and bound, \<open>Iclass_Attack\<close> the outcome for
    every schedule.

  \<^item> Memory of the device. \<open>Big_Buf\<close> (\<open>armsrc/BigBuf.c\<close>): allocation from the top of one block, the trace at
    its bottom, the emulator memory and the queue of bits to send, with the client's reader of traces.
    \<open>Big_Buf_Laws\<close> and \<open>Big_Buf_Claims\<close> prove the invariant of all reachable states, of the blocks of every
    caller included, and the interface of each user. \<open>Mifare_Emul\<close> (\<open>armsrc/mifareutil.c\<close>, \<open>mifaresim.c\<close>, \<open>client/src/mifare/mifare4.c\<close>)
    builds the emulated card on the emulator memory, through the locale \<open>byte_store\<close>, and compares the access
    decisions of firmware and client.

  \<^item> The link. \<open>Packet_Frames\<close> (\<open>armsrc/cmd.c\<close>, \<open>common_arm/usb_cdc.c\<close>) and \<open>Packet_Client\<close>
    (\<open>client/src/comms.c\<close>, \<open>uart/uart_posix.c\<close>): frames as bytes, the composing and the receiving side
    of both. \<open>Packet_Laws\<close> states the readers as the locales \<open>byte_source\<close> and \<open>serial_port\<close>, interpreted on
    the USB and the serial reader; \<open>Packet_Claims\<close> proves that commands and replies in frames of all
    three kinds arrive, whatever the cut into packets, and what the ring buffer of replies is.

  \<^item> EMV data. \<open>Emv_Tlv\<close> (\<open>client/src/emv/tlv.c\<close>, \<open>dol.c\<close>): trees of TLV elements; \<open>Emv_Tlv_Laws\<close> has the
    grammar and the parsers, \<open>Emv_Tlv_Claims\<close> and \<open>Emv_Dol_Claims\<close> the rest; what a data object list
    asks for is specified by \<open>dol_part\<close> over the elements in document order.

  \<^item> Key search. \<open>Bruteforce\<close> (\<open>common/bruteforce.c\<close>): the generator of candidate keys; \<open>Bruteforce_Laws\<close>
    proves which keys it emits, against the search spaces \<open>charset_allows\<close> and \<open>smart_guess\<close> of byte sequences
    and the number \<open>key_number\<close> that a sequence stands for.

  \<^item> Hitag2. \<open>Hitag2\<close> (\<open>common/hitag2/hitag2_crypto.c\<close>): the optimised cipher with two registers, the plain one of
    the tag emulation, rollback and key recovery. \<open>Hitag2_Laws\<close> proves that the two ciphers are the same, that the
    initialisation is invertible and the key recovery its inverse.

  \<^bold>\<open>Bounds and fuel.\<close> Loops over an index are folds or structural recursions, loops over a buffer
  recursions on its length with a termination proof. Fuel occurs where the code counts or polls:
  \<open>usb_read_loop\<close> has the \<open>0x1FFF + 1\<close> passes after which the code gives up; \<open>take_reply\<close> has one pass for
  every place of the ring buffer, and each pass moves the tail; \<open>smart_loop\<close> has one for every generator and
  one for the end of their table, which \<open>smart_enough\<close> shows to be enough; where a model of the key recovery
  takes a number of rounds it is the number of the code's calls. A list of events (\<open>usb_poll\<close>, \<open>uart_event\<close>)
  stands for what the hardware or the kernel delivers, and nothing arrives after its end.

  \<^bold>\<open>Hypotheses.\<close> The state \<open>crc_reachable\<close> of the checksum code is any that calls can produce. The ports to
  write to are parameters of the sending functions; claims that use one fix it to the wire \<open>to_wire\<close>. Reading a
  dump file and the number of processors are parameters of the iCLASS attack. Allocation on the client is
  assumed to succeed.

  \<^bold>\<open>Not modelled.\<close> The handlers of the air protocols in \<open>armsrc/\<close> (timing, interrupts, FPGA registers), the
  standalone modes, the boot loader and the FPGA; the commands of the client, its user interface, scripts and
  files; the demodulation of low frequency signals, which works on sampled signals with tuned thresholds;
  other card ciphers (CryptoRF, Legic, DESFire) and the attacks in \<open>tools/\<close>; vendored libraries
  (mbedtls except DES, lz4, jansson, Lua and others). Inside the modelled files: printing, debug output,
  allocation failures, opening and closing of connections.
\<close>

end
